(* ===== verification/Prelude.thy ===== *)
theory Prelude
  imports Main "HOL-Library.Word" "HOL-Library.Monad_Syntax" "HOL-Library.Multiset"
begin

text \<open>
  Shared vocabulary of the development: names for the machine integers of the C++ code, the
  option monad in which a run that would be undefined behaviour in C++ is the value \<open>None\<close>,
  checked container accesses and checked \<open>int\<close> arithmetic, the two shapes of counted \<open>for\<close>
  loop the sources use, a postcondition predicate \<open>succeeds\<close> with its rules, and the locale of
  machines whose steps keep an invariant.
\<close>

unbundle bit_operations_syntax

type_synonym u8 = "8 word"
type_synonym u16 = "16 word"
type_synonym u32 = "32 word"
type_synonym u64 = "64 word"

named_theorems wf_intros \<open>preservation of a component's invariant by its operations\<close>

subsection \<open>Postconditions of operations that may be undefined\<close>

definition succeeds :: "'a option \<Rightarrow> ('a \<Rightarrow> bool) \<Rightarrow> bool" where
  "succeeds m Q \<longleftrightarrow> (case m of None \<Rightarrow> False | Some x \<Rightarrow> Q x)"

lemma succeeds_Some [simp]: "succeeds (Some x) Q = Q x"
  by (simp add: succeeds_def)

lemma succeeds_None [simp]: "\<not> succeeds None Q"
  by (simp add: succeeds_def)

lemma succeeds_iff: "succeeds m Q \<longleftrightarrow> (\<exists>x. m = Some x \<and> Q x)"
  by (cases m) auto

lemma succeeds_bind [simp]: "succeeds (m \<bind> f) Q = succeeds m (\<lambda>x. succeeds (f x) Q)"
  by (cases m) auto

lemma succeeds_mono: "succeeds m P \<Longrightarrow> (\<And>x. P x \<Longrightarrow> Q x) \<Longrightarrow> succeeds m Q"
  by (cases m) auto

lemma succeeds_if: "succeeds (if b then m else n) Q = (if b then succeeds m Q else succeeds n Q)"
  by simp

lemma succeedsD: "succeeds m Q \<Longrightarrow> m = Some x \<Longrightarrow> Q x"
  by simp

lemma succeeds_conj: "succeeds m P \<Longrightarrow> succeeds m Q \<Longrightarrow> succeeds m (\<lambda>x. P x \<and> Q x)"
  by (cases m) auto

subsection \<open>Checked container access and checked \<open>int\<close> arithmetic\<close>

text \<open>
  \<open>iget\<close> and \<open>iput\<close> are \<open>operator[]\<close> of \<open>std::vector\<close>, \<open>std::deque\<close> and \<open>std::array\<close> after
  the sources' \<open>static_cast<size_t>\<close> of an \<open>int\<close>: a negative index becomes huge, so every index
  outside the container is undefined behaviour.
\<close>

definition iget :: "'a list \<Rightarrow> int \<Rightarrow> 'a option" where
  "iget xs i = (if 0 \<le> i \<and> i < int (length xs) then Some (xs ! nat i) else None)"

definition iput :: "'a list \<Rightarrow> int \<Rightarrow> 'a \<Rightarrow> 'a list option" where
  "iput xs i x = (if 0 \<le> i \<and> i < int (length xs) then Some (xs[nat i := x]) else None)"

lemma succeeds_iget [simp]:
  "succeeds (iget xs i) Q \<longleftrightarrow> 0 \<le> i \<and> i < int (length xs) \<and> Q (xs ! nat i)"
  by (auto simp: iget_def)

lemma succeeds_iput [simp]:
  "succeeds (iput xs i x) Q \<longleftrightarrow> 0 \<le> i \<and> i < int (length xs) \<and> Q (xs[nat i := x])"
  by (auto simp: iput_def)

lemma iget_inside [simp]: "0 \<le> i \<Longrightarrow> i < int (length xs) \<Longrightarrow> iget xs i = Some (xs ! nat i)"
  by (simp add: iget_def)

lemma iput_inside [simp]: "0 \<le> i \<Longrightarrow> i < int (length xs) \<Longrightarrow> iput xs i x = Some (xs[nat i := x])"
  by (simp add: iput_def)

text \<open>A signed 32-bit result: overflow is undefined behaviour.\<close>

definition i32 :: "int \<Rightarrow> int option" where
  "i32 x = (if -2147483648 \<le> x \<and> x \<le> 2147483647 then Some x else None)"

lemma succeeds_i32 [simp]:
  "succeeds (i32 x) Q \<longleftrightarrow> -2147483648 \<le> x \<and> x \<le> 2147483647 \<and> Q x"
  by (auto simp: i32_def)

text \<open>\<open>std::clamp\<close> is undefined when its bounds are out of order.\<close>

definition clamp :: "int \<Rightarrow> int \<Rightarrow> int \<Rightarrow> int option" where
  "clamp v lo hi = (if hi < lo then None
     else Some (if v < lo then lo else if hi < v then hi else v))"

lemma succeeds_clamp [simp]:
  "succeeds (clamp v lo hi) Q \<longleftrightarrow> lo \<le> hi \<and> Q (max lo (min v hi))"
  by (auto simp: clamp_def max_def min_def)

subsection \<open>Counted loops\<close>

text \<open>
  \<open>for (int i = lo; i < hi; ++i)\<close> and \<open>for (int i = hi; i > lo; --i)\<close> over a state, for loops
  whose bounds the body does not change.  A body that is undefined stops the loop.
\<close>

fun for_up :: "nat \<Rightarrow> int \<Rightarrow> (int \<Rightarrow> 's \<Rightarrow> 's option) \<Rightarrow> 's \<Rightarrow> 's option" where
  "for_up 0 i body s = Some s"
| "for_up (Suc n) i body s = body i s \<bind> for_up n (i + 1) body"

definition for_range :: "int \<Rightarrow> int \<Rightarrow> (int \<Rightarrow> 's \<Rightarrow> 's option) \<Rightarrow> 's \<Rightarrow> 's option" where
  "for_range lo hi body s = for_up (nat (hi - lo)) lo body s"

fun for_dn :: "nat \<Rightarrow> int \<Rightarrow> (int \<Rightarrow> 's \<Rightarrow> 's option) \<Rightarrow> 's \<Rightarrow> 's option" where
  "for_dn 0 i body s = Some s"
| "for_dn (Suc n) i body s = body i s \<bind> for_dn n (i - 1) body"

definition for_down :: "int \<Rightarrow> int \<Rightarrow> (int \<Rightarrow> 's \<Rightarrow> 's option) \<Rightarrow> 's \<Rightarrow> 's option" where
  "for_down hi lo body s = for_dn (nat (hi - lo)) hi body s"

lemma for_up_rule:
  assumes "I i s"
    and "\<And>j t. i \<le> j \<Longrightarrow> j < i + int n \<Longrightarrow> I j t \<Longrightarrow> succeeds (body j t) (I (j + 1))"
  shows "succeeds (for_up n i body s) (I (i + int n))"
  using assms
proof (induction n arbitrary: i s)
  case 0
  then show ?case by simp
next
  case (Suc n)
  have step: "succeeds (body i s) (I (i + 1))"
    using Suc.prems by simp
  have "succeeds (for_up n (i + 1) body t) (I (i + 1 + int n))" if "I (i + 1) t" for t
    using that Suc.prems(2) by (intro Suc.IH) auto
  then have "succeeds (for_up (Suc n) i body s) (I (i + 1 + int n))"
    using step by (auto elim!: succeeds_mono)
  then show ?case by (simp add: algebra_simps)
qed

lemma for_dn_rule:
  assumes "I i s"
    and "\<And>j t. i - int n < j \<Longrightarrow> j \<le> i \<Longrightarrow> I j t \<Longrightarrow> succeeds (body j t) (I (j - 1))"
  shows "succeeds (for_dn n i body s) (I (i - int n))"
  using assms
proof (induction n arbitrary: i s)
  case 0
  then show ?case by simp
next
  case (Suc n)
  have step: "succeeds (body i s) (I (i - 1))"
    using Suc.prems by simp
  have "succeeds (for_dn n (i - 1) body t) (I (i - 1 - int n))" if "I (i - 1) t" for t
    using that Suc.prems(2) by (intro Suc.IH) auto
  then have "succeeds (for_dn (Suc n) i body s) (I (i - 1 - int n))"
    using step by (auto elim!: succeeds_mono)
  then show ?case by (simp add: algebra_simps)
qed

lemma for_range_rule:
  assumes "I lo s"
    and "\<And>j t. lo \<le> j \<Longrightarrow> j < hi \<Longrightarrow> I j t \<Longrightarrow> succeeds (body j t) (I (j + 1))"
    and "\<And>t. I (max lo hi) t \<Longrightarrow> Q t"
  shows "succeeds (for_range lo hi body s) Q"
proof -
  have "succeeds (for_up (nat (hi - lo)) lo body s) (I (lo + int (nat (hi - lo))))"
    using assms(1,2) by (intro for_up_rule) (auto split: if_splits)
  moreover have "lo + int (nat (hi - lo)) = max lo hi" by simp
  ultimately show ?thesis
    using assms(3) by (auto simp: for_range_def elim: succeeds_mono)
qed

lemma for_down_rule:
  assumes "I hi s"
    and "\<And>j t. lo < j \<Longrightarrow> j \<le> hi \<Longrightarrow> I j t \<Longrightarrow> succeeds (body j t) (I (j - 1))"
    and "\<And>t. I (min lo hi) t \<Longrightarrow> Q t"
  shows "succeeds (for_down hi lo body s) Q"
proof -
  have "succeeds (for_dn (nat (hi - lo)) hi body s) (I (hi - int (nat (hi - lo))))"
    using assms(1,2) by (intro for_dn_rule) (auto split: if_splits)
  moreover have "hi - int (nat (hi - lo)) = min lo hi" by simp
  ultimately show ?thesis
    using assms(3) by (auto simp: for_down_def elim: succeeds_mono)
qed

lemma for_range_empty [simp]: "hi \<le> lo \<Longrightarrow> for_range lo hi body s = Some s"
  by (simp add: for_range_def)

lemma for_down_empty [simp]: "hi \<le> lo \<Longrightarrow> for_down hi lo body s = Some s"
  by (simp add: for_down_def)

text \<open>
  What the three copying loops of the sources compute, position by position.
\<close>

lemma succeeds_eqI: "succeeds m (\<lambda>x. x = y) \<Longrightarrow> m = Some y"
  by (cases m) auto

definition tabulate :: "nat \<Rightarrow> (nat \<Rightarrow> 'a) \<Rightarrow> 'a list" where
  "tabulate n f = map f [0..<n]"

lemma length_tabulate [simp]: "length (tabulate n f) = n"
  by (simp add: tabulate_def)

lemma nth_tabulate [simp]: "k < n \<Longrightarrow> tabulate n f ! k = f k"
  by (simp add: tabulate_def)

lemma tabulate_nth [simp]: "tabulate (length xs) (\<lambda>k. xs ! k) = xs"
  by (simp add: tabulate_def map_nth)

lemma eq_tabulateI:
  "length ys = n \<Longrightarrow> (\<And>k. k < n \<Longrightarrow> ys ! k = f k) \<Longrightarrow> ys = tabulate n f"
  by (simp add: list_eq_iff_nth_eq)

lemma fill_loop:
  assumes "lo < hi \<longrightarrow> 0 \<le> lo \<and> hi \<le> int (length xs)"
  shows "for_range lo hi (\<lambda>i xs. iput xs i x) xs =
    Some (tabulate (length xs) (\<lambda>k. if lo \<le> int k \<and> int k < hi then x else xs ! k))"
proof (rule succeeds_eqI, rule for_range_rule [where I = "\<lambda>i ys. length ys = length xs \<and>
    (\<forall>k<length xs. ys ! k = (if lo \<le> int k \<and> int k < i then x else xs ! k))"], goal_cases)
  case 1
  show ?case by auto
next
  case (2 j t)
  then show ?case using assms by (auto simp: nth_list_update)
next
  case (3 t)
  then show ?case by (intro eq_tabulateI) auto
qed

lemma copy_down_loop:
  assumes "lo < hi \<longrightarrow> 0 \<le> lo \<and> 0 \<le> n \<and> hi + n \<le> int (length xs)"
  shows "for_range lo hi (\<lambda>i xs. iget xs (i + n) \<bind> iput xs i) xs =
    Some (tabulate (length xs)
      (\<lambda>k. if lo \<le> int k \<and> int k < hi then xs ! (k + nat n) else xs ! k))"
proof (rule succeeds_eqI, rule for_range_rule [where I = "\<lambda>i ys. length ys = length xs \<and>
    (\<forall>k<length xs. ys ! k = (if lo \<le> int k \<and> int k < i then xs ! (k + nat n) else xs ! k))"],
    goal_cases)
  case 1
  show ?case by auto
next
  case (2 j t)
  then have b: "0 \<le> j" "0 \<le> n" "j + n < int (length xs)" using assms by auto
  then have "nat (j + n) = nat j + nat n" by (simp add: nat_add_distrib)
  with 2 b show ?case by (auto simp: nth_list_update nat_add_distrib)
next
  case (3 t)
  then show ?case by (intro eq_tabulateI) auto
qed

lemma copy_up_loop:
  assumes "lo < hi \<longrightarrow> n \<le> lo + 1 \<and> 0 \<le> n \<and> -1 \<le> lo \<and> hi < int (length xs)"
  shows "for_down hi lo (\<lambda>i xs. iget xs (i - n) \<bind> iput xs i) xs =
    Some (tabulate (length xs)
      (\<lambda>k. if lo < int k \<and> int k \<le> hi then xs ! (k - nat n) else xs ! k))"
proof (rule succeeds_eqI, rule for_down_rule [where I = "\<lambda>i ys. length ys = length xs \<and>
    (\<forall>k<length xs. ys ! k = (if i < int k \<and> int k \<le> hi then xs ! (k - nat n) else xs ! k))"],
    goal_cases)
  case 1
  show ?case by auto
next
  case (2 j t)
  then have b: "0 \<le> j" "0 \<le> n" "0 \<le> j - n" "j < int (length xs)" using assms by auto
  then have "nat (j - n) = nat j - nat n" by (simp add: nat_diff_distrib)
  with 2 b show ?case by (auto simp: nth_list_update)
next
  case (3 t)
  then show ?case by (intro eq_tabulateI) auto
qed

text \<open>A loop body run \<open>n\<close> times that does not read its counter.\<close>

fun repeat_op :: "nat \<Rightarrow> ('s \<Rightarrow> 's option) \<Rightarrow> 's \<Rightarrow> 's option" where
  "repeat_op 0 f s = Some s"
| "repeat_op (Suc n) f s = f s \<bind> repeat_op n f"

lemma repeat_op_rule:
  assumes "I s" and "\<And>t. I t \<Longrightarrow> succeeds (f t) I"
  shows "succeeds (repeat_op n f s) I"
  using assms(1)
proof (induction n arbitrary: s)
  case (Suc n)
  then show ?case using assms(2) [OF Suc.prems] by (auto elim!: succeeds_mono)
qed simp

subsection \<open>Machines whose steps keep an invariant\<close>

text \<open>
  \<open>step\<close> is one operation of a component applied to an event, \<open>inv\<close> its invariant and \<open>ok\<close>
  the condition the environment owes with an event (\<open>\<lambda>_ _. True\<close> when it owes none).
\<close>

fun run :: "('s \<Rightarrow> 'e \<Rightarrow> 's option) \<Rightarrow> 's \<Rightarrow> 'e list \<Rightarrow> 's option" where
  "run step s [] = Some s"
| "run step s (e # es) = step s e \<bind> (\<lambda>t. run step t es)"

lemma run_append: "run step s (es @ fs) = run step s es \<bind> (\<lambda>t. run step t fs)"
  by (induction es arbitrary: s) (auto split: Option.bind_split)

fun run_ok :: "('s \<Rightarrow> 'e \<Rightarrow> 's option) \<Rightarrow> ('s \<Rightarrow> 'e \<Rightarrow> bool) \<Rightarrow> 's \<Rightarrow> 'e list \<Rightarrow> bool" where
  "run_ok step ok s [] = True"
| "run_ok step ok s (e # es) =
     (ok s e \<and> (case step s e of None \<Rightarrow> True | Some t \<Rightarrow> run_ok step ok t es))"

locale safe_machine =
  fixes step :: "'s \<Rightarrow> 'e \<Rightarrow> 's option"
    and inv :: "'s \<Rightarrow> bool"
    and ok :: "'s \<Rightarrow> 'e \<Rightarrow> bool"
  assumes step_safe: "inv s \<Longrightarrow> ok s e \<Longrightarrow> succeeds (step s e) inv"
begin

lemma run_safe: "inv s \<Longrightarrow> run_ok step ok s es \<Longrightarrow> succeeds (run step s es) inv"
proof (induction es arbitrary: s)
  case (Cons e es)
  from Cons.prems have "succeeds (step s e) inv"
    by (auto intro: step_safe)
  then obtain t where t: "step s e = Some t" "inv t"
    by (auto simp: succeeds_iff)
  with Cons show ?case by simp
qed simp

lemma run_total: "inv s \<Longrightarrow> run_ok step ok s es \<Longrightarrow> run step s es \<noteq> None"
  using run_safe [of s es] by (cases "run step s es") auto

end

subsection \<open>Simulation of a specification\<close>

text \<open>
  Outputs along a sequence of operations, of the model and of a deterministic specification; the
  model simulates the specification when one operation does.
\<close>

fun run_out :: "('s \<Rightarrow> 'e \<Rightarrow> ('s \<times> 'r) option) \<Rightarrow> 's \<Rightarrow> 'e list \<Rightarrow> ('s \<times> 'r list) option" where
  "run_out step s [] = Some (s, [])"
| "run_out step s (e # es) = do {
     (t, r) \<leftarrow> step s e;
     (u, rs) \<leftarrow> run_out step t es;
     Some (u, r # rs) }"

fun spec_out :: "('a \<Rightarrow> 'e \<Rightarrow> 'a \<times> 'r) \<Rightarrow> 'a \<Rightarrow> 'e list \<Rightarrow> 'a \<times> 'r list" where
  "spec_out spec a [] = (a, [])"
| "spec_out spec a (e # es) = (let (b, r) = spec a e; (c, rs) = spec_out spec b es in (c, r # rs))"

fun spec_ok :: "('a \<Rightarrow> 'e \<Rightarrow> 'a \<times> 'r) \<Rightarrow> ('a \<Rightarrow> 'e \<Rightarrow> bool) \<Rightarrow> 'a \<Rightarrow> 'e list \<Rightarrow> bool" where
  "spec_ok spec ok a [] = True"
| "spec_ok spec ok a (e # es) = (ok a e \<and> spec_ok spec ok (fst (spec a e)) es)"

text \<open>
  In general the states are related and what the client owes may depend on the abstract state; a
  \<open>simulation\<close> is the case of an abstraction function.
\<close>

locale related =
  fixes step :: "'s \<Rightarrow> 'e \<Rightarrow> ('s \<times> 'r) option"
    and spec :: "'a \<Rightarrow> 'e \<Rightarrow> 'a \<times> 'r"
    and rel :: "'s \<Rightarrow> 'a \<Rightarrow> bool"
    and ok :: "'a \<Rightarrow> 'e \<Rightarrow> bool"
  assumes step_rel: "rel s a \<Longrightarrow> ok a e \<Longrightarrow>
    \<exists>t. step s e = Some (t, snd (spec a e)) \<and> rel t (fst (spec a e))"
begin

lemma run_rel:
  "rel s a \<Longrightarrow> spec_ok spec ok a es \<Longrightarrow>
   \<exists>t. run_out step s es = Some (t, snd (spec_out spec a es)) \<and> rel t (fst (spec_out spec a es))"
proof (induction es arbitrary: s a)
  case (Cons e es)
  then obtain t where t: "step s e = Some (t, snd (spec a e))" "rel t (fst (spec a e))"
    using step_rel [of s a e] by auto
  with Cons.IH [of t "fst (spec a e)"] Cons.prems show ?case
    by (auto simp: split_beta)
qed simp

end

locale simulation =
  fixes step :: "'s \<Rightarrow> 'e \<Rightarrow> ('s \<times> 'r) option"
    and spec :: "'a \<Rightarrow> 'e \<Rightarrow> 'a \<times> 'r"
    and abs :: "'s \<Rightarrow> 'a"
    and inv :: "'s \<Rightarrow> bool"
    and ok :: "'e \<Rightarrow> bool"
  assumes step_sim: "inv s \<Longrightarrow> ok e \<Longrightarrow>
    \<exists>t r. step s e = Some (t, r) \<and> inv t \<and> spec (abs s) e = (abs t, r)"
begin

sublocale related step spec "\<lambda>s a. inv s \<and> a = abs s" "\<lambda>_. ok"
  by unfold_locales (use step_sim in fastforce)

lemma run_sim:
  "inv s \<Longrightarrow> list_all ok es \<Longrightarrow>
   \<exists>t rs. run_out step s es = Some (t, rs) \<and> inv t \<and> spec_out spec (abs s) es = (abs t, rs)"
proof -
  have "list_all ok es \<Longrightarrow> spec_ok spec (\<lambda>_. ok) a es" for a
    by (induction es arbitrary: a) auto
  then show "inv s \<Longrightarrow> list_all ok es \<Longrightarrow> ?thesis"
    using run_rel [of s "abs s" es] by (auto simp: prod_eq_iff)
qed

end

subsection \<open>Systems of interleaved steps\<close>

text \<open>What a step relation reaches from its initial states, and invariants of it.\<close>

inductive reach :: "('s \<Rightarrow> bool) \<Rightarrow> ('s \<Rightarrow> 's \<Rightarrow> bool) \<Rightarrow> 's \<Rightarrow> bool" for init step where
  reach_init: "init s \<Longrightarrow> reach init step s"
| reach_step: "reach init step s \<Longrightarrow> step s t \<Longrightarrow> reach init step t"

lemma reach_steps: "step\<^sup>*\<^sup>* s t \<Longrightarrow> reach init step s \<Longrightarrow> reach init step t"
  by (induction rule: rtranclp_induct) (auto intro: reach_step)

locale invariant_system =
  fixes init :: "'s \<Rightarrow> bool"
    and step :: "'s \<Rightarrow> 's \<Rightarrow> bool"
    and inv :: "'s \<Rightarrow> bool"
  assumes inv_init: "init s \<Longrightarrow> inv s"
    and inv_step: "inv s \<Longrightarrow> step s t \<Longrightarrow> inv t"
begin

lemma reach_inv: "reach init step s \<Longrightarrow> inv s"
  by (induction rule: reach.induct) (auto intro: inv_init inv_step)

end

text \<open>A quantity summed over threads, when one thread moves.\<close>

lemma sum_list_update:
  fixes f :: "'a \<Rightarrow> 'b::comm_monoid_add"
  assumes "t < length xs"
  shows "sum_list (map f (xs[t := y])) + f (xs ! t) = sum_list (map f xs) + f y"
  using assms
proof (induction xs arbitrary: t)
  case (Cons x xs)
  then show ?case by (cases t) (auto simp: ac_simps)
qed simp

lemma sum_list_member:
  fixes f :: "'a \<Rightarrow> 'b multiset"
  shows "x \<in> set xs \<Longrightarrow> f x \<subseteq># sum_list (map f xs)"
  by (induction xs) (auto simp: subset_mset.add_increasing subset_mset.add_increasing2)

end
