(* ===== verification/Compositor.thy ===== *)
theory Compositor
  imports Prelude "HOL-Library.Signed_Division"
begin

text \<open>
  The windows of the compositor: the master-stack layout (\<open>compositor/tiling.cpp\<close>), the workspace with its
  list of mapped views, the most recently focused first (\<open>workspace.cpp\<close>), and the views' handlers and
  focus (\<open>view.cpp\<close>).  The state has what the code tells wlroots: position and requested size of each view, which
  are activated, their order in the scene, and the surface with the keyboard focus.  The output and the
  presence of a keyboard are arguments, as is the product of a width and the float \<open>master_ratio_\<close>,
  rounded to an \<open>int\<close>.  Views are numbers.  \<open>None\<close> is an overflow of an \<open>int\<close>.
\<close>

subsection \<open>State\<close>

datatype layout_mode = Tiling | Floating | Monocle

record box =
  bx :: int
  by' :: int
  bw :: int
  bh :: int

text \<open>A surface with the keyboard focus is that of a view or of something else, such as a panel.\<close>

datatype surface = Toplevel nat | Other_Surface

record 'f workspace =
  views :: "nat list"
  layout :: layout_mode
  float_states :: "(nat \<times> box) list"
  gap_px :: int
  master_ratio :: 'f
  position_of :: "nat \<Rightarrow> int \<times> int"
  size_of :: "nat \<Rightarrow> int \<times> int"
  mapped :: "nat \<Rightarrow> bool"
  was_focused :: "nat \<Rightarrow> bool"
  activated :: "nat \<Rightarrow> bool"
  maximized :: "nat \<Rightarrow> bool"
  fullscreen :: "nat \<Rightarrow> bool"
  stacking :: "nat list"
  seat_focus :: "surface option"

text \<open>The output in the centre: its box in the layout and its size.\<close>

record 'f surroundings =
  center_output :: "(box \<times> int \<times> int) option"
  has_keyboard :: bool
  scale :: "int \<Rightarrow> 'f \<Rightarrow> int"

subsection \<open>Views\<close>

definition set_position :: "nat \<Rightarrow> int \<Rightarrow> int \<Rightarrow> 'f workspace \<Rightarrow> 'f workspace" where
  "set_position v x y w = w\<lparr>position_of := (position_of w)(v := (x, y))\<rparr>"

definition set_size :: "nat \<Rightarrow> int \<Rightarrow> int \<Rightarrow> 'f workspace \<Rightarrow> 'f workspace" where
  "set_size v x y w = w\<lparr>size_of := (size_of w)(v := (x, y))\<rparr>"

definition view_focus :: "'f surroundings \<Rightarrow> nat \<Rightarrow> 'f workspace \<Rightarrow> 'f workspace" where
  "view_focus env v w =
     (if seat_focus w = Some (Toplevel v) then w
      else
        let w = (case seat_focus w of
            Some (Toplevel p) \<Rightarrow> w\<lparr>activated := (activated w)(p := False)\<rparr>
          | _ \<Rightarrow> w);
          w = w\<lparr>stacking := v # removeAll v (stacking w)\<rparr>;
          w = w\<lparr>activated := (activated w)(v := True), was_focused := (was_focused w)(v := True)\<rparr> in
        if has_keyboard env then w\<lparr>seat_focus := Some (Toplevel v)\<rparr> else w)"

subsection \<open>Layout\<close>

text \<open>The loop over the stack.\<close>

fun place_stack :: "int \<Rightarrow> int \<Rightarrow> int \<Rightarrow> int \<Rightarrow> int \<Rightarrow> int \<Rightarrow> nat list \<Rightarrow> 'f workspace \<Rightarrow> 'f workspace option" where
  "place_stack y_top g stack_x stack_w slot_h i [] w = Some w"
| "place_stack y_top g stack_x stack_w slot_h i (v # vs) w = do {
     pitch \<leftarrow> i32 (slot_h + g);
     off \<leftarrow> i32 (i * pitch);
     y0 \<leftarrow> i32 (y_top + g);
     y \<leftarrow> i32 (y0 + off);
     place_stack y_top g stack_x stack_w slot_h (i + 1) vs (set_size v stack_w slot_h (set_position v stack_x y w)) }"

definition inner :: "int \<Rightarrow> int \<Rightarrow> int option" where
  "inner len g = do { twice \<leftarrow> i32 (2 * g); i32 (len - twice) }"

definition fill_area :: "int \<Rightarrow> box \<Rightarrow> nat \<Rightarrow> 'f workspace \<Rightarrow> 'f workspace option" where
  "fill_area g area v w = do {
     x \<leftarrow> i32 (bx area + g);
     y \<leftarrow> i32 (by' area + g);
     wd \<leftarrow> inner (bw area) g;
     ht \<leftarrow> inner (bh area) g;
     Some (set_size v wd ht (set_position v x y w)) }"

definition arrange_tiling :: "'f surroundings \<Rightarrow> box \<Rightarrow> 'f workspace \<Rightarrow> 'f workspace option" where
  "arrange_tiling env area w =
     (let g = gap_px w in
      case views w of
        [] \<Rightarrow> Some w
      | [v] \<Rightarrow> fill_area g area v w
      | v # vs \<Rightarrow> do {
          gaps \<leftarrow> i32 (3 * g);
          free \<leftarrow> i32 (bw area - gaps);
          let master_w = scale env free (master_ratio w);
          rest \<leftarrow> i32 (bw area - master_w);
          stack_w \<leftarrow> i32 (rest - gaps);
          master_x \<leftarrow> i32 (bx area + g);
          right \<leftarrow> i32 (master_x + master_w);
          stack_x \<leftarrow> i32 (right + g);
          y \<leftarrow> i32 (by' area + g);
          ht \<leftarrow> inner (bh area) g;
          let w = set_size v master_w ht (set_position v master_x y w);
          let stack_count = int (length vs);
          between \<leftarrow> i32 ((stack_count - 1) * g);
          free_h \<leftarrow> i32 (ht - between);
          place_stack (by' area) g stack_x stack_w (free_h sdiv stack_count) 0 vs w })"

fun arrange_monocle :: "box \<Rightarrow> nat list \<Rightarrow> 'f workspace \<Rightarrow> 'f workspace option" where
  "arrange_monocle area [] w = Some w"
| "arrange_monocle area (v # vs) w = do { w \<leftarrow> fill_area (gap_px w) area v w; arrange_monocle area vs w }"

definition arrange :: "'f surroundings \<Rightarrow> box \<Rightarrow> 'f workspace \<Rightarrow> 'f workspace option" where
  "arrange env area w =
     (if views w = [] then Some w
      else case layout w of
        Tiling \<Rightarrow> arrange_tiling env area w
      | Monocle \<Rightarrow> arrange_monocle area (views w) w
      | Floating \<Rightarrow> Some w)"

definition set_master_ratio :: "('f::linorder) \<Rightarrow> 'f \<Rightarrow> 'f \<Rightarrow> 'f workspace \<Rightarrow> 'f workspace" where
  "set_master_ratio low high r w = w\<lparr>master_ratio := (if r < low then low else if high < r then high else r)\<rparr>"

definition set_gap :: "int \<Rightarrow> 'f workspace \<Rightarrow> 'f workspace" where
  "set_gap px w = w\<lparr>gap_px := px\<rparr>"

subsection \<open>The workspace\<close>

definition usable_area :: "'f surroundings \<Rightarrow> box" where
  "usable_area env =
     (case center_output env of
        None \<Rightarrow> \<lparr>bx = 0, by' = 0, bw = 1920, bh = 1080\<rparr>
      | Some (area, _) \<Rightarrow> area)"

definition remove_view :: "nat \<Rightarrow> 'f workspace \<Rightarrow> 'f workspace" where
  "remove_view v w = w\<lparr>views := removeAll v (views w), float_states := filter (\<lambda>s. fst s \<noteq> v) (float_states w)\<rparr>"

definition retile :: "'f surroundings \<Rightarrow> 'f workspace \<Rightarrow> 'f workspace option" where
  "retile env w = (if views w = [] then Some w else arrange env (usable_area env) w)"

definition set_layout :: "'f surroundings \<Rightarrow> layout_mode \<Rightarrow> 'f workspace \<Rightarrow> 'f workspace option" where
  "set_layout env mode w = retile env (w\<lparr>layout := mode\<rparr>)"

definition focus_view :: "'f surroundings \<Rightarrow> nat \<Rightarrow> 'f workspace \<Rightarrow> 'f workspace" where
  "focus_view env v w =
     (let w = remove_view v w;
          w = w\<lparr>views := v # views w\<rparr> in
      view_focus env v w)"

definition focus_next :: "'f surroundings \<Rightarrow> 'f workspace \<Rightarrow> 'f workspace" where
  "focus_next env w = (if length (views w) < 2 then w else focus_view env (views w ! 1) w)"

definition focus_prev :: "'f surroundings \<Rightarrow> 'f workspace \<Rightarrow> 'f workspace" where
  "focus_prev env w = (if views w = [] then w else focus_view env (last (views w)) w)"

definition focused :: "'f workspace \<Rightarrow> nat option" where
  "focused w = (if views w = [] then None else Some (hd (views w)))"

definition on_view_map :: "'f surroundings \<Rightarrow> nat \<Rightarrow> 'f workspace \<Rightarrow> 'f workspace option" where
  "on_view_map env v w =
     (let w = w\<lparr>views := v # views w\<rparr> in
      if layout w = Tiling then retile env w else Some w)"

definition on_view_unmap :: "'f surroundings \<Rightarrow> nat \<Rightarrow> 'f workspace \<Rightarrow> 'f workspace option" where
  "on_view_unmap env v w = do {
     let w = remove_view v w;
     w \<leftarrow> (if layout w = Tiling then retile env w else Some w);
     Some (if views w \<noteq> [] then focus_view env (hd (views w)) w else w) }"

definition on_view_request_move :: "'f surroundings \<Rightarrow> nat \<Rightarrow> 'f workspace \<Rightarrow> 'f workspace option" where
  "on_view_request_move env v w = (if layout w = Tiling then set_layout env Floating w else Some w)"

definition on_view_request_resize :: "'f surroundings \<Rightarrow> nat \<Rightarrow> 'f workspace \<Rightarrow> 'f workspace option" where
  "on_view_request_resize env v w = (if layout w = Tiling then set_layout env Floating w else Some w)"

definition on_view_request_maximize :: "'f surroundings \<Rightarrow> nat \<Rightarrow> 'f workspace \<Rightarrow> 'f workspace" where
  "on_view_request_maximize env v w =
     (let area = usable_area env;
          w = set_size v (bw area) (bh area) (set_position v (bx area) (by' area) w) in
      w\<lparr>maximized := (maximized w)(v := True)\<rparr>)"

definition on_view_request_fullscreen :: "'f surroundings \<Rightarrow> nat \<Rightarrow> 'f workspace \<Rightarrow> 'f workspace" where
  "on_view_request_fullscreen env v w =
     (case center_output env of
        None \<Rightarrow> w
      | Some (_, wd, ht) \<Rightarrow>
          let w = set_size v wd ht (set_position v 0 0 w) in
          w\<lparr>fullscreen := (fullscreen w)(v := True)\<rparr>)"

definition handle_map :: "'f surroundings \<Rightarrow> nat \<Rightarrow> 'f workspace \<Rightarrow> 'f workspace option" where
  "handle_map env v w = do {
     let w = w\<lparr>mapped := (mapped w)(v := True)\<rparr>;
     w \<leftarrow> on_view_map env v w;
     Some (view_focus env v w) }"

definition handle_unmap :: "'f surroundings \<Rightarrow> nat \<Rightarrow> 'f workspace \<Rightarrow> 'f workspace option" where
  "handle_unmap env v w = on_view_unmap env v (w\<lparr>mapped := (mapped w)(v := False)\<rparr>)"

subsection \<open>Requests\<close>

text \<open>
  The events that reach the workspace: those of the views, the key bindings of \<open>input.cpp\<close>, a click on a view,
  and the commands of \<open>ipc.cpp\<close>, with the first view of the application a command names.
\<close>

datatype ws_event =
    Map_View nat | Unmap_View nat | Request_Move nat | Request_Resize nat | Request_Maximize nat
  | Request_Fullscreen nat | Key_Next | Key_Prev | Key_Layout | Click nat | Focus_App nat | Set_Layout layout_mode | Retile

fun ws_step :: "'f workspace \<Rightarrow> 'f surroundings \<times> ws_event \<Rightarrow> 'f workspace option" where
  "ws_step w (env, Map_View v) = handle_map env v w"
| "ws_step w (env, Unmap_View v) = handle_unmap env v w"
| "ws_step w (env, Request_Move v) = on_view_request_move env v w"
| "ws_step w (env, Request_Resize v) = on_view_request_resize env v w"
| "ws_step w (env, Request_Maximize v) = Some (on_view_request_maximize env v w)"
| "ws_step w (env, Request_Fullscreen v) = Some (on_view_request_fullscreen env v w)"
| "ws_step w (env, Key_Next) = Some (focus_next env w)"
| "ws_step w (env, Key_Prev) = Some (focus_prev env w)"
| "ws_step w (env, Key_Layout) = set_layout env (if layout w = Tiling then Floating else Tiling) w"
| "ws_step w (env, Click v) = Some (focus_view env v w)"
| "ws_step w (env, Focus_App v) = Some (focus_view env v w)"
| "ws_step w (env, Set_Layout mode) = set_layout env mode w"
| "ws_step w (env, Retile) = retile env w"

subsection \<open>Focus\<close>

lemma view_focus_frame [simp]:
  "views (view_focus env v w) = views w" "layout (view_focus env v w) = layout w"
  "gap_px (view_focus env v w) = gap_px w" "mapped (view_focus env v w) = mapped w"
  "position_of (view_focus env v w) = position_of w" "size_of (view_focus env v w) = size_of w"
  by (auto simp: view_focus_def Let_def split: option.splits surface.splits)

lemma focus_view_frame [simp]:
  "views (focus_view env v w) = v # removeAll v (views w)" "layout (focus_view env v w) = layout w"
  "gap_px (focus_view env v w) = gap_px w" "mapped (focus_view env v w) = mapped w"
  "position_of (focus_view env v w) = position_of w" "size_of (focus_view env v w) = size_of w"
  by (simp_all add: focus_view_def remove_view_def Let_def)

lemma views_focus_next:
  "distinct (u # v # vs) \<Longrightarrow> views w = u # v # vs \<Longrightarrow> views (focus_next env w) = v # u # vs"
  by (simp add: focus_next_def removeAll_id)

lemma views_focus_prev:
  "distinct (views w) \<Longrightarrow> views (focus_prev env w) = rev (rotate1 (rev (views w)))"
proof (cases "views w" rule: rev_cases)
  case (snoc vs v)
  moreover assume "distinct (views w)"
  ultimately show ?thesis
    by (simp add: focus_prev_def removeAll_id)
qed (simp add: focus_prev_def)

text \<open>Repeating \<open>focus_next\<close> only goes back and forth between the two most recently focused views, since focusing a
  view moves it to the front of the list that \<open>focus_next\<close> takes the second of; repeating \<open>focus_prev\<close> focuses every
  view in turn.\<close>

theorem focus_keys:
  assumes "distinct (views w)" and "views w = u # v # vs"
  shows "focused ((focus_next env ^^ n) w) = Some (if even n then u else v) \<and>
    focused ((focus_prev env ^^ n) w) = Some (rev (views w) ! ((length (views w) - 1 + n) mod length (views w)))"
proof -
  have nxt: "views ((focus_next env ^^ n) w) = (if even n then u # v # vs else v # u # vs)"
    using assms by (induction n) (auto simp: views_focus_next)
  have prev: "views ((focus_prev env ^^ n) w) = rev (rotate n (rev (views w)))"
    using assms(1) by (induction n) (simp_all add: views_focus_prev)
  have ne: "rotate n (rev (views w)) \<noteq> []"
    using assms(2) by simp
  have "hd (rev (rotate n (rev (views w)))) = rotate n (rev (views w)) ! (length (views w) - 1)"
    using ne by (simp add: hd_rev last_conv_nth del: rotate_is_Nil_conv)
  also have "\<dots> = rev (views w) ! ((n + (length (views w) - 1)) mod length (views w))"
    using assms(2) by (subst nth_rotate) auto
  finally show ?thesis
    using nxt prev ne by (simp add: focused_def add.commute)
qed

subsection \<open>The layout\<close>

text \<open>Bounds under which no \<open>int\<close> overflows: an area of at most a million pixels, a gap and a number of views of at most
  a thousand, and a ratio between 0 and 1.\<close>

definition area_ok :: "box \<Rightarrow> bool" where
  "area_ok a \<longleftrightarrow> \<bar>bx a\<bar> \<le> 2 ^ 20 \<and> \<bar>by' a\<bar> \<le> 2 ^ 20 \<and> 0 \<le> bw a \<and> bw a \<le> 2 ^ 20 \<and> 0 \<le> bh a \<and> bh a \<le> 2 ^ 20"

definition env_ok :: "'f surroundings \<Rightarrow> bool" where
  "env_ok env \<longleftrightarrow> area_ok (usable_area env) \<and> (\<forall>x r. min 0 x \<le> scale env x r \<and> scale env x r \<le> max 0 x)"

definition ws_inv :: "'f workspace \<Rightarrow> bool" where
  "ws_inv w \<longleftrightarrow> distinct (views w) \<and> (\<forall>v. v \<in> set (views w) \<longleftrightarrow> mapped w v) \<and> length (views w) \<le> 2 ^ 10 \<and>
     0 \<le> gap_px w \<and> gap_px w \<le> 2 ^ 10"

lemma i32_small [simp]: "-2147483648 \<le> x \<Longrightarrow> x \<le> 2147483647 \<Longrightarrow> i32 x = Some x"
  by (simp add: i32_def)

lemma set_geometry_frame [simp]:
  "views (set_position v x y w) = views w" "views (set_size v x y w) = views w"
  "mapped (set_position v x y w) = mapped w" "mapped (set_size v x y w) = mapped w"
  "gap_px (set_position v x y w) = gap_px w" "gap_px (set_size v x y w) = gap_px w"
  "layout (set_position v x y w) = layout w" "layout (set_size v x y w) = layout w"
  "position_of (set_position v x y w) = (position_of w)(v := (x, y))" "position_of (set_size v x y w) = position_of w"
  "size_of (set_size v x y w) = (size_of w)(v := (x, y))" "size_of (set_position v x y w) = size_of w"
  by (simp_all add: set_position_def set_size_def)

definition same_windows :: "'f workspace \<Rightarrow> 'f workspace \<Rightarrow> bool" where
  "same_windows w w' \<longleftrightarrow> views w' = views w \<and> mapped w' = mapped w \<and> gap_px w' = gap_px w \<and> layout w' = layout w"

text \<open>What the loop over the stack does, when its slots are small enough.\<close>

lemma place_stack_spec:
  assumes "\<bar>y_top\<bar> \<le> 2 ^ 20" and "0 \<le> g" and "g \<le> 2 ^ 10" and "\<bar>slot_h\<bar> \<le> 2 ^ 20 + 2 ^ 21"
    and "0 \<le> i" and "int (length vs) * \<bar>slot_h + g\<bar> \<le> 2 ^ 24" and "\<bar>i * (slot_h + g)\<bar> + int (length vs) * \<bar>slot_h + g\<bar> \<le> 2 ^ 24"
    and "distinct vs"
  shows "\<exists>w'. place_stack y_top g x wd slot_h i vs w = Some w' \<and> same_windows w w' \<and>
    (\<forall>j<length vs. position_of w' (vs ! j) = (x, y_top + g + (i + int j) * (slot_h + g)) \<and> size_of w' (vs ! j) = (wd, slot_h)) \<and>
    (\<forall>v. v \<notin> set vs \<longrightarrow> position_of w' v = position_of w v \<and> size_of w' v = size_of w v)"
  using assms(5-8)
proof (induction vs arbitrary: i w)
  case Nil
  then show ?case
    by (simp add: same_windows_def)
next
  case (Cons v vs)
  let ?w = "set_size v wd slot_h (set_position v x (y_top + g + i * (slot_h + g)) w)"
  have len: "int (length (v # vs)) * \<bar>slot_h + g\<bar> = int (length vs) * \<bar>slot_h + g\<bar> + \<bar>slot_h + g\<bar>"
    by (simp add: distrib_right)
  have next_i: "\<bar>(i + 1) * (slot_h + g)\<bar> \<le> \<bar>i * (slot_h + g)\<bar> + \<bar>slot_h + g\<bar>"
    by (simp add: distrib_right abs_triangle_ineq)
  have small: "\<bar>i * (slot_h + g)\<bar> \<le> 2 ^ 24"
    using Cons.prems(3) by (smt (verit) of_nat_0_le_iff zero_le_mult_iff)
  have pre: "int (length vs) * \<bar>slot_h + g\<bar> \<le> 2 ^ 24"
      "\<bar>(i + 1) * (slot_h + g)\<bar> + int (length vs) * \<bar>slot_h + g\<bar> \<le> 2 ^ 24"
    using Cons.prems(2,3) next_i unfolding len by linarith+
  obtain w' where w': "place_stack y_top g x wd slot_h (i + 1) vs ?w = Some w'" "same_windows ?w w'"
      "\<forall>j<length vs. position_of w' (vs ! j) = (x, y_top + g + (i + 1 + int j) * (slot_h + g)) \<and> size_of w' (vs ! j) = (wd, slot_h)"
      "\<forall>u. u \<notin> set vs \<longrightarrow> position_of w' u = position_of ?w u \<and> size_of w' u = size_of ?w u"
    using Cons.IH [of "i + 1" ?w] Cons.prems(1,4) pre by (metis add_nonneg_nonneg distinct.simps(2) zero_le_one)
  have "place_stack y_top g x wd slot_h i (v # vs) w = Some w'"
    using w'(1) small assms(1-4) by simp
  moreover have "position_of w' ((v # vs) ! j) = (x, y_top + g + (i + int j) * (slot_h + g)) \<and> size_of w' ((v # vs) ! j) = (wd, slot_h)"
    if "j < length (v # vs)" for j
    using that w'(3,4) Cons.prems(4) by (cases j) (auto simp: algebra_simps)
  ultimately show ?case
    using w'(2,4) by (intro exI [of _ w']) (simp add: same_windows_def)
qed

lemma sdiv_bounds:
  fixes a k :: int
  assumes "0 < k"
  shows "k * \<bar>a sdiv k\<bar> \<le> \<bar>a\<bar>" and "\<bar>a sdiv k\<bar> \<le> \<bar>a\<bar>" and "0 \<le> a \<Longrightarrow> 0 \<le> a sdiv k"
proof -
  have eq: "\<bar>a sdiv k\<bar> = \<bar>a\<bar> div k"
    using assms by (cases "a = 0") (auto simp: signed_divide_int_def abs_mult pos_imp_zdiv_nonneg_iff)
  show "k * \<bar>a sdiv k\<bar> \<le> \<bar>a\<bar>"
    unfolding eq using assms by (metis mod_int_pos_iff mult_div_mod_eq add.commute le_add_same_cancel2)
  show "\<bar>a sdiv k\<bar> \<le> \<bar>a\<bar>"
    unfolding eq using assms by (metis abs_ge_zero div_by_1 zdiv_mono2 int_one_le_iff_zero_less zero_less_one)
  show "0 \<le> a sdiv k" if "0 \<le> a"
    using that assms by (auto simp: signed_divide_int_def pos_imp_zdiv_nonneg_iff sgn_if)
qed

lemma area_okD:
  assumes "area_ok a"
  shows "- 1048576 \<le> bx a" "bx a \<le> 1048576" "- 1048576 \<le> by' a" "by' a \<le> 1048576" "0 \<le> bw a" "bw a \<le> 1048576"
    "0 \<le> bh a" "bh a \<le> 1048576"
  using assms by (auto simp: area_ok_def abs_le_iff)

lemma fill_area_spec:
  assumes "area_ok a" and "0 \<le> g" and "g \<le> 2 ^ 10"
  shows "fill_area g a v w = Some (set_size v (bw a - 2 * g) (bh a - 2 * g) (set_position v (bx a + g) (by' a + g) w))"
  using area_okD [OF assms(1)] assms(2,3) by (simp add: fill_area_def inner_def)

lemma arrange_tiling_spec:
  assumes "area_ok a" and "0 \<le> gap_px w" and "gap_px w \<le> 2 ^ 10" and "views w = v # vs" and "vs \<noteq> []" and "distinct (v # vs)"
    and "length vs \<le> 2 ^ 10" and "min 0 (bw a - 3 * gap_px w) \<le> scale env (bw a - 3 * gap_px w) (master_ratio w)"
    and "scale env (bw a - 3 * gap_px w) (master_ratio w) \<le> max 0 (bw a - 3 * gap_px w)"
    and m: "m = scale env (bw a - 3 * gap_px w) (master_ratio w)" and g: "g = gap_px w" and k: "k = int (length vs)"
    and slot: "slot = (bh a - 2 * g - (k - 1) * g) sdiv k"
  shows "\<exists>w'. arrange_tiling env a w = Some w' \<and> same_windows w w' \<and>
    position_of w' v = (bx a + g, by' a + g) \<and> size_of w' v = (m, bh a - 2 * g) \<and>
    (\<forall>j<length vs. position_of w' (vs ! j) = (bx a + g + m + g, by' a + g + int j * (slot + g)) \<and>
      size_of w' (vs ! j) = (bw a - m - 3 * g, slot))"
proof -
  have gk: "0 \<le> g" "g \<le> 1024" "0 < k" "k \<le> 1024"
    using assms(2,3,5,7) by (auto simp: g k)
  have kg: "0 \<le> (k - 1) * g" "(k - 1) * g \<le> 1048576" "0 \<le> k * g" "k * g \<le> 1048576"
    using gk mult_mono [of "k - 1" 1024 g 1024] mult_mono [of k 1024 g 1024] by auto
  let ?free = "bh a - 2 * g - (k - 1) * g"
  have free: "\<bar>?free\<bar> \<le> 1050624"
    using area_okD [OF assms(1)] kg gk unfolding abs_le_iff by linarith
  have slot_b: "k * \<bar>slot\<bar> \<le> 1050624" "\<bar>slot\<bar> \<le> 1050624"
    using sdiv_bounds(1,2) [OF gk(3), of ?free] free unfolding slot by linarith+
  have "k * \<bar>slot + g\<bar> \<le> k * (\<bar>slot\<bar> + g)"
    using gk by (intro mult_left_mono) auto
  then have total: "k * \<bar>slot + g\<bar> \<le> 2 ^ 24"
    using slot_b(1) kg(4) by (simp add: distrib_left)
  have ma: "\<bar>m\<bar> \<le> 2 ^ 20 + 2 ^ 12" "\<bar>by' a\<bar> \<le> 2 ^ 20"
    using assms(1,8,9) gk unfolding m area_ok_def by (auto simp: g)
  let ?w = "set_size v m (bh a - 2 * g) (set_position v (bx a + g) (by' a + g) w)"
  obtain w' where w': "place_stack (by' a) g (bx a + g + m + g) (bw a - m - 3 * g) slot 0 vs ?w = Some w'" "same_windows ?w w'"
      "\<forall>j<length vs. position_of w' (vs ! j) = (bx a + g + m + g, by' a + g + (0 + int j) * (slot + g)) \<and>
        size_of w' (vs ! j) = (bw a - m - 3 * g, slot)"
      "\<forall>u. u \<notin> set vs \<longrightarrow> position_of w' u = position_of ?w u \<and> size_of w' u = size_of ?w u"
    using place_stack_spec [OF ma(2) gk(1), of slot 0 vs "bx a + g + m + g" "bw a - m - 3 * g" ?w] slot_b gk(2) total assms(6)
    by (auto simp: k)
  obtain u us where vs: "vs = u # us"
    using assms(5) by (cases vs) auto
  have in_range: "i32 (3 * g) = Some (3 * g)" "i32 (bw a - 3 * g) = Some (bw a - 3 * g)" "i32 (bw a - m) = Some (bw a - m)"
      "i32 (bw a - m - 3 * g) = Some (bw a - m - 3 * g)" "i32 (bx a + g) = Some (bx a + g)"
      "i32 (bx a + g + m) = Some (bx a + g + m)" "i32 (bx a + g + m + g) = Some (bx a + g + m + g)"
      "i32 (by' a + g) = Some (by' a + g)" "inner (bh a) g = Some (bh a - 2 * g)" "i32 ((k - 1) * g) = Some ((k - 1) * g)"
      "i32 (bh a - 2 * g - (k - 1) * g) = Some (bh a - 2 * g - (k - 1) * g)"
    using area_okD [OF assms(1)] ma(1) [unfolded abs_le_iff] gk kg unfolding inner_def i32_def by (simp_all; linarith)+
  have scaled: "scale env (bw a - 3 * g) (master_ratio w) = m"
    by (simp add: m g)
  have "arrange_tiling env a w = place_stack (by' a) g (bx a + g + m + g) (bw a - m - 3 * g) slot 0 vs ?w"
    unfolding arrange_tiling_def assms(4) vs Let_def list.case
    unfolding vs [symmetric] g [symmetric] k [symmetric]
    by (simp only: in_range scaled slot option.simps Option.bind.bind_lunit)
  with w' assms(6) show ?thesis
    by (intro exI [of _ w']) (simp add: same_windows_def)
qed

text \<open>A view lies within an area less a margin, and two views are a gap apart.\<close>

definition inside :: "box \<Rightarrow> int \<Rightarrow> 'f workspace \<Rightarrow> nat \<Rightarrow> bool" where
  "inside a g w v \<longleftrightarrow> 0 \<le> fst (size_of w v) \<and> 0 \<le> snd (size_of w v) \<and>
     bx a + g \<le> fst (position_of w v) \<and> fst (position_of w v) + fst (size_of w v) \<le> bx a + bw a - g \<and>
     by' a + g \<le> snd (position_of w v) \<and> snd (position_of w v) + snd (size_of w v) \<le> by' a + bh a - g"

definition apart :: "int \<Rightarrow> 'f workspace \<Rightarrow> nat \<Rightarrow> nat \<Rightarrow> bool" where
  "apart g w u v \<longleftrightarrow>
     fst (position_of w u) + fst (size_of w u) + g \<le> fst (position_of w v) \<or>
     fst (position_of w v) + fst (size_of w v) + g \<le> fst (position_of w u) \<or>
     snd (position_of w u) + snd (size_of w u) + g \<le> snd (position_of w v) \<or>
     snd (position_of w v) + snd (size_of w v) + g \<le> snd (position_of w u)"

lemma apart_sym: "apart g w u v \<Longrightarrow> apart g w v u"
  by (auto simp: apart_def)

lemma stack_slots_apart:
  fixes i j :: int
  assumes "i < j" and "0 \<le> slot + g"
  shows "y + i * (slot + g) + slot + g \<le> y + j * (slot + g)"
proof -
  have "(i + 1) * (slot + g) \<le> j * (slot + g)"
    using assms by (intro mult_right_mono) auto
  then show ?thesis
    by (simp add: distrib_right)
qed

lemma stack_slots_inside:
  fixes j k :: int
  assumes "j < k" and "0 \<le> slot + g" and "k * slot \<le> h - 2 * g - (k - 1) * g"
  shows "y + g + j * (slot + g) + slot \<le> y + h - g"
proof -
  have "j * (slot + g) \<le> (k - 1) * (slot + g)"
    using assms by (intro mult_right_mono) auto
  with assms(3) show ?thesis
    by (simp add: algebra_simps)
qed

text \<open>The geometry that \<open>arrange_tiling\<close> gives a master and its stack keeps them inside and apart.\<close>

lemma master_stack_apart:
  fixes w :: "'f workspace"
  assumes "0 \<le> g" and "0 \<le> m" and "m \<le> bw a - 3 * g" and "0 \<le> slot" and k: "k = int (length vs)" and "0 < k"
    and room: "k * slot \<le> bh a - 2 * g - (k - 1) * g"
    and v: "position_of w v = (bx a + g, by' a + g)" "size_of w v = (m, bh a - 2 * g)"
    and vs: "\<forall>j<length vs. position_of w (vs ! j) = (bx a + g + m + g, by' a + g + int j * (slot + g)) \<and>
      size_of w (vs ! j) = (bw a - m - 3 * g, slot)"
  shows "(\<forall>x\<in>set (v # vs). inside a g w x) \<and> (\<forall>x\<in>set (v # vs). \<forall>y\<in>set (v # vs). x \<noteq> y \<longrightarrow> apart g w x y)"
proof -
  have "0 \<le> k * slot + (k - 1) * g"
    using assms(1,4,6) by simp
  then have in_v: "inside a g w v"
    using assms(1-3) room v by (simp add: inside_def)
  have in_vs: "inside a g w (vs ! j)" if "j < length vs" for j
    using stack_slots_inside [of "int j" k slot g "bh a" "by' a"] that vs assms(1-4) room by (simp add: inside_def k)
  have ap_v: "apart g w v (vs ! j)" if "j < length vs" for j
    using that v vs by (simp add: apart_def)
  have ap_vs: "apart g w (vs ! i) (vs ! j)" if "i < j" "j < length vs" for i j
    using stack_slots_apart [of "int i" "int j" slot g "by' a + g"] that vs assms(1,4) by (simp add: apart_def)
  have pair: "apart g w ((v # vs) ! i) ((v # vs) ! j)" if "i < j" "j < length (v # vs)" for i j
    using that ap_v ap_vs [of "i - 1" "j - 1"] by (cases i; cases j) auto
  have "apart g w x y" if "x \<in> set (v # vs)" "y \<in> set (v # vs)" "x \<noteq> y" for x y
    using that unfolding in_set_conv_nth by (metis pair apart_sym linorder_neqE_nat)
  moreover have "inside a g w x" if "x \<in> set (v # vs)" for x
    using that in_v in_vs by (auto simp: in_set_conv_nth)
  ultimately show ?thesis
    by blast
qed

text \<open>C17. The master-stack layout places every view of the workspace inside the usable area, with the gap as a margin, and
  any two of them the gap apart, so that no two windows overlap, whenever the area has room for the gaps.  No
  \<open>int\<close> overflows.\<close>

theorem tiles_apart:
  assumes "ws_inv w" and "env_ok env" and "layout w = Tiling" and "3 * gap_px w \<le> bw (usable_area env)"
    and "(int (length (views w)) + 1) * gap_px w \<le> bh (usable_area env)"
  shows "\<exists>w'. retile env w = Some w' \<and> views w' = views w \<and>
    (\<forall>v\<in>set (views w). inside (usable_area env) (gap_px w) w' v) \<and>
    (\<forall>u\<in>set (views w). \<forall>v\<in>set (views w). u \<noteq> v \<longrightarrow> apart (gap_px w) w' u v)"
proof -
  define a g where ag: "a = usable_area env" "g = gap_px w"
  have ok: "area_ok a" "0 \<le> gap_px w" "gap_px w \<le> 2 ^ 10" "distinct (views w)" "length (views w) \<le> 2 ^ 10"
    using assms(1,2) by (auto simp: ws_inv_def env_ok_def ag)
  consider "views w = []" | v where "views w = [v]" | v vs where "views w = v # vs" "vs \<noteq> []"
    by (cases "views w") auto
  then show ?thesis
  proof cases
    case 1
    then show ?thesis
      by (simp add: retile_def)
  next
    case (2 v)
    then have "retile env w = Some (set_size v (bw a - 2 * g) (bh a - 2 * g) (set_position v (bx a + g) (by' a + g) w))"
      using assms(3) fill_area_spec [OF ok(1-3)] by (simp add: retile_def arrange_def arrange_tiling_def ag)
    with 2 assms(4,5) ok(2) show ?thesis
      by (auto simp: inside_def ag)
  next
    case (3 v vs)
    define m where m: "m = scale env (bw a - 3 * gap_px w) (master_ratio w)"
    define k where k: "k = int (length vs)"
    define slot where slot: "slot = (bh a - 2 * g - (k - 1) * g) sdiv k"
    have scale: "min 0 (bw a - 3 * gap_px w) \<le> m" "m \<le> max 0 (bw a - 3 * gap_px w)"
      using assms(2) by (auto simp: env_ok_def m)
    obtain w' where w': "arrange_tiling env a w = Some w'" "same_windows w w'"
        "position_of w' v = (bx a + g, by' a + g)" "size_of w' v = (m, bh a - 2 * g)"
        "\<forall>j<length vs. position_of w' (vs ! j) = (bx a + g + m + g, by' a + g + int j * (slot + g)) \<and>
          size_of w' (vs ! j) = (bw a - m - 3 * g, slot)"
      using arrange_tiling_spec [OF ok(1-3) 3 _ _ scale [unfolded m] refl refl refl refl] ok(4,5) 3
      unfolding m k slot ag by auto
    have room: "0 < k" "0 \<le> g" "0 \<le> m" "m \<le> bw a - 3 * g" "0 \<le> bh a - 2 * g - (k - 1) * g"
      using 3 scale assms(4,5) ok(2) by (auto simp: k ag algebra_simps)
    then have "0 \<le> slot" "k * slot \<le> bh a - 2 * g - (k - 1) * g"
      using sdiv_bounds(1,3) [of k "bh a - 2 * g - (k - 1) * g"] unfolding slot by (auto simp: abs_of_nonneg)
    then have "(\<forall>x\<in>set (v # vs). inside a g w' x) \<and>
        (\<forall>x\<in>set (v # vs). \<forall>y\<in>set (v # vs). x \<noteq> y \<longrightarrow> apart g w' x y)"
      using room w'(3-5) k by (intro master_stack_apart) auto
    moreover have "retile env w = Some w'"
      using w'(1) 3 assms(3) by (simp add: retile_def arrange_def ag)
    ultimately show ?thesis
      using w'(2) unfolding 3(1) ag by (simp add: same_windows_def 3(1))
  qed
qed

subsection \<open>The window list\<close>

lemma same_windows_refl [simp]: "same_windows w w"
  by (simp add: same_windows_def)

lemma arrange_monocle_safe:
  assumes "area_ok a" and "0 \<le> gap_px w" and "gap_px w \<le> 2 ^ 10"
  shows "\<exists>w'. arrange_monocle a vs w = Some w' \<and> same_windows w w'"
  using assms(2,3)
proof (induction vs arbitrary: w)
  case (Cons v vs)
  have "\<exists>w'. arrange_monocle a vs (set_size v (bw a - 2 * gap_px w) (bh a - 2 * gap_px w)
      (set_position v (bx a + gap_px w) (by' a + gap_px w) w)) = Some w' \<and> same_windows w w'"
    using Cons.IH [of "set_size v (bw a - 2 * gap_px w) (bh a - 2 * gap_px w)
      (set_position v (bx a + gap_px w) (by' a + gap_px w) w)"] Cons.prems by (auto simp: same_windows_def)
  then show ?case
    by (simp add: fill_area_spec [OF assms(1) Cons.prems])
qed simp

lemma arrange_tiling_safe:
  assumes "area_ok a" and "0 \<le> gap_px w" and "gap_px w \<le> 2 ^ 10" and "distinct (views w)" and "length (views w) \<le> 2 ^ 10"
    and "\<forall>x r. min 0 x \<le> scale env x r \<and> scale env x r \<le> max 0 x"
  shows "\<exists>w'. arrange_tiling env a w = Some w' \<and> same_windows w w'"
proof -
  consider "views w = []" | v where "views w = [v]" | v vs where "views w = v # vs" "vs \<noteq> []"
    by (cases "views w") auto
  then show ?thesis
  proof cases
    case (2 v)
    then show ?thesis
      by (simp add: arrange_tiling_def same_windows_def fill_area_spec [OF assms(1-3)])
  next
    case (3 v vs)
    have "distinct (v # vs)" "length vs \<le> 2 ^ 10"
      using assms(4,5) 3 by auto
    from arrange_tiling_spec [OF assms(1-3) 3 this spec [OF spec [OF assms(6)], THEN conjunct1]
        spec [OF spec [OF assms(6)], THEN conjunct2] refl refl refl refl] show ?thesis
      by blast
  qed (simp add: arrange_tiling_def)
qed

lemma retile_safe:
  assumes "env_ok env" and "distinct (views w)" and "length (views w) \<le> 2 ^ 10" and "0 \<le> gap_px w" and "gap_px w \<le> 2 ^ 10"
  shows "\<exists>w'. retile env w = Some w' \<and> same_windows w w'"
  using assms arrange_tiling_safe [of "usable_area env" w env] arrange_monocle_safe [of "usable_area env" w "views w"]
  by (cases "layout w") (auto simp: retile_def arrange_def env_ok_def)

lemma same_windows_inv: "same_windows w w' \<Longrightarrow> ws_inv w \<Longrightarrow> ws_inv w'"
  by (simp add: same_windows_def ws_inv_def)

lemma retile_inv:
  assumes "env_ok env" and "ws_inv w"
  shows "\<exists>w'. retile env w = Some w' \<and> ws_inv w'"
proof -
  have "distinct (views w)" "length (views w) \<le> 2 ^ 10" "0 \<le> gap_px w" "gap_px w \<le> 2 ^ 10"
    using assms(2) by (simp_all add: ws_inv_def)
  from retile_safe [OF assms(1) this] obtain w' where "retile env w = Some w'" "same_windows w w'"
    by blast
  with assms(2) show ?thesis
    using same_windows_inv by blast
qed

lemma remove_view_frame [simp]:
  "views (remove_view v w) = removeAll v (views w)" "mapped (remove_view v w) = mapped w"
  "gap_px (remove_view v w) = gap_px w" "layout (remove_view v w) = layout w"
  by (simp_all add: remove_view_def)

text \<open>Views are mapped once, at most a thousand of them, and only mapped views are clicked on or named.\<close>

fun ws_ok :: "'f workspace \<Rightarrow> 'f surroundings \<times> ws_event \<Rightarrow> bool" where
  "ws_ok w (env, Map_View v) \<longleftrightarrow> env_ok env \<and> \<not> mapped w v \<and> length (views w) < 2 ^ 10"
| "ws_ok w (env, Click v) \<longleftrightarrow> env_ok env \<and> mapped w v"
| "ws_ok w (env, Focus_App v) \<longleftrightarrow> env_ok env \<and> mapped w v"
| "ws_ok w (env, _) \<longleftrightarrow> env_ok env"

lemma ws_inv_focus [wf_intros]: "ws_inv w \<Longrightarrow> mapped w v \<Longrightarrow> ws_inv (focus_view env v w)"
  using length_removeAll_less [of v "views w"]
  by (auto simp: ws_inv_def distinct_removeAll)

lemma ws_inv_member: "ws_inv w \<Longrightarrow> v \<in> set (views w) \<Longrightarrow> mapped w v"
  by (simp add: ws_inv_def)

lemma ws_inv_refocus: "ws_inv w \<Longrightarrow> v \<in> set (views w) \<Longrightarrow> ws_inv (focus_view env v w)"
  by (rule ws_inv_focus [OF _ ws_inv_member])

lemma ws_inv_map [wf_intros]:
  assumes "ws_inv w" and "env_ok env" and "\<not> mapped w v" and "length (views w) < 2 ^ 10"
  shows "succeeds (handle_map env v w) ws_inv"
proof -
  let ?w = "w\<lparr>mapped := (mapped w)(v := True), views := v # views w\<rparr>"
  have inv: "ws_inv ?w"
    using assms by (auto simp: ws_inv_def)
  then obtain w' where w': "retile env ?w = Some w'" "ws_inv w'"
    using retile_inv [OF assms(2)] by blast
  have focus: "ws_inv (view_focus env v x)" if "ws_inv x" for x
    using that by (simp add: ws_inv_def)
  show ?thesis
    using w'(1) focus [OF inv] focus [OF w'(2)]
    by (simp add: handle_map_def on_view_map_def Let_def)
qed

lemma ws_inv_unmap [wf_intros]:
  assumes "ws_inv w" and "env_ok env"
  shows "succeeds (handle_unmap env v w) ws_inv"
proof -
  let ?w = "remove_view v (w\<lparr>mapped := (mapped w)(v := False)\<rparr>)"
  have inv: "ws_inv ?w"
    using assms(1) le_trans [OF length_removeAll_less_eq [of v "views w"]]
    by (auto simp: ws_inv_def distinct_removeAll split: if_splits)
  then obtain w' where w': "retile env ?w = Some w'" "ws_inv w'"
    using retile_inv [OF assms(2)] by blast
  have refocus: "ws_inv (if views x \<noteq> [] then focus_view env (hd (views x)) x else x)" if "ws_inv x" for x
    using ws_inv_refocus [OF that, of "hd (views x)"] that by simp
  show ?thesis
    using w' inv refocus [OF inv] refocus [OF w'(2)]
    by (simp add: handle_unmap_def on_view_unmap_def Let_def)
qed

lemma ws_inv_layout [wf_intros]:
  fixes w :: "'f workspace"
  assumes "ws_inv w" and "env_ok env"
  shows "succeeds (set_layout env mode w) ws_inv" "succeeds (retile env w) ws_inv"
proof -
  have "ws_inv (w\<lparr>layout := mode\<rparr>)"
    using assms(1) by (simp add: ws_inv_def)
  then obtain w' where "retile env (w\<lparr>layout := mode\<rparr>) = Some w'" "ws_inv w'"
    using retile_inv [OF assms(2)] by blast
  then show "succeeds (set_layout env mode w) ws_inv"
    by (simp add: set_layout_def)
  obtain w' where "retile env w = Some w'" "ws_inv w'"
    using retile_inv [OF assms(2,1)] by blast
  then show "succeeds (retile env w) ws_inv"
    by simp
qed

lemma ws_step_safe:
  assumes "ws_inv w" and "ws_ok w e"
  shows "succeeds (ws_step w e) ws_inv"
proof -
  obtain env ev where e: "e = (env, ev)"
    by (cases e)
  then have env: "env_ok env"
    using assms(2) by (cases ev) auto
  have geometry: "ws_inv (on_view_request_maximize env v w)" "ws_inv (on_view_request_fullscreen env v w)" for v
    using assms(1) by (auto simp: on_view_request_maximize_def on_view_request_fullscreen_def ws_inv_def Let_def split: option.splits)
  have keys: "ws_inv (focus_next env w)" "ws_inv (focus_prev env w)"
    using ws_inv_refocus [OF assms(1), of "views w ! 1"] ws_inv_refocus [OF assms(1), of "last (views w)"] assms(1)
    by (simp_all add: focus_next_def focus_prev_def)
  show ?thesis
    using assms env geometry keys
    by (cases ev) (simp_all add: e wf_intros on_view_request_move_def on_view_request_resize_def)
qed

interpretation windows: safe_machine ws_step ws_inv ws_ok
  by unfold_locales (rule ws_step_safe)

text \<open>Whatever views are mapped and unmapped, focused, maximised or rearranged, on whatever outputs, no coordinate
  overflows, and the workspace lists every mapped view exactly once and no other.\<close>

theorem workspace_lists_views:
  assumes "ws_inv w" and "run_ok ws_step ws_ok w es"
  shows "\<exists>w'. run ws_step w es = Some w' \<and> distinct (views w') \<and> set (views w') = {v. mapped w' v}"
  using windows.run_safe [OF assms] by (auto simp: succeeds_iff ws_inv_def)

subsection \<open>A workspace\<close>

text \<open>Three views on an output of 800 by 600 pixels, the master taking half the width.\<close>

definition half_screen :: "nat surroundings" where
  "half_screen = \<lparr>center_output = Some (\<lparr>bx = 0, by' = 0, bw = 800, bh = 600\<rparr>, 800, 600), has_keyboard = True,
     scale = \<lambda>x _. x div 2\<rparr>"

definition three_views :: "nat workspace" where
  "three_views = \<lparr>views = [5, 6, 7], layout = Tiling, float_states = [], gap_px = 4, master_ratio = 0,
     position_of = \<lambda>_. (0, 0), size_of = \<lambda>_. (0, 0), mapped = \<lambda>v. v \<in> {5, 6, 7}, was_focused = \<lambda>_. False,
     activated = \<lambda>_. False, maximized = \<lambda>_. False, fullscreen = \<lambda>_. False, stacking = [5, 6, 7], seat_focus = None\<rparr>"

lemma half_screen_ok: "env_ok half_screen"
proof -
  have "min 0 x \<le> x div 2 \<and> x div 2 \<le> max 0 x" for x :: int
    by (auto simp: min_def max_def)
  then show ?thesis
    by (simp add: env_ok_def half_screen_def usable_area_def area_ok_def)
qed

lemma three_views_ok: "ws_inv three_views"
  by (auto simp: ws_inv_def three_views_def)

lemma tiles_apart_witness:
  "\<exists>w'. retile half_screen three_views = Some w' \<and> inside \<lparr>bx = 0, by' = 0, bw = 800, bh = 600\<rparr> 4 w' 5 \<and> apart 4 w' 6 7"
proof -
  have area: "usable_area half_screen = \<lparr>bx = 0, by' = 0, bw = 800, bh = 600\<rparr>" "views three_views = [5, 6, 7]"
      "layout three_views = Tiling" "gap_px three_views = 4"
    by (simp_all add: half_screen_def usable_area_def three_views_def)
  show ?thesis
    using tiles_apart [OF three_views_ok half_screen_ok area(3)] by (auto simp: area)
qed

lemma workspace_lists_views_witness:
  "\<exists>w'. run ws_step three_views [(half_screen, Key_Next), (half_screen, Map_View 8), (half_screen, Set_Layout Monocle)] = Some w' \<and>
     distinct (views w') \<and> set (views w') = {v. mapped w' v}"
proof -
  have "\<not> mapped three_views 8" "length (views three_views) = 3" "views three_views = [5, 6, 7]"
    by (simp_all add: three_views_def)
  then have "run_ok ws_step ws_ok three_views [(half_screen, Key_Next), (half_screen, Map_View 8), (half_screen, Set_Layout Monocle)]"
    by (simp add: half_screen_ok focus_next_def split: option.splits)
  then show ?thesis
    by (rule workspace_lists_views [OF three_views_ok])
qed

lemma focus_keys_witness:
  "focused ((focus_next half_screen ^^ 2) three_views) = Some 5 \<and> focused ((focus_prev half_screen ^^ 2) three_views) = Some 6"
proof -
  have "distinct (views three_views)" "views three_views = [5, 6, 7]"
    by (simp_all add: three_views_def)
  from focus_keys [OF this, where env = half_screen and n = 2] show ?thesis
    by (simp add: three_views_def)
qed

end
