(* ===== verification/Terminal_State.thy ===== *)
theory Terminal_State
  imports Prelude
begin

text \<open>
  The data of the terminal emulator (\<open>apps/terminal/vte.h\<close>): cells, rows, parser states and the
  emulator object \<open>Vte\<close> as a record whose field \<open>v_x\<close> is the member \<open>x_\<close>; then the parts of
  \<open>apps/terminal/vte.cpp\<close> that compute on values only: the colour palette, the CSI parameters
  and Select Graphic Rendition.  \<open>int\<close> members are unbounded integers here and each operation on
  an input-dependent \<open>int\<close> is checked by \<open>i32\<close>; colours and code points are words.
\<close>

subsection \<open>Cells, parser states and the emulator object\<close>

record cell_attrs =
  fg_color :: u32
  bg_color :: u32
  bold :: bool
  italic :: bool
  underline :: bool
  strikethrough :: bool
  dim :: bool
  blink :: bool
  reverse :: bool
  hidden :: bool

definition default_cell_attrs :: cell_attrs where
  "default_cell_attrs = \<lparr>fg_color = 0xFFCCCCCC, bg_color = 0xFF1A1A2E, bold = False,
     italic = False, underline = False, strikethrough = False, dim = False, blink = False,
     reverse = False, hidden = False\<rparr>"

record cell =
  ch :: u32
  attrs :: cell_attrs
  cell_dirty :: bool

definition default_cell :: cell where
  "default_cell = \<lparr>ch = 0x20, attrs = default_cell_attrs, cell_dirty = True\<rparr>"

type_synonym row = "cell list"

text \<open>\<open>Row(static_cast<size_t>(cols_))\<close>.\<close>

definition new_row :: "int \<Rightarrow> row" where
  "new_row cols = replicate (nat cols) default_cell"

datatype vte_state = Ground | Escape | CsiEntry | CsiParam | CsiIntermed | OscString | OscEnd
  | DcsEntry | DcsPassthrough | SosPmApc

record vte =
  v_cols :: int
  v_rows :: int
  v_max_scrollback :: int
  v_cursor_col :: int
  v_cursor_row :: int
  v_cursor_visible :: bool
  v_saved_cursor_col :: int
  v_saved_cursor_row :: int
  v_saved_attrs :: cell_attrs
  v_scroll_top :: int
  v_scroll_bottom :: int
  v_current_attrs :: cell_attrs
  v_default_attrs :: cell_attrs
  v_state :: vte_state
  v_csi_params :: "int list"
  v_csi_current_param :: int
  v_csi_private :: bool
  v_osc_string :: "u8 list"
  v_utf8_char :: u32
  v_utf8_remaining :: int
  v_screen :: "row list"
  v_scrollback :: "row list"
  v_title :: "u8 list"
  v_dirty :: bool
  v_origin_mode :: bool
  v_wraparound :: bool
  v_insert_mode :: bool
  v_alt_screen :: "row list"
  v_alt_cursor_col :: int
  v_alt_cursor_row :: int
  v_using_alt_screen :: bool
  v_tab_stops :: "bool list"

subsection \<open>\<open>std::vector::resize\<close> and the tab stops\<close>

definition vec_resize :: "nat \<Rightarrow> 'a \<Rightarrow> 'a list \<Rightarrow> 'a list" where
  "vec_resize n x xs = take n xs @ replicate (n - length xs) x"

lemma length_vec_resize [simp]: "length (vec_resize n x xs) = n"
  by (simp add: vec_resize_def)

lemma vec_resize_same: "length xs = n \<Longrightarrow> vec_resize n x xs = xs"
  by (simp add: vec_resize_def)

lemma vec_resize_Nil [simp]: "vec_resize n x [] = replicate n x"
  by (simp add: vec_resize_def)

text \<open>The loop \<open>for (int i = 0; i < cols_; i += 8) tab_stops_[i] = true\<close>.\<close>

function mark_tabs :: "int \<Rightarrow> int \<Rightarrow> bool list \<Rightarrow> bool list option" where
  "mark_tabs i cols ts = (if i < cols then iput ts i True \<bind> mark_tabs (i + 8) cols else Some ts)"
  by pat_completeness auto
termination
  by (relation "measure (\<lambda>(i, cols, ts). nat (cols - i))") auto

declare mark_tabs.simps [simp del]

lemma mark_tabs_safe:
  "0 \<le> i \<Longrightarrow> cols \<le> int (length ts) \<Longrightarrow> succeeds (mark_tabs i cols ts) (\<lambda>us. length us = length ts)"
proof (induction i cols ts rule: mark_tabs.induct)
  case (1 i cols ts)
  show ?case
  proof (cases "i < cols")
    case True
    with "1.prems" have "succeeds (mark_tabs (i + 8) cols (ts[nat i := True]))
        (\<lambda>us. length us = length (ts[nat i := True]))"
      by (intro "1.IH") auto
    with True "1.prems" show ?thesis
      by (simp add: mark_tabs.simps [of i cols ts])
  qed (simp add: mark_tabs.simps [of i cols ts])
qed

definition init_tab_stops :: "vte \<Rightarrow> vte option" where
  "init_tab_stops s = do {
     ts \<leftarrow> mark_tabs 0 (v_cols s) (vec_resize (nat (v_cols s)) False (v_tab_stops s));
     Some (s\<lparr>v_tab_stops := ts\<rparr>) }"

subsection \<open>Construction\<close>

text \<open>
  The constructor \<open>Vte(cols, rows)\<close>.  A negative dimension makes \<open>resize\<close> throw
  \<open>std::length_error\<close>, which nothing catches; it is \<open>None\<close> too.
\<close>

definition vte_new :: "int \<Rightarrow> int \<Rightarrow> vte option" where
  "vte_new cols rows = (if cols < 0 \<or> rows < 0 then None else
     init_tab_stops
      \<lparr>v_cols = cols, v_rows = rows, v_max_scrollback = 10000,
       v_cursor_col = 0, v_cursor_row = 0, v_cursor_visible = True,
       v_saved_cursor_col = 0, v_saved_cursor_row = 0, v_saved_attrs = default_cell_attrs,
       v_scroll_top = 0, v_scroll_bottom = rows,
       v_current_attrs = default_cell_attrs, v_default_attrs = default_cell_attrs,
       v_state = Ground, v_csi_params = [], v_csi_current_param = -1, v_csi_private = False,
       v_osc_string = [], v_utf8_char = 0, v_utf8_remaining = 0,
       v_screen = replicate (nat rows) (new_row cols), v_scrollback = [], v_title = [],
       v_dirty = True, v_origin_mode = False, v_wraparound = True, v_insert_mode = False,
       v_alt_screen = [], v_alt_cursor_col = 0, v_alt_cursor_row = 0,
       v_using_alt_screen = False, v_tab_stops = []\<rparr>)"

subsection \<open>Colours\<close>

definition kAnsiColors :: "u32 list" where
  "kAnsiColors = [0xFF1A1A2E, 0xFFE74C3C, 0xFF2ECC71, 0xFFF39C12, 0xFF3498DB, 0xFF9B59B6,
     0xFF1ABC9C, 0xFFCCCCCC, 0xFF555555, 0xFFFF6B6B, 0xFF55EFC4, 0xFFFFD93D, 0xFF74B9FF,
     0xFFDDA0DD, 0xFF48DBFB, 0xFFFFFFFF]"

lemma length_kAnsiColors [simp]: "length kAnsiColors = 16"
  by (simp add: kAnsiColors_def)

text \<open>The opaque ARGB value \<open>0xFF000000u | (r << 16) | (g << 8) | b\<close>.\<close>

definition argb :: "u32 \<Rightarrow> u32 \<Rightarrow> u32 \<Rightarrow> u32" where
  "argb r g b = 0xFF000000 OR push_bit 16 r OR push_bit 8 g OR b"

text \<open>
  The lambda \<open>component\<close> returns \<open>uint8_t\<close>.  \<open>%\<close> and \<open>/\<close> are applied to non-negative values,
  where they agree with \<open>mod\<close> and \<open>div\<close>.
\<close>

definition cube_component :: "int \<Rightarrow> u8" where
  "cube_component c = (if c = 0 then 0 else word_of_int (55 + c * 40))"

definition color_from_index :: "int \<Rightarrow> u32" where
  "color_from_index idx =
     (if idx < 0 then 0xFFCCCCCC
      else if idx < 16 then kAnsiColors ! nat idx
      else if idx < 232 then
        (let v = idx - 16; b = v mod 6; g = (v div 6) mod 6; r = v div 36
         in argb (ucast (cube_component r)) (ucast (cube_component g)) (ucast (cube_component b)))
      else if idx < 256 then
        (let v = (word_of_int (8 + (idx - 232) * 10) :: u8) in argb (ucast v) (ucast v) (ucast v))
      else 0xFFCCCCCC)"

subsection \<open>CSI parameters\<close>

definition param :: "vte \<Rightarrow> int \<Rightarrow> int \<Rightarrow> int" where
  "param s index default_val =
     (if index < 0 \<or> index \<ge> int (length (v_csi_params s)) then default_val
      else let v = v_csi_params s ! nat index in if v \<le> 0 then default_val else v)"

subsection \<open>Select Graphic Rendition\<close>

text \<open>
  \<open>parse_sgr_color\<close> returns how many parameters it consumed and the new value of its
  \<open>color_out\<close> argument.
\<close>

definition parse_sgr_color :: "int list \<Rightarrow> nat \<Rightarrow> u32 \<Rightarrow> nat \<times> u32" where
  "parse_sgr_color ps start_idx color_out =
     (if start_idx \<ge> length ps then (0, color_out)
      else let sub = ps ! start_idx in
        if sub = 5 \<and> start_idx + 1 < length ps then
          (2, color_from_index (ps ! (start_idx + 1)))
        else if sub = 2 \<and> start_idx + 3 < length ps then
          (let r = max 0 (min (ps ! (start_idx + 1)) 255);
               g = max 0 (min (ps ! (start_idx + 2)) 255);
               b = max 0 (min (ps ! (start_idx + 3)) 255)
           in (4, argb (word_of_int r) (word_of_int g) (word_of_int b)))
        else (1, color_out))"

text \<open>One iteration of the loop of \<open>csi_sgr\<close>: the attributes and how far \<open>i\<close> moves past it.\<close>

definition sgr_step :: "cell_attrs \<Rightarrow> int list \<Rightarrow> nat \<Rightarrow> cell_attrs \<Rightarrow> nat \<times> cell_attrs" where
  "sgr_step d ps i a = (let p = ps ! i in
     if p = 0 then (0, d)
     else if p = 1 then (0, a\<lparr>bold := True\<rparr>)
     else if p = 2 then (0, a\<lparr>dim := True\<rparr>)
     else if p = 3 then (0, a\<lparr>italic := True\<rparr>)
     else if p = 4 then (0, a\<lparr>underline := True\<rparr>)
     else if p = 5 \<or> p = 6 then (0, a\<lparr>blink := True\<rparr>)
     else if p = 7 then (0, a\<lparr>reverse := True\<rparr>)
     else if p = 8 then (0, a\<lparr>hidden := True\<rparr>)
     else if p = 9 then (0, a\<lparr>strikethrough := True\<rparr>)
     else if p = 21 then (0, a\<lparr>bold := False\<rparr>)
     else if p = 22 then (0, a\<lparr>bold := False, dim := False\<rparr>)
     else if p = 23 then (0, a\<lparr>italic := False\<rparr>)
     else if p = 24 then (0, a\<lparr>underline := False\<rparr>)
     else if p = 25 then (0, a\<lparr>blink := False\<rparr>)
     else if p = 27 then (0, a\<lparr>reverse := False\<rparr>)
     else if p = 28 then (0, a\<lparr>hidden := False\<rparr>)
     else if p = 29 then (0, a\<lparr>strikethrough := False\<rparr>)
     else if p \<ge> 30 \<and> p \<le> 37 then (0, a\<lparr>fg_color := kAnsiColors ! nat (p - 30)\<rparr>)
     else if p = 38 then
       (let (consumed, c) = parse_sgr_color ps (i + 1) (fg_color a)
        in (consumed, a\<lparr>fg_color := c\<rparr>))
     else if p = 39 then (0, a\<lparr>fg_color := fg_color d\<rparr>)
     else if p \<ge> 40 \<and> p \<le> 47 then (0, a\<lparr>bg_color := kAnsiColors ! nat (p - 40)\<rparr>)
     else if p = 48 then
       (let (consumed, c) = parse_sgr_color ps (i + 1) (bg_color a)
        in (consumed, a\<lparr>bg_color := c\<rparr>))
     else if p = 49 then (0, a\<lparr>bg_color := bg_color d\<rparr>)
     else if p \<ge> 90 \<and> p \<le> 97 then (0, a\<lparr>fg_color := kAnsiColors ! nat (p - 90 + 8)\<rparr>)
     else if p \<ge> 100 \<and> p \<le> 107 then (0, a\<lparr>bg_color := kAnsiColors ! nat (p - 100 + 8)\<rparr>)
     else (0, a))"

function sgr_loop :: "cell_attrs \<Rightarrow> int list \<Rightarrow> nat \<Rightarrow> cell_attrs \<Rightarrow> cell_attrs" where
  "sgr_loop d ps i a =
     (if i < length ps
      then (let (consumed, a') = sgr_step d ps i a in sgr_loop d ps (i + consumed + 1) a')
      else a)"
  by pat_completeness auto
termination
  by (relation "measure (\<lambda>(d, ps, i, a). length ps - i)") auto

declare sgr_loop.simps [simp del]

definition csi_sgr :: "vte \<Rightarrow> vte" where
  "csi_sgr s =
     (if v_csi_params s = [] then s\<lparr>v_current_attrs := v_default_attrs s\<rparr>
      else s\<lparr>v_current_attrs := sgr_loop (v_default_attrs s) (v_csi_params s) 0 (v_current_attrs s)\<rparr>)"

end
