(* ===== verification/Terminal_Grid.thy ===== *)
theory Terminal_Grid
  imports Terminal_State
begin

text \<open>
  The operations of \<open>apps/terminal/vte.cpp\<close> that change the grid, the cursor and the scroll
  region: scrolling, printing, cursor movement, erasing, inserting and deleting.  Every access to
  \<open>screen_\<close> or to a row goes through \<open>iget\<close> and \<open>iput\<close>, so an operation that would leave its
  containers is \<open>None\<close>.  Loops are \<open>for_range\<close> and \<open>for_down\<close> with the bounds of the source; a
  row that is moved from is always overwritten before it is read again, so a move is a copy.
\<close>

subsection \<open>Rows and scrolling\<close>

fun trim_scrollback :: "int \<Rightarrow> row list \<Rightarrow> row list option" where
  "trim_scrollback m sb =
     (if int (length sb) > m
      then (case sb of [] \<Rightarrow> None | _ # rest \<Rightarrow> trim_scrollback m rest)
      else Some sb)"

declare trim_scrollback.simps [simp del]

text \<open>
  \<open>screen_[dst] = std::move(screen_[src])\<close>, and the reference \<open>auto& row = screen_[r]\<close> with an
  update of the cells behind it.
\<close>

definition move_row :: "int \<Rightarrow> int \<Rightarrow> row list \<Rightarrow> row list option" where
  "move_row src dst scr = do { r \<leftarrow> iget scr src; iput scr dst r }"

definition on_row :: "int \<Rightarrow> (row \<Rightarrow> row option) \<Rightarrow> vte \<Rightarrow> vte option" where
  "on_row r f s = do {
     old \<leftarrow> iget (v_screen s) r;
     new \<leftarrow> f old;
     scr \<leftarrow> iput (v_screen s) r new;
     Some (s\<lparr>v_screen := scr\<rparr>) }"

definition scroll_up :: "vte \<Rightarrow> vte option" where
  "scroll_up s =
     (if v_scroll_top s \<ge> v_scroll_bottom s then Some s
      else do {
        scrolled_row \<leftarrow> iget (v_screen s) (v_scroll_top s);
        sb \<leftarrow> (if v_scroll_top s = 0 \<and> \<not> v_using_alt_screen s
              then trim_scrollback (v_max_scrollback s) (v_scrollback s @ [scrolled_row])
              else Some (v_scrollback s));
        scr \<leftarrow> for_range (v_scroll_top s) (v_scroll_bottom s - 1)
                (\<lambda>i. move_row (i + 1) i) (v_screen s);
        scr \<leftarrow> iput scr (v_scroll_bottom s - 1) (new_row (v_cols s));
        Some (s\<lparr>v_scrollback := sb, v_screen := scr, v_dirty := True\<rparr>) })"

definition scroll_down :: "vte \<Rightarrow> vte option" where
  "scroll_down s =
     (if v_scroll_top s \<ge> v_scroll_bottom s then Some s
      else do {
        scr \<leftarrow> for_down (v_scroll_bottom s - 1) (v_scroll_top s)
                (\<lambda>i. move_row (i - 1) i) (v_screen s);
        scr \<leftarrow> iput scr (v_scroll_top s) (new_row (v_cols s));
        Some (s\<lparr>v_screen := scr, v_dirty := True\<rparr>) })"

definition newline :: "vte \<Rightarrow> vte option" where
  "newline s = do {
     s \<leftarrow> (if v_cursor_row s = v_scroll_bottom s - 1 then scroll_up s
          else if v_cursor_row s < v_rows s - 1
          then Some (s\<lparr>v_cursor_row := v_cursor_row s + 1\<rparr>)
          else Some s);
     Some (s\<lparr>v_dirty := True\<rparr>) }"

text \<open>
  The loop of \<open>ensure_row\<close> pushes blank rows until there are more than \<open>row\<close> of them.
\<close>

definition ensure_row :: "int \<Rightarrow> vte \<Rightarrow> vte option" where
  "ensure_row row s =
     (let scr = v_screen s @
            replicate (nat (row + 1 - int (length (v_screen s)))) (new_row (v_cols s))
      in do {
        r \<leftarrow> iget scr row;
        scr \<leftarrow> (if int (length r) < v_cols s
               then iput scr row (vec_resize (nat (v_cols s)) default_cell r)
               else Some scr);
        Some (s\<lparr>v_screen := scr\<rparr>) })"

subsection \<open>Printing a character\<close>

definition put_in_row :: "vte \<Rightarrow> u32 \<Rightarrow> row \<Rightarrow> row option" where
  "put_in_row s c row = do {
     row \<leftarrow> (if v_insert_mode s
            then for_down (v_cols s - 1) (v_cursor_col s)
                   (\<lambda>i row. do { x \<leftarrow> iget row (i - 1); iput row i x }) row
            else Some row);
     iput row (v_cursor_col s) \<lparr>ch = c, attrs = v_current_attrs s, cell_dirty = True\<rparr> }"

definition put_char :: "u32 \<Rightarrow> vte \<Rightarrow> vte option" where
  "put_char c s = do {
     s \<leftarrow> ensure_row (v_cursor_row s) s;
     s \<leftarrow> (if v_cursor_col s \<ge> v_cols s
          then (if v_wraparound s then newline (s\<lparr>v_cursor_col := 0\<rparr>)
                else Some (s\<lparr>v_cursor_col := v_cols s - 1\<rparr>))
          else Some s);
     s \<leftarrow> on_row (v_cursor_row s) (put_in_row s c) s;
     cc \<leftarrow> i32 (v_cursor_col s + 1);
     Some (s\<lparr>v_cursor_col := cc, v_dirty := True\<rparr>) }"

subsection \<open>Cursor movement\<close>

definition csi_cursor_up :: "int \<Rightarrow> vte \<Rightarrow> vte option" where
  "csi_cursor_up n s = do {
     r \<leftarrow> i32 (v_cursor_row s - n);
     Some (s\<lparr>v_cursor_row := max r (v_scroll_top s), v_dirty := True\<rparr>) }"

definition csi_cursor_down :: "int \<Rightarrow> vte \<Rightarrow> vte option" where
  "csi_cursor_down n s = do {
     r \<leftarrow> i32 (v_cursor_row s + n);
     Some (s\<lparr>v_cursor_row := min r (v_scroll_bottom s - 1), v_dirty := True\<rparr>) }"

definition csi_cursor_forward :: "int \<Rightarrow> vte \<Rightarrow> vte option" where
  "csi_cursor_forward n s = do {
     c \<leftarrow> i32 (v_cursor_col s + n);
     Some (s\<lparr>v_cursor_col := min c (v_cols s - 1), v_dirty := True\<rparr>) }"

definition csi_cursor_back :: "int \<Rightarrow> vte \<Rightarrow> vte option" where
  "csi_cursor_back n s = do {
     c \<leftarrow> i32 (v_cursor_col s - n);
     Some (s\<lparr>v_cursor_col := max c 0, v_dirty := True\<rparr>) }"

definition csi_cursor_position :: "int \<Rightarrow> int \<Rightarrow> vte \<Rightarrow> vte option" where
  "csi_cursor_position row col s =
     (let base_row = (if v_origin_mode s then v_scroll_top s else 0) in do {
        r \<leftarrow> i32 (row - 1 + base_row);
        r \<leftarrow> clamp r 0 (v_rows s - 1);
        c \<leftarrow> clamp (col - 1) 0 (v_cols s - 1);
        Some (s\<lparr>v_cursor_row := r, v_cursor_col := c, v_dirty := True\<rparr>) })"

subsection \<open>Erasing\<close>

text \<open>\<open>row[c] = Cell{}; row[c].attrs.bg_color = current_attrs_.bg_color\<close> for \<open>c\<close> in a range.\<close>

definition erased_cell :: "vte \<Rightarrow> cell" where
  "erased_cell s = default_cell\<lparr>attrs := (default_cell_attrs\<lparr>bg_color := bg_color (v_current_attrs s)\<rparr>)\<rparr>"

definition fill_cells :: "cell \<Rightarrow> int \<Rightarrow> int \<Rightarrow> row \<Rightarrow> row option" where
  "fill_cells x lo hi row = for_range lo hi (\<lambda>c row. iput row c x) row"

definition erase_cells :: "int \<Rightarrow> int \<Rightarrow> int \<Rightarrow> vte \<Rightarrow> vte option" where
  "erase_cells r lo hi s = on_row r (fill_cells (erased_cell s) lo hi) s"

definition erase_full_row :: "int \<Rightarrow> vte \<Rightarrow> vte option" where
  "erase_full_row r s = do { s \<leftarrow> ensure_row r s; erase_cells r 0 (v_cols s) s }"

definition csi_erase_display :: "int \<Rightarrow> vte \<Rightarrow> vte option" where
  "csi_erase_display mode s = do {
     s \<leftarrow>
      (if mode = 0 then do {
         s \<leftarrow> ensure_row (v_cursor_row s) s;
         s \<leftarrow> erase_cells (v_cursor_row s) (v_cursor_col s) (v_cols s) s;
         below \<leftarrow> i32 (v_cursor_row s + 1);
         for_range below (v_rows s) erase_full_row s }
       else if mode = 1 then do {
         s \<leftarrow> for_range 0 (v_cursor_row s) erase_full_row s;
         s \<leftarrow> ensure_row (v_cursor_row s) s;
         erase_cells (v_cursor_row s) 0 (min (v_cursor_col s + 1) (v_cols s)) s }
       else if mode = 2 \<or> mode = 3 then do {
         s \<leftarrow> for_range 0 (v_rows s) erase_full_row s;
         Some (if mode = 3 then s\<lparr>v_scrollback := []\<rparr> else s) }
       else Some s);
     Some (s\<lparr>v_dirty := True\<rparr>) }"

definition csi_erase_line :: "int \<Rightarrow> vte \<Rightarrow> vte option" where
  "csi_erase_line mode s = do {
     s \<leftarrow> ensure_row (v_cursor_row s) s;
     e \<leftarrow> (if mode = 1 then do { e \<leftarrow> i32 (v_cursor_col s + 1); Some (min e (v_cols s)) }
          else Some (v_cols s));
     s \<leftarrow> erase_cells (v_cursor_row s) (if mode = 0 then v_cursor_col s else 0) e s;
     Some (s\<lparr>v_dirty := True\<rparr>) }"

text \<open>ECH, the case \<open>'X'\<close> of \<open>handle_csi\<close>.\<close>

definition csi_erase_chars :: "int \<Rightarrow> vte \<Rightarrow> vte option" where
  "csi_erase_chars n s = do {
     s \<leftarrow> ensure_row (v_cursor_row s) s;
     e \<leftarrow> i32 (v_cursor_col s + n);
     s \<leftarrow> on_row (v_cursor_row s)
           (fill_cells (default_cell\<lparr>attrs := v_current_attrs s, cell_dirty := True\<rparr>)
             (v_cursor_col s) (min e (v_cols s))) s;
     Some (s\<lparr>v_dirty := True\<rparr>) }"

subsection \<open>Inserting and deleting\<close>

definition insert_line_once :: "vte \<Rightarrow> vte option" where
  "insert_line_once s = do {
     scr \<leftarrow> for_down (v_scroll_bottom s - 1) (v_cursor_row s)
             (\<lambda>r. move_row (r - 1) r) (v_screen s);
     scr \<leftarrow> iput scr (v_cursor_row s) (new_row (v_cols s));
     Some (s\<lparr>v_screen := scr\<rparr>) }"

definition csi_insert_lines :: "int \<Rightarrow> vte \<Rightarrow> vte option" where
  "csi_insert_lines n s =
     (if v_cursor_row s < v_scroll_top s \<or> v_cursor_row s \<ge> v_scroll_bottom s then Some s
      else do {
        s \<leftarrow> repeat_op (nat n) insert_line_once s;
        Some (s\<lparr>v_cursor_col := 0, v_dirty := True\<rparr>) })"

definition delete_line_once :: "vte \<Rightarrow> vte option" where
  "delete_line_once s = do {
     scr \<leftarrow> for_range (v_cursor_row s) (v_scroll_bottom s - 1)
             (\<lambda>r. move_row (r + 1) r) (v_screen s);
     scr \<leftarrow> iput scr (v_scroll_bottom s - 1) (new_row (v_cols s));
     Some (s\<lparr>v_screen := scr\<rparr>) }"

definition csi_delete_lines :: "int \<Rightarrow> vte \<Rightarrow> vte option" where
  "csi_delete_lines n s =
     (if v_cursor_row s < v_scroll_top s \<or> v_cursor_row s \<ge> v_scroll_bottom s then Some s
      else do {
        s \<leftarrow> repeat_op (nat n) delete_line_once s;
        Some (s\<lparr>v_cursor_col := 0, v_dirty := True\<rparr>) })"

definition delete_in_row :: "int \<Rightarrow> int \<Rightarrow> int \<Rightarrow> row \<Rightarrow> row option" where
  "delete_in_row n col cols row = do {
     row \<leftarrow> for_range col (cols - n) (\<lambda>i row. do { x \<leftarrow> iget row (i + n); iput row i x }) row;
     fill_cells default_cell (cols - n) cols row }"

definition csi_delete_chars :: "int \<Rightarrow> vte \<Rightarrow> vte option" where
  "csi_delete_chars n s = do {
     s \<leftarrow> ensure_row (v_cursor_row s) s;
     s \<leftarrow> on_row (v_cursor_row s)
           (delete_in_row (min n (v_cols s - v_cursor_col s)) (v_cursor_col s) (v_cols s)) s;
     Some (s\<lparr>v_dirty := True\<rparr>) }"

text \<open>
  The first loop runs while \<open>i >= cursor_col_ + n\<close>, the second while \<open>i\<close> is below both
  \<open>cursor_col_ + n\<close> and \<open>cols_\<close>.
\<close>

definition insert_in_row :: "cell \<Rightarrow> int \<Rightarrow> int \<Rightarrow> int \<Rightarrow> row \<Rightarrow> row option" where
  "insert_in_row x n col cols row = do {
     row \<leftarrow> for_down (cols - 1) (col + n - 1)
            (\<lambda>i row. do { y \<leftarrow> iget row (i - n); iput row i y }) row;
     fill_cells x col (min (col + n) cols) row }"

definition csi_insert_chars :: "int \<Rightarrow> vte \<Rightarrow> vte option" where
  "csi_insert_chars n s = do {
     s \<leftarrow> ensure_row (v_cursor_row s) s;
     s \<leftarrow> on_row (v_cursor_row s)
           (insert_in_row (default_cell\<lparr>attrs := v_current_attrs s\<rparr>)
             (min n (v_cols s - v_cursor_col s)) (v_cursor_col s) (v_cols s)) s;
     Some (s\<lparr>v_dirty := True\<rparr>) }"

definition csi_scroll_up :: "int \<Rightarrow> vte \<Rightarrow> vte option" where
  "csi_scroll_up n s = repeat_op (nat n) scroll_up s"

definition csi_scroll_down :: "int \<Rightarrow> vte \<Rightarrow> vte option" where
  "csi_scroll_down n s = repeat_op (nat n) scroll_down s"

end
