(* ===== verification/Terminal_Parser.thy ===== *)
theory Terminal_Parser
  imports Terminal_Grid
begin

text \<open>
  The escape-sequence parser of \<open>apps/terminal/vte.cpp\<close>: modes, CSI and ESC dispatch, operating
  system commands, the state machine \<open>process_char\<close> and the UTF-8 decoder \<open>feed\<close>; and the public
  operations \<open>reset\<close>, \<open>resize\<close> and \<open>mark_clean\<close>.
\<close>

subsection \<open>Reset, resize, mark clean\<close>

definition vte_reset :: "vte \<Rightarrow> vte option" where
  "vte_reset s = do {
     s \<leftarrow> init_tab_stops
       (s\<lparr>v_cursor_col := 0, v_cursor_row := 0, v_cursor_visible := True,
          v_current_attrs := v_default_attrs s, v_state := Ground, v_csi_params := [],
          v_csi_current_param := -1, v_csi_private := False, v_osc_string := [],
          v_utf8_char := 0, v_utf8_remaining := 0, v_scroll_top := 0,
          v_scroll_bottom := v_rows s, v_origin_mode := False, v_wraparound := True,
          v_insert_mode := False, v_using_alt_screen := False,
          v_screen := replicate (nat (v_rows s)) (new_row (v_cols s)), v_scrollback := []\<rparr>);
     Some (s\<lparr>v_dirty := True\<rparr>) }"

text \<open>The loop that moves rows off the top of the screen into the scrollback.\<close>

fun overflow_rows :: "int \<Rightarrow> int \<Rightarrow> row list \<Rightarrow> row list \<Rightarrow> (row list \<times> row list) option" where
  "overflow_rows rows m scr sb =
     (if int (length scr) > rows
      then (case scr of [] \<Rightarrow> None
            | r # rest \<Rightarrow> trim_scrollback m (sb @ [r]) \<bind> overflow_rows rows m rest)
      else Some (scr, sb))"

declare overflow_rows.simps [simp del]

definition vte_resize :: "int \<Rightarrow> int \<Rightarrow> vte \<Rightarrow> vte option" where
  "vte_resize cols rows s =
     (if cols = v_cols s \<and> rows = v_rows s then Some s
      else if cols < 0 then None
      else do {
        s \<leftarrow> Some (s\<lparr>v_cols := cols, v_rows := rows\<rparr>);
        let scr = v_screen s @
              replicate (nat (rows - int (length (v_screen s)))) (new_row cols);
        (scr, sb) \<leftarrow> overflow_rows rows (v_max_scrollback s) scr (v_scrollback s);
        let scr = map (vec_resize (nat cols) default_cell) scr;
        cc \<leftarrow> clamp (v_cursor_col s) 0 (cols - 1);
        cr \<leftarrow> clamp (v_cursor_row s) 0 (rows - 1);
        s \<leftarrow> init_tab_stops
          (s\<lparr>v_screen := scr, v_scrollback := sb, v_cursor_col := cc, v_cursor_row := cr,
             v_scroll_top := 0, v_scroll_bottom := rows\<rparr>);
        Some (s\<lparr>v_dirty := True\<rparr>) })"

definition mark_clean :: "vte \<Rightarrow> vte" where
  "mark_clean s = s\<lparr>v_screen := map (map (\<lambda>c. c\<lparr>cell_dirty := False\<rparr>)) (v_screen s), v_dirty := False\<rparr>"

subsection \<open>Modes\<close>

definition save_cursor_pos :: "vte \<Rightarrow> vte" where
  "save_cursor_pos s = s\<lparr>v_saved_cursor_col := v_cursor_col s, v_saved_cursor_row := v_cursor_row s\<rparr>"

definition restore_cursor_pos :: "vte \<Rightarrow> vte" where
  "restore_cursor_pos s = s\<lparr>v_cursor_col := v_saved_cursor_col s, v_cursor_row := v_saved_cursor_row s\<rparr>"

definition save_cursor :: "vte \<Rightarrow> vte" where
  "save_cursor s = (save_cursor_pos s)\<lparr>v_saved_attrs := v_current_attrs s\<rparr>"

definition restore_cursor :: "vte \<Rightarrow> vte" where
  "restore_cursor s = (restore_cursor_pos s)\<lparr>v_current_attrs := v_saved_attrs s\<rparr>"

definition cleared_screen :: "vte \<Rightarrow> row list" where
  "cleared_screen s = map (\<lambda>_. new_row (v_cols s)) (v_screen s)"

text \<open>The \<open>switch (mode_num)\<close> of the private modes.\<close>

definition private_mode :: "bool \<Rightarrow> int \<Rightarrow> vte \<Rightarrow> vte" where
  "private_mode st mode_num s =
     (if mode_num = 6 then
        s\<lparr>v_origin_mode := st, v_cursor_col := 0,
          v_cursor_row := (if st then v_scroll_top s else 0), v_dirty := True\<rparr>
      else if mode_num = 7 then s\<lparr>v_wraparound := st\<rparr>
      else if mode_num = 25 then s\<lparr>v_cursor_visible := st, v_dirty := True\<rparr>
      else if mode_num = 47 \<or> mode_num = 1047 then
        (if st \<and> \<not> v_using_alt_screen s then
           s\<lparr>v_alt_screen := v_screen s, v_alt_cursor_col := v_cursor_col s,
             v_alt_cursor_row := v_cursor_row s, v_using_alt_screen := True,
             v_screen := cleared_screen s, v_dirty := True\<rparr>
         else if \<not> st \<and> v_using_alt_screen s then
           s\<lparr>v_screen := v_alt_screen s, v_cursor_col := v_alt_cursor_col s,
             v_cursor_row := v_alt_cursor_row s, v_using_alt_screen := False, v_dirty := True\<rparr>
         else s)
      else if mode_num = 1048 then
        (if st then save_cursor s else (restore_cursor s)\<lparr>v_dirty := True\<rparr>)
      else if mode_num = 1049 then
        (if st then
           (save_cursor s)\<lparr>v_alt_screen := v_screen s, v_using_alt_screen := True,
             v_screen := cleared_screen s, v_dirty := True\<rparr>
         else if v_using_alt_screen s then
           (restore_cursor (s\<lparr>v_screen := v_alt_screen s\<rparr>))
             \<lparr>v_using_alt_screen := False, v_dirty := True\<rparr>
         else s)
      else s)"

definition standard_mode :: "bool \<Rightarrow> int \<Rightarrow> vte \<Rightarrow> vte" where
  "standard_mode st mode_num s = (if mode_num = 4 then s\<lparr>v_insert_mode := st\<rparr> else s)"

definition csi_set_mode :: "bool \<Rightarrow> vte \<Rightarrow> vte" where
  "csi_set_mode st s =
     (if v_csi_private s then fold (private_mode st) (v_csi_params s) s
      else fold (standard_mode st) (v_csi_params s) s)"

subsection \<open>CSI dispatch\<close>

text \<open>DECSTBM, the case \<open>'r'\<close>; TBC, the case \<open>'g'\<close>; CHA and VPA, the cases \<open>'G'\<close> and \<open>'d'\<close>.\<close>

definition csi_set_scroll_region :: "vte \<Rightarrow> vte option" where
  "csi_set_scroll_region s = do {
     t \<leftarrow> clamp (param s 0 1 - 1) 0 (v_rows s - 1);
     b \<leftarrow> clamp (param s 1 (v_rows s)) 1 (v_rows s);
     let (t, b) = (if t \<ge> b then (0, v_rows s) else (t, b));
     Some (s\<lparr>v_scroll_top := t, v_scroll_bottom := b, v_cursor_col := 0,
             v_cursor_row := (if v_origin_mode s then t else 0), v_dirty := True\<rparr>) }"

definition set_tab_stop :: "bool \<Rightarrow> vte \<Rightarrow> vte option" where
  "set_tab_stop st s =
     (if v_cursor_col s \<ge> 0 \<and> v_cursor_col s < v_cols s
      then do { ts \<leftarrow> iput (v_tab_stops s) (v_cursor_col s) st; Some (s\<lparr>v_tab_stops := ts\<rparr>) }
      else Some s)"

definition csi_tab_clear :: "vte \<Rightarrow> vte option" where
  "csi_tab_clear s =
     (if param s 0 0 = 0 then set_tab_stop False s
      else if param s 0 0 = 3
      then Some (s\<lparr>v_tab_stops := replicate (length (v_tab_stops s)) False\<rparr>)
      else Some s)"

definition csi_column_absolute :: "vte \<Rightarrow> vte option" where
  "csi_column_absolute s = do {
     c \<leftarrow> clamp (param s 0 1 - 1) 0 (v_cols s - 1);
     Some (s\<lparr>v_cursor_col := c, v_dirty := True\<rparr>) }"

definition csi_row_absolute :: "vte \<Rightarrow> vte option" where
  "csi_row_absolute s = do {
     r \<leftarrow> clamp (param s 0 1 - 1) 0 (v_rows s - 1);
     Some (s\<lparr>v_cursor_row := r, v_dirty := True\<rparr>) }"

text \<open>The final byte is compared as a code point: \<open>0x41\<close> is \<open>'A'\<close>, \<open>0x61\<close> is \<open>'a'\<close>.\<close>

definition handle_csi :: "u32 \<Rightarrow> vte \<Rightarrow> vte option" where
  "handle_csi c s =
     (if c = 0x41 then csi_cursor_up (param s 0 1) s
      else if c = 0x42 then csi_cursor_down (param s 0 1) s
      else if c = 0x43 then csi_cursor_forward (param s 0 1) s
      else if c = 0x44 then csi_cursor_back (param s 0 1) s
      else if c = 0x45 then csi_cursor_down (param s 0 1) (s\<lparr>v_cursor_col := 0\<rparr>)
      else if c = 0x46 then csi_cursor_up (param s 0 1) (s\<lparr>v_cursor_col := 0\<rparr>)
      else if c = 0x47 then csi_column_absolute s
      else if c = 0x48 \<or> c = 0x66 then csi_cursor_position (param s 0 1) (param s 1 1) s
      else if c = 0x4A then csi_erase_display (param s 0 0) s
      else if c = 0x4B then csi_erase_line (param s 0 0) s
      else if c = 0x4C then csi_insert_lines (param s 0 1) s
      else if c = 0x4D then csi_delete_lines (param s 0 1) s
      else if c = 0x50 then csi_delete_chars (param s 0 1) s
      else if c = 0x40 then csi_insert_chars (param s 0 1) s
      else if c = 0x53 then csi_scroll_up (param s 0 1) s
      else if c = 0x54 then csi_scroll_down (param s 0 1) s
      else if c = 0x64 then csi_row_absolute s
      else if c = 0x68 then Some (csi_set_mode True s)
      else if c = 0x6C then Some (csi_set_mode False s)
      else if c = 0x6D then Some (csi_sgr s)
      else if c = 0x72 then csi_set_scroll_region s
      else if c = 0x73 then Some (save_cursor_pos s)
      else if c = 0x75 then Some ((restore_cursor_pos s)\<lparr>v_dirty := True\<rparr>)
      else if c = 0x58 then csi_erase_chars (param s 0 1) s
      else if c = 0x67 then csi_tab_clear s
      else Some s)"

subsection \<open>ESC dispatch\<close>

definition reverse_index :: "vte \<Rightarrow> vte option" where
  "reverse_index s = do {
     s \<leftarrow> (if v_cursor_row s = v_scroll_top s then scroll_down s
          else if v_cursor_row s > 0 then Some (s\<lparr>v_cursor_row := v_cursor_row s - 1\<rparr>)
          else Some s);
     Some (s\<lparr>v_dirty := True\<rparr>) }"

definition to_ground :: "vte \<Rightarrow> vte" where
  "to_ground s = s\<lparr>v_state := Ground\<rparr>"

definition handle_esc :: "u32 \<Rightarrow> vte \<Rightarrow> vte option" where
  "handle_esc c s =
     (if c = 0x5B then Some (s\<lparr>v_state := CsiEntry\<rparr>)
      else if c = 0x5D then Some (s\<lparr>v_osc_string := [], v_state := OscString\<rparr>)
      else if c = 0x50 then Some (s\<lparr>v_state := DcsEntry\<rparr>)
      else if c = 0x58 \<or> c = 0x5E \<or> c = 0x5F then Some (s\<lparr>v_state := SosPmApc\<rparr>)
      else if c = 0x5C then Some (to_ground s)
      else if c = 0x37 then Some (to_ground (save_cursor s))
      else if c = 0x38 then Some (to_ground ((restore_cursor s)\<lparr>v_dirty := True\<rparr>))
      else if c = 0x44 then map_option to_ground (newline s)
      else if c = 0x45 then map_option to_ground (newline (s\<lparr>v_cursor_col := 0\<rparr>))
      else if c = 0x4D then map_option to_ground (reverse_index s)
      else if c = 0x48 then map_option to_ground (set_tab_stop True s)
      else if c = 0x63 then map_option to_ground (vte_reset s)
      else Some (to_ground s))"

subsection \<open>Control characters\<close>

text \<open>The loop that looks for the next tab stop.\<close>

function next_tab :: "int \<Rightarrow> int \<Rightarrow> bool list \<Rightarrow> int option" where
  "next_tab nxt cols ts =
     (if nxt < cols
      then do { stop \<leftarrow> iget ts nxt; if stop then Some nxt else next_tab (nxt + 1) cols ts }
      else Some nxt)"
  by pat_completeness auto
termination
  by (relation "measure (\<lambda>(nxt, cols, ts). nat (cols - nxt))") auto

declare next_tab.simps [simp del]

definition horizontal_tab :: "vte \<Rightarrow> vte option" where
  "horizontal_tab s = do {
     nxt \<leftarrow> i32 (v_cursor_col s + 1);
     nxt \<leftarrow> next_tab nxt (v_cols s) (v_tab_stops s);
     Some (s\<lparr>v_cursor_col := min nxt (v_cols s - 1), v_dirty := True\<rparr>) }"

definition execute_control :: "u32 \<Rightarrow> vte \<Rightarrow> vte option" where
  "execute_control c s =
     (if c = 0x08 then
        (if v_cursor_col s > 0
         then Some (s\<lparr>v_cursor_col := v_cursor_col s - 1, v_dirty := True\<rparr>) else Some s)
      else if c = 0x09 then horizontal_tab s
      else if c = 0x0A \<or> c = 0x0B \<or> c = 0x0C then newline s
      else if c = 0x0D then Some (s\<lparr>v_cursor_col := 0, v_dirty := True\<rparr>)
      else Some s)"

subsection \<open>Operating system commands\<close>

text \<open>
  \<open>std::stoi\<close> on the part before the first \<open>';'\<close>: leading white space, an optional sign, at
  least one digit, and a result in the range of \<open>int\<close>; it throws otherwise (\<open>None\<close>).
\<close>

definition is_space :: "u8 \<Rightarrow> bool" where
  "is_space b \<longleftrightarrow> b = 0x20 \<or> 0x09 \<le> b \<and> b \<le> 0x0D"

definition is_digit :: "u8 \<Rightarrow> bool" where
  "is_digit b \<longleftrightarrow> 0x30 \<le> b \<and> b \<le> 0x39"

definition stoi :: "u8 list \<Rightarrow> int option" where
  "stoi bs =
     (let t = dropWhile is_space bs;
          (neg, t) = (case t of [] \<Rightarrow> (False, [])
             | b # rest \<Rightarrow> if b = 0x2D then (True, rest) else if b = 0x2B then (False, rest)
                         else (False, b # rest));
          ds = takeWhile is_digit t;
          v = foldl (\<lambda>acc b. acc * 10 + uint (b - 0x30)) 0 ds
      in if ds = [] then None else i32 (if neg then - v else v))"

definition handle_osc_end :: "vte \<Rightarrow> vte" where
  "handle_osc_end s =
     (let osc = v_osc_string s;
          ps_str = takeWhile (\<lambda>b. b \<noteq> 0x3B) osc;
          cleared = s\<lparr>v_osc_string := []\<rparr>
      in if 0x3B \<notin> set osc then cleared
         else case stoi ps_str of
                None \<Rightarrow> cleared
              | Some ps \<Rightarrow>
                  (if ps = 0 \<or> ps = 2
                   then cleared\<lparr>v_title := drop (length ps_str + 1) osc\<rparr> else cleared))"

subsection \<open>The state machine\<close>

definition is_digit_char :: "u32 \<Rightarrow> bool" where
  "is_digit_char c \<longleftrightarrow> 0x30 \<le> c \<and> c \<le> 0x39"

definition push_param :: "int \<Rightarrow> vte \<Rightarrow> vte" where
  "push_param p s = s\<lparr>v_csi_params := v_csi_params s @ [p]\<rparr>"

definition csi_entry_char :: "u32 \<Rightarrow> vte \<Rightarrow> vte option" where
  "csi_entry_char c s =
     (let s = s\<lparr>v_csi_params := [], v_csi_current_param := -1, v_csi_private := False\<rparr>
      in if c = 0x3F \<or> c = 0x3E then Some (s\<lparr>v_csi_private := True, v_state := CsiParam\<rparr>)
         else if is_digit_char c
         then Some (s\<lparr>v_csi_current_param := uint (c - 0x30), v_state := CsiParam\<rparr>)
         else if c = 0x3B then Some ((push_param 0 s)\<lparr>v_state := CsiParam\<rparr>)
         else if 0x40 \<le> c \<and> c \<le> 0x7E then map_option to_ground (handle_csi c s)
         else Some (s\<lparr>v_state := CsiParam\<rparr>))"

definition csi_param_char :: "u32 \<Rightarrow> vte \<Rightarrow> vte option" where
  "csi_param_char c s =
     (if is_digit_char c then do {
        let cur = (if v_csi_current_param s < 0 then 0 else v_csi_current_param s);
        t \<leftarrow> i32 (cur * 10);
        p \<leftarrow> i32 (t + uint (c - 0x30));
        Some (s\<lparr>v_csi_current_param := p\<rparr>) }
      else if c = 0x3B then
        Some ((push_param (if v_csi_current_param s < 0 then 0 else v_csi_current_param s) s)
                \<lparr>v_csi_current_param := -1\<rparr>)
      else if 0x20 \<le> c \<and> c \<le> 0x2F then
        Some ((if v_csi_current_param s \<ge> 0
               then (push_param (v_csi_current_param s) s)\<lparr>v_csi_current_param := -1\<rparr>
               else s)\<lparr>v_state := CsiIntermed\<rparr>)
      else if 0x40 \<le> c \<and> c \<le> 0x7E then
        map_option to_ground
          (handle_csi c (if v_csi_current_param s \<ge> 0
                         then push_param (v_csi_current_param s) s else s))
      else Some (to_ground s))"

definition process_char :: "u32 \<Rightarrow> vte \<Rightarrow> vte option" where
  "process_char c s = (case v_state s of
     Ground \<Rightarrow>
       (if c = 0x1B then Some (s\<lparr>v_state := Escape\<rparr>)
        else if c < 0x20 \<or> c = 0x7F then execute_control c s
        else put_char c s)
   | Escape \<Rightarrow> handle_esc c s
   | CsiEntry \<Rightarrow> csi_entry_char c s
   | CsiParam \<Rightarrow> csi_param_char c s
   | CsiIntermed \<Rightarrow>
       (if 0x40 \<le> c \<and> c \<le> 0x7E then Some (to_ground s)
        else if c < 0x20 \<or> c > 0x2F then Some (to_ground s)
        else Some s)
   | OscString \<Rightarrow>
       (if c = 0x07 then Some (to_ground (handle_osc_end s))
        else if c = 0x1B then Some (s\<lparr>v_state := OscEnd\<rparr>)
        else if c \<ge> 0x20 then Some (s\<lparr>v_osc_string := v_osc_string s @ [ucast c]\<rparr>)
        else Some s)
   | OscEnd \<Rightarrow> Some (to_ground (if c = 0x5C then handle_osc_end s else s))
   | DcsEntry \<Rightarrow>
       (if c = 0x1B then Some (s\<lparr>v_state := Escape\<rparr>)
        else if c = 0x9C then Some (to_ground s) else Some s)
   | DcsPassthrough \<Rightarrow>
       (if c = 0x1B then Some (s\<lparr>v_state := Escape\<rparr>)
        else if c = 0x9C then Some (to_ground s) else Some s)
   | SosPmApc \<Rightarrow>
       (if c = 0x1B then Some (s\<lparr>v_state := Escape\<rparr>)
        else if c = 0x9C then Some (to_ground s) else Some s))"

subsection \<open>Bytes from the terminal line\<close>

text \<open>
  \<open>feed_start\<close> is the body of the loop of \<open>feed\<close> when no multi-byte character is open.  A byte
  that should continue one but does not closes it with a replacement character and is examined
  again (\<open>--i\<close>); \<open>process_char\<close> leaves \<open>utf8_remaining_\<close> at 0 then
  (lemma \<open>process_char_utf8_remaining\<close>), so the second look is \<open>feed_start\<close>.
\<close>

definition feed_start :: "u8 \<Rightarrow> vte \<Rightarrow> vte option" where
  "feed_start b s =
     (if b < 0x80 then process_char (ucast b) s
      else if b AND 0xE0 = 0xC0 then
        Some (s\<lparr>v_utf8_char := ucast (b AND 0x1F), v_utf8_remaining := 1\<rparr>)
      else if b AND 0xF0 = 0xE0 then
        Some (s\<lparr>v_utf8_char := ucast (b AND 0x0F), v_utf8_remaining := 2\<rparr>)
      else if b AND 0xF8 = 0xF0 then
        Some (s\<lparr>v_utf8_char := ucast (b AND 0x07), v_utf8_remaining := 3\<rparr>)
      else process_char 0xFFFD s)"

definition feed_byte :: "vte \<Rightarrow> u8 \<Rightarrow> vte option" where
  "feed_byte s b =
     (if v_utf8_remaining s > 0 then
        (if b AND 0xC0 = 0x80 then
           (let c = push_bit 6 (v_utf8_char s) OR ucast (b AND 0x3F);
                s = s\<lparr>v_utf8_char := c, v_utf8_remaining := v_utf8_remaining s - 1\<rparr>
            in if v_utf8_remaining s = 0 then process_char c s else Some s)
         else do {
           s \<leftarrow> process_char 0xFFFD (s\<lparr>v_utf8_remaining := 0\<rparr>);
           feed_start b s })
      else feed_start b s)"

definition feed :: "vte \<Rightarrow> u8 list \<Rightarrow> vte option" where
  "feed s bs = run feed_byte s bs"

end
