(* ===== verification/Terminal_Spec.thy ===== *)
theory Terminal_Spec
  imports Terminal_Parser
begin

text \<open>
  What the grid operations of the terminal compute, as closed expressions on lists: each loop is
  shown to be a rotation of a region of rows, a fill of a range of cells or a shift inside a row.
  The invariant proofs and the functional properties both rest on these equations.
\<close>

subsection \<open>Regions of rows\<close>

text \<open>
  Rows \<open>t, ..., b - 1\<close> move up by one (down by one) and a fresh row enters at the bottom (top).
\<close>

definition region_up :: "nat \<Rightarrow> nat \<Rightarrow> 'a \<Rightarrow> 'a list \<Rightarrow> 'a list" where
  "region_up t b x xs = take t xs @ take (b - t - 1) (drop (t + 1) xs) @ [x] @ drop b xs"

definition region_down :: "nat \<Rightarrow> nat \<Rightarrow> 'a \<Rightarrow> 'a list \<Rightarrow> 'a list" where
  "region_down t b x xs = take t xs @ [x] @ take (b - t - 1) (drop t xs) @ drop b xs"

lemma length_region_up [simp]:
  "t < b \<Longrightarrow> b \<le> length xs \<Longrightarrow> length (region_up t b x xs) = length xs"
  by (simp add: region_up_def)

lemma length_region_down [simp]:
  "t < b \<Longrightarrow> b \<le> length xs \<Longrightarrow> length (region_down t b x xs) = length xs"
  by (simp add: region_down_def)

lemma nth_region_up:
  "t < b \<Longrightarrow> b \<le> length xs \<Longrightarrow> k < length xs \<Longrightarrow>
   region_up t b x xs ! k = (if t \<le> k \<and> k < b - 1 then xs ! (k + 1) else if k = b - 1 then x else xs ! k)"
  by (cases "k < t"; cases "k < b - 1"; cases "k = b - 1")
    (auto simp: region_up_def nth_append not_less min_absorb1)

lemma nth_region_down:
  "t < b \<Longrightarrow> b \<le> length xs \<Longrightarrow> k < length xs \<Longrightarrow>
   region_down t b x xs ! k = (if t < k \<and> k < b then xs ! (k - 1) else if k = t then x else xs ! k)"
  by (cases "k < t"; cases "k = t"; cases "k < b")
    (auto simp: region_down_def nth_append nth_Cons' min_absorb1 not_less)

lemma set_region_up: "set (region_up t b x xs) \<subseteq> insert x (set xs)"
  by (auto simp: region_up_def dest: in_set_takeD in_set_dropD)

lemma set_region_down: "set (region_down t b x xs) \<subseteq> insert x (set xs)"
  by (auto simp: region_down_def dest: in_set_takeD in_set_dropD)

lemma move_row_eq: "move_row src dst scr = iget scr src \<bind> iput scr dst"
  by (simp add: move_row_def)

lemma region_up_loop:
  assumes "0 \<le> t" "t < b" "b \<le> int (length scr)"
  shows "for_range t (b - 1) (\<lambda>i. move_row (i + 1) i) scr \<bind> (\<lambda>scr. iput scr (b - 1) x)
    = Some (region_up (nat t) (nat b) x scr)"
proof -
  let ?r = "tabulate (length scr)
      (\<lambda>k. if t \<le> int k \<and> int k < b - 1 then scr ! (k + nat 1) else scr ! k)"
  have "for_range t (b - 1) (\<lambda>i scr. iget scr (i + 1) \<bind> iput scr i) scr = Some ?r"
    using assms by (intro copy_down_loop) auto
  moreover have "?r[nat (b - 1) := x] = region_up (nat t) (nat b) x scr"
  proof (rule nth_equalityI)
    fix k assume "k < length (?r[nat (b - 1) := x])"
    then show "?r[nat (b - 1) := x] ! k = region_up (nat t) (nat b) x scr ! k"
      using assms by (cases "k = nat (b - 1)") (auto simp: nth_region_up)
  qed (use assms in auto)
  ultimately show ?thesis
    using assms by (simp add: move_row_eq [abs_def])
qed

lemma region_down_loop:
  assumes "0 \<le> t" "t < b" "b \<le> int (length scr)"
  shows "for_down (b - 1) t (\<lambda>i. move_row (i - 1) i) scr \<bind> (\<lambda>scr. iput scr t x)
    = Some (region_down (nat t) (nat b) x scr)"
proof -
  let ?r = "tabulate (length scr)
      (\<lambda>k. if t < int k \<and> int k \<le> b - 1 then scr ! (k - nat 1) else scr ! k)"
  have "for_down (b - 1) t (\<lambda>i scr. iget scr (i - 1) \<bind> iput scr i) scr = Some ?r"
    using assms by (intro copy_up_loop) auto
  moreover have "?r[nat t := x] = region_down (nat t) (nat b) x scr"
  proof (rule nth_equalityI)
    fix k assume "k < length (?r[nat t := x])"
    then show "?r[nat t := x] ! k = region_down (nat t) (nat b) x scr ! k"
      using assms by (cases "k = nat t") (auto simp: nth_region_down)
  qed (use assms in auto)
  ultimately show ?thesis
    using assms by (simp add: move_row_eq [abs_def])
qed

subsection \<open>Scrolling\<close>

lemma trim_scrollback_eq:
  "0 \<le> m \<Longrightarrow> trim_scrollback m sb = Some (drop (length sb - nat m) sb)"
proof (induction sb)
  case Nil
  then show ?case by (simp add: trim_scrollback.simps)
next
  case (Cons r sb)
  then show ?case
    by (cases "int (length sb) < m")
      (auto simp: trim_scrollback.simps [of m "r # sb"] Suc_diff_le nat_le_iff)
qed

text \<open>The lines the scrollback keeps when row \<open>r\<close> scrolls off.\<close>

definition pushed_scrollback :: "vte \<Rightarrow> row \<Rightarrow> row list" where
  "pushed_scrollback s r =
     (if v_scroll_top s = 0 \<and> \<not> v_using_alt_screen s
      then drop (length (v_scrollback s) + 1 - nat (v_max_scrollback s)) (v_scrollback s @ [r])
      else v_scrollback s)"

definition region_ok :: "vte \<Rightarrow> bool" where
  "region_ok s \<longleftrightarrow> 0 \<le> v_scroll_top s \<and> v_scroll_top s < v_scroll_bottom s
     \<and> v_scroll_bottom s \<le> int (length (v_screen s))"

lemma scroll_up_eq:
  assumes "region_ok s" and "0 \<le> v_max_scrollback s"
  shows "scroll_up s = Some (s\<lparr>
    v_scrollback := pushed_scrollback s (v_screen s ! nat (v_scroll_top s)),
    v_screen := region_up (nat (v_scroll_top s)) (nat (v_scroll_bottom s)) (new_row (v_cols s)) (v_screen s),
    v_dirty := True\<rparr>)"
proof -
  let ?t = "v_scroll_top s" and ?b = "v_scroll_bottom s"
  from assms have b: "0 \<le> ?t" "?t < ?b" "?b \<le> int (length (v_screen s))"
    by (auto simp: region_ok_def)
  from region_up_loop [OF b, of "new_row (v_cols s)"] obtain scr where
    "for_range ?t (?b - 1) (\<lambda>i. move_row (i + 1) i) (v_screen s) = Some scr"
    "iput scr (?b - 1) (new_row (v_cols s)) =
      Some (region_up (nat ?t) (nat ?b) (new_row (v_cols s)) (v_screen s))"
    by (auto simp: bind_eq_Some_conv)
  with b assms(2) show ?thesis
    by (simp add: scroll_up_def trim_scrollback_eq pushed_scrollback_def)
qed

lemma scroll_down_eq:
  assumes "region_ok s"
  shows "scroll_down s = Some (s\<lparr>
    v_screen := region_down (nat (v_scroll_top s)) (nat (v_scroll_bottom s)) (new_row (v_cols s)) (v_screen s),
    v_dirty := True\<rparr>)"
proof -
  let ?t = "v_scroll_top s" and ?b = "v_scroll_bottom s"
  from assms have b: "0 \<le> ?t" "?t < ?b" "?b \<le> int (length (v_screen s))"
    by (auto simp: region_ok_def)
  from region_down_loop [OF b, of "new_row (v_cols s)"] obtain scr where
    "for_down (?b - 1) ?t (\<lambda>i. move_row (i - 1) i) (v_screen s) = Some scr"
    "iput scr ?t (new_row (v_cols s)) =
      Some (region_down (nat ?t) (nat ?b) (new_row (v_cols s)) (v_screen s))"
    by (auto simp: bind_eq_Some_conv)
  with b show ?thesis by (simp add: scroll_down_def)
qed

lemma insert_line_once_eq:
  assumes "0 \<le> v_cursor_row s" "v_cursor_row s < v_scroll_bottom s"
    "v_scroll_bottom s \<le> int (length (v_screen s))"
  shows "insert_line_once s = Some (s\<lparr>v_screen :=
    region_down (nat (v_cursor_row s)) (nat (v_scroll_bottom s)) (new_row (v_cols s)) (v_screen s)\<rparr>)"
  using region_down_loop [OF assms, of "new_row (v_cols s)"]
  by (auto simp: insert_line_once_def bind_eq_Some_conv)

lemma delete_line_once_eq:
  assumes "0 \<le> v_cursor_row s" "v_cursor_row s < v_scroll_bottom s"
    "v_scroll_bottom s \<le> int (length (v_screen s))"
  shows "delete_line_once s = Some (s\<lparr>v_screen :=
    region_up (nat (v_cursor_row s)) (nat (v_scroll_bottom s)) (new_row (v_cols s)) (v_screen s)\<rparr>)"
  using region_up_loop [OF assms, of "new_row (v_cols s)"]
  by (auto simp: delete_line_once_def bind_eq_Some_conv)

subsection \<open>Cells of a row\<close>

lemma fill_cells_eq:
  assumes "lo < hi \<longrightarrow> 0 \<le> lo \<and> hi \<le> int (length row)"
  shows "fill_cells x lo hi row =
    Some (tabulate (length row) (\<lambda>k. if lo \<le> int k \<and> int k < hi then x else row ! k))"
  unfolding fill_cells_def by (rule fill_loop [OF assms])

lemma delete_in_row_eq:
  assumes "0 \<le> col" "0 \<le> n" "col + n \<le> cols" "cols = int (length row)"
  shows "delete_in_row n col cols row =
    Some (take (nat col) row @ drop (nat (col + n)) row @ replicate (nat n) default_cell)"
proof -
  let ?r = "tabulate (length row)
      (\<lambda>k. if col \<le> int k \<and> int k < cols - n then row ! (k + nat n) else row ! k)"
  have "for_range col (cols - n) (\<lambda>i row. iget row (i + n) \<bind> iput row i) row = Some ?r"
    using assms by (intro copy_down_loop) auto
  moreover have "fill_cells default_cell (cols - n) cols ?r =
    Some (tabulate (length ?r) (\<lambda>k. if cols - n \<le> int k \<and> int k < cols then default_cell else ?r ! k))"
    using assms by (intro fill_cells_eq) auto
  moreover have "tabulate (length ?r) (\<lambda>k. if cols - n \<le> int k \<and> int k < cols then default_cell else ?r ! k)
    = take (nat col) row @ drop (nat (col + n)) row @ replicate (nat n) default_cell"
  proof -
    obtain c m where cm: "col = int c" "n = int m" using assms by (meson nonneg_int_cases)
    show ?thesis
      using assms unfolding cm
      by (intro eq_tabulateI [symmetric]) (auto simp: nth_append nat_int_add add.commute)
  qed
  ultimately show ?thesis by (simp add: delete_in_row_def)
qed

lemma insert_in_row_eq:
  assumes "0 \<le> col" "0 \<le> n" "col + n \<le> cols" "cols = int (length row)"
  shows "insert_in_row x n col cols row =
    Some (take (nat col) row @ replicate (nat n) x @ take (nat (cols - col - n)) (drop (nat col) row))"
proof -
  let ?r = "tabulate (length row)
      (\<lambda>k. if col + n - 1 < int k \<and> int k \<le> cols - 1 then row ! (k - nat n) else row ! k)"
  have "for_down (cols - 1) (col + n - 1) (\<lambda>i row. iget row (i - n) \<bind> iput row i) row = Some ?r"
    using assms by (intro copy_up_loop) auto
  moreover have "fill_cells x col (min (col + n) cols) ?r =
    Some (tabulate (length ?r) (\<lambda>k. if col \<le> int k \<and> int k < min (col + n) cols then x else ?r ! k))"
    using assms by (intro fill_cells_eq) auto
  moreover have "tabulate (length ?r) (\<lambda>k. if col \<le> int k \<and> int k < min (col + n) cols then x else ?r ! k)
    = take (nat col) row @ replicate (nat n) x @ take (nat (cols - col - n)) (drop (nat col) row)"
  proof -
    obtain c m where cm: "col = int c" "n = int m" using assms by (meson nonneg_int_cases)
    show ?thesis
      using assms unfolding cm
      by (intro eq_tabulateI [symmetric]) (auto simp: nth_append)
  qed
  ultimately show ?thesis by (simp add: insert_in_row_def)
qed

text \<open>A cursor right of the last column (possible after a resize) leaves the row alone.\<close>

lemma delete_in_row_past_end:
  "cols < col \<Longrightarrow> delete_in_row (cols - col) col cols row = Some row"
  by (simp add: delete_in_row_def fill_cells_def)

lemma insert_in_row_past_end:
  "cols < col \<Longrightarrow> insert_in_row x (cols - col) col cols row = Some row"
  by (simp add: insert_in_row_def fill_cells_def)

end
