(* ===== verification/Terminal_Safety.thy ===== *)
theory Terminal_Safety
  imports Terminal_Spec
begin

text \<open>
  Memory safety of the terminal.  \<open>wf_vte\<close> says what the member functions keep true between calls:
  the screen has at least \<open>rows_\<close> rows of exactly \<open>cols_\<close> cells, the scroll region is a proper
  range of rows, the tab stops cover the columns, and all numbers that arithmetic touches are far
  from the ends of \<open>int\<close>.  Every operation is shown to succeed (no access outside a container, no
  \<open>int\<close> overflow, no \<open>std::clamp\<close> with crossed bounds) and to keep the invariant; from that the
  parser, a byte and a whole input are safe.
\<close>

subsection \<open>The invariant\<close>

definition wf_rows :: "int \<Rightarrow> row list \<Rightarrow> bool" where
  "wf_rows cols scr \<longleftrightarrow> (\<forall>r\<in>set scr. int (length r) = cols)"

definition dim_ok :: "int \<Rightarrow> bool" where
  "dim_ok x \<longleftrightarrow> 1 \<le> x \<and> x \<le> 1073741823"

definition param_ok :: "int \<Rightarrow> bool" where
  "param_ok p \<longleftrightarrow> 0 \<le> p \<and> p \<le> 999999999"

definition upto_ok :: "int \<Rightarrow> int \<Rightarrow> bool" where
  "upto_ok m x \<longleftrightarrow> 0 \<le> x \<and> x \<le> m"

text \<open>
  \<open>mc\<close> and \<open>mr\<close> bound the cursor column and row.  With \<open>mc\<close> the number of columns and \<open>mr\<close> the
  last row the invariant says that the cursor is on the screen (or just right of it) and that the
  screen has exactly \<open>rows_\<close> rows; with larger bounds it covers what a resize leaves behind.
\<close>

definition wf_grid :: "int \<Rightarrow> int \<Rightarrow> int \<Rightarrow> row list \<Rightarrow> bool" where
  "wf_grid mr cols rows scr \<longleftrightarrow>
     rows \<le> int (length scr) \<and> int (length scr) \<le> mr + 1 \<and> wf_rows cols scr"

definition wf_vte :: "int \<Rightarrow> int \<Rightarrow> vte \<Rightarrow> bool" where
  "wf_vte mc mr s \<longleftrightarrow>
     dim_ok (v_cols s) \<and> dim_ok (v_rows s) \<and> 0 \<le> v_max_scrollback s
     \<and> v_cols s \<le> mc \<and> mc \<le> 1073741823 \<and> v_rows s \<le> mr + 1 \<and> mr \<le> 1073741822
     \<and> upto_ok mc (v_cursor_col s) \<and> upto_ok mr (v_cursor_row s)
     \<and> upto_ok mc (v_saved_cursor_col s) \<and> upto_ok mr (v_saved_cursor_row s)
     \<and> upto_ok mc (v_alt_cursor_col s) \<and> upto_ok mr (v_alt_cursor_row s)
     \<and> 0 \<le> v_scroll_top s \<and> v_scroll_top s < v_scroll_bottom s \<and> v_scroll_bottom s \<le> v_rows s
     \<and> int (length (v_tab_stops s)) = v_cols s
     \<and> wf_grid mr (v_cols s) (v_rows s) (v_screen s)
     \<and> (v_using_alt_screen s \<longrightarrow> wf_grid mr (v_cols s) (v_rows s) (v_alt_screen s))
     \<and> (\<forall>p\<in>set (v_csi_params s). param_ok p) \<and> v_csi_current_param s \<le> 999999999"

lemmas wf_defs = wf_vte_def dim_ok_def upto_ok_def wf_grid_def

lemma wf_rows_simps [simp]:
  "wf_rows c []"
  "wf_rows c (r # scr) \<longleftrightarrow> int (length r) = c \<and> wf_rows c scr"
  "wf_rows c (scr @ scr') \<longleftrightarrow> wf_rows c scr \<and> wf_rows c scr'"
  "wf_rows c (replicate n r) \<longleftrightarrow> n = 0 \<or> int (length r) = c"
  by (auto simp: wf_rows_def)

lemma length_new_row [simp]: "0 \<le> c \<Longrightarrow> int (length (new_row c)) = c"
  by (simp add: new_row_def)

lemma wf_rows_new_row [simp]: "0 \<le> c \<Longrightarrow> wf_rows c (map (\<lambda>_. new_row c) scr)"
  by (auto simp: wf_rows_def)

lemma wf_rows_nth: "wf_rows c scr \<Longrightarrow> k < length scr \<Longrightarrow> int (length (scr ! k)) = c"
  by (simp add: wf_rows_def)

lemma wf_rows_update: "wf_rows c scr \<Longrightarrow> int (length r) = c \<Longrightarrow> wf_rows c (scr[k := r])"
  by (auto simp: wf_rows_def dest!: set_update_subset_insert [THEN subsetD])

lemma wf_rows_region:
  "wf_rows c scr \<Longrightarrow> int (length r) = c \<Longrightarrow> wf_rows c (region_up t b r scr)"
  "wf_rows c scr \<Longrightarrow> int (length r) = c \<Longrightarrow> wf_rows c (region_down t b r scr)"
  by (auto simp: wf_rows_def dest!: set_region_up [THEN subsetD] set_region_down [THEN subsetD])

lemma wf_region_ok: "wf_vte mc mr s \<Longrightarrow> region_ok s"
  by (auto simp: wf_defs region_ok_def)

text \<open>Operations that only replace the screen.\<close>

definition grid_step :: "int \<Rightarrow> int \<Rightarrow> vte \<Rightarrow> vte \<Rightarrow> bool" where
  "grid_step mc mr s s' \<longleftrightarrow> wf_vte mc mr s' \<and> (\<exists>scr. s' = s\<lparr>v_screen := scr\<rparr> \<and> length (v_screen s) \<le> length scr)"

lemma grid_stepI:
  "wf_vte mc mr s \<Longrightarrow> wf_rows (v_cols s) scr \<Longrightarrow> length (v_screen s) \<le> length scr \<Longrightarrow>
   int (length scr) \<le> mr + 1 \<Longrightarrow>
   grid_step mc mr s (s\<lparr>v_screen := scr\<rparr>)"
  by (auto simp: grid_step_def wf_defs)

lemma grid_step_refl: "wf_vte mc mr s \<Longrightarrow> grid_step mc mr s s"
  using grid_stepI [of mc mr s "v_screen s"] by (simp add: wf_vte_def wf_grid_def)

lemma grid_step_trans:
  assumes "grid_step mc mr s t" "grid_step mc mr t u"
  shows "grid_step mc mr s u"
proof -
  from assms(1) obtain a where a: "t = s\<lparr>v_screen := a\<rparr>" "length (v_screen s) \<le> length a"
    unfolding grid_step_def by blast
  from assms(2) obtain b where b: "wf_vte mc mr u" "u = t\<lparr>v_screen := b\<rparr>" "length (v_screen t) \<le> length b"
    unfolding grid_step_def by blast
  from a b have "u = s\<lparr>v_screen := b\<rparr>" and "length (v_screen s) \<le> length b" by simp_all
  with b(1) show ?thesis unfolding grid_step_def by blast
qed

lemma grid_step_wf: "grid_step mc mr s t \<Longrightarrow> wf_vte mc mr t"
  by (simp add: grid_step_def)

lemma grid_step_frame [simp]:
  "grid_step mc mr s t \<Longrightarrow> v_cols t = v_cols s"
  "grid_step mc mr s t \<Longrightarrow> v_rows t = v_rows s"
  "grid_step mc mr s t \<Longrightarrow> v_cursor_col t = v_cursor_col s"
  "grid_step mc mr s t \<Longrightarrow> v_cursor_row t = v_cursor_row s"
  "grid_step mc mr s t \<Longrightarrow> v_wraparound t = v_wraparound s"
  "grid_step mc mr s t \<Longrightarrow> v_scroll_top t = v_scroll_top s"
  "grid_step mc mr s t \<Longrightarrow> v_scroll_bottom t = v_scroll_bottom s"
  unfolding grid_step_def by (elim conjE exE; simp)+

lemma grid_step_length: "grid_step mc mr s t \<Longrightarrow> length (v_screen s) \<le> length (v_screen t)"
  unfolding grid_step_def by (elim conjE exE) simp

lemma ensure_row_safe:
  assumes "wf_vte mc mr s" "0 \<le> r" "r \<le> mr"
  shows "succeeds (ensure_row r s) (\<lambda>t. grid_step mc mr s t \<and> r < int (length (v_screen t)))"
proof -
  let ?scr = "v_screen s @ replicate (nat (r + 1 - int (length (v_screen s)))) (new_row (v_cols s))"
  have wf: "wf_rows (v_cols s) ?scr" using assms(1) by (auto simp: wf_defs)
  have r: "r < int (length ?scr)" by simp
  with assms(2) have "int (length (?scr ! nat r)) = v_cols s"
    by (intro wf_rows_nth [OF wf]) (simp only: nat_less_iff)
  with r assms(2) have "ensure_row r s = Some (s\<lparr>v_screen := ?scr\<rparr>)"
    by (simp add: ensure_row_def Let_def del: length_append)
  moreover have "int (length ?scr) \<le> mr + 1" using assms by (auto simp: wf_defs)
  then have "grid_step mc mr s (s\<lparr>v_screen := ?scr\<rparr>)"
    by (intro grid_stepI assms(1) wf) simp_all
  ultimately show ?thesis using r by (simp del: length_append)
qed

lemma on_row_safe:
  assumes "wf_vte mc mr s" "0 \<le> r" "r < int (length (v_screen s))"
    and "\<And>row. int (length row) = v_cols s \<Longrightarrow> succeeds (f row) (\<lambda>x. int (length x) = v_cols s)"
  shows "succeeds (on_row r f s) (grid_step mc mr s)"
proof -
  have "int (length (v_screen s ! nat r)) = v_cols s"
    using assms(1-3) by (intro wf_rows_nth) (auto simp: wf_vte_def wf_grid_def)
  then have "succeeds (f (v_screen s ! nat r)) (\<lambda>x. int (length x) = v_cols s)"
    by (rule assms(4))
  then obtain x where "f (v_screen s ! nat r) = Some x" "int (length x) = v_cols s"
    by (auto simp: succeeds_iff)
  with assms(1-3) show ?thesis
    by (auto simp: on_row_def intro!: grid_stepI wf_rows_update) (simp_all add: wf_vte_def wf_grid_def)
qed

subsection \<open>Scrolling, printing and cursor movement\<close>

lemma scroll_up_safe: "wf_vte mc mr s \<Longrightarrow> succeeds (scroll_up s) (wf_vte mc mr)"
  by (frule wf_region_ok)
     (auto simp: scroll_up_eq wf_defs region_ok_def nat_less_iff intro: wf_rows_region)

lemma scroll_down_safe: "wf_vte mc mr s \<Longrightarrow> succeeds (scroll_down s) (wf_vte mc mr)"
  by (frule wf_region_ok)
     (auto simp: scroll_down_eq wf_defs region_ok_def nat_less_iff intro: wf_rows_region)

text \<open>\<open>newline\<close> keeps the cursor on an existing row.\<close>

lemma scroll_up_frame:
  "wf_vte mc mr s \<Longrightarrow> scroll_up s = Some t \<Longrightarrow>
   length (v_screen t) = length (v_screen s) \<and> v_cursor_row t = v_cursor_row s
   \<and> v_cursor_col t = v_cursor_col s \<and> v_cols t = v_cols s"
proof -
  assume wf: "wf_vte mc mr s" and t: "scroll_up s = Some t"
  have r: "region_ok s" using wf by (rule wf_region_ok)
  moreover have "0 \<le> v_max_scrollback s" using wf by (simp add: wf_vte_def)
  ultimately show ?thesis
    using t by (auto simp: scroll_up_eq region_ok_def nat_less_iff)
qed

lemma newline_safe:
  assumes "wf_vte mc mr s"
  shows "succeeds (newline s) (wf_vte mc mr)"
    and "newline s = Some t \<Longrightarrow> v_cursor_row s < int (length (v_screen s)) \<Longrightarrow>
         v_cursor_row t < int (length (v_screen t))"
    and "newline s = Some t \<Longrightarrow> v_cursor_col t = v_cursor_col s \<and> v_cols t = v_cols s"
proof -
  from scroll_up_safe [OF assms] obtain u where u: "scroll_up s = Some u" "wf_vte mc mr u"
    by (auto simp: succeeds_iff)
  note fr = scroll_up_frame [OF assms u(1)]
  have rows: "v_rows s \<le> int (length (v_screen s))" using assms by (simp add: wf_defs)
  show "succeeds (newline s) (wf_vte mc mr)"
    using assms u by (auto simp: newline_def wf_defs)
  show "newline s = Some t \<Longrightarrow> v_cursor_row s < int (length (v_screen s)) \<Longrightarrow>
         v_cursor_row t < int (length (v_screen t))"
    using rows u(1) fr by (auto simp: newline_def split: if_splits)
  show "newline s = Some t \<Longrightarrow> v_cursor_col t = v_cursor_col s \<and> v_cols t = v_cols s"
    using u fr by (auto simp: newline_def split: if_splits)
qed

lemma put_in_row_safe:
  assumes "0 \<le> v_cursor_col s" "v_cursor_col s < v_cols s" "int (length row) = v_cols s"
  shows "succeeds (put_in_row s c row) (\<lambda>x. int (length x) = v_cols s)"
proof -
  have "for_down (v_cols s - 1) (v_cursor_col s) (\<lambda>i xs. iget xs (i - 1) \<bind> iput xs i) row =
    Some (tabulate (length row)
      (\<lambda>k. if v_cursor_col s < int k \<and> int k \<le> v_cols s - 1 then row ! (k - nat 1) else row ! k))"
    using assms by (intro copy_up_loop) auto
  then show ?thesis using assms by (auto simp: put_in_row_def)
qed

lemma wrap_safe:
  assumes wt: "wf_vte mc mr t" and r: "v_cursor_row t < int (length (v_screen t))"
  shows "succeeds (if v_cursor_col t \<ge> v_cols t
          then (if v_wraparound t then newline (t\<lparr>v_cursor_col := 0\<rparr>)
                else Some (t\<lparr>v_cursor_col := v_cols t - 1\<rparr>))
          else Some t)
    (\<lambda>u. wf_vte mc mr u \<and> 0 \<le> v_cursor_col u \<and> v_cursor_col u < v_cols u
      \<and> v_cursor_row u < int (length (v_screen u)))"
proof (cases "v_cursor_col t \<ge> v_cols t \<and> v_wraparound t")
  case True
  have wt0: "wf_vte mc mr (t\<lparr>v_cursor_col := 0\<rparr>)" using wt by (simp add: wf_defs)
  from newline_safe(1) [OF this] obtain u where
    u: "newline (t\<lparr>v_cursor_col := 0\<rparr>) = Some u" "wf_vte mc mr u"
    by (auto simp: succeeds_iff)
  from newline_safe(2,3) [OF wt0 u(1)] wt r
  have "v_cursor_row u < int (length (v_screen u))" "v_cursor_col u = 0" "0 < v_cols u"
    by (simp_all add: wf_defs)
  with u True show ?thesis by simp
next
  case False
  with wt r show ?thesis by (simp add: wf_defs)
qed

lemma put_char_safe:
  assumes "wf_vte mc mr s"
  shows "succeeds (put_char c s) (wf_vte mc mr)"
proof -
  from assms have "succeeds (ensure_row (v_cursor_row s) s)
      (\<lambda>t. grid_step mc mr s t \<and> v_cursor_row s < int (length (v_screen t)))"
    by (intro ensure_row_safe) (simp_all add: wf_defs)
  then obtain t where t: "ensure_row (v_cursor_row s) s = Some t" "grid_step mc mr s t"
      "v_cursor_row s < int (length (v_screen t))"
    by (auto simp: succeeds_iff)
  then obtain u where u: "(if v_cursor_col t \<ge> v_cols t
          then (if v_wraparound t then newline (t\<lparr>v_cursor_col := 0\<rparr>)
                else Some (t\<lparr>v_cursor_col := v_cols t - 1\<rparr>))
          else Some t) = Some u" "wf_vte mc mr u" "0 \<le> v_cursor_col u" "v_cursor_col u < v_cols u"
      "v_cursor_row u < int (length (v_screen u))"
    using wrap_safe [OF grid_step_wf [OF t(2)]] by (auto simp only: succeeds_iff grid_step_frame)
  have "succeeds (on_row (v_cursor_row u) (put_in_row u c) u) (grid_step mc mr u)"
    using u(2-5) by (intro on_row_safe put_in_row_safe) (simp_all add: wf_defs)
  then obtain w where w: "on_row (v_cursor_row u) (put_in_row u c) u = Some w" "grid_step mc mr u w"
    by (auto simp: succeeds_iff)
  from w(2) have "wf_vte mc mr w" by (rule grid_step_wf)
  with u(2-4) w(2) have "-2147483648 \<le> v_cursor_col w + 1" "v_cursor_col w + 1 \<le> 2147483647"
    "wf_vte mc mr (w\<lparr>v_cursor_col := v_cursor_col w + 1, v_dirty := True\<rparr>)"
    by (simp_all add: wf_defs)
  with u(1) w(1) t(1) show ?thesis
    by (simp add: put_char_def)
qed

lemma cursor_moves_safe:
  assumes "wf_vte mc mr s" "param_ok n"
  shows "succeeds (csi_cursor_up n s) (wf_vte mc mr)" "succeeds (csi_cursor_down n s) (wf_vte mc mr)"
    "succeeds (csi_cursor_forward n s) (wf_vte mc mr)" "succeeds (csi_cursor_back n s) (wf_vte mc mr)"
    "succeeds (csi_cursor_position n m s) (wf_vte mc mr)"
  using assms
  by (auto simp: csi_cursor_up_def csi_cursor_down_def csi_cursor_forward_def csi_cursor_back_def
      csi_cursor_position_def wf_defs param_ok_def max_def min_def Let_def)

lemma set_column_row_safe:
  assumes "wf_vte mc mr s"
  shows "succeeds (csi_column_absolute s) (wf_vte mc mr)" "succeeds (csi_row_absolute s) (wf_vte mc mr)"
    "wf_vte mc mr (s\<lparr>v_cursor_col := 0\<rparr>)"
  using assms by (auto simp: csi_column_absolute_def csi_row_absolute_def wf_defs)

subsection \<open>Erasing\<close>

lemma fill_cells_safe:
  assumes "0 \<le> lo" "hi \<le> cols" "int (length row) = cols"
  shows "succeeds (fill_cells x lo hi row) (\<lambda>y. int (length y) = cols)"
  using assms by (subst fill_cells_eq) auto

lemma erase_cells_safe:
  assumes "wf_vte mc mr s" "0 \<le> r" "r < int (length (v_screen s))" "0 \<le> lo" "hi \<le> v_cols s"
  shows "succeeds (erase_cells r lo hi s) (grid_step mc mr s)"
  unfolding erase_cells_def using assms by (intro on_row_safe fill_cells_safe) auto

lemma ensure_then:
  assumes "wf_vte mc mr s" "0 \<le> r" "r \<le> mr"
    and "\<And>t. grid_step mc mr s t \<Longrightarrow> wf_vte mc mr t \<Longrightarrow> r < int (length (v_screen t)) \<Longrightarrow> P t"
  shows "succeeds (ensure_row r s) P"
  using ensure_row_safe [OF assms(1-3)]
  by (rule succeeds_mono) (auto intro: assms(4) grid_step_wf)

lemma erase_full_row_safe:
  assumes "wf_vte mc mr s" "0 \<le> r" "r \<le> mr"
  shows "succeeds (erase_full_row r s) (grid_step mc mr s)"
  unfolding erase_full_row_def succeeds_bind
  using assms
proof (rule ensure_then)
  fix t assume t: "grid_step mc mr s t" "wf_vte mc mr t" "r < int (length (v_screen t))"
  from t(2,3) assms(2) have "succeeds (erase_cells r 0 (v_cols t) t) (grid_step mc mr t)"
    by (intro erase_cells_safe) auto
  then show "succeeds (erase_cells r 0 (v_cols t) t) (grid_step mc mr s)"
    using grid_step_trans [OF t(1)] by (rule succeeds_mono)
qed

lemma erase_rows_safe:
  assumes "wf_vte mc mr s" "0 \<le> lo" "hi \<le> mr + 1"
  shows "succeeds (for_range lo hi erase_full_row s) (grid_step mc mr s)"
proof (rule for_range_rule [where I = "\<lambda>_. grid_step mc mr s"])
  show "grid_step mc mr s s" using assms(1) by (rule grid_step_refl)
  show "succeeds (erase_full_row j t) (grid_step mc mr s)"
    if "lo \<le> j" "j < hi" "grid_step mc mr s t" for j t
  proof -
    have "succeeds (erase_full_row j t) (grid_step mc mr t)"
      using that assms(2,3) by (intro erase_full_row_safe) (auto intro: grid_step_wf)
    then show ?thesis using grid_step_trans [OF that(3)] by (rule succeeds_mono)
  qed
qed

lemma wf_dirty [simp]: "wf_vte mc mr (s\<lparr>v_dirty := d\<rparr>) = wf_vte mc mr s"
  by (simp add: wf_vte_def)

lemma wf_scrollback [simp]: "wf_vte mc mr (s\<lparr>v_scrollback := sb\<rparr>) = wf_vte mc mr s"
  by (simp add: wf_vte_def)

lemma wf_cursor_bounds:
  "wf_vte mc mr s \<Longrightarrow> 0 \<le> v_cursor_row s" "wf_vte mc mr s \<Longrightarrow> 0 \<le> v_cursor_col s"
  "wf_vte mc mr s \<Longrightarrow> v_cursor_row s \<le> 1073741823" "wf_vte mc mr s \<Longrightarrow> v_cursor_col s \<le> 1073741823"
  "wf_vte mc mr s \<Longrightarrow> 1 \<le> v_cols s" "wf_vte mc mr s \<Longrightarrow> 1 \<le> v_rows s"
  "wf_vte mc mr s \<Longrightarrow> v_cursor_row s \<le> mr" "wf_vte mc mr s \<Longrightarrow> v_rows s \<le> mr + 1"
  by (simp_all add: wf_defs)

lemma erase_below_safe:
  assumes "wf_vte mc mr s"
  shows "succeeds (ensure_row (v_cursor_row s) s) (\<lambda>s.
    succeeds (erase_cells (v_cursor_row s) (v_cursor_col s) (v_cols s) s) (\<lambda>s.
      -2147483648 \<le> v_cursor_row s + 1 \<and> v_cursor_row s + 1 \<le> 2147483647 \<and>
      succeeds (for_range (v_cursor_row s + 1) (v_rows s) erase_full_row s) (wf_vte mc mr)))"
proof (rule ensure_then [OF assms])
  show "0 \<le> v_cursor_row s" "v_cursor_row s \<le> mr" using assms by (simp_all add: wf_cursor_bounds)
  fix t assume t: "grid_step mc mr s t" "wf_vte mc mr t" "v_cursor_row s < int (length (v_screen t))"
  have "succeeds (erase_cells (v_cursor_row t) (v_cursor_col t) (v_cols t) t) (grid_step mc mr t)"
    using t by (intro erase_cells_safe) (auto dest: wf_cursor_bounds)
  then show "succeeds (erase_cells (v_cursor_row t) (v_cursor_col t) (v_cols t) t) (\<lambda>s.
      -2147483648 \<le> v_cursor_row s + 1 \<and> v_cursor_row s + 1 \<le> 2147483647 \<and>
      succeeds (for_range (v_cursor_row s + 1) (v_rows s) erase_full_row s) (wf_vte mc mr))"
  proof (rule succeeds_mono)
    fix u assume "grid_step mc mr t u"
    then have wu: "wf_vte mc mr u" by (rule grid_step_wf)
    have "succeeds (for_range (v_cursor_row u + 1) (v_rows u) erase_full_row u) (wf_vte mc mr)"
      using wf_cursor_bounds [OF wu]
      by (intro succeeds_mono [OF erase_rows_safe [OF wu]]) (auto intro: grid_step_wf)
    with wf_cursor_bounds [OF wu]
    show "-2147483648 \<le> v_cursor_row u + 1 \<and> v_cursor_row u + 1 \<le> 2147483647 \<and>
      succeeds (for_range (v_cursor_row u + 1) (v_rows u) erase_full_row u) (wf_vte mc mr)"
      by simp
  qed
qed

lemma on_cursor_row_safe:
  assumes "wf_vte mc mr s"
    and "\<And>t. wf_vte mc mr t \<Longrightarrow> v_cursor_row t < int (length (v_screen t)) \<Longrightarrow> P t"
  shows "succeeds (ensure_row (v_cursor_row s) s) P"
proof (rule ensure_then [OF assms(1)])
  show "0 \<le> v_cursor_row s" "v_cursor_row s \<le> mr" using assms(1) by (simp_all add: wf_cursor_bounds)
qed (auto intro: assms(2))

lemma erase_in_cursor_row_safe:
  assumes "wf_vte mc mr t" "v_cursor_row t < int (length (v_screen t))" "0 \<le> lo" "hi \<le> v_cols t"
  shows "succeeds (erase_cells (v_cursor_row t) lo hi t) (wf_vte mc mr)"
  using assms by (intro succeeds_mono [OF erase_cells_safe]) (auto dest: wf_cursor_bounds grid_step_wf)

lemma csi_erase_display_safe:
  assumes "wf_vte mc mr s"
  shows "succeeds (csi_erase_display mode s) (wf_vte mc mr)"
proof -
  have all: "succeeds (for_range 0 n erase_full_row s)
      (\<lambda>t. wf_vte mc mr (if b then t\<lparr>v_scrollback := []\<rparr> else t))" if "n \<le> mr + 1" for n b
    using assms that by (intro succeeds_mono [OF erase_rows_safe]) (auto dest: grid_step_wf)
  note bounds = wf_cursor_bounds [OF assms]
  have above: "succeeds (for_range 0 (v_cursor_row s) erase_full_row s)
    (\<lambda>s. succeeds (ensure_row (v_cursor_row s) s)
      (\<lambda>s. succeeds (erase_cells (v_cursor_row s) 0 (min (v_cursor_col s + 1) (v_cols s)) s) (wf_vte mc mr)))"
    using all [of "v_cursor_row s" False] bounds
    by (intro succeeds_mono [OF all [of "v_cursor_row s" False]]) (auto intro!: on_cursor_row_safe erase_in_cursor_row_safe)
  show ?thesis
    using erase_below_safe [OF assms] above all [of "v_rows s" "mode = 3"] assms bounds
    by (simp add: csi_erase_display_def)
qed

lemma csi_erase_line_safe:
  assumes "wf_vte mc mr s"
  shows "succeeds (csi_erase_line mode s) (wf_vte mc mr)"
  unfolding csi_erase_line_def succeeds_bind
  using assms
proof (rule on_cursor_row_safe)
  fix t assume t: "wf_vte mc mr t" "v_cursor_row t < int (length (v_screen t))"
  show "succeeds (if mode = 1 then i32 (v_cursor_col t + 1) \<bind> (\<lambda>e. Some (min e (v_cols t)))
          else Some (v_cols t))
     (\<lambda>e. succeeds (erase_cells (v_cursor_row t) (if mode = 0 then v_cursor_col t else 0) e t)
       (\<lambda>s. succeeds (Some (s\<lparr>v_dirty := True\<rparr>)) (wf_vte mc mr)))"
    using wf_cursor_bounds [OF t(1)] t
    by (auto intro!: erase_in_cursor_row_safe)
qed

lemma csi_erase_chars_safe:
  assumes "wf_vte mc mr s" "param_ok n"
  shows "succeeds (csi_erase_chars n s) (wf_vte mc mr)"
  unfolding csi_erase_chars_def succeeds_bind
  using assms(1)
proof (rule on_cursor_row_safe)
  fix t assume t: "wf_vte mc mr t" "v_cursor_row t < int (length (v_screen t))"
  have "succeeds (on_row (v_cursor_row t) (fill_cells x (v_cursor_col t) (min e (v_cols t))) t) (wf_vte mc mr)" for x e
    using wf_cursor_bounds [OF t(1)] t
    by (intro succeeds_mono [OF on_row_safe] fill_cells_safe) (auto intro: grid_step_wf)
  then show "succeeds (i32 (v_cursor_col t + n)) (\<lambda>e. succeeds (on_row (v_cursor_row t)
         (fill_cells (default_cell\<lparr>attrs := v_current_attrs t, cell_dirty := True\<rparr>)
           (v_cursor_col t) (min e (v_cols t))) t)
       (\<lambda>s. succeeds (Some (s\<lparr>v_dirty := True\<rparr>)) (wf_vte mc mr)))"
    using wf_cursor_bounds [OF t(1)] assms(2) by (simp add: param_ok_def)
qed

subsection \<open>Inserting and deleting\<close>

lemma insert_line_once_safe:
  assumes "wf_vte mc mr s" "v_scroll_top s \<le> v_cursor_row s" "v_cursor_row s < v_scroll_bottom s"
  shows "succeeds (insert_line_once s)
    (\<lambda>t. wf_vte mc mr t \<and> v_scroll_top t \<le> v_cursor_row t \<and> v_cursor_row t < v_scroll_bottom t)"
  using assms
  by (auto simp: insert_line_once_eq wf_defs nat_less_iff intro!: wf_rows_region)

lemma delete_line_once_safe:
  assumes "wf_vte mc mr s" "v_scroll_top s \<le> v_cursor_row s" "v_cursor_row s < v_scroll_bottom s"
  shows "succeeds (delete_line_once s)
    (\<lambda>t. wf_vte mc mr t \<and> v_scroll_top t \<le> v_cursor_row t \<and> v_cursor_row t < v_scroll_bottom t)"
  using assms
  by (auto simp: delete_line_once_eq wf_defs nat_less_iff intro!: wf_rows_region)

lemma wf_column_0 [simp]: "wf_vte mc mr s \<Longrightarrow> wf_vte mc mr (s\<lparr>v_cursor_col := 0\<rparr>)"
  by (simp add: wf_defs)

lemma wf_column_0_dirty [simp]: "wf_vte mc mr s \<Longrightarrow> wf_vte mc mr (s\<lparr>v_cursor_col := 0, v_dirty := d\<rparr>)"
  by (simp add: wf_defs)

lemma csi_insert_lines_safe:
  assumes "wf_vte mc mr s"
  shows "succeeds (csi_insert_lines n s) (wf_vte mc mr)"
proof -
  have "succeeds (repeat_op (nat n) insert_line_once s)
      (\<lambda>t. wf_vte mc mr t \<and> v_scroll_top t \<le> v_cursor_row t \<and> v_cursor_row t < v_scroll_bottom t)"
    if "v_scroll_top s \<le> v_cursor_row s" "v_cursor_row s < v_scroll_bottom s"
    using assms that by (intro repeat_op_rule) (auto intro: insert_line_once_safe)
  then show ?thesis
    using assms by (auto simp: csi_insert_lines_def elim!: succeeds_mono)
qed

lemma csi_delete_lines_safe:
  assumes "wf_vte mc mr s"
  shows "succeeds (csi_delete_lines n s) (wf_vte mc mr)"
proof -
  have "succeeds (repeat_op (nat n) delete_line_once s)
      (\<lambda>t. wf_vte mc mr t \<and> v_scroll_top t \<le> v_cursor_row t \<and> v_cursor_row t < v_scroll_bottom t)"
    if "v_scroll_top s \<le> v_cursor_row s" "v_cursor_row s < v_scroll_bottom s"
    using assms that by (intro repeat_op_rule) (auto intro: delete_line_once_safe)
  then show ?thesis
    using assms by (auto simp: csi_delete_lines_def elim!: succeeds_mono)
qed

lemma delete_in_row_safe:
  assumes "0 \<le> col" "0 \<le> n" "int (length row) = cols"
  shows "succeeds (delete_in_row (min n (cols - col)) col cols row) (\<lambda>x. int (length x) = cols)"
proof (cases "col \<le> cols")
  case True
  with assms show ?thesis by (subst delete_in_row_eq) (auto simp: min_def nat_add_distrib)
next
  case False
  with assms have "min n (cols - col) = cols - col" by simp
  with False assms show ?thesis by (simp add: delete_in_row_past_end)
qed

lemma insert_in_row_safe:
  assumes "0 \<le> col" "0 \<le> n" "int (length row) = cols"
  shows "succeeds (insert_in_row x (min n (cols - col)) col cols row) (\<lambda>x. int (length x) = cols)"
proof (cases "col \<le> cols")
  case True
  with assms show ?thesis by (subst insert_in_row_eq) (auto simp: min_def nat_add_distrib)
next
  case False
  with assms have "min n (cols - col) = cols - col" by simp
  with False assms show ?thesis by (simp add: insert_in_row_past_end)
qed

lemma csi_delete_chars_safe:
  assumes "wf_vte mc mr s" "param_ok n"
  shows "succeeds (csi_delete_chars n s) (wf_vte mc mr)"
  unfolding csi_delete_chars_def succeeds_bind
  using assms(1)
proof (rule on_cursor_row_safe)
  fix t assume t: "wf_vte mc mr t" "v_cursor_row t < int (length (v_screen t))"
  have "succeeds (on_row (v_cursor_row t)
      (delete_in_row (min n (v_cols t - v_cursor_col t)) (v_cursor_col t) (v_cols t)) t) (grid_step mc mr t)"
    using wf_cursor_bounds [OF t(1)] t assms(2)
    by (intro on_row_safe delete_in_row_safe) (auto simp: param_ok_def)
  then show "succeeds (on_row (v_cursor_row t)
      (delete_in_row (min n (v_cols t - v_cursor_col t)) (v_cursor_col t) (v_cols t)) t)
      (\<lambda>s. succeeds (Some (s\<lparr>v_dirty := True\<rparr>)) (wf_vte mc mr))"
    by (rule succeeds_mono) (simp add: grid_step_wf)
qed

lemma csi_insert_chars_safe:
  assumes "wf_vte mc mr s" "param_ok n"
  shows "succeeds (csi_insert_chars n s) (wf_vte mc mr)"
  unfolding csi_insert_chars_def succeeds_bind
  using assms(1)
proof (rule on_cursor_row_safe)
  fix t assume t: "wf_vte mc mr t" "v_cursor_row t < int (length (v_screen t))"
  have "succeeds (on_row (v_cursor_row t)
      (insert_in_row x (min n (v_cols t - v_cursor_col t)) (v_cursor_col t) (v_cols t)) t) (grid_step mc mr t)" for x
    using wf_cursor_bounds [OF t(1)] t assms(2)
    by (intro on_row_safe insert_in_row_safe) (auto simp: param_ok_def)
  then show "succeeds (on_row (v_cursor_row t)
      (insert_in_row (default_cell\<lparr>attrs := v_current_attrs t\<rparr>)
        (min n (v_cols t - v_cursor_col t)) (v_cursor_col t) (v_cols t)) t)
      (\<lambda>s. succeeds (Some (s\<lparr>v_dirty := True\<rparr>)) (wf_vte mc mr))"
    by (rule succeeds_mono) (simp add: grid_step_wf)
qed

lemma csi_scroll_safe:
  assumes "wf_vte mc mr s"
  shows "succeeds (csi_scroll_up n s) (wf_vte mc mr)" "succeeds (csi_scroll_down n s) (wf_vte mc mr)"
  unfolding csi_scroll_up_def csi_scroll_down_def
  using assms by (auto intro!: repeat_op_rule scroll_up_safe scroll_down_safe)

subsection \<open>Tabs, reset, resize\<close>

lemma init_tab_stops_safe:
  assumes "dim_ok (v_cols s)"
  shows "succeeds (init_tab_stops s)
    (\<lambda>t. \<exists>ts. t = s\<lparr>v_tab_stops := ts\<rparr> \<and> int (length ts) = v_cols s)"
proof -
  have "succeeds (mark_tabs 0 (v_cols s) (vec_resize (nat (v_cols s)) False (v_tab_stops s)))
      (\<lambda>us. length us = length (vec_resize (nat (v_cols s)) False (v_tab_stops s)))"
    using assms by (intro mark_tabs_safe) (auto simp: dim_ok_def)
  then show ?thesis
    using assms by (auto simp: init_tab_stops_def dim_ok_def elim!: succeeds_mono)
qed

lemma init_tab_stops_then:
  assumes "dim_ok (v_cols s)"
    and "\<And>ts. int (length ts) = v_cols s \<Longrightarrow> P (s\<lparr>v_tab_stops := ts\<rparr>)"
  shows "succeeds (init_tab_stops s) P"
  using init_tab_stops_safe [OF assms(1)] by (rule succeeds_mono) (auto intro: assms(2))

lemma vte_new_safe:
  assumes "dim_ok cols" "dim_ok rows"
  shows "succeeds (vte_new cols rows) (wf_vte cols (rows - 1))"
proof -
  have "succeeds (init_tab_stops s) (wf_vte cols (rows - 1))"
    if "v_cols s = cols"
      and "\<And>ts. int (length ts) = cols \<Longrightarrow> wf_vte cols (rows - 1) (s\<lparr>v_tab_stops := ts\<rparr>)" for s
    using init_tab_stops_safe [of s] assms that by (auto elim!: succeeds_mono)
  then show ?thesis
    using assms by (simp add: vte_new_def wf_defs)
qed

lemma vte_reset_safe:
  assumes "wf_vte mc mr s"
  shows "succeeds (vte_reset s) (wf_vte mc mr)"
  unfolding vte_reset_def succeeds_bind
  using assms by (intro init_tab_stops_then) (simp_all add: wf_defs)

lemma overflow_rows_eq:
  assumes "0 \<le> rows" "0 \<le> m"
  shows "succeeds (overflow_rows rows m scr sb)
    (\<lambda>(scr', sb'). scr' = drop (length scr - nat rows) scr)"
proof (induction scr arbitrary: sb)
  case Nil
  then show ?case using assms by (simp add: overflow_rows.simps)
next
  case (Cons r scr)
  then show ?case
    using assms Cons [of "drop (length (sb @ [r]) - nat m) (sb @ [r])"]
    by (auto simp: overflow_rows.simps [of rows m "r # scr"] trim_scrollback_eq Suc_diff_le
        nat_le_iff split: if_splits)
qed

lemma vte_resize_safe:
  assumes "wf_vte mc mr s" "dim_ok cols" "dim_ok rows" "cols \<le> mc" "rows \<le> mr + 1"
    "\<not> v_using_alt_screen s"
  shows "succeeds (vte_resize cols rows s) (wf_vte mc mr)"
proof -
  let ?scr = "v_screen s @ replicate (nat (rows - int (length (v_screen s)))) (new_row cols)"
  from assms have "0 \<le> rows" "0 \<le> v_max_scrollback s" by (auto simp: wf_defs)
  from overflow_rows_eq [OF this, of ?scr "v_scrollback s"] obtain sb where
    sb: "overflow_rows rows (v_max_scrollback s) ?scr (v_scrollback s) =
      Some (drop (length ?scr - nat rows) ?scr, sb)"
    by (auto simp: succeeds_iff)
  let ?new = "map (vec_resize (nat cols) default_cell) (drop (length ?scr - nat rows) ?scr)"
  have len: "int (length ?new) = rows" using assms(3) by (auto simp: dim_ok_def)
  have wfr: "wf_rows cols ?new" using assms(2) by (auto simp: wf_rows_def dim_ok_def)
  have "succeeds (init_tab_stops (s\<lparr>v_cols := cols, v_rows := rows, v_screen := ?new,
      v_scrollback := sb, v_cursor_col := cc, v_cursor_row := cr, v_scroll_top := 0,
      v_scroll_bottom := rows\<rparr>)) (wf_vte mc mr)" if "upto_ok mc cc" "upto_ok mr cr" for cc cr
    using assms len wfr that
    by (intro init_tab_stops_then) (simp_all add: wf_defs)
  then show ?thesis
    using assms sb by (auto simp: vte_resize_def Let_def dim_ok_def upto_ok_def)
qed

subsection \<open>Modes and dispatch\<close>

lemma param_ok_param: "wf_vte mc mr s \<Longrightarrow> param_ok d \<Longrightarrow> param_ok (param s i d)"
  by (auto simp: param_def Let_def wf_vte_def)

lemma param_ok_numeral [simp]: "param_ok 0" "param_ok 1"
  by (simp_all add: param_ok_def)

lemma wf_state [simp]: "wf_vte mc mr (s\<lparr>v_state := st\<rparr>) = wf_vte mc mr s"
  by (simp add: wf_vte_def)

lemma wf_to_ground [simp]: "wf_vte mc mr (to_ground s) = wf_vte mc mr s"
  by (simp add: to_ground_def)

lemma wf_attrs [simp]:
  "wf_vte mc mr (s\<lparr>v_current_attrs := a\<rparr>) = wf_vte mc mr s"
  "wf_vte mc mr (s\<lparr>v_saved_attrs := a\<rparr>) = wf_vte mc mr s"
  by (simp_all add: wf_vte_def)

lemma wf_utf8 [simp]:
  "wf_vte mc mr (s\<lparr>v_utf8_char := c\<rparr>) = wf_vte mc mr s"
  "wf_vte mc mr (s\<lparr>v_utf8_remaining := n\<rparr>) = wf_vte mc mr s"
  by (simp_all add: wf_vte_def)

lemma wf_osc [simp]:
  "wf_vte mc mr (s\<lparr>v_osc_string := o'\<rparr>) = wf_vte mc mr s"
  "wf_vte mc mr (s\<lparr>v_title := o'\<rparr>) = wf_vte mc mr s"
  by (simp_all add: wf_vte_def)

lemma wf_cursor_saves [simp]:
  "wf_vte mc mr s \<Longrightarrow> wf_vte mc mr (save_cursor_pos s)"
  "wf_vte mc mr s \<Longrightarrow> wf_vte mc mr (restore_cursor_pos s)"
  "wf_vte mc mr s \<Longrightarrow> wf_vte mc mr (save_cursor s)"
  "wf_vte mc mr s \<Longrightarrow> wf_vte mc mr (restore_cursor s)"
  by (simp_all add: wf_vte_def save_cursor_pos_def restore_cursor_pos_def save_cursor_def
      restore_cursor_def)

lemma save_cursor_frame [simp]:
  "v_cols (save_cursor s) = v_cols s" "v_rows (save_cursor s) = v_rows s"
  by (simp_all add: save_cursor_def save_cursor_pos_def)

lemma wf_grid_cleared:
  "wf_vte mc mr s \<Longrightarrow> wf_grid mr (v_cols s) (v_rows s) (cleared_screen s)"
  by (simp add: wf_defs cleared_screen_def)

lemma alt_enter_wf:
  "wf_vte mc mr s \<Longrightarrow> v_cols u = v_cols s \<Longrightarrow> wf_vte mc mr u \<Longrightarrow> v_rows u = v_rows s \<Longrightarrow>
   wf_vte mc mr (u\<lparr>v_alt_screen := v_screen s, v_using_alt_screen := True,
     v_screen := cleared_screen s, v_dirty := d\<rparr>)"
  using wf_grid_cleared [of mc mr s] by (simp add: wf_vte_def)

lemma private_mode_wf:
  assumes "wf_vte mc mr s"
  shows "wf_vte mc mr (private_mode st m s)"
proof -
  have "wf_vte mc mr (s\<lparr>v_origin_mode := st, v_cursor_col := 0,
      v_cursor_row := (if st then v_scroll_top s else 0), v_dirty := True\<rparr>)"
    using assms by (auto simp: wf_defs)
  moreover have "wf_vte mc mr (s\<lparr>v_alt_screen := v_screen s, v_alt_cursor_col := v_cursor_col s,
      v_alt_cursor_row := v_cursor_row s, v_using_alt_screen := True,
      v_screen := cleared_screen s, v_dirty := True\<rparr>)"
    using assms wf_grid_cleared [OF assms] by (simp add: wf_vte_def)
  moreover have "wf_vte mc mr (s\<lparr>v_screen := v_alt_screen s, v_cursor_col := v_alt_cursor_col s,
      v_cursor_row := v_alt_cursor_row s, v_using_alt_screen := False, v_dirty := True\<rparr>)"
    if "v_using_alt_screen s" using assms that by (simp add: wf_vte_def)
  moreover have "wf_vte mc mr ((save_cursor s)\<lparr>v_alt_screen := v_screen s, v_using_alt_screen := True,
      v_screen := cleared_screen s, v_dirty := True\<rparr>)"
    using assms by (intro alt_enter_wf) simp_all
  moreover have "wf_vte mc mr ((restore_cursor (s\<lparr>v_screen := v_alt_screen s\<rparr>))
      \<lparr>v_using_alt_screen := False, v_dirty := True\<rparr>)"
    if "v_using_alt_screen s" using assms that
    by (simp add: wf_vte_def restore_cursor_def restore_cursor_pos_def)
  moreover have "wf_vte mc mr (s\<lparr>v_wraparound := st\<rparr>)"
      "wf_vte mc mr (s\<lparr>v_cursor_visible := st, v_dirty := True\<rparr>)"
    using assms by (simp_all add: wf_vte_def)
  ultimately show ?thesis
    using assms by (simp add: private_mode_def)
qed

lemma standard_mode_wf: "wf_vte mc mr s \<Longrightarrow> wf_vte mc mr (standard_mode st m s)"
  by (simp add: standard_mode_def wf_vte_def)

lemma fold_wf: "(\<And>m s. wf_vte mc mr s \<Longrightarrow> wf_vte mc mr (f m s)) \<Longrightarrow> wf_vte mc mr s \<Longrightarrow> wf_vte mc mr (fold f ms s)"
  by (induction ms arbitrary: s) auto

lemma csi_set_mode_wf: "wf_vte mc mr s \<Longrightarrow> wf_vte mc mr (csi_set_mode st s)"
  by (auto simp: csi_set_mode_def intro: fold_wf private_mode_wf standard_mode_wf)

lemma csi_set_scroll_region_safe:
  assumes "wf_vte mc mr s"
  shows "succeeds (csi_set_scroll_region s) (wf_vte mc mr)"
proof -
  have R: "wf_vte mc mr (s\<lparr>v_scroll_top := t, v_scroll_bottom := b, v_cursor_col := 0,
      v_cursor_row := r\<rparr>)" if "0 \<le> t" "t < b" "b \<le> v_rows s" "r = t \<or> r = 0" for t b r
    using assms that by (auto simp: wf_defs)
  then show ?thesis
    using wf_cursor_bounds [OF assms]
    by (auto simp: csi_set_scroll_region_def Let_def intro!: R)
qed

lemma set_tab_stop_safe: "wf_vte mc mr s \<Longrightarrow> succeeds (set_tab_stop st s) (wf_vte mc mr)"
  by (simp add: set_tab_stop_def wf_vte_def)

lemma csi_tab_clear_safe: "wf_vte mc mr s \<Longrightarrow> succeeds (csi_tab_clear s) (wf_vte mc mr)"
  by (simp add: csi_tab_clear_def set_tab_stop_safe) (simp add: wf_vte_def)

lemma csi_sgr_wf: "wf_vte mc mr s \<Longrightarrow> wf_vte mc mr (csi_sgr s)"
  by (simp add: csi_sgr_def)

lemmas csi_safe = cursor_moves_safe set_column_row_safe csi_erase_display_safe csi_erase_line_safe
  csi_erase_chars_safe csi_insert_lines_safe csi_delete_lines_safe csi_delete_chars_safe
  csi_insert_chars_safe csi_scroll_safe csi_set_scroll_region_safe csi_tab_clear_safe

lemma handle_csi_safe:
  assumes "wf_vte mc mr s"
  shows "succeeds (handle_csi c s) (wf_vte mc mr)"
  using assms
  by (simp add: handle_csi_def csi_safe param_ok_param csi_set_mode_wf csi_sgr_wf)

lemma reverse_index_safe:
  assumes "wf_vte mc mr s"
  shows "succeeds (reverse_index s) (wf_vte mc mr)"
proof -
  have "wf_vte mc mr (s\<lparr>v_cursor_row := v_cursor_row s - 1\<rparr>)" if "0 < v_cursor_row s"
    using assms that by (simp add: wf_defs)
  then show ?thesis using assms scroll_down_safe [OF assms] by (simp add: reverse_index_def)
qed

lemma succeeds_map_option [simp]: "succeeds (map_option f m) Q = succeeds m (\<lambda>x. Q (f x))"
  by (cases m) auto

lemma handle_esc_safe:
  assumes "wf_vte mc mr s"
  shows "succeeds (handle_esc c s) (wf_vte mc mr)"
  using assms
  by (simp add: handle_esc_def newline_safe(1) reverse_index_safe set_tab_stop_safe vte_reset_safe)

lemma next_tab_safe:
  "0 \<le> n \<Longrightarrow> cols \<le> int (length ts) \<Longrightarrow> succeeds (next_tab n cols ts) (\<lambda>m. n \<le> m)"
proof (induction n cols ts rule: next_tab.induct)
  case (1 n cols ts)
  show ?case
  proof (cases "n < cols")
    case True
    then have "succeeds (next_tab (n + 1) cols ts) (\<lambda>m. n + 1 \<le> m)" if "\<not> ts ! nat n"
      using 1 that by simp
    then have "succeeds (next_tab (n + 1) cols ts) (\<lambda>m. n \<le> m)" if "\<not> ts ! nat n"
      using that by (auto elim!: succeeds_mono)
    with True 1 show ?thesis
      by (auto simp: next_tab.simps [of n cols ts])
  qed (simp add: next_tab.simps [of n cols ts])
qed

lemma horizontal_tab_safe:
  assumes "wf_vte mc mr s"
  shows "succeeds (horizontal_tab s) (wf_vte mc mr)"
proof -
  note b = wf_cursor_bounds [OF assms]
  have "succeeds (next_tab (v_cursor_col s + 1) (v_cols s) (v_tab_stops s)) (\<lambda>m. v_cursor_col s + 1 \<le> m)"
    using assms b by (intro next_tab_safe) (auto simp: wf_vte_def)
  then obtain m where m: "next_tab (v_cursor_col s + 1) (v_cols s) (v_tab_stops s) = Some m"
      "v_cursor_col s + 1 \<le> m"
    by (auto simp: succeeds_iff)
  have "0 \<le> min m (v_cols s - 1)" "min m (v_cols s - 1) < v_cols s" using b m(2) by auto
  then have "wf_vte mc mr (s\<lparr>v_cursor_col := min m (v_cols s - 1), v_dirty := True\<rparr>)"
    using assms by (simp add: wf_defs)
  with m(1) b show ?thesis by (simp add: horizontal_tab_def i32_def)
qed

lemma execute_control_safe:
  assumes "wf_vte mc mr s"
  shows "succeeds (execute_control c s) (wf_vte mc mr)"
proof -
  have "wf_vte mc mr (s\<lparr>v_cursor_col := v_cursor_col s - 1, v_dirty := True\<rparr>)" if "0 < v_cursor_col s"
    using assms that by (simp add: wf_defs)
  then show ?thesis
    using assms by (simp add: execute_control_def horizontal_tab_safe newline_safe(1))
qed

lemma handle_osc_end_wf: "wf_vte mc mr s \<Longrightarrow> wf_vte mc mr (handle_osc_end s)"
  by (simp add: handle_osc_end_def Let_def split: option.split)

subsection \<open>Grid operations leave the parser alone\<close>

definition keeps :: "'a option \<Rightarrow> ('a \<Rightarrow> bool) \<Rightarrow> bool" where
  "keeps m P \<longleftrightarrow> (\<forall>x. m = Some x \<longrightarrow> P x)"

lemma keeps_simps [simp]:
  "keeps None P" "keeps (Some x) P = P x"
  "keeps (map_option g m) P = keeps m (\<lambda>x. P (g x))"
  "keeps m (\<lambda>x. True)"
  by (cases m; simp add: keeps_def)+

lemma keepsD: "keeps m P \<Longrightarrow> m = Some x \<Longrightarrow> P x"
  by (simp add: keeps_def)

lemma keeps_mono: "keeps m P \<Longrightarrow> (\<And>x. P x \<Longrightarrow> Q x) \<Longrightarrow> keeps m Q"
  by (simp add: keeps_def)

lemma keeps_bind: "keeps m (\<lambda>x. keeps (f x) P) \<Longrightarrow> keeps (m \<bind> f) P"
  by (cases m) (simp_all add: keeps_def)

lemma keeps_for_range:
  assumes "I s" "\<And>j t. I t \<Longrightarrow> keeps (body j t) I"
  shows "keeps (for_range lo hi body s) I"
proof -
  have "keeps (for_up n i body t) I" if "I t" for n i t
    using that
  proof (induction n arbitrary: i t)
    case (Suc n)
    from assms(2) [OF Suc.prems] have "keeps (body i t) (\<lambda>u. keeps (for_up n (i + 1) body u) I)"
      by (rule keeps_mono) (rule Suc.IH)
    then show ?case by (simp add: keeps_bind)
  qed simp
  with assms(1) show ?thesis by (simp add: for_range_def)
qed

lemma keeps_repeat_op:
  assumes "I s" "\<And>t. I t \<Longrightarrow> keeps (f t) I"
  shows "keeps (repeat_op n f s) I"
  using assms(1)
proof (induction n arbitrary: s)
  case (Suc n)
  from assms(2) [OF Suc.prems] have "keeps (f s) (\<lambda>u. keeps (repeat_op n f u) I)"
    by (rule keeps_mono) (rule Suc.IH)
  then show ?case by (simp add: keeps_bind)
qed simp

text \<open>
  The parser's part of the state, with the dimensions, which no input changes.  A bind over another
  type than \<open>vte\<close> cannot change it; a bind over \<open>vte\<close> passes it on.
\<close>

definition parser_part where
  "parser_part s = (v_state s, v_csi_params s, v_csi_current_param s, v_csi_private s,
     v_osc_string s, v_utf8_char s, v_utf8_remaining s, v_title s, v_cols s, v_rows s)"

lemma parser_part_update [simp]:
  "parser_part (t\<lparr>v_screen := scr\<rparr>) = parser_part t"
  "parser_part (t\<lparr>v_dirty := d\<rparr>) = parser_part t"
  "parser_part (t\<lparr>v_cursor_col := c\<rparr>) = parser_part t"
  "parser_part (t\<lparr>v_cursor_row := r\<rparr>) = parser_part t"
  "parser_part (t\<lparr>v_scrollback := sb\<rparr>) = parser_part t"
  "parser_part (t\<lparr>v_tab_stops := ts\<rparr>) = parser_part t"
  "parser_part (t\<lparr>v_current_attrs := a\<rparr>) = parser_part t"
  by (simp_all add: parser_part_def)

lemma keeps_vte:
  assumes "keeps m (\<lambda>t. parser_part t = p)" "\<And>t. parser_part t = p \<Longrightarrow> keeps (f t) Q"
  shows "keeps (m \<bind> f) Q"
  by (rule keeps_bind, rule keeps_mono [OF assms(1)], rule assms(2))

lemma keeps_other:
  fixes m1 :: "row list option" and m2 :: "cell list option" and m3 :: "int option"
    and m4 :: "bool list option"
  shows "(\<And>x. keeps (f1 x) Q) \<Longrightarrow> keeps (m1 \<bind> f1) Q"
    and "(\<And>x. keeps (f2 x) Q) \<Longrightarrow> keeps (m2 \<bind> f2) Q"
    and "(\<And>x. keeps (f3 x) Q) \<Longrightarrow> keeps (m3 \<bind> f3) Q"
    and "(\<And>x. keeps (f4 x) Q) \<Longrightarrow> keeps (m4 \<bind> f4) Q"
  by (rule keeps_bind, simp add: keeps_def)+

named_theorems frame \<open>operations that leave the parser's part alone\<close>

lemma scroll_frame [frame]:
  "parser_part s = p \<Longrightarrow> keeps (scroll_up s) (\<lambda>t. parser_part t = p)"
  "parser_part s = p \<Longrightarrow> keeps (scroll_down s) (\<lambda>t. parser_part t = p)"
  by (auto simp: scroll_up_def scroll_down_def intro!: keeps_other)

lemma newline_frame [frame]: "parser_part s = p \<Longrightarrow> keeps (newline s) (\<lambda>t. parser_part t = p)"
  by (auto simp: newline_def intro!: keeps_vte [where p = p] frame)

lemma on_row_frame [frame]: "parser_part s = p \<Longrightarrow> keeps (on_row r f s) (\<lambda>t. parser_part t = p)"
  by (auto simp: on_row_def intro!: keeps_other)

lemma ensure_row_frame [frame]: "parser_part s = p \<Longrightarrow> keeps (ensure_row r s) (\<lambda>t. parser_part t = p)"
  by (auto simp: ensure_row_def Let_def intro!: keeps_other)

lemma erase_cells_frame [frame]:
  "parser_part s = p \<Longrightarrow> keeps (erase_cells r lo hi s) (\<lambda>t. parser_part t = p)"
  by (auto simp: erase_cells_def intro!: frame)

lemma erase_full_row_frame [frame]:
  "parser_part s = p \<Longrightarrow> keeps (erase_full_row r s) (\<lambda>t. parser_part t = p)"
  by (auto simp: erase_full_row_def intro!: keeps_vte [where p = p] frame)

lemma erase_rows_frame [frame]:
  "parser_part s = p \<Longrightarrow> keeps (for_range lo hi erase_full_row s) (\<lambda>t. parser_part t = p)"
  by (rule keeps_for_range) (auto intro: frame)

lemma put_char_frame [frame]: "parser_part s = p \<Longrightarrow> keeps (put_char c s) (\<lambda>t. parser_part t = p)"
  by (auto simp: put_char_def intro!: keeps_vte [where p = p] frame keeps_other)

lemma lines_frame [frame]:
  "parser_part s = p \<Longrightarrow> keeps (csi_insert_lines n s) (\<lambda>t. parser_part t = p)"
  "parser_part s = p \<Longrightarrow> keeps (csi_delete_lines n s) (\<lambda>t. parser_part t = p)"
  "parser_part s = p \<Longrightarrow> keeps (csi_scroll_up n s) (\<lambda>t. parser_part t = p)"
  "parser_part s = p \<Longrightarrow> keeps (csi_scroll_down n s) (\<lambda>t. parser_part t = p)"
  by (auto simp: csi_insert_lines_def csi_delete_lines_def csi_scroll_up_def csi_scroll_down_def
      insert_line_once_def delete_line_once_def
      intro!: keeps_vte [where p = p] keeps_repeat_op frame keeps_other)

lemma edits_frame [frame]:
  "parser_part s = p \<Longrightarrow> keeps (csi_erase_display n s) (\<lambda>t. parser_part t = p)"
  "parser_part s = p \<Longrightarrow> keeps (csi_erase_line n s) (\<lambda>t. parser_part t = p)"
  "parser_part s = p \<Longrightarrow> keeps (csi_erase_chars n s) (\<lambda>t. parser_part t = p)"
  "parser_part s = p \<Longrightarrow> keeps (csi_delete_chars n s) (\<lambda>t. parser_part t = p)"
  "parser_part s = p \<Longrightarrow> keeps (csi_insert_chars n s) (\<lambda>t. parser_part t = p)"
  by (auto simp: csi_erase_display_def csi_erase_line_def csi_erase_chars_def csi_delete_chars_def
      csi_insert_chars_def
      intro!: keeps_vte [where p = p] frame keeps_other)

lemma parser_part_moves [simp]:
  "parser_part (save_cursor_pos s) = parser_part s"
  "parser_part (restore_cursor_pos s) = parser_part s"
  "parser_part (save_cursor s) = parser_part s"
  "parser_part (restore_cursor s) = parser_part s"
  "parser_part (csi_sgr s) = parser_part s"
  "parser_part (standard_mode st m s) = parser_part s"
  "parser_part (private_mode st m s) = parser_part s"
  by (simp_all add: parser_part_def save_cursor_pos_def restore_cursor_pos_def save_cursor_def
      restore_cursor_def csi_sgr_def standard_mode_def private_mode_def)

lemma parser_part_fold: "(\<And>m s. parser_part (f m s) = parser_part s) \<Longrightarrow> parser_part (fold f ms s) = parser_part s"
  by (induction ms arbitrary: s) auto

lemma parser_part_set_mode [simp]: "parser_part (csi_set_mode st s) = parser_part s"
  by (simp add: csi_set_mode_def parser_part_fold)

lemma moves_frame [frame]:
  "parser_part s = p \<Longrightarrow> keeps (csi_cursor_up n s) (\<lambda>t. parser_part t = p)"
  "parser_part s = p \<Longrightarrow> keeps (csi_cursor_down n s) (\<lambda>t. parser_part t = p)"
  "parser_part s = p \<Longrightarrow> keeps (csi_cursor_forward n s) (\<lambda>t. parser_part t = p)"
  "parser_part s = p \<Longrightarrow> keeps (csi_cursor_back n s) (\<lambda>t. parser_part t = p)"
  "parser_part s = p \<Longrightarrow> keeps (csi_cursor_position n m s) (\<lambda>t. parser_part t = p)"
  "parser_part s = p \<Longrightarrow> keeps (csi_column_absolute s) (\<lambda>t. parser_part t = p)"
  "parser_part s = p \<Longrightarrow> keeps (csi_row_absolute s) (\<lambda>t. parser_part t = p)"
  "parser_part s = p \<Longrightarrow> keeps (set_tab_stop st s) (\<lambda>t. parser_part t = p)"
  "parser_part s = p \<Longrightarrow> keeps (horizontal_tab s) (\<lambda>t. parser_part t = p)"
  "parser_part s = p \<Longrightarrow> keeps (reverse_index s) (\<lambda>t. parser_part t = p)"
  by (auto simp: csi_cursor_up_def csi_cursor_down_def csi_cursor_forward_def csi_cursor_back_def
      csi_cursor_position_def csi_column_absolute_def csi_row_absolute_def set_tab_stop_def
      horizontal_tab_def reverse_index_def Let_def
      intro!: keeps_vte [where p = p] frame keeps_other)

lemma scroll_region_frame [frame]:
  "parser_part s = p \<Longrightarrow> keeps (csi_set_scroll_region s) (\<lambda>t. parser_part t = p)"
  by (auto simp: csi_set_scroll_region_def Let_def parser_part_def intro!: keeps_other)

lemma tab_clear_frame [frame]:
  "parser_part s = p \<Longrightarrow> keeps (csi_tab_clear s) (\<lambda>t. parser_part t = p)"
  by (simp add: csi_tab_clear_def frame)

lemma handle_csi_frame [frame]:
  "parser_part s = p \<Longrightarrow> keeps (handle_csi c s) (\<lambda>t. parser_part t = p)"
  by (simp add: handle_csi_def frame)

lemma execute_control_frame [frame]:
  "parser_part s = p \<Longrightarrow> keeps (execute_control c s) (\<lambda>t. parser_part t = p)"
  by (simp add: execute_control_def frame)

subsection \<open>One character\<close>

text \<open>
  After a character that is no digit, the parser is not in the middle of a parameter: either it
  has left \<open>CsiParam\<close> or the current parameter is empty.
\<close>

definition no_open_param :: "vte \<Rightarrow> bool" where
  "no_open_param s \<longleftrightarrow> (v_state s = CsiParam \<longrightarrow> v_csi_current_param s = -1)"

lemma parser_part_state: "parser_part t = parser_part s \<Longrightarrow> v_state t = v_state s"
  by (simp add: parser_part_def)

lemma keeps_state:
  "(\<And>p. parser_part s = p \<Longrightarrow> keeps m (\<lambda>t. parser_part t = p)) \<Longrightarrow>
   keeps m (\<lambda>t. v_state t = v_state s)"
  by (drule_tac x = "parser_part s" in meta_spec)
     (auto elim!: keeps_mono intro: parser_part_state)

lemma to_ground_closed [simp]: "no_open_param (to_ground s)"
  by (simp add: no_open_param_def to_ground_def)

lemma handle_esc_closed: "keeps (handle_esc c s) no_open_param"
proof -
  have "keeps m (\<lambda>t. no_open_param (to_ground t))" for m by simp
  then show ?thesis by (simp add: handle_esc_def) (simp add: no_open_param_def)
qed

lemma ground_closed:
  assumes "v_state s = Ground"
  shows "keeps (put_char c s) no_open_param" "keeps (execute_control c s) no_open_param"
proof -
  have "keeps (put_char c s) (\<lambda>t. v_state t = v_state s)"
    "keeps (execute_control c s) (\<lambda>t. v_state t = v_state s)"
    by (rule keeps_state; rule frame; assumption)+
  then show "keeps (put_char c s) no_open_param" "keeps (execute_control c s) no_open_param"
    using assms by (auto elim!: keeps_mono simp: no_open_param_def)
qed

lemma process_char_closed:
  assumes "\<not> is_digit_char c"
  shows "keeps (process_char c s) no_open_param"
proof (cases "v_state s")
  case Ground
  then show ?thesis by (simp add: process_char_def ground_closed) (simp add: no_open_param_def)
next
  case Escape
  then show ?thesis by (simp add: process_char_def handle_esc_closed)
next
  case CsiEntry
  with assms show ?thesis
    by (simp add: process_char_def csi_entry_char_def Let_def)
       (simp add: no_open_param_def push_param_def)
next
  case CsiParam
  with assms show ?thesis
    by (simp add: process_char_def csi_param_char_def Let_def)
       (simp add: no_open_param_def push_param_def)
qed (auto simp: process_char_def no_open_param_def to_ground_def)

lemma wf_push_param:
  "wf_vte mc mr s \<Longrightarrow> param_ok p \<Longrightarrow> wf_vte mc mr (push_param p s)"
  by (simp add: push_param_def wf_vte_def)

lemma wf_current_param:
  "wf_vte mc mr s \<Longrightarrow> p \<le> 999999999 \<Longrightarrow> wf_vte mc mr (s\<lparr>v_csi_current_param := p\<rparr>)"
  by (simp add: wf_vte_def)

lemma wf_private: "wf_vte mc mr (s\<lparr>v_csi_private := p\<rparr>) = wf_vte mc mr s"
  by (simp add: wf_vte_def)

lemma wf_params_cleared: "wf_vte mc mr s \<Longrightarrow> wf_vte mc mr (s\<lparr>v_csi_params := []\<rparr>)"
  by (simp add: wf_vte_def)

lemma digit_value:
  assumes "is_digit_char c"
  shows "uint (c - 0x30) = uint c - 48" "0 \<le> uint (c - 0x30)" "uint (c - 0x30) \<le> 9"
proof -
  from assms have "48 \<le> uint c" "uint c \<le> 57"
    by (simp_all add: is_digit_char_def word_le_def)
  moreover from this show "uint (c - 0x30) = uint c - 48"
    by (simp add: uint_sub_if' word_le_def)
  ultimately show "0 \<le> uint (c - 0x30)" "uint (c - 0x30) \<le> 9" by simp_all
qed

lemma csi_entry_char_safe:
  assumes "wf_vte mc mr s"
  shows "succeeds (csi_entry_char c s) (wf_vte mc mr)"
proof -
  let ?s = "s\<lparr>v_csi_params := [], v_csi_current_param := -1, v_csi_private := False\<rparr>"
  have wf: "wf_vte mc mr ?s" using assms by (simp add: wf_vte_def)
  have d: "uint (c - 0x30) \<le> 999999999" if "is_digit_char c"
    using digit_value(3) [OF that] by simp
  show ?thesis
    using wf d by (simp add: csi_entry_char_def Let_def handle_csi_safe wf_push_param)
       (simp add: wf_vte_def)
qed

lemma csi_param_char_digit:
  assumes "is_digit_char c" "v_csi_current_param s \<le> 99999999"
  shows "csi_param_char c s =
    Some (s\<lparr>v_csi_current_param := max 0 (v_csi_current_param s) * 10 + uint (c - 0x30)\<rparr>)"
proof -
  define cur where "cur = max 0 (v_csi_current_param s)"
  define d where "d = uint (c - 0x30)"
  have eq: "(if v_csi_current_param s < 0 then 0 else v_csi_current_param s) = cur"
    by (simp add: cur_def)
  have "0 \<le> cur" "cur \<le> 99999999" "0 \<le> d" "d \<le> 9"
    using assms digit_value [OF assms(1)] by (simp_all add: cur_def d_def)
  then show ?thesis
    using assms(1) by (simp add: csi_param_char_def eq Let_def i32_def flip: cur_def d_def)
qed

lemma csi_param_char_safe:
  assumes "wf_vte mc mr s" "is_digit_char c \<Longrightarrow> v_csi_current_param s \<le> 99999999"
  shows "succeeds (csi_param_char c s) (wf_vte mc mr)"
proof (cases "is_digit_char c")
  case True
  with assms digit_value(3) [OF True]
  have "max 0 (v_csi_current_param s) * 10 + uint (c - 0x30) \<le> 999999999" by (simp add: max_def)
  with True assms show ?thesis by (simp add: csi_param_char_digit wf_current_param)
next
  case False
  have p: "param_ok (v_csi_current_param s)" if "0 \<le> v_csi_current_param s"
    using assms(1) that by (simp add: wf_vte_def param_ok_def)
  then have push: "wf_vte mc mr (push_param (v_csi_current_param s) s)" if "0 \<le> v_csi_current_param s"
    using that assms(1) by (intro wf_push_param)
  show ?thesis
    using False assms(1) p push
    by (simp add: csi_param_char_def wf_current_param wf_push_param handle_csi_safe)
qed

lemma process_char_safe:
  assumes "wf_vte mc mr s"
    and "v_state s = CsiParam \<Longrightarrow> is_digit_char c \<Longrightarrow> v_csi_current_param s \<le> 99999999"
  shows "succeeds (process_char c s) (wf_vte mc mr)"
  using assms
  by (cases "v_state s")
     (simp_all add: process_char_def execute_control_safe put_char_safe handle_esc_safe
       csi_entry_char_safe csi_param_char_safe handle_osc_end_wf)

subsection \<open>Runs of digits\<close>

text \<open>
  \<open>csi_current_param_\<close> is multiplied by ten for every digit without a bound, so an \<open>int\<close> overflows
  after ten digits.  The inputs the safety theorem covers have at most nine possible digits in a
  row; a continuation byte whose low seven bits are a digit counts, since the decoder accepts
  overlong encodings of digits.
\<close>

definition digit_byte :: "u8 \<Rightarrow> bool" where
  "digit_byte b \<longleftrightarrow> 0x30 \<le> b AND 0x7F \<and> b AND 0x7F \<le> 0x39"

definition next_run :: "nat \<Rightarrow> u8 \<Rightarrow> nat" where
  "next_run k b = (if digit_byte b then k + 1 else if b < 0x80 then 0 else k)"

fun short_params :: "nat \<Rightarrow> u8 list \<Rightarrow> bool" where
  "short_params k [] = True"
| "short_params k (b # bs) = (next_run k b \<le> 9 \<and> short_params (next_run k b) bs)"

definition run_bound :: "nat \<Rightarrow> vte \<Rightarrow> bool" where
  "run_bound k s \<longleftrightarrow> (v_state s = CsiParam \<longrightarrow> v_csi_current_param s < 10 ^ k)"

lemma run_bound_mono: "run_bound j s \<Longrightarrow> j \<le> k \<Longrightarrow> run_bound k s"
  by (auto simp: run_bound_def elim!: order_less_le_trans intro: power_increasing)

lemma closed_run_bound: "no_open_param s \<Longrightarrow> run_bound k s"
  by (auto simp: run_bound_def no_open_param_def intro: order_less_le_trans [of "-1" 0])

lemma mask_7F: "(b :: u8) AND 0x7F = take_bit 7 b"
proof -
  have "(0x7F :: u8) = mask 7" by (simp add: mask_eq_exp_minus_1)
  then show ?thesis by (simp add: take_bit_eq_mask)
qed

lemma mask_3F: "(b :: u8) AND 0x3F = take_bit 6 b"
proof -
  have "(0x3F :: u8) = mask 6" by (simp add: mask_eq_exp_minus_1)
  then show ?thesis by (simp add: take_bit_eq_mask)
qed

lemma take_bit_self:
  fixes w :: "'a::len word"
  assumes "uint w < m" "m = 2 ^ n"
  shows "take_bit n w = w"
proof -
  have "uint (take_bit n w) = take_bit n (uint w)" by (simp only: unsigned_take_bit_eq)
  also have "\<dots> = uint w" using assms by (simp add: take_bit_int_eq_self_iff)
  finally show ?thesis by (rule word_uint_eqI)
qed

lemma uint_byte [simp]: "uint (ucast (b :: u8) :: u32) = uint b"
  by (simp add: uint_up_ucast is_up)

lemma digit_ascii:
  assumes "b < (0x80 :: u8)"
  shows "is_digit_char (ucast b) = digit_byte b"
proof -
  from assms have "uint b < 128" by (simp add: word_less_def)
  then have "take_bit 7 b = b" by (rule take_bit_self) simp
  then show ?thesis
    by (simp add: is_digit_char_def digit_byte_def mask_7F word_le_def)
qed

lemma cont_bits:
  assumes "b AND 0xC0 = (0x80 :: u8)"
  shows "bit b 7" "\<not> bit b 6"
proof -
  have "bit (b AND 0xC0) 7 = bit (0x80 :: u8) 7" "bit (b AND 0xC0) 6 = bit (0x80 :: u8) 6"
    by (simp_all only: assms)
  then show "bit b 7" "\<not> bit b 6" by (simp_all add: bit_and_iff)
qed

lemma cont_high: "b AND 0xC0 = (0x80 :: u8) \<Longrightarrow> \<not> b < 0x80"
proof
  assume h: "b AND 0xC0 = 0x80" and "b < 0x80"
  then have "uint b < 128" by (simp add: word_less_def)
  moreover from cont_bits(1) [OF h] have "bit (uint b) 7" by (simp add: bit_uint_iff)
  ultimately show False by (simp add: bit_iff_odd)
qed

lemma digit_overlong:
  assumes h: "b AND 0xC0 = (0x80 :: u8)"
    and d: "is_digit_char (push_bit 6 u OR ucast (b AND 0x3F))"
  shows "digit_byte b"
proof -
  let ?c = "push_bit 6 u OR ucast (b AND 0x3F) :: u32"
  have "take_bit 7 b = take_bit 6 b"
  proof (rule bit_word_eqI)
    fix n
    show "bit (take_bit 7 b) n = bit (take_bit 6 b) n"
      using cont_bits(2) [OF h] by (cases "n = 6") (auto simp: bit_take_bit_iff)
  qed
  then have b6: "b AND 0x7F = take_bit 6 b" by (simp add: mask_7F)
  have "take_bit 6 ?c = ucast (take_bit 6 b)"
    by (rule bit_word_eqI) (auto simp: bit_take_bit_iff bit_or_iff bit_push_bit_iff mask_3F bit_ucast_iff)
  moreover from d have "uint ?c < 64" by (simp add: is_digit_char_def word_le_def)
  then have "take_bit 6 ?c = ?c" by (rule take_bit_self) simp
  ultimately have "?c = ucast (take_bit 6 b)" by simp
  with d have "is_digit_char (ucast (take_bit 6 b))" by simp
  then show ?thesis
    by (simp add: is_digit_char_def digit_byte_def b6 word_le_def)
qed

lemma process_char_run:
  assumes wf: "wf_vte mc mr s" and run: "run_bound k s" and k: "is_digit_char c \<Longrightarrow> k < 9"
    and j: "is_digit_char c \<Longrightarrow> k < j"
  shows "succeeds (process_char c s) (\<lambda>t. wf_vte mc mr t \<and> run_bound j t)"
proof -
  have small: "v_csi_current_param s \<le> 99999999" if "v_state s = CsiParam" "is_digit_char c"
  proof -
    have "(10::int) ^ k \<le> 10 ^ 8" using k that by (intro power_increasing) auto
    with run that show ?thesis by (auto simp: run_bound_def)
  qed
  have wf': "succeeds (process_char c s) (wf_vte mc mr)"
    using wf small by (rule process_char_safe)
  have "keeps (process_char c s) (run_bound j)"
  proof (cases "is_digit_char c \<and> (v_state s = CsiEntry \<or> v_state s = CsiParam)")
    case False
    have "keeps (process_char c s) no_open_param"
    proof (cases "is_digit_char c")
      case True
      with False show ?thesis
        by (cases "v_state s")
          (auto simp: process_char_def ground_closed handle_esc_closed no_open_param_def to_ground_def)
    qed (rule process_char_closed)
    then show ?thesis by (rule keeps_mono) (rule closed_run_bound)
  next
    case True
    then have dig: "is_digit_char c" and kj: "Suc k \<le> j" using j by auto
    have p10: "(10::int) * 10 ^ k \<le> 10 ^ j" using power_increasing [OF kj, of "10::int"] by simp
    have one: "(1::int) \<le> 10 ^ k" by simp
    note d = digit_value(3) [OF dig]
    from dig have not_q: "c \<noteq> 0x3F" "c \<noteq> 0x3E" by (auto simp: is_digit_char_def)
    from True consider "v_state s = CsiEntry" | "v_state s = CsiParam" by auto
    then show ?thesis
    proof cases
      case 1
      have "uint (c - 0x30) < 10 ^ j" using d p10 one by linarith
      with 1 dig not_q show ?thesis
        by (simp add: process_char_def csi_entry_char_def Let_def run_bound_def)
    next
      case 2
      with run have "v_csi_current_param s < 10 ^ k" by (simp add: run_bound_def)
      then have "max 0 (v_csi_current_param s) \<le> 10 ^ k - 1" using one by simp
      then have "max 0 (v_csi_current_param s) * 10 + uint (c - 0x30) < 10 ^ j"
        using d p10 by linarith
      with 2 small dig show ?thesis
        by (simp add: process_char_def csi_param_char_digit run_bound_def)
    qed
  qed
  with wf' show ?thesis by (auto simp: succeeds_iff keeps_def)
qed

subsection \<open>One byte, and any input\<close>

lemma not_digit_replacement [simp]: "\<not> is_digit_char 0xFFFD"
  by (simp add: is_digit_char_def)

lemma run_bound_utf8 [simp]:
  "run_bound k (s\<lparr>v_utf8_char := c\<rparr>) = run_bound k s"
  "run_bound k (s\<lparr>v_utf8_remaining := n\<rparr>) = run_bound k s"
  by (simp_all add: run_bound_def)

lemma next_run_high: "\<not> b < 0x80 \<Longrightarrow> k \<le> next_run k b"
  by (simp add: next_run_def)

lemma feed_start_safe:
  assumes "wf_vte mc mr s" "run_bound k s" "next_run k b \<le> 9"
  shows "succeeds (feed_start b s) (\<lambda>t. wf_vte mc mr t \<and> run_bound (next_run k b) t)"
proof (cases "b < 0x80")
  case True
  have "succeeds (process_char (ucast b) s) (\<lambda>t. wf_vte mc mr t \<and> run_bound (next_run k b) t)"
    using assms by (intro process_char_run [OF assms(1,2)]) (auto simp: digit_ascii [OF True] next_run_def)
  with True show ?thesis by (simp add: feed_start_def)
next
  case False
  have "succeeds (process_char 0xFFFD s) (\<lambda>t. wf_vte mc mr t \<and> run_bound (next_run k b) t)"
    by (rule process_char_run [OF assms(1,2)]) simp_all
  with False assms next_run_high [OF False, of k] show ?thesis
    by (auto simp: feed_start_def intro: run_bound_mono)
qed

lemma feed_byte_safe:
  assumes "wf_vte mc mr s" "run_bound k s" "next_run k b \<le> 9"
  shows "succeeds (feed_byte s b) (\<lambda>t. wf_vte mc mr t \<and> run_bound (next_run k b) t)"
proof (cases "v_utf8_remaining s > 0")
  case False
  then show ?thesis using feed_start_safe [OF assms] by (simp add: feed_byte_def)
next
  case open_char: True
  show ?thesis
  proof (cases "b AND 0xC0 = 0x80")
    case True
    let ?c = "push_bit 6 (v_utf8_char s) OR ucast (b AND 0x3F) :: u32"
    let ?s = "s\<lparr>v_utf8_char := ?c, v_utf8_remaining := v_utf8_remaining s - 1\<rparr>"
    have "succeeds (process_char ?c ?s) (\<lambda>t. wf_vte mc mr t \<and> run_bound (next_run k b) t)"
      using assms digit_overlong [OF True, of "v_utf8_char s"]
      by (intro process_char_run [where k = k]) (auto simp: next_run_def)
    with open_char True assms show ?thesis
      using next_run_high [OF cont_high [OF True], of k]
      by (auto simp: feed_byte_def Let_def intro: run_bound_mono)
  next
    case False
    have "succeeds (process_char 0xFFFD (s\<lparr>v_utf8_remaining := 0\<rparr>)) (\<lambda>t. wf_vte mc mr t \<and> run_bound k t)"
      using assms by (intro process_char_run [where k = k]) simp_all
    then have "succeeds (process_char 0xFFFD (s\<lparr>v_utf8_remaining := 0\<rparr>) \<bind> feed_start b)
        (\<lambda>t. wf_vte mc mr t \<and> run_bound (next_run k b) t)"
      using assms(3) by (auto elim!: succeeds_mono intro: feed_start_safe)
    with open_char False show ?thesis by (simp add: feed_byte_def)
  qed
qed

text \<open>
  The terminal as a machine over bytes; its state carries the length of the current run of
  possible digits.
\<close>

fun counted_byte :: "nat \<times> vte \<Rightarrow> u8 \<Rightarrow> (nat \<times> vte) option" where
  "counted_byte (k, s) b = map_option (Pair (next_run k b)) (feed_byte s b)"

fun counted_inv :: "int \<Rightarrow> int \<Rightarrow> nat \<times> vte \<Rightarrow> bool" where
  "counted_inv mc mr (k, s) \<longleftrightarrow> wf_vte mc mr s \<and> run_bound k s"

fun counted_ok :: "nat \<times> vte \<Rightarrow> u8 \<Rightarrow> bool" where
  "counted_ok (k, s) b \<longleftrightarrow> next_run k b \<le> 9"

interpretation bytes: safe_machine counted_byte "counted_inv mc mr" counted_ok for mc mr
  by unfold_locales (auto intro: feed_byte_safe)

lemma run_counted: "run counted_byte (k, s) bs = map_option (Pair (foldl next_run k bs)) (feed s bs)"
proof (induction bs arbitrary: k s)
  case (Cons b bs)
  then show ?case by (cases "feed_byte s b") (auto simp: feed_def)
qed (simp add: feed_def)

lemma run_ok_counted: "short_params k bs \<Longrightarrow> run_ok counted_byte counted_ok (k, s) bs"
  by (induction bs arbitrary: k s) (auto split: option.split)

lemma feed_wf:
  assumes "wf_vte mc mr s" "run_bound k s" "short_params k bs"
  shows "succeeds (feed s bs) (\<lambda>t. wf_vte mc mr t \<and> run_bound (foldl next_run k bs) t)"
  using bytes.run_safe [of mc mr "(k, s)" bs] assms
  by (simp add: run_counted run_ok_counted)

text \<open>
  The same safety with a condition on the state instead of one on the whole input: only while a CSI
  parameter is open, and already has nine significant digits, may the next byte not be a digit.
  Printed text is free.
\<close>

definition param_room :: "vte \<Rightarrow> u8 \<Rightarrow> bool" where
  "param_room s b \<longleftrightarrow>
     (v_state s = CsiParam \<and> digit_byte b \<longrightarrow> v_csi_current_param s \<le> 99999999)"

lemma feed_start_room:
  assumes "wf_vte mc mr s" "param_room s b"
  shows "succeeds (feed_start b s) (wf_vte mc mr)"
  using assms
  by (cases "b < 0x80") (auto simp: feed_start_def param_room_def digit_ascii intro!: process_char_safe)

lemma param_room_closed: "no_open_param s \<Longrightarrow> param_room s b"
  by (simp add: no_open_param_def param_room_def)

lemma feed_byte_room:
  assumes wf: "wf_vte mc mr s" and room: "param_room s b"
  shows "succeeds (feed_byte s b) (wf_vte mc mr)"
proof (cases "v_utf8_remaining s > 0")
  case False
  then show ?thesis using feed_start_room [OF assms] by (simp add: feed_byte_def)
next
  case open_char: True
  show ?thesis
  proof (cases "b AND 0xC0 = 0x80")
    case True
    let ?c = "push_bit 6 (v_utf8_char s) OR ucast (b AND 0x3F) :: u32"
    let ?s = "s\<lparr>v_utf8_char := ?c, v_utf8_remaining := v_utf8_remaining s - 1\<rparr>"
    have "succeeds (process_char ?c ?s) (wf_vte mc mr)"
      using wf room digit_overlong [OF True, of "v_utf8_char s"]
      by (intro process_char_safe) (auto simp: param_room_def)
    with open_char True wf show ?thesis by (auto simp: feed_byte_def Let_def)
  next
    case False
    let ?s = "s\<lparr>v_utf8_remaining := 0\<rparr>"
    have "succeeds (process_char 0xFFFD ?s) (wf_vte mc mr)"
      using wf by (intro process_char_safe) simp_all
    moreover have "keeps (process_char 0xFFFD ?s) no_open_param"
      by (rule process_char_closed) simp
    ultimately have "succeeds (process_char 0xFFFD ?s \<bind> feed_start b) (wf_vte mc mr)"
      by (auto simp: succeeds_iff keeps_def intro!: feed_start_room [unfolded succeeds_iff] param_room_closed)
    with open_char False show ?thesis by (simp add: feed_byte_def)
  qed
qed

interpretation terminal: safe_machine feed_byte "wf_vte mc mr" param_room for mc mr
  by unfold_locales (rule feed_byte_room)

text \<open>
  A predicate on the parser's part that each of the parser's own assignments keeps is kept by every
  character.
\<close>

lemma process_char_keeps:
  assumes P: "P s"
    and part: "\<And>t u. parser_part t = parser_part u \<Longrightarrow> P u \<Longrightarrow> P t"
    and own: "\<And>t x. P t \<Longrightarrow> P (t\<lparr>v_state := x\<rparr>)" "\<And>t x. P t \<Longrightarrow> P (t\<lparr>v_csi_params := x\<rparr>)"
      "\<And>t x. P t \<Longrightarrow> P (t\<lparr>v_csi_current_param := x\<rparr>)" "\<And>t x. P t \<Longrightarrow> P (t\<lparr>v_csi_private := x\<rparr>)"
      "\<And>t x. P t \<Longrightarrow> P (t\<lparr>v_osc_string := x\<rparr>)" "\<And>t x. P t \<Longrightarrow> P (t\<lparr>v_title := x\<rparr>)"
    and reset: "\<And>t. P t \<Longrightarrow> keeps (vte_reset t) P"
  shows "keeps (process_char c s) P"
proof -
  have frame_P: "keeps m P"
    if "P t" "\<And>p. parser_part t = p \<Longrightarrow> keeps m (\<lambda>u. parser_part u = p)" for m t
    using that(2) [OF refl] by (rule keeps_mono) (rule part [OF _ that(1)])
  have same: "P u" if "P t" "parser_part u = parser_part t" for t u
    using part [OF that(2,1)] .
  have u: "keeps (handle_csi c t) P" if "P t" for t
    using that by (rule frame_P) (rule frame)
  have v: "keeps (execute_control c s) P" "keeps (put_char c s) P" "keeps (newline s) P"
      "keeps (newline (s\<lparr>v_cursor_col := 0\<rparr>)) P" "keeps (reverse_index s) P"
      "keeps (set_tab_stop True s) P"
    using P by (auto intro!: frame_P [of s] frame)
  have g: "keeps m (\<lambda>x. P (x\<lparr>v_state := Ground\<rparr>))" if "keeps m P" for m
    using that by (rule keeps_mono) (rule own(1))
  have "P (save_cursor s)" "P ((restore_cursor s)\<lparr>v_dirty := True\<rparr>)"
    using P by (auto intro!: same [of s])
  then have "keeps (handle_esc c s) P"
    using v reset P own by (simp add: handle_esc_def to_ground_def g)
  moreover have "keeps (csi_entry_char c s) P"
    using own P by (simp add: csi_entry_char_def Let_def push_param_def to_ground_def u g)
  moreover have "keeps (csi_param_char c s) P"
  proof -
    have "keeps (i32 x \<bind> (\<lambda>t. i32 (t + y) \<bind> (\<lambda>p. Some (s\<lparr>v_csi_current_param := p\<rparr>)))) P" for x y
      using own P by (auto intro!: keeps_other)
    then show ?thesis using own P by (simp add: csi_param_char_def Let_def push_param_def to_ground_def u g)
  qed
  ultimately show ?thesis
    using v(1,2) own P
    by (cases "v_state s")
      (simp_all add: process_char_def handle_osc_end_def to_ground_def Let_def split: option.split)
qed

text \<open>The remark at \<open>feed_start\<close>: a character never opens a multi-byte character.\<close>

lemma process_char_utf8_remaining:
  assumes "v_utf8_remaining s = 0"
  shows "keeps (process_char c s) (\<lambda>t. v_utf8_remaining t = 0)"
proof (rule process_char_keeps)
  show "keeps (vte_reset t) (\<lambda>t. v_utf8_remaining t = 0)" for t
    by (auto simp: vte_reset_def init_tab_stops_def intro!: keeps_bind)
qed (use assms in \<open>auto simp: parser_part_def\<close>)

text \<open>No input changes the dimensions.\<close>

lemma process_char_dims:
  "v_cols s = c \<and> v_rows s = r \<Longrightarrow> keeps (process_char x s) (\<lambda>t. v_cols t = c \<and> v_rows t = r)"
proof (erule process_char_keeps)
  show "v_cols t = c \<and> v_rows t = r \<Longrightarrow> keeps (vte_reset t) (\<lambda>t. v_cols t = c \<and> v_rows t = r)" for t
    by (auto simp: vte_reset_def init_tab_stops_def intro!: keeps_bind)
qed (auto simp: parser_part_def)

lemma feed_start_dims:
  "v_cols s = c \<and> v_rows s = r \<Longrightarrow> keeps (feed_start b s) (\<lambda>t. v_cols t = c \<and> v_rows t = r)"
  by (simp add: feed_start_def process_char_dims)

lemma feed_byte_dims:
  "v_cols s = c \<and> v_rows s = r \<Longrightarrow> keeps (feed_byte s b) (\<lambda>t. v_cols t = c \<and> v_rows t = r)"
  by (auto simp: feed_byte_def Let_def process_char_dims feed_start_dims
      intro!: keeps_bind keeps_mono [OF process_char_dims])

lemma feed_dims:
  "v_cols s = c \<and> v_rows s = r \<Longrightarrow> keeps (feed s bs) (\<lambda>t. v_cols t = c \<and> v_rows t = r)"
proof (induction bs arbitrary: s)
  case (Cons b bs)
  then show ?case
    using feed_byte_dims [OF Cons.prems, of b]
    by (cases "feed_byte s b") (auto simp: feed_def)
qed (simp add: feed_def)

end
