(* ===== verification/Terminal_Props.thy ===== *)
theory Terminal_Props
  imports Terminal_Safety
begin

text \<open>
  The properties of the terminal emulator: memory safety of whole sessions, the decoder, scrolling,
  line insertion, printing, colours, the alternate screen, the dirty flag, and the inputs that show
  where the code departs from them.
\<close>

subsection \<open>Sessions\<close>

text \<open>
  The public operations of \<open>Vte\<close> that \<open>main.cpp\<close> calls, as events.  What the environment owes: no
  digit goes to an open parameter that already has nine significant digits, and a resize comes
  outside the alternate screen, with a width and a height from 1 to 2^30 - 1.
\<close>

datatype vte_event = Input "u8 list" | Resized int int | Cleaned | Hard_Reset

fun session_step :: "vte \<Rightarrow> vte_event \<Rightarrow> vte option" where
  "session_step s (Input bs) = feed s bs"
| "session_step s (Resized cols rows) = vte_resize cols rows s"
| "session_step s Cleaned = Some (mark_clean s)"
| "session_step s Hard_Reset = vte_reset s"

fun session_ok :: "vte \<Rightarrow> vte_event \<Rightarrow> bool" where
  "session_ok s (Input bs) = run_ok feed_byte param_room s bs"
| "session_ok s (Resized cols rows) = (dim_ok cols \<and> dim_ok rows \<and> \<not> v_using_alt_screen s)"
| "session_ok s Cleaned = True"
| "session_ok s Hard_Reset = True"

lemma mark_clean_wf: "wf_vte mc mr s \<Longrightarrow> wf_vte mc mr (mark_clean s)"
  by (auto simp: mark_clean_def wf_vte_def wf_grid_def wf_rows_def)

text \<open>Well formed, for the largest screen the bounds of \<open>dim_ok\<close> allow.\<close>

abbreviation wf_terminal :: "vte \<Rightarrow> bool" where
  "wf_terminal \<equiv> wf_vte 1073741823 1073741822"

lemma wf_vte_terminal: "wf_vte mc mr s \<Longrightarrow> wf_terminal s"
  by (auto simp: wf_vte_def upto_ok_def wf_grid_def)

interpretation session: safe_machine session_step wf_terminal session_ok
proof
  fix s e
  assume wf: "wf_terminal s" and ok: "session_ok s e"
  show "succeeds (session_step s e) wf_terminal"
  proof (cases e)
    case (Input bs)
    with wf ok terminal.run_safe show ?thesis by (simp add: feed_def)
  next
    case (Resized cols rows)
    with wf ok show ?thesis by (auto simp: dim_ok_def intro!: vte_resize_safe)
  qed (use wf in \<open>simp_all add: mark_clean_wf vte_reset_safe\<close>)
qed

lemma new_parser:
  assumes "vte_new cols rows = Some s"
  shows "run_bound k s" "v_cols s = cols \<and> v_rows s = rows" "v_utf8_remaining s = 0" "v_state s = Ground"
proof -
  have "keeps (vte_new cols rows) (\<lambda>s. v_state s = Ground \<and> (v_cols s = cols \<and> v_rows s = rows)
      \<and> v_utf8_remaining s = 0)"
    by (auto simp: vte_new_def init_tab_stops_def intro!: keeps_bind)
  with assms show "run_bound k s" "v_cols s = cols \<and> v_rows s = rows" "v_utf8_remaining s = 0"
      "v_state s = Ground"
    by (auto simp: run_bound_def)
qed

lemma new_scrollback: "vte_new cols rows = Some s \<Longrightarrow> v_scrollback s = []"
  by (auto simp: vte_new_def init_tab_stops_def bind_eq_Some_conv split: if_splits)

text \<open>C1. Memory safety of a session: from a new terminal of any size from 1 to 2^30 - 1 columns and rows,
  any sequence of input, resizes to such sizes while the alternate screen is not shown, resets and
  repaints runs without undefined behaviour (no access outside the screen, a row or the tab stops, no
  \<open>int\<close> overflow, no \<open>std::clamp\<close> with crossed bounds), provided that no byte whose low seven bits are
  an ASCII digit arrives while a CSI parameter is open that already has nine significant digits (digits
  in printed text are not restricted); and the terminal is well formed afterwards: at least its
  \<open>rows_\<close> rows, each of \<open>cols_\<close> cells, the scroll region within them and a tab stop for each column.\<close>

theorem session_safe:
  assumes "dim_ok cols" "dim_ok rows"
    and "\<And>s. vte_new cols rows = Some s \<Longrightarrow> run_ok session_step session_ok s es"
  shows "\<exists>t. vte_new cols rows \<bind> (\<lambda>s. run session_step s es) = Some t \<and> wf_terminal t"
proof -
  from vte_new_safe [OF assms(1,2)] obtain s where s: "vte_new cols rows = Some s" "wf_vte cols (rows - 1) s"
    by (auto simp: succeeds_iff)
  with assms(3) session.run_safe [OF wf_vte_terminal] show ?thesis by (auto simp: succeeds_iff)
qed

definition tiny :: vte where
  "tiny = the (vte_new 2 2)"

lemma tiny_wf: "vte_new 2 2 = Some tiny" "wf_vte 2 1 tiny"
proof -
  have "succeeds (vte_new 2 2) (wf_vte 2 (2 - 1))"
    by (rule vte_new_safe) (simp_all add: dim_ok_def)
  then show new: "vte_new 2 2 = Some tiny" and "wf_vte 2 1 tiny"
    by (auto simp: succeeds_iff tiny_def)
qed

lemma session_safe_witness:
  "\<exists>t. vte_new 2 2 \<bind> (\<lambda>s. run session_step s
      [Input [0x1B, 0x5B, 0x39, 0x41, 0x31, 0x78], Resized 1 3, Input [0x78, 0x79], Cleaned]) = Some t
    \<and> wf_terminal t"
  by (rule session_safe) (simp_all add: dim_ok_def tiny_wf(1), code_simp)

text \<open>What the renderer relies on: after any input a fresh terminal still has exactly
  \<open>rows\<close> rows of exactly \<open>cols\<close> cells, the cursor is on one of them (its column is \<open>cols\<close> while a wrap
  is pending) and the scroll region is inside the screen.\<close>

theorem feed_on_screen:
  assumes "vte_new cols rows = Some s" "dim_ok cols" "dim_ok rows" "short_params 0 bs"
  shows "\<exists>t. feed s bs = Some t
    \<and> int (length (v_screen t)) = rows \<and> (\<forall>r\<in>set (v_screen t). int (length r) = cols)
    \<and> 0 \<le> v_cursor_row t \<and> v_cursor_row t < rows \<and> 0 \<le> v_cursor_col t \<and> v_cursor_col t \<le> cols
    \<and> 0 \<le> v_scroll_top t \<and> v_scroll_top t < v_scroll_bottom t \<and> v_scroll_bottom t \<le> rows"
proof -
  have wf: "wf_vte cols (rows - 1) s" using vte_new_safe [OF assms(2,3)] assms(1) by simp
  note new = new_parser(1,2) [OF assms(1)]
  from feed_wf [OF wf new(1) assms(4)] obtain t where t: "feed s bs = Some t" "wf_vte cols (rows - 1) t"
    by (auto simp: succeeds_iff)
  with feed_dims [OF new(2), of bs] have "v_cols t = cols" "v_rows t = rows" by simp_all
  with t show ?thesis by (auto simp: wf_defs wf_rows_def)
qed

lemma feed_on_screen_witness:
  "\<exists>t. feed tiny [0x1B, 0x5B, 0x39, 0x41, 0x78, 0x79, 0x7A] = Some t
    \<and> int (length (v_screen t)) = 2 \<and> (\<forall>r\<in>set (v_screen t). int (length r) = 2)
    \<and> 0 \<le> v_cursor_row t \<and> v_cursor_row t < 2 \<and> 0 \<le> v_cursor_col t \<and> v_cursor_col t \<le> 2
    \<and> 0 \<le> v_scroll_top t \<and> v_scroll_top t < v_scroll_bottom t \<and> v_scroll_bottom t \<le> 2"
  by (rule feed_on_screen [OF tiny_wf(1)]) (simp_all add: dim_ok_def digit_byte_def next_run_def)

subsection \<open>The UTF-8 decoder\<close>

text \<open>The encoding of RFC 3629, of any code point below 2^21.\<close>

definition utf8_encode :: "u32 \<Rightarrow> u8 list" where
  "utf8_encode c =
     (if c < 0x80 then [ucast c]
      else if c < 0x800 then [0xC0 OR ucast (drop_bit 6 c), 0x80 OR ucast (take_bit 6 c)]
      else if c < 0x10000 then
        [0xE0 OR ucast (drop_bit 12 c), 0x80 OR ucast (take_bit 6 (drop_bit 6 c)),
         0x80 OR ucast (take_bit 6 c)]
      else [0xF0 OR ucast (drop_bit 18 c), 0x80 OR ucast (take_bit 6 (drop_bit 12 c)),
         0x80 OR ucast (take_bit 6 (drop_bit 6 c)), 0x80 OR ucast (take_bit 6 c)])"

lemma word_below:
  fixes x :: "'a::len word"
  assumes "x < word_of_nat n" "n < 2 ^ LENGTH('a)"
  shows "x \<in> word_of_nat ` {0..<n}"
proof -
  have "unat x < n" using assms by (simp add: word_less_nat_alt unat_of_nat)
  then have "word_of_nat (unat x) \<in> (word_of_nat ` {0..<n} :: 'a word set)" by (intro imageI) simp
  then show ?thesis by simp
qed

lemma lead2: "(x :: u8) < 0x20 \<Longrightarrow> \<not> 0xC0 OR x < 0x80 \<and> (0xC0 OR x) AND 0xE0 = 0xC0 \<and> (0xC0 OR x) AND 0x1F = x"
  using word_below [of x 32] by (auto simp: atLeastLessThan_nat_numeral)

lemma lead3: "(x :: u8) < 0x10 \<Longrightarrow> \<not> 0xE0 OR x < 0x80 \<and> (0xE0 OR x) AND 0xE0 \<noteq> 0xC0
   \<and> (0xE0 OR x) AND 0xF0 = 0xE0 \<and> (0xE0 OR x) AND 0x0F = x"
  using word_below [of x 16] by (auto simp: atLeastLessThan_nat_numeral)

lemma lead4: "(x :: u8) < 0x08 \<Longrightarrow> \<not> 0xF0 OR x < 0x80 \<and> (0xF0 OR x) AND 0xE0 \<noteq> 0xC0
   \<and> (0xF0 OR x) AND 0xF0 \<noteq> 0xE0 \<and> (0xF0 OR x) AND 0xF8 = 0xF0 \<and> (0xF0 OR x) AND 0x07 = x"
  using word_below [of x 8] by (auto simp: atLeastLessThan_nat_numeral)

lemma cont: "(x :: u8) < 0x40 \<Longrightarrow> (0x80 OR x) AND 0xC0 = 0x80 \<and> (0x80 OR x) AND 0x3F = x"
  using word_below [of x 64] by (auto simp: atLeastLessThan_nat_numeral)

lemma narrow:
  assumes "uint (c :: u32) < 256"
  shows "uint (ucast c :: u8) = uint c" "ucast (ucast c :: u8) = c"
proof -
  show "uint (ucast c :: u8) = uint c"
    using assms by (simp add: unsigned_ucast_eq take_bit_int_eq_self_iff)
  then show "ucast (ucast c :: u8) = c" by (intro word_uint_eqI) simp
qed

lemma uint_drop: "uint (drop_bit k (c :: u32)) = uint c div 2 ^ k"
proof -
  have "take_bit 32 (uint c) = uint c" using uint_lt2p [of c] by (simp add: take_bit_int_eq_self_iff)
  then show ?thesis by (simp only: unsigned_drop_bit_eq) (simp add: drop_bit_eq_div)
qed

lemma six_bits: "uint (take_bit 6 (c :: u32)) < 64"
  using take_bit_int_less_exp [of 6 "uint c"] by (simp only: unsigned_take_bit_eq) simp

lemma shift_in: "push_bit 6 (drop_bit (k + 6) c) OR take_bit 6 (drop_bit k c) = drop_bit k (c :: u32)"
  by (rule bit_word_eqI) (auto simp: bit_or_iff bit_push_bit_iff bit_take_bit_iff bit_drop_bit_eq
      bit_simps dest: bit_imp_le_length)

text \<open>One continuation byte.\<close>

lemma feed_cont:
  assumes "v_utf8_remaining s > 0" "v_utf8_char s = drop_bit (k + 6) c"
  shows "feed_byte s (0x80 OR ucast (take_bit 6 (drop_bit k c))) =
    (let t = s\<lparr>v_utf8_char := drop_bit k c, v_utf8_remaining := v_utf8_remaining s - 1\<rparr>
     in if v_utf8_remaining s = 1 then process_char (drop_bit k c) t else Some t)"
proof -
  let ?x = "ucast (take_bit 6 (drop_bit k c)) :: u8"
  have n: "uint ?x = uint (take_bit 6 (drop_bit k c))" "ucast ?x = take_bit 6 (drop_bit k c)"
    using six_bits [of "drop_bit k c"] by (simp_all only: narrow)
  then have "?x < 0x40" using six_bits [of "drop_bit k c"] by (simp add: word_less_def)
  from cont [OF this] n(2) assms shift_in [of k c] show ?thesis
    by (simp add: feed_byte_def Let_def)
qed

lemma lead_less:
  assumes "uint (c :: u32) < m * 2 ^ k" "m \<le> 256"
  shows "uint (ucast (drop_bit k c) :: u8) < m" "ucast (ucast (drop_bit k c) :: u8) = drop_bit k c"
proof -
  have "uint c div 2 ^ k * 2 ^ k \<le> uint c" by (simp add: minus_mod_eq_div_mult [symmetric])
  then have "uint c div 2 ^ k * 2 ^ k < m * 2 ^ k" using assms(1) by linarith
  then have "uint (drop_bit k c) < m" by (simp add: uint_drop)
  with assms(2) show "uint (ucast (drop_bit k c) :: u8) < m" "ucast (ucast (drop_bit k c) :: u8) = drop_bit k c"
    by (simp_all add: narrow)
qed

text \<open>The decoder undoes the encoding: between characters, the bytes of the UTF-8 encoding of a
  code point act on the terminal as that code point does.\<close>

theorem feed_utf8_encode:
  assumes "c < 0x200000" "v_utf8_remaining s = 0"
  shows "feed s (utf8_encode c) =
    (if c < 0x80 then process_char c s else process_char c (s\<lparr>v_utf8_char := c\<rparr>))"
proof -
  have b: "uint c < 0x200000" using assms(1) by (simp add: word_less_def)
  have z: "s\<lparr>v_utf8_char := d, v_utf8_remaining := 0\<rparr> = s\<lparr>v_utf8_char := d\<rparr>" for d
    using assms(2) by (cases s) simp
  note c0 = feed_cont [where k = 0, simplified]
  consider "c < 0x80" | "\<not> c < 0x80" "c < 0x800" | "\<not> c < 0x800" "c < 0x10000" | "\<not> c < 0x10000"
    by blast
  then show ?thesis
  proof cases
    case 1
    then have "uint c < 128" by (simp add: word_less_def)
    then have "(ucast c :: u8) < 0x80" "ucast (ucast c :: u8) = c"
      by (simp_all add: narrow word_less_def)
    with 1 assms(2) show ?thesis
      by (simp add: feed_def utf8_encode_def feed_byte_def feed_start_def)
  next
    case 2
    then have "uint c < 0x20 * 2 ^ 6" by (simp add: word_less_def)
    note l = lead_less [OF this]
    have "(ucast (drop_bit 6 c) :: u8) < 0x20" using l(1) by (simp add: word_less_def)
    from lead2 [OF this] 2 l(2) assms(2) show ?thesis
      by (simp add: feed_def utf8_encode_def feed_byte_def [of s] feed_start_def c0 z)
  next
    case 3
    then have "uint c < 0x10 * 2 ^ 12" by (simp add: word_less_def)
    note l = lead_less [OF this]
    have "(ucast (drop_bit 12 c) :: u8) < 0x10" using l(1) by (simp add: word_less_def)
    moreover from 3 have "\<not> c < 0x80" by (simp add: word_less_def)
    ultimately show ?thesis
      using lead3 [of "ucast (drop_bit 12 c)"] 3 l(2) assms(2)
      by (simp add: feed_def utf8_encode_def feed_byte_def [of s] feed_start_def c0 z feed_cont [where c = c])
  next
    case 4
    have "uint c < 0x08 * 2 ^ 18" using b by simp
    note l = lead_less [OF this]
    have "(ucast (drop_bit 18 c) :: u8) < 0x08" using l(1) by (simp add: word_less_def)
    moreover from 4 have "\<not> c < 0x80" "\<not> c < 0x800" by (simp_all add: word_less_def)
    ultimately show ?thesis
      using lead4 [of "ucast (drop_bit 18 c)"] 4 l(2) assms(2)
      by (simp add: feed_def utf8_encode_def feed_byte_def [of s] feed_start_def c0 z feed_cont [where c = c])
  qed
qed

lemma feed_utf8_encode_witness:
  "feed tiny (utf8_encode 0x20AC) = process_char 0x20AC (tiny\<lparr>v_utf8_char := 0x20AC\<rparr>)"
  using feed_utf8_encode [of "0x20AC" tiny] new_parser(3) [OF tiny_wf(1)] by simp

text \<open>Input may arrive in pieces: feeding two chunks one after the other, wherever the split falls
  (inside a character or an escape sequence), is feeding their concatenation.\<close>

theorem feed_append: "feed s (bs @ cs) = feed s bs \<bind> (\<lambda>t. feed t cs)"
  by (simp add: feed_def run_append)

subsection \<open>Scrolling, lines and characters\<close>

text \<open>Scrolling a well-formed terminal moves the rows of the region up by one, brings a blank
  row in at the bottom and leaves the rows outside the region alone; the row that leaves the top of
  the primary screen is the newest line of the scrollback, which keeps at most
  \<open>max_scrollback_\<close> lines, dropping the oldest.\<close>

theorem scroll_up_moves_region:
  assumes "wf_vte mc mr s" "length (v_scrollback s) \<le> nat (v_max_scrollback s)"
  shows "\<exists>t. scroll_up s = Some t
    \<and> length (v_screen t) = length (v_screen s)
    \<and> (\<forall>k < length (v_screen s). v_screen t ! k =
         (if v_scroll_top s \<le> int k \<and> int k < v_scroll_bottom s - 1 then v_screen s ! (k + 1)
          else if int k = v_scroll_bottom s - 1 then new_row (v_cols s) else v_screen s ! k))
    \<and> length (v_scrollback t) \<le> nat (v_max_scrollback s)
    \<and> (v_scroll_top s = 0 \<and> \<not> v_using_alt_screen s \<and> 0 < v_max_scrollback s \<longrightarrow>
         last (v_scrollback t) = v_screen s ! 0 \<and>
         (length (v_scrollback s) < nat (v_max_scrollback s) \<longrightarrow>
            v_scrollback t = v_scrollback s @ [v_screen s ! 0]))"
proof -
  let ?t = "s\<lparr>v_scrollback := pushed_scrollback s (v_screen s ! nat (v_scroll_top s)),
    v_screen := region_up (nat (v_scroll_top s)) (nat (v_scroll_bottom s)) (new_row (v_cols s)) (v_screen s),
    v_dirty := True\<rparr>"
  have r: "region_ok s" and m: "0 \<le> v_max_scrollback s"
    using wf_region_ok [OF assms(1)] assms(1) by (simp_all add: wf_vte_def)
  have "scroll_up s = Some ?t" by (rule scroll_up_eq [OF r m])
  moreover obtain a b where ab: "v_scroll_top s = int a" "v_scroll_bottom s = int b"
    using r by (metis region_ok_def nonneg_int_cases order.trans less_imp_le)
  have "v_screen ?t ! k =
         (if v_scroll_top s \<le> int k \<and> int k < v_scroll_bottom s - 1 then v_screen s ! (k + 1)
          else if int k = v_scroll_bottom s - 1 then new_row (v_cols s) else v_screen s ! k)"
    if "k < length (v_screen s)" for k
  proof -
    have l: "a < b" "b \<le> length (v_screen s)" using r ab by (simp_all add: region_ok_def)
    then have c: "(int a \<le> int k \<and> int k < int b - 1) = (a \<le> k \<and> k < b - 1)" "(int k = int b - 1) = (k = b - 1)"
      by auto
    show ?thesis unfolding ab c using nth_region_up [OF l that] by simp
  qed
  moreover have "length (v_screen ?t) = length (v_screen s)"
    using r by (auto simp: region_ok_def nat_less_iff)
  moreover have "length (v_scrollback ?t) \<le> nat (v_max_scrollback s)"
    using assms(2) by (auto simp: pushed_scrollback_def)
  moreover have "last (v_scrollback ?t) = v_screen s ! 0 \<and>
         (length (v_scrollback s) < nat (v_max_scrollback s) \<longrightarrow>
            v_scrollback ?t = v_scrollback s @ [v_screen s ! 0])"
    if "v_scroll_top s = 0 \<and> \<not> v_using_alt_screen s \<and> 0 < v_max_scrollback s"
    using that assms(2) by (auto simp: pushed_scrollback_def)
  ultimately show ?thesis by blast
qed

lemma scroll_up_moves_region_witness:
  "\<exists>t. scroll_up tiny = Some t
    \<and> length (v_screen t) = length (v_screen tiny)
    \<and> (\<forall>k < length (v_screen tiny). v_screen t ! k =
         (if v_scroll_top tiny \<le> int k \<and> int k < v_scroll_bottom tiny - 1 then v_screen tiny ! (k + 1)
          else if int k = v_scroll_bottom tiny - 1 then new_row (v_cols tiny) else v_screen tiny ! k))
    \<and> length (v_scrollback t) \<le> nat (v_max_scrollback tiny)
    \<and> (v_scroll_top tiny = 0 \<and> \<not> v_using_alt_screen tiny \<and> 0 < v_max_scrollback tiny \<longrightarrow>
         last (v_scrollback t) = v_screen tiny ! 0 \<and>
         (length (v_scrollback tiny) < nat (v_max_scrollback tiny) \<longrightarrow>
            v_scrollback t = v_scrollback tiny @ [v_screen tiny ! 0]))"
  by (rule scroll_up_moves_region [OF tiny_wf(2)]) (simp add: new_scrollback [OF tiny_wf(1)])

text \<open>Repeating the one-line edits.\<close>

lemma length_iter_region [simp]:
  assumes "t < b" "b \<le> length xs"
  shows "length ((region_down t b x ^^ n) xs) = length xs" "length ((region_up t b x ^^ n) xs) = length xs"
  using assms by (induction n) auto

lemma region_down_nth_iter:
  assumes "t < b" "b \<le> length xs" "k < length xs"
  shows "(region_down t b x ^^ n) xs ! k =
    (if k < t \<or> b \<le> k then xs ! k else if k < t + n then x else xs ! (k - n))"
  using assms
proof (induction n arbitrary: k)
  case (Suc n)
  then have "(region_down t b x ^^ Suc n) xs ! k =
    (if t < k \<and> k < b then (region_down t b x ^^ n) xs ! (k - 1) else if k = t then x
     else (region_down t b x ^^ n) xs ! k)"
    by (simp add: nth_region_down)
  then show ?case using Suc by auto
qed (auto simp del: funpow.simps simp: funpow_0)

lemma region_up_nth_iter:
  assumes "t < b" "b \<le> length xs" "k < length xs"
  shows "(region_up t b x ^^ n) xs ! k =
    (if k < t \<or> b \<le> k then xs ! k else if b \<le> k + n then x else xs ! (k + n))"
  using assms
proof (induction n arbitrary: k)
  case (Suc n)
  then have "(region_up t b x ^^ Suc n) xs ! k =
    (if t \<le> k \<and> k < b - 1 then (region_up t b x ^^ n) xs ! (k + 1) else if k = b - 1 then x
     else (region_up t b x ^^ n) xs ! k)"
    by (simp add: nth_region_up)
  then show ?case using Suc by auto
qed (auto simp del: funpow.simps simp: funpow_0)

lemma vte_screen_id [simp]: "s\<lparr>v_screen := v_screen s\<rparr> = s"
  by (cases s) simp

lemma insert_lines_loop:
  assumes "0 \<le> v_cursor_row s" "v_cursor_row s < v_scroll_bottom s"
    "v_scroll_bottom s \<le> int (length (v_screen s))"
  shows "repeat_op n insert_line_once s = Some (s\<lparr>v_screen :=
    (region_down (nat (v_cursor_row s)) (nat (v_scroll_bottom s)) (new_row (v_cols s)) ^^ n) (v_screen s)\<rparr>)"
  using assms
proof (induction n arbitrary: s)
  case (Suc n)
  let ?r = "region_down (nat (v_cursor_row s)) (nat (v_scroll_bottom s)) (new_row (v_cols s))"
  have "nat (v_cursor_row s) < nat (v_scroll_bottom s)" "nat (v_scroll_bottom s) \<le> length (v_screen s)"
    using Suc.prems by simp_all
  then show ?case
    using Suc.IH [of "s\<lparr>v_screen := ?r (v_screen s)\<rparr>"] Suc.prems
    by (simp add: insert_line_once_eq funpow_Suc_right del: funpow.simps)
qed simp

lemma delete_lines_loop:
  assumes "0 \<le> v_cursor_row s" "v_cursor_row s < v_scroll_bottom s"
    "v_scroll_bottom s \<le> int (length (v_screen s))"
  shows "repeat_op n delete_line_once s = Some (s\<lparr>v_screen :=
    (region_up (nat (v_cursor_row s)) (nat (v_scroll_bottom s)) (new_row (v_cols s)) ^^ n) (v_screen s)\<rparr>)"
  using assms
proof (induction n arbitrary: s)
  case (Suc n)
  let ?r = "region_up (nat (v_cursor_row s)) (nat (v_scroll_bottom s)) (new_row (v_cols s))"
  have "nat (v_cursor_row s) < nat (v_scroll_bottom s)" "nat (v_scroll_bottom s) \<le> length (v_screen s)"
    using Suc.prems by simp_all
  then show ?case
    using Suc.IH [of "s\<lparr>v_screen := ?r (v_screen s)\<rparr>"] Suc.prems
    by (simp add: delete_line_once_eq funpow_Suc_right del: funpow.simps)
qed simp

text \<open>The cursor is inside the scroll region, the condition under which IL and DL act.\<close>

definition in_region :: "vte \<Rightarrow> bool" where
  "in_region s \<longleftrightarrow> v_scroll_top s \<le> v_cursor_row s \<and> v_cursor_row s < v_scroll_bottom s"

lemma tiny_in_region: "in_region tiny"
proof -
  have "keeps (vte_new 2 2) in_region"
    by (auto simp: vte_new_def init_tab_stops_def in_region_def intro!: keeps_bind)
  with tiny_wf(1) show ?thesis by simp
qed

lemma region_nats:
  assumes "wf_vte mc mr s" "in_region s"
  obtains c d where "v_cursor_row s = int c" "v_scroll_bottom s = int d" "c < d" "d \<le> length (v_screen s)"
    "v_scroll_top s \<le> int c"
proof -
  from assms have b: "0 \<le> v_cursor_row s" "v_cursor_row s < v_scroll_bottom s"
      "v_scroll_bottom s \<le> int (length (v_screen s))" "v_scroll_top s \<le> v_cursor_row s"
    by (simp_all add: wf_defs in_region_def)
  then obtain c d where "v_cursor_row s = int c" "v_scroll_bottom s = int d"
    by (metis nonneg_int_cases order.trans less_imp_le)
  with b show thesis by (intro that [of c d]) simp_all
qed

text \<open>Insert Line (IL) with the cursor inside the scroll region: the rows from the cursor to
  the bottom of the region move down by \<open>n\<close>, blank rows fill the gap, every row above the cursor or
  below the region stays, and the cursor returns to column 0.\<close>

theorem insert_lines_shift:
  assumes "wf_vte mc mr s" "in_region s"
  shows "\<exists>t. csi_insert_lines (int n) s = Some t \<and> v_cursor_col t = 0
      \<and> length (v_screen t) = length (v_screen s)
      \<and> (\<forall>k < length (v_screen s). v_screen t ! k =
           (if int k < v_cursor_row s \<or> v_scroll_bottom s \<le> int k then v_screen s ! k
            else if int k < v_cursor_row s + int n then new_row (v_cols s) else v_screen s ! (k - n)))"
proof -
  from region_nats [OF assms] obtain c d where cd: "v_cursor_row s = int c" "v_scroll_bottom s = int d"
    and l: "c < d" "d \<le> length (v_screen s)" "v_scroll_top s \<le> int c" .
  then show ?thesis
    using insert_lines_loop [of s n] by (simp add: csi_insert_lines_def region_down_nth_iter)
qed

lemma insert_lines_shift_witness:
  "\<exists>t. csi_insert_lines (int 1) tiny = Some t \<and> v_cursor_col t = 0
      \<and> length (v_screen t) = length (v_screen tiny)
      \<and> (\<forall>k < length (v_screen tiny). v_screen t ! k =
           (if int k < v_cursor_row tiny \<or> v_scroll_bottom tiny \<le> int k then v_screen tiny ! k
            else if int k < v_cursor_row tiny + int 1 then new_row (v_cols tiny) else v_screen tiny ! (k - 1)))"
  by (rule insert_lines_shift [OF tiny_wf(2) tiny_in_region])

text \<open>Delete Line (DL) with the cursor inside the scroll region: the rows below the deleted ones move
  up by \<open>n\<close>, blank rows enter at the bottom of the region, and nothing outside changes.\<close>

theorem delete_lines_shift:
  assumes "wf_vte mc mr s" "in_region s"
  shows "\<exists>t. csi_delete_lines (int n) s = Some t \<and> v_cursor_col t = 0
      \<and> length (v_screen t) = length (v_screen s)
      \<and> (\<forall>k < length (v_screen s). v_screen t ! k =
           (if int k < v_cursor_row s \<or> v_scroll_bottom s \<le> int k then v_screen s ! k
            else if v_scroll_bottom s \<le> int k + int n then new_row (v_cols s) else v_screen s ! (k + n)))"
proof -
  from region_nats [OF assms] obtain c d where cd: "v_cursor_row s = int c" "v_scroll_bottom s = int d"
    and l: "c < d" "d \<le> length (v_screen s)" "v_scroll_top s \<le> int c" .
  then show ?thesis
    using delete_lines_loop [of s n]
    by (simp add: csi_delete_lines_def region_up_nth_iter flip: of_nat_add)
qed

lemma delete_lines_shift_witness:
  "\<exists>t. csi_delete_lines (int 1) tiny = Some t \<and> v_cursor_col t = 0
      \<and> length (v_screen t) = length (v_screen tiny)
      \<and> (\<forall>k < length (v_screen tiny). v_screen t ! k =
           (if int k < v_cursor_row tiny \<or> v_scroll_bottom tiny \<le> int k then v_screen tiny ! k
            else if v_scroll_bottom tiny \<le> int k + int 1 then new_row (v_cols tiny) else v_screen tiny ! (k + 1)))"
  by (rule delete_lines_shift [OF tiny_wf(2) tiny_in_region])

subsection \<open>Printing\<close>

lemma ensure_row_id:
  assumes "wf_vte mc mr s" "0 \<le> r" "r < int (length (v_screen s))"
  shows "ensure_row r s = Some s"
proof -
  have "int (length (v_screen s ! nat r)) = v_cols s"
    using assms by (auto simp: wf_defs wf_rows_nth)
  with assms show ?thesis by (simp add: ensure_row_def Let_def)
qed

lemma put_char_plain:
  assumes "wf_vte mc mr s" "v_cursor_row s < int (length (v_screen s))" "v_cursor_col s < v_cols s"
    "\<not> v_insert_mode s"
  shows "put_char c s = Some (s\<lparr>v_screen := (v_screen s)[nat (v_cursor_row s) :=
      (v_screen s ! nat (v_cursor_row s))
        [nat (v_cursor_col s) := \<lparr>ch = c, attrs = v_current_attrs s, cell_dirty = True\<rparr>]],
    v_cursor_col := v_cursor_col s + 1, v_dirty := True\<rparr>)"
proof -
  note b = wf_cursor_bounds [OF assms(1)]
  have "int (length (v_screen s ! nat (v_cursor_row s))) = v_cols s"
    using assms b by (auto simp: wf_defs wf_rows_nth)
  with assms b show ?thesis
    by (simp add: put_char_def ensure_row_id on_row_def put_in_row_def i32_def)
qed

text \<open>Printing left of the right margin (insert mode off) writes the character with the current
  attributes into the cell under the cursor, advances the cursor by one column, and changes no other
  cell.\<close>

theorem put_char_writes_cell:
  assumes "wf_vte mc mr s" "v_cursor_row s < int (length (v_screen s))" "v_cursor_col s < v_cols s"
    "\<not> v_insert_mode s"
  shows "\<exists>t. put_char c s = Some t
    \<and> v_screen t ! nat (v_cursor_row s) ! nat (v_cursor_col s) =
        \<lparr>ch = c, attrs = v_current_attrs s, cell_dirty = True\<rparr>
    \<and> v_cursor_col t = v_cursor_col s + 1 \<and> v_cursor_row t = v_cursor_row s
    \<and> length (v_screen t) = length (v_screen s)
    \<and> (\<forall>i j. i < length (v_screen s) \<and> (int i \<noteq> v_cursor_row s \<or> int j \<noteq> v_cursor_col s) \<longrightarrow>
         v_screen t ! i ! j = v_screen s ! i ! j)"
proof -
  note b = wf_cursor_bounds [OF assms(1)]
  from b(1,2) obtain i j where ij: "v_cursor_row s = int i" "v_cursor_col s = int j"
    by (metis nonneg_int_cases)
  have "int (length (v_screen s ! i)) = v_cols s"
    using assms ij by (simp add: wf_defs wf_rows_nth)
  then have j: "j < length (v_screen s ! i)" using assms(3) ij by simp
  have i: "i < length (v_screen s)" using assms(2) ij by simp
  have "(v_screen s)[i := (v_screen s ! i)[j := x]] ! k ! l = v_screen s ! k ! l"
    if "k < length (v_screen s)" "k \<noteq> i \<or> l \<noteq> j" for k l x
    using that by (cases "k = i") simp_all
  with i j put_char_plain [OF assms, of c] show ?thesis by (simp add: ij)
qed

lemma tiny_values:
  "v_cursor_row tiny = 0" "v_cursor_col tiny = 0" "length (v_screen tiny) = 2" "v_cols tiny = 2"
  "\<not> v_insert_mode tiny" "v_wraparound tiny" "v_state tiny = Ground" "\<not> v_using_alt_screen tiny"
  "v_utf8_remaining tiny = 0" "v_rows tiny = 2"
proof -
  have "keeps (vte_new 2 2) (\<lambda>s. v_cursor_row s = 0 \<and> v_cursor_col s = 0 \<and> length (v_screen s) = 2
    \<and> v_cols s = 2 \<and> \<not> v_insert_mode s \<and> v_wraparound s \<and> v_state s = Ground
    \<and> \<not> v_using_alt_screen s \<and> v_utf8_remaining s = 0 \<and> v_rows s = 2)"
    by (auto simp: vte_new_def init_tab_stops_def intro!: keeps_bind)
  with tiny_wf(1) show "v_cursor_row tiny = 0" "v_cursor_col tiny = 0" "length (v_screen tiny) = 2"
    "v_cols tiny = 2" "\<not> v_insert_mode tiny" "v_wraparound tiny" "v_state tiny = Ground"
    "\<not> v_using_alt_screen tiny" "v_utf8_remaining tiny = 0" "v_rows tiny = 2"
    by simp_all
qed

lemma put_char_writes_cell_witness:
  "\<exists>t. put_char 0x41 tiny = Some t
    \<and> v_screen t ! nat (v_cursor_row tiny) ! nat (v_cursor_col tiny) =
        \<lparr>ch = 0x41, attrs = v_current_attrs tiny, cell_dirty = True\<rparr>
    \<and> v_cursor_col t = v_cursor_col tiny + 1 \<and> v_cursor_row t = v_cursor_row tiny
    \<and> length (v_screen t) = length (v_screen tiny)
    \<and> (\<forall>i j. i < length (v_screen tiny) \<and> (int i \<noteq> v_cursor_row tiny \<or> int j \<noteq> v_cursor_col tiny) \<longrightarrow>
         v_screen t ! i ! j = v_screen tiny ! i ! j)"
  by (rule put_char_writes_cell [OF tiny_wf(2)]) (simp_all add: tiny_values)

lemma newline_col: "keeps (newline s) (\<lambda>t. v_cursor_col t = v_cursor_col s)"
  by (auto simp: newline_def scroll_up_def keeps_def bind_eq_Some_conv split: if_splits)

text \<open>Deferred wrap: a character printed while the cursor is past the last column, with autowrap on,
  acts as a line feed to column 0 (scrolling at the bottom of the region) followed by the
  character.\<close>

theorem put_char_wraps:
  assumes "wf_vte mc mr s" "v_cursor_row s < int (length (v_screen s))" "v_cols s \<le> v_cursor_col s"
    "v_wraparound s"
  shows "put_char c s = newline (s\<lparr>v_cursor_col := 0\<rparr>) \<bind> put_char c"
proof -
  have wf: "wf_vte mc mr (s\<lparr>v_cursor_col := 0\<rparr>)" using assms(1) by simp
  from newline_safe(1) [OF wf] obtain t where t: "newline (s\<lparr>v_cursor_col := 0\<rparr>) = Some t" "wf_vte mc mr t"
    by (auto simp: succeeds_iff)
  have row: "v_cursor_row t < int (length (v_screen t))"
    using newline_safe(2) [OF wf t(1)] assms(2) by simp
  have "v_cursor_col t = 0"
    using newline_col [of "s\<lparr>v_cursor_col := 0\<rparr>"] t(1) by simp
  moreover have "v_cols t \<noteq> 0" using t(2) by (auto simp: wf_defs)
  ultimately show ?thesis
    using assms row t wf_cursor_bounds [OF assms(1)] wf_cursor_bounds [OF t(2)]
    by (simp add: put_char_def [of c s] put_char_def [of c t] ensure_row_id)
qed

lemma put_char_wraps_witness:
  "put_char 0x41 (tiny\<lparr>v_cursor_col := 2\<rparr>) =
    newline (tiny\<lparr>v_cursor_col := 2, v_cursor_col := 0\<rparr>) \<bind> put_char 0x41"
  by (rule put_char_wraps [of 2 1])
     (use tiny_wf(2) in \<open>simp_all add: tiny_values wf_vte_def upto_ok_def\<close>)

subsection \<open>Colours\<close>

definition opaque :: "u32 \<Rightarrow> bool" where
  "opaque c \<longleftrightarrow> drop_bit 24 c = 0xFF"

lemma argb_fields:
  fixes r g b :: u8
  shows "drop_bit 24 (argb (ucast r) (ucast g) (ucast b)) = 0xFF"
    "ucast (drop_bit 16 (argb (ucast r) (ucast g) (ucast b))) = r"
    "ucast (drop_bit 8 (argb (ucast r) (ucast g) (ucast b))) = g"
    "ucast (argb (ucast r) (ucast g) (ucast b)) = b"
proof -
  have FF: "(0xFF000000 :: u32) = push_bit 24 (mask 8)" "(0xFF :: u32) = mask 8"
    by (simp_all add: mask_eq_exp_minus_1)
  have hi: "\<not> bit (w :: u8) n" if "8 \<le> n" for w n
    using that by (auto dest: bit_imp_le_length)
  show "drop_bit 24 (argb (ucast r) (ucast g) (ucast b)) = 0xFF"
    unfolding argb_def FF
    by (rule bit_word_eqI)
      (auto simp: bit_drop_bit_eq bit_or_iff bit_push_bit_iff bit_ucast_iff bit_mask_iff hi simp del: push_bit_numeral)
  show "ucast (drop_bit 16 (argb (ucast r) (ucast g) (ucast b))) = r"
    "ucast (drop_bit 8 (argb (ucast r) (ucast g) (ucast b))) = g"
    "ucast (argb (ucast r) (ucast g) (ucast b)) = b"
    unfolding argb_def FF
    by (rule bit_word_eqI;
      auto simp: bit_drop_bit_eq bit_or_iff bit_push_bit_iff bit_ucast_iff bit_mask_iff hi simp del: push_bit_numeral)+
qed

lemma argb_opaque: "opaque (argb (ucast (r :: u8)) (ucast (g :: u8)) (ucast (b :: u8)))"
  by (simp add: opaque_def argb_fields)

lemma byte_word: "0 \<le> x \<Longrightarrow> x \<le> 255 \<Longrightarrow> (word_of_int x :: u32) = ucast (word_of_int x :: u8)"
  by (rule word_uint_eqI) (simp add: uint_byte uint_word_of_int)

lemma argb_bytes:
  "0 \<le> r \<Longrightarrow> r \<le> 255 \<Longrightarrow> 0 \<le> g \<Longrightarrow> g \<le> 255 \<Longrightarrow> 0 \<le> b \<Longrightarrow> b \<le> 255 \<Longrightarrow>
   argb (word_of_int r) (word_of_int g) (word_of_int b) =
   argb (ucast (word_of_int r :: u8)) (ucast (word_of_int g :: u8)) (ucast (word_of_int b :: u8))"
  by (simp only: byte_word)

lemma kAnsiColors_opaque: "i < 16 \<Longrightarrow> opaque (kAnsiColors ! i)"
proof -
  assume "i < 16"
  have "\<forall>c\<in>set kAnsiColors. opaque c"
    by (simp add: kAnsiColors_def opaque_def)
  with \<open>i < 16\<close> show ?thesis by simp
qed

lemma color_from_index_opaque: "opaque (color_from_index i)"
  by (auto simp: color_from_index_def Let_def argb_opaque intro!: kAnsiColors_opaque) (simp_all add: opaque_def)

definition opaque_attrs :: "cell_attrs \<Rightarrow> bool" where
  "opaque_attrs a \<longleftrightarrow> opaque (fg_color a) \<and> opaque (bg_color a)"

lemma parse_sgr_color_opaque: "opaque c \<Longrightarrow> opaque (snd (parse_sgr_color ps i c))"
  by (auto simp: parse_sgr_color_def Let_def color_from_index_opaque argb_bytes argb_opaque max_def min_def)

lemma sgr_step_opaque:
  "opaque_attrs d \<Longrightarrow> opaque_attrs a \<Longrightarrow> opaque_attrs (snd (sgr_step d ps i a))"
  using parse_sgr_color_opaque [of "fg_color a" ps "i + 1"] parse_sgr_color_opaque [of "bg_color a" ps "i + 1"]
  by (auto simp: sgr_step_def Let_def opaque_attrs_def split: prod.split intro!: kAnsiColors_opaque)

lemma sgr_loop_end [simp]: "length ps \<le> i \<Longrightarrow> sgr_loop d ps i a = a"
  by (subst sgr_loop.simps) simp

lemma sgr_loop_step:
  "i < length ps \<Longrightarrow> sgr_step d ps i a = (n, a') \<Longrightarrow> sgr_loop d ps i a = sgr_loop d ps (i + n + 1) a'"
  by (subst sgr_loop.simps) simp

lemma sgr_loop_opaque:
  "opaque_attrs d \<Longrightarrow> opaque_attrs a \<Longrightarrow> opaque_attrs (sgr_loop d ps i a)"
proof (induction d ps i a rule: sgr_loop.induct)
  case (1 d ps i a)
  obtain n a' where n: "sgr_step d ps i a = (n, a')" by (rule prod.exhaust)
  with 1 sgr_step_opaque [of d a ps i] show ?case
    by (cases "i < length ps") (simp_all add: sgr_loop_step)
qed

text \<open>Select Graphic Rendition never makes a colour transparent: from opaque default and current
  colours, any parameter list (palette, 256-colour, true colour, malformed or out of range) leaves
  foreground and background with alpha \<open>0xFF\<close>.\<close>

theorem csi_sgr_opaque:
  assumes "opaque_attrs (v_default_attrs s)" "opaque_attrs (v_current_attrs s)"
  shows "opaque_attrs (v_current_attrs (csi_sgr s))"
  using assms by (simp add: csi_sgr_def sgr_loop_opaque)

text \<open>True colour: \<open>SGR 38;2;r;g;b\<close> with components in range sets the foreground to the opaque colour
  whose red, green and blue bytes are \<open>r\<close>, \<open>g\<close> and \<open>b\<close>, and no other attribute.\<close>

theorem csi_sgr_true_color:
  assumes "v_csi_params s = [38, 2, uint r, uint g, uint b]"
  shows "\<exists>c. v_current_attrs (csi_sgr s) = (v_current_attrs s)\<lparr>fg_color := c\<rparr>
    \<and> opaque c \<and> ucast (drop_bit 16 c) = (r :: u8) \<and> ucast (drop_bit 8 c) = (g :: u8) \<and> ucast c = (b :: u8)"
proof -
  let ?c = "argb (ucast r) (ucast g) (ucast b)"
  have le: "uint (x :: u8) \<le> 255" for x using uint_lt2p [of x] by simp
  have "sgr_step (v_default_attrs s) (v_csi_params s) 0 (v_current_attrs s) =
      (4, (v_current_attrs s)\<lparr>fg_color := ?c\<rparr>)"
    by (simp add: assms sgr_step_def parse_sgr_color_def le)
  then have "v_current_attrs (csi_sgr s) = (v_current_attrs s)\<lparr>fg_color := ?c\<rparr>"
    by (simp add: csi_sgr_def assms sgr_loop_step)
  then show ?thesis using argb_fields [of r g b] by (intro exI [of _ ?c]) (simp add: opaque_def)
qed


lemma csi_sgr_opaque_witness:
  "opaque_attrs (v_current_attrs (csi_sgr (tiny\<lparr>v_default_attrs := default_cell_attrs,
     v_current_attrs := default_cell_attrs, v_csi_params := [38, 5, 300, 48, 2, 999, 0, 7]\<rparr>)))"
  by (rule csi_sgr_opaque) (simp_all add: opaque_attrs_def opaque_def default_cell_attrs_def)

lemma csi_sgr_true_color_witness:
  "\<exists>c. v_current_attrs (csi_sgr (tiny\<lparr>v_csi_params := [38, 2, 16, 32, 48]\<rparr>))
      = (v_current_attrs (tiny\<lparr>v_csi_params := [38, 2, 16, 32, 48]\<rparr>))\<lparr>fg_color := c\<rparr>
    \<and> opaque c \<and> ucast (drop_bit 16 c) = (0x10 :: u8) \<and> ucast (drop_bit 8 c) = (0x20 :: u8)
    \<and> ucast c = (0x30 :: u8)"
  by (rule csi_sgr_true_color) simp

subsection \<open>The dirty flag\<close>

text \<open>
  \<open>visible_part\<close> is what the renderer draws; \<open>seen s t\<close> says that going from \<open>s\<close> to \<open>t\<close> the change,
  if any, is announced.
\<close>

definition visible_part where
  "visible_part s = (v_screen s, v_cursor_row s, v_cursor_col s, v_cursor_visible s)"

definition seen :: "vte \<Rightarrow> vte \<Rightarrow> bool" where
  "seen s t \<longleftrightarrow> (v_dirty s \<longrightarrow> v_dirty t) \<and> (v_dirty t \<or> visible_part t = visible_part s)"

lemma seen_refl [simp]: "seen s s"
  by (simp add: seen_def)

lemma seen_trans: "seen s t \<Longrightarrow> seen t u \<Longrightarrow> seen s u"
  by (auto simp: seen_def)

lemma seen_dirty [simp]: "seen s (t\<lparr>v_dirty := True\<rparr>)"
  by (simp add: seen_def)

lemma keeps_any: "(\<And>x. keeps (f x) P) \<Longrightarrow> keeps (m \<bind> f) P"
  by (auto simp: keeps_def bind_eq_Some_conv)

lemma seen_then:
  assumes "keeps m (seen s)" "\<And>t. keeps (f t) (seen t)"
  shows "keeps (m \<bind> f) (seen s)"
  using assms by (auto simp: keeps_def bind_eq_Some_conv intro: seen_trans)

lemma seen_own [simp]:
  "seen s (t\<lparr>v_state := x\<rparr>) = seen s t" "seen s (t\<lparr>v_csi_params := y\<rparr>) = seen s t"
  "seen s (t\<lparr>v_csi_current_param := z\<rparr>) = seen s t" "seen s (t\<lparr>v_csi_private := b\<rparr>) = seen s t"
  "seen s (t\<lparr>v_osc_string := o'\<rparr>) = seen s t" "seen s (t\<lparr>v_title := o'\<rparr>) = seen s t"
  "seen s (t\<lparr>v_utf8_char := c\<rparr>) = seen s t" "seen s (t\<lparr>v_utf8_remaining := n\<rparr>) = seen s t"
  "seen s (t\<lparr>v_tab_stops := ts\<rparr>) = seen s t"  "seen s (t\<lparr>v_current_attrs := a\<rparr>) = seen s t"
  by (simp_all add: seen_def visible_part_def)

lemma seen_saves [simp]:
  "seen s (save_cursor_pos s)" "seen s (save_cursor s)" "seen s (csi_sgr s)" "seen s (to_ground s)"
  "seen s (standard_mode st m s)" "seen s (push_param p s)"
  by (simp_all add: seen_def visible_part_def save_cursor_def save_cursor_pos_def csi_sgr_def
      to_ground_def standard_mode_def push_param_def)

lemma seen_private_mode: "seen s (private_mode st m s)"
  by (simp add: private_mode_def) (simp add: seen_def visible_part_def)

lemma seen_fold: "(\<And>m s. seen s (f m s)) \<Longrightarrow> seen s (fold f ms s)"
  by (induction ms arbitrary: s) (auto intro: seen_trans)

lemma seen_set_mode [simp]: "seen s (csi_set_mode st s)"
  by (simp add: csi_set_mode_def seen_fold seen_private_mode)

lemma seen_scroll: "keeps (scroll_up s) (seen s)" "keeps (scroll_down s) (seen s)"
  by (auto simp: scroll_up_def scroll_down_def intro!: keeps_any)

lemma seen_repeat: "(\<And>s. keeps (f s) (seen s)) \<Longrightarrow> keeps (repeat_op n f s) (seen s)"
  by (induction n arbitrary: s) (auto intro!: seen_then)

lemma seen_ops:
  "keeps (newline s) (seen r)" "keeps (put_char c s) (seen r)"
  "keeps (csi_cursor_up n s) (seen r)" "keeps (csi_cursor_down n s) (seen r)"
  "keeps (csi_cursor_forward n s) (seen r)" "keeps (csi_cursor_back n s) (seen r)"
  "keeps (csi_cursor_position n m s) (seen r)" "keeps (csi_column_absolute s) (seen r)"
  "keeps (csi_row_absolute s) (seen r)" "keeps (csi_erase_display n s) (seen r)"
  "keeps (csi_erase_line n s) (seen r)" "keeps (csi_erase_chars n s) (seen r)"
  "keeps (csi_delete_chars n s) (seen r)" "keeps (csi_insert_chars n s) (seen r)"
  "keeps (csi_set_scroll_region s) (seen r)" "keeps (reverse_index s) (seen r)"
  "keeps (horizontal_tab s) (seen r)" "keeps (vte_reset s) (seen r)"
  by (auto simp: newline_def put_char_def csi_cursor_up_def csi_cursor_down_def csi_cursor_forward_def
      csi_cursor_back_def csi_cursor_position_def csi_column_absolute_def csi_row_absolute_def
      csi_erase_display_def csi_erase_line_def csi_erase_chars_def csi_delete_chars_def
      csi_insert_chars_def csi_set_scroll_region_def reverse_index_def horizontal_tab_def
      vte_reset_def Let_def intro!: keeps_any split: prod.split)

lemma seen_lines:
  "keeps (csi_insert_lines n s) (seen s)" "keeps (csi_delete_lines n s) (seen s)"
  by (auto simp: csi_insert_lines_def csi_delete_lines_def intro!: keeps_any)

lemma seen_set_tab: "keeps (set_tab_stop st s) (seen s)" "keeps (csi_tab_clear s) (seen s)"
  by (auto simp: set_tab_stop_def csi_tab_clear_def intro!: keeps_any)

lemma seen_handle_csi: "keeps (handle_csi c s) (seen s)"
  by (simp add: handle_csi_def seen_ops seen_lines seen_set_tab csi_scroll_up_def csi_scroll_down_def
      seen_repeat seen_scroll)

lemma seen_to_ground [simp]: "seen s (to_ground t) = seen s t"
  by (simp add: to_ground_def)

lemma seen_handle_esc: "keeps (handle_esc c s) (seen s)"
  by (simp add: handle_esc_def seen_ops seen_set_tab)

lemma seen_execute_control: "keeps (execute_control c s) (seen s)"
  by (simp add: execute_control_def seen_ops)

lemma seen_swap:
  assumes "visible_part u = visible_part s" "v_dirty u = v_dirty s"
  shows "seen u = seen s"
  using assms by (auto simp: seen_def)

lemma seen_csi_chars:
  "keeps (csi_entry_char c s) (seen s)" "keeps (csi_param_char c s) (seen s)"
proof -
  have h: "keeps (handle_csi c u) (seen s)" if "visible_part u = visible_part s" "v_dirty u = v_dirty s" for u
    using seen_handle_csi [of c u] by (simp add: seen_swap [OF that])
  show "keeps (csi_entry_char c s) (seen s)"
    by (auto simp: csi_entry_char_def Let_def push_param_def visible_part_def intro!: h)
  show "keeps (csi_param_char c s) (seen s)"
    by (auto simp: csi_param_char_def Let_def push_param_def visible_part_def intro!: h keeps_any)
qed

lemma seen_process_char: "keeps (process_char c s) (seen s)"
  by (cases "v_state s")
    (auto simp: process_char_def seen_execute_control seen_ops seen_handle_esc seen_csi_chars
      handle_osc_end_def Let_def split: option.split)

lemma seen_feed_start: "keeps (feed_start b s) (seen s)"
  by (simp add: feed_start_def seen_process_char)

lemma seen_feed_byte: "keeps (feed_byte s b) (seen s)"
proof -
  have p: "keeps (process_char c u) (seen s)" if "visible_part u = visible_part s" "v_dirty u = v_dirty s" for c u
    using seen_process_char [of c u] by (simp add: seen_swap [OF that])
  show ?thesis
    by (auto simp: feed_byte_def Let_def seen_feed_start visible_part_def intro!: p seen_then)
qed

lemma seen_feed: "keeps (feed s bs) (seen s)"
proof (induction bs arbitrary: s)
  case (Cons b bs)
  have "keeps (feed_byte s b \<bind> (\<lambda>t. feed t bs)) (seen s)"
    by (rule seen_then [OF seen_feed_byte Cons.IH])
  then show ?case by (simp add: feed_def)
qed (simp add: feed_def)

text \<open>C37. No change goes undrawn: if after a repaint (\<open>mark_clean\<close>) some input leaves the dirty flag clear,
  the screen, the cursor position and the cursor's visibility are what was drawn.\<close>

theorem dirty_announces_changes:
  assumes "feed (mark_clean s) bs = Some t" "\<not> v_dirty t"
  shows "visible_part t = visible_part (mark_clean s)"
  using keepsD [OF seen_feed assms(1)] assms(2) by (simp add: seen_def)

lemma tiny_escape: "feed (mark_clean tiny) [0x1B] = Some ((mark_clean tiny)\<lparr>v_state := Escape\<rparr>)"
  by (simp add: feed_def feed_byte_def feed_start_def process_char_def mark_clean_def tiny_values)

lemma dirty_announces_changes_witness:
  "visible_part ((mark_clean tiny)\<lparr>v_state := Escape\<rparr>) = visible_part (mark_clean tiny)"
  by (rule dirty_announces_changes [OF tiny_escape]) (simp add: mark_clean_def)

text \<open>A repaint leaves nothing dirty and draws what is there: after \<open>mark_clean\<close> no cell and no flag is dirty,
  and characters, attributes and cursor are unchanged.\<close>

theorem mark_clean_cleans:
  "\<not> v_dirty (mark_clean s) \<and> (\<forall>r\<in>set (v_screen (mark_clean s)). \<forall>c\<in>set r. \<not> cell_dirty c)
   \<and> map (map (\<lambda>c. (ch c, attrs c))) (v_screen (mark_clean s)) = map (map (\<lambda>c. (ch c, attrs c))) (v_screen s)
   \<and> v_cursor_row (mark_clean s) = v_cursor_row s \<and> v_cursor_col (mark_clean s) = v_cursor_col s"
  by (simp add: mark_clean_def comp_def)

subsection \<open>The alternate screen\<close>

text \<open>Leaving the alternate screen gives the primary screen back: whatever an application did after
  mode 1049 was set from the primary screen, as long as it kept the saved screen and cursor, resetting
  the mode restores the screen, the cursor and the attributes of the moment of entry.\<close>

theorem alternate_screen_restores:
  assumes "t = private_mode True 1049 s"
    and "v_using_alt_screen u" "v_alt_screen u = v_alt_screen t" "v_saved_attrs u = v_saved_attrs t"
      "v_saved_cursor_row u = v_saved_cursor_row t" "v_saved_cursor_col u = v_saved_cursor_col t"
  shows "v_screen (private_mode False 1049 u) = v_screen s
    \<and> v_cursor_row (private_mode False 1049 u) = v_cursor_row s
    \<and> v_cursor_col (private_mode False 1049 u) = v_cursor_col s
    \<and> v_current_attrs (private_mode False 1049 u) = v_current_attrs s
    \<and> \<not> v_using_alt_screen (private_mode False 1049 u)"
  using assms by (simp add: private_mode_def save_cursor_def save_cursor_pos_def restore_cursor_def
      restore_cursor_pos_def)

lemma alternate_screen_restores_witness:
  "v_screen (private_mode False 1049 ((private_mode True 1049 tiny)\<lparr>v_screen := [], v_cursor_row := 1\<rparr>)) = v_screen tiny"
  using alternate_screen_restores [OF refl, of "(private_mode True 1049 tiny)\<lparr>v_screen := [], v_cursor_row := 1\<rparr>" tiny]
  by (simp add: private_mode_def)

text \<open>Mode 1049 has no guard against being set twice, unlike 47 and 1047: the second time the
  alternate screen replaces the saved primary screen, and resetting the mode shows blank rows.\<close>

theorem alternate_screen_set_twice:
  "v_screen (private_mode False 1049 (private_mode True 1049 (private_mode True 1049 s))) =
     map (\<lambda>_. new_row (v_cols s)) (v_screen s)"
  by (simp add: private_mode_def save_cursor_def save_cursor_pos_def restore_cursor_def
      restore_cursor_pos_def cleared_screen_def)

subsection \<open>Inputs on which the code departs from what it means to do\<close>

lemma feed_nine:
  assumes "v_state s = CsiParam" "v_utf8_remaining s = 0" "0 \<le> v_csi_current_param s"
  shows "feed s (0x39 # bs) = i32 (v_csi_current_param s * 10) \<bind> (\<lambda>t. i32 (t + 9) \<bind>
    (\<lambda>p. feed (s\<lparr>v_csi_current_param := p\<rparr>) bs))"
  using assms
  by (simp add: feed_def feed_byte_def feed_start_def process_char_def csi_param_char_def
      is_digit_char_def)

text \<open>A parameter of ten digits overflows \<open>int\<close>: the bytes \<open>ESC [ 9999999999\<close> are undefined behaviour
  in any terminal between sequences.  The bound of nine digits in the safety theorems is exact.\<close>

theorem ten_digits_overflow:
  assumes "v_state s = Ground" "v_utf8_remaining s = 0"
  shows "feed s ([0x1B, 0x5B] @ replicate 10 0x39) = None"
proof -
  have "feed s (0x1B # 0x5B # 0x39 # bs) =
      feed (s\<lparr>v_csi_params := [], v_csi_private := False, v_csi_current_param := 9, v_state := CsiParam\<rparr>) bs"
    for bs
    using assms by (simp add: feed_def feed_byte_def feed_start_def process_char_def handle_esc_def
        csi_entry_char_def is_digit_char_def)
  then show ?thesis
    using assms(2) by (simp add: eval_nat_numeral feed_nine i32_def)
qed

lemma ten_digits_overflow_witness: "feed tiny ([0x1B, 0x5B] @ replicate 10 0x39) = None"
  by (rule ten_digits_overflow) (simp_all add: tiny_values)

text \<open>The code comments \<open>ESC ( B\<close> as a character set designation whose designator is consumed; it is
  not: the parser returns to the ground state after the parenthesis and the designator is printed.\<close>

theorem charset_designator_printed:
  assumes "v_state s = Ground" "v_utf8_remaining s = 0"
  shows "feed s [0x1B, 0x28, 0x42] = put_char 0x42 s"
proof -
  have same: "s\<lparr>v_state := Ground\<rparr> = s" using assms(1) by (cases s) simp
  have "feed s [0x1B, 0x28, 0x42] = put_char 0x42 (s\<lparr>v_state := Ground\<rparr>)"
    using assms by (simp add: feed_def feed_byte_def feed_start_def process_char_def handle_esc_def
        to_ground_def)
  then show ?thesis by (simp only: same)
qed

lemma charset_designator_printed_witness: "feed tiny [0x1B, 0x28, 0x42] = put_char 0x42 tiny"
  by (rule charset_designator_printed) (simp_all add: tiny_values)

text \<open>A resize while the alternate screen is shown leaves the saved primary screen at its old size:
  after growing the window from 2 to 4 rows and leaving the alternate screen, four line feeds read a
  row that does not exist.\<close>

theorem resize_in_alternate_screen:
  "do { s \<leftarrow> vte_new 2 2; s \<leftarrow> vte_resize 2 4 (private_mode True 1049 s);
        feed (private_mode False 1049 s) [0x0A, 0x0A, 0x0A, 0x0A] } = None"
  by code_simp

end
