(* ===== verification/Bytes.thy ===== *)
theory Bytes
  imports Prelude
begin

text \<open>
  Bytes in memory: little-endian integers, as \<open>std::memcpy\<close> of an integer or of a packed field reads
  and writes them on the little-endian targets of the sources, slices, and the results of fallible
  operations.
\<close>

subsection \<open>Little-endian integers\<close>

fun le_bytes :: "nat \<Rightarrow> nat \<Rightarrow> u8 list" where
  "le_bytes 0 x = []"
| "le_bytes (Suc n) x = word_of_nat (x mod 256) # le_bytes n (x div 256)"

fun le_value :: "u8 list \<Rightarrow> nat" where
  "le_value [] = 0"
| "le_value (b # bs) = unat b + 256 * le_value bs"

lemma length_le_bytes [simp]: "length (le_bytes n x) = n"
  by (induction n x rule: le_bytes.induct) auto

lemma le_value_bytes: "le_value (le_bytes n x) = x mod 256 ^ n"
proof (induction n x rule: le_bytes.induct)
  case (2 n x)
  have "unat (word_of_nat (x mod 256) :: u8) = x mod 256" by (simp add: unat_of_nat)
  with 2 show ?case
    using mod_mult2_eq [of x 256 "256 ^ n"] by simp
qed simp

lemma le_value_bytes_id [simp]: "x < 256 ^ n \<Longrightarrow> le_value (le_bytes n x) = x"
  by (simp add: le_value_bytes)

lemma unat_byte_less: "unat (b :: u8) < 256"
proof -
  have "unat b < 2 ^ LENGTH(8)" by (rule unsigned_less)
  then show ?thesis by simp
qed

lemma le_value_less: "le_value bs < 256 ^ length bs"
proof (induction bs)
  case (Cons b bs)
  have "unat b + 256 * le_value bs < 256 + 256 * le_value bs" using unat_byte_less [of b] by simp
  also have "\<dots> \<le> 256 * 256 ^ length bs" using Cons by simp
  finally show ?case by simp
qed simp

lemma le_bytes_value: "le_bytes (length bs) (le_value bs) = bs"
proof (induction bs)
  case (Cons b bs)
  have "(unat b + 256 * le_value bs) mod 256 = unat b" "(unat b + 256 * le_value bs) div 256 = le_value bs"
    using unat_byte_less [of b] by simp_all
  with Cons show ?case by simp
qed simp

subsection \<open>Slices\<close>

definition slice_of :: "nat \<Rightarrow> nat \<Rightarrow> 'a list \<Rightarrow> 'a list" where
  "slice_of off n xs = take n (drop off xs)"

lemma length_slice_of [simp]: "length (slice_of off n xs) = min n (length xs - off)"
  by (simp add: slice_of_def min.commute)

lemma nth_slice_of [simp]: "k < n \<Longrightarrow> off + k < length xs \<Longrightarrow> slice_of off n xs ! k = xs ! (off + k)"
  by (simp add: slice_of_def)

lemma slice_of_append:
  "off = length xs \<Longrightarrow> slice_of off n (xs @ ys) = take n ys"
  by (simp add: slice_of_def)

lemma take_slice: "i \<le> j \<Longrightarrow> take i xs @ slice_of i (j - i) xs = take j xs"
  by (simp add: slice_of_def take_add [symmetric])

text \<open>A \<open>size_t\<close> value: arithmetic on it wraps.\<close>

definition size_t :: "nat \<Rightarrow> nat" where
  "size_t x = x mod 2 ^ 64"

lemma size_t_small [simp]: "x < 2 ^ 64 \<Longrightarrow> size_t x = x"
  by (simp add: size_t_def)

text \<open>\<open>static_cast<int>\<close> of a \<open>size_t\<close>: the low 32 bits, read with a sign.\<close>

definition to_int :: "nat \<Rightarrow> int" where
  "to_int n = sint (word_of_nat n :: 32 word)"

lemma to_int_small: "n < 2 ^ 31 \<Longrightarrow> to_int n = int n"
  by (simp add: to_int_def signed_of_nat signed_take_bit_int_eq_self)

text \<open>The difference of two sizes: the subtrahend wraps and wraps back.\<close>

lemma size_t_diff: "y \<le> x \<Longrightarrow> x < 2 ^ 64 \<Longrightarrow> size_t (x + 2 ^ 64 - y) = x - y"
proof -
  assume a: "y \<le> x" "x < 2 ^ 64"
  then have "x + 2 ^ 64 - y = (x - y) + 2 ^ 64"
    by linarith
  then have "size_t (x + 2 ^ 64 - y) = (x - y) mod 2 ^ 64"
    unfolding size_t_def by (metis mod_add_self2)
  with a show ?thesis
    by simp
qed

end
