(* ===== verification/Editor_Buffer.thy ===== *)
theory Editor_Buffer
  imports Bytes
begin

text \<open>
  The text buffer of the editor (\<open>apps/editor/buffer.cpp\<close>): a gap buffer with an index of line starts
  and stacks of inverse edits for undo and redo.  Every access of \<open>data_\<close> and of the line index, and
  the increments of an \<open>int\<close>, are checked; \<open>None\<close> is an access outside.  The backs of the two stacks
  are the heads of the lists.  Reading and writing files is an argument.
\<close>

subsection \<open>State\<close>

record position =
  p_line :: int
  p_col :: int

datatype edit_kind = Insert | Erase

record edit =
  e_kind :: edit_kind
  e_pos :: position
  e_text :: string

record buffer =
  data :: string
  gap_start :: nat
  gap_end :: nat
  line_starts :: "nat list"
  undo_stack :: "edit list"
  redo_stack :: "edit list"
  path :: string
  modified :: bool

definition kInitialGapSize :: nat where "kInitialGapSize = 4096"

definition kGrowFactor :: nat where "kGrowFactor = 2"

subsection \<open>The gap buffer\<close>

definition gap_size :: "buffer \<Rightarrow> nat" where
  "gap_size b = size_t (gap_end b + 2 ^ 64 - gap_start b)"

definition content_size :: "buffer \<Rightarrow> nat" where
  "content_size b = size_t (length (data b) + 2 ^ 64 - gap_size b)"

definition char_at :: "buffer \<Rightarrow> nat \<Rightarrow> char option" where
  "char_at b i =
     (let phys = (if i < gap_start b then i else size_t (i + gap_size b)) in
      if phys < length (data b) then Some (data b ! phys) else None)"

definition memmove :: "nat \<Rightarrow> nat \<Rightarrow> nat \<Rightarrow> string \<Rightarrow> string option" where
  "memmove dst src n d =
     (if dst + n \<le> length d \<and> src + n \<le> length d
      then Some (take dst d @ take n (drop src d) @ drop (dst + n) d) else None)"

definition move_gap :: "nat \<Rightarrow> buffer \<Rightarrow> buffer option" where
  "move_gap off b =
     (let gap = gap_size b in
      if off = gap_start b then Some b
      else if off < gap_start b then do {
        d \<leftarrow> memmove (size_t (off + gap)) off (gap_start b - off) (data b);
        Some (b\<lparr>data := d, gap_start := off, gap_end := size_t (off + gap)\<rparr>) }
      else do {
        let phys_offset = size_t (off + gap);
        let n = size_t (phys_offset + 2 ^ 64 - gap_end b);
        d \<leftarrow> memmove (gap_start b) (gap_end b) n (data b);
        Some (b\<lparr>data := d, gap_start := off, gap_end := size_t (off + gap)\<rparr>) })"

definition ensure_gap :: "nat \<Rightarrow> buffer \<Rightarrow> buffer option" where
  "ensure_gap needed b =
     (if gap_size b \<ge> needed then Some b
      else
        let new_gap = max (size_t (needed * kGrowFactor)) kInitialGapSize in
        if gap_start b \<le> length (data b) \<and> gap_end b \<le> length (data b)
        then Some (b\<lparr>data := take (gap_start b) (data b) @ replicate new_gap (CHR 0x00) @ drop (gap_end b) (data b),
          gap_end := gap_start b + new_gap\<rparr>)
        else None)"

definition memcpy_into :: "nat \<Rightarrow> string \<Rightarrow> string \<Rightarrow> string option" where
  "memcpy_into off t d =
     (if off + length t \<le> length d then Some (take off d @ t @ drop (off + length t) d) else None)"

subsection \<open>The line index\<close>

function starts_from :: "buffer \<Rightarrow> nat \<Rightarrow> nat \<Rightarrow> nat list option" where
  "starts_from b sz i =
     (if i < sz then do {
        c \<leftarrow> char_at b i;
        rest \<leftarrow> starts_from b sz (i + 1);
        Some (if c = CHR 0x0A then (i + 1) # rest else rest) }
      else Some [])"
  by pat_completeness auto

termination
  by (relation "measure (\<lambda>(_, sz, i). sz - i)") auto

declare starts_from.simps [simp del]

definition rebuild_line_index :: "buffer \<Rightarrow> buffer option" where
  "rebuild_line_index b = do {
     rest \<leftarrow> starts_from b (content_size b) 0;
     Some (b\<lparr>line_starts := 0 # rest\<rparr>) }"

definition line_count :: "buffer \<Rightarrow> int" where
  "line_count b = to_int (length (line_starts b))"

text \<open>The characters from an offset to a stop or the end of the line.\<close>

function line_chars :: "buffer \<Rightarrow> nat \<Rightarrow> nat \<Rightarrow> string option" where
  "line_chars b stop i =
     (if i < stop then do {
        c \<leftarrow> char_at b i;
        if c = CHR 0x0A then Some [] else map_option ((#) c) (line_chars b stop (i + 1)) }
      else Some [])"
  by pat_completeness auto

termination
  by (relation "measure (\<lambda>(_, stop, i). stop - i)") auto

declare line_chars.simps [simp del]

definition line_stop :: "buffer \<Rightarrow> int \<Rightarrow> nat option" where
  "line_stop b idx =
     (if idx + 1 < line_count b then map_option (min (content_size b)) (iget (line_starts b) (idx + 1))
      else Some (content_size b))"

definition line :: "buffer \<Rightarrow> int \<Rightarrow> string option" where
  "line b idx =
     (if idx < 0 \<or> idx \<ge> line_count b then Some []
      else do {
        start \<leftarrow> iget (line_starts b) idx;
        stop \<leftarrow> line_stop b idx;
        line_chars b stop start })"

definition line_length :: "buffer \<Rightarrow> int \<Rightarrow> int option" where
  "line_length b idx =
     (if idx < 0 \<or> idx \<ge> line_count b then Some 0
      else do {
        start \<leftarrow> iget (line_starts b) idx;
        stop \<leftarrow> line_stop b idx;
        cs \<leftarrow> line_chars b stop start;
        i32 (int (length cs)) })"

definition pos_to_offset :: "buffer \<Rightarrow> position \<Rightarrow> nat option" where
  "pos_to_offset b pos =
     (if p_line pos < 0 \<or> p_line pos \<ge> line_count b then Some (content_size b)
      else do {
        line_start \<leftarrow> iget (line_starts b) (p_line pos);
        line_len \<leftarrow> line_length b (p_line pos);
        Some (line_start + nat (max 0 (min (p_col pos) line_len))) })"

definition offset_to_pos :: "buffer \<Rightarrow> nat \<Rightarrow> position option" where
  "offset_to_pos b off =
     (if line_starts b = [] then Some \<lparr>p_line = 0, p_col = 0\<rparr>
      else do {
        let upper = length (takeWhile (\<lambda>s. s \<le> off) (line_starts b));
        let it = (if upper \<noteq> 0 then upper - 1 else upper);
        start \<leftarrow> iget (line_starts b) (int it);
        Some \<lparr>p_line = to_int it, p_col = to_int (size_t (off + 2 ^ 64 - start))\<rparr> })"

subsection \<open>Construction and text\<close>

definition new_buffer :: "buffer option" where
  "new_buffer = rebuild_line_index \<lparr>data = replicate kInitialGapSize (CHR 0x00), gap_start = 0,
     gap_end = kInitialGapSize, line_starts = [], undo_stack = [], redo_stack = [], path = [], modified = False\<rparr>"

function chars_between :: "buffer \<Rightarrow> nat \<Rightarrow> nat \<Rightarrow> string option" where
  "chars_between b i stop =
     (if i < stop then do { c \<leftarrow> char_at b i; cs \<leftarrow> chars_between b (i + 1) stop; Some (c # cs) }
      else Some [])"
  by pat_completeness auto

termination
  by (relation "measure (\<lambda>(_, i, stop). stop - i)") auto

declare chars_between.simps [simp del]

definition buffer_text :: "buffer \<Rightarrow> string option" where
  "buffer_text b = chars_between b 0 (content_size b)"

subsection \<open>Editing\<close>

definition push_undo :: "edit \<Rightarrow> buffer \<Rightarrow> buffer" where
  "push_undo e b = b\<lparr>undo_stack := e # undo_stack b, redo_stack := []\<rparr>"

definition buffer_insert :: "position \<Rightarrow> string \<Rightarrow> buffer \<Rightarrow> buffer option" where
  "buffer_insert pos t b =
     (if t = [] then Some b
      else do {
        off \<leftarrow> pos_to_offset b pos;
        b \<leftarrow> ensure_gap (length t) b;
        b \<leftarrow> move_gap off b;
        d \<leftarrow> memcpy_into (gap_start b) t (data b);
        b \<leftarrow> rebuild_line_index (b\<lparr>data := d, gap_start := gap_start b + length t\<rparr>);
        Some (push_undo \<lparr>e_kind = Erase, e_pos = pos, e_text = t\<rparr> b\<lparr>modified := True\<rparr>) })"

definition pos_less :: "position \<Rightarrow> position \<Rightarrow> bool" where
  "pos_less p q \<longleftrightarrow> p_line p < p_line q \<or> p_line p = p_line q \<and> p_col p < p_col q"

definition buffer_erase :: "position \<Rightarrow> position \<Rightarrow> buffer \<Rightarrow> buffer option" where
  "buffer_erase start end_pos b =
     (if start = end_pos then Some b
      else do {
        let (start, end_pos) = (if pos_less end_pos start then (end_pos, start) else (start, end_pos));
        s_off \<leftarrow> pos_to_offset b start;
        e_off \<leftarrow> pos_to_offset b end_pos;
        if s_off \<ge> e_off then Some b
        else do {
          erased \<leftarrow> chars_between b s_off e_off;
          b \<leftarrow> move_gap s_off b;
          let b = b\<lparr>gap_end := size_t (gap_start b + (e_off - s_off) + gap_size b)\<rparr>;
          let b = b\<lparr>gap_end := size_t (gap_start b + gap_size b + (e_off - s_off))\<rparr>;
          b \<leftarrow> move_gap s_off b;
          let b = b\<lparr>gap_end := size_t (gap_end b + (e_off - s_off))\<rparr>;
          b \<leftarrow> rebuild_line_index b;
          Some (push_undo \<lparr>e_kind = Insert, e_pos = start, e_text = erased\<rparr> b\<lparr>modified := True\<rparr>) } })"

definition push_inverse :: "bool \<Rightarrow> edit \<Rightarrow> buffer \<Rightarrow> buffer" where
  "push_inverse for_redo e b =
     (if for_redo then b\<lparr>undo_stack := e # undo_stack b\<rparr> else b\<lparr>redo_stack := e # redo_stack b\<rparr>)"

definition apply_edit :: "edit \<Rightarrow> bool \<Rightarrow> buffer \<Rightarrow> buffer option" where
  "apply_edit e for_redo b =
     (case e_kind e of
        Insert \<Rightarrow> do {
          off \<leftarrow> pos_to_offset b (e_pos e);
          b \<leftarrow> ensure_gap (length (e_text e)) b;
          b \<leftarrow> move_gap off b;
          d \<leftarrow> memcpy_into (gap_start b) (e_text e) (data b);
          b \<leftarrow> rebuild_line_index (b\<lparr>data := d, gap_start := gap_start b + length (e_text e)\<rparr>);
          Some (push_inverse for_redo \<lparr>e_kind = Erase, e_pos = e_pos e, e_text = e_text e\<rparr> (b\<lparr>modified := True\<rparr>)) }
      | Erase \<Rightarrow> do {
          s_off \<leftarrow> pos_to_offset b (e_pos e);
          b \<leftarrow> move_gap s_off b;
          b \<leftarrow> rebuild_line_index (b\<lparr>gap_end := size_t (gap_end b + length (e_text e))\<rparr>);
          Some (push_inverse for_redo \<lparr>e_kind = Insert, e_pos = e_pos e, e_text = e_text e\<rparr> (b\<lparr>modified := True\<rparr>)) })"

definition buffer_undo :: "buffer \<Rightarrow> buffer option" where
  "buffer_undo b =
     (case undo_stack b of [] \<Rightarrow> Some b | e # es \<Rightarrow> apply_edit e False (b\<lparr>undo_stack := es\<rparr>))"

definition buffer_redo :: "buffer \<Rightarrow> buffer option" where
  "buffer_redo b =
     (case redo_stack b of [] \<Rightarrow> Some b | e # es \<Rightarrow> apply_edit e True (b\<lparr>redo_stack := es\<rparr>))"

subsection \<open>Files\<close>

datatype sl_error_code =
    Ok | NotFound | AlreadyExists | PermissionDenied | ParseError | IpcFailed | NotInitialized | HardwareFault
  | Timeout | InvalidArgument | Internal | IOError

text \<open>The contents of a file that can be opened, and whether reading it fails half way.\<close>

definition from_file :: "string \<Rightarrow> (string \<times> bool) option \<Rightarrow> ((sl_error_code \<times> string) + buffer) option" where
  "from_file p file =
     (case file of
        None \<Rightarrow> Some (Inl (NotFound, ''Cannot open file: '' @ p))
      | Some (content, failed) \<Rightarrow>
          if failed then Some (Inl (IOError, ''Read error: '' @ p))
          else do {
            b \<leftarrow> new_buffer;
            let b = b\<lparr>path := p, modified := False\<rparr>;
            if content \<noteq> [] then do {
              b \<leftarrow> buffer_insert \<lparr>p_line = 0, p_col = 0\<rparr> content b;
              Some (Inr (b\<lparr>undo_stack := [], redo_stack := [], modified := False\<rparr>)) }
            else Some (Inr b) })"

text \<open>
  Whether the temporary file can be opened and written, and the error of \<open>rename\<close>; the result has the
  contents of the saved file when it has been replaced.
\<close>

definition save_as :: "string \<Rightarrow> bool \<Rightarrow> bool \<Rightarrow> string option \<Rightarrow> buffer
    \<Rightarrow> (buffer \<times> ((sl_error_code \<times> string) + string)) option" where
  "save_as p can_open can_write rename_error b =
     (let tmp = p @ ''.sltemp'' in
      if \<not> can_open then Some (b, Inl (IOError, ''Cannot create temp file: '' @ tmp))
      else do {
        t \<leftarrow> buffer_text b;
        if \<not> can_write then Some (b, Inl (IOError, ''Write failed: '' @ tmp))
        else case rename_error of
          Some e \<Rightarrow> Some (b, Inl (IOError, ''Rename failed: '' @ e))
        | None \<Rightarrow> Some (b\<lparr>modified := False, path := p\<rparr>, Inr t) })"

definition save_buffer :: "bool \<Rightarrow> bool \<Rightarrow> string option \<Rightarrow> buffer
    \<Rightarrow> (buffer \<times> ((sl_error_code \<times> string) + string)) option" where
  "save_buffer can_open can_write rename_error b =
     (if path b = [] then Some (b, Inl (InvalidArgument, ''No file path set''))
      else save_as (path b) can_open can_write rename_error b)"

subsection \<open>The text of a gap buffer\<close>

definition gap_text :: "buffer \<Rightarrow> string" where
  "gap_text b = take (gap_start b) (data b) @ drop (gap_end b) (data b)"

definition gap_wf :: "buffer \<Rightarrow> bool" where
  "gap_wf b \<longleftrightarrow> gap_start b \<le> gap_end b \<and> gap_end b \<le> length (data b) \<and> length (data b) < 2 ^ 34"

lemma gap_text_update [simp]:
  "gap_text (b\<lparr>line_starts := l\<rparr>) = gap_text b"
  "gap_text (b\<lparr>undo_stack := u\<rparr>) = gap_text b"
  "gap_text (b\<lparr>redo_stack := u\<rparr>) = gap_text b"
  "gap_text (b\<lparr>modified := m\<rparr>) = gap_text b"
  "gap_text (b\<lparr>path := p\<rparr>) = gap_text b"
  by (simp_all add: gap_text_def)

lemma gap_wf_update [simp]:
  "gap_wf (b\<lparr>line_starts := l\<rparr>) = gap_wf b"
  "gap_wf (b\<lparr>undo_stack := u\<rparr>) = gap_wf b"
  "gap_wf (b\<lparr>redo_stack := u\<rparr>) = gap_wf b"
  "gap_wf (b\<lparr>modified := m\<rparr>) = gap_wf b"
  "gap_wf (b\<lparr>path := p\<rparr>) = gap_wf b"
  by (simp_all add: gap_wf_def)

lemma gap_size_wf [simp]: "gap_wf b \<Longrightarrow> gap_size b = gap_end b - gap_start b"
  unfolding gap_size_def gap_wf_def by (rule size_t_diff) auto

lemma length_gap_text: "gap_wf b \<Longrightarrow> length (gap_text b) = length (data b) - gap_size b"
  by (auto simp: gap_text_def gap_wf_def gap_size_wf [unfolded gap_wf_def])

lemma content_size_wf [simp]: "gap_wf b \<Longrightarrow> content_size b = length (gap_text b)"
  unfolding content_size_def length_gap_text
  by (rule trans [OF size_t_diff]) (auto simp: gap_wf_def length_gap_text gap_size_wf [unfolded gap_wf_def])

lemma char_at_wf: "gap_wf b \<Longrightarrow> i < length (gap_text b) \<Longrightarrow> char_at b i = Some (gap_text b ! i)"
  by (auto simp: char_at_def gap_wf_def gap_text_def gap_size_wf [unfolded gap_wf_def] Let_def nth_append min_def add.commute)

lemma chars_between_wf:
  "gap_wf b \<Longrightarrow> stop \<le> length (gap_text b) \<Longrightarrow>
   chars_between b i stop = Some (take (stop - i) (drop i (gap_text b)))"
proof (induction b i stop rule: chars_between.induct)
  case (1 b i stop)
  show ?case
  proof (cases "i < stop")
    case True
    then have "take (stop - i) (drop i (gap_text b)) = gap_text b ! i # take (stop - Suc i) (drop (Suc i) (gap_text b))"
      using 1 by (subst Cons_nth_drop_Suc [symmetric]) (auto simp: take_Cons' Suc_diff_Suc)
    with True 1 show ?thesis
      by (subst chars_between.simps) (simp add: char_at_wf)
  qed (subst chars_between.simps, simp)
qed

lemma buffer_text_wf: "gap_wf b \<Longrightarrow> buffer_text b = Some (gap_text b)"
  by (simp add: buffer_text_def chars_between_wf)

lemma gap_text_moved [simp]: "gap_text (b\<lparr>data := d, gap_start := s, gap_end := e\<rparr>) = take s d @ drop e d"
  by (simp add: gap_text_def)

lemma gap_text_grown [simp]: "gap_text (b\<lparr>data := d, gap_end := e\<rparr>) = take (gap_start b) d @ drop e d"
  by (simp add: gap_text_def)

lemma move_gap_wf:
  assumes "gap_wf b" and "off \<le> length (gap_text b)"
  shows "\<exists>d. move_gap off b = Some (b\<lparr>data := d, gap_start := off, gap_end := off + gap_size b\<rparr>) \<and>
    length d = length (data b) \<and>
    gap_text (b\<lparr>data := d, gap_start := off, gap_end := off + gap_size b\<rparr>) = gap_text b"
proof -
  note len = length_gap_text [OF assms(1)] gap_size_wf [OF assms(1)]
  have wf: "gap_start b \<le> gap_end b" "gap_end b \<le> length (data b)" "length (data b) < 2 ^ 34"
    using assms(1) by (auto simp: gap_wf_def)
  consider "off = gap_start b" | "off < gap_start b" | "off > gap_start b"
    by linarith
  then show ?thesis
  proof cases
    case 1
    then show ?thesis
      using wf by (intro exI [of _ "data b"]) (simp add: move_gap_def len gap_text_def)
  next
    case 2
    let ?d = "take (off + gap_size b) (data b) @ take (gap_start b - off) (drop off (data b)) @ drop (gap_end b) (data b)"
    have mv: "memmove (off + gap_size b) off (gap_start b - off) (data b) = Some ?d"
      using 2 wf by (simp add: memmove_def len)
    have sz: "size_t (off + gap_size b) = off + gap_size b"
      using 2 wf by (intro size_t_small) (simp add: len)
    have "move_gap off b = Some (b\<lparr>data := ?d, gap_start := off, gap_end := off + gap_size b\<rparr>)"
      unfolding move_gap_def Let_def sz using 2 mv by simp
    moreover have "take off ?d @ drop (off + gap_size b) ?d = gap_text b"
    proof -
      have "take off ?d = take off (data b)"
        using 2 wf by (simp add: len)
      moreover have "drop (off + gap_size b) ?d = take (gap_start b - off) (drop off (data b)) @ drop (gap_end b) (data b)"
        using 2 wf by (simp add: len)
      moreover have "take off (data b) @ take (gap_start b - off) (drop off (data b)) = take (gap_start b) (data b)"
        using 2 by (metis le_add_diff_inverse less_imp_le take_add)
      ultimately show ?thesis
        unfolding gap_text_def by (metis append_assoc)
    qed
    moreover have "length ?d = length (data b)"
      using 2 wf by (simp add: len)
    ultimately show ?thesis
      by (intro exI [of _ ?d] conjI) (simp_all only: gap_text_moved)
  next
    case 3
    let ?n = "off - gap_start b"
    let ?d = "take (gap_start b) (data b) @ take ?n (drop (gap_end b) (data b)) @ drop (gap_start b + ?n) (data b)"
    have le: "off + gap_size b \<le> length (data b)"
      using assms(2) wf unfolding len by linarith
    have sz: "size_t (off + gap_size b) = off + gap_size b"
      using le wf by (intro size_t_small) simp
    have n: "size_t (off + gap_size b + 2 ^ 64 - gap_end b) = ?n"
      using 3 le wf by (subst size_t_diff) (auto simp: len)
    have mv: "memmove (gap_start b) (gap_end b) ?n (data b) = Some ?d"
    proof -
      have "gap_start b + ?n \<le> length (data b)" "gap_end b + ?n \<le> length (data b)"
        using 3 wf le unfolding len by linarith+
      then show ?thesis
        by (simp only: memmove_def simp_thms if_True)
    qed
    have eq: "move_gap off b = Some (b\<lparr>data := ?d, gap_start := off, gap_end := off + gap_size b\<rparr>)"
      unfolding move_gap_def Let_def sz n using 3 mv by simp
    have "take off ?d = take (gap_start b) (data b) @ take ?n (drop (gap_end b) (data b))"
      using 3 wf le by (simp add: len)
    moreover have "drop (off + gap_size b) ?d = drop ?n (drop (gap_end b) (data b))"
      using 3 wf le by (simp add: len add.commute)
    ultimately have "take off ?d @ drop (off + gap_size b) ?d = gap_text b"
      unfolding gap_text_def by (metis append_assoc append_take_drop_id)
    moreover have "length ?d = length (data b)"
      using 3 wf le by (simp add: len)
    ultimately show ?thesis
      using eq by (intro exI [of _ ?d] conjI) (simp_all only: gap_text_moved)
  qed
qed


lemma ensure_gap_wf:
  assumes "gap_wf b" and "length (gap_text b) < 2 ^ 31" and "needed < 2 ^ 31"
  shows "\<exists>d e. ensure_gap needed b = Some (b\<lparr>data := d, gap_end := e\<rparr>) \<and> gap_wf (b\<lparr>data := d, gap_end := e\<rparr>) \<and>
    gap_text (b\<lparr>data := d, gap_end := e\<rparr>) = gap_text b \<and> needed \<le> e - gap_start b"
proof (cases "needed \<le> gap_size b")
  case True
  with assms(1) show ?thesis
    by (intro exI [of _ "data b"] exI [of _ "gap_end b"]) (simp add: ensure_gap_def gap_text_def)
next
  case False
  define g where "g = max (needed * kGrowFactor) kInitialGapSize"
  let ?d = "take (gap_start b) (data b) @ replicate g (CHR 0x00) @ drop (gap_end b) (data b)"
  have gs: "needed \<le> g" "g < 2 ^ 32" "max (size_t (needed * kGrowFactor)) kInitialGapSize = g"
    using assms(3) by (auto simp: g_def kGrowFactor_def kInitialGapSize_def)
  have wf: "gap_start b \<le> gap_end b" "gap_end b \<le> length (data b)"
    using assms(1) by (auto simp: gap_wf_def)
  have len: "length ?d = length (gap_text b) + g"
    using wf by (simp add: gap_text_def)
  have "ensure_gap needed b = Some (b\<lparr>data := ?d, gap_end := gap_start b + g\<rparr>)"
    unfolding ensure_gap_def gs(3) Let_def using False wf by simp
  moreover have "gap_wf (b\<lparr>data := ?d, gap_end := gap_start b + g\<rparr>)"
  proof -
    have "length ?d < 2 ^ 34" "gap_start b \<le> gap_start b + g" "gap_start b + g \<le> length ?d"
      using gs(2) assms(2) wf by (simp_all add: gap_text_def)
    then show ?thesis
      by (simp add: gap_wf_def)
  qed
  moreover have "take (gap_start b) ?d @ drop (gap_start b + g) ?d = gap_text b"
    using wf by (simp add: gap_text_def)
  ultimately show ?thesis
    using gs(1) by (intro exI [of _ ?d] exI [of _ "gap_start b + g"] conjI) (simp_all only: gap_text_grown add_diff_cancel_left')
qed

text \<open>The gap is moved to an offset and filled with a text.\<close>

lemma memcpy_into_gap:
  assumes "gap_wf b" and "length t \<le> gap_end b - gap_start b"
  shows "\<exists>d. memcpy_into (gap_start b) t (data b) = Some d \<and>
    gap_wf (b\<lparr>data := d, gap_start := gap_start b + length t\<rparr>) \<and>
    gap_text (b\<lparr>data := d, gap_start := gap_start b + length t\<rparr>) =
      take (gap_start b) (gap_text b) @ t @ drop (gap_start b) (gap_text b)"
  using assms by (auto simp: memcpy_into_def gap_wf_def gap_text_def min_def)

lemma fill_gap:
  assumes "gap_wf b" and "length (gap_text b) < 2 ^ 31" and "length t < 2 ^ 31" and "off \<le> length (gap_text b)"
  shows "\<exists>b1 b2 d. ensure_gap (length t) b = Some b1 \<and> move_gap off b1 = Some b2 \<and>
    memcpy_into (gap_start b2) t (data b2) = Some d \<and>
    b2\<lparr>data := d, gap_start := gap_start b2 + length t\<rparr> =
      b\<lparr>data := d, gap_start := gap_start b2 + length t, gap_end := gap_end b2\<rparr> \<and>
    gap_wf (b2\<lparr>data := d, gap_start := gap_start b2 + length t\<rparr>) \<and>
    gap_text (b2\<lparr>data := d, gap_start := gap_start b2 + length t\<rparr>) = take off (gap_text b) @ t @ drop off (gap_text b)"
proof -
  obtain d e where 1: "ensure_gap (length t) b = Some (b\<lparr>data := d, gap_end := e\<rparr>)"
      "gap_wf (b\<lparr>data := d, gap_end := e\<rparr>)" "gap_text (b\<lparr>data := d, gap_end := e\<rparr>) = gap_text b"
      "length t \<le> e - gap_start b"
    using ensure_gap_wf [OF assms(1-3)] by blast
  define b1 where b1: "b1 = b\<lparr>data := d, gap_end := e\<rparr>"
  have wf1: "gap_wf b1" "gap_text b1 = gap_text b" "length t \<le> gap_size b1"
    using 1 unfolding b1 by simp_all
  obtain d2 where 2: "move_gap off b1 = Some (b1\<lparr>data := d2, gap_start := off, gap_end := off + gap_size b1\<rparr>)"
      "length d2 = length (data b1)"
      "gap_text (b1\<lparr>data := d2, gap_start := off, gap_end := off + gap_size b1\<rparr>) = gap_text b1"
    using move_gap_wf [OF wf1(1), of off] assms(4) wf1(2) by auto
  define b2 where b2: "b2 = b1\<lparr>data := d2, gap_start := off, gap_end := off + gap_size b1\<rparr>"
  have "off + gap_size b1 \<le> length (data b1)" "length (data b1) < 2 ^ 34"
    using length_gap_text [OF wf1(1)] assms(4) wf1 by (auto simp: gap_wf_def)
  then have wf2: "gap_wf b2"
    using 2(2) by (simp add: b2 gap_wf_def)
  obtain d3 where 3: "memcpy_into (gap_start b2) t (data b2) = Some d3"
      "gap_wf (b2\<lparr>data := d3, gap_start := gap_start b2 + length t\<rparr>)"
      "gap_text (b2\<lparr>data := d3, gap_start := gap_start b2 + length t\<rparr>) =
        take (gap_start b2) (gap_text b2) @ t @ drop (gap_start b2) (gap_text b2)"
    using memcpy_into_gap [OF wf2, of t] wf1(3) by (auto simp: b2)
  have "gap_start b2 = off"
    by (simp add: b2)
  moreover have "gap_text b2 = gap_text b"
    using 2(3) wf1(2) by (simp only: b2)
  ultimately show ?thesis
    using 1(1) 2(1) 3 by (intro exI [of _ b1] exI [of _ b2] exI [of _ d3]) (simp add: b1 b2)
qed

subsection \<open>Lines and positions\<close>

text \<open>The offsets just after the newlines of a text that starts at an offset.\<close>

fun ends_from :: "nat \<Rightarrow> string \<Rightarrow> nat list" where
  "ends_from k [] = []"
| "ends_from k (c # cs) = (if c = CHR 0x0A then (k + 1) # ends_from (k + 1) cs else ends_from (k + 1) cs)"

definition line_index :: "string \<Rightarrow> nat list" where
  "line_index t = 0 # ends_from 0 t"

text \<open>The lines of a text, without their newlines.\<close>

fun split_lines :: "string \<Rightarrow> string list" where
  "split_lines [] = [[]]"
| "split_lines (c # cs) =
     (if c = CHR 0x0A then [] # split_lines cs else (c # hd (split_lines cs)) # tl (split_lines cs))"

text \<open>The position of an offset of a text: the line and the column the text before it ends at.\<close>

definition pos_at :: "string \<Rightarrow> nat \<Rightarrow> position" where
  "pos_at t off = \<lparr>p_line = int (count_list (take off t) (CHR 0x0A)),
     p_col = int (length (last (split_lines (take off t))))\<rparr>"

lemma split_lines_nonempty [simp]: "split_lines t \<noteq> []"
  by (induction t) auto

lemma length_split_lines: "length (split_lines t) = count_list t (CHR 0x0A) + 1"
  by (induction t) auto

lemma length_ends_from: "length (ends_from k t) = count_list t (CHR 0x0A)"
  by (induction t arbitrary: k) auto

lemma ends_from_append: "ends_from k (u @ v) = ends_from k u @ ends_from (k + length u) v"
  by (induction u arbitrary: k) auto

lemma ends_from_bounds: "x \<in> set (ends_from k t) \<Longrightarrow> k < x \<and> x \<le> k + length t"
  by (induction t arbitrary: k) (fastforce split: if_splits)+

lemma nth_ends_from_less: "i < length (ends_from k t) \<Longrightarrow> k < ends_from k t ! i"
  using ends_from_bounds [of "ends_from k t ! i" k t] by simp

lemma split_lines_append:
  "split_lines (u @ v) = butlast (split_lines u) @ [last (split_lines u) @ hd (split_lines v)] @ tl (split_lines v)"
proof (induction u)
  case Nil
  then show ?case
    by (cases "split_lines v") auto
next
  case (Cons c u)
  then show ?case
    by (cases "split_lines u"; cases "tl (split_lines u)") auto
qed

lemma last_line_start: "last (k # ends_from k u) + length (last (split_lines u)) = k + length u"
proof (induction u arbitrary: k)
  case (Cons c u)
  show ?case
  proof (cases "c = CHR 0x0A")
    case False
    have "ends_from (k + 1) u = [] \<longleftrightarrow> tl (split_lines u) = []"
      using length_ends_from [of "k + 1" u] length_split_lines [of u] by (cases "split_lines u") auto
    with False Cons [of "k + 1"] show ?thesis
      by (cases "split_lines u") (auto split: if_splits)
  qed (use Cons [of "k + 1"] in simp)
qed simp

lemma takeWhile_take: "takeWhile P (take n xs) = take n (takeWhile P xs)"
  by (induction xs arbitrary: n) (auto simp: take_Cons split: nat.splits)


lemma line_from_start:
  "k < length (split_lines t) \<Longrightarrow>
   takeWhile (\<lambda>c. c \<noteq> CHR 0x0A) (drop ((m # ends_from m t) ! k - m) t) = split_lines t ! k"
proof (induction t arbitrary: m k)
  case (Cons c t)
  show ?case
  proof (cases k)
    case 0
    with Cons.IH [of 0 m] show ?thesis
      by (cases "split_lines t") auto
  next
    case (Suc j)
    have shift: "drop (x - m) (a # t) = drop (x - (m + 1)) t" if "m < x" for x a
      using that by (simp add: drop_Cons' Suc_diff_Suc [symmetric])
    show ?thesis
    proof (cases "c = CHR 0x0A")
      case True
      have "m < ((m + 1) # ends_from (m + 1) t) ! j"
        using Cons.prems Suc True nth_ends_from_less [of "j - 1" "m + 1" t]
        by (cases j) (auto simp: length_ends_from length_split_lines)
      with True Suc Cons.IH [of j "m + 1"] Cons.prems show ?thesis
        by (simp add: shift)
    next
      case False
      then have j: "Suc j < length (split_lines t)"
        using Cons.prems Suc by simp
      then have "m < ends_from (m + 1) t ! j"
        using nth_ends_from_less [of j "m + 1" t] by (simp add: length_ends_from length_split_lines)
      with False Suc Cons.IH [OF j, of "m + 1"] j show ?thesis
        by (cases "split_lines t") (simp_all add: shift)
    qed
  qed
qed simp

lemma next_start:
  "Suc k < length (split_lines t) \<Longrightarrow>
   (m # ends_from m t) ! Suc k = (m # ends_from m t) ! k + length (split_lines t ! k) + 1"
proof (induction t arbitrary: m k)
  case (Cons c t)
  show ?case
  proof (cases "c = CHR 0x0A")
    case True
    with Cons.IH [of "k - 1" "m + 1"] Cons.prems show ?thesis
      by (cases k) auto
  next
    case False
    then have "Suc k < length (split_lines t)"
      using Cons.prems by simp
    with False Cons.IH [of k "m + 1"] show ?thesis
      by (cases "split_lines t"; cases k) auto
  qed
qed simp

text \<open>A buffer whose line index is that of its text, in which every line has an \<open>int\<close> for its number.\<close>

definition buf_wf :: "buffer \<Rightarrow> bool" where
  "buf_wf b \<longleftrightarrow> gap_wf b \<and> line_starts b = line_index (gap_text b) \<and> length (gap_text b) < 2 ^ 31 - 1"

text \<open>The offset a position stands for: positions beyond the last line are the end, columns are clamped.\<close>

definition text_offset :: "string \<Rightarrow> position \<Rightarrow> nat" where
  "text_offset t p =
     (if p_line p < 0 \<or> p_line p \<ge> int (length (split_lines t)) then length t
      else line_index t ! nat (p_line p) +
        nat (max 0 (min (p_col p) (int (length (split_lines t ! nat (p_line p)))))))"

lemma buf_wf_update [simp]:
  "buf_wf (b\<lparr>undo_stack := u\<rparr>) = buf_wf b"
  "buf_wf (b\<lparr>redo_stack := u\<rparr>) = buf_wf b"
  "buf_wf (b\<lparr>modified := m\<rparr>) = buf_wf b"
  "buf_wf (b\<lparr>path := p\<rparr>) = buf_wf b"
  by (simp_all add: buf_wf_def)

lemma starts_from_wf:
  "gap_wf b \<Longrightarrow> starts_from b (length (gap_text b)) i = Some (ends_from i (drop i (gap_text b)))"
proof (induction b "length (gap_text b)" i rule: starts_from.induct)
  case (1 b i)
  show ?case
  proof (cases "i < length (gap_text b)")
    case True
    with 1 have "starts_from b (length (gap_text b)) (Suc i) = Some (ends_from (Suc i) (drop (Suc i) (gap_text b)))"
      by (simp add: char_at_wf)
    with True 1 show ?thesis
      by (subst starts_from.simps) (simp add: char_at_wf Cons_nth_drop_Suc [symmetric])
  qed (subst starts_from.simps, simp)
qed

lemma rebuild_line_index_wf:
  "gap_wf b \<Longrightarrow> rebuild_line_index b = Some (b\<lparr>line_starts := line_index (gap_text b)\<rparr>)"
  by (simp add: rebuild_line_index_def starts_from_wf line_index_def)

lemma length_line_index: "length (line_index t) = length (split_lines t)"
  by (simp add: line_index_def length_ends_from length_split_lines)

lemma line_index_le: "k < length (split_lines t) \<Longrightarrow> line_index t ! k \<le> length t"
  using ends_from_bounds [of "ends_from 0 t ! (k - 1)" 0 t]
  by (cases k) (auto simp: line_index_def length_ends_from length_split_lines)

lemma length_split_lines_le: "length (split_lines t) \<le> length t + 1"
  by (simp add: length_split_lines count_le_length)

lemma line_from_index:
  "k < length (split_lines t) \<Longrightarrow> takeWhile (\<lambda>c. c \<noteq> CHR 0x0A) (drop (line_index t ! k) t) = split_lines t ! k"
  using line_from_start [of k t 0] by (simp add: line_index_def)

lemma line_count_wf: "buf_wf b \<Longrightarrow> line_count b = int (length (split_lines (gap_text b)))"
  using length_split_lines_le [of "gap_text b"]
  by (simp add: line_count_def buf_wf_def to_int_small length_line_index)

lemma line_chars_wf:
  "gap_wf b \<Longrightarrow> stop \<le> length (gap_text b) \<Longrightarrow>
   line_chars b stop i = Some (takeWhile (\<lambda>c. c \<noteq> CHR 0x0A) (take (stop - i) (drop i (gap_text b))))"
proof (induction b stop i rule: line_chars.induct)
  case (1 b stop i)
  show ?case
  proof (cases "i < stop")
    case True
    then have "take (stop - i) (drop i (gap_text b)) = gap_text b ! i # take (stop - Suc i) (drop (Suc i) (gap_text b))"
      using 1 by (subst Cons_nth_drop_Suc [symmetric]) (auto simp: take_Cons' Suc_diff_Suc)
    with True 1 show ?thesis
      by (subst line_chars.simps) (simp add: char_at_wf)
  qed (subst line_chars.simps, simp)
qed

lemma line_span:
  assumes "buf_wf b" and "0 \<le> k" and "k < int (length (split_lines (gap_text b)))"
  shows "\<exists>stop. iget (line_starts b) k = Some (line_index (gap_text b) ! nat k) \<and> line_stop b k = Some stop \<and>
    line_chars b stop (line_index (gap_text b) ! nat k) = Some (split_lines (gap_text b) ! nat k)"
proof -
  let ?t = "gap_text b" and ?k = "nat k"
  have wf: "gap_wf b" "line_starts b = line_index ?t"
    using assms(1) by (auto simp: buf_wf_def)
  have start: "iget (line_starts b) k = Some (line_index ?t ! ?k)"
    using assms by (simp add: wf length_line_index)
  show ?thesis
  proof (cases "k + 1 < line_count b")
    case True
    then have k: "Suc ?k < length (split_lines ?t)"
      using line_count_wf [OF assms(1)] assms(2) by linarith
    have nxt: "line_index ?t ! Suc ?k = line_index ?t ! ?k + length (split_lines ?t ! ?k) + 1"
      using next_start [OF k, of 0] by (simp add: line_index_def)
    have "line_stop b k = Some (line_index ?t ! Suc ?k)"
      using True k line_index_le [OF k] assms(2)
      by (simp add: line_stop_def wf length_line_index min_def nat_add_distrib)
    then show ?thesis
      using start line_index_le [OF k] line_from_index [of ?k ?t] k
      by (auto simp: line_chars_wf wf takeWhile_take nxt)
  next
    case False
    then have "line_stop b k = Some (length ?t)"
      using wf by (simp add: line_stop_def)
    then show ?thesis
      using start line_from_index [of ?k ?t] assms by (auto simp: line_chars_wf wf)
  qed
qed

lemma pos_to_offset_wf:
  assumes "buf_wf b"
  shows "pos_to_offset b pos = Some (text_offset (gap_text b) pos)"
proof (cases "0 \<le> p_line pos \<and> p_line pos < int (length (split_lines (gap_text b)))")
  case True
  have "int (length (split_lines (gap_text b) ! nat (p_line pos))) \<le> 2147483647"
    using line_from_index [of "nat (p_line pos)" "gap_text b"] True assms
      length_takeWhile_le [of "\<lambda>c. c \<noteq> CHR 0x0A" "drop (line_index (gap_text b) ! nat (p_line pos)) (gap_text b)"]
    by (auto simp: buf_wf_def)
  with True line_span [OF assms, of "p_line pos"] line_count_wf [OF assms] show ?thesis
    by (auto simp: pos_to_offset_def line_length_def text_offset_def i32_def)
qed (use assms in \<open>auto simp: pos_to_offset_def text_offset_def line_count_wf buf_wf_def\<close>)

lemma text_offset_le: "text_offset t pos \<le> length t"
proof (cases "0 \<le> p_line pos \<and> p_line pos < int (length (split_lines t))")
  case True
  then have k: "nat (p_line pos) < length (split_lines t)"
    by auto
  have "length (split_lines t ! nat (p_line pos)) \<le> length t - line_index t ! nat (p_line pos)"
    unfolding line_from_index [OF k, symmetric] using length_takeWhile_le [of _ "drop _ t"] by simp
  with True line_index_le [OF k] show ?thesis
    by (simp add: text_offset_def)
qed (auto simp: text_offset_def)

text \<open>The position of an offset stands for it.\<close>

lemma split_take_drop:
  "split_lines t = butlast (split_lines (take off t)) @
     [last (split_lines (take off t)) @ hd (split_lines (drop off t))] @ tl (split_lines (drop off t))"
  using split_lines_append [of "take off t" "drop off t"] by simp

lemma line_index_before:
  assumes "off \<le> length t"
  shows "line_index t = line_index (take off t) @ ends_from off (drop off t)"
  using ends_from_append [of 0 "take off t" "drop off t"] assms by (simp add: line_index_def)

lemma line_index_pos_at:
  assumes "off \<le> length t"
  shows "line_index t ! nat (p_line (pos_at t off)) + nat (p_col (pos_at t off)) = off"
proof -
  let ?u = "take off t"
  have "line_index ?u ! count_list ?u (CHR 0x0A) = last (line_index ?u)"
    by (simp add: last_conv_nth length_line_index length_split_lines flip: length_0_conv) 
  then have "line_index t ! count_list ?u (CHR 0x0A) = last (line_index ?u)"
    using line_index_before [OF assms] by (simp add: nth_append length_line_index length_split_lines)
  with last_line_start [of 0 ?u] assms show ?thesis
    by (simp add: pos_at_def line_index_def)
qed

lemma text_offset_pos_at:
  assumes "off \<le> length t"
  shows "text_offset t (pos_at t off) = off"
proof -
  let ?u = "take off t" and ?k = "count_list (take off t) (CHR 0x0A)"
  have k: "length (butlast (split_lines ?u)) = ?k" "?k < length (split_lines t)"
    by (simp_all add: length_split_lines) (metis append_take_drop_id count_list_append less_Suc_eq_le le_add1)
  have "split_lines t ! ?k = last (split_lines ?u) @ hd (split_lines (drop off t))"
    by (subst split_take_drop [of t off]) (simp add: nth_append length_split_lines)
  then show ?thesis
    using line_index_pos_at [OF assms] k(2) by (simp add: text_offset_def pos_at_def)
qed

lemma takeWhile_split: "\<forall>x\<in>set xs. P x \<Longrightarrow> \<forall>y\<in>set ys. \<not> P y \<Longrightarrow> takeWhile P (xs @ ys) = xs"
  by (cases ys) (auto simp: takeWhile_append2)

lemma offset_to_pos_wf:
  assumes "buf_wf b" and "off \<le> length (gap_text b)"
  shows "offset_to_pos b off = Some (pos_at (gap_text b) off)"
proof -
  let ?t = "gap_text b" and ?u = "take off (gap_text b)" and ?k = "count_list (take off (gap_text b)) (CHR 0x0A)"
  have wf: "line_starts b = line_index ?t" "length ?t < 2 ^ 31"
    using assms(1) by (auto simp: buf_wf_def)
  have "takeWhile (\<lambda>s. s \<le> off) (line_index ?t) = line_index ?u"
    unfolding line_index_before [OF assms(2)]
    using ends_from_bounds [of _ 0 ?u] ends_from_bounds [of _ off "drop off ?t"] assms(2)
    by (intro takeWhile_split) (fastforce simp: line_index_def)+
  then have up: "length (takeWhile (\<lambda>s. s \<le> off) (line_starts b)) = Suc ?k"
    by (simp add: wf length_line_index length_split_lines)
  have k: "?k < length (line_index ?t)" "?k \<le> length ?t"
    using length_takeWhile_le [of "\<lambda>s. s \<le> off" "line_starts b"] up wf count_le_length [of ?u "CHR 0x0A"] assms(2) by auto
  have start: "line_index ?t ! ?k + nat (p_col (pos_at ?t off)) = off"
    using line_index_pos_at [OF assms(2)] by (simp add: pos_at_def)
  then have "size_t (off + 2 ^ 64 - line_index ?t ! ?k) = nat (p_col (pos_at ?t off))"
    using assms(2) wf(2) by (subst size_t_diff) auto
  moreover have "nat (p_col (pos_at ?t off)) < 2 ^ 31"
    using start assms(2) wf(2) by linarith
  ultimately show ?thesis
    using k wf up by (simp add: offset_to_pos_def to_int_small) (auto simp: line_index_def pos_at_def to_int_small)
qed

text \<open>The offset and the position of a character convert into each other: for every offset up to the end of the
  text \<open>offset_to_pos\<close> finds the line and the column at which the text before it ends, and \<open>pos_to_offset\<close> of that
  position is the offset again.\<close>

theorem cursor_roundtrip:
  assumes "buf_wf b" and "off \<le> length (gap_text b)"
  shows "\<exists>p. offset_to_pos b off = Some p \<and> pos_to_offset b p = Some off \<and>
    p_line p = int (count_list (take off (gap_text b)) (CHR 0x0A))"
  using offset_to_pos_wf [OF assms] pos_to_offset_wf [OF assms(1), of "pos_at (gap_text b) off"]
    text_offset_pos_at [OF assms(2)] by (simp add: pos_at_def)

text \<open>\<open>line\<close> returns the lines of the text: line \<open>k\<close> is what stands between the newlines \<open>k\<close> and \<open>k + 1\<close>, a number
  that is no line gives the empty string, and \<open>line_count\<close> is one more than the number of newlines.\<close>

theorem line_reads_text:
  assumes "buf_wf b"
  shows "line b k = Some (if 0 \<le> k \<and> k < line_count b then split_lines (gap_text b) ! nat k else []) \<and>
    line_count b = int (count_list (gap_text b) (CHR 0x0A)) + 1"
  using line_span [OF assms, of k] by (auto simp: line_def line_count_wf [OF assms] length_split_lines)

subsection \<open>Insertion and erasure\<close>

text \<open>The two changes of a text.\<close>

definition text_insert :: "nat \<Rightarrow> string \<Rightarrow> string \<Rightarrow> string" where
  "text_insert off t s = take off s @ t @ drop off s"

definition text_erase :: "nat \<Rightarrow> nat \<Rightarrow> string \<Rightarrow> string" where
  "text_erase off n s = take off s @ drop (off + n) s"

lemma length_text_insert [simp]: "length (text_insert off t s) = length s + length t"
  by (simp add: text_insert_def)

lemma text_erase_insert [simp]: "off \<le> length s \<Longrightarrow> text_erase off (length t) (text_insert off t s) = s"
  by (simp add: text_erase_def text_insert_def)

lemma take_text_insert: "off \<le> length s \<Longrightarrow> take off (text_insert off t s) = take off s"
  by (simp add: text_insert_def)

lemma pos_at_insert: "off \<le> length s \<Longrightarrow> pos_at (text_insert off t s) off = pos_at s off"
  by (simp add: pos_at_def take_text_insert)

text \<open>What \<open>insert\<close> and the insertion of \<open>apply_edit\<close> share.\<close>

lemma insert_core:
  assumes "buf_wf b" and "length (gap_text b) + length t < 2 ^ 31 - 1"
    and off_def: "off = text_offset (gap_text b) pos"
  shows "\<exists>b1 b2 d b3. pos_to_offset b pos = Some off \<and> ensure_gap (length t) b = Some b1 \<and>
    move_gap off b1 = Some b2 \<and> memcpy_into (gap_start b2) t (data b2) = Some d \<and>
    rebuild_line_index (b2\<lparr>data := d, gap_start := gap_start b2 + length t\<rparr>) = Some b3 \<and>
    buf_wf b3 \<and> gap_text b3 = text_insert off t (gap_text b) \<and> undo_stack b3 = undo_stack b \<and>
    redo_stack b3 = redo_stack b \<and> path b3 = path b"
proof -
  have wf: "gap_wf b" "length (gap_text b) < 2 ^ 31" "length t < 2 ^ 31"
    using assms(1,2) by (auto simp: buf_wf_def)
  obtain b1 b2 d where f: "ensure_gap (length t) b = Some b1" "move_gap off b1 = Some b2"
      "memcpy_into (gap_start b2) t (data b2) = Some d"
      "b2\<lparr>data := d, gap_start := gap_start b2 + length t\<rparr> =
        b\<lparr>data := d, gap_start := gap_start b2 + length t, gap_end := gap_end b2\<rparr>"
      "gap_wf (b2\<lparr>data := d, gap_start := gap_start b2 + length t\<rparr>)"
      "gap_text (b2\<lparr>data := d, gap_start := gap_start b2 + length t\<rparr>) = take off (gap_text b) @ t @ drop off (gap_text b)"
    using fill_gap [OF wf, of off] text_offset_le unfolding off_def by metis
  let ?c = "b2\<lparr>data := d, gap_start := gap_start b2 + length t\<rparr>"
  have "undo_stack ?c = undo_stack b" "redo_stack ?c = redo_stack b" "path ?c = path b"
    unfolding f(4) by simp_all
  with f(1-3,5,6) assms(2) show ?thesis
    by (intro exI [of _ b1] exI [of _ b2] exI [of _ d] exI [of _ "?c\<lparr>line_starts := line_index (gap_text ?c)\<rparr>"])
      (simp add: rebuild_line_index_wf pos_to_offset_wf [OF assms(1)] off_def buf_wf_def text_insert_def)
qed

lemma buffer_insert_wf:
  assumes "buf_wf b" and "t \<noteq> []" and "length (gap_text b) + length t < 2 ^ 31 - 1"
  shows "\<exists>b'. buffer_insert pos t b = Some b' \<and> buf_wf b' \<and>
    gap_text b' = text_insert (text_offset (gap_text b) pos) t (gap_text b) \<and> modified b' \<and> path b' = path b \<and>
    undo_stack b' = \<lparr>e_kind = Erase, e_pos = pos, e_text = t\<rparr> # undo_stack b \<and> redo_stack b' = []"
proof -
  obtain b1 b2 d b3 where "pos_to_offset b pos = Some (text_offset (gap_text b) pos)" "ensure_gap (length t) b = Some b1"
      "move_gap (text_offset (gap_text b) pos) b1 = Some b2" "memcpy_into (gap_start b2) t (data b2) = Some d"
      "rebuild_line_index (b2\<lparr>data := d, gap_start := gap_start b2 + length t\<rparr>) = Some b3"
      "buf_wf b3" "gap_text b3 = text_insert (text_offset (gap_text b) pos) t (gap_text b)" "undo_stack b3 = undo_stack b"
      "path b3 = path b"
    using insert_core [OF assms(1,3) refl] by metis
  with assms(2) show ?thesis
    by (simp add: buffer_insert_def push_undo_def)
qed

text \<open>The gap takes over the characters after an offset.\<close>

lemma widen_gap:
  assumes "buf_wf b" and "gap_start b + n \<le> length (gap_text b)"
  shows "\<exists>b'. rebuild_line_index (b\<lparr>gap_end := size_t (gap_end b + n)\<rparr>) = Some b' \<and> buf_wf b' \<and>
    gap_text b' = text_erase (gap_start b) n (gap_text b) \<and> undo_stack b' = undo_stack b \<and>
    redo_stack b' = redo_stack b \<and> path b' = path b"
proof -
  let ?c = "b\<lparr>gap_end := gap_end b + n\<rparr>"
  have wf: "gap_start b \<le> gap_end b" "gap_end b + n \<le> length (data b)" "length (data b) < 2 ^ 34"
    using assms by (auto simp: buf_wf_def gap_wf_def gap_text_def)
  then have "gap_wf ?c" "size_t (gap_end b + n) = gap_end b + n"
    by (auto simp: gap_wf_def)
  moreover have shrunk: "gap_text ?c = text_erase (gap_start b) n (gap_text b)"
    using wf by (simp add: gap_text_def text_erase_def add.commute)
  moreover have "length (gap_text ?c) < 2 ^ 31 - 1"
    using assms(1) unfolding shrunk by (auto simp: text_erase_def buf_wf_def)
  ultimately show ?thesis
    by (simp add: rebuild_line_index_wf buf_wf_def)
qed

lemma move_gap_buf:
  assumes "buf_wf b" and "off \<le> length (gap_text b)"
  shows "\<exists>b'. move_gap off b = Some b' \<and> buf_wf b' \<and> gap_text b' = gap_text b \<and> gap_start b' = off \<and>
    gap_size b' = gap_size b \<and> undo_stack b' = undo_stack b \<and> redo_stack b' = redo_stack b \<and> path b' = path b"
proof -
  have g: "gap_wf b"
    using assms(1) by (simp add: buf_wf_def)
  obtain d where d: "move_gap off b = Some (b\<lparr>data := d, gap_start := off, gap_end := off + gap_size b\<rparr>)"
      "length d = length (data b)"
      "gap_text (b\<lparr>data := d, gap_start := off, gap_end := off + gap_size b\<rparr>) = gap_text b"
    using move_gap_wf [OF g assms(2)] by blast
  let ?c = "b\<lparr>data := d, gap_start := off, gap_end := off + gap_size b\<rparr>"
  have "gap_wf ?c"
    using length_gap_text [OF g] assms(2) g d(2) by (auto simp: gap_wf_def)
  moreover have "buf_wf ?c"
    using calculation assms(1) d(3) by (simp only: buf_wf_def) simp
  ultimately show ?thesis
    using d(1,3) by (intro exI [of _ ?c]) (simp del: gap_text_moved)
qed

lemma gap_size_moved [simp]: "gap_size (b\<lparr>gap_end := e\<rparr>) = size_t (e + 2 ^ 64 - gap_start b)"
  by (simp add: gap_size_def)

text \<open>The three additions of \<open>erase\<close> to the end of the gap.\<close>

lemma erase_core:
  assumes "buf_wf b" and "pos_less start end_pos"
    and s: "s = text_offset (gap_text b) start" and e: "e = text_offset (gap_text b) end_pos" and "s < e"
  shows "\<exists>b1. move_gap s b = Some b1 \<and> buf_wf b1 \<and> gap_start b1 = s \<and> gap_text b1 = gap_text b \<and>
    gap_size b1 = gap_size b \<and> undo_stack b1 = undo_stack b \<and>
    buffer_erase start end_pos b = do {
      b2 \<leftarrow> rebuild_line_index (b1\<lparr>gap_end := size_t (gap_end b1 + 3 * (e - s))\<rparr>);
      Some (push_undo \<lparr>e_kind = Insert, e_pos = start, e_text = take (e - s) (drop s (gap_text b))\<rparr>
        b2\<lparr>modified := True\<rparr>) }"
proof -
  have le: "s \<le> length (gap_text b)" "e \<le> length (gap_text b)" "length (gap_text b) < 2 ^ 31"
    using text_offset_le assms by (auto simp: buf_wf_def)
  obtain b1 where m: "move_gap s b = Some b1" "buf_wf b1" "gap_text b1 = gap_text b" "gap_start b1 = s"
      "gap_size b1 = gap_size b" "undo_stack b1 = undo_stack b"
    using move_gap_buf [OF assms(1) le(1)] by auto
  define n where n: "n = e - s"
  have g: "gap_wf b" "gap_wf b1" "gap_start b1 \<le> gap_end b1" "gap_end b1 < 2 ^ 34" "n < 2 ^ 31"
    using assms(1) m(2) le by (auto simp: buf_wf_def gap_wf_def n)
  let ?b2 = "b1\<lparr>gap_end := size_t (gap_start b1 + n + gap_size b1)\<rparr>"
  let ?b3 = "?b2\<lparr>gap_end := size_t (gap_start ?b2 + gap_size ?b2 + n)\<rparr>"
  have b2: "?b2 = b1\<lparr>gap_end := gap_end b1 + n\<rparr>"
    using g by simp
  have "gap_size ?b2 = gap_end b1 + n - gap_start b1"
    unfolding b2 gap_size_moved using g by (intro size_t_diff) auto
  then have b3: "?b3 = b1\<lparr>gap_end := gap_end b1 + 2 * n\<rparr>"
    using g b2 by simp
  have "move_gap s ?b3 = Some ?b3"
    unfolding b3 using m(4) by (simp add: move_gap_def)
  moreover have "?b3\<lparr>gap_end := size_t (gap_end ?b3 + n)\<rparr> = b1\<lparr>gap_end := size_t (gap_end b1 + 3 * n)\<rparr>"
    unfolding b3 using g by simp
  moreover have "start \<noteq> end_pos" "\<not> pos_less end_pos start"
    using assms(2) by (auto simp: pos_less_def)
  moreover have "pos_to_offset b start = Some s" "pos_to_offset b end_pos = Some e"
      "chars_between b s e = Some (take n (drop s (gap_text b)))"
    using pos_to_offset_wf [OF assms(1)] chars_between_wf [OF g(1) le(2)] by (simp_all add: s e n)
  ultimately have "buffer_erase start end_pos b = do {
      b2 \<leftarrow> rebuild_line_index (b1\<lparr>gap_end := size_t (gap_end b1 + 3 * n)\<rparr>);
      Some (push_undo \<lparr>e_kind = Insert, e_pos = start, e_text = take n (drop s (gap_text b))\<rparr> b2\<lparr>modified := True\<rparr>) }"
    using \<open>s < e\<close> m(1) unfolding buffer_erase_def Let_def n by (simp only: if_False split bind.bind_lunit not_le) simp
  with m show ?thesis
    unfolding n by blast
qed

lemma buffer_erase_wf:
  assumes "buf_wf b" and "pos_less start end_pos"
    and "s = text_offset (gap_text b) start" and "e = text_offset (gap_text b) end_pos" and "s < e"
    and "s + 3 * (e - s) \<le> length (gap_text b)"
  shows "\<exists>b'. buffer_erase start end_pos b = Some b' \<and> buf_wf b' \<and>
    gap_text b' = text_erase s (3 * (e - s)) (gap_text b) \<and>
    undo_stack b' = \<lparr>e_kind = Insert, e_pos = start, e_text = take (e - s) (drop s (gap_text b))\<rparr> # undo_stack b"
proof -
  obtain b1 where b1: "buf_wf b1" "gap_start b1 = s" "gap_text b1 = gap_text b" "undo_stack b1 = undo_stack b"
    "buffer_erase start end_pos b = do {
      b2 \<leftarrow> rebuild_line_index (b1\<lparr>gap_end := size_t (gap_end b1 + 3 * (e - s))\<rparr>);
      Some (push_undo \<lparr>e_kind = Insert, e_pos = start, e_text = take (e - s) (drop s (gap_text b))\<rparr>
        b2\<lparr>modified := True\<rparr>) }"
    using erase_core [OF assms(1-5)] by metis
  then show ?thesis
    using widen_gap [OF b1(1), of "3 * (e - s)"] assms(6) b1(2-4)
    unfolding b1(5) by (auto simp: push_undo_def)
qed

lemma starts_from_outside:
  "i \<le> j \<Longrightarrow> j < sz \<Longrightarrow> char_at b j = None \<Longrightarrow> starts_from b sz i = None"
proof (induction b sz i rule: starts_from.induct)
  case (1 b sz i)
  then show ?case
    by (subst starts_from.simps) (cases "i = j"; cases "char_at b i"; simp)
qed

text \<open>C15. Erasing \<open>n\<close> characters removes \<open>3 * n\<close>: the end of the gap is advanced three times.  When \<open>3 * n\<close> characters
  follow the start, the text loses all of them while the undo stack keeps only the first \<open>n\<close>; when the text is shorter
  than \<open>3 * n\<close> the size of the text wraps around and the line index is rebuilt from characters outside the buffer.\<close>

theorem erase_removes_triple:
  assumes "buf_wf b" and "pos_less start end_pos"
    and "s = text_offset (gap_text b) start" and "e = text_offset (gap_text b) end_pos" and "s < e"
  shows "(s + 3 * (e - s) \<le> length (gap_text b) \<longrightarrow>
      (\<exists>b'. buffer_erase start end_pos b = Some b' \<and> buf_wf b' \<and>
        buffer_text b' = Some (text_erase s (3 * (e - s)) (gap_text b)) \<and>
        undo_stack b' = \<lparr>e_kind = Insert, e_pos = start, e_text = take (e - s) (drop s (gap_text b))\<rparr> # undo_stack b)) \<and>
    (length (gap_text b) < 3 * (e - s) \<longrightarrow> buffer_erase start end_pos b = None)"
proof -
  obtain b1 where b1: "buf_wf b1" "gap_start b1 = s" "gap_text b1 = gap_text b" "undo_stack b1 = undo_stack b"
    "buffer_erase start end_pos b = do {
      b2 \<leftarrow> rebuild_line_index (b1\<lparr>gap_end := size_t (gap_end b1 + 3 * (e - s))\<rparr>);
      Some (push_undo \<lparr>e_kind = Insert, e_pos = start, e_text = take (e - s) (drop s (gap_text b))\<rparr>
        b2\<lparr>modified := True\<rparr>) }"
    using erase_core [OF assms] by metis
  have "buffer_erase start end_pos b = None" if short: "length (gap_text b) < 3 * (e - s)"
  proof -
    let ?n = "3 * (e - s)" and ?c = "b1\<lparr>gap_end := size_t (gap_end b1 + 3 * (e - s))\<rparr>"
    have wf: "gap_wf b1" "gap_start b1 \<le> gap_end b1" "gap_end b1 \<le> length (data b1)" "length (data b1) < 2 ^ 34" "e < 2 ^ 31"
      using b1(1) text_offset_le [of "gap_text b" end_pos] assms(1,4) by (auto simp: buf_wf_def gap_wf_def)
    have "s \<le> length (gap_text b)"
      using assms(3) text_offset_le by simp
    then have len: "length (gap_text b) = length (data b1) - (gap_end b1 - s)" "s \<le> gap_end b1" "s \<le> length (gap_text b)"
      using length_gap_text [OF wf(1)] wf(1,2) b1(2,3) by auto
    have e: "size_t (gap_end b1 + ?n) = gap_end b1 + ?n"
      using wf by simp
    have g: "gap_size ?c = gap_end b1 + ?n - s"
      unfolding e gap_size_moved b1(2) using wf len(2) by (intro size_t_diff) auto
    have "content_size ?c = size_t (length (data b1) + 2 ^ 64 - (gap_end b1 + ?n - s))"
      by (simp only: content_size_def g) simp
    also have "length (data b1) < gap_end b1 + ?n - s"
      using short len by linarith
    then have "size_t (length (data b1) + 2 ^ 64 - (gap_end b1 + ?n - s)) = length (data b1) + 2 ^ 64 - (gap_end b1 + ?n - s)"
      by (intro size_t_small) simp
    finally have big: "length (data b1) < content_size ?c"
      using wf len by simp
    have "char_at ?c (length (data b1)) = None"
      unfolding char_at_def g Let_def using wf len short by auto
    then have "rebuild_line_index ?c = None"
      using starts_from_outside [OF _ big, of 0] by (simp add: rebuild_line_index_def)
    then show ?thesis
      unfolding b1(5) by simp
  qed
  then show ?thesis
    using buffer_erase_wf [OF assms] by (auto simp: buffer_text_wf buf_wf_def)
qed

subsection \<open>Undo and redo\<close>

lemma apply_erase:
  assumes "buf_wf b" and "off = text_offset (gap_text b) pos" and "off + length t \<le> length (gap_text b)"
  shows "\<exists>b'. apply_edit \<lparr>e_kind = Erase, e_pos = pos, e_text = t\<rparr> r b = Some b' \<and> buf_wf b' \<and>
    gap_text b' = text_erase off (length t) (gap_text b) \<and>
    undo_stack b' = (if r then [\<lparr>e_kind = Insert, e_pos = pos, e_text = t\<rparr>] else []) @ undo_stack b \<and>
    redo_stack b' = (if r then [] else [\<lparr>e_kind = Insert, e_pos = pos, e_text = t\<rparr>]) @ redo_stack b"
proof -
  obtain b1 where 1: "move_gap off b = Some b1" "buf_wf b1" "gap_text b1 = gap_text b" "gap_start b1 = off"
      "undo_stack b1 = undo_stack b" "redo_stack b1 = redo_stack b"
    using move_gap_buf [OF assms(1), of off] assms(3) by auto
  obtain b2 where "rebuild_line_index (b1\<lparr>gap_end := size_t (gap_end b1 + length t)\<rparr>) = Some b2" "buf_wf b2"
      "gap_text b2 = text_erase off (length t) (gap_text b)" "undo_stack b2 = undo_stack b" "redo_stack b2 = redo_stack b"
    using widen_gap [OF 1(2), of "length t"] assms(3) 1 by auto
  with 1 show ?thesis
    by (simp add: apply_edit_def pos_to_offset_wf [OF assms(1)] push_inverse_def flip: assms(2))
qed

lemma apply_insert:
  assumes "buf_wf b" and "length (gap_text b) + length t < 2 ^ 31 - 1" and "off = text_offset (gap_text b) pos"
  shows "\<exists>b'. apply_edit \<lparr>e_kind = Insert, e_pos = pos, e_text = t\<rparr> r b = Some b' \<and> buf_wf b' \<and>
    gap_text b' = text_insert off t (gap_text b) \<and>
    undo_stack b' = (if r then [\<lparr>e_kind = Erase, e_pos = pos, e_text = t\<rparr>] else []) @ undo_stack b \<and>
    redo_stack b' = (if r then [] else [\<lparr>e_kind = Erase, e_pos = pos, e_text = t\<rparr>]) @ redo_stack b"
proof -
  obtain b1 b2 d b3 where "pos_to_offset b pos = Some off" "ensure_gap (length t) b = Some b1"
      "move_gap off b1 = Some b2" "memcpy_into (gap_start b2) t (data b2) = Some d"
      "rebuild_line_index (b2\<lparr>data := d, gap_start := gap_start b2 + length t\<rparr>) = Some b3"
      "buf_wf b3" "gap_text b3 = text_insert off t (gap_text b)" "undo_stack b3 = undo_stack b" "redo_stack b3 = redo_stack b"
    using insert_core [OF assms] by metis
  then show ?thesis
    by (simp add: apply_edit_def push_inverse_def)
qed

text \<open>The commands of an editing session without erasure, and the texts they go through: those before the present one,
  the present one, and those that were undone.\<close>

datatype command = Type_Text position string | Undo | Redo

definition editor_step :: "buffer \<Rightarrow> command \<Rightarrow> (buffer \<times> string option) option" where
  "editor_step b c = do {
     b' \<leftarrow> (case c of Type_Text pos t \<Rightarrow> buffer_insert pos t b | Undo \<Rightarrow> buffer_undo b | Redo \<Rightarrow> buffer_redo b);
     Some (b', buffer_text b') }"

type_synonym history = "string list \<times> string \<times> string list"

fun history_move :: "history \<Rightarrow> command \<Rightarrow> history" where
  "history_move (past, now, future) (Type_Text pos t) =
     (if t = [] then (past, now, future) else (now # past, text_insert (text_offset now pos) t now, []))"
| "history_move (past, now, future) Undo =
     (case past of [] \<Rightarrow> (past, now, future) | p # ps \<Rightarrow> (ps, p, now # future))"
| "history_move (past, now, future) Redo =
     (case future of [] \<Rightarrow> (past, now, future) | f # fs \<Rightarrow> (now # past, f, fs))"

definition history_spec :: "history \<Rightarrow> command \<Rightarrow> history \<times> string option" where
  "history_spec h c = (history_move h c, Some (fst (snd (history_move h c))))"

text \<open>Text is typed at positions that exist, and lines are numbered by an \<open>int\<close>.\<close>

fun command_ok :: "history \<Rightarrow> command \<Rightarrow> bool" where
  "command_ok (past, now, future) (Type_Text pos t) \<longleftrightarrow>
     pos = pos_at now (text_offset now pos) \<and> length now + length t < 2 ^ 31 - 1"
| "command_ok h Undo \<longleftrightarrow> True"
| "command_ok h Redo \<longleftrightarrow> True"

text \<open>What the stacks owe to the history: each edit leads from a text to its neighbour.\<close>

fun undo_rel :: "string \<Rightarrow> edit list \<Rightarrow> string list \<Rightarrow> bool" where
  "undo_rel now [] [] \<longleftrightarrow> True"
| "undo_rel now (e # es) (p # ps) \<longleftrightarrow>
     (\<exists>off t. off \<le> length p \<and> e = \<lparr>e_kind = Erase, e_pos = pos_at p off, e_text = t\<rparr> \<and> now = text_insert off t p) \<and>
     undo_rel p es ps"
| "undo_rel now _ _ \<longleftrightarrow> False"

fun redo_rel :: "string \<Rightarrow> edit list \<Rightarrow> string list \<Rightarrow> bool" where
  "redo_rel now [] [] \<longleftrightarrow> True"
| "redo_rel now (e # es) (f # fs) \<longleftrightarrow>
     (\<exists>off t. off \<le> length now \<and> e = \<lparr>e_kind = Insert, e_pos = pos_at now off, e_text = t\<rparr> \<and>
       f = text_insert off t now \<and> length f < 2 ^ 31 - 1) \<and>
     redo_rel f es fs"
| "redo_rel now _ _ \<longleftrightarrow> False"

definition history_rel :: "buffer \<Rightarrow> history \<Rightarrow> bool" where
  "history_rel b = (\<lambda>(past, now, future). buf_wf b \<and> gap_text b = now \<and>
     undo_rel now (undo_stack b) past \<and> redo_rel now (redo_stack b) future)"

lemma undo_rel_empty [simp]: "undo_rel now [] ps \<longleftrightarrow> ps = []" "undo_rel now es [] \<longleftrightarrow> es = []"
  by (cases ps, auto) (cases es, auto)

lemma redo_rel_empty [simp]: "redo_rel now [] ps \<longleftrightarrow> ps = []" "redo_rel now es [] \<longleftrightarrow> es = []"
  by (cases ps, auto) (cases es, auto)

lemma history_type:
  assumes "history_rel b (past, now, future)" and "command_ok (past, now, future) (Type_Text pos t)" and "t \<noteq> []"
  shows "\<exists>b'. buffer_insert pos t b = Some b' \<and>
    history_rel b' (now # past, text_insert (text_offset now pos) t now, [])"
proof -
  have b: "buf_wf b" "gap_text b = now" "undo_rel now (undo_stack b) past"
    using assms(1) by (auto simp: history_rel_def)
  obtain b' where "buffer_insert pos t b = Some b'" "buf_wf b'" "redo_stack b' = []"
      "gap_text b' = text_insert (text_offset now pos) t now"
      "undo_stack b' = \<lparr>e_kind = Erase, e_pos = pos, e_text = t\<rparr> # undo_stack b"
    using buffer_insert_wf [OF b(1) assms(3), of pos] assms(2) b(2) by auto
  with b assms(2) text_offset_le [of now pos] show ?thesis
    by (auto simp: history_rel_def)
qed

lemma history_undo:
  assumes "history_rel b (p # past, now, future)"
  shows "\<exists>b'. buffer_undo b = Some b' \<and> history_rel b' (past, p, now # future)"
proof -
  obtain off t es where e: "undo_stack b = \<lparr>e_kind = Erase, e_pos = pos_at p off, e_text = t\<rparr> # es"
      "off \<le> length p" "now = text_insert off t p" "undo_rel p es past"
    using assms by (cases "undo_stack b") (auto simp: history_rel_def)
  have b: "buf_wf (b\<lparr>undo_stack := es\<rparr>)" "gap_text (b\<lparr>undo_stack := es\<rparr>) = now" "length now < 2 ^ 31 - 1"
      "redo_rel now (redo_stack b) future"
    using assms by (auto simp: history_rel_def buf_wf_def)
  have off: "off = text_offset (gap_text (b\<lparr>undo_stack := es\<rparr>)) (pos_at p off)"
    unfolding b(2) e(3) using text_offset_pos_at [of off "text_insert off t p"] e(2) by (simp add: pos_at_insert)
  obtain b' where "apply_edit \<lparr>e_kind = Erase, e_pos = pos_at p off, e_text = t\<rparr> False (b\<lparr>undo_stack := es\<rparr>) = Some b'"
      "buf_wf b'" "gap_text b' = p" "undo_stack b' = es"
      "redo_stack b' = \<lparr>e_kind = Insert, e_pos = pos_at p off, e_text = t\<rparr> # redo_stack b"
    using apply_erase [OF b(1) off, of t False] e(2) b(2) by (auto simp: e(3))
  with e b(3,4) show ?thesis
    by (auto simp: buffer_undo_def history_rel_def)
qed

lemma history_redo:
  assumes "history_rel b (past, now, f # future)"
  shows "\<exists>b'. buffer_redo b = Some b' \<and> history_rel b' (now # past, f, future)"
proof -
  obtain off t es where e: "redo_stack b = \<lparr>e_kind = Insert, e_pos = pos_at now off, e_text = t\<rparr> # es"
      "off \<le> length now" "f = text_insert off t now" "redo_rel f es future" "length f < 2 ^ 31 - 1"
    using assms by (cases "redo_stack b") (auto simp: history_rel_def)
  have b: "buf_wf (b\<lparr>redo_stack := es\<rparr>)" "gap_text (b\<lparr>redo_stack := es\<rparr>) = now" "undo_rel now (undo_stack b) past"
    using assms by (auto simp: history_rel_def)
  have off: "off = text_offset (gap_text (b\<lparr>redo_stack := es\<rparr>)) (pos_at now off)"
    unfolding b(2) by (simp add: text_offset_pos_at e(2))
  obtain b' where "apply_edit \<lparr>e_kind = Insert, e_pos = pos_at now off, e_text = t\<rparr> True (b\<lparr>redo_stack := es\<rparr>) = Some b'"
      "buf_wf b'" "gap_text b' = f" "redo_stack b' = es"
      "undo_stack b' = \<lparr>e_kind = Erase, e_pos = pos_at now off, e_text = t\<rparr> # undo_stack b"
    using apply_insert [OF b(1) _ off, of t True] e(3,5) b(2) by auto
  with e b(3) show ?thesis
    by (auto simp: buffer_redo_def history_rel_def)
qed


lemma editor_simulates:
  assumes "history_rel b h" and "command_ok h c"
  shows "\<exists>b'. editor_step b c = Some (b', snd (history_spec h c)) \<and> history_rel b' (fst (history_spec h c))"
proof -
  obtain past now future where h: "h = (past, now, future)"
    by (cases h)
  have "\<exists>b'. (case c of Type_Text pos t \<Rightarrow> buffer_insert pos t b | Undo \<Rightarrow> buffer_undo b | Redo \<Rightarrow> buffer_redo b) = Some b' \<and>
      history_rel b' (history_move h c)"
  proof (cases c)
    case (Type_Text pos t)
    with assms history_type [of b past now future pos t] show ?thesis
      by (cases "t = []") (auto simp: h buffer_insert_def)
  next
    case Undo
    with assms history_undo show ?thesis
      by (cases past) (auto simp: h buffer_undo_def history_rel_def)
  next
    case Redo
    with assms history_redo show ?thesis
      by (cases future) (auto simp: h buffer_redo_def history_rel_def)
  qed
  then show ?thesis
    by (cases "history_move h c") (auto simp: editor_step_def history_spec_def history_rel_def buffer_text_wf buf_wf_def)
qed

interpretation editor: related editor_step history_spec history_rel command_ok
  by unfold_locales (rule editor_simulates)

text \<open>C14. Undo and redo walk through the texts of the session: whatever is typed at positions that exist, undone and
  redone, the gap buffer never reads outside and shows after every command the text that a list of past texts, the
  present text and a list of undone texts give, in which typing forgets the undone texts.\<close>

theorem editor_keeps_history:
  assumes "buf_wf b" and "undo_stack b = []" and "redo_stack b = []"
    and "spec_ok history_spec command_ok ([], gap_text b, []) cs"
  shows "\<exists>b'. run_out editor_step b cs = Some (b', snd (spec_out history_spec ([], gap_text b, []) cs)) \<and>
    buf_wf b' \<and> buffer_text b' = Some (fst (snd (fst (spec_out history_spec ([], gap_text b, []) cs))))"
proof -
  have "history_rel b ([], gap_text b, [])"
    using assms(1-3) by (simp add: history_rel_def)
  from editor.run_rel [OF this assms(4)] show ?thesis
    by (cases "fst (spec_out history_spec ([], gap_text b, []) cs)") (auto simp: history_rel_def buffer_text_wf buf_wf_def)
qed

subsection \<open>Files\<close>

lemma new_buffer_wf:
  "\<exists>b. new_buffer = Some b \<and> buf_wf b \<and> gap_text b = [] \<and> undo_stack b = [] \<and> redo_stack b = []"
proof -
  let ?b = "\<lambda>ls. \<lparr>data = replicate kInitialGapSize (CHR 0x00), gap_start = 0, gap_end = kInitialGapSize,
    line_starts = ls, undo_stack = [], redo_stack = [], path = [], modified = False\<rparr>"
  have "gap_wf (?b ls)" "gap_text (?b ls) = []" for ls
    by (simp_all add: gap_wf_def gap_text_def) (simp add: kInitialGapSize_def)
  then show ?thesis
    by (simp add: new_buffer_def rebuild_line_index_wf buf_wf_def)
qed

text \<open>Loading a file and saving the buffer gives the file back: \<open>from_file\<close> returns a well-formed, unmodified buffer
  with the contents of the file as its text, its path and empty undo stacks, and \<open>save\<close> without a path writes exactly
  those contents.\<close>

theorem load_save_roundtrip:
  assumes "length content < 2 ^ 31 - 1" and "p \<noteq> []"
  shows "\<exists>b. from_file p (Some (content, False)) = Some (Inr b) \<and> buf_wf b \<and> buffer_text b = Some content \<and>
    path b = p \<and> \<not> modified b \<and> undo_stack b = [] \<and> redo_stack b = [] \<and>
    save_buffer True True None b = Some (b, Inr content)"
proof -
  obtain b where b: "new_buffer = Some b" "buf_wf b" "gap_text b = []" "undo_stack b = []" "redo_stack b = []"
    using new_buffer_wf by blast
  have loaded: "\<exists>b'. from_file p (Some (content, False)) = Some (Inr b') \<and> buf_wf b' \<and> gap_text b' = content \<and>
      path b' = p \<and> \<not> modified b' \<and> undo_stack b' = [] \<and> redo_stack b' = []"
  proof (cases "content = []")
    case True
    then have "from_file p (Some (content, False)) = Some (Inr (b\<lparr>path := p, modified := False\<rparr>))"
      by (simp add: from_file_def b(1))
    with True b show ?thesis
      by simp
  next
    case False
    let ?b = "b\<lparr>path := p, modified := False\<rparr>" and ?o = "\<lparr>p_line = 0, p_col = 0\<rparr>"
    have "text_offset [] ?o = 0"
      by (simp add: text_offset_def line_index_def)
    then obtain b' where "buffer_insert ?o content ?b = Some b'" "buf_wf b'" "gap_text b' = content" "path b' = p"
      using buffer_insert_wf [of ?b content ?o] b False assms(1) by (auto simp: text_insert_def)
    moreover from this have "from_file p (Some (content, False)) =
        Some (Inr (b'\<lparr>undo_stack := [], redo_stack := [], modified := False\<rparr>))"
      using False by (simp add: from_file_def b(1))
    ultimately show ?thesis
      by simp
  qed
  then obtain b' where "from_file p (Some (content, False)) = Some (Inr b')" "buf_wf b'" "gap_text b' = content"
      "path b' = p" "\<not> modified b'" "undo_stack b' = []" "redo_stack b' = []"
    by blast
  then show ?thesis
    using assms(2) by (intro exI [of _ b']) (simp add: save_buffer_def save_as_def buffer_text_wf buf_wf_def)
qed

text \<open>An error of saving leaves the buffer as it was.\<close>

lemma save_error_keeps_buffer:
  "save_buffer can_open can_write err b = Some (b', Inl e) \<Longrightarrow> b' = b"
  by (auto simp: save_buffer_def save_as_def Let_def bind_eq_Some_conv split: if_splits option.splits)

text \<open>
  The undo of text typed beyond the end of a line erases other characters: the edit keeps the position and not the
  offset, and the position is clamped again in the longer line.
\<close>

lemma undo_beyond_line_end:
  assumes "buf_wf b" and "gap_text b = [CHR ''a'', CHR 0x0A, CHR ''b'']"
  shows "\<exists>b' b''. buffer_insert \<lparr>p_line = 0, p_col = 9\<rparr> [CHR ''x'', CHR 0x0A] b = Some b' \<and>
    buffer_undo b' = Some b'' \<and> gap_text b'' \<noteq> gap_text b"
proof -
  let ?p = "\<lparr>p_line = 0, p_col = 9\<rparr>" and ?t = "[CHR ''x'', CHR 0x0A]"
  have at: "text_offset (gap_text b) ?p = 1"
    by (simp add: assms(2) text_offset_def line_index_def)
  obtain b' where b': "buffer_insert ?p ?t b = Some b'" "buf_wf b'" "gap_text b' = text_insert 1 ?t (gap_text b)"
      "undo_stack b' = \<lparr>e_kind = Erase, e_pos = ?p, e_text = ?t\<rparr> # undo_stack b"
    using buffer_insert_wf [OF assms(1), of ?t ?p] unfolding at by (auto simp: assms(2))
  let ?c = "b'\<lparr>undo_stack := undo_stack b\<rparr>"
  have c: "buf_wf ?c" "gap_text ?c = [CHR ''a'', CHR ''x'', CHR 0x0A, CHR 0x0A, CHR ''b'']"
    using b'(2,3) by (simp_all add: assms(2) text_insert_def)
  have "2 = text_offset (gap_text ?c) ?p"
    unfolding c(2) by (simp add: text_offset_def line_index_def)
  from apply_erase [OF c(1) this, of ?t False] b' c(2) show ?thesis
    by (auto simp: buffer_undo_def text_erase_def assms(2))
qed

subsection \<open>A buffer\<close>

text \<open>A small buffer with its gap after the first of its two lines.\<close>

definition sample :: buffer where
  "sample = \<lparr>data = [CHR ''a'', CHR ''b'', CHR 0x0A, CHR ''?'', CHR ''?'', CHR ''c'', CHR ''d''], gap_start = 3, gap_end = 5,
     line_starts = [0, 3], undo_stack = [], redo_stack = [], path = ''f'', modified = False\<rparr>"

lemma sample_wf: "buf_wf sample" "gap_text sample = [CHR ''a'', CHR ''b'', CHR 0x0A, CHR ''c'', CHR ''d'']"
  by (simp_all add: sample_def buf_wf_def gap_wf_def gap_text_def line_index_def)

lemma cursor_roundtrip_witness:
  "\<exists>p. offset_to_pos sample 4 = Some p \<and> pos_to_offset sample p = Some 4 \<and> p_line p = 1"
  using cursor_roundtrip [OF sample_wf(1), of 4] by (simp add: sample_wf(2))

lemma line_reads_text_witness: "line sample 1 = Some ''cd'' \<and> line_count sample = 2"
  using line_reads_text [OF sample_wf(1), of 1] by (simp add: sample_wf(2))

lemma erase_removes_triple_witness:
  "(\<exists>b'. buffer_erase \<lparr>p_line = 0, p_col = 0\<rparr> \<lparr>p_line = 0, p_col = 1\<rparr> sample = Some b' \<and> buffer_text b' = Some ''cd'') \<and>
   buffer_erase \<lparr>p_line = 0, p_col = 0\<rparr> \<lparr>p_line = 0, p_col = 2\<rparr> sample = None"
proof -
  have off: "text_offset (gap_text sample) \<lparr>p_line = 0, p_col = 0\<rparr> = 0"
      "text_offset (gap_text sample) \<lparr>p_line = 0, p_col = 1\<rparr> = 1"
      "text_offset (gap_text sample) \<lparr>p_line = 0, p_col = 2\<rparr> = 2"
    by (simp_all add: sample_wf(2) text_offset_def line_index_def)
  have less: "pos_less \<lparr>p_line = 0, p_col = 0\<rparr> \<lparr>p_line = 0, p_col = 1\<rparr>"
      "pos_less \<lparr>p_line = 0, p_col = 0\<rparr> \<lparr>p_line = 0, p_col = 2\<rparr>"
    by (simp_all add: pos_less_def)
  show ?thesis
    using erase_removes_triple [OF sample_wf(1) less(1) off(1,2) [symmetric]]
      erase_removes_triple [OF sample_wf(1) less(2) off(1,3) [symmetric]]
    by (auto simp: sample_wf(2) text_erase_def)
qed

lemma editor_keeps_history_witness:
  "\<exists>b'. run_out editor_step sample [Type_Text \<lparr>p_line = 1, p_col = 1\<rparr> ''x'', Undo, Redo, Undo] =
     Some (b', [Some (take 3 (gap_text sample) @ ''cxd''), Some (gap_text sample),
       Some (take 3 (gap_text sample) @ ''cxd''), Some (gap_text sample)]) \<and>
     buf_wf b' \<and> buffer_text b' = Some (gap_text sample)"
proof -
  let ?p = "\<lparr>p_line = 1, p_col = 1\<rparr>"
  have off: "text_offset (gap_text sample) ?p = 4"
    by (simp add: sample_wf(2) text_offset_def line_index_def)
  have pos: "?p = pos_at (gap_text sample) 4"
    by (simp add: sample_wf(2) pos_at_def)
  have len: "length (gap_text sample) = 5"
    by (simp add: sample_wf(2))
  have stacks: "undo_stack sample = []" "redo_stack sample = []"
    by (simp_all add: sample_def)
  have "spec_ok history_spec command_ok ([], gap_text sample, []) [Type_Text ?p ''x'', Undo, Redo, Undo]"
    by (simp add: history_spec_def off len flip: pos)
  from editor_keeps_history [OF sample_wf(1) stacks this] show ?thesis
    by (simp add: history_spec_def off [unfolded sample_wf(2)] text_insert_def sample_wf(2))
qed

lemma load_save_roundtrip_witness:
  "\<exists>b. from_file ''f'' (Some (''hi'', False)) = Some (Inr b) \<and> save_buffer True True None b = Some (b, Inr ''hi'')"
  using load_save_roundtrip [of "''hi''" "''f''"] by auto

end
