(* ===== verification/Editor_Search.thy ===== *)
theory Editor_Search
  imports Editor_Buffer
begin

text \<open>
  Find and replace (\<open>apps/editor/search.cpp\<close>) over the text buffer.  Offsets and positions are converted
  line by line, plain search is \<open>std::string::find\<close> and \<open>rfind\<close> on the text (in lower case when the case
  does not matter), and replacing is an erasure and an insertion of the buffer.  \<open>std::regex\<close> is an
  argument: compilation, the matches of a text, the first match, and the expansion of a replacement for a
  text that matches as a whole.  \<open>None\<close> is an access outside the buffer or an exception that leaves the
  function.
\<close>

subsection \<open>Strings\<close>

text \<open>\<open>find\<close>: the first occurrence at or after an index.\<close>

function find_from :: "string \<Rightarrow> string \<Rightarrow> nat \<Rightarrow> nat option" where
  "find_from h n i =
     (if i + length n \<le> length h
      then if take (length n) (drop i h) = n then Some i else find_from h n (i + 1)
      else None)"
  by pat_completeness auto

termination
  by (relation "measure (\<lambda>(h, n, i). length h + 1 - i)") auto

declare find_from.simps [simp del]

text \<open>\<open>rfind\<close>: the last occurrence at or before an index.\<close>

fun rfind_down :: "string \<Rightarrow> string \<Rightarrow> nat \<Rightarrow> nat option" where
  "rfind_down h n i =
     (if take (length n) (drop i h) = n then Some i
      else case i of 0 \<Rightarrow> None | Suc j \<Rightarrow> rfind_down h n j)"

declare rfind_down.simps [simp del]

definition rfind_from :: "string \<Rightarrow> string \<Rightarrow> nat \<Rightarrow> nat option" where
  "rfind_from h n i = (if length n \<le> length h then rfind_down h n (min i (length h - length n)) else None)"

text \<open>\<open>std::tolower\<close> and \<open>std::isalnum\<close> in the C locale.\<close>

definition to_lower :: "char \<Rightarrow> char" where
  "to_lower c = (if 65 \<le> (of_char c :: nat) \<and> (of_char c :: nat) \<le> 90 then char_of ((of_char c :: nat) + 32) else c)"

definition is_alnum :: "char \<Rightarrow> bool" where
  "is_alnum c = (let k = (of_char c :: nat) in 48 \<le> k \<and> k \<le> 57 \<or> 65 \<le> k \<and> k \<le> 90 \<or> 97 \<le> k \<and> k \<le> 122)"

subsection \<open>State\<close>

record search_match =
  m_start :: position
  m_end :: position

record search_options =
  case_sensitive :: bool
  whole_word :: bool
  use_regex :: bool
  wrap_around :: bool

record 'r search_engine =
  s_query :: string
  s_opts :: search_options
  s_regex :: 'r
  s_valid :: bool

text \<open>What the engine uses of \<open>std::regex\<close>: matches are pairs of an index and a length.\<close>

record 'r regex_lib =
  rx_default :: 'r
  rx_compile :: "bool \<Rightarrow> string \<Rightarrow> 'r option"
  rx_matches :: "'r \<Rightarrow> string \<Rightarrow> (nat \<times> nat) list"
  rx_search :: "'r \<Rightarrow> string \<Rightarrow> (nat \<times> nat) option"
  rx_expand :: "'r \<Rightarrow> string \<Rightarrow> string \<Rightarrow> string option"

definition new_engine :: "'r regex_lib \<Rightarrow> 'r search_engine" where
  "new_engine rx = \<lparr>s_query = [],
     s_opts = \<lparr>case_sensitive = True, whole_word = False, use_regex = False, wrap_around = True\<rparr>,
     s_regex = rx_default rx, s_valid = False\<rparr>"

subsection \<open>Positions\<close>

text \<open>The sum of the line lengths is below \<open>2 ^ 62\<close>, so that \<open>accumulated\<close> does not wrap.\<close>

function walk_lines :: "buffer \<Rightarrow> nat \<Rightarrow> int \<Rightarrow> nat \<Rightarrow> position option" where
  "walk_lines b off li acc =
     (if li < line_count b then do {
        len \<leftarrow> line_length b li;
        let line_bytes = nat len + 1;
        if off < acc + line_bytes
        then Some \<lparr>p_line = li, p_col = min (to_int (off - acc)) len\<rparr>
        else walk_lines b off (li + 1) (acc + line_bytes) }
      else do {
        len \<leftarrow> line_length b (line_count b - 1);
        Some \<lparr>p_line = line_count b - 1, p_col = len\<rparr> })"
  by pat_completeness auto

termination
  by (relation "measure (\<lambda>(b, _, li, _). nat (line_count b - li))") auto

declare walk_lines.simps [simp del]

definition search_offset_to_pos :: "buffer \<Rightarrow> nat \<Rightarrow> position option" where
  "search_offset_to_pos b off = walk_lines b off 0 0"

function lines_before :: "buffer \<Rightarrow> int \<Rightarrow> int \<Rightarrow> nat option" where
  "lines_before b stop li =
     (if li < stop \<and> li < line_count b then do {
        len \<leftarrow> line_length b li;
        rest \<leftarrow> lines_before b stop (li + 1);
        Some (nat len + 1 + rest) }
      else Some 0)"
  by pat_completeness auto

termination
  by (relation "measure (\<lambda>(b, _, li). nat (line_count b - li))") auto

declare lines_before.simps [simp del]

definition search_pos_to_offset :: "buffer \<Rightarrow> position \<Rightarrow> nat option" where
  "search_pos_to_offset b pos = do {
     off \<leftarrow> lines_before b (p_line pos) 0;
     Some (off + nat (max 0 (p_col pos))) }"

definition is_word :: "char \<Rightarrow> bool" where
  "is_word c \<longleftrightarrow> is_alnum c \<or> c = CHR ''_''"

definition matches_word_boundary :: "string \<Rightarrow> nat \<Rightarrow> nat \<Rightarrow> bool" where
  "matches_word_boundary t start len \<longleftrightarrow>
     (start = 0 \<or> \<not> is_word (t ! (start - 1))) \<and> (start + len \<ge> length t \<or> \<not> is_word (t ! (start + len)))"

subsection \<open>Searching\<close>

definition set_query :: "'r regex_lib \<Rightarrow> string \<Rightarrow> search_options \<Rightarrow> 'r search_engine \<Rightarrow> 'r search_engine \<times> bool" where
  "set_query rx q opts e =
     (let e = e\<lparr>s_query := q, s_opts := opts, s_valid := False\<rparr> in
      if q = [] then (e\<lparr>s_valid := True\<rparr>, True)
      else if use_regex opts then
        (case rx_compile rx (\<not> case_sensitive opts) q of
           Some r \<Rightarrow> (e\<lparr>s_regex := r, s_valid := True\<rparr>, True)
         | None \<Rightarrow> (e\<lparr>s_valid := False\<rparr>, False))
      else (e\<lparr>s_valid := True\<rparr>, True))"

definition match_of :: "buffer \<Rightarrow> nat \<Rightarrow> nat \<Rightarrow> search_match option" where
  "match_of b s e = do {
     p \<leftarrow> search_offset_to_pos b s;
     q \<leftarrow> search_offset_to_pos b e;
     Some \<lparr>m_start = p, m_end = q\<rparr> }"

definition fold_case :: "search_options \<Rightarrow> string \<Rightarrow> string" where
  "fold_case opts t = (if case_sensitive opts then t else List.map to_lower t)"

definition word_ok :: "search_options \<Rightarrow> string \<Rightarrow> nat \<Rightarrow> nat \<Rightarrow> bool" where
  "word_ok opts t s n \<longleftrightarrow> \<not> whole_word opts \<or> matches_word_boundary t s n"

text \<open>The offsets of the matches of the two loops of \<open>find_all\<close>.\<close>

lemma find_from_bounds: "find_from h n i = Some k \<Longrightarrow> i \<le> k \<and> k + length n \<le> length h"
proof (induction h n i rule: find_from.induct)
  case (1 h n i)
  from 1(2) show ?case
    by (subst (asm) find_from.simps) (use 1(1) in \<open>auto split: if_splits\<close>)
qed

function plain_matches :: "search_options \<Rightarrow> string \<Rightarrow> string \<Rightarrow> nat \<Rightarrow> (nat \<times> nat) list" where
  "plain_matches opts h n i =
     (case find_from h n i of
        None \<Rightarrow> []
      | Some k \<Rightarrow>
          (if word_ok opts h k (length n) then [(k, length n)] else []) @
          plain_matches opts h n (k + (if n = [] then 1 else length n)))"
  by pat_completeness auto

termination
  by (relation "measure (\<lambda>(_, h, n, i). length h + 1 - i)") (auto dest!: find_from_bounds simp flip: length_greater_0_conv)

declare plain_matches.simps [simp del]

definition find_all :: "'r regex_lib \<Rightarrow> 'r search_engine \<Rightarrow> buffer \<Rightarrow> search_match list option" where
  "find_all rx e b =
     (if \<not> s_valid e \<or> s_query e = [] then Some []
      else do {
        full \<leftarrow> buffer_text b;
        let opts = s_opts e;
        let ms = (if use_regex opts
          then filter (\<lambda>(s, n). word_ok opts full s n) (rx_matches rx (s_regex e) full)
          else plain_matches opts (fold_case opts full) (fold_case opts (s_query e)) 0);
        those (List.map (\<lambda>(s, n). match_of b s (s + n)) ms) })"

definition plain_search_forward :: "'r search_engine \<Rightarrow> buffer \<Rightarrow> nat \<Rightarrow> search_match option option" where
  "plain_search_forward e b start = do {
     t \<leftarrow> buffer_text b;
     let opts = s_opts e;
     let h = fold_case opts t;
     let n = fold_case opts (s_query e);
     let start = (if start > length h then 0 else start);
     case find_from h n start of
       None \<Rightarrow> Some None
     | Some pos \<Rightarrow>
         if word_ok opts h pos (length n) then map_option Some (match_of b pos (pos + length n)) else Some None }"

definition plain_search_backward :: "'r search_engine \<Rightarrow> buffer \<Rightarrow> nat \<Rightarrow> search_match option option" where
  "plain_search_backward e b start = do {
     t \<leftarrow> buffer_text b;
     let opts = s_opts e;
     let h = fold_case opts t;
     let n = fold_case opts (s_query e);
     let start = (if start > length h then length h else start);
     if start < length n then Some None
     else case rfind_from h n (start - length n) of
       None \<Rightarrow> Some None
     | Some pos \<Rightarrow>
         if word_ok opts h pos (length n) then map_option Some (match_of b pos (pos + length n)) else Some None }"

definition regex_search_forward :: "'r regex_lib \<Rightarrow> 'r search_engine \<Rightarrow> buffer \<Rightarrow> nat \<Rightarrow> search_match option option" where
  "regex_search_forward rx e b start = do {
     full \<leftarrow> buffer_text b;
     let start = (if start > length full then 0 else start);
     case rx_search rx (s_regex e) (drop start full) of
       None \<Rightarrow> Some None
     | Some (p, n) \<Rightarrow>
         if word_ok (s_opts e) full (start + p) n
         then map_option Some (match_of b (start + p) (start + p + n)) else Some None }"

definition find_next :: "'r regex_lib \<Rightarrow> 'r search_engine \<Rightarrow> buffer \<Rightarrow> position \<Rightarrow> search_match option option" where
  "find_next rx e b from =
     (if \<not> s_valid e \<or> s_query e = [] then Some None
      else do {
        start \<leftarrow> search_pos_to_offset b from;
        let search = (if use_regex (s_opts e) then regex_search_forward rx e b else plain_search_forward e b);
        result \<leftarrow> search start;
        if result = None \<and> wrap_around (s_opts e) then search 0 else Some result })"

definition find_prev :: "'r search_engine \<Rightarrow> buffer \<Rightarrow> position \<Rightarrow> search_match option option" where
  "find_prev e b from =
     (if \<not> s_valid e \<or> s_query e = [] then Some None
      else do {
        from_offset \<leftarrow> search_pos_to_offset b from;
        result \<leftarrow> plain_search_backward e b from_offset;
        if result = None \<and> wrap_around (s_opts e)
        then do { t \<leftarrow> buffer_text b; plain_search_backward e b (length t) }
        else Some result })"

subsection \<open>Replacing\<close>

text \<open>\<open>std::string::substr\<close>.\<close>

definition substr :: "string \<Rightarrow> nat \<Rightarrow> nat \<Rightarrow> string option" where
  "substr t s n = (if s \<le> length t then Some (take n (drop s t)) else None)"

definition replacement_text :: "'r regex_lib \<Rightarrow> 'r search_engine \<Rightarrow> buffer \<Rightarrow> search_match \<Rightarrow> string \<Rightarrow> string option" where
  "replacement_text rx e b m r =
     (if use_regex (s_opts e) then do {
        full \<leftarrow> buffer_text b;
        s \<leftarrow> search_pos_to_offset b (m_start m);
        t \<leftarrow> search_pos_to_offset b (m_end m);
        matched \<leftarrow> substr full s (size_t (t + 2 ^ 64 - s));
        Some (case rx_expand rx (s_regex e) matched r of Some x \<Rightarrow> x | None \<Rightarrow> r) }
      else Some r)"

definition replace_one :: "'r regex_lib \<Rightarrow> 'r search_engine \<Rightarrow> search_match \<Rightarrow> string \<Rightarrow> buffer \<Rightarrow> (buffer \<times> position) option" where
  "replace_one rx e m r b = do {
     rep_str \<leftarrow> replacement_text rx e b m r;
     b \<leftarrow> buffer_erase (m_start m) (m_end m) b;
     b \<leftarrow> buffer_insert (m_start m) rep_str b;
     col \<leftarrow> i32 (p_col (m_start m) + to_int (length rep_str));
     Some (b, (m_start m)\<lparr>p_col := col\<rparr>) }"

fun replace_list :: "'r regex_lib \<Rightarrow> 'r search_engine \<Rightarrow> string \<Rightarrow> search_match list \<Rightarrow> buffer \<Rightarrow> buffer option" where
  "replace_list rx e r [] b = Some b"
| "replace_list rx e r (m # ms) b = do { (b, _) \<leftarrow> replace_one rx e m r b; replace_list rx e r ms b }"

definition replace_all :: "'r regex_lib \<Rightarrow> 'r search_engine \<Rightarrow> string \<Rightarrow> buffer \<Rightarrow> (buffer \<times> int) option" where
  "replace_all rx e r b = do {
     ms \<leftarrow> find_all rx e b;
     if ms = [] then Some (b, 0)
     else do {
       b \<leftarrow> replace_list rx e r (rev ms) b;
       Some (b, to_int (length ms)) } }"

subsection \<open>Positions agree with the buffer\<close>

lemma line_index_step:
  "Suc k < length (split_lines t) \<Longrightarrow> line_index t ! Suc k = line_index t ! k + length (split_lines t ! k) + 1"
  using next_start [of k t 0] by (simp add: line_index_def)

lemma line_index_mono:
  "j < k \<Longrightarrow> k < length (split_lines t) \<Longrightarrow> line_index t ! j + length (split_lines t ! j) + 1 \<le> line_index t ! k"
proof (induction k)
  case (Suc k)
  then show ?case
    using line_index_step [of k t] by (cases "j = k") auto
qed simp

lemma line_index_last:
  "line_index t ! (length (split_lines t) - 1) + length (split_lines t ! (length (split_lines t) - 1)) = length t"
proof -
  have "last (0 # ends_from 0 t) = (0 # ends_from 0 t) ! count_list t (CHR 0x0A)"
    by (subst last_conv_nth) (simp_all add: length_ends_from)
  then show ?thesis
    using last_line_start [of 0 t] by (simp add: line_index_def last_conv_nth length_split_lines split: if_splits)
qed

lemma pos_at_line:
  "off \<le> length t \<Longrightarrow> nat (p_line (pos_at t off)) < length (split_lines t) \<and>
   line_index t ! nat (p_line (pos_at t off)) \<le> off \<and>
   off \<le> line_index t ! nat (p_line (pos_at t off)) + length (split_lines t ! nat (p_line (pos_at t off)))"
proof -
  assume off: "off \<le> length t"
  let ?u = "take off t" and ?k = "count_list (take off t) (CHR 0x0A)"
  have k: "?k < length (split_lines t)"
    by (simp add: length_split_lines) (metis append_take_drop_id count_list_append less_Suc_eq_le le_add1)
  have "split_lines t ! ?k = last (split_lines ?u) @ hd (split_lines (drop off t))"
    by (subst split_take_drop [of t off]) (simp add: nth_append length_split_lines)
  then show ?thesis
    using k line_index_pos_at [OF off] by (auto simp: pos_at_def)
qed

lemma pos_at_unique:
  assumes "k < length (split_lines t)" and "line_index t ! k \<le> off" and "off \<le> line_index t ! k + length (split_lines t ! k)"
    and "off \<le> length t"
  shows "pos_at t off = \<lparr>p_line = int k, p_col = int (off - line_index t ! k)\<rparr>"
proof -
  let ?j = "nat (p_line (pos_at t off))"
  have j: "?j < length (split_lines t)" "line_index t ! ?j \<le> off" "off \<le> line_index t ! ?j + length (split_lines t ! ?j)"
    using pos_at_line [OF assms(4)] by auto
  have "?j = k"
    using line_index_mono [of ?j k t] line_index_mono [of k ?j t] assms j by (cases ?j k rule: linorder_cases) auto
  then show ?thesis
    using line_index_pos_at [OF assms(4)] by (simp add: pos_at_def)
qed

lemma line_length_wf:
  assumes "buf_wf b" and "k < length (split_lines (gap_text b))"
  shows "line_length b (int k) = Some (int (length (split_lines (gap_text b) ! k)))"
proof -
  have "length (split_lines (gap_text b) ! k) \<le> length (gap_text b)"
    using length_takeWhile_le [of "\<lambda>c. c \<noteq> CHR 0x0A" "drop (line_index (gap_text b) ! k) (gap_text b)"]
    by (simp add: line_from_index [OF assms(2)])
  then show ?thesis
    using line_span [OF assms(1), of "int k"] assms
    by (auto simp: line_length_def line_count_wf i32_def buf_wf_def)
qed

lemma walk_lines_wf:
  assumes "buf_wf b" and "off \<le> length (gap_text b)" and "k < length (split_lines (gap_text b))"
    and "line_index (gap_text b) ! k \<le> off"
  shows "walk_lines b off (int k) (line_index (gap_text b) ! k) = Some (pos_at (gap_text b) off)"
  using assms(3,4)
proof (induction "length (split_lines (gap_text b)) - k" arbitrary: k)
  case (Suc n)
  let ?t = "gap_text b"
  let ?start = "line_index ?t ! k" and ?len = "length (split_lines ?t ! k)"
  have lt: "int k < line_count b"
    using Suc.prems line_count_wf [OF assms(1)] by simp
  note step = walk_lines.simps [of b off "int k" ?start] line_length_wf [OF assms(1) Suc.prems(1)]
  show ?case
  proof (cases "off \<le> ?start + ?len")
    case True
    have "to_int (off - ?start) = int (off - ?start)"
      using assms(1,2) by (intro to_int_small) (auto simp: buf_wf_def)
    then show ?thesis
      using True lt Suc.prems pos_at_unique [OF Suc.prems True assms(2)] by (simp add: step)
  next
    case False
    have "Suc k < length (split_lines ?t)"
    proof (rule ccontr)
      assume "\<not> ?thesis"
      then have "k = length (split_lines ?t) - 1"
        using Suc.prems by simp
      with line_index_last [of ?t] False assms(2) show False
        by simp
    qed
    then have "walk_lines b off (int (Suc k)) (line_index ?t ! Suc k) = Some (pos_at ?t off)"
      using Suc.hyps(2) False by (intro Suc.hyps(1)) (simp_all add: line_index_step)
    with False lt line_index_step [OF \<open>Suc k < _\<close>] show ?thesis
      by (simp add: step add.commute)
  qed
qed simp

lemma search_offset_to_pos_wf:
  "buf_wf b \<Longrightarrow> off \<le> length (gap_text b) \<Longrightarrow> search_offset_to_pos b off = Some (pos_at (gap_text b) off)"
  using walk_lines_wf [of b off 0] by (simp add: search_offset_to_pos_def line_index_def)

lemma lines_before_wf:
  assumes "buf_wf b" and "k < length (split_lines (gap_text b))" and "j \<le> k"
  shows "lines_before b (int k) (int j) = Some (line_index (gap_text b) ! k - line_index (gap_text b) ! j)"
  using assms(3)
proof (induction "k - j" arbitrary: j)
  case 0
  then show ?case
    by (subst lines_before.simps) simp
next
  case (Suc n)
  then have j: "j < k" "Suc j < length (split_lines (gap_text b))"
    using assms(2) by auto
  have "lines_before b (int k) (int (Suc j)) = Some (line_index (gap_text b) ! k - line_index (gap_text b) ! Suc j)"
    using Suc.hyps j by (intro Suc.hyps(1)) auto
  moreover have "line_index (gap_text b) ! Suc j \<le> line_index (gap_text b) ! k"
    using line_index_mono [of "Suc j" k "gap_text b"] assms(2) j by (cases "Suc j = k") auto
  ultimately show ?case
    using j line_length_wf [OF assms(1), of j] line_index_step [of j "gap_text b"] line_count_wf [OF assms(1)]
    by (subst lines_before.simps) (simp add: add.commute)
qed

lemma search_pos_to_offset_wf:
  assumes "buf_wf b" and "off \<le> length (gap_text b)"
  shows "search_pos_to_offset b (pos_at (gap_text b) off) = Some off"
proof -
  let ?p = "pos_at (gap_text b) off"
  have "0 \<le> p_line ?p" "0 \<le> p_col ?p" "line_index (gap_text b) ! 0 = 0"
    by (auto simp: pos_at_def line_index_def)
  then show ?thesis
    using lines_before_wf [OF assms(1), of "nat (p_line ?p)" 0] pos_at_line [OF assms(2)] line_index_pos_at [OF assms(2)]
    by (auto simp: search_pos_to_offset_def)
qed

text \<open>The search and the buffer agree on positions: for every offset of the text the line-by-line walk of the search
  finds the position that the buffer finds by bisection in its index, and both turn that position back into the
  offset.\<close>

theorem search_positions_agree:
  assumes "buf_wf b" and "off \<le> length (gap_text b)"
  shows "\<exists>p. search_offset_to_pos b off = Some p \<and> offset_to_pos b off = Some p \<and>
    search_pos_to_offset b p = Some off \<and> pos_to_offset b p = Some off"
  using search_offset_to_pos_wf [OF assms] offset_to_pos_wf [OF assms] search_pos_to_offset_wf [OF assms]
    pos_to_offset_wf [OF assms(1)] text_offset_pos_at [OF assms(2)] by simp

subsection \<open>Occurrences\<close>

definition occurs :: "string \<Rightarrow> string \<Rightarrow> nat \<Rightarrow> bool" where
  "occurs h n i \<longleftrightarrow> i + length n \<le> length h \<and> take (length n) (drop i h) = n"

lemma find_from_Some:
  "find_from h n i = Some k \<Longrightarrow> i \<le> k \<and> occurs h n k \<and> (\<forall>j. i \<le> j \<and> j < k \<longrightarrow> \<not> occurs h n j)"
proof (induction h n i rule: find_from.induct)
  case (1 h n i)
  show ?case
  proof (cases "occurs h n i")
    case True
    with 1(2) show ?thesis
      by (subst (asm) find_from.simps) (auto simp: occurs_def)
  next
    case False
    then have "i + length n \<le> length h" "take (length n) (drop i h) \<noteq> n" "find_from h n (i + 1) = Some k"
      using 1(2) by (subst (asm) find_from.simps; auto simp: occurs_def split: if_splits)+
    with 1(1) False show ?thesis
      by (metis Suc_eq_plus1 Suc_le_eq le_eq_less_or_eq less_imp_le)
  qed
qed

lemma find_from_None: "find_from h n i = None \<Longrightarrow> i \<le> j \<Longrightarrow> \<not> occurs h n j"
proof (induction h n i rule: find_from.induct)
  case (1 h n i)
  show ?case
  proof (cases "i = j \<or> \<not> i + length n \<le> length h")
    case True
    with 1(2,3) show ?thesis
      by (subst (asm) find_from.simps) (auto simp: occurs_def split: if_splits)
  next
    case False
    then have "take (length n) (drop i h) \<noteq> n" "find_from h n (i + 1) = None"
      using 1(2) by (subst (asm) find_from.simps; auto split: if_splits)+
    with 1(1,3) False show ?thesis
      by auto
  qed
qed

lemma rfind_down_Some:
  "i + length n \<le> length h \<Longrightarrow> rfind_down h n i = Some k \<Longrightarrow>
   k \<le> i \<and> occurs h n k \<and> (\<forall>j. k < j \<and> j \<le> i \<longrightarrow> \<not> occurs h n j)"
proof (induction i)
  case 0
  then show ?case
    by (subst (asm) rfind_down.simps) (auto simp: occurs_def split: if_splits)
next
  case (Suc i)
  then show ?case
    by (subst (asm) rfind_down.simps [of h n "Suc i"])
      (fastforce simp: occurs_def le_Suc_eq split: if_splits)
qed

lemma rfind_down_None:
  "i + length n \<le> length h \<Longrightarrow> rfind_down h n i = None \<Longrightarrow> j \<le> i \<Longrightarrow> \<not> occurs h n j"
proof (induction i)
  case 0
  then show ?case
    by (subst (asm) rfind_down.simps) (auto simp: occurs_def split: if_splits)
next
  case (Suc i)
  then show ?case
    by (subst (asm) rfind_down.simps [of h n "Suc i"])
      (auto simp: occurs_def le_Suc_eq split: if_splits)
qed

lemma rfind_from_Some:
  "rfind_from h n i = Some k \<Longrightarrow> k \<le> i \<and> occurs h n k \<and> (\<forall>j. k < j \<and> j \<le> i \<longrightarrow> \<not> occurs h n j)"
  using rfind_down_Some [of "min i (length h - length n)" n h k]
  by (fastforce simp: rfind_from_def occurs_def split: if_splits)

lemma rfind_from_None: "rfind_from h n i = None \<Longrightarrow> j \<le> i \<Longrightarrow> \<not> occurs h n j"
  using rfind_down_None [of "min i (length h - length n)" n h j]
  by (fastforce simp: rfind_from_def occurs_def split: if_splits)

text \<open>Without the test of whole words the loop finds disjoint occurrences, and every occurrence meets one of them.\<close>

lemma plain_matches_spec:
  assumes "\<not> whole_word opts" and "n \<noteq> []"
  shows "\<exists>ks. plain_matches opts h n i = List.map (\<lambda>k. (k, length n)) ks \<and> (\<forall>k\<in>set ks. i \<le> k \<and> occurs h n k) \<and>
    sorted_wrt (\<lambda>j k. j + length n \<le> k) ks \<and> (\<forall>j\<ge>i. occurs h n j \<longrightarrow> (\<exists>k\<in>set ks. k \<le> j \<and> j < k + length n))"
  using assms
proof (induction opts h n i rule: plain_matches.induct)
  case (1 opts h n i)
  show ?case
  proof (cases "find_from h n i")
    case None
    then show ?thesis
      using find_from_None [OF None] by (intro exI [of _ "[]"]) (subst plain_matches.simps, auto)
  next
    case (Some k)
    from 1(1) [OF Some] 1(2,3) obtain ks where ks:
        "plain_matches opts h n (k + length n) = List.map (\<lambda>k. (k, length n)) ks"
        "\<forall>j\<in>set ks. k + length n \<le> j \<and> occurs h n j" "sorted_wrt (\<lambda>j k. j + length n \<le> k) ks"
        "\<forall>j\<ge>k + length n. occurs h n j \<longrightarrow> (\<exists>k\<in>set ks. k \<le> j \<and> j < k + length n)"
      by auto
    have k: "i \<le> k" "occurs h n k" "\<And>j. i \<le> j \<Longrightarrow> j < k \<Longrightarrow> \<not> occurs h n j"
      using find_from_Some [OF Some] by auto
    have "plain_matches opts h n i = List.map (\<lambda>k. (k, length n)) (k # ks)"
      by (subst plain_matches.simps) (simp add: Some ks(1) word_ok_def 1(2,3))
    moreover have "\<exists>k'\<in>set (k # ks). k' \<le> j \<and> j < k' + length n" if "i \<le> j" "occurs h n j" for j
      using that k ks(4) by (metis leI list.set_intros(1,2))
    moreover have "\<forall>j\<in>set (k # ks). i \<le> j \<and> occurs h n j"
      using k ks(2) by auto
    ultimately show ?thesis
      using ks(2,3) by (intro exI [of _ "k # ks"]) auto
  qed
qed

definition match_at :: "string \<Rightarrow> nat \<Rightarrow> nat \<Rightarrow> search_match" where
  "match_at t n s = \<lparr>m_start = pos_at t s, m_end = pos_at t (s + n)\<rparr>"

lemma match_of_wf:
  "buf_wf b \<Longrightarrow> s + n \<le> length (gap_text b) \<Longrightarrow> match_of b s (s + n) = Some (match_at (gap_text b) n s)"
  by (simp add: match_of_def match_at_def search_offset_to_pos_wf)

lemma length_fold_case [simp]: "length (fold_case opts t) = length t"
  by (simp add: fold_case_def)

lemma fold_case_empty [simp]: "fold_case opts t = [] \<longleftrightarrow> t = []"
  by (simp add: fold_case_def)

lemma those_Some: "(\<And>x. x \<in> set xs \<Longrightarrow> f x = Some (g x)) \<Longrightarrow> those (List.map f xs) = Some (List.map g xs)"
  by (induction xs) auto

text \<open>The occurrences of the query in the text, in lower case when the case does not matter.\<close>

definition found :: "'r search_engine \<Rightarrow> buffer \<Rightarrow> nat \<Rightarrow> bool" where
  "found e b = occurs (fold_case (s_opts e) (gap_text b)) (fold_case (s_opts e) (s_query e))"

text \<open>A plain search: the query is valid and not empty, and no option but the case is set.\<close>

definition plain :: "'r search_engine \<Rightarrow> bool" where
  "plain e \<longleftrightarrow> s_valid e \<and> s_query e \<noteq> [] \<and> \<not> use_regex (s_opts e) \<and> \<not> whole_word (s_opts e)"

lemma found_le: "found e b s \<Longrightarrow> s + length (s_query e) \<le> length (gap_text b)"
  by (simp add: found_def occurs_def)

text \<open>C16. \<open>find_all\<close> of a plain query returns, in the order of the text, disjoint matches, each of which is an occurrence
  of the query, and misses none: every occurrence of the query in the text shares a character with a match.\<close>

theorem find_all_complete:
  assumes "buf_wf b" and "plain e"
  shows "\<exists>ks. find_all rx e b = Some (List.map (match_at (gap_text b) (length (s_query e))) ks) \<and>
    (\<forall>k\<in>set ks. found e b k) \<and> sorted_wrt (\<lambda>j k. j + length (s_query e) \<le> k) ks \<and>
    (\<forall>j. found e b j \<longrightarrow> (\<exists>k\<in>set ks. k \<le> j \<and> j < k + length (s_query e)))"
proof -
  let ?h = "fold_case (s_opts e) (gap_text b)" and ?n = "fold_case (s_opts e) (s_query e)"
  obtain ks where ks: "plain_matches (s_opts e) ?h ?n 0 = List.map (\<lambda>k. (k, length ?n)) ks"
      "\<forall>k\<in>set ks. 0 \<le> k \<and> occurs ?h ?n k" "sorted_wrt (\<lambda>j k. j + length ?n \<le> k) ks"
      "\<forall>j\<ge>0. occurs ?h ?n j \<longrightarrow> (\<exists>k\<in>set ks. k \<le> j \<and> j < k + length ?n)"
    using plain_matches_spec [of "s_opts e" ?n ?h 0] assms(2) by (auto simp: plain_def)
  have "those (List.map (\<lambda>k. match_of b k (k + length (s_query e))) ks) =
      Some (List.map (match_at (gap_text b) (length (s_query e))) ks)"
    using ks(2) by (intro those_Some match_of_wf [OF assms(1)]) (simp add: occurs_def)
  then have "find_all rx e b = Some (List.map (match_at (gap_text b) (length (s_query e))) ks)"
    using assms ks(1) by (simp add: find_all_def plain_def buffer_text_wf buf_wf_def comp_def)
  with ks(2-4) show ?thesis
    by (auto simp: found_def)
qed

lemma plain_forward:
  assumes "buf_wf b" and "plain e" and "start \<le> length (gap_text b)"
  shows "\<exists>r. plain_search_forward e b start = Some (map_option (match_at (gap_text b) (length (s_query e))) r) \<and>
    (case r of None \<Rightarrow> \<forall>j\<ge>start. \<not> found e b j
     | Some k \<Rightarrow> start \<le> k \<and> found e b k \<and> (\<forall>j. start \<le> j \<and> j < k \<longrightarrow> \<not> found e b j))"
proof (cases "find_from (fold_case (s_opts e) (gap_text b)) (fold_case (s_opts e) (s_query e)) start")
  case None
  have "plain_search_forward e b start = Some None"
    using None assms by (simp add: plain_search_forward_def buffer_text_wf buf_wf_def)
  then show ?thesis
    using find_from_None [OF None] by (intro exI [of _ None]) (simp add: found_def)
next
  case (Some k)
  have k: "start \<le> k \<and> found e b k \<and> (\<forall>j. start \<le> j \<and> j < k \<longrightarrow> \<not> found e b j)"
    using find_from_Some [OF Some] by (simp add: found_def)
  then have "plain_search_forward e b start = Some (Some (match_at (gap_text b) (length (s_query e)) k))"
    using Some assms match_of_wf [OF assms(1) found_le, of e k]
    by (simp add: plain_search_forward_def buffer_text_wf buf_wf_def plain_def word_ok_def)
  with k show ?thesis
    by (intro exI [of _ "Some k"]) simp
qed

lemma plain_backward:
  assumes "buf_wf b" and "plain e" and "start \<le> length (gap_text b)"
  shows "\<exists>r. plain_search_backward e b start = Some (map_option (match_at (gap_text b) (length (s_query e))) r) \<and>
    (case r of None \<Rightarrow> \<forall>j. j + length (s_query e) \<le> start \<longrightarrow> \<not> found e b j
     | Some k \<Rightarrow> k + length (s_query e) \<le> start \<and> found e b k \<and>
         (\<forall>j. k < j \<and> j + length (s_query e) \<le> start \<longrightarrow> \<not> found e b j))"
proof (cases "start < length (s_query e)")
  case True
  then have "plain_search_backward e b start = Some None"
    using assms by (simp add: plain_search_backward_def buffer_text_wf buf_wf_def)
  with True show ?thesis
    by (intro exI [of _ None]) simp
next
  case False
  let ?h = "fold_case (s_opts e) (gap_text b)" and ?n = "fold_case (s_opts e) (s_query e)"
  show ?thesis
  proof (cases "rfind_from ?h ?n (start - length (s_query e))")
    case None
    then have "plain_search_backward e b start = Some None"
      using False assms by (simp add: plain_search_backward_def buffer_text_wf buf_wf_def)
    then show ?thesis
      using rfind_from_None [OF None] False by (intro exI [of _ None]) (simp add: found_def)
  next
    case (Some k)
    have k: "k + length (s_query e) \<le> start \<and> found e b k \<and>
        (\<forall>j. k < j \<and> j + length (s_query e) \<le> start \<longrightarrow> \<not> found e b j)"
      using rfind_from_Some [OF Some] False by (auto simp: found_def)
    then have "plain_search_backward e b start = Some (Some (match_at (gap_text b) (length (s_query e)) k))"
      using Some False assms match_of_wf [OF assms(1) found_le, of e k]
      by (simp add: plain_search_backward_def buffer_text_wf buf_wf_def plain_def word_ok_def)
    with k show ?thesis
      by (intro exI [of _ "Some k"]) simp
  qed
qed

text \<open>\<open>find_next\<close> of a plain query from a position returns the first occurrence at or after it; when there is none
  and wrapping is on, the first occurrence of the text; and nothing only when no occurrence is left to find.\<close>

theorem find_next_first:
  assumes "buf_wf b" and "plain e" and "off \<le> length (gap_text b)"
  shows "\<exists>r. find_next rx e b (pos_at (gap_text b) off) = Some (map_option (match_at (gap_text b) (length (s_query e))) r) \<and>
    (case r of
       None \<Rightarrow> \<forall>j. found e b j \<longrightarrow> j < off \<and> \<not> wrap_around (s_opts e)
     | Some k \<Rightarrow> found e b k \<and>
         (off \<le> k \<and> (\<forall>j. off \<le> j \<and> j < k \<longrightarrow> \<not> found e b j) \<or>
          wrap_around (s_opts e) \<and> (\<forall>j. found e b j \<longrightarrow> k \<le> j \<and> j < off)))"
proof -
  let ?m = "map_option (match_at (gap_text b) (length (s_query e)))"
  obtain r where r: "plain_search_forward e b off = Some (?m r)"
      "case r of None \<Rightarrow> \<forall>j\<ge>off. \<not> found e b j
       | Some k \<Rightarrow> off \<le> k \<and> found e b k \<and> (\<forall>j. off \<le> j \<and> j < k \<longrightarrow> \<not> found e b j)"
    using plain_forward [OF assms] by blast
  obtain r0 where r0: "plain_search_forward e b 0 = Some (?m r0)"
      "case r0 of None \<Rightarrow> \<forall>j\<ge>0. \<not> found e b j
       | Some k \<Rightarrow> 0 \<le> k \<and> found e b k \<and> (\<forall>j. 0 \<le> j \<and> j < k \<longrightarrow> \<not> found e b j)"
    using plain_forward [OF assms(1,2), of 0] by auto
  have eq: "find_next rx e b (pos_at (gap_text b) off) =
      Some (if r = None \<and> wrap_around (s_opts e) then ?m r0 else ?m r)"
    using assms r(1) r0(1) by (simp add: find_next_def plain_def search_pos_to_offset_wf)
  show ?thesis
  proof (cases "r = None \<and> wrap_around (s_opts e)")
    case True
    with r(2) r0(2) show ?thesis
      unfolding eq by (intro exI [of _ r0]) (auto split: option.splits intro: leI)
  next
    case False
    with r(2) show ?thesis
      unfolding eq by (intro exI [of _ r]) (auto split: option.splits intro: leI)
  qed
qed

text \<open>\<open>find_prev\<close> of a plain query from a position returns the last occurrence that ends at or before it; when there
  is none and wrapping is on, the last occurrence of the text; and nothing only when no occurrence is left to find.\<close>

theorem find_prev_last:
  assumes "buf_wf b" and "plain e" and "off \<le> length (gap_text b)"
  shows "\<exists>r. find_prev e b (pos_at (gap_text b) off) = Some (map_option (match_at (gap_text b) (length (s_query e))) r) \<and>
    (case r of
       None \<Rightarrow> \<forall>j. found e b j \<longrightarrow> off < j + length (s_query e) \<and> \<not> wrap_around (s_opts e)
     | Some k \<Rightarrow> found e b k \<and>
         (k + length (s_query e) \<le> off \<and> (\<forall>j. k < j \<and> j + length (s_query e) \<le> off \<longrightarrow> \<not> found e b j) \<or>
          wrap_around (s_opts e) \<and> (\<forall>j. found e b j \<longrightarrow> j \<le> k \<and> off < j + length (s_query e))))"
proof -
  let ?m = "map_option (match_at (gap_text b) (length (s_query e)))"
  obtain r where r: "plain_search_backward e b off = Some (?m r)"
      "case r of None \<Rightarrow> \<forall>j. j + length (s_query e) \<le> off \<longrightarrow> \<not> found e b j
       | Some k \<Rightarrow> k + length (s_query e) \<le> off \<and> found e b k \<and>
           (\<forall>j. k < j \<and> j + length (s_query e) \<le> off \<longrightarrow> \<not> found e b j)"
    using plain_backward [OF assms] by blast
  obtain r0 where r0: "plain_search_backward e b (length (gap_text b)) = Some (?m r0)"
      "case r0 of None \<Rightarrow> \<forall>j. j + length (s_query e) \<le> length (gap_text b) \<longrightarrow> \<not> found e b j
       | Some k \<Rightarrow> k + length (s_query e) \<le> length (gap_text b) \<and> found e b k \<and>
           (\<forall>j. k < j \<and> j + length (s_query e) \<le> length (gap_text b) \<longrightarrow> \<not> found e b j)"
    using plain_backward [OF assms(1,2) le_refl] by blast
  have eq: "find_prev e b (pos_at (gap_text b) off) =
      Some (if r = None \<and> wrap_around (s_opts e) then ?m r0 else ?m r)"
    using assms r(1) r0(1) by (simp add: find_prev_def plain_def search_pos_to_offset_wf buffer_text_wf buf_wf_def)
  show ?thesis
  proof (cases "r = None \<and> wrap_around (s_opts e)")
    case True
    then have none: "off < j + length (s_query e)" if "found e b j" for j
      using r(2) that by (auto intro: not_le_imp_less)
    show ?thesis
    proof (cases r0)
      case None
      with r0(2) found_le [of e b] True show ?thesis
        unfolding eq by (intro exI [of _ None]) auto
    next
      case (Some k)
      with r0(2) found_le [of e b] have "found e b k" "found e b j \<Longrightarrow> j \<le> k" for j
        by (auto intro: leI)
      with True Some none show ?thesis
        unfolding eq by (intro exI [of _ "Some k"]) simp
    qed
  next
    case False
    show ?thesis
    proof (cases r)
      case None
      with r(2) False show ?thesis
        unfolding eq by (intro exI [of _ None]) (auto intro: not_le_imp_less)
    next
      case (Some k)
      with r(2) show ?thesis
        unfolding eq by (intro exI [of _ "Some k"]) simp
    qed
  qed
qed

text \<open>
  With whole words, the search gives up at the first occurrence that is none: \<open>find_next\<close> finds nothing in a
  text in which \<open>find_all\<close> has a match.
\<close>

lemma whole_word_search_gives_up:
  fixes rx :: "'r regex_lib" and e :: "'r search_engine"
  assumes "buf_wf b" and "gap_text b = ''xa a''"
    and e: "s_query e = ''a''" "s_valid e"
      "s_opts e = \<lparr>case_sensitive = True, whole_word = True, use_regex = False, wrap_around = True\<rparr>"
  shows "find_next rx e b (pos_at (gap_text b) 0) = Some None \<and>
    find_all rx e b = Some [match_at (gap_text b) 1 3]"
proof -
  have find: "find_from ''xa a'' ''a'' 0 = Some 1" "find_from ''xa a'' ''a'' (Suc (Suc 0)) = Some 3" "find_from ''xa a'' ''a'' 4 = None"
    by (simp_all add: find_from.simps)
  have w: "\<not> word_ok (s_opts e) ''xa a'' 1 1" "word_ok (s_opts e) ''xa a'' 3 1"
    by (simp_all add: word_ok_def matches_word_boundary_def is_word_def is_alnum_def e)
  have fold: "fold_case (s_opts e) t = t" for t
    by (simp add: fold_case_def e)
  have plain_opt: "\<not> use_regex (s_opts e)"
    by (simp add: e)
  have t: "buffer_text b = Some ''xa a''"
    using assms(1,2) by (simp add: buffer_text_wf buf_wf_def)
  have "plain_search_forward e b 0 = Some None"
    using w(1) by (simp add: plain_search_forward_def t fold e(1) find(1))
  then have "find_next rx e b (pos_at (gap_text b) 0) = Some None"
    using search_pos_to_offset_wf [OF assms(1), of 0] by (simp add: find_next_def e)
  moreover have "plain_matches (s_opts e) ''xa a'' ''a'' 4 = []"
    by (subst plain_matches.simps) (simp add: find)
  then have "plain_matches (s_opts e) ''xa a'' ''a'' (Suc (Suc 0)) = [(3, 1)]"
    using w by (subst plain_matches.simps) (simp add: find)
  then have "plain_matches (s_opts e) ''xa a'' ''a'' 0 = [(3, 1)]"
    using w by (subst plain_matches.simps) (simp add: find)
  then have "find_all rx e b = Some [match_at (gap_text b) 1 3]"
    using match_of_wf [OF assms(1), of 3 1] by (simp add: find_all_def e(1,2) t fold assms(2) plain_opt Let_def)
  ultimately show ?thesis
    by simp
qed

lemma pos_less_pos_at:
  assumes "s < e" and "e \<le> length t"
  shows "pos_less (pos_at t s) (pos_at t e)"
proof -
  have "take e t = take s t @ take (e - s) (drop s t)"
    using assms by (metis le_add_diff_inverse less_imp_le take_add)
  then have "p_line (pos_at t s) \<le> p_line (pos_at t e)"
    by (simp add: pos_at_def)
  then show ?thesis
    using line_index_pos_at [of s t] line_index_pos_at [of e t] assms by (auto simp: pos_less_def pos_at_def)
qed

text \<open>
  Replacing inherits the erasure of the buffer: a match of \<open>n\<close> characters takes the \<open>2 * n\<close> characters after it along.
\<close>

lemma replace_one_text:
  assumes "buf_wf b" and "plain e" and "found e b s" and "r \<noteq> []"
    and "s + 3 * length (s_query e) \<le> length (gap_text b)" and "length (gap_text b) + length r < 2 ^ 31 - 1"
  shows "\<exists>b' p. replace_one rx e (match_at (gap_text b) (length (s_query e)) s) r b = Some (b', p) \<and> buf_wf b' \<and>
    gap_text b' = take s (gap_text b) @ r @ drop (s + 3 * length (s_query e)) (gap_text b)"
proof -
  let ?n = "length (s_query e)" and ?t = "gap_text b"
  have n: "0 < ?n" "s < s + ?n" "s + ?n \<le> length ?t"
    using assms(2,5) by (auto simp: plain_def)
  obtain b1 where b1: "buffer_erase (pos_at ?t s) (pos_at ?t (s + ?n)) b = Some b1" "buf_wf b1"
      "gap_text b1 = text_erase s (3 * ?n) ?t"
    using buffer_erase_wf [OF assms(1) pos_less_pos_at [OF n(2,3)], of s "s + ?n"] n assms(5)
    by (auto simp: text_offset_pos_at)
  have s: "take s (gap_text b1) = take s ?t" "s \<le> length (gap_text b1)" "length (gap_text b1) \<le> length ?t"
    using assms(5) unfolding b1(3) by (auto simp: text_erase_def)
  then have at: "text_offset (gap_text b1) (pos_at ?t s) = s"
    using text_offset_pos_at [of s "gap_text b1"] by (simp add: pos_at_def)
  obtain b2 where b2: "buffer_insert (pos_at ?t s) r b1 = Some b2" "buf_wf b2"
      "gap_text b2 = text_insert s r (text_erase s (3 * ?n) ?t)"
    using buffer_insert_wf [OF b1(2) assms(4), of "pos_at ?t s"] s assms(6) unfolding at unfolding b1(3) by auto
  have "p_col (pos_at ?t s) + to_int (length r) \<le> 2147483647" "0 \<le> p_col (pos_at ?t s) + to_int (length r)"
    using line_index_pos_at [of s ?t] n(3) assms(6) to_int_small [of "length r"] by (auto simp: pos_at_def)
  then show ?thesis
    using b1(1) b2 assms(2,5)
    by (simp add: replace_one_def replacement_text_def plain_def match_at_def i32_def text_insert_def text_erase_def)
qed


subsection \<open>A search\<close>

definition sample_engine :: "nat search_engine" where
  "sample_engine = \<lparr>s_query = ''c'', s_opts = \<lparr>case_sensitive = True, whole_word = False, use_regex = False,
     wrap_around = True\<rparr>, s_regex = 0, s_valid = True\<rparr>"

definition no_regex :: "nat regex_lib" where
  "no_regex = \<lparr>rx_default = 0, rx_compile = \<lambda>_ _. None, rx_matches = \<lambda>_ _. [], rx_search = \<lambda>_ _. None,
     rx_expand = \<lambda>_ _ _. None\<rparr>"

lemma sample_search: "plain sample_engine" "found sample_engine sample j \<longleftrightarrow> j = 3"
proof -
  show "plain sample_engine"
    by (simp add: sample_engine_def plain_def)
  have "found sample_engine sample j \<longleftrightarrow> j < 5 \<and> take 1 (drop j (gap_text sample)) = ''c''"
    by (auto simp: found_def occurs_def sample_engine_def fold_case_def sample_wf(2))
  also have "\<dots> \<longleftrightarrow> j = 3"
    by (auto simp: sample_wf(2) less_Suc_eq numeral_eq_Suc)
  finally show "found sample_engine sample j \<longleftrightarrow> j = 3" .
qed

lemma sample_query: "s_query sample_engine = ''c''" "wrap_around (s_opts sample_engine)"
  by (simp_all add: sample_engine_def)

lemma find_all_complete_witness:
  "\<exists>ks. find_all no_regex sample_engine sample = Some (List.map (match_at (gap_text sample) 1) ks) \<and> set ks = {3}"
proof -
  obtain ks where ks: "find_all no_regex sample_engine sample = Some (List.map (match_at (gap_text sample) 1) ks)"
      "\<forall>k\<in>set ks. k = 3" "\<exists>k\<in>set ks. k \<le> 3 \<and> 3 < k + 1"
    using find_all_complete [OF sample_wf(1) sample_search(1), of no_regex]
    unfolding sample_search(2) sample_query by auto
  then have "set ks = {3}"
    by auto
  with ks(1) show ?thesis
    by blast
qed

lemma find_next_first_witness:
  "find_next no_regex sample_engine sample (pos_at (gap_text sample) 4) = Some (Some (match_at (gap_text sample) 1 3))"
proof -
  have "4 \<le> length (gap_text sample)"
    by (simp add: sample_wf(2))
  from find_next_first [OF sample_wf(1) sample_search(1) this, of no_regex] show ?thesis
    by (auto simp: sample_search(2) sample_query split: option.splits)
qed

end
