(* ===== verification/Task_Queue.thy ===== *)
theory Task_Queue
  imports Prelude
begin

text \<open>
  The agent's task queue (\<open>bin/agent/task_queue.h\<close>, \<open>bin/agent/task_queue.cpp\<close>): a binary max-heap
  in a vector, ordered by priority and then by id.  Every public operation holds the mutex from its
  first to its last statement, so concurrent callers see a sequence of whole operations.  Indices
  are \<open>nat\<close>: they stay below the size of a vector in memory, where \<open>2 * i + 2\<close> does not wrap.  The
  heap helpers are called with an index of the vector, and \<open>parent\<close>, \<open>left\<close> and \<open>right\<close> are
  compared with its size before they are used.
\<close>

subsection \<open>Tasks and their order\<close>

datatype task_priority = Low | Normal | High | Critical

fun priority_code :: "task_priority \<Rightarrow> u8" where
  "priority_code Low = 0"
| "priority_code Normal = 1"
| "priority_code High = 2"
| "priority_code Critical = 3"

lemma priority_code_inject [simp]: "priority_code p = priority_code q \<longleftrightarrow> p = q"
  by (cases p; cases q) simp_all

instantiation task_priority :: linorder
begin

definition less_eq_task_priority where
  "(p :: task_priority) \<le> q \<longleftrightarrow> priority_code p \<le> priority_code q"

definition less_task_priority where
  "(p :: task_priority) < q \<longleftrightarrow> priority_code p < priority_code q"

instance
  by standard (auto simp: less_eq_task_priority_def less_task_priority_def dest: le_neq_trans)

end

datatype task_type = Inference | Training | Preprocess | Custom

record task =
  task_id :: u64
  priority :: task_priority
  kind :: task_type
  payload :: string

definition higher :: "task \<Rightarrow> task \<Rightarrow> bool" where
  "higher a b = (if priority a \<noteq> priority b then priority a > priority b else task_id a < task_id b)"

text \<open>The order as one number: smaller comes first.\<close>

definition rank :: "task \<Rightarrow> int" where
  "rank t = uint (task_id t) - 2 ^ 64 * uint (priority_code (priority t))"

lemma higher_rank: "higher a b \<longleftrightarrow> rank a < rank b"
proof -
  have b: "uint (task_id a) < 18446744073709551616" "uint (task_id b) < 18446744073709551616" "0 \<le> uint (task_id a)" "0 \<le> uint (task_id b)"
    using uint_lt2p [of "task_id a"] uint_lt2p [of "task_id b"] by simp_all
  show ?thesis
    by (cases "priority a"; cases "priority b";
        simp add: higher_def rank_def less_task_priority_def word_less_def; use b in linarith)
qed

subsection \<open>The heap helpers\<close>

definition parent :: "nat \<Rightarrow> nat" where
  "parent i = (i - 1) div 2"

definition left :: "nat \<Rightarrow> nat" where
  "left i = 2 * i + 1"

definition right :: "nat \<Rightarrow> nat" where
  "right i = 2 * i + 2"

definition vec_swap :: "'a list \<Rightarrow> nat \<Rightarrow> nat \<Rightarrow> 'a list" where
  "vec_swap xs i j = xs[i := xs ! j, j := xs ! i]"

lemma parent_less: "0 < i \<Longrightarrow> parent i < i"
  by (auto simp: parent_def)

lemma length_vec_swap [simp]: "length (vec_swap xs i j) = length xs"
  by (simp add: vec_swap_def)

function sift_up :: "task list \<Rightarrow> nat \<Rightarrow> task list" where
  "sift_up heap i =
     (if i > 0
      then (let p = parent i in
            if higher (heap ! i) (heap ! p) then sift_up (vec_swap heap i p) p else heap)
      else heap)"
  by pat_completeness auto
termination
  by (relation "measure snd") (auto simp: parent_less)

declare sift_up.simps [simp del]

text \<open>The child of \<open>i\<close> to go on with, or \<open>i\<close>.\<close>

definition best_child :: "task list \<Rightarrow> nat \<Rightarrow> nat" where
  "best_child heap i =
     (let n = length heap;
          best = (if left i < n \<and> higher (heap ! left i) (heap ! i) then left i else i)
      in if right i < n \<and> higher (heap ! right i) (heap ! best) then right i else best)"

lemma best_child_cases:
  "best_child heap i = i \<or> best_child heap i = left i \<and> left i < length heap
     \<or> best_child heap i = right i \<and> right i < length heap"
  by (simp add: best_child_def Let_def)

function sift_down :: "task list \<Rightarrow> nat \<Rightarrow> task list" where
  "sift_down heap i =
     (let best = best_child heap i in
      if best = i then heap else sift_down (vec_swap heap i best) best)"
  by pat_completeness auto
termination
proof (relation "measure (\<lambda>(heap, i). length heap - i)")
  fix heap i best
  assume "best = best_child heap i" "best \<noteq> i"
  with best_child_cases [of heap i] have "i < best" "best < length heap"
    by (auto simp: left_def right_def)
  then show "((vec_swap heap i best, best), heap, i) \<in> measure (\<lambda>(heap, i). length heap - i)"
    by simp
qed simp

declare sift_down.simps [simp del]

subsection \<open>The operations\<close>

record task_queue =
  capacity :: nat
  heap :: "task list"

definition new_queue :: "nat \<Rightarrow> task_queue" where
  "new_queue cap = \<lparr>capacity = cap, heap = []\<rparr>"

definition push :: "task \<Rightarrow> task_queue \<Rightarrow> task_queue \<times> (string + unit)" where
  "push t q =
     (if length (heap q) \<ge> capacity q then (q, Inl ''task queue at capacity'')
      else (q\<lparr>heap := sift_up (heap q @ [t]) (length (heap q @ [t]) - 1)\<rparr>, Inr ()))"

definition pop :: "task_queue \<Rightarrow> task_queue \<times> (string + task)" where
  "pop q =
     (if heap q = [] then (q, Inl ''task queue is empty'')
      else (let top = heap q ! 0;
                h = butlast ((heap q)[0 := last (heap q)])
            in (q\<lparr>heap := if h \<noteq> [] then sift_down h 0 else h\<rparr>, Inr top)))"

definition peek :: "task_queue \<Rightarrow> string + task" where
  "peek q = (if heap q = [] then Inl ''task queue is empty'' else Inr (heap q ! 0))"

text \<open>\<open>std::find_if\<close>: the first index, or the length.\<close>

fun find_index :: "('a \<Rightarrow> bool) \<Rightarrow> 'a list \<Rightarrow> nat" where
  "find_index P [] = 0"
| "find_index P (x # xs) = (if P x then 0 else Suc (find_index P xs))"

definition cancel :: "u64 \<Rightarrow> task_queue \<Rightarrow> task_queue \<times> bool" where
  "cancel tid q =
     (let idx = find_index (\<lambda>t. task_id t = tid) (heap q) in
      if idx = length (heap q) then (q, False)
      else if idx = length (heap q) - 1 then (q\<lparr>heap := butlast (heap q)\<rparr>, True)
      else (let h = butlast ((heap q)[idx := last (heap q)])
            in (q\<lparr>heap := if idx > 0 \<and> higher (h ! idx) (h ! parent idx)
                         then sift_up h idx else sift_down h idx\<rparr>, True)))"

definition queue_size :: "task_queue \<Rightarrow> nat" where
  "queue_size q = length (heap q)"

subsection \<open>The heap order\<close>

definition ordered :: "task list \<Rightarrow> nat \<Rightarrow> bool" where
  "ordered h j \<longleftrightarrow> rank (h ! parent j) \<le> rank (h ! j)"

definition heap_ok :: "task list \<Rightarrow> bool" where
  "heap_ok h \<longleftrightarrow> (\<forall>j. 0 < j \<and> j < length h \<longrightarrow> ordered h j)"

text \<open>The children of \<open>i\<close> are ordered against the parent of \<open>i\<close>.\<close>

definition bridged :: "task list \<Rightarrow> nat \<Rightarrow> bool" where
  "bridged h i \<longleftrightarrow> (\<forall>j. 0 < i \<and> 0 < j \<and> j < length h \<and> parent j = i \<longrightarrow> rank (h ! parent i) \<le> rank (h ! j))"

lemma nth_vec_swap:
  "i < length xs \<Longrightarrow> j < length xs \<Longrightarrow> k < length xs \<Longrightarrow>
   vec_swap xs i j ! k = (if k = j then xs ! i else if k = i then xs ! j else xs ! k)"
  by (simp add: vec_swap_def nth_list_update)

lemma mset_vec_swap [simp]:
  "i < length xs \<Longrightarrow> j < length xs \<Longrightarrow> mset (vec_swap xs i j) = mset xs"
  unfolding vec_swap_def by (cases "i = j") (simp_all add: mset_swap)

lemma sift_up_heap:
  assumes "i < length h"
    and "\<forall>j. 0 < j \<and> j < length h \<and> j \<noteq> i \<longrightarrow> ordered h j" "bridged h i"
  shows "heap_ok (sift_up h i) \<and> mset (sift_up h i) = mset h"
  using assms
proof (induction h i rule: sift_up.induct)
  case (1 h i)
  let ?p = "parent i" and ?h = "vec_swap h i (parent i)"
  show ?case
  proof (cases "0 < i \<and> higher (h ! i) (h ! ?p)")
    case True
    with parent_less have lt: "?p < i" "?p < length h" and "0 < i" using "1.prems"(1) by (auto intro: less_trans)
    from True have r: "rank (h ! i) < rank (h ! ?p)" by (simp add: higher_rank)
    have sw: "?h ! k = (if k = ?p then h ! i else if k = i then h ! ?p else h ! k)" if "k < length h" for k
      using that lt "1.prems"(1) by (intro nth_vec_swap) auto
    have "ordered ?h j" if j: "0 < j" "j < length h" "j \<noteq> ?p" for j
    proof (cases "j = i")
      case True
      then show ?thesis using j lt r sw by (simp add: ordered_def)
    next
      case False
      have pj: "parent j < length h" using j parent_less [of j] by simp
      have o: "rank (h ! parent j) \<le> rank (h ! j)"
        using "1.prems"(2) j False by (auto simp: ordered_def)
      have b: "parent j = i \<Longrightarrow> rank (h ! ?p) \<le> rank (h ! j)"
        using "1.prems"(3) j \<open>0 < i\<close> by (auto simp: bridged_def)
      show ?thesis
        using o b r j False pj sw by (auto simp: ordered_def)
    qed
    moreover have "bridged ?h ?p"
      unfolding bridged_def
    proof (intro allI impI, elim conjE)
      fix j assume j: "0 < ?p" "0 < j" "j < length ?h" "parent j = ?p"
      have pp: "parent ?p < ?p" using j(1) by (rule parent_less)
      have o1: "rank (h ! parent ?p) \<le> rank (h ! ?p)"
        using "1.prems"(2) j lt by (auto simp: ordered_def)
      have "j \<noteq> ?p" using j by (metis parent_less less_irrefl)
      have o2: "j \<noteq> i \<Longrightarrow> rank (h ! ?p) \<le> rank (h ! j)"
        using "1.prems"(2) j by (auto simp: ordered_def)
      show "rank (?h ! parent ?p) \<le> rank (?h ! j)"
        using o1 o2 j pp lt sw \<open>j \<noteq> ?p\<close> by auto
    qed
    ultimately have "heap_ok (sift_up ?h ?p) \<and> mset (sift_up ?h ?p) = mset ?h"
      using True lt by (intro "1.IH") auto
    then show ?thesis
      using True lt "1.prems"(1) by (subst (1 2) sift_up.simps) (simp add: Let_def)
  next
    case False
    then have "heap_ok h"
      using "1.prems"(2) by (auto simp: heap_ok_def ordered_def higher_rank)
    with False show ?thesis by (subst (1 2) sift_up.simps) (auto simp: Let_def)
  qed
qed

lemma sift_down_heap:
  assumes "i < length h"
    and "\<forall>j. 0 < j \<and> j < length h \<and> parent j \<noteq> i \<longrightarrow> ordered h j" "bridged h i"
  shows "heap_ok (sift_down h i) \<and> mset (sift_down h i) = mset h"
  using assms
proof (induction h i rule: sift_down.induct)
  case (1 h i)
  let ?b = "best_child h i"
  let ?h = "vec_swap h i ?b"
  have min: "rank (h ! ?b) \<le> rank (h ! j)" if "0 < j" "j < length h" "parent j = i" for j
  proof -
    from that have "j = left i \<or> j = right i" by (auto simp: parent_def left_def right_def)
    then show ?thesis using that(2) by (auto simp: best_child_def Let_def higher_rank)
  qed
  have better: "rank (h ! ?b) \<le> rank (h ! i)"
    by (auto simp: best_child_def Let_def higher_rank)
  show ?case
  proof (cases "?b = i")
    case True
    then have "heap_ok h"
      using "1.prems"(2) min by (auto simp: heap_ok_def ordered_def)
    with True show ?thesis by (subst (1 2) sift_down.simps) (simp add: Let_def)
  next
    case False
    with best_child_cases [of h i] have b: "i < ?b" "?b < length h" "parent ?b = i"
      by (auto simp: left_def right_def parent_def)
    have sw: "?h ! k = (if k = ?b then h ! i else if k = i then h ! ?b else h ! k)" if "k < length h" for k
      using that b "1.prems"(1) by (intro nth_vec_swap) auto
    have pl: "parent j < length h" if "0 < j" "j < length h" for j
      using parent_less [OF that(1)] that(2) by simp
    have bri: "rank (h ! parent i) \<le> rank (h ! ?b)" if "0 < i"
      using "1.prems"(3) that b by (auto simp: bridged_def)
    have "ordered ?h j" if j: "0 < j" "j < length h" "parent j \<noteq> ?b" for j
    proof (cases "parent j = i")
      case True
      then show ?thesis
        using min [OF j(1,2) True] better b j sw [OF j(2)] sw [OF pl [OF j(1,2)]] parent_less [OF j(1)]
        by (auto simp: ordered_def)
    next
      case False
      have o: "rank (h ! parent j) \<le> rank (h ! j)"
        using "1.prems"(2) j False by (auto simp: ordered_def)
      have "j \<noteq> ?b" using False b by auto
      then show ?thesis
        using o bri j False sw [OF j(2)] sw [OF pl [OF j(1,2)]] by (auto simp: ordered_def)
    qed
    moreover have "bridged ?h ?b"
      unfolding bridged_def
    proof (intro allI impI, elim conjE)
      fix j assume j: "0 < ?b" "0 < j" "j < length ?h" "parent j = ?b"
      have "?b < j" using parent_less [OF j(2)] j(4) by simp
      moreover have "ordered h j" using "1.prems"(2) j b by auto
      ultimately show "rank (?h ! parent ?b) \<le> rank (?h ! j)"
        using j b sw [of j] sw [of i] "1.prems"(1) by (auto simp: ordered_def)
    qed
    ultimately have "heap_ok (sift_down ?h ?b) \<and> mset (sift_down ?h ?b) = mset ?h"
      using False b by (intro "1.IH") auto
    then show ?thesis
      using False b "1.prems"(1) by (subst (1 2) sift_down.simps) (simp add: Let_def)
  qed
qed

subsection \<open>What the operations do to the contents\<close>

lemma heap_ok_min:
  assumes "heap_ok h" "k < length h"
  shows "rank (h ! 0) \<le> rank (h ! k)"
  using assms(2)
proof (induction k rule: less_induct)
  case (less k)
  show ?case
  proof (cases "k = 0")
    case False
    then have "rank (h ! 0) \<le> rank (h ! parent k)"
      using less parent_less [of k] by (intro less.IH) auto
    also have "\<dots> \<le> rank (h ! k)"
      using assms(1) False less.prems by (auto simp: heap_ok_def ordered_def)
    finally show ?thesis .
  qed simp
qed

lemma heap_ok_butlast:
  assumes "heap_ok h" shows "heap_ok (butlast h)"
  unfolding heap_ok_def
proof (intro allI impI, elim conjE)
  fix j assume j: "0 < j" "j < length (butlast h)"
  moreover from j have "parent j < length (butlast h)" using parent_less [of j] by linarith
  ultimately show "ordered (butlast h) j"
    using assms by (auto simp: heap_ok_def ordered_def nth_butlast)
qed

lemma push_heap:
  assumes "heap_ok h"
  shows "heap_ok (sift_up (h @ [t]) (length h)) \<and> mset (sift_up (h @ [t]) (length h)) = add_mset t (mset h)"
proof -
  have "ordered (h @ [t]) j" if "0 < j" "j < length (h @ [t])" "j \<noteq> length h" for j
    using that assms parent_less [of j] by (auto simp: heap_ok_def ordered_def nth_append)
  moreover have "bridged (h @ [t]) (length h)"
    unfolding bridged_def
  proof (intro allI impI, elim conjE)
    fix j assume j: "0 < j" "j < length (h @ [t])" "parent j = length h"
    then show "rank ((h @ [t]) ! parent (length h)) \<le> rank ((h @ [t]) ! j)"
      using parent_less [OF j(1)] by simp
  qed
  ultimately show ?thesis using sift_up_heap [of "length h" "h @ [t]"] by simp
qed

text \<open>
  Both \<open>pop\<close> and \<open>cancel\<close> put the last element at an index \<open>i\<close> and shorten the vector.
\<close>

definition replaced :: "'a list \<Rightarrow> nat \<Rightarrow> 'a list" where
  "replaced h i = butlast (h[i := last h])"

lemma length_replaced [simp]: "length (replaced h i) = length h - 1"
  by (simp add: replaced_def)

lemma nth_replaced: "k < length h - 1 \<Longrightarrow> replaced h i ! k = (if k = i then last h else h ! k)"
  by (auto simp: replaced_def nth_butlast nth_list_update)

lemma mset_replaced:
  assumes "i < length h" shows "mset h = add_mset (h ! i) (mset (replaced h i))"
proof (cases "i = length h - 1")
  case True
  with assms have "h[i := last h] = h" by (cases h rule: rev_cases) (auto simp: nth_append)
  then have "replaced h i = butlast h" by (simp add: replaced_def)
  moreover have "h = butlast h @ [h ! i]"
    using assms True by (cases h rule: rev_cases) (auto simp: nth_append)
  ultimately show ?thesis by (metis mset_append mset_single_iff_right add_mset_add_single)
next
  case False
  from assms obtain g x where h: "h = g @ [x]" by (cases h rule: rev_cases) auto
  with assms False have i: "i < length g" by auto
  then have "replaced h i = g[i := x]" by (simp add: replaced_def h list_update_append)
  then show ?thesis using i h by (simp add: mset_update nth_append)
qed

lemma replaced_unmoved:
  assumes "heap_ok h" "0 < j" "j < length (replaced h i)" "j \<noteq> i" "parent j \<noteq> i"
  shows "ordered (replaced h i) j"
  using assms parent_less [of j] by (auto simp: heap_ok_def ordered_def nth_replaced)

lemma replaced_bridged:
  assumes "heap_ok h" shows "bridged (replaced h i) i"
  unfolding bridged_def
proof (intro allI impI, elim conjE)
  fix j assume j: "0 < i" "0 < j" "j < length (replaced h i)" "parent j = i"
  then have lt: "parent i < i" "i < j" using parent_less by fastforce+
  have "rank (h ! parent i) \<le> rank (h ! i)" "rank (h ! i) \<le> rank (h ! j)"
    using assms j lt by (auto simp: heap_ok_def ordered_def)
  then show "rank (replaced h i ! parent i) \<le> rank (replaced h i ! j)"
    using j lt by (simp add: nth_replaced)
qed

lemma replaced_down:
  assumes "heap_ok h" "i < length (replaced h i)"
    "0 < i \<longrightarrow> \<not> higher (replaced h i ! i) (replaced h i ! parent i)"
  shows "heap_ok (sift_down (replaced h i) i) \<and> mset (sift_down (replaced h i) i) = mset (replaced h i)"
proof (rule sift_down_heap [OF assms(2) _ replaced_bridged [OF assms(1)]], intro allI impI, elim conjE)
  fix j assume j: "0 < j" "j < length (replaced h i)" "parent j \<noteq> i"
  show "ordered (replaced h i) j"
  proof (cases "j = i")
    case True
    with assms(3) j show ?thesis by (simp add: ordered_def higher_rank not_less)
  qed (use assms(1) j in \<open>auto intro: replaced_unmoved\<close>)
qed

lemma replaced_up:
  assumes "heap_ok h" "i < length (replaced h i)" "0 < i"
    "higher (replaced h i ! i) (replaced h i ! parent i)"
  shows "heap_ok (sift_up (replaced h i) i) \<and> mset (sift_up (replaced h i) i) = mset (replaced h i)"
proof (rule sift_up_heap [OF assms(2) _ replaced_bridged [OF assms(1)]], intro allI impI, elim conjE)
  fix j assume j: "0 < j" "j < length (replaced h i)" "j \<noteq> i"
  show "ordered (replaced h i) j"
  proof (cases "parent j = i")
    case True
    then have lt: "parent i < i" "i < j" using assms(3) j(1) parent_less by fastforce+
    have "rank (h ! i) \<le> rank (h ! j)" "rank (h ! parent i) \<le> rank (h ! i)"
      using assms(1) j lt True assms(3) by (auto simp: heap_ok_def ordered_def)
    moreover have "rank (last h) < rank (h ! parent i)"
      using assms(2,3,4) lt by (simp add: higher_rank nth_replaced)
    ultimately show ?thesis
      using True j lt by (simp add: ordered_def nth_replaced)
  qed (use assms(1) j in \<open>auto intro: replaced_unmoved\<close>)
qed

lemma find_index_cases:
  "find_index P xs = length xs \<and> (\<forall>x\<in>set xs. \<not> P x)
   \<or> find_index P xs < length xs \<and> P (xs ! find_index P xs)"
  by (induction xs) auto

subsection \<open>Refinement of a bag\<close>

text \<open>
  The contract of the header: a bag of at most \<open>cap\<close> tasks from which \<open>pop\<close> takes one that no other
  task is higher than.
\<close>

datatype queue_op = Push task | Pop | Peek | Cancel u64 | Size

datatype queue_answer = Pushed "string + unit" | Got "string + task" | Cancelled bool | Sized nat

fun queue_step :: "task_queue \<Rightarrow> queue_op \<Rightarrow> task_queue \<times> queue_answer" where
  "queue_step q (Push t) = (let (q', a) = push t q in (q', Pushed a))"
| "queue_step q Pop = (let (q', a) = pop q in (q', Got a))"
| "queue_step q Peek = (q, Got (peek q))"
| "queue_step q (Cancel i) = (let (q', a) = cancel i q in (q', Cancelled a))"
| "queue_step q Size = (q, Sized (queue_size q))"

definition foremost :: "task \<Rightarrow> task multiset \<Rightarrow> bool" where
  "foremost t B \<longleftrightarrow> t \<in># B \<and> (\<forall>u\<in>#B. \<not> higher u t)"

inductive bag_step :: "nat \<Rightarrow> task multiset \<Rightarrow> queue_op \<Rightarrow> queue_answer \<Rightarrow> task multiset \<Rightarrow> bool"
  for cap where
  push_ok: "size B < cap \<Longrightarrow> bag_step cap B (Push t) (Pushed (Inr ())) (add_mset t B)"
| push_full: "cap \<le> size B \<Longrightarrow> bag_step cap B (Push t) (Pushed (Inl ''task queue at capacity'')) B"
| pop_ok: "foremost t B \<Longrightarrow> bag_step cap B Pop (Got (Inr t)) (B - {#t#})"
| pop_empty: "bag_step cap {#} Pop (Got (Inl ''task queue is empty'')) {#}"
| peek_ok: "foremost t B \<Longrightarrow> bag_step cap B Peek (Got (Inr t)) B"
| peek_empty: "bag_step cap {#} Peek (Got (Inl ''task queue is empty'')) {#}"
| cancel_hit: "t \<in># B \<Longrightarrow> task_id t = i \<Longrightarrow> bag_step cap B (Cancel i) (Cancelled True) (B - {#t#})"
| cancel_miss: "\<forall>t\<in>#B. task_id t \<noteq> i \<Longrightarrow> bag_step cap B (Cancel i) (Cancelled False) B"
| size: "bag_step cap B Size (Sized (size B)) B"

inductive_cases bag_popE: "bag_step cap B Pop (Got (Inr t)) B'"
inductive_simps bag_push_simp: "bag_step cap B (Push t) a B'"

definition queue_ok :: "task_queue \<Rightarrow> bool" where
  "queue_ok q \<longleftrightarrow> heap_ok (heap q) \<and> length (heap q) \<le> capacity q"

lemma foremost_head: "heap_ok h \<Longrightarrow> h \<noteq> [] \<Longrightarrow> foremost (h ! 0) (mset h)"
  by (auto simp: foremost_def higher_rank in_set_conv_nth not_less intro: heap_ok_min)

lemma push_step:
  assumes "queue_ok q" "push t q = (q', a)"
  shows "bag_step (capacity q) (mset (heap q)) (Push t) (Pushed a) (mset (heap q'))
    \<and> queue_ok q' \<and> capacity q' = capacity q"
proof (cases "capacity q \<le> length (heap q)")
  case True
  with assms show ?thesis by (auto simp: push_def intro!: push_full)
next
  case False
  note p = push_heap [of "heap q" t]
  then have "length (sift_up (heap q @ [t]) (length (heap q))) = Suc (length (heap q))"
    using assms(1) by (metis queue_ok_def size_mset size_add_mset)
  with False p assms show ?thesis
    by (auto simp: push_def queue_ok_def intro!: push_ok)
qed

lemma pop_step:
  assumes "queue_ok q" "pop q = (q', a)"
  shows "bag_step (capacity q) (mset (heap q)) Pop (Got a) (mset (heap q'))
    \<and> queue_ok q' \<and> capacity q' = capacity q"
proof (cases "heap q = []")
  case True
  with assms show ?thesis by (auto simp: pop_def intro!: pop_empty)
next
  case False
  let ?h = "replaced (heap q) 0"
  let ?g = "if ?h \<noteq> [] then sift_down ?h 0 else ?h"
  have q': "q' = q\<lparr>heap := ?g\<rparr>" "a = Inr (heap q ! 0)"
    using False assms(2) by (auto simp: pop_def Let_def replaced_def)
  have g: "heap_ok ?g \<and> mset ?g = mset ?h"
  proof (cases "?h = []")
    case False
    then have "0 < length ?h" by blast
    with False show ?thesis
      using replaced_down [of "heap q" 0] assms(1) by (simp add: queue_ok_def)
  qed (simp add: heap_ok_def)
  have m: "mset (heap q) = add_mset (heap q ! 0) (mset ?h)" using False by (intro mset_replaced) simp
  then have "mset ?g = mset (heap q) - {#heap q ! 0#}" using g by simp
  moreover have "length ?g \<le> capacity q"
    using g m assms(1) by (metis queue_ok_def size_mset size_add_mset Suc_leD)
  moreover have "bag_step (capacity q) (mset (heap q)) Pop (Got a) (mset (heap q) - {#heap q ! 0#})"
    unfolding q' using assms(1) False by (intro pop_ok foremost_head) (simp_all add: queue_ok_def)
  ultimately show ?thesis using q' g by (simp add: queue_ok_def)
qed

lemma cancel_step:
  assumes "queue_ok q" "cancel i q = (q', a)"
  shows "bag_step (capacity q) (mset (heap q)) (Cancel i) (Cancelled a) (mset (heap q'))
    \<and> queue_ok q' \<and> capacity q' = capacity q"
proof -
  let ?k = "find_index (\<lambda>t. task_id t = i) (heap q)"
  consider "?k = length (heap q)" "\<forall>t\<in>set (heap q). task_id t \<noteq> i"
    | "?k < length (heap q)" "task_id (heap q ! ?k) = i"
    using find_index_cases [of "\<lambda>t. task_id t = i" "heap q"] by blast
  then show ?thesis
  proof cases
    case 1
    with assms show ?thesis by (auto simp: cancel_def intro!: cancel_miss)
  next
    case 2
    let ?h = "replaced (heap q) ?k"
    define g where "g = (if ?k = length (heap q) - 1 then butlast (heap q)
      else if ?k > 0 \<and> higher (?h ! ?k) (?h ! parent ?k) then sift_up ?h ?k else sift_down ?h ?k)"
    have q': "q' = q\<lparr>heap := g\<rparr>" "a"
      using 2 assms(2) by (auto simp: cancel_def g_def replaced_def Let_def split: if_splits)
    have m: "mset (heap q) = add_mset (heap q ! ?k) (mset ?h)" using 2 by (intro mset_replaced)
    have ok: "heap_ok (heap q)" using assms(1) by (simp add: queue_ok_def)
    have g: "heap_ok g \<and> mset g = mset ?h"
    proof (cases "?k = length (heap q) - 1")
      case True
      then have "(heap q)[?k := last (heap q)] = heap q"
        using 2 by (cases "heap q" rule: rev_cases) (auto simp: nth_append)
      with True show ?thesis by (simp add: g_def replaced_def heap_ok_butlast [OF ok])
    next
      case False
      then have "?k < length ?h" using 2 by simp
      with False replaced_up [OF ok, of ?k] replaced_down [OF ok, of ?k] show ?thesis
        by (auto simp: g_def)
    qed
    have "mset g = mset (heap q) - {#heap q ! ?k#}" using g m by simp
    moreover have "length g \<le> capacity q"
      using g m assms(1) by (metis queue_ok_def size_mset size_add_mset Suc_leD)
    moreover have "bag_step (capacity q) (mset (heap q)) (Cancel i) (Cancelled True)
        (mset (heap q) - {#heap q ! ?k#})"
      using 2 by (intro cancel_hit) auto
    ultimately show ?thesis using q' g by (simp add: queue_ok_def)
  qed
qed

lemma queue_step_bag:
  assumes "queue_ok q" "queue_step q op = (q', a)"
  shows "bag_step (capacity q) (mset (heap q)) op a (mset (heap q')) \<and> queue_ok q' \<and> capacity q' = capacity q"
proof (cases op)
  case (Push t)
  with assms show ?thesis by (auto split: prod.splits dest: push_step)
next
  case Pop
  with assms show ?thesis by (auto split: prod.splits dest: pop_step)
next
  case Peek
  have "bag_step (capacity q) (mset (heap q)) Peek (Got (peek q)) (mset (heap q))"
    using assms(1) peek_empty [of "capacity q"]
    by (auto simp: peek_def queue_ok_def intro!: peek_ok foremost_head)
  with Peek assms show ?thesis by auto
next
  case (Cancel i)
  with assms show ?thesis by (auto split: prod.splits dest: cancel_step)
next
  case Size
  with assms bag_step.size [of "capacity q" "mset (heap q)"] show ?thesis by (auto simp: queue_size_def)
qed

text \<open>C7. Refinement: each operation, on every branch, is a step of the bounded bag, and keeps the heap order
  and the capacity.  In particular \<open>push\<close> fails exactly when the queue is full, \<open>pop\<close> and \<open>peek\<close>
  exactly when it is empty, and \<open>cancel\<close> removes one task with the id if there is one.\<close>

theorem queue_refines_bag:
  assumes "queue_ok q" "queue_step q op = (q', a)"
  shows "bag_step (capacity q) (mset (heap q)) op a (mset (heap q')) \<and> queue_ok q' \<and> capacity q' = capacity q"
  using assms by (rule queue_step_bag)

text \<open>Four tasks in a heap, and the removal of the foremost.\<close>

definition demo_task :: "u64 \<Rightarrow> task_priority \<Rightarrow> task" where
  "demo_task i p = \<lparr>task_id = i, priority = p, kind = Custom, payload = []\<rparr>"

definition demo_queue :: task_queue where
  "demo_queue = \<lparr>capacity = 4, heap = [demo_task 7 High, demo_task 2 Normal, demo_task 9 High, demo_task 5 Low]\<rparr>"

lemma demo_ok: "queue_ok demo_queue"
proof -
  have h: "heap_ok h \<longleftrightarrow> (\<forall>j\<in>set [1..<length h]. ordered h j)" for h by (auto simp: heap_ok_def)
  have "[1..<4] = [1, 2, 3::nat]" by (simp add: upt_rec)
  then show ?thesis
    by (simp add: queue_ok_def demo_queue_def h) (simp add: ordered_def parent_def rank_def demo_task_def)
qed

lemma queue_refines_bag_witness:
  "bag_step 4 (mset (heap demo_queue)) Pop (Got (Inr (demo_task 7 High)))
     (mset (heap (fst (queue_step demo_queue Pop))))"
proof -
  have "snd (queue_step demo_queue Pop) = Got (Inr (demo_task 7 High))"
    by (simp add: pop_def demo_queue_def Let_def)
  then have "queue_step demo_queue Pop = (fst (queue_step demo_queue Pop), Got (Inr (demo_task 7 High)))"
    by (metis prod.collapse)
  from queue_refines_bag [OF demo_ok this] show ?thesis by (simp add: demo_queue_def)
qed

subsection \<open>The priority-queue interface\<close>

text \<open>
  What a consumer of the queue relies on: \<open>take\<close> fails on an empty queue and otherwise removes one
  element that no other is before.
\<close>

fun drain :: "('q \<Rightarrow> 'q \<times> ('e + 'a)) \<Rightarrow> nat \<Rightarrow> 'q \<Rightarrow> 'a list" where
  "drain take_one 0 q = []"
| "drain take_one (Suc n) q =
     (case take_one q of (q', Inl _) \<Rightarrow> [] | (q', Inr x) \<Rightarrow> x # drain take_one n q')"

locale priority_queue =
  fixes take_one :: "'q \<Rightarrow> 'q \<times> ('e + 'a)"
    and contents :: "'q \<Rightarrow> 'a multiset"
    and inv :: "'q \<Rightarrow> bool"
    and before :: "'a \<Rightarrow> 'a \<Rightarrow> bool"
  assumes take_empty: "inv q \<Longrightarrow> contents q = {#} \<Longrightarrow> \<exists>q' e. take_one q = (q', Inl e)"
    and take_some: "inv q \<Longrightarrow> contents q \<noteq> {#} \<Longrightarrow>
      \<exists>q' x. take_one q = (q', Inr x) \<and> inv q' \<and> contents q = add_mset x (contents q')
        \<and> (\<forall>y\<in>#contents q. \<not> before y x)"
begin

lemma drain_sorted:
  assumes "inv q" "size (contents q) \<le> n"
  shows "mset (drain take_one n q) = contents q \<and> sorted_wrt (\<lambda>x y. \<not> before y x) (drain take_one n q)"
  using assms
proof (induction n arbitrary: q)
  case (Suc n)
  show ?case
  proof (cases "contents q = {#}")
    case True
    with take_empty Suc.prems obtain q' e where "take_one q = (q', Inl e)" by blast
    with True show ?thesis by simp
  next
    case False
    with take_some Suc.prems obtain q' x where x: "take_one q = (q', Inr x)" "inv q'"
      "contents q = add_mset x (contents q')" "\<forall>y\<in>#contents q. \<not> before y x" by blast
    then have IH: "mset (drain take_one n q') = contents q'"
      "sorted_wrt (\<lambda>x y. \<not> before y x) (drain take_one n q')"
      using Suc.IH [of q'] Suc.prems by simp_all
    from IH(1) have "set (drain take_one n q') = set_mset (contents q')"
      by (metis set_mset_mset)
    with x IH show ?thesis by simp
  qed
qed simp

end

interpretation tasks: priority_queue pop "\<lambda>q. mset (heap q)" queue_ok higher
proof
  fix q assume "queue_ok q" and "mset (heap q) = {#}"
  then show "\<exists>q' e. pop q = (q', Inl e)" by (simp add: pop_def)
next
  fix q assume q: "queue_ok q" and ne: "mset (heap q) \<noteq> {#}"
  then obtain q' x where x: "pop q = (q', Inr x)" by (auto simp: pop_def Let_def)
  from pop_step [OF q x] have b: "bag_step (capacity q) (mset (heap q)) Pop (Got (Inr x)) (mset (heap q'))"
      and "queue_ok q'" by auto
  moreover from b have "foremost x (mset (heap q))" "mset (heap q') = mset (heap q) - {#x#}"
    by (auto elim: bag_popE)
  ultimately show "\<exists>q' x. pop q = (q', Inr x) \<and> queue_ok q' \<and> mset (heap q) = add_mset x (mset (heap q'))
      \<and> (\<forall>y\<in>#mset (heap q). \<not> higher y x)"
    using x by (auto simp: foremost_def)
qed

text \<open>Draining: popping until the queue is empty returns every queued task exactly once, higher priorities
  first and, within a priority, lower ids first.\<close>

theorem drain_in_order:
  assumes "queue_ok q"
  shows "mset (drain pop (length (heap q)) q) = mset (heap q)
    \<and> sorted_wrt (\<lambda>x y. priority x > priority y \<or> priority x = priority y \<and> task_id x \<le> task_id y)
        (drain pop (length (heap q)) q)"
proof -
  have "\<not> higher y x \<longleftrightarrow> priority x > priority y \<or> priority x = priority y \<and> task_id x \<le> task_id y" for x y
    by (auto simp: higher_def not_less order_le_less)
  with tasks.drain_sorted [OF assms, of "length (heap q)"] show ?thesis by simp
qed

lemma drain_in_order_witness:
  "mset (drain pop (length (heap demo_queue)) demo_queue) = mset (heap demo_queue)"
  using drain_in_order [OF demo_ok] by simp

subsection \<open>Any sequence of operations\<close>

text \<open>The queue as a machine, and the invariant of every queue a client can reach.\<close>

interpretation task_machine: safe_machine "\<lambda>q op. Some (fst (queue_step q op))"
  "\<lambda>q. queue_ok q \<and> capacity q = cap" "\<lambda>_ _. True" for cap
proof
  fix q op assume "queue_ok q \<and> capacity q = cap"
  then show "succeeds (Some (fst (queue_step q op))) (\<lambda>q. queue_ok q \<and> capacity q = cap)"
    using queue_step_bag [of q op "fst (queue_step q op)" "snd (queue_step q op)"] by simp
qed

lemma run_ok_free: "run_ok step (\<lambda>_ _. True) s es"
  by (induction es arbitrary: s) (auto split: option.split)

text \<open>A queue created with capacity \<open>cap\<close> holds a heap of at most \<open>cap\<close> tasks after any sequence of
  operations, in whatever order threads take the mutex.\<close>

theorem queue_reachable:
  "\<exists>q. run (\<lambda>q op. Some (fst (queue_step q op))) (new_queue cap) ops = Some q
    \<and> heap_ok (heap q) \<and> queue_size q \<le> cap"
  using task_machine.run_safe [of "new_queue cap" cap ops, OF _ run_ok_free]
  by (auto simp: succeeds_iff queue_ok_def new_queue_def heap_ok_def queue_size_def)

end
