(* ===== verification/Block_Codec.thy ===== *)
theory Block_Codec
  imports Bytes
begin

text \<open>
  The block codec of the tensor file system (\<open>bin/fuse/compression.h\<close>, \<open>bin/fuse/compression.cpp\<close>):
  the LZ77 coder behind \<open>Zstd\<close>, the delta coder, the container with its header, and the quantiser
  up to its floating-point arithmetic, which is a parameter.  A read or a shift outside its range is
  \<open>None\<close>; an error the code reports is \<open>Inl\<close>.  \<open>reserve(orig_size)\<close> has no effect on values and is
  left out.
\<close>

datatype compression_type = None_Compression | Zstd | Delta | Quantize | DeltaZstd

fun type_code :: "compression_type \<Rightarrow> nat" where
  "type_code None_Compression = 0"
| "type_code Zstd = 1"
| "type_code Delta = 2"
| "type_code Quantize = 3"
| "type_code DeltaZstd = 4"

subsection \<open>Delta coding\<close>

text \<open>\<open>out[i] = data[i] - data[i - 1]\<close> and \<open>out[i] = out[i - 1] + data[i]\<close>, each after the first byte.\<close>

fun delta_encode_from :: "u8 \<Rightarrow> u8 list \<Rightarrow> u8 list" where
  "delta_encode_from prev [] = []"
| "delta_encode_from prev (b # bs) = (b - prev) # delta_encode_from b bs"

definition delta_encode :: "u8 list \<Rightarrow> u8 list" where
  "delta_encode data = (case data of [] \<Rightarrow> [] | b # bs \<Rightarrow> b # delta_encode_from b bs)"

fun delta_decode_from :: "u8 \<Rightarrow> u8 list \<Rightarrow> u8 list" where
  "delta_decode_from prev [] = []"
| "delta_decode_from prev (b # bs) = (prev + b) # delta_decode_from (prev + b) bs"

definition delta_decode :: "u8 list \<Rightarrow> u8 list" where
  "delta_decode data = (case data of [] \<Rightarrow> [] | b # bs \<Rightarrow> b # delta_decode_from b bs)"

lemma delta_decode_encode: "delta_decode (delta_encode data) = data"
proof -
  have "delta_decode_from p (delta_encode_from p bs) = bs" for p bs
    by (induction bs arbitrary: p) auto
  then show ?thesis by (simp add: delta_decode_def delta_encode_def split: list.split)
qed

lemma length_delta_encode [simp]: "length (delta_encode data) = length data"
proof -
  have "length (delta_encode_from p bs) = length bs" for p bs
    by (induction bs arbitrary: p) auto
  then show ?thesis by (simp add: delta_encode_def split: list.split)
qed

subsection \<open>The LZ coder\<close>

definition hash4 :: "u8 list \<Rightarrow> nat \<Rightarrow> nat" where
  "hash4 data pos =
     (let v = (word_of_nat (le_value (slice_of pos 4 data)) :: u32) in unat (drop_bit 18 (v * 2654435761)))"

function varint :: "nat \<Rightarrow> u8 list" where
  "varint l = (if l \<ge> 128 then (word_of_nat (l mod 128) OR 0x80) # varint (l div 128) else [word_of_nat l])"
  by pat_completeness auto
termination
  by (relation "measure id") auto

declare varint.simps [simp del]

text \<open>The loop that extends a match at \<open>pos\<close> with an earlier one at \<open>mp\<close>.\<close>

function extend_match :: "u8 list \<Rightarrow> nat \<Rightarrow> nat \<Rightarrow> nat \<Rightarrow> nat" where
  "extend_match data pos mp n =
     (if pos + n < length data \<and> data ! (pos + n) = data ! (mp + n) \<and> n < 255
      then extend_match data pos mp (n + 1) else n)"
  by pat_completeness auto
termination
  by (relation "measure (\<lambda>(data, pos, mp, n). 255 - n)") auto

declare extend_match.simps [simp del]

text \<open>
  The hash table maps a hash to \<open>static_cast<int32_t>(pos)\<close>, \<open>-1\<close> at first; it is a function here and
  an update of it one store to the vector.  \<open>pos - static_cast<size_t>(match_pos)\<close> wraps to a huge
  value when \<open>match_pos\<close> is larger, so the comparison is false then.
\<close>

definition found_match :: "u8 list \<Rightarrow> nat \<Rightarrow> int \<Rightarrow> bool" where
  "found_match data pos mp \<longleftrightarrow>
     mp \<ge> 0 \<and> nat mp \<le> pos \<and> pos - nat mp < 65536 \<and> slice_of pos 4 data = slice_of (nat mp) 4 data"

definition emit_match :: "u8 list \<Rightarrow> nat \<Rightarrow> nat \<Rightarrow> nat \<Rightarrow> nat \<Rightarrow> u8 list" where
  "emit_match data lit_start pos mp n =
     varint (pos - lit_start) @ slice_of lit_start (pos - lit_start) data
       @ [word_of_nat ((pos - mp) mod 256), word_of_nat ((pos - mp) div 256), word_of_nat n]"

lemma extend_match_ge: "n \<le> extend_match data pos mp n"
proof (induction data pos mp n rule: extend_match.induct)
  case (1 data pos mp n)
  then show ?case by (subst extend_match.simps) force
qed

function lz_loop :: "u8 list \<Rightarrow> nat \<Rightarrow> nat \<Rightarrow> (nat \<Rightarrow> int) \<Rightarrow> u8 list \<Rightarrow> nat \<times> u8 list" where
  "lz_loop data pos lit_start table out =
     (if pos + 4 \<le> length data
      then (let h = hash4 data pos;
                mp = table h;
                table = table(h := sint (word_of_nat pos :: u32))
            in if found_match data pos mp
               then (let n = extend_match data pos (nat mp) 4
                     in lz_loop data (pos + n) (pos + n) table
                          (out @ emit_match data lit_start pos (nat mp) n))
               else lz_loop data (pos + 1) lit_start table out)
      else (lit_start, out))"
  by pat_completeness auto
termination
proof (relation "measure (\<lambda>(data, pos, lit_start, table, out). length data - pos)", goal_cases)
  case (2 data pos lit_start table out h mp t n)
  have "4 \<le> n" using 2 extend_match_ge by simp
  with 2 show ?case by simp
qed auto

declare lz_loop.simps [simp del]

definition zstd_compress :: "u8 list \<Rightarrow> u8 list" where
  "zstd_compress data =
     (if length data \<le> 16 then 0xFF # data
      else (let (lit_start, out) = lz_loop data 0 0 (\<lambda>_. -1) [0x00];
                lit_len = length data - lit_start
            in out @ varint lit_len @ slice_of lit_start lit_len data @ [0, 0, 0]))"

text \<open>
  The decoder reads its input as a list; \<open>pos\<close> is the index of the list in the block and \<open>len\<close> the
  length of the block.  \<open>read_varint\<close> is the inner loop: the value, and what is left.  A shift by 64
  or more is undefined.
\<close>

fun read_varint :: "u8 list \<Rightarrow> nat \<Rightarrow> nat \<Rightarrow> (nat \<times> u8 list) option" where
  "read_varint [] shift acc = Some (acc, [])"
| "read_varint (b # bs) shift acc =
     (if shift \<ge> 64 then None
      else (let acc = acc OR size_t (unat (b AND 0x7F) * 2 ^ shift)
            in if b AND 0x80 = 0 then Some (acc, bs) else read_varint bs (shift + 7) acc))"

text \<open>\<open>for (i = 0; i < match_len; ++i) out.push_back(out[match_start + i])\<close>.\<close>

fun copy_match :: "nat \<Rightarrow> nat \<Rightarrow> u8 list \<Rightarrow> u8 list" where
  "copy_match start 0 out = out"
| "copy_match start (Suc n) out = copy_match (start + 1) n (out @ [out ! start])"

lemma read_varint_shorter: "read_varint bs sh acc = Some (n, r) \<Longrightarrow> length r \<le> length bs"
  by (induction bs sh acc rule: read_varint.induct) (auto simp: Let_def split: if_splits)

lemma read_varint_progress: "read_varint (b # bs) sh acc = Some (n, r) \<Longrightarrow> length r \<le> length bs"
  by (auto simp: Let_def split: if_splits dest: read_varint_shorter)

function lz_decode :: "nat \<Rightarrow> u8 list \<Rightarrow> u8 list \<Rightarrow> u8 list option" where
  "lz_decode len rest out =
     (if rest = [] then Some out
      else (case read_varint rest 0 0 of
              None \<Rightarrow> None
            | Some (lit_len, rest) \<Rightarrow>
                (let pos = len - length rest in
                 if size_t (pos + lit_len) > len then Some out
                 else if lit_len > length rest then None
                 else (let out = out @ take lit_len rest; rest = drop lit_len rest in
                       case rest of
                         lo # hi # m # rest \<Rightarrow>
                           (let offset = unat lo + 256 * unat hi in
                            if offset = 0 \<and> m = 0 then Some out
                            else if offset = 0 \<or> offset > length out then Some out
                            else lz_decode len rest (copy_match (length out - offset) (unat m) out))
                       | _ \<Rightarrow> Some out))))"
  by pat_completeness auto
termination
proof (relation "measure (\<lambda>(len, rest, out). length rest)", goal_cases)
  case (2 len rest out p lit_len rest' pos out' rest'' lo bs hi bs' m r offset)
  have "length rest'' \<le> length rest'" using 2 by simp
  moreover have "length rest' \<le> length rest" using 2 read_varint_shorter by auto
  moreover have e: "lo # hi # m # r = drop lit_len rest'" using 2 by simp
  have "Suc (Suc (Suc (length r))) = length (drop lit_len rest')" unfolding e [symmetric] by simp
  ultimately show ?case by simp
qed simp

declare lz_decode.simps [simp del]

definition zstd_decompress :: "u8 list \<Rightarrow> u8 list option" where
  "zstd_decompress data =
     (case data of [] \<Rightarrow> Some [] | marker # rest \<Rightarrow>
        if marker = 0xFF then Some rest else lz_decode (length data) rest [])"

subsection \<open>The decoder undoes the coder\<close>

lemma copy_match_length [simp]: "length (copy_match start n out) = length out + n"
  by (induction start n out rule: copy_match.induct) auto

lemma copy_match_repeats:
  assumes "\<forall>i<n. data ! (pos + i) = data ! (mp + i)" "mp < pos" "pos + n \<le> length data"
  shows "copy_match mp n (take pos data) = take (pos + n) data"
  using assms
proof (induction n arbitrary: mp pos)
  case (Suc n)
  have "data ! (pos + 0) = data ! (mp + 0)" using Suc.prems(1) by blast
  then have "take pos data @ [take pos data ! mp] = take (Suc pos) data"
    using Suc.prems(2,3) by (simp add: take_Suc_conv_app_nth)
  moreover have "\<forall>i<n. data ! (Suc pos + i) = data ! (mp + 1 + i)"
    using Suc.prems(1) by auto
  ultimately show ?case using Suc.IH [of "Suc pos" "mp + 1"] Suc.prems by simp
qed simp

lemma byte_or_80: "m < 128 \<Longrightarrow> (word_of_nat m :: u8) OR 0x80 = word_of_nat (m + 128)
    \<and> (word_of_nat (m + 128) :: u8) AND 0x80 \<noteq> 0
    \<and> unat ((word_of_nat (m + 128) :: u8) AND 0x7F) = m \<and> (word_of_nat m :: u8) AND 0x80 = 0
    \<and> unat ((word_of_nat m :: u8) AND 0x7F) = m"
proof -
  have "\<forall>m\<in>set [0..<128]. (word_of_nat m :: u8) OR 0x80 = word_of_nat (m + 128)
    \<and> (word_of_nat (m + 128) :: u8) AND 0x80 \<noteq> 0
    \<and> unat ((word_of_nat (m + 128) :: u8) AND 0x7F) = m \<and> (word_of_nat m :: u8) AND 0x80 = 0
    \<and> unat ((word_of_nat m :: u8) AND 0x7F) = m"
    by code_simp
  moreover assume "m < 128"
  ultimately show ?thesis by auto
qed

lemma or_shift:
  fixes acc :: nat
  assumes "acc < 2 ^ sh" shows "acc OR (x * 2 ^ sh) = acc + x * 2 ^ sh"
proof -
  have "take_bit sh acc AND push_bit sh x = 0"
    by (rule bit_eqI) (auto simp: bit_and_iff bit_push_bit_iff bit_take_bit_iff)
  moreover have "take_bit sh acc = acc" using assms by (simp add: take_bit_nat_eq_self)
  ultimately show ?thesis by (simp add: push_bit_eq_mult disjunctive_add_eq_or)
qed

lemma varint_roundtrip:
  assumes "l * 2 ^ sh < 2 ^ 64" "acc < 2 ^ sh" "l = 0 \<Longrightarrow> sh < 64"
  shows "read_varint (varint l @ rest) sh acc = Some (acc + l * 2 ^ sh, rest)"
  using assms
proof (induction l arbitrary: sh acc rule: varint.induct)
  case (1 l)
  have sh: "sh < 64"
  proof (cases "l = 0")
    case False
    then have "(2::nat) ^ sh \<le> l * 2 ^ sh" by simp
    then have "(2::nat) ^ sh < 2 ^ 64" using "1.prems"(1) by linarith
    then show ?thesis by (rule power_less_imp_less_exp [rotated]) simp
  qed (use "1.prems" in simp)
  show ?case
  proof (cases "l \<ge> 128")
    case False
    then have "l < 128" by simp
    note b = byte_or_80 [OF this]
    show ?thesis
      using sh b False "1.prems" or_shift [OF "1.prems"(2), of l] by (subst varint.simps) simp
  next
    case True
    let ?m = "l mod 128"
    have m: "?m < 128" by simp
    note b = byte_or_80 [OF m]
    have e: "?m * 2 ^ sh + l div 128 * 2 ^ (sh + 7) = l * 2 ^ sh"
    proof -
      have "l div 128 * 2 ^ (sh + 7) = 128 * (l div 128) * 2 ^ sh" by (simp add: power_add)
      moreover have "(?m + 128 * (l div 128)) * 2 ^ sh = l * 2 ^ sh" by simp
      ultimately show ?thesis by (simp only: distrib_right)
    qed
    have "?m * 2 ^ sh < 2 ^ 64" "l div 128 * 2 ^ (sh + 7) < 2 ^ 64" using e "1.prems"(1) by linarith+
    moreover have "acc + ?m * 2 ^ sh < 2 ^ (sh + 7)"
    proof -
      have "acc + ?m * 2 ^ sh < (1 + ?m) * 2 ^ sh" using "1.prems"(2) by simp
      also have "\<dots> \<le> 128 * 2 ^ sh" using m by (intro mult_right_mono) auto
      finally show ?thesis by (simp add: power_add)
    qed
    moreover have "l div 128 \<noteq> 0" using True by auto
    ultimately have "read_varint (varint (l div 128) @ rest) (sh + 7) (acc + ?m * 2 ^ sh)
        = Some (acc + ?m * 2 ^ sh + l div 128 * 2 ^ (sh + 7), rest)"
      using True by (intro "1.IH") auto
    then show ?thesis
      using True sh b e \<open>?m * 2 ^ sh < 2 ^ 64\<close> or_shift [OF "1.prems"(2), of ?m]
      by (subst varint.simps) (simp add: Let_def add.assoc)
  qed
qed

text \<open>One literal run and one match through the decoder.\<close>

lemma decode_run:
  assumes "length rest < 2 ^ 64" "rest = varint l @ lits @ more" "length lits = l" "l < 2 ^ 64" "length rest \<le> len"
    "len < 2 ^ 64"
  shows "lz_decode len rest out = (case more of
       lo # hi # m # rest \<Rightarrow>
         (let offset = unat lo + 256 * unat hi in
          if offset = 0 \<and> m = 0 then Some (out @ lits)
          else if offset = 0 \<or> offset > length (out @ lits) then Some (out @ lits)
          else lz_decode len rest (copy_match (length (out @ lits) - offset) (unat m) (out @ lits)))
     | _ \<Rightarrow> Some (out @ lits))"
proof -
  have "varint l \<noteq> []" by (subst varint.simps) simp
  then have ne: "rest \<noteq> []" by (simp add: assms(2))
  have r: "read_varint rest 0 0 = Some (l, lits @ more)"
    using varint_roundtrip [of l 0 0 "lits @ more"] assms by simp
  have "length (lits @ more) \<le> length rest" using assms(2) by simp
  then have le: "length lits + length more \<le> len" using assms(5) by simp
  then have "len - (length lits + length more) + l = len - length more" using assms(3) by simp
  moreover have "size_t (len - length more) = len - length more" using assms(6) by simp
  moreover have "\<not> len < len - length more" by simp
  ultimately show ?thesis
    using ne r assms(3) by (subst lz_decode.simps) (simp add: Let_def split: list.split)
qed

lemma emitted_match:
  assumes "data ! (pos + n) = data ! (pos + n)" "lit_start \<le> pos" "pos + n \<le> length data" "mp < pos"
    "pos - mp < 65536" "n < 256" "\<forall>i<n. data ! (pos + i) = data ! (mp + i)"
    "length (emit_match data lit_start pos mp n @ more) \<le> len" "len < 2 ^ 64"
  shows "lz_decode len (emit_match data lit_start pos mp n @ more) (take lit_start data)
    = lz_decode len more (take (pos + n) data)"
proof -
  let ?l = "pos - lit_start" and ?lits = "slice_of lit_start (pos - lit_start) data" and ?o = "pos - mp"
  have len: "length ?lits = ?l" using assms by simp
  have b: "?l < 2 ^ 64" using assms(8,9) len by (simp add: emit_match_def)
  have o: "unat (word_of_nat (?o mod 256) :: u8) = ?o mod 256" "unat (word_of_nat (?o div 256) :: u8) = ?o div 256"
      "unat (word_of_nat n :: u8) = n"
    using assms by (simp_all add: unat_of_nat)
  have oo: "?o mod 256 + 256 * (?o div 256) = ?o" "?o \<noteq> 0" using assms(4) by simp_all
  have lits: "take lit_start data @ ?lits = take pos data" using assms(2) by (rule take_slice)
  have mp: "length (take pos data) - ?o = mp" "\<not> length (take pos data) < ?o" using assms by simp_all
  let ?more = "word_of_nat (?o mod 256) # word_of_nat (?o div 256) # word_of_nat n # more"
  have e: "emit_match data lit_start pos mp n @ more = varint ?l @ ?lits @ ?more"
    by (simp add: emit_match_def)
  have "length (varint ?l @ ?lits @ ?more) < 2 ^ 64" using assms(8,9) by (simp add: emit_match_def)
  from decode_run [OF this refl len b _ assms(9), of "take lit_start data"] assms(8)
  have "lz_decode len (varint ?l @ ?lits @ ?more) (take lit_start data) =
      lz_decode len more (copy_match (length (take pos data) - ?o) n (take pos data))"
    unfolding e lits list.case o oo Let_def using oo(2) mp(2) by simp
  also have "copy_match (length (take pos data) - ?o) n (take pos data) = take (pos + n) data"
    unfolding mp by (rule copy_match_repeats [OF assms(7,4,3)])
  finally show ?thesis unfolding e .
qed

lemma extend_match_spec:
  assumes "\<forall>i<n. data ! (pos + i) = data ! (mp + i)" "pos + n \<le> length data" "n \<le> 255"
  shows "n \<le> extend_match data pos mp n \<and> extend_match data pos mp n \<le> 255
    \<and> pos + extend_match data pos mp n \<le> length data
    \<and> (\<forall>i<extend_match data pos mp n. data ! (pos + i) = data ! (mp + i))"
  using assms
proof (induction data pos mp n rule: extend_match.induct)
  case (1 data pos mp n)
  show ?case
  proof (cases "pos + n < length data \<and> data ! (pos + n) = data ! (mp + n) \<and> n < 255")
    case True
    then have "\<forall>i<n + 1. data ! (pos + i) = data ! (mp + i)" using "1.prems"(1) by (auto simp: less_Suc_eq)
    with True "1.IH" show ?thesis by (subst (1 2 3 4) extend_match.simps) auto
  next
    case False
    with "1.prems" show ?thesis by (subst (1 2 3 4) extend_match.simps) auto
  qed
qed

definition decodes_to :: "nat \<Rightarrow> u8 list \<Rightarrow> nat \<Rightarrow> u8 list \<Rightarrow> bool" where
  "decodes_to len data ls out \<longleftrightarrow> ls \<le> length data \<and> out \<noteq> [] \<and> hd out = 0 \<and>
     (\<forall>more. length (out @ more) \<le> len \<longrightarrow>
        lz_decode len (tl out @ more) [] = lz_decode len more (take ls data))"

lemma decodes_to_emit:
  assumes "decodes_to len data ls out" "ls \<le> pos" "pos + n \<le> length data" "mp < pos" "pos - mp < 65536"
    "n < 256" "\<forall>i<n. data ! (pos + i) = data ! (mp + i)" "len < 2 ^ 64"
  shows "decodes_to len data (pos + n) (out @ emit_match data ls pos mp n)"
  unfolding decodes_to_def
proof (intro conjI allI impI)
  fix more assume l: "length ((out @ emit_match data ls pos mp n) @ more) \<le> len"
  then have "lz_decode len (tl out @ emit_match data ls pos mp n @ more) [] =
      lz_decode len (emit_match data ls pos mp n @ more) (take ls data)"
    using assms(1) by (simp add: decodes_to_def)
  also have "\<dots> = lz_decode len more (take (pos + n) data)"
    using l assms by (intro emitted_match) simp_all
  finally show "lz_decode len (tl (out @ emit_match data ls pos mp n) @ more) [] =
      lz_decode len more (take (pos + n) data)"
    using assms(1) by (simp add: decodes_to_def)
qed (use assms in \<open>auto simp: decodes_to_def\<close>)

lemma sint_le: "sint (word_of_nat p :: u32) \<le> int p"
proof -
  have "sint (word_of_nat p :: u32) \<le> uint (word_of_nat p :: u32)"
    by (simp only: sint_uint signed_take_bit_int_less_eq_self_iff)
      (rule order_trans [OF _ uint_ge_0], simp)
  also have "\<dots> \<le> int p" by (simp add: unsigned_of_nat flip: of_nat_take_bit)
  finally show ?thesis .
qed

lemma found_matchD:
  assumes "found_match data pos mp" "pos + 4 \<le> length data" "mp < int pos"
  shows "nat mp < pos" "pos - nat mp < 65536" "\<forall>i<4. data ! (pos + i) = data ! (nat mp + i)"
proof -
  from assms show "nat mp < pos" "pos - nat mp < 65536" by (auto simp: found_match_def)
  show "\<forall>i<4. data ! (pos + i) = data ! (nat mp + i)"
  proof (intro allI impI)
    fix i :: nat assume i: "i < 4"
    have "slice_of pos 4 data ! i = slice_of (nat mp) 4 data ! i"
      using assms(1) by (simp add: found_match_def)
    then show "data ! (pos + i) = data ! (nat mp + i)"
      using i assms(2) \<open>nat mp < pos\<close> by simp
  qed
qed

lemma lz_loop_decodes:
  assumes "decodes_to len data ls out" "ls \<le> pos" "\<forall>h. table h < int pos" "len < 2 ^ 64"
    "lz_loop data pos ls table out = (ls', out')"
  shows "decodes_to len data ls' out'"
  using assms
proof (induction data pos ls table out rule: lz_loop.induct)
  case (1 data pos ls table out)
  show ?case
  proof (cases "pos + 4 \<le> length data")
    case False
    with "1.prems" show ?thesis by (simp add: lz_loop.simps [of data pos])
  next
    case more: True
    define h where "h = hash4 data pos"
    define t where "t = table(h := sint (word_of_nat pos :: u32))"
    have t: "\<forall>h. t h < int (pos + k)" if "0 < k" for k
    proof
      fix g show "t g < int (pos + k)"
        using "1.prems"(3) sint_le [of pos] that by (cases "g = h") (auto simp: t_def intro: less_trans)
    qed
    show ?thesis
    proof (cases "found_match data pos (table h)")
      case False
      with more "1.prems"(5) have "lz_loop data (pos + 1) ls t out = (ls', out')"
        by (simp add: lz_loop.simps [of data pos] Let_def h_def t_def)
      then show ?thesis
        using "1.IH"(2) [OF more h_def refl t_def] False "1.prems" t [of 1] by simp
    next
      case True
      let ?mp = "nat (table h)"
      define n where "n = extend_match data pos ?mp 4"
      note m = found_matchD [OF True more] "1.prems"(3)
      have mp: "table h < int pos" using "1.prems"(3) by blast
      note m = found_matchD [OF True more mp]
      have n: "4 \<le> n" "n \<le> 255" "pos + n \<le> length data" "\<forall>i<n. data ! (pos + i) = data ! (?mp + i)"
        using extend_match_spec [OF m(3) more] by (auto simp: n_def)
      have "decodes_to len data (pos + n) (out @ emit_match data ls pos ?mp n)"
        using "1.prems" m n by (intro decodes_to_emit) auto
      moreover have "lz_loop data (pos + n) (pos + n) t (out @ emit_match data ls pos ?mp n) = (ls', out')"
        using "1.prems"(5) more True by (simp add: lz_loop.simps [of data pos] Let_def h_def t_def n_def)
      ultimately show ?thesis
        using "1.IH"(1) [OF more h_def refl t_def _ n_def] True "1.prems"(4) t [of n] n(1) by simp
    qed
  qed
qed

text \<open>The LZ coder is lossless on every input whose code fits in memory.\<close>

lemma zstd_roundtrip:
  assumes "length (zstd_compress data) < 2 ^ 64"
  shows "zstd_decompress (zstd_compress data) = Some data"
proof (cases "length data \<le> 16")
  case False
  obtain ls out where lo: "lz_loop data 0 0 (\<lambda>_. -1) [0x00] = (ls, out)" by (rule prod.exhaust)
  let ?lits = "slice_of ls (length data - ls) data"
  let ?z = "out @ varint (length data - ls) @ ?lits @ [0, 0, 0]"
  have z: "zstd_compress data = ?z" using False lo by (simp add: zstd_compress_def Let_def)
  have "decodes_to (length ?z) data 0 [0x00]" by (simp add: decodes_to_def)
  then have d: "decodes_to (length ?z) data ls out"
  proof (rule lz_loop_decodes [OF _ _ _ _ lo])
    show "length ?z < 2 ^ 64" using assms by (simp only: z)
  qed simp_all
  then obtain rest where out: "out = 0 # rest" by (cases out) (auto simp: decodes_to_def)
  have ls: "ls \<le> length data" using d by (simp add: decodes_to_def)
  then have len: "length ?lits = length data - ls" by simp
  let ?tail = "varint (length data - ls) @ ?lits @ [0, 0, 0]"
  have "zstd_decompress ?z = lz_decode (length ?z) (tl out @ ?tail) []"
    by (simp add: zstd_decompress_def out)
  also have "\<dots> = lz_decode (length ?z) ?tail (take ls data)"
    using d [unfolded decodes_to_def] by blast
  also have "\<dots> = Some (take ls data @ ?lits)"
  proof -
    have "length ?z < 2 ^ 64" using assms by (simp only: z)
    moreover have "length ?tail \<le> length ?z" "length data - ls \<le> length ?z" using len by simp_all
    ultimately have "length ?tail < 2 ^ 64" "length data - ls < 2 ^ 64" "length ?tail \<le> length ?z" "length ?z < 2 ^ 64"
      by linarith+
    from decode_run [OF this(1) refl len this(2-4), of "take ls data"] show ?thesis by simp
  qed
  also have "take ls data @ ?lits = data" using take_slice [OF ls, of data] by simp
  finally show ?thesis by (simp only: z)
qed (simp add: zstd_compress_def zstd_decompress_def)

subsection \<open>Lossless coders and their composition\<close>

locale lossless =
  fixes enc :: "'a \<Rightarrow> 'b"
    and dec :: "'b \<Rightarrow> 'a option"
    and fits :: "'a \<Rightarrow> bool"
  assumes roundtrip: "fits x \<Longrightarrow> dec (enc x) = Some x"
begin

lemma enc_inject: "fits x \<Longrightarrow> fits y \<Longrightarrow> enc x = enc y \<Longrightarrow> x = y"
  by (metis roundtrip option.inject)

end

locale two_stage = inner: lossless e1 d1 f1 + outer: lossless e2 d2 f2
  for e1 :: "'a \<Rightarrow> 'b" and d1 f1 and e2 :: "'b \<Rightarrow> 'c" and d2 f2

sublocale two_stage \<subseteq> composed: lossless "\<lambda>x. e2 (e1 x)" "\<lambda>y. d2 y \<bind> d1" "\<lambda>x. f1 x \<and> f2 (e1 x)"
  by unfold_locales (simp add: inner.roundtrip outer.roundtrip)

interpretation delta: lossless delta_encode "\<lambda>y. Some (delta_decode y)" "\<lambda>_. True"
  by unfold_locales (simp add: delta_decode_encode)

interpretation lz: lossless zstd_compress zstd_decompress "\<lambda>x. length (zstd_compress x) < 2 ^ 64"
  by unfold_locales (rule zstd_roundtrip)

interpretation delta_lz: two_stage delta_encode "\<lambda>y. Some (delta_decode y)" "\<lambda>_. True"
  zstd_compress zstd_decompress "\<lambda>x. length (zstd_compress x) < 2 ^ 64"
  by unfold_locales

subsection \<open>The quantiser\<close>

text \<open>
  \<open>qz\<close> and \<open>dq\<close> stand for the floating-point arithmetic: \<open>qz\<close> gives, for the bit patterns of the
  floats, those of \<open>fmin\<close> and \<open>fmax\<close> and the quantisation of one float; \<open>dq\<close> gives back the bits of
  \<open>fmin + q * inv_scale\<close>.
\<close>

type_synonym quantiser = "u32 list \<Rightarrow> u32 \<times> u32 \<times> (u32 \<Rightarrow> u8)"

type_synonym dequantiser = "u32 \<Rightarrow> u32 \<Rightarrow> u8 \<Rightarrow> u32"

definition float_at :: "u8 list \<Rightarrow> nat \<Rightarrow> u32" where
  "float_at data i = word_of_nat (le_value (slice_of (4 * i) 4 data))"

definition quantize_compress :: "quantiser \<Rightarrow> u8 list \<Rightarrow> u8 list" where
  "quantize_compress qz data =
     (let num_floats = length data div 4 in
      if num_floats = 0 \<or> length data mod 4 \<noteq> 0 then delta_encode data
      else (let floats = map (float_at data) [0..<num_floats];
                (fmin, fmax, q) = qz floats
            in le_bytes 4 (unat fmin) @ le_bytes 4 (unat fmax) @ le_bytes 4 num_floats @ map q floats))"

definition quantize_decompress :: "dequantiser \<Rightarrow> u8 list \<Rightarrow> u8 list" where
  "quantize_decompress dq data =
     (if length data < 12 then delta_decode data
      else (let count = unat (float_at data 2) in
            if length data < 12 + count then delta_decode data
            else concat (map (\<lambda>q. le_bytes 4 (unat (dq (float_at data 0) (float_at data 1) q)))
                          (slice_of 12 count data))))"

subsection \<open>The container\<close>

definition COMPRESS_MAGIC :: nat where
  "COMPRESS_MAGIC = 0x534C5443"

definition HEADER_SIZE :: nat where
  "HEADER_SIZE = 24"

definition block_header :: "compression_type \<Rightarrow> nat \<Rightarrow> nat \<Rightarrow> u8 list" where
  "block_header t original_size compressed_size =
     le_bytes 4 COMPRESS_MAGIC @ [word_of_nat (type_code t), 0, 0, 0]
       @ le_bytes 8 original_size @ le_bytes 8 compressed_size"

definition payload_of :: "quantiser \<Rightarrow> compression_type \<Rightarrow> u8 list \<Rightarrow> u8 list" where
  "payload_of qz t src = (case t of
     None_Compression \<Rightarrow> src
   | Zstd \<Rightarrow> zstd_compress src
   | Delta \<Rightarrow> delta_encode src
   | Quantize \<Rightarrow> quantize_compress qz src
   | DeltaZstd \<Rightarrow> zstd_compress (delta_encode src))"

definition compress :: "quantiser \<Rightarrow> u8 list \<Rightarrow> compression_type \<Rightarrow> string + u8 list" where
  "compress qz data t =
     (if data = [] then Inl ''Cannot compress empty data''
      else (let payload = payload_of qz t data in
            if payload = [] \<and> t \<noteq> None_Compression then Inl ''Compression produced empty output''
            else Inr (block_header t (length data) (length payload) @ payload)))"

text \<open>
  The addition \<open>HEADER_SIZE + hdr.compressed_size\<close> wraps, and a size that passes the test only
  because it wrapped makes the payload run past the end of the block.
\<close>

definition decompress :: "dequantiser \<Rightarrow> u8 list \<Rightarrow> (string + u8 list) option" where
  "decompress dq compressed =
     (if length compressed < HEADER_SIZE then Some (Inl ''Data too small for header'')
      else (let magic = le_value (slice_of 0 4 compressed);
                tc = unat (compressed ! 4);
                compressed_size = le_value (slice_of 16 8 compressed)
            in if magic \<noteq> COMPRESS_MAGIC then Some (Inl ''Invalid compression magic'')
               else if size_t (HEADER_SIZE + compressed_size) > length compressed
               then Some (Inl ''Truncated compressed data'')
               else if HEADER_SIZE + compressed_size > length compressed then None
               else (let payload = slice_of HEADER_SIZE compressed_size compressed in
                     map_option Inr
                       (if tc = 0 then Some payload
                        else if tc = 1 then zstd_decompress payload
                        else if tc = 2 then Some (delta_decode payload)
                        else if tc = 3 then Some (quantize_decompress dq payload)
                        else if tc = 4 then zstd_decompress payload \<bind> (\<lambda>d. Some (delta_decode d))
                        else Some []))))"

lemma length_block_header [simp]: "length (block_header t n m) = 24"
  by (simp add: block_header_def)

lemma header_fields:
  assumes "m < 2 ^ 64"
  shows "le_value (slice_of 0 4 (block_header t n m @ p)) = COMPRESS_MAGIC"
    "unat ((block_header t n m @ p) ! 4) = type_code t"
    "le_value (slice_of 16 8 (block_header t n m @ p)) = m"
    "slice_of 24 m (block_header t n m @ p) = take m p"
proof -
  show "le_value (slice_of 0 4 (block_header t n m @ p)) = COMPRESS_MAGIC"
    by (simp add: slice_of_def block_header_def COMPRESS_MAGIC_def)
  show "unat ((block_header t n m @ p) ! 4) = type_code t"
    by (cases t) (simp_all add: block_header_def nth_append)
  have "slice_of 16 8 (block_header t n m @ p) = le_bytes 8 m"
    by (simp add: slice_of_def block_header_def)
  then show "le_value (slice_of 16 8 (block_header t n m @ p)) = m"
    using assms by simp
  show "slice_of 24 m (block_header t n m @ p) = take m p"
    by (simp add: slice_of_def)
qed

lemma zstd_nonempty: "zstd_compress data \<noteq> []"
  by (simp add: zstd_compress_def Let_def split: prod.split)

lemma compress_some:
  assumes "data \<noteq> []" "t \<noteq> Quantize"
  shows "compress qz data t = Inr (block_header t (length data) (length (payload_of qz t data)) @ payload_of qz t data)"
proof -
  have "delta_encode data \<noteq> []" using assms(1) by (metis length_delta_encode length_0_conv)
  then show ?thesis
    using assms by (cases t) (simp_all add: compress_def payload_of_def zstd_nonempty Let_def)
qed

lemma container_roundtrip:
  assumes "compress qz data t = Inr block" "t \<noteq> Quantize" "length block < 2 ^ 64"
  shows "decompress dq block = Some (Inr data)"
proof -
  let ?p = "payload_of qz t data"
  have "data \<noteq> []" using assms(1) by (auto simp: compress_def)
  then have b: "block = block_header t (length data) (length ?p) @ ?p"
    using assms by (simp add: compress_some)
  have l: "24 + length ?p < 2 ^ 64" using assms(3) b by simp
  then have "length ?p < 2 ^ 64" by simp
  note h = header_fields [OF this, of t "length data" ?p]
  have d: "map_option Inr
       (if type_code t = 0 then Some ?p else if type_code t = 1 then zstd_decompress ?p
        else if type_code t = 2 then Some (delta_decode ?p)
        else if type_code t = 3 then Some (quantize_decompress dq ?p)
        else if type_code t = 4 then zstd_decompress ?p \<bind> (\<lambda>d. Some (delta_decode d))
        else Some []) = Some (Inr data)"
    using l assms(2) lz.roundtrip delta.roundtrip delta_lz.composed.roundtrip
    by (cases t) (simp_all add: payload_of_def)
  show ?thesis
    using l d by (simp add: decompress_def b HEADER_SIZE_def h Let_def)
qed

text \<open>C2. The codec is lossless: what \<open>compress\<close> produces for a non-empty buffer with any of the types
  None, Zstd, Delta and DeltaZstd, \<open>decompress\<close> turns back into exactly that buffer.\<close>

theorem compress_roundtrip:
  assumes "compress qz data t = Inr block" "t \<noteq> Quantize" "length block < 2 ^ 64"
  shows "decompress dq block = Some (Inr data)"
  using assms by (rule container_roundtrip)


definition no_quantiser :: quantiser where
  "no_quantiser fs = (0, 0, \<lambda>_. 0)"

lemma lz_end: "length data < pos + 4 \<Longrightarrow> lz_loop data pos ls table out = (ls, out)"
  by (subst lz_loop.simps) simp

lemma lz_skip:
  "pos + 4 \<le> length data \<Longrightarrow> \<not> found_match data pos (table (hash4 data pos)) \<Longrightarrow>
   lz_loop data pos ls table out =
     lz_loop data (pos + 1) ls (table(hash4 data pos := sint (word_of_nat pos :: u32))) out"
  by (subst lz_loop.simps) (simp add: Let_def)

lemma lz_hit:
  "pos + 4 \<le> length data \<Longrightarrow> found_match data pos (table (hash4 data pos)) \<Longrightarrow>
   n = extend_match data pos (nat (table (hash4 data pos))) 4 \<Longrightarrow>
   lz_loop data pos ls table out =
     lz_loop data (pos + n) (pos + n) (table(hash4 data pos := sint (word_of_nat pos :: u32)))
       (out @ emit_match data ls pos (nat (table (hash4 data pos))) n)"
  by (subst lz_loop.simps) (simp add: Let_def)

lemma demo_code: "zstd_compress (delta_encode (replicate 20 7)) = [0, 2, 7, 0, 1, 0, 18, 0, 0, 0, 0]"
proof -
  let ?d = "[7, 0, 0, 0, 0, 0, 0, 0, 0, 0, 0, 0, 0, 0, 0, 0, 0, 0, 0, 0] :: u8 list"
  have d: "delta_encode (replicate 20 7) = ?d" by code_simp
  have h: "hash4 ?d 0 = 5345" "hash4 ?d (0 + 1) = 0" "hash4 ?d (0 + 1 + 1) = 0"
    by (simp_all add: hash4_def slice_of_def)
  have m: "18 = extend_match ?d (0 + 1 + 1) (nat 1) 4"
    by (simp add: extend_match.simps)
  have "lz_loop ?d 0 0 (\<lambda>_. -1) [0] = lz_loop ?d (0 + 1) 0 ((\<lambda>_. -1)(5345 := 0)) [0]"
    using lz_skip [of 0 ?d "\<lambda>_. -1" 0 "[0]", unfolded h(1)] by (simp add: found_match_def)
  also have "\<dots> = lz_loop ?d (0 + 1 + 1) 0 ((\<lambda>_. -1)(5345 := 0, 0 := 1)) [0]"
    using lz_skip [of "0 + 1" ?d "(\<lambda>_. -1)(5345 := 0)" 0 "[0]", unfolded h(2)] by (simp add: found_match_def)
  also have "\<dots> = (0 + 1 + 1 + 18, [0] @ emit_match ?d 0 (0 + 1 + 1) (nat 1) 18)"
  proof -
    let ?t = "(\<lambda>_. -1)(5345 := 0, 0 := 1) :: nat \<Rightarrow> int"
    have t: "?t (hash4 ?d (0 + 1 + 1)) = 1" by (simp only: h) simp
    have f: "found_match ?d (0 + 1 + 1) (?t (hash4 ?d (0 + 1 + 1)))"
      unfolding t by (simp add: found_match_def slice_of_def)
    have "18 = extend_match ?d (0 + 1 + 1) (nat (?t (hash4 ?d (0 + 1 + 1)))) 4"
      unfolding t by (rule m)
    from lz_hit [where pos = "0 + 1 + 1" and data = ?d and table = ?t, OF _ f this] show ?thesis
      unfolding t by (simp add: lz_end)
  qed
  finally show ?thesis
    by (simp add: d zstd_compress_def emit_match_def varint.simps slice_of_def)
qed

lemma demo_compressed: "compress no_quantiser (replicate 20 7) DeltaZstd =
    Inr (block_header DeltaZstd 20 11 @ [0, 2, 7, 0, 1, 0, 18, 0, 0, 0, 0])"
proof -
  have p: "payload_of no_quantiser DeltaZstd (replicate 20 7) = [0, 2, 7, 0, 1, 0, 18, 0, 0, 0, 0]"
    by (simp only: payload_of_def compression_type.case demo_code)
  have n: "length ([0, 2, 7, 0, 1, 0, 18, 0, 0, 0, 0] :: u8 list) = 11" by simp
  have "replicate 20 7 \<noteq> ([] :: u8 list)" "DeltaZstd \<noteq> Quantize" by simp_all
  from compress_some [OF this, of no_quantiser] show ?thesis
    by (simp only: p n length_replicate)
qed

lemma compress_roundtrip_witness:
  "decompress (\<lambda>_ _ _. 0) (block_header DeltaZstd 20 11 @ [0, 2, 7, 0, 1, 0, 18, 0, 0, 0, 0]) =
     Some (Inr (replicate 20 7))"
  by (rule compress_roundtrip [OF demo_compressed]) simp_all

text \<open>A block that lost its tail is rejected: every proper prefix of a compressed block yields an error
  and is never decoded.\<close>

theorem truncated_block_rejected:
  assumes "compress qz data t = Inr block" "length block < 2 ^ 64" "n < length block"
  shows "\<exists>e. decompress dq (take n block) = Some (Inl e)"
proof (cases "n < 24")
  case True
  with assms(3) show ?thesis by (simp add: decompress_def HEADER_SIZE_def)
next
  case False
  let ?p = "payload_of qz t data"
  have b: "block = block_header t (length data) (length ?p) @ ?p"
    using assms(1) by (auto simp: compress_def Let_def split: if_splits)
  have l: "24 + length ?p < 2 ^ 64" using assms(2) b by simp
  then have "length ?p < 2 ^ 64" by simp
  note h = header_fields [OF this, of t "length data" "take (n - 24) ?p"]
  have "take n block = block_header t (length data) (length ?p) @ take (n - 24) ?p"
    using False by (simp add: b)
  moreover have "n < 24 + length ?p" using assms(3) b by simp
  ultimately show ?thesis
    using l False h by (simp add: decompress_def HEADER_SIZE_def Let_def min_absorb2)
qed

lemma truncated_block_rejected_witness:
  "\<exists>e. decompress (\<lambda>_ _ _. 0)
     (take 30 (block_header DeltaZstd 20 11 @ [0, 2, 7, 0, 1, 0, 18, 0, 0, 0, 0])) = Some (Inl e)"
  by (rule truncated_block_rejected [OF demo_compressed]) simp_all

text \<open>The \<open>Quantize\<close> type does not tell its fallback from its own format: a buffer whose length is no
  multiple of four is delta coded by \<open>compress\<close>, but a code of twelve bytes or more is read as a
  quantised block by \<open>decompress\<close>.  Thirteen zero bytes come back as no bytes at all, whatever the
  floating-point arithmetic.\<close>

theorem quantize_fallback_lost:
  "\<exists>block. compress qz (replicate 13 0) Quantize = Inr block \<and> decompress dq block = Some (Inr [])"
proof -
  have d: "delta_encode (replicate 13 0) = replicate 13 0" by code_simp
  let ?b = "block_header Quantize 13 13 @ replicate 13 0"
  have "compress qz (replicate 13 0) Quantize = Inr ?b"
    by (simp add: compress_def payload_of_def quantize_compress_def d Let_def)
  moreover have "float_at (replicate 13 0) 2 = 0" by code_simp
  then have "quantize_decompress dq (replicate 13 0) = []"
    by (simp add: quantize_decompress_def Let_def slice_of_def)
  then have "decompress dq ?b = Some (Inr [])"
    using header_fields [of 13 Quantize 13 "replicate 13 0"]
    by (simp add: decompress_def HEADER_SIZE_def Let_def)
  ultimately show ?thesis by blast
qed

text \<open>The decoder trusts sizes it read: a block whose compressed size is \<open>2^64 - 1\<close> passes the
  truncation test because the sum wraps, and the payload is read past the end of the block.\<close>

theorem wrapped_size_accepted:
  "decompress dq (block_header t n (2 ^ 64 - 1)) = None"
proof -
  note h = header_fields [of "2 ^ 64 - 1" t n "[]"]
  have "size_t (24 + (2 ^ 64 - 1)) = 23" by (simp add: size_t_def)
  then show ?thesis using h by (simp add: decompress_def HEADER_SIZE_def Let_def COMPRESS_MAGIC_def)
qed

end
