(* ===== verification/Block_Cache.thy ===== *)
theory Block_Cache
  imports Bytes
begin

text \<open>
  The two least-recently-used caches of the file system: \<open>BlockCache\<close> (\<open>bin/fuse/cache.cpp\<close>) and
  \<open>TensorBlockCache\<close> (\<open>bin/fuse/tensor_fs.cpp\<close>).  Both keep a \<open>std::list\<close> of entries and a map from
  keys to iterators into it.  An iterator is the identity of a list node here, so that following one
  whose node was erased is the value \<open>None\<close>.  Each public operation holds the cache's mutex.
\<close>

subsection \<open>List nodes, iterators and the map\<close>

record 'k node =
  node_id :: nat
  node_key :: 'k
  node_data :: "u8 list"

record 'k lru =
  max_bytes :: nat
  current_bytes :: nat
  lru_list :: "'k node list"
  index :: "'k \<Rightarrow> nat option"
  next_node :: nat

record 'k counted_lru = "'k lru" +
  hits :: u64
  misses :: u64

text \<open>Arithmetic on \<open>size_t\<close> wraps.\<close>

definition size_add :: "nat \<Rightarrow> nat \<Rightarrow> nat" where
  "size_add a b = size_t (a + b)"

definition size_sub :: "nat \<Rightarrow> nat \<Rightarrow> nat" where
  "size_sub a b = size_t (a + 2 ^ 64 - b)"

definition empty_lru :: "nat \<Rightarrow> 'k lru" where
  "empty_lru mx = \<lparr>max_bytes = mx, current_bytes = 0, lru_list = [], index = Map.empty, next_node = 0\<rparr>"

definition deref :: "nat \<Rightarrow> ('k, 'a) lru_scheme \<Rightarrow> 'k node option" where
  "deref i c = find (\<lambda>n. node_id n = i) (lru_list c)"

definition splice_front :: "nat \<Rightarrow> ('k, 'a) lru_scheme \<Rightarrow> ('k, 'a) lru_scheme option" where
  "splice_front i c = do {
     n \<leftarrow> deref i c;
     Some (c\<lparr>lru_list := n # filter (\<lambda>m. node_id m \<noteq> i) (lru_list c)\<rparr>) }"

definition evict_lru :: "('k, 'a) lru_scheme \<Rightarrow> ('k, 'a) lru_scheme" where
  "evict_lru c =
     (if lru_list c = [] then c
      else (let victim = last (lru_list c) in
            c\<lparr>current_bytes := size_sub (current_bytes c) (length (node_data victim)),
              index := (index c)(node_key victim := None),
              lru_list := butlast (lru_list c)\<rparr>))"

function make_room :: "nat \<Rightarrow> ('k, 'a) lru_scheme \<Rightarrow> ('k, 'a) lru_scheme" where
  "make_room data_size c =
     (if size_add (current_bytes c) data_size > max_bytes c \<and> lru_list c \<noteq> []
      then make_room data_size (evict_lru c) else c)"
  by pat_completeness auto
termination
  by (relation "measure (\<lambda>(n, c). length (lru_list c))") (auto simp: evict_lru_def Let_def)

declare make_room.simps [simp del]

definition insert_front :: "'k \<Rightarrow> u8 list \<Rightarrow> ('k, 'a) lru_scheme \<Rightarrow> ('k, 'a) lru_scheme" where
  "insert_front key data c =
     c\<lparr>lru_list := \<lparr>node_id = next_node c, node_key = key, node_data = data\<rparr> # lru_list c,
       index := (index c)(key \<mapsto> next_node c),
       current_bytes := size_add (current_bytes c) (length data),
       next_node := next_node c + 1\<rparr>"

text \<open>The loop of \<open>evict\<close>: \<open>kept\<close> is the part of the list before the iterator.\<close>

fun evict_walk :: "('k \<Rightarrow> bool) \<Rightarrow> 'k node list \<Rightarrow> 'k node list \<Rightarrow> ('k, 'a) lru_scheme \<Rightarrow> ('k, 'a) lru_scheme" where
  "evict_walk P kept [] c = c\<lparr>lru_list := kept\<rparr>"
| "evict_walk P kept (n # rest) c =
     (if P (node_key n)
      then evict_walk P kept rest
             (c\<lparr>current_bytes := size_sub (current_bytes c) (length (node_data n)),
                index := (index c)(node_key n := None)\<rparr>)
      else evict_walk P (kept @ [n]) rest c)"

subsection \<open>\<open>BlockCache\<close>\<close>

record cache_key =
  path :: string
  offset :: nat
  len :: nat

type_synonym block_cache = "cache_key counted_lru"

definition new_block_cache :: "nat \<Rightarrow> block_cache" where
  "new_block_cache mx = lru.extend (empty_lru mx) \<lparr>hits = 0, misses = 0\<rparr>"

definition get :: "string \<Rightarrow> nat \<Rightarrow> nat \<Rightarrow> block_cache \<Rightarrow> (block_cache \<times> (string + u8 list)) option" where
  "get p off n c =
     (case index c \<lparr>path = p, offset = off, len = n\<rparr> of
        None \<Rightarrow> Some (c\<lparr>misses := misses c + 1\<rparr>, Inl ''cache miss'')
      | Some it \<Rightarrow> do {
          c \<leftarrow> splice_front it c;
          e \<leftarrow> deref it c;
          Some (c\<lparr>hits := hits c + 1\<rparr>, Inr (node_data e)) })"

text \<open>Replacing the data of the entry behind an iterator.\<close>

definition set_data :: "nat \<Rightarrow> u8 list \<Rightarrow> ('k, 'a) lru_scheme \<Rightarrow> ('k, 'a) lru_scheme option" where
  "set_data i data c = do {
     e \<leftarrow> deref i c;
     Some (c\<lparr>lru_list := map (\<lambda>n. if node_id n = i then n\<lparr>node_data := data\<rparr> else n) (lru_list c),
       current_bytes := size_add (size_sub (current_bytes c) (length (node_data e))) (length data)\<rparr>) }"

definition put :: "string \<Rightarrow> nat \<Rightarrow> u8 list \<Rightarrow> block_cache \<Rightarrow> block_cache option" where
  "put p off data c =
     (let key = \<lparr>path = p, offset = off, len = length data\<rparr> in
      case index c key of
        Some it \<Rightarrow> set_data it data c \<bind> splice_front it
      | None \<Rightarrow>
          (let c = make_room (length data) c in
           if length data > max_bytes c then Some c else Some (insert_front key data c)))"

definition evict :: "string \<Rightarrow> block_cache \<Rightarrow> block_cache" where
  "evict p c = evict_walk (\<lambda>k. path k = p) [] (lru_list c) c"

definition cache_size :: "block_cache \<Rightarrow> nat" where
  "cache_size c = current_bytes c"

definition block_count :: "block_cache \<Rightarrow> nat" where
  "block_count c = length (lru_list c)"

subsection \<open>\<open>TensorBlockCache\<close>\<close>

record inode_key =
  inode :: u64
  block_idx :: u32

type_synonym tensor_cache = "inode_key lru"

definition tensor_get :: "inode_key \<Rightarrow> tensor_cache \<Rightarrow> (tensor_cache \<times> (string + u8 list)) option" where
  "tensor_get key c =
     (case index c key of
        None \<Rightarrow> Some (c, Inl ''miss'')
      | Some it \<Rightarrow> do {
          c \<leftarrow> splice_front it c;
          e \<leftarrow> deref it c;
          Some (c, Inr (node_data e)) })"

definition erase_node :: "nat \<Rightarrow> 'k \<Rightarrow> ('k, 'a) lru_scheme \<Rightarrow> ('k, 'a) lru_scheme option" where
  "erase_node i key c = do {
     e \<leftarrow> deref i c;
     Some (c\<lparr>current_bytes := size_sub (current_bytes c) (length (node_data e)),
       lru_list := filter (\<lambda>n. node_id n \<noteq> i) (lru_list c),
       index := (index c)(key := None)\<rparr>) }"

definition tensor_put :: "inode_key \<Rightarrow> u8 list \<Rightarrow> tensor_cache \<Rightarrow> tensor_cache option" where
  "tensor_put key data c = do {
     c \<leftarrow> (case index c key of None \<Rightarrow> Some c | Some it \<Rightarrow> erase_node it key c);
     Some (insert_front key data (make_room (length data) c)) }"

definition tensor_evict :: "u64 \<Rightarrow> tensor_cache \<Rightarrow> tensor_cache" where
  "tensor_evict ino c = evict_walk (\<lambda>k. inode k = ino) [] (lru_list c) c"

subsection \<open>Well-formed caches\<close>

text \<open>What a cache holds, and the bytes of its entries.\<close>

definition lookup :: "('k, 'a) lru_scheme \<Rightarrow> 'k \<Rightarrow> u8 list option" where
  "lookup c k = map_option node_data (find (\<lambda>n. node_key n = k) (lru_list c))"

definition bytes_in :: "'k node list \<Rightarrow> nat" where
  "bytes_in ns = sum_list (map (\<lambda>n. length (node_data n)) ns)"

definition lru_ok :: "('k, 'a) lru_scheme \<Rightarrow> bool" where
  "lru_ok c \<longleftrightarrow>
     distinct (map node_id (lru_list c)) \<and> distinct (map node_key (lru_list c))
     \<and> (\<forall>n\<in>set (lru_list c). node_id n < next_node c)
     \<and> (\<forall>k i. index c k = Some i \<longleftrightarrow> (\<exists>n\<in>set (lru_list c). node_key n = k \<and> node_id n = i))
     \<and> current_bytes c = bytes_in (lru_list c) \<and> bytes_in (lru_list c) < 2 ^ 64"

lemma bytes_in_simps [simp]:
  "bytes_in [] = 0" "bytes_in (n # ns) = length (node_data n) + bytes_in ns"
  "bytes_in (ns @ ms) = bytes_in ns + bytes_in ms"
  by (simp_all add: bytes_in_def)

lemma size_sub_le [simp]: "b \<le> a \<Longrightarrow> a < 2 ^ 64 \<Longrightarrow> size_sub a b = a - b"
proof -
  assume "b \<le> a" "a < 2 ^ 64"
  then have "a + 2 ^ 64 - b = (a - b) + 2 ^ 64" "a - b < 2 ^ 64" by simp_all
  then show ?thesis unfolding size_sub_def size_t_def by (simp only: mod_add_self2 mod_less)
qed

lemma size_add_small [simp]: "a + b < 2 ^ 64 \<Longrightarrow> size_add a b = a + b"
  by (simp add: size_add_def)

lemma find_unique:
  assumes "distinct (map f xs)" "x \<in> set xs"
  shows "find (\<lambda>y. f y = f x) xs = Some x"
  using assms by (induction xs) (auto simp: image_iff)

lemma lru_okD:
  assumes "lru_ok c" "index c k = Some i"
  obtains n where "n \<in> set (lru_list c)" "node_key n = k" "node_id n = i" "deref i c = Some n"
    "lookup c k = Some (node_data n)"
proof -
  from assms obtain n where n: "n \<in> set (lru_list c)" "node_key n = k" "node_id n = i"
    by (auto simp: lru_ok_def)
  with assms(1) have "deref i c = Some n" "lookup c k = Some (node_data n)"
    using find_unique [of node_id "lru_list c" n] find_unique [of node_key "lru_list c" n]
    by (auto simp: deref_def lookup_def lru_ok_def)
  with n show thesis by (rule that)
qed

lemma lookup_None: "lru_ok c \<Longrightarrow> index c k = None \<Longrightarrow> lookup c k = None"
  by (auto simp: lookup_def find_None_iff lru_ok_def)
     (metis option.distinct(1))

lemma lookup_index: "lru_ok c \<Longrightarrow> (lookup c k = None) = (index c k = None)"
  by (cases "index c k") (auto simp: lookup_None elim: lru_okD)

subsection \<open>The steps of an operation keep a cache well formed\<close>

lemma lookup_iff:
  assumes "lru_ok c"
  shows "lookup c k = Some d \<longleftrightarrow> (\<exists>n\<in>set (lru_list c). node_key n = k \<and> node_data n = d)"
proof
  assume "lookup c k = Some d"
  then obtain n where "find (\<lambda>n. node_key n = k) (lru_list c) = Some n" "node_data n = d"
    by (auto simp: lookup_def)
  then show "\<exists>n\<in>set (lru_list c). node_key n = k \<and> node_data n = d"
    by (auto simp: find_Some_iff)
next
  assume "\<exists>n\<in>set (lru_list c). node_key n = k \<and> node_data n = d"
  with assms show "lookup c k = Some d"
    using find_unique [of node_key "lru_list c"] by (auto simp: lookup_def lru_ok_def)
qed

lemma lookup_same_set:
  assumes "lru_ok c" "lru_ok c'" "set (lru_list c') = set (lru_list c)"
  shows "lookup c' = lookup c"
proof
  fix k show "lookup c' k = lookup c k"
    using lookup_iff [OF assms(1), of k] lookup_iff [OF assms(2), of k] assms(3)
    by (cases "lookup c' k"; cases "lookup c k") auto
qed

lemma to_front:
  assumes "distinct (map f xs)" "x \<in> set xs"
  shows "mset (x # filter (\<lambda>y. f y \<noteq> f x) xs) = mset xs"
  using assms
proof (induction xs)
  case (Cons y ys)
  show ?case
  proof (cases "x = y")
    case True
    with Cons.prems have "filter (\<lambda>z. f z \<noteq> f x) ys = ys" by (auto simp: filter_id_conv image_iff)
    with True show ?thesis by simp
  next
    case False
    with Cons.prems have "x \<in> set ys" "f x \<noteq> f y" by (auto simp: image_iff)
    with Cons show ?thesis by (auto simp: add_mset_commute)
  qed
qed simp

lemma bytes_in_mset: "mset ns = mset ms \<Longrightarrow> bytes_in ns = bytes_in ms"
  by (metis bytes_in_def mset_map sum_mset_sum_list)

lemma lru_ok_permute:
  assumes "lru_ok c" "mset ns = mset (lru_list c)"
  shows "lru_ok (c\<lparr>lru_list := ns\<rparr>)"
proof -
  from assms(2) have "set ns = set (lru_list c)" "bytes_in ns = bytes_in (lru_list c)"
    by (auto dest: mset_eq_setD bytes_in_mset)
  moreover have "distinct (map node_id ns) = distinct (map node_id (lru_list c))"
    "distinct (map node_key ns) = distinct (map node_key (lru_list c))"
    using assms(2) by (metis mset_map mset_eq_imp_distinct_iff)+
  ultimately show ?thesis
    using assms(1) by (simp add: lru_ok_def)
qed

lemma splice_front_spec:
  assumes "lru_ok c" "index c k = Some i"
  obtains n where "splice_front i c = Some (c\<lparr>lru_list := n # filter (\<lambda>m. node_id m \<noteq> i) (lru_list c)\<rparr>)"
    "lru_ok (c\<lparr>lru_list := n # filter (\<lambda>m. node_id m \<noteq> i) (lru_list c)\<rparr>)"
    "lookup (c\<lparr>lru_list := n # filter (\<lambda>m. node_id m \<noteq> i) (lru_list c)\<rparr>) = lookup c"
    "node_id n = i" "lookup c k = Some (node_data n)" "node_key n = k"
proof -
  obtain n where n: "n \<in> set (lru_list c)" "node_key n = k" "node_id n = i" "deref i c = Some n"
    "lookup c k = Some (node_data n)" using lru_okD [OF assms] .
  have m: "mset (n # filter (\<lambda>m. node_id m \<noteq> i) (lru_list c)) = mset (lru_list c)"
    using to_front [of node_id "lru_list c" n] n assms(1) by (simp add: lru_ok_def)
  let ?c = "c\<lparr>lru_list := n # filter (\<lambda>m. node_id m \<noteq> i) (lru_list c)\<rparr>"
  have ok: "lru_ok ?c" by (rule lru_ok_permute [OF assms(1) m])
  have "set (lru_list ?c) = set (lru_list c)" using mset_eq_setD [OF m] by simp
  then have "lookup ?c = lookup c" by (rule lookup_same_set [OF assms(1) ok])
  with ok n show thesis by (intro that [of n]) (simp_all add: splice_front_def)
qed

lemma evict_lru_spec:
  assumes "lru_ok c" "lru_list c = ns @ [v]"
  shows "lru_ok (evict_lru c)" "lru_list (evict_lru c) = ns"
    "lookup (evict_lru c) = (lookup c)(node_key v := None)" "max_bytes (evict_lru c) = max_bytes c"
proof -
  show l: "lru_list (evict_lru c) = ns" "max_bytes (evict_lru c) = max_bytes c"
    using assms(2) by (simp_all add: evict_lru_def)
  show ok: "lru_ok (evict_lru c)"
    using assms by (auto simp: lru_ok_def evict_lru_def Let_def image_iff)
  have nk: "node_key v \<notin> node_key ` set ns" using assms by (auto simp: lru_ok_def)
  show "lookup (evict_lru c) = (lookup c)(node_key v := None)"
  proof
    fix k
    show "lookup (evict_lru c) k = ((lookup c)(node_key v := None)) k"
      using lookup_iff [OF assms(1), of k] lookup_iff [OF ok, of k] nk
      by (cases "lookup (evict_lru c) k"; cases "lookup c k") (auto simp: l assms(2) image_iff)
  qed
qed

lemma insert_front_spec:
  assumes "lru_ok c" "index c key = None" "current_bytes c + length data < 2 ^ 64"
  shows "lru_ok (insert_front key data c)" "lookup (insert_front key data c) = (lookup c)(key \<mapsto> data)"
proof -
  have nk: "key \<notin> node_key ` set (lru_list c)"
    using assms(1,2) by (auto simp: lru_ok_def) (metis option.distinct(1))
  show ok: "lru_ok (insert_front key data c)"
    using assms nk by (auto simp: lru_ok_def insert_front_def image_iff)
  show "lookup (insert_front key data c) = (lookup c)(key \<mapsto> data)"
  proof
    fix k
    show "lookup (insert_front key data c) k = ((lookup c)(key \<mapsto> data)) k"
      by (simp add: lookup_def insert_front_def)
  qed
qed


text \<open>\<open>make_room\<close> drops a suffix of the list, the least recently used entries, and no more than it must.\<close>

lemma make_room_spec:
  assumes "lru_ok c"
  shows "lru_ok (make_room n c) \<and> max_bytes (make_room n c) = max_bytes c
    \<and> (\<exists>k\<le>length (lru_list c). lru_list (make_room n c) = take k (lru_list c)
        \<and> (k < length (lru_list c) \<longrightarrow> max_bytes c < size_add (bytes_in (take (k + 1) (lru_list c))) n))
    \<and> (lru_list (make_room n c) = [] \<or> size_add (current_bytes (make_room n c)) n \<le> max_bytes c)
    \<and> (\<forall>key d. lookup (make_room n c) key = Some d \<longrightarrow> lookup c key = Some d)"
  using assms
proof (induction n c rule: make_room.induct)
  case (1 n c)
  show ?case
  proof (cases "size_add (current_bytes c) n > max_bytes c \<and> lru_list c \<noteq> []")
    case False
    then show ?thesis using "1.prems"
      by (subst (1 2 3 4 5 6) make_room.simps) (auto intro!: exI [of _ "length (lru_list c)"])
  next
    case True
    then obtain ns v where l: "lru_list c = ns @ [v]" by (cases "lru_list c" rule: rev_cases) auto
    let ?e = "evict_lru c"
    have e: "lru_ok ?e" "lru_list ?e = ns" "lookup ?e = (lookup c)(node_key v := None)"
      "max_bytes ?e = max_bytes c" using evict_lru_spec [OF "1.prems" l] by auto
    have eq: "make_room n c = make_room n ?e" using True by (subst make_room.simps) simp
    note IH = "1.IH" [OF True e(1)]
    from IH obtain k where k: "k \<le> length ns" "lru_list (make_room n ?e) = take k ns"
      "k < length ns \<longrightarrow> max_bytes c < size_add (bytes_in (take (k + 1) ns)) n"
      unfolding e by blast
    have "lru_list (make_room n c) = take k (lru_list c)" using k eq l by simp
    moreover have "max_bytes c < size_add (bytes_in (take (k + 1) (lru_list c))) n"
      if "k < length (lru_list c)"
    proof (cases "k < length ns")
      case False
      with k that True "1.prems" show ?thesis by (simp add: l lru_ok_def)
    qed (use k l in simp)
    ultimately have "\<exists>k\<le>length (lru_list c). lru_list (make_room n c) = take k (lru_list c)
        \<and> (k < length (lru_list c) \<longrightarrow> max_bytes c < size_add (bytes_in (take (k + 1) (lru_list c))) n)"
      using k(1) l by (intro exI [of _ k]) simp
    moreover have "lookup c key = Some d" if "lookup (make_room n ?e) key = Some d" for key d
    proof -
      have "lookup ?e key = Some d" using IH that by blast
      then show ?thesis by (simp add: e(3) split: if_splits)
    qed
    ultimately show ?thesis using IH unfolding eq e by blast
  qed
qed

lemma make_room_index:
  assumes "lru_ok c" "index c key = None"
  shows "index (make_room n c) key = None"
proof -
  have "lookup (make_room n c) key = None"
    using make_room_spec [OF assms(1), of n] lookup_None [OF assms]
    by (cases "lookup (make_room n c) key") auto
  then show ?thesis using make_room_spec [OF assms(1), of n] by (simp add: lookup_index)
qed

text \<open>\<open>evict\<close> removes the entries whose key satisfies \<open>P\<close>, and only those.\<close>

lemma evict_walk_ok:
  assumes "lru_ok (c\<lparr>lru_list := kept @ rest\<rparr>)" "\<forall>n\<in>set kept. \<not> P (node_key n)"
  shows "lru_ok (evict_walk P kept rest c)
    \<and> lru_list (evict_walk P kept rest c) = kept @ filter (\<lambda>n. \<not> P (node_key n)) rest
    \<and> max_bytes (evict_walk P kept rest c) = max_bytes c"
  using assms
proof (induction P kept rest c rule: evict_walk.induct)
  case (2 P kept n rest c)
  show ?case
  proof (cases "P (node_key n)")
    case True
    let ?c = "c\<lparr>current_bytes := size_sub (current_bytes c) (length (node_data n)),
                index := (index c)(node_key n := None)\<rparr>"
    have "lru_ok (?c\<lparr>lru_list := kept @ rest\<rparr>)"
      using "2.prems"(1) by (auto simp: lru_ok_def image_iff)
    with 2 True show ?thesis by simp
  next
    case False
    with 2 show ?thesis by auto
  qed
qed simp

lemma lookup_filter:
  assumes "lru_ok c" "lru_ok c'" "lru_list c' = filter (\<lambda>n. Q (node_key n)) (lru_list c)"
  shows "lookup c' k = (if Q k then lookup c k else None)"
proof -
  have "lookup c' k = Some d \<longleftrightarrow> Q k \<and> lookup c k = Some d" for d
    unfolding lookup_iff [OF assms(1)] lookup_iff [OF assms(2)] assms(3) by auto
  then show ?thesis by (metis not_Some_eq)
qed

lemma evict_walk_spec:
  assumes "lru_ok c"
  shows "lru_ok (evict_walk P [] (lru_list c) c)"
    "lookup (evict_walk P [] (lru_list c) c) k = (if P k then None else lookup c k)"
    "max_bytes (evict_walk P [] (lru_list c) c) = max_bytes c"
    "bytes_in (lru_list (evict_walk P [] (lru_list c) c)) \<le> bytes_in (lru_list c)"
proof -
  have "lru_ok (c\<lparr>lru_list := [] @ lru_list c\<rparr>)" using assms by (simp add: lru_ok_def)
  from evict_walk_ok [OF this, of P] have w: "lru_ok (evict_walk P [] (lru_list c) c)"
    "lru_list (evict_walk P [] (lru_list c) c) = filter (\<lambda>n. \<not> P (node_key n)) (lru_list c)"
    "max_bytes (evict_walk P [] (lru_list c) c) = max_bytes c" by auto
  then show "lru_ok (evict_walk P [] (lru_list c) c)" "max_bytes (evict_walk P [] (lru_list c) c) = max_bytes c" by auto
  show "lookup (evict_walk P [] (lru_list c) c) k = (if P k then None else lookup c k)"
    using lookup_filter [OF assms w(1,2), of k] by simp
  have "bytes_in (filter Q ns) \<le> bytes_in ns" for Q and ns :: "'a node list"
    by (induction ns) auto
  then show "bytes_in (lru_list (evict_walk P [] (lru_list c) c)) \<le> bytes_in (lru_list c)"
    by (simp add: w(2))
qed


subsection \<open>The operations of \<open>BlockCache\<close>\<close>

text \<open>
  A \<open>BlockCache\<close> files an entry under the length of its data, and stays within its limit.
\<close>

definition cache_ok :: "block_cache \<Rightarrow> bool" where
  "cache_ok c \<longleftrightarrow> lru_ok c \<and> current_bytes c \<le> max_bytes c
     \<and> (\<forall>k d. lookup c k = Some d \<longrightarrow> length d = len k)"

definition fits :: "block_cache \<Rightarrow> nat \<Rightarrow> bool" where
  "fits c n \<longleftrightarrow> max_bytes c + n < 2 ^ 64"

lemma lru_ok_counters [simp]:
  "lru_ok (c\<lparr>hits := h\<rparr>) = lru_ok (c :: 'k counted_lru)" "lru_ok (c\<lparr>misses := m\<rparr>) = lru_ok c"
  "lookup (c\<lparr>hits := h\<rparr>) = lookup c" "lookup (c\<lparr>misses := m\<rparr>) = lookup c"
  by (auto simp: lru_ok_def lookup_def)

lemma deref_head [simp]: "node_id n = i \<Longrightarrow> deref i (c\<lparr>lru_list := n # ns\<rparr>) = Some n"
  by (simp add: deref_def)

lemma get_hit:
  assumes "cache_ok c" "lookup c \<lparr>path = p, offset = off, len = n\<rparr> = Some d"
  shows "\<exists>c'. get p off n c = Some (c', Inr d) \<and> cache_ok c' \<and> lookup c' = lookup c \<and> max_bytes c' = max_bytes c"
proof -
  let ?k = "\<lparr>path = p, offset = off, len = n\<rparr>"
  have ok: "lru_ok c" using assms(1) by (simp add: cache_ok_def)
  from assms(2) lookup_index [OF ok, of ?k] obtain i where i: "index c ?k = Some i" by auto
  obtain m where m: "splice_front i c = Some (c\<lparr>lru_list := m # filter (\<lambda>m. node_id m \<noteq> i) (lru_list c)\<rparr>)"
    "lru_ok (c\<lparr>lru_list := m # filter (\<lambda>m. node_id m \<noteq> i) (lru_list c)\<rparr>)"
    "lookup (c\<lparr>lru_list := m # filter (\<lambda>m. node_id m \<noteq> i) (lru_list c)\<rparr>) = lookup c"
    "node_id m = i" "lookup c ?k = Some (node_data m)" using splice_front_spec [OF ok i] .
  then show ?thesis
    using assms by (simp add: get_def i cache_ok_def)
qed

lemma get_miss:
  assumes "cache_ok c" "lookup c \<lparr>path = p, offset = off, len = n\<rparr> = None"
  shows "get p off n c = Some (c\<lparr>misses := misses c + 1\<rparr>, Inl ''cache miss'')"
  using assms by (simp add: get_def cache_ok_def lookup_index)

lemma get_ok:
  assumes "cache_ok c"
  shows "\<exists>c' r. get p off n c = Some (c', r) \<and> cache_ok c' \<and> lookup c' = lookup c \<and> max_bytes c' = max_bytes c
    \<and> (\<forall>d. r = Inr d \<longleftrightarrow> lookup c \<lparr>path = p, offset = off, len = n\<rparr> = Some d)"
proof (cases "lookup c \<lparr>path = p, offset = off, len = n\<rparr>")
  case None
  with get_miss [OF assms None] assms show ?thesis by (simp add: cache_ok_def)
next
  case (Some d)
  with get_hit [OF assms Some] show ?thesis by auto
qed

lemma set_data_spec:
  fixes c :: "('a, 'b) lru_scheme"
  assumes l: "lru_ok c" "index c k = Some i" "lookup c k = Some old" "length data = length old"
  obtains c' where "set_data i data c = Some c'" "lru_ok c'" "lookup c' = (lookup c)(k \<mapsto> data)"
    "index c' = index c" "max_bytes c' = max_bytes c" "current_bytes c' = current_bytes c"
proof -
  obtain n where n: "n \<in> set (lru_list c)" "node_key n = k" "node_id n = i" "deref i c = Some n"
    "lookup c k = Some (node_data n)" using lru_okD [OF l(1,2)] .
  define f :: "'a node \<Rightarrow> 'a node" where "f m = (if node_id m = i then m\<lparr>node_data := data\<rparr> else m)" for m
  have f [simp]: "node_id (f m) = node_id m" "node_key (f m) = node_key m"
    "node_data (f m) = (if node_id m = i then data else node_data m)" for m
    by (simp_all add: f_def)
  let ?s = "c\<lparr>lru_list := map f (lru_list c),
     current_bytes := size_add (size_sub (current_bytes c) (length (node_data n))) (length data)\<rparr>"
  have same_node: "m = n" if "m \<in> set (lru_list c)" "node_id m = i \<or> node_key m = k" for m
    using that n l(1) by (auto simp: lru_ok_def distinct_map inj_on_def)
  have len: "length data = length (node_data n)" using l n by simp
  have cur: "length (node_data n) \<le> current_bytes c"
    using n(1) l by (auto simp: lru_ok_def bytes_in_def intro: member_le_sum_list)
  then have c: "current_bytes ?s = current_bytes c" using len l(1) by (simp add: lru_ok_def)
  have "bytes_in (map f ns) = bytes_in ns" if "set ns \<subseteq> set (lru_list c)" for ns
    using that
  proof (induction ns)
    case (Cons m ns)
    with same_node [of m] len show ?case by auto
  qed simp
  from this [OF subset_refl] have bytes: "bytes_in (lru_list ?s) = bytes_in (lru_list c)" by simp
  have ids: "map node_id (lru_list ?s) = map node_id (lru_list c)" "map node_key (lru_list ?s) = map node_key (lru_list c)"
    by simp_all
  have ex: "(\<exists>m\<in>set (lru_list ?s). node_key m = k' \<and> node_id m = j) \<longleftrightarrow>
      (\<exists>m\<in>set (lru_list c). node_key m = k' \<and> node_id m = j)" for k' j
    by auto
  have all: "(\<forall>m\<in>set (lru_list ?s). node_id m < next_node ?s) = (\<forall>m\<in>set (lru_list c). node_id m < next_node c)"
    by auto
  have ok: "lru_ok ?s"
    unfolding lru_ok_def ids ex all bytes c using l(1) by (simp add: lru_ok_def)
  have lk: "lookup ?s k' = Some d \<longleftrightarrow> ((lookup c)(k \<mapsto> data)) k' = Some d" for k' d
  proof (cases "k' = k")
    case True
    have "lookup ?s k = Some data"
      unfolding lookup_iff [OF ok] using n by (intro bexI [of _ "f n"]) auto
    with True show ?thesis by simp
  next
    case False
    have "(\<exists>m\<in>set (lru_list ?s). node_key m = k' \<and> node_data m = d) \<longleftrightarrow>
        (\<exists>m\<in>set (lru_list c). node_key m = k' \<and> node_data m = d)"
      using False n(2) same_node by auto
    with False show ?thesis by (simp add: lookup_iff [OF ok] lookup_iff [OF l(1)])
  qed
  then have "lookup ?s = (lookup c)(k \<mapsto> data)"
    by (intro ext) (metis not_Some_eq)
  with ok c n(4) show thesis by (intro that [of ?s]) (simp_all add: set_data_def f_def [abs_def])
qed

lemma put_ok:
  assumes ok: "cache_ok c" and fit: "fits c (length data)"
  shows "\<exists>c'. put p off data c = Some c' \<and> cache_ok c' \<and> max_bytes c' = max_bytes c
    \<and> (length data \<le> max_bytes c \<longrightarrow> lookup c' \<lparr>path = p, offset = off, len = length data\<rparr> = Some data)
    \<and> (\<forall>k d. lookup c' k = Some d \<longrightarrow> k = \<lparr>path = p, offset = off, len = length data\<rparr> \<and> d = data \<or> lookup c k = Some d)"
proof -
  let ?k = "\<lparr>path = p, offset = off, len = length data\<rparr>"
  have l: "lru_ok c" and b: "current_bytes c \<le> max_bytes c" using ok by (simp_all add: cache_ok_def)
  show ?thesis
  proof (cases "index c ?k")
    case None
    define r where "r = make_room (length data) c"
    note m = make_room_spec [OF l, of "length data", folded r_def]
    from m have r: "lru_ok r" "max_bytes r = max_bytes c"
      and room: "lru_list r = [] \<or> size_add (current_bytes r) (length data) \<le> max_bytes c"
      and sub: "\<And>key d. lookup r key = Some d \<Longrightarrow> lookup c key = Some d" by blast+
    have mi: "index r ?k = None" unfolding r_def by (rule make_room_index [OF l None])
    obtain j where j: "lru_list r = take j (lru_list c)" using m by blast
    have "bytes_in (take j (lru_list c)) \<le> bytes_in (lru_list c)"
      using bytes_in_simps(3) [of "take j (lru_list c)" "drop j (lru_list c)"] by simp
    moreover have "current_bytes r = bytes_in (lru_list r)" "current_bytes c = bytes_in (lru_list c)"
      using r l by (simp_all add: lru_ok_def)
    ultimately have mb: "current_bytes r \<le> max_bytes c" using b j by simp
    have lens: "length d = len k" if "lookup r k = Some d" for k d
      using sub [OF that] ok by (simp add: cache_ok_def)
    have kept: "cache_ok r" using r mb lens by (simp add: cache_ok_def)
    show ?thesis
    proof (cases "length data > max_bytes c")
      case True
      with None r kept sub show ?thesis by (auto simp: put_def Let_def simp flip: r_def)
    next
      case False
      have "current_bytes r + length data \<le> max_bytes c"
      proof (cases "lru_list r = []")
        case True
        then have "current_bytes r = 0" using r by (simp add: lru_ok_def)
        with False show ?thesis by simp
      next
        case ne: False
        have "current_bytes r + length data < 2 ^ 64" using mb fit by (simp add: fits_def)
        with room ne show ?thesis by simp
      qed
      then have in_room: "current_bytes r + length data \<le> max_bytes c"
        and small: "current_bytes r + length data < 2 ^ 64" using fit by (simp_all add: fits_def)
      note i = insert_front_spec [OF r(1) mi small]
      have "current_bytes (insert_front ?k data r) \<le> max_bytes (insert_front ?k data r)"
        using in_room small r(2) by (simp add: insert_front_def)
      moreover have "length d = len k" if "lookup (insert_front ?k data r) k = Some d" for k d
        using that lens [of k d] by (auto simp: i(2) split: if_splits)
      ultimately have "cache_ok (insert_front ?k data r)" using i(1) by (simp add: cache_ok_def)
      moreover have "max_bytes (insert_front ?k data r) = max_bytes c" using r by (simp add: insert_front_def)
      moreover have "lookup (insert_front ?k data r) ?k = Some data" by (simp add: i(2))
      moreover have "k = ?k \<and> d = data \<or> lookup c k = Some d"
        if "lookup (insert_front ?k data r) k = Some d" for k d
        using that sub [of k d] by (auto simp: i(2) split: if_splits)
      moreover have "put p off data c = Some (insert_front ?k data r)"
        using None False r by (simp add: put_def Let_def flip: r_def)
      ultimately show ?thesis by blast
    qed
  next
    case (Some i)
    then obtain old where old: "lookup c ?k = Some old"
      using lookup_index [OF l, of ?k] by auto
    have len: "length data = length old" using old ok by (auto simp: cache_ok_def)
    obtain d where d: "set_data i data c = Some d" "lru_ok d" "lookup d = (lookup c)(?k \<mapsto> data)"
      "index d = index c" "max_bytes d = max_bytes c" "current_bytes d = current_bytes c"
      using set_data_spec [OF l Some old len] .
    have "index d ?k = Some i" using d Some by simp
    then obtain n where
      n: "splice_front i d = Some (d\<lparr>lru_list := n # filter (\<lambda>m. node_id m \<noteq> i) (lru_list d)\<rparr>)"
        "lru_ok (d\<lparr>lru_list := n # filter (\<lambda>m. node_id m \<noteq> i) (lru_list d)\<rparr>)"
        "lookup (d\<lparr>lru_list := n # filter (\<lambda>m. node_id m \<noteq> i) (lru_list d)\<rparr>) = lookup d"
      by (rule splice_front_spec [OF d(2)])
    define e where "e = d\<lparr>lru_list := n # filter (\<lambda>m. node_id m \<noteq> i) (lru_list d)\<rparr>"
    have e: "splice_front i d = Some e" "lru_ok e" "lookup e = (lookup c)(?k \<mapsto> data)"
        "max_bytes e = max_bytes c" "current_bytes e = current_bytes c"
      using n d by (simp_all add: e_def)
    have "length x = len k" if "lookup e k = Some x" for k x
      using that ok by (auto simp: e(3) cache_ok_def split: if_splits)
    then have "cache_ok e" using e(2,4,5) b by (simp add: cache_ok_def)
    moreover have "lookup e ?k = Some data" by (simp add: e(3))
    moreover have "k = ?k \<and> x = data \<or> lookup c k = Some x" if "lookup e k = Some x" for k x
      using that by (auto simp: e(3) split: if_splits)
    moreover have "put p off data c = Some e" using Some d(1) e(1) by (simp add: put_def)
    ultimately show ?thesis using e(4) by blast
  qed
qed

lemma evict_ok:
  assumes "cache_ok c"
  shows "cache_ok (evict p c) \<and> max_bytes (evict p c) = max_bytes c
    \<and> (\<forall>k. lookup (evict p c) k = (if path k = p then None else lookup c k))"
proof -
  have l: "lru_ok c" using assms by (simp add: cache_ok_def)
  note w = evict_walk_spec [OF l, of "\<lambda>k. path k = p"]
  have "current_bytes (evict p c) = bytes_in (lru_list (evict p c))" "current_bytes c = bytes_in (lru_list c)"
    using w(1) l by (simp_all add: evict_def lru_ok_def)
  then have "current_bytes (evict p c) \<le> max_bytes c"
    using w(4) assms by (simp add: evict_def cache_ok_def)
  with w assms show ?thesis by (auto simp: evict_def cache_ok_def)
qed

lemma new_block_cache_ok: "cache_ok (new_block_cache mx)" "lookup (new_block_cache mx) k = None"
    "max_bytes (new_block_cache mx) = mx"
  by (simp_all add: cache_ok_def lru_ok_def lookup_def new_block_cache_def empty_lru_def lru.extend_def)

subsection \<open>The interface of a read cache\<close>

text \<open>
  What the file operations rely on: a hit returns what is filed under the key, \<open>put\<close> files at most the
  block it was given, \<open>evict\<close> forgets a path.  \<open>coherent\<close> ties the cache to the contents of the files: every block filed is that part of an existing
  file.
\<close>

locale read_cache =
  fixes view :: "'c \<Rightarrow> cache_key \<Rightarrow> u8 list option"
    and inv :: "'c \<Rightarrow> bool"
    and room :: "'c \<Rightarrow> nat \<Rightarrow> bool"
    and fetch :: "string \<Rightarrow> nat \<Rightarrow> nat \<Rightarrow> 'c \<Rightarrow> ('c \<times> (string + u8 list)) option"
    and store :: "string \<Rightarrow> nat \<Rightarrow> u8 list \<Rightarrow> 'c \<Rightarrow> 'c option"
    and forget :: "string \<Rightarrow> 'c \<Rightarrow> 'c"
  assumes fetch: "inv c \<Longrightarrow> \<exists>c' r. fetch p off n c = Some (c', r) \<and> inv c' \<and> view c' = view c
      \<and> (\<forall>m. room c' m = room c m) \<and> (\<forall>d. r = Inr d \<longleftrightarrow> view c \<lparr>path = p, offset = off, len = n\<rparr> = Some d)"
    and store: "inv c \<Longrightarrow> room c (length d) \<Longrightarrow> \<exists>c'. store p off d c = Some c' \<and> inv c'
      \<and> (\<forall>m. room c' m = room c m)
      \<and> (\<forall>k e. view c' k = Some e \<longrightarrow> k = \<lparr>path = p, offset = off, len = length d\<rparr> \<and> e = d \<or> view c k = Some e)"
    and forget: "inv c \<Longrightarrow> inv (forget p c) \<and> (\<forall>m. room (forget p c) m = room c m)
      \<and> (\<forall>k. view (forget p c) k = (if path k = p then None else view c k))"
begin

definition coherent :: "'c \<Rightarrow> (string \<Rightarrow> u8 list option) \<Rightarrow> bool" where
  "coherent c contents \<longleftrightarrow> (\<forall>k d. view c k = Some d \<longrightarrow>
     (\<exists>x. contents (path k) = Some x \<and> d = slice_of (offset k) (len k) x) \<and> length d = len k)"

lemma fetch_coherent:
  assumes "inv c" "coherent c contents"
  obtains c' r where "fetch p off n c = Some (c', r)" "inv c'" "coherent c' contents" "\<forall>m. room c' m = room c m"
    "\<And>d. r = Inr d \<Longrightarrow> \<exists>x. contents p = Some x \<and> d = slice_of off n x \<and> length d = n"
proof -
  from fetch [OF assms(1)] obtain c' r where r: "fetch p off n c = Some (c', r)" "inv c'" "view c' = view c"
    "\<forall>m. room c' m = room c m" "\<forall>d. r = Inr d \<longleftrightarrow> view c \<lparr>path = p, offset = off, len = n\<rparr> = Some d" by blast
  moreover have "coherent c' contents" using assms(2) r(3) by (simp add: coherent_def)
  moreover have "\<exists>x. contents p = Some x \<and> d = slice_of off n x \<and> length d = n" if "r = Inr d" for d
  proof -
    have "view c \<lparr>path = p, offset = off, len = n\<rparr> = Some d" using that r(5) by blast
    with assms(2) show ?thesis unfolding coherent_def by fastforce
  qed
  ultimately show thesis using that by blast
qed

lemma store_coherent:
  assumes "inv c" "coherent c contents" "room c (length d)" "contents p = Some x" "d = slice_of off (length d) x"
  obtains c' where "store p off d c = Some c'" "inv c'" "coherent c' contents" "\<forall>m. room c' m = room c m"
proof -
  from store [OF assms(1,3)] obtain c' where c: "store p off d c = Some c'" "inv c'" "\<forall>m. room c' m = room c m"
    "\<forall>k e. view c' k = Some e \<longrightarrow> k = \<lparr>path = p, offset = off, len = length d\<rparr> \<and> e = d \<or> view c k = Some e"
    by blast
  have "coherent c' contents"
    unfolding coherent_def
  proof (intro allI impI)
    fix k e assume "view c' k = Some e"
    with c(4) have "k = \<lparr>path = p, offset = off, len = length d\<rparr> \<and> e = d \<or> view c k = Some e" by blast
    then show "(\<exists>x. contents (path k) = Some x \<and> e = slice_of (offset k) (len k) x) \<and> length e = len k"
      using assms(2,4,5) by (auto simp: coherent_def)
  qed
  with c show thesis by (intro that)
qed

lemma forget_coherent:
  assumes "inv c" "coherent c contents"
  shows "inv (forget p c) \<and> (\<forall>m. room (forget p c) m = room c m) \<and> coherent (forget p c) (contents(p := x))"
  using forget [OF assms(1), of p] assms(2) by (auto simp: coherent_def split: if_splits)

end

interpretation blocks: read_cache lookup cache_ok fits get put evict
proof
  fix c p off n assume "cache_ok c"
  from get_ok [OF this, of p off n]
  show "\<exists>c' r. get p off n c = Some (c', r) \<and> cache_ok c' \<and> lookup c' = lookup c \<and> (\<forall>m. fits c' m = fits c m)
      \<and> (\<forall>d. (r = Inr d) = (lookup c \<lparr>path = p, offset = off, len = n\<rparr> = Some d))"
    by (force simp: fits_def)
next
  fix c and d :: "u8 list" and p off assume "cache_ok c" "fits c (length d)"
  from put_ok [OF this, of p off]
  show "\<exists>c'. put p off d c = Some c' \<and> cache_ok c' \<and> (\<forall>m. fits c' m = fits c m)
      \<and> (\<forall>k e. lookup c' k = Some e \<longrightarrow> k = \<lparr>path = p, offset = off, len = length d\<rparr> \<and> e = d \<or> lookup c k = Some e)"
    by (force simp: fits_def)
next
  fix c p assume "cache_ok c"
  from evict_ok [OF this, of p]
  show "cache_ok (evict p c) \<and> (\<forall>m. fits (evict p c) m = fits c m)
      \<and> (\<forall>k. lookup (evict p c) k = (if path k = p then None else lookup c k))"
    by (simp add: fits_def)
qed

subsection \<open>Any sequence of cache operations\<close>

datatype cache_op = Cache_Get string nat nat | Cache_Put string nat "u8 list" | Cache_Evict string

fun cache_step :: "block_cache \<Rightarrow> cache_op \<Rightarrow> block_cache option" where
  "cache_step c (Cache_Get p off n) = map_option fst (get p off n c)"
| "cache_step c (Cache_Put p off d) = put p off d c"
| "cache_step c (Cache_Evict p) = Some (evict p c)"

text \<open>\<open>current_bytes_ + data_size\<close> must not wrap: no block is near \<open>2^64\<close> bytes long.\<close>

fun op_fits :: "nat \<Rightarrow> cache_op \<Rightarrow> bool" where
  "op_fits mx (Cache_Put p off d) = (mx + length d < 2 ^ 64)"
| "op_fits mx e = True"

interpretation cache_machine: safe_machine cache_step "\<lambda>c. cache_ok c \<and> max_bytes c = mx" "\<lambda>_. op_fits mx" for mx
proof
  fix c e assume c: "cache_ok c \<and> max_bytes c = mx" and ok: "op_fits mx e"
  show "succeeds (cache_step c e) (\<lambda>c. cache_ok c \<and> max_bytes c = mx)"
  proof (cases e)
    case (Cache_Get p off n)
    with c get_ok [of c p off n] show ?thesis by auto
  next
    case (Cache_Put p off d)
    with c ok put_ok [of c d p off] show ?thesis by (auto simp: fits_def)
  next
    case (Cache_Evict p)
    with c evict_ok [of c p] show ?thesis by auto
  qed
qed

lemma run_ok_static: "list_all P es \<Longrightarrow> run_ok step (\<lambda>_. P) s es"
  by (induction es arbitrary: s) (auto split: option.split)

text \<open>C30. A block cache never follows a dangling iterator and never holds more than its limit: any sequence of
  \<open>get\<close>, \<open>put\<close> and \<open>evict\<close> on a new cache runs, the byte counter is the sum of the entries, it is at
  most \<open>max_bytes\<close>, and no two entries share a key.\<close>

theorem block_cache_sound:
  assumes "list_all (op_fits mx) es"
  shows "\<exists>c. run cache_step (new_block_cache mx) es = Some c \<and> cache_size c \<le> mx
    \<and> cache_size c = bytes_in (lru_list c) \<and> distinct (map node_key (lru_list c))"
proof -
  have "succeeds (run cache_step (new_block_cache mx) es) (\<lambda>c. cache_ok c \<and> max_bytes c = mx)"
    using new_block_cache_ok(1,3) by (intro cache_machine.run_safe run_ok_static assms) simp
  then obtain c where c: "run cache_step (new_block_cache mx) es = Some c" "cache_ok c" "max_bytes c = mx"
    by (auto simp: succeeds_iff)
  from c(2) have "current_bytes c \<le> max_bytes c" "current_bytes c = bytes_in (lru_list c)"
    "distinct (map node_key (lru_list c))" by (simp_all add: cache_ok_def lru_ok_def)
  with c show ?thesis by (simp add: cache_size_def)
qed

lemma block_cache_sound_witness:
  "\<exists>c. run cache_step (new_block_cache 4)
      [Cache_Put ''f'' 0 [1, 2, 3], Cache_Get ''f'' 0 3, Cache_Put ''g'' 0 [4, 5], Cache_Evict ''g''] = Some c
    \<and> cache_size c \<le> 4 \<and> cache_size c = bytes_in (lru_list c) \<and> distinct (map node_key (lru_list c))"
  by (rule block_cache_sound) simp

text \<open>Reading back what was cached: after \<open>put\<close> of a block no larger than the cache, \<open>get\<close> with its
  path, offset and length hits and returns exactly that block.\<close>

theorem get_after_put:
  assumes "cache_ok c" "fits c (length d)" "length d \<le> max_bytes c"
  shows "\<exists>c1 c2. put p off d c = Some c1 \<and> get p off (length d) c1 = Some (c2, Inr d)"
proof -
  from put_ok [OF assms(1,2), of p off] assms(3) obtain c1 where
    "put p off d c = Some c1" "cache_ok c1" "lookup c1 \<lparr>path = p, offset = off, len = length d\<rparr> = Some d" by blast
  with get_hit show ?thesis by blast
qed

lemma get_after_put_witness:
  "\<exists>c1 c2. put ''f'' 8 [1, 2] (new_block_cache 16) = Some c1 \<and> get ''f'' 8 (length [1, 2 :: u8]) c1 = Some (c2, Inr [1, 2])"
  by (rule get_after_put) (simp_all add: new_block_cache_ok fits_def)

text \<open>Eviction is least-recently-used and minimal: \<open>put\<close> of a new block keeps the \<open>k\<close> most recently used
  entries in order, puts the block before them, and drops the rest; had it kept one more, the cache
  would have been over its limit.\<close>

theorem put_evicts_oldest:
  assumes "cache_ok c" "fits c (length d)" "length d \<le> max_bytes c"
    "lookup c \<lparr>path = p, offset = off, len = length d\<rparr> = None"
  shows "\<exists>c' n k. put p off d c = Some c' \<and> lru_list c' = n # take k (lru_list c) \<and> node_data n = d
    \<and> node_key n = \<lparr>path = p, offset = off, len = length d\<rparr>
    \<and> (k < length (lru_list c) \<longrightarrow> max_bytes c < bytes_in (take (k + 1) (lru_list c)) + length d)"
proof -
  have l: "lru_ok c" "current_bytes c \<le> max_bytes c" using assms(1) by (simp_all add: cache_ok_def)
  have i: "index c \<lparr>path = p, offset = off, len = length d\<rparr> = None"
    using assms(4) lookup_index [OF l(1)] by simp
  define r where "r = make_room (length d) c"
  from make_room_spec [OF l(1), of "length d", folded r_def] obtain k where
    k: "lru_list r = take k (lru_list c)" "max_bytes r = max_bytes c"
      "k < length (lru_list c) \<longrightarrow> max_bytes c < size_add (bytes_in (take (k + 1) (lru_list c))) (length d)" by blast
  have "bytes_in (take (k + 1) (lru_list c)) \<le> current_bytes c"
    using bytes_in_simps(3) [of "take (k + 1) (lru_list c)" "drop (k + 1) (lru_list c)"] l by (simp add: lru_ok_def)
  then have "bytes_in (take (k + 1) (lru_list c)) + length d < 2 ^ 64"
    using l(2) assms(2) by (simp add: fits_def)
  with k have "k < length (lru_list c) \<longrightarrow> max_bytes c < bytes_in (take (k + 1) (lru_list c)) + length d" by simp
  moreover have "put p off d c = Some (insert_front \<lparr>path = p, offset = off, len = length d\<rparr> d r)"
    using i assms(3) k(2) by (simp add: put_def Let_def flip: r_def)
  ultimately show ?thesis using k(1) by (auto simp: insert_front_def)
qed

lemma put_evicts_oldest_witness:
  "\<exists>c' n k. put ''f'' 8 [1, 2] (new_block_cache 16) = Some c'
    \<and> lru_list c' = n # take k (lru_list (new_block_cache 16)) \<and> node_data n = [1, 2]
    \<and> node_key n = \<lparr>path = ''f'', offset = 8, len = length [1, 2 :: u8]\<rparr>
    \<and> (k < length (lru_list (new_block_cache 16)) \<longrightarrow>
        max_bytes (new_block_cache 16) < bytes_in (take (k + 1) (lru_list (new_block_cache 16))) + length [1, 2 :: u8])"
  by (rule put_evicts_oldest) (simp_all add: new_block_cache_ok fits_def)

subsection \<open>The limit of \<open>TensorBlockCache\<close>\<close>

text \<open>Unlike \<open>BlockCache\<close>, \<open>TensorBlockCache\<close> files a block larger than the whole cache: from an
  empty cache any block that exceeds the limit leaves \<open>current_bytes\<close> above it.\<close>

theorem tensor_put_exceeds_limit:
  assumes "mx < length d" "length d < 2 ^ 64"
  shows "\<exists>c. tensor_put k d (empty_lru mx) = Some c \<and> current_bytes c > max_bytes c"
proof -
  have "make_room (length d) (empty_lru mx :: tensor_cache) = empty_lru mx"
    by (subst make_room.simps) (simp add: empty_lru_def)
  with assms show ?thesis by (simp add: tensor_put_def empty_lru_def insert_front_def)
qed

lemma tensor_put_exceeds_limit_witness:
  "\<exists>c. tensor_put \<lparr>inode = 2, block_idx = 0\<rparr> [1, 2, 3] (empty_lru 2) = Some c \<and> current_bytes c > max_bytes c"
  by (rule tensor_put_exceeds_limit) simp_all

end
