(* ===== verification/Fuse_Ops.thy ===== *)
theory Fuse_Ops
  imports Block_Codec Block_Cache
begin

text \<open>
  The path-based file operations of the tensor file system (\<open>bin/fuse/operations.h\<close>,
  \<open>bin/fuse/operations.cpp\<close>) over the block codec and the block cache, and their specification: a map
  from paths to contents.  \<open>FuseOps::mutex_\<close> covers everything but the first cache look-up of \<open>read\<close>.
  File modes and times are carried along; the clock is an argument.  A FUSE offset is not negative.
\<close>

subsection \<open>Files\<close>

record virtual_file =
  vf_name :: string
  compressed_data :: "u8 list"
  original_size :: nat
  is_tensor :: bool
  vf_mode :: nat
  mtime :: int

record fuse_ops =
  files :: "string \<Rightarrow> virtual_file option"
  cache :: block_cache

datatype errno = ENOENT | EIO | EEXIST | EACCES | ENOTDIR

definition new_fuse :: fuse_ops where
  "new_fuse = \<lparr>files = Map.empty, cache = new_block_cache (256 * 1024 * 1024)\<rparr>"

text \<open>
  A transfer returns an \<open>int\<close>: the number of bytes, narrowed from \<open>size_t\<close> (so that one of 2 GiB or more
  returns a negative number, an error to the kernel), or a negated \<open>errno\<close>.  A read returns the bytes it
  copies into the caller's buffer too.
\<close>

text \<open>The bytes of a file, the branch \<open>read\<close> and \<open>write\<close> share.\<close>

definition file_bytes :: "dequantiser \<Rightarrow> virtual_file \<Rightarrow> (string + u8 list) option" where
  "file_bytes dq f =
     (if is_tensor f \<and> compressed_data f \<noteq> [] then decompress dq (compressed_data f)
      else Some (Inr (compressed_data f)))"

subsection \<open>The operations\<close>

definition getattr_size :: "string \<Rightarrow> fuse_ops \<Rightarrow> errno + nat option" where
  "getattr_size p s =
     (if p = ''/'' then Inr None
      else case files s p of None \<Rightarrow> Inl ENOENT | Some f \<Rightarrow> Inr (Some (original_size f)))"

definition open_file :: "string \<Rightarrow> fuse_ops \<Rightarrow> errno + unit" where
  "open_file p s = (if files s p = None then Inl ENOENT else Inr ())"

definition fuse_read :: "dequantiser \<Rightarrow> string \<Rightarrow> nat \<Rightarrow> nat \<Rightarrow> fuse_ops \<Rightarrow>
    (fuse_ops \<times> (errno + int \<times> u8 list)) option" where
  "fuse_read dq p sz off s = do {
     (c, cached) \<leftarrow> get p off sz (cache s);
     let s = s\<lparr>cache := c\<rparr>;
     case cached of
       Inr d \<Rightarrow>
         (let to_copy = min sz (length d) in Some (s, Inr (to_int to_copy, take to_copy d)))
     | Inl _ \<Rightarrow>
         (case files s p of
            None \<Rightarrow> Some (s, Inl ENOENT)
          | Some f \<Rightarrow> do {
              r \<leftarrow> file_bytes dq f;
              case r of
                Inl _ \<Rightarrow> Some (s, Inl EIO)
              | Inr decompressed \<Rightarrow>
                  (if off \<ge> length decompressed then Some (s, Inr (0, []))
                   else do {
                     let to_copy = min sz (length decompressed - off);
                     let block = slice_of off to_copy decompressed;
                     c \<leftarrow> put p off block (cache s);
                     Some (s\<lparr>cache := c\<rparr>, Inr (to_int to_copy, block)) }) }) }"

text \<open>
  \<open>end_pos\<close> is \<open>size_t\<close>; when the sum wraps, the buffer is not grown and \<open>memcpy\<close> writes outside it.
  A file that no longer decompresses is overwritten as if it had been empty.
\<close>

definition spliced :: "u8 list \<Rightarrow> nat \<Rightarrow> u8 list \<Rightarrow> u8 list option" where
  "spliced data off buf =
     (let end_pos = size_t (off + length buf);
          data = (if length data < end_pos then data @ replicate (end_pos - length data) 0 else data)
      in if off + length buf \<le> length data
         then Some (take off data @ buf @ drop (off + length buf) data) else None)"

definition recompressed :: "quantiser \<Rightarrow> int \<Rightarrow> u8 list \<Rightarrow> virtual_file \<Rightarrow> virtual_file" where
  "recompressed qz now data f =
     (let ctype = (if is_tensor f then DeltaZstd else None_Compression);
          f = (case compress qz data ctype of
                 Inr c \<Rightarrow> f\<lparr>compressed_data := c, is_tensor := True\<rparr>
               | Inl _ \<Rightarrow> f\<lparr>compressed_data := data, is_tensor := False\<rparr>)
      in f\<lparr>original_size := length data, mtime := now\<rparr>)"

definition fuse_write ::
  "quantiser \<Rightarrow> dequantiser \<Rightarrow> int \<Rightarrow> string \<Rightarrow> u8 list \<Rightarrow> nat \<Rightarrow> fuse_ops \<Rightarrow> (fuse_ops \<times> (errno + int)) option" where
  "fuse_write qz dq now p buf off s =
     (case files s p of
        None \<Rightarrow> Some (s, Inl ENOENT)
      | Some f \<Rightarrow> do {
          r \<leftarrow> file_bytes dq f;
          data \<leftarrow> spliced (case r of Inl _ \<Rightarrow> [] | Inr d \<Rightarrow> d) off buf;
          Some (s\<lparr>files := (files s)(p \<mapsto> recompressed qz now data f), cache := evict p (cache s)\<rparr>,
                Inr (to_int (length buf))) })"

definition has_slt_suffix :: "string \<Rightarrow> bool" where
  "has_slt_suffix p \<longleftrightarrow> length p > 4 \<and> drop (length p - 4) p = ''.slt''"

definition fuse_create :: "int \<Rightarrow> string \<Rightarrow> nat \<Rightarrow> fuse_ops \<Rightarrow> fuse_ops \<times> (errno + unit)" where
  "fuse_create now p mode s =
     (if files s p \<noteq> None then (s, Inl EEXIST)
      else (s\<lparr>files := (files s)(p \<mapsto>
              \<lparr>vf_name = p, compressed_data = [], original_size = 0, is_tensor = has_slt_suffix p,
               vf_mode = mode AND 0x1FF, mtime = now\<rparr>)\<rparr>, Inr ()))"

definition file_count :: "fuse_ops \<Rightarrow> nat" where
  "file_count s = card (dom (files s))"

definition add_tensor_file :: "string \<Rightarrow> virtual_file \<Rightarrow> fuse_ops \<Rightarrow> fuse_ops" where
  "add_tensor_file p f s = s\<lparr>files := (files s)(p \<mapsto> f)\<rparr>"

text \<open>The names \<open>readdir\<close> passes to the filler, in the iteration order \<open>names\<close> of the map.\<close>

definition display_name :: "string \<Rightarrow> string" where
  "display_name n = (if n \<noteq> [] \<and> n ! 0 = CHR ''/'' then drop 1 n else n)"

definition fuse_readdir :: "string list \<Rightarrow> string \<Rightarrow> errno + string list" where
  "fuse_readdir names p =
     (if p \<noteq> ''/'' then Inl ENOENT else Inr (''.'' # ''..'' # map display_name names))"

subsection \<open>Specification\<close>

type_synonym file_map = "string \<Rightarrow> u8 list option"

text \<open>Writing \<open>buf\<close> at \<open>off\<close>, with a gap of zeros when \<open>off\<close> is past the end.\<close>

definition overlay :: "nat \<Rightarrow> u8 list \<Rightarrow> u8 list \<Rightarrow> u8 list" where
  "overlay off buf data =
     take off (data @ replicate (off - length data) 0) @ buf @ drop (off + length buf) data"

datatype file_op = Read string nat nat | Write string "u8 list" nat | Create string nat

datatype file_result = Bytes "errno + int \<times> u8 list" | Wrote "errno + int" | Created "errno + unit"

fun spec_step :: "file_map \<Rightarrow> file_op \<Rightarrow> file_map \<times> file_result" where
  "spec_step m (Read p sz off) =
     (m, Bytes (case m p of None \<Rightarrow> Inl ENOENT | Some d \<Rightarrow> Inr (let bs = slice_of off sz d in (int (length bs), bs))))"
| "spec_step m (Write p buf off) =
     (case m p of None \<Rightarrow> (m, Wrote (Inl ENOENT))
      | Some d \<Rightarrow> (m(p \<mapsto> overlay off buf d), Wrote (Inr (int (length buf)))))"
| "spec_step m (Create p mode) =
     (if m p \<noteq> None then (m, Created (Inl EEXIST)) else (m(p \<mapsto> []), Created (Inr ())))"

fun fuse_step :: "quantiser \<Rightarrow> dequantiser \<Rightarrow> int \<Rightarrow> fuse_ops \<Rightarrow> file_op \<Rightarrow> (fuse_ops \<times> file_result) option" where
  "fuse_step qz dq now s (Read p sz off) = map_option (\<lambda>(t, r). (t, Bytes r)) (fuse_read dq p sz off s)"
| "fuse_step qz dq now s (Write p buf off) =
     map_option (\<lambda>(t, r). (t, Wrote r)) (fuse_write qz dq now p buf off s)"
| "fuse_step qz dq now s (Create p mode) = (let (t, r) = fuse_create now p mode s in Some (t, Created r))"

text \<open>Contents, invariant and the size of an operation.\<close>

definition bytes_of :: "dequantiser \<Rightarrow> virtual_file \<Rightarrow> u8 list" where
  "bytes_of dq f = (case file_bytes dq f of Some (Inr d) \<Rightarrow> d | _ \<Rightarrow> [])"

definition file_view :: "dequantiser \<Rightarrow> fuse_ops \<Rightarrow> file_map" where
  "file_view dq s p = map_option (bytes_of dq) (files s p)"

definition file_ok :: "dequantiser \<Rightarrow> virtual_file \<Rightarrow> bool" where
  "file_ok dq f \<longleftrightarrow> file_bytes dq f = Some (Inr (bytes_of dq f)) \<and> original_size f = length (bytes_of dq f)
     \<and> length (bytes_of dq f) < 2 ^ 62"

definition fuse_ok :: "dequantiser \<Rightarrow> fuse_ops \<Rightarrow> bool" where
  "fuse_ok dq s \<longleftrightarrow> cache_ok (cache s) \<and> (\<forall>m\<le>2 ^ 62. fits (cache s) m)
     \<and> blocks.coherent (cache s) (file_view dq s)
     \<and> (\<forall>p f. files s p = Some f \<longrightarrow> file_ok dq f)"

text \<open>
  A single transfer is below 2 GiB, as the kernel's are, so that its size is an \<open>int\<close>; offsets and files
  may be larger.
\<close>

fun op_small :: "file_op \<Rightarrow> bool" where
  "op_small (Read p sz off) = (sz < 2 ^ 31)"
| "op_small (Write p buf off) = (length buf < 2 ^ 31 \<and> off + length buf < 2 ^ 62)"
| "op_small (Create p mode) = True"

subsection \<open>The size of a block\<close>

lemma length_varint: "length (varint l) \<le> l + 1"
proof (induction l rule: varint.induct)
  case (1 l)
  show ?case
  proof (cases "l \<ge> 128")
    case True
    then have "l div 128 + 1 \<le> l" by simp
    with 1 True show ?thesis by (subst varint.simps) simp
  qed (subst varint.simps, simp)
qed

lemma lz_loop_length:
  assumes "lz_loop data pos ls table out = (ls', out')" "ls \<le> pos" "pos \<le> length data" "length out \<le> 2 * ls + 1"
  shows "length out' \<le> 2 * ls' + 1 \<and> ls' \<le> length data"
  using assms
proof (induction data pos ls table out rule: lz_loop.induct)
  case (1 data pos ls table out)
  let ?h = "hash4 data pos"
  let ?t = "table(?h := sint (word_of_nat pos :: u32))"
  show ?case
  proof (cases "pos + 4 \<le> length data")
    case False
    with "1.prems" show ?thesis by (simp add: lz_end)
  next
    case more: True
    show ?thesis
    proof (cases "found_match data pos (table ?h)")
      case False
      with more "1.prems" have "lz_loop data (pos + 1) ls ?t out = (ls', out')" by (simp add: lz_skip)
      from "1.IH"(2) [OF more refl refl refl False this] more "1.prems" show ?thesis by simp
    next
      case True
      define n where "n = extend_match data pos (nat (table ?h)) 4"
      let ?e = "emit_match data ls pos (nat (table ?h)) n"
      have run: "lz_loop data (pos + n) (pos + n) ?t (out @ ?e) = (ls', out')"
        using more True "1.prems"(1) by (simp add: lz_hit [where table = table and data = data and pos = pos, OF more True refl] n_def)
      have "\<forall>i<4. data ! (pos + i) = data ! (nat (table ?h) + i)"
      proof (intro allI impI)
        fix i :: nat assume i: "i < 4"
        have "slice_of pos 4 data ! i = slice_of (nat (table ?h)) 4 data ! i" "nat (table ?h) \<le> pos"
          using True by (simp_all add: found_match_def)
        then show "data ! (pos + i) = data ! (nat (table ?h) + i)" using i more by simp
      qed
      from extend_match_spec [OF this more] have n: "4 \<le> n" "pos + n \<le> length data" by (simp_all add: n_def)
      have "length ?e \<le> 2 * (pos - ls) + 4"
        using length_varint [of "pos - ls"] more by (simp add: emit_match_def)
      then have "length (out @ ?e) \<le> 2 * (pos + n) + 1" using "1.prems"(2,4) n by simp
      from "1.IH"(1) [OF more refl refl refl True n_def run order_refl n(2) this] show ?thesis .
    qed
  qed
qed

lemma zstd_length: "length (zstd_compress data) \<le> 2 * length data + 5"
proof (cases "length data \<le> 16")
  case False
  obtain ls out where lo: "lz_loop data 0 0 (\<lambda>_. -1) [0x00] = (ls, out)" by (rule prod.exhaust)
  then have "length out \<le> 2 * ls + 1" "ls \<le> length data" using lz_loop_length [OF lo] by simp_all
  then show ?thesis
    using False lo length_varint [of "length data - ls"] by (simp add: zstd_compress_def Let_def)
qed (simp add: zstd_compress_def)

lemma written_block:
  assumes "length data < 2 ^ 62" "t = DeltaZstd \<or> t = None_Compression"
  shows "(case compress qz data t of Inr c \<Rightarrow> c \<noteq> [] \<and> decompress dq c = Some (Inr data) | Inl _ \<Rightarrow> data = [])"
proof (cases "compress qz data t")
  case (Inl e)
  have "data = []"
  proof (rule ccontr)
    assume "data \<noteq> []"
    moreover have "t \<noteq> Quantize" using assms(2) by auto
    ultimately show False using compress_some [of data t qz] Inl by simp
  qed
  with Inl show ?thesis by simp
next
  case (Inr c)
  then have ne: "data \<noteq> []" by (auto simp: compress_def)
  have q: "t \<noteq> Quantize" using assms(2) by auto
  from compress_some [OF ne q, of qz] Inr
  have c: "c = block_header t (length data) (length (payload_of qz t data)) @ payload_of qz t data" by simp
  have "length (payload_of qz t data) \<le> 2 * length data + 5"
    using assms(2) zstd_length [of "delta_encode data"] by (auto simp: payload_of_def)
  then have "length c < 2 ^ 64" using assms(1) by (simp add: c)
  then have "decompress dq c = Some (Inr data)" by (rule container_roundtrip [OF Inr q])
  moreover have "c \<noteq> []" using arg_cong [OF c, of length] by auto
  ultimately show ?thesis using Inr by simp
qed

subsection \<open>Each operation refines its specification\<close>

lemma file_view_cache [simp]: "file_view dq (s\<lparr>cache := c\<rparr>) = file_view dq s"
  by (simp add: file_view_def fun_eq_iff)

lemma slice_min: "slice_of off (min n (length xs - off)) xs = slice_of off n xs"
  by (cases "n \<le> length xs - off") (simp_all add: slice_of_def min_def)

lemma read_refines:
  assumes "fuse_ok dq s" "n < 2 ^ 31"
  shows "\<exists>t r. fuse_read dq p n off s = Some (t, r) \<and> fuse_ok dq t \<and> file_view dq t = file_view dq s
    \<and> r = (case file_view dq s p of None \<Rightarrow> Inl ENOENT
         | Some d \<Rightarrow> Inr (int (length (slice_of off n d)), slice_of off n d))"
proof -
  have ok: "cache_ok (cache s)" "\<And>m. m \<le> 2 ^ 62 \<Longrightarrow> fits (cache s) m"
    "blocks.coherent (cache s) (file_view dq s)" "\<And>p f. files s p = Some f \<Longrightarrow> file_ok dq f"
    using assms(1) unfolding fuse_ok_def by blast+
  from blocks.fetch_coherent [OF ok(1,3), of p off n] obtain c r where
    g: "get p off n (cache s) = Some (c, r)" "cache_ok c" "blocks.coherent c (file_view dq s)"
      "\<forall>m. fits c m = fits (cache s) m"
      "\<And>d. r = Inr d \<Longrightarrow> \<exists>x. file_view dq s p = Some x \<and> d = slice_of off n x \<and> length d = n" by metis
  have s: "fuse_ok dq (s\<lparr>cache := c\<rparr>)"
    using g(2-4) ok(2,4) by (simp add: fuse_ok_def)
  show ?thesis
  proof (cases r)
    case (Inr d)
    with g(5) obtain x where "file_view dq s p = Some x" "d = slice_of off n x" "length d = n" by blast
    moreover from this have "length (slice_of off n x) = n" by simp
    ultimately show ?thesis using Inr g(1) s assms(2) by (simp add: fuse_read_def Let_def to_int_small)
  next
    case miss: (Inl e)
    show ?thesis
    proof (cases "files s p")
      case None
      with miss g(1) s show ?thesis by (simp add: fuse_read_def Let_def file_view_def)
    next
      case (Some f)
      define d where "d = bytes_of dq f"
      have d: "file_bytes dq f = Some (Inr d)" "length d < 2 ^ 62" "file_view dq s p = Some d"
        using ok(4) [OF Some] Some by (simp_all add: file_ok_def file_view_def d_def)
      show ?thesis
      proof (cases "length d \<le> off")
        case True
        with Some miss g(1) s d show ?thesis
          by (simp add: fuse_read_def Let_def slice_of_def)
      next
        case False
        define b where "b = slice_of off (min n (length d - off)) d"
        have b: "b = slice_of off n d" "b = slice_of off (length b) d" "length b \<le> length d"
          by (simp_all add: b_def slice_min min.commute)
        have room: "fits c (length b)" using g(4) ok(2) [of "length b"] b(3) d(2) by simp
        from blocks.store_coherent [OF g(2,3) room d(3) b(2)] obtain c' where
          c': "put p off b c = Some c'" "cache_ok c'" "blocks.coherent c' (file_view dq s)"
            "\<forall>m. fits c' m = fits c m" .
        have "fuse_ok dq (s\<lparr>cache := c'\<rparr>)"
          using c' g(4) ok(2,4) by (simp add: fuse_ok_def)
        moreover have "to_int (min n (length d - off)) = int (length b)"
          using assms(2) by (subst to_int_small) (auto simp: b_def)
        then have "fuse_read dq p n off s = Some (s\<lparr>cache := c'\<rparr>, Inr (int (length b), b))"
          using Some miss g(1) d False c'(1) by (simp add: fuse_read_def Let_def flip: b_def)
        ultimately show ?thesis using b(1) d(3) by simp
      qed
    qed
  qed
qed

lemma spliced_overlay:
  assumes "off + length buf < 2 ^ 62"
  shows "spliced data off buf = Some (overlay off buf data)"
proof -
  have "size_t (off + length buf) = off + length buf" using assms by simp
  then show ?thesis by (auto simp: spliced_def overlay_def Let_def min_def)
qed

lemma recompressed_ok:
  assumes "length data < 2 ^ 62"
  shows "bytes_of dq (recompressed qz now data f) = data \<and> file_ok dq (recompressed qz now data f)"
proof -
  let ?t = "if is_tensor f then DeltaZstd else None_Compression"
  have "file_bytes dq (recompressed qz now data f) = Some (Inr data)"
    using written_block [OF assms, where t = ?t and qz = qz and dq = dq]
    by (cases "compress qz data ?t") (auto simp: recompressed_def Let_def file_bytes_def)
  moreover have "original_size (recompressed qz now data f) = length data"
    by (simp add: recompressed_def Let_def)
  ultimately show ?thesis using assms by (simp add: file_ok_def bytes_of_def)
qed

lemma length_overlay: "length (overlay off buf data) = max (length data) (off + length buf)"
  by (simp add: overlay_def)

lemma write_refines:
  assumes "fuse_ok dq s" "off + length buf < 2 ^ 62" "length buf < 2 ^ 31"
  shows "\<exists>t r. fuse_write qz dq now p buf off s = Some (t, r) \<and> fuse_ok dq t
    \<and> (case file_view dq s p of
         None \<Rightarrow> file_view dq t = file_view dq s \<and> r = Inl ENOENT
       | Some d \<Rightarrow> file_view dq t = (file_view dq s)(p \<mapsto> overlay off buf d) \<and> r = Inr (int (length buf)))"
proof (cases "files s p")
  case None
  with assms(1) show ?thesis by (simp add: fuse_write_def file_view_def)
next
  case (Some f)
  have ok: "cache_ok (cache s)" "\<And>m. m \<le> 2 ^ 62 \<Longrightarrow> fits (cache s) m"
    "blocks.coherent (cache s) (file_view dq s)" "\<And>p f. files s p = Some f \<Longrightarrow> file_ok dq f"
    using assms(1) unfolding fuse_ok_def by blast+
  define d where "d = bytes_of dq f"
  have d: "file_bytes dq f = Some (Inr d)" "length d < 2 ^ 62" "file_view dq s p = Some d"
    using ok(4) [OF Some] Some by (simp_all add: file_ok_def file_view_def d_def)
  let ?new = "overlay off buf d"
  let ?f = "recompressed qz now ?new f"
  have "length ?new < 2 ^ 62" using assms(2) d(2) by (simp add: length_overlay)
  then have f': "bytes_of dq ?f = ?new" "file_ok dq ?f" using recompressed_ok by blast+
  let ?s = "s\<lparr>files := (files s)(p \<mapsto> ?f), cache := evict p (cache s)\<rparr>"
  have run: "fuse_write qz dq now p buf off s = Some (?s, Inr (int (length buf)))"
    using Some d(1) by (simp add: fuse_write_def spliced_overlay [OF assms(2)] to_int_small [OF assms(3)])
  have view: "file_view dq ?s = (file_view dq s)(p \<mapsto> ?new)"
    using f'(1) by (auto simp: file_view_def)
  have "cache_ok (evict p (cache s)) \<and> (\<forall>m. fits (evict p (cache s)) m = fits (cache s) m)
      \<and> blocks.coherent (evict p (cache s)) (file_view dq ?s)"
    unfolding view by (rule blocks.forget_coherent [OF ok(1,3)])
  then have "fuse_ok dq ?s" using ok(2,4) f'(2) by (simp add: fuse_ok_def)
  with run view d(3) show ?thesis by simp
qed

lemma create_refines:
  assumes "fuse_ok dq s"
  shows "fuse_ok dq (fst (fuse_create now p mode s))
    \<and> (case file_view dq s p of
         Some d \<Rightarrow> fuse_create now p mode s = (s, Inl EEXIST)
       | None \<Rightarrow> file_view dq (fst (fuse_create now p mode s)) = (file_view dq s)(p \<mapsto> [])
           \<and> snd (fuse_create now p mode s) = Inr ())"
proof (cases "files s p")
  case (Some f)
  with assms show ?thesis by (simp add: fuse_create_def file_view_def)
next
  case None
  let ?f = "\<lparr>vf_name = p, compressed_data = [], original_size = 0, is_tensor = has_slt_suffix p,
               vf_mode = mode AND 0x1FF, mtime = now\<rparr>"
  have b: "bytes_of dq ?f = []" "file_bytes dq ?f = Some (Inr [])" by (simp_all add: bytes_of_def file_bytes_def)
  have v: "file_view dq (s\<lparr>files := (files s)(p \<mapsto> ?f)\<rparr>) = (file_view dq s)(p \<mapsto> [])"
    using b by (auto simp: file_view_def)
  have "file_view dq s p = None" using None by (simp add: file_view_def)
  then have "blocks.coherent (cache s) ((file_view dq s)(p \<mapsto> []))"
    using assms by (auto simp: fuse_ok_def blocks.coherent_def) (metis option.distinct(1))+
  then show ?thesis
    using None v b assms by (auto simp: fuse_create_def fuse_ok_def file_ok_def file_view_def)
qed

subsection \<open>Sessions of operations\<close>

lemma new_fuse_ok: "fuse_ok dq new_fuse" "file_view dq new_fuse = Map.empty"
  by (auto simp: fuse_ok_def new_fuse_def new_block_cache_ok fits_def blocks.coherent_def file_view_def)

interpretation fuse: simulation "fuse_step qz dq now" spec_step "file_view dq" "fuse_ok dq" op_small
  for qz dq now
proof
  fix s e assume s: "fuse_ok dq s" and e: "op_small e"
  show "\<exists>t r. fuse_step qz dq now s e = Some (t, r) \<and> fuse_ok dq t
      \<and> spec_step (file_view dq s) e = (file_view dq t, r)"
  proof (cases e)
    case (Read p n off)
    with e read_refines [OF s, of n p off] show ?thesis by (auto simp: Let_def split: option.splits)
  next
    case (Write p buf off)
    with e write_refines [OF s, of off buf qz now p] show ?thesis
      by (auto split: option.splits)
  next
    case (Create p mode)
    with create_refines [OF s, of now p mode] s show ?thesis
      by (cases "fuse_create now p mode s") (auto split: option.splits)
  qed
qed

text \<open>C10. The file operations implement files: from an empty file system, any sequence of creates, and of writes
  and reads of less than 2 GiB each (writes ending below 2^62), returns exactly what a map from paths to
  contents returns, the bytes and the \<open>int\<close> result or error, through the compression of every write and
  whatever the cache holds or evicts.\<close>

theorem fuse_implements_files:
  assumes "list_all op_small es"
  shows "\<exists>s rs. run_out (fuse_step qz dq now) new_fuse es = Some (s, rs)
    \<and> spec_out spec_step Map.empty es = (file_view dq s, rs)"
  using fuse.run_sim [where qz = qz and dq = dq and now = now, OF new_fuse_ok(1) assms]
  by (simp only: new_fuse_ok(2)) blast

lemma fuse_implements_files_witness:
  "\<exists>s rs. run_out (fuse_step no_quantiser (\<lambda>_ _ _. 0) 0) new_fuse
      [Create ''/a.slt'' 420, Write ''/a.slt'' [1, 2, 3] 2, Read ''/a.slt'' 9 1, Read ''/b'' 1 0] = Some (s, rs)
    \<and> spec_out spec_step Map.empty
      [Create ''/a.slt'' 420, Write ''/a.slt'' [1, 2, 3] 2, Read ''/a.slt'' 9 1, Read ''/b'' 1 0]
        = (file_view (\<lambda>_ _ _. 0) s, rs)"
  by (rule fuse_implements_files) simp

text \<open>Reading back a write: on a well-formed file system, the bytes written to an existing file are
  what a read of that range then returns (for less than 2 GiB).\<close>

theorem read_after_write:
  assumes "fuse_ok dq s" "files s p \<noteq> None" "off + length buf < 2 ^ 62" "length buf < 2 ^ 31"
  shows "\<exists>t u. fuse_write qz dq now p buf off s = Some (t, Inr (int (length buf)))
    \<and> fuse_read dq p (length buf) off t = Some (u, Inr (int (length buf), buf))"
proof -
  from assms(2) obtain d where d: "file_view dq s p = Some d" by (auto simp: file_view_def)
  with write_refines [OF assms(1,3,4), of qz now p] obtain t where
    t: "fuse_write qz dq now p buf off s = Some (t, Inr (int (length buf)))" "fuse_ok dq t"
      "file_view dq t = (file_view dq s)(p \<mapsto> overlay off buf d)" by auto
  have "slice_of off (length buf) (overlay off buf d) = buf"
    by (simp add: slice_of_def overlay_def)
  with t read_refines [OF t(2) assms(4), of p off] show ?thesis by auto
qed

lemma read_after_write_witness:
  "\<exists>t u. fuse_write no_quantiser (\<lambda>_ _ _. 0) 0 ''/a'' [7, 8] 3 (fst (fuse_create 0 ''/a'' 0 new_fuse)) = Some (t, Inr (int (length [7, 8 :: u8])))
    \<and> fuse_read (\<lambda>_ _ _. 0) ''/a'' (length [7, 8 :: u8]) 3 t = Some (u, Inr (int (length [7, 8 :: u8]), [7, 8]))"
  by (rule read_after_write)
     (use create_refines [OF new_fuse_ok(1), where dq = "\<lambda>_ _ _. 0" and now = 0 and p = "''/a''" and mode = 0] in
       \<open>auto simp: fuse_create_def new_fuse_def split: option.splits\<close>)

definition raw_file :: "u8 list \<Rightarrow> virtual_file" where
  "raw_file d = \<lparr>vf_name = ''a'', compressed_data = d, original_size = length d, is_tensor = False,
     vf_mode = 0, mtime = 0\<rparr>"

text \<open>\<open>add_tensor_file\<close> replaces a file without forgetting its cached blocks: bytes 3, 4 replace bytes
  1, 2, and a read that was cached before still returns 1, 2.\<close>

theorem add_tensor_file_stale:
  "do { (t, _) \<leftarrow> fuse_read dq ''a'' 2 0 (add_tensor_file ''a'' (raw_file [1, 2]) new_fuse);
        (_, r) \<leftarrow> fuse_read dq ''a'' 2 0 (add_tensor_file ''a'' (raw_file [3, 4]) t);
        Some r } = Some (Inr (2, [1, 2]))"
  by (simp add: fuse_read_def add_tensor_file_def raw_file_def new_fuse_def new_block_cache_def
      empty_lru_def lru.extend_def get_def put_def file_bytes_def slice_of_def Let_def make_room.simps
      insert_front_def splice_front_def deref_def to_int_small)

end
