(* ===== verification/Tensor_Format.thy ===== *)
theory Tensor_Format
  imports Bytes Decimal
begin

text \<open>
  The header of a tensor file (\<open>bin/fuse/tensor_format.h\<close>, \<open>bin/fuse/tensor_format.cpp\<close>): parsing,
  writing, and the byte size of a tensor.  The element type and the compression type are enumerations
  over a byte into which \<open>parse_header\<close> casts any byte, so they are bytes here.  A name is its bytes.
\<close>

subsection \<open>Element types\<close>

datatype tensor_dtype = Float32 | Float16 | Int8 | Int32 | Float64

fun dtype_code :: "tensor_dtype \<Rightarrow> u8" where
  "dtype_code Float32 = 0"
| "dtype_code Float16 = 1"
| "dtype_code Int8 = 2"
| "dtype_code Int32 = 3"
| "dtype_code Float64 = 4"

definition dtype_size :: "u8 \<Rightarrow> nat" where
  "dtype_size t =
     (if t = dtype_code Float32 then 4
      else if t = dtype_code Float16 then 2
      else if t = dtype_code Int8 then 1
      else if t = dtype_code Int32 then 4
      else if t = dtype_code Float64 then 8
      else 0)"

text \<open>\<open>std::accumulate\<close> with \<open>std::multiplies<size_t>\<close>: each product wraps.\<close>

definition tensor_byte_size :: "u8 \<Rightarrow> u32 list \<Rightarrow> nat" where
  "tensor_byte_size t shape =
     (if shape = [] then 0
      else size_t (foldl (\<lambda>count dim. size_t (count * unat dim)) 1 shape * dtype_size t))"

subsection \<open>Headers\<close>

record tensor_meta =
  tm_name :: "u8 list"
  tm_dtype :: u8
  tm_shape :: "u32 list"
  tm_compression :: u8
  tm_original_size :: u64
  tm_compressed_size :: u64
  tm_data_offset :: u64

definition SLT_MAGIC :: nat where
  "SLT_MAGIC = 0x524F534E45544C53"

definition SLT_VERSION :: nat where
  "SLT_VERSION = 1"

definition MIN_HEADER_SIZE :: nat where
  "MIN_HEADER_SIZE = 8 + 4 + 4 + 16"

text \<open>The shape loop: \<open>n\<close> dimensions of four bytes each.\<close>

fun read_shape :: "nat \<Rightarrow> u8 list \<Rightarrow> u32 list" where
  "read_shape 0 data = []"
| "read_shape (Suc n) data = word_of_nat (le_value (take 4 data)) # read_shape n (drop 4 data)"

definition parse_header :: "u8 list \<Rightarrow> string + tensor_meta" where
  "parse_header data =
     (if length data < MIN_HEADER_SIZE then Inl ''Data too small for .slt header''
      else if le_value (slice_of 0 8 data) \<noteq> SLT_MAGIC then Inl ''Invalid .slt magic number''
      else let version = le_value (slice_of 8 4 data) in
      if version \<noteq> SLT_VERSION then Inl (''Unsupported .slt version '' @ dec_nat version)
      else if 12 + 4 > length data then Inl ''Truncated header fields''
      else let ndim = unat (data ! 14); name_len = unat (data ! 15); pos = 16 in
      if pos + name_len > length data then Inl ''Truncated tensor name''
      else let name = slice_of pos name_len data; pos = pos + name_len in
      if pos + ndim * 4 > length data then Inl ''Truncated shape data''
      else let shape = read_shape ndim (drop pos data); pos = pos + ndim * 4 in
      if pos + 16 > length data then Inl ''Truncated size fields''
      else Inr \<lparr>tm_name = name, tm_dtype = data ! 12, tm_shape = shape, tm_compression = data ! 13,
        tm_original_size = word_of_nat (le_value (slice_of pos 8 data)),
        tm_compressed_size = word_of_nat (le_value (slice_of (pos + 8) 8 data)),
        tm_data_offset = word_of_nat (pos + 16)\<rparr>)"

definition write_header :: "tensor_meta \<Rightarrow> string + u8 list" where
  "write_header m =
     (if length (tm_name m) > 255 then Inl ''Tensor name too long (max 255 chars)''
      else if length (tm_shape m) > 255 then Inl ''Too many dimensions (max 255)''
      else Inr (le_bytes 8 SLT_MAGIC @ le_bytes 4 SLT_VERSION
        @ [tm_dtype m, tm_compression m, word_of_nat (length (tm_shape m)), word_of_nat (length (tm_name m))]
        @ tm_name m @ concat (map (\<lambda>dim. le_bytes 4 (unat dim)) (tm_shape m))
        @ le_bytes 8 (unat (tm_original_size m)) @ le_bytes 8 (unat (tm_compressed_size m))))"

subsection \<open>Lemmas\<close>

lemma unat_u64_less: "unat (w :: u64) < 256 ^ 8"
  by (rule order_less_le_trans [OF unsigned_less]) simp

lemma unat_u32_less: "unat (w :: u32) < 256 ^ 4"
  by (rule order_less_le_trans [OF unsigned_less]) simp

lemma le_value_u64 [simp]: "le_value (le_bytes 8 (unat (w :: u64))) = unat w"
  using unat_u64_less by (rule le_value_bytes_id)

lemma le_value_u32 [simp]: "le_value (le_bytes 4 (unat (w :: u32))) = unat w"
  using unat_u32_less by (rule le_value_bytes_id)

lemma read_shape_bytes:
  "read_shape (length dims) (concat (map (\<lambda>dim. le_bytes 4 (unat dim)) dims) @ rest) = dims"
  by (induction dims) simp_all

lemma length_shape_bytes [simp]:
  "length (concat (map (\<lambda>dim :: u32. le_bytes 4 (unat dim)) dims)) = 4 * length dims"
  by (induction dims) simp_all

subsection \<open>Round trip\<close>

lemma byte_of_small [simp]: "n \<le> 255 \<Longrightarrow> unat (word_of_nat n :: u8) = n"
  by (simp add: unat_of_nat)

text \<open>The fields of a written header, at the places where the parser looks for them.\<close>

lemma written_length:
  assumes "write_header m = Inr h"
  shows "length h = 32 + length (tm_name m) + 4 * length (tm_shape m)"
    "length (tm_name m) \<le> 255" "length (tm_shape m) \<le> 255"
  using assms by (auto simp: write_header_def split: if_splits)

lemma written_header:
  assumes "write_header m = Inr h"
  shows "le_value (slice_of 0 8 (h @ rest)) = SLT_MAGIC" "le_value (slice_of 8 4 (h @ rest)) = SLT_VERSION"
    "(h @ rest) ! 12 = tm_dtype m" "(h @ rest) ! 13 = tm_compression m"
    "unat ((h @ rest) ! 14) = length (tm_shape m)" "unat ((h @ rest) ! 15) = length (tm_name m)"
  using assms
  by (auto simp: write_header_def slice_of_def nth_append SLT_MAGIC_def SLT_VERSION_def split: if_splits)

lemma written_body:
  assumes "write_header m = Inr h"
  shows "drop 16 (h @ rest) = tm_name m @ concat (map (\<lambda>dim. le_bytes 4 (unat dim)) (tm_shape m))
    @ le_bytes 8 (unat (tm_original_size m)) @ le_bytes 8 (unat (tm_compressed_size m)) @ rest"
  using assms by (auto simp: write_header_def split: if_splits)

lemma slice_drop: "slice_of (a + b) n xs = slice_of b n (drop a xs)"
  by (simp add: slice_of_def add.commute)

lemma drop_plus: "drop (a + b) xs = drop b (drop a xs)"
  by (simp add: add.commute)

lemma parse_written:
  assumes "write_header m = Inr h"
  shows "parse_header (h @ rest) = Inr (m\<lparr>tm_data_offset := word_of_nat (length h)\<rparr>)"
proof -
  note l = written_length [OF assms]
  note w = written_header [OF assms, of rest]
  note b = written_body [OF assms, of rest]
  have name: "slice_of 16 (length (tm_name m)) (h @ rest) = tm_name m"
    unfolding slice_of_def b by simp
  have shape: "read_shape (length (tm_shape m)) (drop (16 + length (tm_name m)) (h @ rest)) = tm_shape m"
    unfolding drop_plus b by (simp add: read_shape_bytes)
  have sizes: "slice_of (16 + length (tm_name m) + length (tm_shape m) * 4) 8 (h @ rest)
      = le_bytes 8 (unat (tm_original_size m))"
    "slice_of (16 + length (tm_name m) + length (tm_shape m) * 4 + 8) 8 (h @ rest)
      = le_bytes 8 (unat (tm_compressed_size m))"
    unfolding add.assoc [of 16] slice_drop [of 16] b by (simp_all add: slice_of_def)
  show ?thesis
    unfolding parse_header_def Let_def w name shape sizes
    using l by (simp add: MIN_HEADER_SIZE_def)
qed

text \<open>A header is parsed only if all of it is there.\<close>

lemma parsed_length:
  assumes "parse_header d = Inr m"
  shows "32 + unat (d ! 15) + 4 * unat (d ! 14) \<le> length d"
  using assms by (auto simp: parse_header_def MIN_HEADER_SIZE_def Let_def split: if_splits)

text \<open>C36. Tensor headers survive the disk: whatever follows it in the file, the header that \<open>write_header\<close>
  produces parses to the metadata it was written from, with the data offset set to its length.\<close>

theorem header_roundtrip:
  assumes "write_header m = Inr h"
  shows "parse_header (h @ rest) = Inr (m\<lparr>tm_data_offset := word_of_nat (length h)\<rparr>)"
  using assms by (rule parse_written)

text \<open>A header cut short anywhere is an error, never a wrong parse.\<close>

theorem truncated_header_rejected:
  assumes "write_header m = Inr h" "k < length h"
  shows "\<exists>e. parse_header (take k h) = Inl e"
proof (cases "parse_header (take k h)")
  case (Inr m')
  note w = written_header [OF assms(1), of "[]"] written_length [OF assms(1)]
  have k: "32 \<le> k"
    using Inr assms(2) by (auto simp: parse_header_def MIN_HEADER_SIZE_def split: if_splits)
  with parsed_length [OF Inr] w assms(2) show ?thesis by simp
qed blast

definition sample_meta :: tensor_meta where
  "sample_meta = \<lparr>tm_name = [119, 48], tm_dtype = dtype_code Float16, tm_shape = [2, 3], tm_compression = 4,
     tm_original_size = 12, tm_compressed_size = 9, tm_data_offset = 0\<rparr>"

lemma sample_header: "\<exists>h. write_header sample_meta = Inr h \<and> length h = 42"
  by (simp add: write_header_def sample_meta_def)

lemma header_roundtrip_witness:
  "\<exists>h. write_header sample_meta = Inr h
    \<and> parse_header (h @ [7, 7]) = Inr (sample_meta\<lparr>tm_data_offset := word_of_nat (length h)\<rparr>)"
  using sample_header header_roundtrip by blast

lemma truncated_header_rejected_witness:
  "\<exists>h. write_header sample_meta = Inr h \<and> (\<exists>e. parse_header (take 41 h) = Inl e)"
proof -
  from sample_header obtain h where h: "write_header sample_meta = Inr h" "length h = 42" by blast
  with truncated_header_rejected [OF h(1), of 41] show ?thesis by simp
qed

text \<open>The size of a tensor is the product of its dimensions and the element size, as long as it fits.\<close>

lemma byte_count:
  assumes "shape \<noteq> []" "(\<Prod>d\<leftarrow>shape. unat d) * dtype_size t < 2 ^ 64"
  shows "tensor_byte_size t shape = (\<Prod>d\<leftarrow>shape. unat d) * dtype_size t"
proof -
  have "size_t (foldl (\<lambda>c d. size_t (c * unat d)) (size_t a) ds * k) = size_t (a * (\<Prod>d\<leftarrow>ds. unat d) * k)"
    for a k :: nat and ds :: "u32 list"
  proof (induction ds arbitrary: a)
    case Nil
    show ?case by (simp add: size_t_def mod_mult_left_eq)
  next
    case (Cons d ds)
    have "size_t (size_t a * unat d) = size_t (a * unat d)" by (simp add: size_t_def mod_mult_left_eq)
    with Cons [of "a * unat d"] show ?case by (simp add: mult.assoc)
  qed
  from this [of 1 shape "dtype_size t"] assms show ?thesis
    by (simp add: tensor_byte_size_def)
qed

end
