(* ===== verification/Tensor_FS.thy ===== *)
theory Tensor_FS
  imports Fuse_Ops Tensor_Format
begin

text \<open>
  The low-level tensor file system (\<open>bin/fuse/tensor_fs.h\<close>, \<open>bin/fuse/tensor_fs.cpp\<close>): a directory of
  \<open>.slt\<close> files served decompressed, by inode.  What the callbacks hand to \<open>libfuse\<close> is a reply value.
  The backing store is the argument \<open>disk\<close>: the contents of the files that can be opened.  The
  iteration order of \<open>names_\<close> and the size of a directory entry are arguments where they are used.
\<close>

subsection \<open>State\<close>

record tensor_file =
  tfi_inode :: u64
  tfi_name :: string
  backing_path :: string
  apparent_size :: u64
  tfi_meta :: tensor_meta

record tensor_fs =
  tfs_cache :: tensor_cache
  inodes :: "u64 \<Rightarrow> tensor_file option"
  names :: "string \<Rightarrow> u64 option"
  next_ino :: u64

type_synonym disk = "string \<Rightarrow> u8 list option"

definition BLOCK_SIZE :: nat where
  "BLOCK_SIZE = 256 * 1024"

definition ROOT_ID :: u64 where
  "ROOT_ID = 1"

definition new_tensor_fs :: tensor_fs where
  "new_tensor_fs = \<lparr>tfs_cache = empty_lru 0, inodes = Map.empty, names = Map.empty, next_ino = 2\<rparr>"

subsection \<open>Registration\<close>

text \<open>\<open>path.filename()\<close> and \<open>path.extension()\<close> of \<open>std::filesystem\<close>.\<close>

definition filename :: "string \<Rightarrow> string" where
  "filename p = rev (takeWhile (\<lambda>c. c \<noteq> CHR ''/'') (rev p))"

definition extension :: "string \<Rightarrow> string" where
  "extension p =
     (let f = filename p; tail = rev (takeWhile (\<lambda>c. c \<noteq> CHR ''.'') (rev f)) in
      if f = ''.'' \<or> f = ''..'' \<or> CHR ''.'' \<notin> set (tl f) then '''' else CHR ''.'' # tail)"

definition register_file :: "disk \<Rightarrow> string \<Rightarrow> tensor_fs \<Rightarrow> tensor_fs \<times> (string + unit)" where
  "register_file disk p s =
     (case disk p of
        None \<Rightarrow> (s, Inl (''Cannot open: '' @ p))
      | Some bytes \<Rightarrow>
          (case parse_header (take 1024 bytes) of
             Inl e \<Rightarrow> (s, Inl (''Bad header in '' @ p @ '': '' @ e))
           | Inr meta \<Rightarrow>
               (let ino = next_ino s;
                    tf = \<lparr>tfi_inode = ino, tfi_name = filename p, backing_path = p,
                          apparent_size = tm_original_size meta, tfi_meta = meta\<rparr>
                in (s\<lparr>next_ino := ino + 1, inodes := (inodes s)(ino \<mapsto> tf),
                      names := (names s)(filename p \<mapsto> ino)\<rparr>, Inr ()))))"

text \<open>
  \<open>init\<close>: the directory is created (\<open>created\<close> is the error message, if that fails), then every regular
  file with the extension is registered; a file that cannot be is skipped with a warning.
\<close>

definition scan_entry :: "disk \<Rightarrow> string \<times> bool \<Rightarrow> tensor_fs \<Rightarrow> tensor_fs" where
  "scan_entry disk e s =
     (if snd e \<and> extension (fst e) = ''.slt'' then fst (register_file disk (fst e) s) else s)"

definition fs_init ::
  "disk \<Rightarrow> string option \<Rightarrow> (string \<times> bool) list \<Rightarrow> string \<Rightarrow> nat \<Rightarrow> tensor_fs \<Rightarrow> tensor_fs \<times> (string + unit)" where
  "fs_init disk created entries store_dir cache_bytes s =
     (let s = s\<lparr>tfs_cache := empty_lru cache_bytes\<rparr> in
      case created of
        Some msg \<Rightarrow> (s, Inl (''Cannot create store dir '' @ store_dir @ '': '' @ msg))
      | None \<Rightarrow> (fold (scan_entry disk) entries s, Inr ()))"

subsection \<open>Reading\<close>

definition decoded :: "dequantiser \<Rightarrow> disk \<Rightarrow> tensor_file \<Rightarrow> (string + u8 list) option" where
  "decoded dq disk tf =
     (case disk (backing_path tf) of
        None \<Rightarrow> Some (Inl (''Cannot open backing file: '' @ backing_path tf))
      | Some bytes \<Rightarrow>
          (case decompress dq (drop (unat (tm_data_offset (tfi_meta tf))) bytes) of
             None \<Rightarrow> None
           | Some (Inl e) \<Rightarrow> Some (Inl (''Decompression failed: '' @ e))
           | Some (Inr d) \<Rightarrow> Some (Inr d)))"

text \<open>\<open>read_block\<close> ignores the block index: the key of every block is block 0, the data the whole file.\<close>

definition read_block ::
  "dequantiser \<Rightarrow> disk \<Rightarrow> tensor_file \<Rightarrow> u32 \<Rightarrow> tensor_fs \<Rightarrow> (tensor_fs \<times> (string + u8 list)) option" where
  "read_block dq disk tf _ s = do {
     let ck = \<lparr>inode = tfi_inode tf, block_idx = 0\<rparr>;
     (c, hit) \<leftarrow> tensor_get ck (tfs_cache s);
     let s = s\<lparr>tfs_cache := c\<rparr>;
     case hit of
       Inr d \<Rightarrow> Some (s, Inr d)
     | Inl _ \<Rightarrow> do {
         r \<leftarrow> decoded dq disk tf;
         case r of
           Inl e \<Rightarrow> Some (s, Inl e)
         | Inr d \<Rightarrow> do {
             c \<leftarrow> tensor_put ck d (tfs_cache s);
             Some (s\<lparr>tfs_cache := c\<rparr>, Inr d) } } }"

subsection \<open>The callbacks\<close>

record file_attr =
  st_ino :: u64
  st_mode :: nat
  st_nlink :: nat
  st_size :: int

datatype reply =
    Reply_err "errno option"
  | Reply_attr file_attr
  | Reply_entry u64 file_attr
  | Reply_open nat
  | Reply_buf "u8 list"
  | Reply_dir "(string \<times> u64 \<times> nat) list"

definition S_IFDIR :: nat where "S_IFDIR = 0x4000"
definition S_IFREG :: nat where "S_IFREG = 0x8000"

definition file_attr_of :: "u64 \<Rightarrow> tensor_file \<Rightarrow> file_attr" where
  "file_attr_of ino tf =
     \<lparr>st_ino = ino, st_mode = S_IFREG OR 0x1A4, st_nlink = 1, st_size = sint (apparent_size tf)\<rparr>"

definition ll_getattr :: "u64 \<Rightarrow> tensor_fs \<Rightarrow> reply" where
  "ll_getattr ino s =
     (if ino = ROOT_ID then
        Reply_attr \<lparr>st_ino = ROOT_ID, st_mode = S_IFDIR OR 0x1ED, st_nlink = 2, st_size = 0\<rparr>
      else case inodes s ino of
        None \<Rightarrow> Reply_err (Some ENOENT)
      | Some tf \<Rightarrow> Reply_attr (file_attr_of ino tf))"

definition ll_lookup :: "u64 \<Rightarrow> string \<Rightarrow> tensor_fs \<Rightarrow> reply" where
  "ll_lookup parent nm s =
     (if parent \<noteq> ROOT_ID then Reply_err (Some ENOENT)
      else case names s nm of
        None \<Rightarrow> Reply_err (Some ENOENT)
      | Some ino \<Rightarrow>
          (case inodes s ino of
             None \<Rightarrow> Reply_err (Some ENOENT)
           | Some tf \<Rightarrow> Reply_entry ino (file_attr_of ino tf)))"

definition O_ACCMODE :: nat where "O_ACCMODE = 3"
definition O_RDONLY :: nat where "O_RDONLY = 0"

definition ll_open :: "u64 \<Rightarrow> nat \<Rightarrow> tensor_fs \<Rightarrow> reply" where
  "ll_open ino flags s =
     (if inodes s ino = None then Reply_err (Some ENOENT)
      else if flags AND O_ACCMODE \<noteq> O_RDONLY then Reply_err (Some EACCES)
      else Reply_open flags)"

definition ll_release :: "u64 \<Rightarrow> tensor_fs \<Rightarrow> reply" where
  "ll_release ino s = Reply_err None"

definition ll_read :: "dequantiser \<Rightarrow> disk \<Rightarrow> u64 \<Rightarrow> nat \<Rightarrow> nat \<Rightarrow> tensor_fs \<Rightarrow> (tensor_fs \<times> reply) option" where
  "ll_read dq disk ino sz off s =
     (case inodes s ino of
        None \<Rightarrow> Some (s, Reply_err (Some ENOENT))
      | Some tf \<Rightarrow>
          if off \<ge> unat (apparent_size tf) then Some (s, Reply_buf [])
          else do {
            let idx = word_of_nat (off div BLOCK_SIZE);
            let block_off = off mod BLOCK_SIZE;
            (s, data) \<leftarrow> read_block dq disk tf idx s;
            case data of
              Inl _ \<Rightarrow> Some (s, Reply_err (Some EIO))
            | Inr block \<Rightarrow>
                if block_off \<ge> length block then Some (s, Reply_buf [])
                else (let avail = length block - block_off; n = min sz avail
                      in Some (s, Reply_buf (slice_of block_off n block))) })"

text \<open>
  \<open>ll_readdir\<close>: the entries from \<open>off\<close> on that fit into the buffer, each with the offset of the next
  one; \<open>entry_size\<close> is what \<open>fuse_add_direntry\<close> reports for a name.
\<close>

fun fill_dir :: "(string \<Rightarrow> nat) \<Rightarrow> nat \<Rightarrow> nat \<Rightarrow> nat \<Rightarrow> (string \<times> u64) list \<Rightarrow> (string \<times> u64 \<times> nat) list" where
  "fill_dir entry_size sz used idx [] = []"
| "fill_dir entry_size sz used idx ((nm, ino) # es) =
     (if used + entry_size nm > sz then []
      else (nm, ino, idx + 1) # fill_dir entry_size sz (used + entry_size nm) (idx + 1) es)"

definition ll_readdir ::
  "(string \<Rightarrow> nat) \<Rightarrow> (string \<times> u64) list \<Rightarrow> u64 \<Rightarrow> nat \<Rightarrow> nat \<Rightarrow> reply" where
  "ll_readdir entry_size listing ino sz off =
     (if ino \<noteq> ROOT_ID then Reply_err (Some ENOTDIR)
      else (let entries = (''.'', ROOT_ID) # (''..'', ROOT_ID) # listing
            in Reply_dir (fill_dir entry_size sz 0 off (drop off entries))))"

subsection \<open>The cache operations\<close>

lemma tensor_get_spec:
  assumes "lru_ok c"
  shows "\<exists>c' r. tensor_get k c = Some (c', r) \<and> lru_ok c' \<and> lookup c' = lookup c
    \<and> current_bytes c' = current_bytes c \<and> (\<forall>d. r = Inr d \<longleftrightarrow> lookup c k = Some d)"
proof (cases "index c k")
  case None
  with assms show ?thesis by (simp add: tensor_get_def lookup_None)
next
  case (Some i)
  obtain n where
    n: "splice_front i c = Some (c\<lparr>lru_list := n # filter (\<lambda>m. node_id m \<noteq> i) (lru_list c)\<rparr>)"
      "lru_ok (c\<lparr>lru_list := n # filter (\<lambda>m. node_id m \<noteq> i) (lru_list c)\<rparr>)"
      "lookup (c\<lparr>lru_list := n # filter (\<lambda>m. node_id m \<noteq> i) (lru_list c)\<rparr>) = lookup c"
      "node_id n = i" "lookup c k = Some (node_data n)" using splice_front_spec [OF assms Some] .
  define c' where "c' = c\<lparr>lru_list := n # filter (\<lambda>m. node_id m \<noteq> i) (lru_list c)\<rparr>"
  have "tensor_get k c = Some (c', Inr (node_data n))"
    by (simp add: tensor_get_def Some n(1,4) c'_def)
  moreover have "lru_ok c'" "lookup c' = lookup c" "current_bytes c' = current_bytes c"
    using n(2,3) by (simp_all add: c'_def)
  ultimately show ?thesis using n(5) by auto
qed

lemma erase_node_spec:
  assumes "lru_ok c" "index c k = Some i"
  shows "\<exists>c'. erase_node i k c = Some c' \<and> lru_ok c' \<and> index c' k = None
    \<and> current_bytes c' \<le> current_bytes c \<and> (\<forall>k'. k' \<noteq> k \<longrightarrow> lookup c' k' = lookup c k')"
proof -
  obtain n where n: "n \<in> set (lru_list c)" "node_key n = k" "node_id n = i" "deref i c = Some n"
    using lru_okD [OF assms] by metis
  define c' where "c' = c\<lparr>current_bytes := size_sub (current_bytes c) (length (node_data n)),
    lru_list := filter (\<lambda>m. node_id m \<noteq> i) (lru_list c), index := (index c)(k := None)\<rparr>"
  have er: "erase_node i k c = Some c'" by (simp add: erase_node_def n(4) c'_def)
  have m: "mset (n # filter (\<lambda>m. node_id m \<noteq> i) (lru_list c)) = mset (lru_list c)"
    using to_front [of node_id "lru_list c" n] n assms(1) by (simp add: lru_ok_def)
  from bytes_in_mset [OF m] have b: "bytes_in (lru_list c) = length (node_data n) + bytes_in (lru_list c')"
    by (simp add: c'_def)
  have keys: "node_id x = node_id y \<longleftrightarrow> node_key x = node_key y"
    if "x \<in> set (lru_list c)" "y \<in> set (lru_list c)" for x y
    using assms(1) that by (auto simp: lru_ok_def distinct_map inj_on_def)
  have flt: "lru_list c' = filter (\<lambda>m. node_key m \<noteq> k) (lru_list c)"
    using keys [OF _ n(1)] n by (auto simp: c'_def intro!: filter_cong)
  have cur: "current_bytes c' = bytes_in (lru_list c')"
    using assms(1) b by (simp add: lru_ok_def c'_def)
  have ok: "lru_ok c'"
    unfolding lru_ok_def
  proof (intro conjI allI)
    show "index c' k' = Some j \<longleftrightarrow> (\<exists>m\<in>set (lru_list c'). node_key m = k' \<and> node_id m = j)" for k' j
      using assms(1) unfolding flt by (auto simp: c'_def lru_ok_def)
  qed (use assms(1) b cur in \<open>auto simp: lru_ok_def c'_def distinct_map inj_on_def\<close>)
  have "lookup c' k' = lookup c k'" if "k' \<noteq> k" for k'
    using lookup_filter [OF assms(1) ok, of "\<lambda>k'. k' \<noteq> k"] flt that by simp
  then show ?thesis using er ok b cur assms(1) by (auto simp: lru_ok_def c'_def)
qed

lemma tensor_put_spec:
  assumes "lru_ok c" "current_bytes c + length d < 2 ^ 64"
  shows "\<exists>c'. tensor_put k d c = Some c' \<and> lru_ok c' \<and> lookup c' k = Some d
    \<and> (\<forall>k' d'. k' \<noteq> k \<longrightarrow> lookup c' k' = Some d' \<longrightarrow> lookup c k' = Some d')"
proof -
  obtain b where b: "(case index c k of None \<Rightarrow> Some c | Some it \<Rightarrow> erase_node it k c) = Some b"
    "lru_ok b" "index b k = None" "current_bytes b \<le> current_bytes c"
    "\<forall>k'. k' \<noteq> k \<longrightarrow> lookup b k' = lookup c k'"
  proof (cases "index c k")
    case None
    with assms(1) show thesis by (intro that [of c]) auto
  next
    case (Some i)
    with erase_node_spec [OF assms(1) Some] show thesis by (auto intro: that)
  qed
  define r where "r = make_room (length d) b"
  note m = make_room_spec [OF b(2), of "length d", folded r_def]
  have ok: "lru_ok r" using m by blast
  have "lookup r k = None" using m lookup_None [OF b(2,3)] by (metis not_Some_eq)
  then have i: "index r k = None" using lookup_index [OF ok] by blast
  from m obtain j where "lru_list r = take j (lru_list b)" by blast
  then have "bytes_in (lru_list r) \<le> bytes_in (lru_list b)"
    using bytes_in_simps(3) [of "take j (lru_list b)" "drop j (lru_list b)"] by simp
  then have "current_bytes r + length d < 2 ^ 64"
    using assms(2) b(2,4) ok by (simp add: lru_ok_def)
  note ins = insert_front_spec [OF ok i this]
  have "tensor_put k d c = Some (insert_front k d r)"
    using b(1) by (simp add: tensor_put_def r_def)
  moreover have "k' \<noteq> k \<longrightarrow> lookup r k' = Some d' \<longrightarrow> lookup c k' = Some d'" for k' d' using m b(5) by metis
  ultimately show ?thesis using ins by simp
qed

subsection \<open>The invariant\<close>

text \<open>
  Inode numbers are handed out in order, every name leads to a file of that name, and a cached block is
  what the backing file decodes to.
\<close>

definition tfs_ok :: "dequantiser \<Rightarrow> disk \<Rightarrow> tensor_fs \<Rightarrow> bool" where
  "tfs_ok dq disk s \<longleftrightarrow>
     lru_ok (tfs_cache s)
     \<and> (\<forall>i tf. inodes s i = Some tf \<longrightarrow> tfi_inode tf = i \<and> ROOT_ID < i \<and> i < next_ino s)
     \<and> (\<forall>nm i. names s nm = Some i \<longrightarrow> (\<exists>tf. inodes s i = Some tf \<and> tfi_name tf = nm))
     \<and> (\<forall>k d. lookup (tfs_cache s) k = Some d \<longrightarrow>
          (\<exists>tf. inodes s (inode k) = Some tf \<and> decoded dq disk tf = Some (Inr d)))"

lemma tfs_okI [intro?]:
  assumes "lru_ok (tfs_cache s)"
    "\<And>i tf. inodes s i = Some tf \<Longrightarrow> tfi_inode tf = i \<and> ROOT_ID < i \<and> i < next_ino s"
    "\<And>nm i. names s nm = Some i \<Longrightarrow> \<exists>tf. inodes s i = Some tf \<and> tfi_name tf = nm"
    "\<And>k d. lookup (tfs_cache s) k = Some d \<Longrightarrow>
       \<exists>tf. inodes s (inode k) = Some tf \<and> decoded dq disk tf = Some (Inr d)"
  shows "tfs_ok dq disk s"
  using assms by (simp add: tfs_ok_def)

lemma lookup_empty_lru [simp]: "lookup (empty_lru mx) k = None"
  by (simp add: lookup_def empty_lru_def)

lemma lru_ok_empty [simp]: "lru_ok (empty_lru mx)"
  by (simp add: lru_ok_def empty_lru_def)

lemma new_tensor_fs_ok: "tfs_ok dq disk new_tensor_fs"
  by rule (simp_all add: new_tensor_fs_def)

subsection \<open>Registration keeps it\<close>

lemma register_file_ok:
  assumes "tfs_ok dq disk s" "1 < next_ino s" "next_ino s < next_ino s + 1"
  shows "tfs_ok dq disk (fst (register_file disk p s))"
proof (cases "snd (register_file disk p s)")
  case (Inl e)
  with assms show ?thesis by (auto simp: register_file_def Let_def split: option.splits sum.splits)
next
  case (Inr u)
  then obtain bytes meta where d: "disk p = Some bytes" "parse_header (take 1024 bytes) = Inr meta"
    by (auto simp: register_file_def Let_def split: option.splits sum.splits)
  define ino where "ino = next_ino s"
  define tf where "tf = \<lparr>tfi_inode = ino, tfi_name = filename p, backing_path = p,
    apparent_size = tm_original_size meta, tfi_meta = meta\<rparr>"
  have r: "fst (register_file disk p s) = s\<lparr>next_ino := ino + 1, inodes := (inodes s)(ino \<mapsto> tf),
      names := (names s)(filename p \<mapsto> ino)\<rparr>"
    by (simp add: register_file_def d Let_def ino_def tf_def)
  have fresh: "inodes s ino = None"
    using assms(1) by (cases "inodes s ino") (auto simp: tfs_ok_def ino_def)
  show ?thesis
    unfolding r
  proof (rule tfs_okI, goal_cases)
    case 1
    show ?case using assms(1) by (simp add: tfs_ok_def)
  next
    case (2 i tf')
    show ?case
    proof (cases "i = ino")
      case True
      with 2 show ?thesis using assms(2,3) by (auto simp: tf_def ino_def ROOT_ID_def)
    next
      case False
      with 2 have "tfi_inode tf' = i \<and> ROOT_ID < i \<and> i < ino"
        using assms(1) by (simp add: tfs_ok_def ino_def)
      then show ?thesis using assms(3) by (auto simp: ino_def intro: less_trans)
    qed
  next
    case (3 nm i)
    show ?case
    proof (cases "nm = filename p")
      case False
      with 3 have "names s nm = Some i" by simp
      then obtain tf' where "inodes s i = Some tf'" "tfi_name tf' = nm"
        using assms(1) unfolding tfs_ok_def by blast
      with fresh show ?thesis by auto
    qed (use 3 in \<open>simp add: tf_def\<close>)
  next
    case (4 k d)
    then have "lookup (tfs_cache s) k = Some d" by simp
    then obtain tf' where "inodes s (inode k) = Some tf'" "decoded dq disk tf' = Some (Inr d)"
      using assms(1) unfolding tfs_ok_def by blast
    then show ?case using fresh by auto
  qed
qed

subsection \<open>Reading\<close>

lemma read_block_spec:
  assumes "tfs_ok dq disk s" "inodes s ino = Some tf" "decoded dq disk tf = Some (Inr d)"
    "current_bytes (tfs_cache s) + length d < 2 ^ 64"
  shows "\<exists>s'. read_block dq disk tf idx s = Some (s', Inr d) \<and> tfs_ok dq disk s'
    \<and> inodes s' = inodes s \<and> names s' = names s \<and> next_ino s' = next_ino s"
proof -
  let ?ck = "\<lparr>inode = tfi_inode tf, block_idx = 0\<rparr>"
  have ino: "tfi_inode tf = ino" using assms(1,2) by (simp add: tfs_ok_def)
  have coh: "\<exists>tf. inodes s (inode k) = Some tf \<and> decoded dq disk tf = Some (Inr e)"
    if "lookup (tfs_cache s) k = Some e" for k e using assms(1) that by (simp add: tfs_ok_def)
  have ok: "lru_ok (tfs_cache s)" using assms(1) by (simp add: tfs_ok_def)
  from tensor_get_spec [OF ok, of ?ck] obtain c r where
    g: "tensor_get ?ck (tfs_cache s) = Some (c, r)" "lru_ok c" "lookup c = lookup (tfs_cache s)"
      "current_bytes c = current_bytes (tfs_cache s)"
      "\<forall>e. r = Inr e \<longleftrightarrow> lookup (tfs_cache s) ?ck = Some e" by blast
  have keep: "tfs_ok dq disk (s\<lparr>tfs_cache := c'\<rparr>)"
    if "lru_ok c'" "\<And>k e. lookup c' k = Some e \<Longrightarrow> lookup (tfs_cache s) k = Some e \<or> k = ?ck \<and> e = d" for c'
  proof (rule tfs_okI)
    fix k e assume "lookup (tfs_cache (s\<lparr>tfs_cache := c'\<rparr>)) k = Some e"
    with that(2) [of k e] coh [of k e] assms(2,3) ino
    show "\<exists>tf. inodes (s\<lparr>tfs_cache := c'\<rparr>) (inode k) = Some tf \<and> decoded dq disk tf = Some (Inr e)" by auto
  qed (use assms(1) that(1) in \<open>auto simp: tfs_ok_def\<close>)
  show ?thesis
  proof (cases r)
    case (Inr e)
    then have "lookup (tfs_cache s) ?ck = Some e" using g(5) by blast
    from coh [OF this] assms(2,3) ino have "e = d" by simp
    moreover have "tfs_ok dq disk (s\<lparr>tfs_cache := c\<rparr>)" using g(2,3) by (intro keep) simp_all
    ultimately show ?thesis by (simp add: read_block_def Let_def g(1) Inr)
  next
    case (Inl m)
    have "current_bytes c + length d < 2 ^ 64" using assms(4) g(4) by simp
    from tensor_put_spec [OF g(2) this, of ?ck] obtain c' where
      p: "tensor_put ?ck d c = Some c'" "lru_ok c'" "lookup c' ?ck = Some d"
        "\<forall>k' d'. k' \<noteq> ?ck \<longrightarrow> lookup c' k' = Some d' \<longrightarrow> lookup c k' = Some d'" by blast
    have "tfs_ok dq disk (s\<lparr>tfs_cache := c'\<rparr>)"
    proof (rule keep [OF p(2)])
      show "lookup (tfs_cache s) k = Some e \<or> k = ?ck \<and> e = d" if "lookup c' k = Some e" for k e
        using that p(3,4) g(3) by (cases "k = ?ck") auto
    qed
    then show ?thesis by (simp add: read_block_def Let_def g(1) Inl assms(3) p(1))
  qed
qed


text \<open>Every registered file is found under its name, with the size its header states.\<close>

lemma register_then_lookup:
  assumes "disk p = Some bytes" "parse_header (take 1024 bytes) = Inr meta"
  shows "ll_lookup ROOT_ID (filename p) (fst (register_file disk p s))
    = Reply_entry (next_ino s) \<lparr>st_ino = next_ino s, st_mode = S_IFREG OR 0x1A4, st_nlink = 1,
        st_size = sint (tm_original_size meta)\<rparr>"
  using assms by (simp add: ll_lookup_def register_file_def file_attr_of_def Let_def)

lemma ll_read_spec:
  assumes "tfs_ok dq disk s" "inodes s ino = Some tf" "decoded dq disk tf = Some (Inr d)"
    "current_bytes (tfs_cache s) + length d < 2 ^ 64" "off < unat (apparent_size tf)"
  shows "\<exists>s'. ll_read dq disk ino sz off s = Some (s', Reply_buf (slice_of (off mod BLOCK_SIZE) sz d))
    \<and> tfs_ok dq disk s' \<and> inodes s' = inodes s \<and> names s' = names s"
proof -
  obtain s' where r: "read_block dq disk tf (word_of_nat (off div BLOCK_SIZE)) s = Some (s', Inr d)"
    "tfs_ok dq disk s'" "inodes s' = inodes s" "names s' = names s"
    using read_block_spec [OF assms(1-4)] by blast
  have "slice_of b (min sz (length d - b)) d = slice_of b sz d" for b
    by (simp add: slice_of_def min_def)
  moreover have "slice_of b sz d = []" if "length d \<le> b" for b
    using that by (simp add: slice_of_def)
  ultimately show ?thesis
    using assms(2,5) r by (simp add: ll_read_def Let_def)
qed

subsection \<open>Properties\<close>

text \<open>C29. Within the first 256 KiB a read is right: on a well-formed file system, reading a registered file
  whose backing file decodes to \<open>d\<close> replies, cached or not, with the bytes of \<open>d\<close> at that offset if the
  offset is below the size that the header of the file states (\<open>original_size\<close>, which may differ from the
  length of \<open>d\<close>), and with no bytes otherwise; it keeps the cache coherent with the disk.  The bytes in the
  cache and those of \<open>d\<close> together are fewer than 2^64.\<close>

theorem ll_read_serves:
  assumes "tfs_ok dq disk s" "inodes s ino = Some tf" "decoded dq disk tf = Some (Inr d)"
    "current_bytes (tfs_cache s) + length d < 2 ^ 64" "off < BLOCK_SIZE"
  shows "\<exists>s'. ll_read dq disk ino sz off s =
      Some (s', Reply_buf (if off < unat (apparent_size tf) then slice_of off sz d else [])) \<and> tfs_ok dq disk s'"
proof (cases "off < unat (apparent_size tf)")
  case True
  then show ?thesis using ll_read_spec [OF assms(1-4) True, of sz] assms(5) by auto
next
  case False
  then show ?thesis using assms(1,2) by (simp add: ll_read_def)
qed

text \<open>Beyond the first 256 KiB it is not: \<open>read_block\<close> returns the whole file whatever block is asked
  for, and \<open>ll_read\<close> then indexes it with the offset inside the block, so that a read at any offset
  replies with the bytes at that offset modulo \<open>BLOCK_SIZE\<close>.\<close>

theorem ll_read_wraps:
  assumes "tfs_ok dq disk s" "inodes s ino = Some tf" "decoded dq disk tf = Some (Inr d)"
    "current_bytes (tfs_cache s) + length d < 2 ^ 64" "BLOCK_SIZE \<le> off" "off < unat (apparent_size tf)"
  shows "map_option snd (ll_read dq disk ino sz off s) = Some (Reply_buf (slice_of (off mod BLOCK_SIZE) sz d))
    \<and> map_option snd (ll_read dq disk ino sz (off mod BLOCK_SIZE) s)
      = map_option snd (ll_read dq disk ino sz off s)"
proof -
  have le: "off mod BLOCK_SIZE < unat (apparent_size tf)"
    using assms(5,6) by (meson le_less_trans mod_less_eq_dividend)
  from ll_read_spec [OF assms(1-4,6), of sz] ll_read_spec [OF assms(1-4) le, of sz]
  show ?thesis by auto
qed

text \<open>A store with one file of two bytes whose header claims 300000.\<close>

definition demo_meta :: tensor_meta where
  "demo_meta = \<lparr>tm_name = [], tm_dtype = dtype_code Int8, tm_shape = [], tm_compression = 0,
     tm_original_size = 300000, tm_compressed_size = 2, tm_data_offset = 0\<rparr>"

definition demo_file :: tensor_file where
  "demo_file = \<lparr>tfi_inode = 2, tfi_name = ''a.slt'', backing_path = ''/s/a.slt'', apparent_size = 300000,
     tfi_meta = demo_meta\<rparr>"

definition demo_disk :: disk where
  "demo_disk = [''/s/a.slt'' \<mapsto> block_header None_Compression 2 2 @ [5, 6]]"

definition demo_fs :: tensor_fs where
  "demo_fs = \<lparr>tfs_cache = empty_lru 100, inodes = [2 \<mapsto> demo_file], names = [''a.slt'' \<mapsto> 2], next_ino = 3\<rparr>"

lemma demo_fs_ok: "tfs_ok dq demo_disk demo_fs"
  by rule (auto simp: demo_fs_def demo_file_def ROOT_ID_def split: if_splits)

lemma demo_decoded: "decoded dq demo_disk demo_file = Some (Inr [5, 6])"
proof -
  have "compress undefined [5, 6] None_Compression = Inr (block_header None_Compression 2 2 @ [5, 6])"
    by (simp add: compress_def payload_of_def Let_def numeral_2_eq_2)
  from container_roundtrip [OF this, of dq]
  have "decompress dq (block_header None_Compression 2 2 @ [5, 6]) = Some (Inr [5, 6])" by simp
  then show ?thesis by (simp add: decoded_def demo_disk_def demo_file_def demo_meta_def)
qed

lemma ll_read_serves_witness:
  "\<exists>s'. ll_read (\<lambda>_ _ _. 0) demo_disk 2 1 1 demo_fs =
      Some (s', Reply_buf (if 1 < unat (apparent_size demo_file) then slice_of 1 1 [5, 6] else []))
    \<and> tfs_ok (\<lambda>_ _ _. 0) demo_disk s'"
  by (rule ll_read_serves [OF demo_fs_ok _ demo_decoded])
     (simp_all add: demo_fs_def demo_file_def empty_lru_def BLOCK_SIZE_def)

lemma ll_read_wraps_witness:
  "map_option snd (ll_read (\<lambda>_ _ _. 0) demo_disk 2 4 262144 demo_fs)
      = Some (Reply_buf (slice_of (262144 mod BLOCK_SIZE) 4 [5, 6]))
    \<and> map_option snd (ll_read (\<lambda>_ _ _. 0) demo_disk 2 4 (262144 mod BLOCK_SIZE) demo_fs)
      = map_option snd (ll_read (\<lambda>_ _ _. 0) demo_disk 2 4 262144 demo_fs)"
  by (rule ll_read_wraps [OF demo_fs_ok _ demo_decoded])
     (simp_all add: demo_fs_def demo_file_def empty_lru_def BLOCK_SIZE_def)

end
