(* ===== verification/Graph_IR.thy ===== *)
theory Graph_IR
  imports Decimal "HOL-Library.AList"
begin

text \<open>
  The graph of the tensor compiler (\<open>bin/compiler/ir/graph.h\<close>, \<open>bin/compiler/ir/graph.cpp\<close>): nodes that
  name each other by id, building and removal, the topological order, and the document that is written
  and read as JSON.

  \<open>nodes_\<close> is a map here.  The order in which an \<open>unordered_map\<close> is iterated is not specified, so it is
  an argument of the definitions that iterate: a list of the ids, each once.  Attributes are an
  association list with distinct keys.  Ids are numbers below \<open>2 ^ 64\<close>.  The JSON library is not part of
  the repository: a document is what its accessors read from and write to.
\<close>

subsection \<open>Operations\<close>

datatype op_type =
  MatMul | Conv2d | ReLU | Add | Softmax | LayerNorm | Gather | Reshape | Transpose | Custom

definition op_names :: "(op_type \<times> string) list" where
  "op_names =
     [(MatMul, ''MatMul''), (Conv2d, ''Conv2d''), (ReLU, ''ReLU''), (Add, ''Add''), (Softmax, ''Softmax''),
      (LayerNorm, ''LayerNorm''), (Gather, ''Gather''), (Reshape, ''Reshape''), (Transpose, ''Transpose''),
      (Custom, ''Custom'')]"

definition op_type_to_string :: "op_type \<Rightarrow> string" where
  "op_type_to_string op =
     (case find (\<lambda>(o', _). o' = op) op_names of Some (_, name) \<Rightarrow> name | None \<Rightarrow> ''Unknown'')"

definition op_type_from_string :: "string \<Rightarrow> string + op_type" where
  "op_type_from_string s =
     (case find (\<lambda>(_, name). s = name) op_names of
        Some (o', _) \<Rightarrow> Inr o'
      | None \<Rightarrow> Inl (''unknown OpType: '' @ s))"

lemma op_type_roundtrip [simp]: "op_type_from_string (op_type_to_string op) = Inr op"
  by (cases op) (simp_all add: op_type_from_string_def op_type_to_string_def op_names_def)

subsection \<open>Graphs\<close>

record tensor_desc =
  td_shape :: "int list"
  td_dtype :: string

type_synonym attributes = "(string \<times> string) list"

record gnode =
  n_id :: nat
  n_op :: op_type
  n_inputs :: "nat list"
  n_outputs :: "nat list"
  n_desc :: tensor_desc
  n_attrs :: attributes

record graph =
  next_id :: nat
  nodes :: "nat \<Rightarrow> gnode option"

definition new_graph :: graph where
  "new_graph = \<lparr>next_id = 1, nodes = Map.empty\<rparr>"

text \<open>An update of the node with an id, if there is one.\<close>

definition upd_node :: "(gnode \<Rightarrow> gnode) \<Rightarrow> nat \<Rightarrow> graph \<Rightarrow> graph" where
  "upd_node f i g =
     (case nodes g i of None \<Rightarrow> g | Some n \<Rightarrow> g\<lparr>nodes := (nodes g)(i \<mapsto> f n)\<rparr>)"

definition add_output :: "nat \<Rightarrow> gnode \<Rightarrow> gnode" where
  "add_output o' n = n\<lparr>n_outputs := n_outputs n @ [o']\<rparr>"

definition add_input :: "nat \<Rightarrow> gnode \<Rightarrow> gnode" where
  "add_input i n = n\<lparr>n_inputs := n_inputs n @ [i]\<rparr>"

definition drop_output :: "nat \<Rightarrow> gnode \<Rightarrow> gnode" where
  "drop_output o' n = n\<lparr>n_outputs := removeAll o' (n_outputs n)\<rparr>"

definition drop_input :: "nat \<Rightarrow> gnode \<Rightarrow> gnode" where
  "drop_input i n = n\<lparr>n_inputs := removeAll i (n_inputs n)\<rparr>"

definition add_node ::
  "op_type \<Rightarrow> nat list \<Rightarrow> tensor_desc \<Rightarrow> attributes \<Rightarrow> graph \<Rightarrow> graph \<times> (string + nat)" where
  "add_node op inputs out attrs g =
     (case find (\<lambda>i. nodes g i = None) inputs of
        Some i \<Rightarrow> (g, Inl (''input node '' @ dec_nat i @ '' does not exist''))
      | None \<Rightarrow>
          (let i = next_id g;
               n = \<lparr>n_id = i, n_op = op, n_inputs = inputs, n_outputs = [], n_desc = out, n_attrs = attrs\<rparr>;
               g = fold (upd_node (add_output i)) inputs (g\<lparr>next_id := (i + 1) mod 2 ^ 64\<rparr>)
           in (if nodes g i = None then g\<lparr>nodes := (nodes g)(i \<mapsto> n)\<rparr> else g, Inr i)))"

definition get_node :: "nat \<Rightarrow> graph \<Rightarrow> string + gnode" where
  "get_node i g =
     (case nodes g i of None \<Rightarrow> Inl (''node '' @ dec_nat i @ '' not found'') | Some n \<Rightarrow> Inr n)"

text \<open>
  \<open>remove_node\<close> reads the node through a reference: its output list is read after the first loop has
  updated the nodes it takes its inputs from.
\<close>

definition remove_node :: "nat \<Rightarrow> graph \<Rightarrow> graph \<times> (string + unit)" where
  "remove_node i g =
     (case nodes g i of
        None \<Rightarrow> (g, Inl (''node '' @ dec_nat i @ '' not found''))
      | Some n \<Rightarrow>
          (let g = fold (upd_node (drop_output i)) (n_inputs n) g;
               outs = (case nodes g i of None \<Rightarrow> [] | Some n \<Rightarrow> n_outputs n);
               g = fold (upd_node (drop_input i)) outs g
           in (g\<lparr>nodes := (nodes g)(i := None)\<rparr>, Inr ())))"

definition replace_node_op :: "nat \<Rightarrow> op_type \<Rightarrow> attributes \<Rightarrow> graph \<Rightarrow> graph \<times> (string + unit)" where
  "replace_node_op i op attrs g =
     (case nodes g i of
        None \<Rightarrow> (g, Inl (''node '' @ dec_nat i @ '' not found''))
      | Some n \<Rightarrow>
          (upd_node (\<lambda>n. n\<lparr>n_op := op, n_attrs := if attrs \<noteq> [] then attrs else n_attrs n\<rparr>) i g, Inr ()))"

definition node_count :: "graph \<Rightarrow> nat" where
  "node_count g = card (dom (nodes g))"

definition output_nodes :: "nat list \<Rightarrow> graph \<Rightarrow> nat list" where
  "output_nodes ids g =
     filter (\<lambda>i. case nodes g i of None \<Rightarrow> False | Some n \<Rightarrow> n_outputs n = []) ids"

text \<open>An iteration order of the nodes of a graph.\<close>

definition iterates :: "nat list \<Rightarrow> graph \<Rightarrow> bool" where
  "iterates ids g \<longleftrightarrow> distinct ids \<and> set ids = dom (nodes g)"

subsection \<open>Topological order\<close>

definition in_degree :: "graph \<Rightarrow> nat \<Rightarrow> nat option" where
  "in_degree g i =
     map_option (\<lambda>n. length (filter (\<lambda>j. nodes g j \<noteq> None) (n_inputs n))) (nodes g i)"

text \<open>One output of the node that was taken: its count goes down, and at zero it is ready.\<close>

definition relax :: "nat \<Rightarrow> (nat \<Rightarrow> nat option) \<times> nat list \<Rightarrow> (nat \<Rightarrow> nat option) \<times> nat list" where
  "relax o' = (\<lambda>(deg, ready).
     case deg o' of
       None \<Rightarrow> (deg, ready)
     | Some d \<Rightarrow> (let d = (if d = 0 then 2 ^ 64 - 1 else d - 1)
                 in (deg(o' \<mapsto> d), if d = 0 then ready @ [o'] else ready)))"

partial_function (option) kahn ::
  "graph \<Rightarrow> (nat \<Rightarrow> nat option) \<Rightarrow> nat list \<Rightarrow> nat list \<Rightarrow> nat list option" where
  "kahn g deg ready order =
     (case ready of
        [] \<Rightarrow> Some order
      | cur # rest \<Rightarrow>
          (case nodes g cur of
             None \<Rightarrow> kahn g deg rest (order @ [cur])
           | Some n \<Rightarrow> (let s = fold relax (n_outputs n) (deg, rest)
                       in kahn g (fst s) (snd s) (order @ [cur]))))"

text \<open>\<open>ids\<close> is the iteration order of the \<open>in_degree\<close> map.\<close>

definition topological_order :: "nat list \<Rightarrow> graph \<Rightarrow> nat list option" where
  "topological_order ids g =
     kahn g (in_degree g) (filter (\<lambda>i. in_degree g i = Some 0) ids) []"

subsection \<open>Documents\<close>

record node_doc =
  nd_id :: nat
  nd_op :: string
  nd_inputs :: "nat list"
  nd_outputs :: "nat list"
  nd_shape :: "int list"
  nd_dtype :: string
  nd_attrs :: attributes

type_synonym graph_doc = "nat \<times> node_doc list"

definition node_to_doc :: "gnode \<Rightarrow> node_doc" where
  "node_to_doc n = \<lparr>nd_id = n_id n, nd_op = op_type_to_string (n_op n), nd_inputs = n_inputs n,
     nd_outputs = n_outputs n, nd_shape = td_shape (n_desc n), nd_dtype = td_dtype (n_desc n),
     nd_attrs = n_attrs n\<rparr>"

definition serialize :: "nat list \<Rightarrow> graph \<Rightarrow> graph_doc option" where
  "serialize ids g = map_option
     (\<lambda>order. (next_id g, List.map_filter (\<lambda>i. map_option node_to_doc (nodes g i)) order))
     (topological_order ids g)"

text \<open>The first pass inserts (\<open>emplace\<close> keeps an earlier node with the same id), the second validates.\<close>

fun insert_docs :: "node_doc list \<Rightarrow> graph \<Rightarrow> string + graph" where
  "insert_docs [] g = Inr g"
| "insert_docs (d # ds) g =
     (case op_type_from_string (nd_op d) of
        Inl e \<Rightarrow> Inl e
      | Inr op \<Rightarrow>
          (let n = \<lparr>n_id = nd_id d, n_op = op, n_inputs = nd_inputs d, n_outputs = nd_outputs d,
                    n_desc = \<lparr>td_shape = nd_shape d, td_dtype = nd_dtype d\<rparr>, n_attrs = nd_attrs d\<rparr>
           in insert_docs ds
                (if nodes g (nd_id d) = None then g\<lparr>nodes := (nodes g)(nd_id d \<mapsto> n)\<rparr> else g)))"

definition dangling :: "graph \<Rightarrow> nat \<Rightarrow> string option" where
  "dangling g i =
     (case nodes g i of
        None \<Rightarrow> None
      | Some n \<Rightarrow>
          (case find (\<lambda>j. nodes g j = None) (n_inputs n) of
             Some j \<Rightarrow> Some (''node '' @ dec_nat i @ '' references nonexistent input '' @ dec_nat j)
           | None \<Rightarrow>
               (case find (\<lambda>j. nodes g j = None) (n_outputs n) of
                  Some j \<Rightarrow> Some (''node '' @ dec_nat i @ '' references nonexistent output '' @ dec_nat j)
                | None \<Rightarrow> None)))"

definition deserialize :: "(graph \<Rightarrow> nat list) \<Rightarrow> graph_doc \<Rightarrow> string + graph" where
  "deserialize it doc =
     (case insert_docs (snd doc) \<lparr>next_id = fst doc, nodes = Map.empty\<rparr> of
        Inl e \<Rightarrow> Inl e
      | Inr g \<Rightarrow>
          (case List.map_filter (dangling g) (it g) of
             e # _ \<Rightarrow> Inl e
           | [] \<Rightarrow> Inr g))"

subsection \<open>Updates\<close>

lemma nodes_upd: "nodes (upd_node f i g) j = (if j = i then map_option f (nodes g i) else nodes g j)"
  by (simp add: upd_node_def split: option.split)

lemma next_id_upd [simp]: "next_id (upd_node f i g) = next_id g"
  by (simp add: upd_node_def split: option.split)

lemma next_id_fold_upd [simp]: "next_id (fold (upd_node f) is g) = next_id g"
  by (induction "is" arbitrary: g) simp_all

lemma nodes_fold_upd:
  "nodes (fold (upd_node f) is g) j = map_option (f ^^ count_list is j) (nodes g j)"
  by (induction "is" arbitrary: g)
     (auto simp: nodes_upd option.map_comp comp_def funpow_swap1 option.map_id)

lemma dom_fold_upd [simp]: "dom (nodes (fold (upd_node f) is g)) = dom (nodes g)"
  by (auto simp: nodes_fold_upd dom_def)

lemma funpow_drop:
  "(drop_output o' ^^ k) n = (if k = 0 then n else drop_output o' n)"
  "(drop_input i ^^ k) n = (if k = 0 then n else drop_input i n)"
  by (induction k) (simp_all add: drop_output_def drop_input_def)

lemma funpow_add_output: "(add_output o' ^^ k) n = n\<lparr>n_outputs := n_outputs n @ replicate k o'\<rparr>"
  by (induction k) (simp_all add: add_output_def replicate_append_same)

lemma count_list_removeAll [simp]: "count_list (removeAll i xs) j = (if j = i then 0 else count_list xs j)"
  by (induction xs) auto

lemma count_list_replicate [simp]: "count_list (replicate k i) j = (if j = i then k else 0)"
  by (induction k) auto

subsection \<open>Well-formed graphs\<close>

text \<open>
  What the builder keeps: ids are below the next one, inputs are older than the node and exist, outputs
  exist, and each edge is recorded as often on one side as on the other.
\<close>

definition node_ok :: "graph \<Rightarrow> nat \<Rightarrow> gnode \<Rightarrow> bool" where
  "node_ok g i n \<longleftrightarrow>
     n_id n = i \<and> i < next_id g \<and> (\<forall>j\<in>set (n_inputs n). j < i \<and> nodes g j \<noteq> None)
     \<and> (\<forall>j\<in>set (n_outputs n). nodes g j \<noteq> None)"

definition wf_graph :: "graph \<Rightarrow> bool" where
  "wf_graph g \<longleftrightarrow>
     finite (dom (nodes g)) \<and> next_id g < 2 ^ 64
     \<and> (\<forall>i n. nodes g i = Some n \<longrightarrow> node_ok g i n)
     \<and> (\<forall>i j m n. nodes g i = Some m \<longrightarrow> nodes g j = Some n \<longrightarrow>
          count_list (n_outputs m) j = count_list (n_inputs n) i)"

lemma wf_graphI:
  assumes "finite (dom (nodes g))" "next_id g < 2 ^ 64" "\<And>i n. nodes g i = Some n \<Longrightarrow> node_ok g i n"
    "\<And>i j m n. nodes g i = Some m \<Longrightarrow> nodes g j = Some n \<Longrightarrow>
       count_list (n_outputs m) j = count_list (n_inputs n) i"
  shows "wf_graph g"
  using assms by (simp add: wf_graph_def)

lemma wf_nodeD:
  assumes "wf_graph g" "nodes g i = Some n"
  shows "n_id n = i" "i < next_id g" "\<And>j. j \<in> set (n_inputs n) \<Longrightarrow> j < i"
    "\<And>j. j \<in> set (n_inputs n) \<Longrightarrow> nodes g j \<noteq> None" "\<And>j. j \<in> set (n_outputs n) \<Longrightarrow> nodes g j \<noteq> None"
  using assms by (auto simp: wf_graph_def node_ok_def)

lemma wf_edges:
  assumes "wf_graph g" "nodes g i = Some m" "nodes g j = Some n"
  shows "count_list (n_outputs m) j = count_list (n_inputs n) i"
    "j \<in> set (n_outputs m) \<longleftrightarrow> i \<in> set (n_inputs n)"
proof -
  show c: "count_list (n_outputs m) j = count_list (n_inputs n) i"
    using assms by (auto simp: wf_graph_def)
  then show "j \<in> set (n_outputs m) \<longleftrightarrow> i \<in> set (n_inputs n)"
    by (metis count_list_0_iff)
qed

lemma wf_finite: "wf_graph g \<Longrightarrow> finite (dom (nodes g))"
  by (simp add: wf_graph_def)

lemma new_graph_wf: "wf_graph new_graph"
  by (simp add: wf_graph_def new_graph_def)

lemma add_node_nodes:
  assumes "wf_graph g" "\<forall>i\<in>set inputs. nodes g i \<noteq> None"
  shows "snd (add_node op inputs out attrs g) = Inr (next_id g)"
    "next_id (fst (add_node op inputs out attrs g)) = (next_id g + 1) mod 2 ^ 64"
    "nodes (fst (add_node op inputs out attrs g)) j =
      (if j = next_id g
       then Some \<lparr>n_id = j, n_op = op, n_inputs = inputs, n_outputs = [], n_desc = out, n_attrs = attrs\<rparr>
       else map_option (\<lambda>n. n\<lparr>n_outputs := n_outputs n @ replicate (count_list inputs j) (next_id g)\<rparr>) (nodes g j))"
proof -
  have none: "find (\<lambda>i. nodes g i = None) inputs = None"
    using assms(2) by (simp add: find_None_iff)
  have fresh: "nodes g (next_id g) = None"
    using assms(1) wf_nodeD(2) by (metis less_irrefl not_Some_eq)
  show "snd (add_node op inputs out attrs g) = Inr (next_id g)"
    "next_id (fst (add_node op inputs out attrs g)) = (next_id g + 1) mod 2 ^ 64"
    by (simp_all add: add_node_def none Let_def)
  show "nodes (fst (add_node op inputs out attrs g)) j =
      (if j = next_id g
       then Some \<lparr>n_id = j, n_op = op, n_inputs = inputs, n_outputs = [], n_desc = out, n_attrs = attrs\<rparr>
       else map_option (\<lambda>n. n\<lparr>n_outputs := n_outputs n @ replicate (count_list inputs j) (next_id g)\<rparr>) (nodes g j))"
    by (cases "nodes g j") (simp_all add: add_node_def none Let_def nodes_fold_upd fresh funpow_add_output)
qed

lemma add_node_wf:
  assumes "wf_graph g" "next_id g + 1 < 2 ^ 64"
  shows "wf_graph (fst (add_node op inputs out attrs g))"
proof (cases "\<forall>i\<in>set inputs. nodes g i \<noteq> None")
  case False
  then have "find (\<lambda>i. nodes g i = None) inputs \<noteq> None" by (auto simp: find_None_iff)
  with assms(1) show ?thesis by (auto simp: add_node_def)
next
  case True
  let ?i = "next_id g" and ?g = "fst (add_node op inputs out attrs g)"
  note a = add_node_nodes [OF assms(1) True, of op out attrs]
  have nx: "next_id ?g = ?i + 1" using a(2) assms(2) by simp
  have keep: "nodes ?g j \<noteq> None" if "nodes g j \<noteq> None" for j using that by (simp add: a(3))
  have old: "j < ?i" if "nodes g j = Some n" for j n using wf_nodeD(2) [OF assms(1) that] .
  have below: "j < ?i" if "j \<in> set inputs" for j using True that old by auto
  have nin: "?i \<notin> set (n_inputs n)" "?i \<notin> set (n_outputs n)" if "nodes g j = Some n" for j n
    using wf_nodeD [OF assms(1) that] old by (metis less_irrefl less_trans, metis less_irrefl not_Some_eq)
  show ?thesis
  proof (rule wf_graphI)
    have "dom (nodes ?g) \<subseteq> insert ?i (dom (nodes g))" by (auto simp: a(3) dom_def)
    then show "finite (dom (nodes ?g))" using wf_finite [OF assms(1)] finite_subset by blast
    show "next_id ?g < 2 ^ 64" using nx assms(2) by simp
    show "node_ok ?g j n" if "nodes ?g j = Some n" for j n
    proof (cases "j = ?i")
      case True
      with that have "n = \<lparr>n_id = j, n_op = op, n_inputs = inputs, n_outputs = [], n_desc = out, n_attrs = attrs\<rparr>"
        by (simp add: a(3))
      with True \<open>\<forall>i\<in>set inputs. _\<close> show ?thesis using below keep nx by (simp add: node_ok_def)
    next
      case False
      with that obtain m where m: "nodes g j = Some m"
        "n = m\<lparr>n_outputs := n_outputs m @ replicate (count_list inputs j) ?i\<rparr>" by (auto simp: a(3))
      moreover have "nodes ?g ?i \<noteq> None" by (simp add: a(3))
      ultimately show ?thesis
        using wf_nodeD [OF assms(1) m(1)] keep nx by (auto simp: node_ok_def)
    qed
    show "count_list (n_outputs m) j = count_list (n_inputs n) i"
      if mn: "nodes ?g i = Some m" "nodes ?g j = Some n" for i j m n
    proof -
      have none: "count_list inputs ?i = 0" using below by (metis count_list_0_iff less_irrefl)
      show ?thesis
        using mn wf_edges(1) [OF assms(1), of i _ j] nin none
        by (auto simp: a(3) count_list_0_iff split: if_splits)
    qed
  qed
qed

lemma removeAll_absent: "count_list xs i = 0 \<Longrightarrow> removeAll i xs = xs"
  by (simp add: count_list_0_iff)

text \<open>In a well-formed graph the removed node disappears from every list, and nothing else changes.\<close>

lemma remove_node_nodes:
  assumes "wf_graph g" "nodes g i \<noteq> None"
  shows "snd (remove_node i g) = Inr ()" "next_id (fst (remove_node i g)) = next_id g"
    "nodes (fst (remove_node i g)) j =
      (if j = i then None else map_option (\<lambda>n. drop_input i (drop_output i n)) (nodes g j))"
proof -
  from assms(2) obtain n where n: "nodes g i = Some n" by blast
  have ni: "i \<notin> set (n_inputs n)" using wf_nodeD(3) [OF assms(1) n] by blast
  let ?g = "fold (upd_node (drop_output i)) (n_inputs n) g"
  have same: "nodes ?g i = Some n" using n ni by (simp add: nodes_fold_upd funpow_drop count_list_0_iff)
  have r: "remove_node i g = (let g = fold (upd_node (drop_input i)) (n_outputs n) ?g
      in (g\<lparr>nodes := (nodes g)(i := None)\<rparr>, Inr ()))"
    by (simp add: remove_node_def n same Let_def)
  show "snd (remove_node i g) = Inr ()" "next_id (fst (remove_node i g)) = next_id g"
    by (simp_all add: r Let_def)
  show "nodes (fst (remove_node i g)) j =
      (if j = i then None else map_option (\<lambda>n. drop_input i (drop_output i n)) (nodes g j))"
  proof (cases "nodes g j")
    case None
    then show ?thesis by (simp add: r Let_def nodes_fold_upd)
  next
    case (Some m)
    have c: "count_list (n_outputs m) i = count_list (n_inputs n) j"
      "count_list (n_outputs n) j = count_list (n_inputs m) i"
      using wf_edges(1) [OF assms(1) Some n] wf_edges(1) [OF assms(1) n Some] .
    have "drop_output i m = m" if "count_list (n_inputs n) j = 0"
      using that c(1) by (simp add: drop_output_def removeAll_absent)
    moreover have "drop_input i x = x" if "count_list (n_outputs n) j = 0" "n_inputs x = n_inputs m" for x
      using that c(2) by (simp add: drop_input_def removeAll_absent)
    moreover have "n_inputs (drop_output i m) = n_inputs m" by (simp add: drop_output_def)
    ultimately show ?thesis
      by (simp add: r Let_def nodes_fold_upd funpow_drop Some)
  qed
qed

lemma remove_node_wf:
  assumes "wf_graph g"
  shows "wf_graph (fst (remove_node i g))"
proof (cases "nodes g i")
  case None
  with assms show ?thesis by (simp add: remove_node_def)
next
  case (Some n0)
  then have "nodes g i \<noteq> None" by simp
  note r = remove_node_nodes [OF assms this]
  let ?g = "fst (remove_node i g)"
  show ?thesis
  proof (rule wf_graphI)
    have "dom (nodes ?g) \<subseteq> dom (nodes g)" by (auto simp: r(3) dom_def split: if_splits)
    then show "finite (dom (nodes ?g))" using wf_finite [OF assms] finite_subset by blast
    show "next_id ?g < 2 ^ 64" using assms by (simp add: r(2) wf_graph_def)
    show "node_ok ?g j n" if "nodes ?g j = Some n" for j n
    proof -
      from that obtain m where m: "j \<noteq> i" "nodes g j = Some m" "n = drop_input i (drop_output i m)"
        by (auto simp: r(3) split: if_splits)
      show ?thesis
        using wf_nodeD [OF assms m(2)] by (auto simp: m(1,3) node_ok_def r(2,3) drop_input_def drop_output_def)
    qed
    show "count_list (n_outputs m) k = count_list (n_inputs n) j"
      if mn: "nodes ?g j = Some m" "nodes ?g k = Some n" for j k m n
    proof -
      from mn obtain m' n' where "j \<noteq> i" "nodes g j = Some m'" "m = drop_input i (drop_output i m')"
        "k \<noteq> i" "nodes g k = Some n'" "n = drop_input i (drop_output i n')"
        by (auto simp: r(3) split: if_splits)
      then show ?thesis using wf_edges(1) [OF assms, of j m' k n']
        by (simp add: drop_input_def drop_output_def)
    qed
  qed
qed

text \<open>Updates of what is not an edge keep a graph well formed.\<close>

lemma upd_node_wf:
  assumes "wf_graph g" "\<And>n. n_id (f n) = n_id n \<and> n_inputs (f n) = n_inputs n \<and> n_outputs (f n) = n_outputs n"
  shows "wf_graph (upd_node f i g)"
proof (rule wf_graphI)
  let ?g = "upd_node f i g"
  have d: "nodes ?g j = None \<longleftrightarrow> nodes g j = None" for j by (simp add: nodes_upd)
  then have "dom (nodes ?g) = dom (nodes g)" by (auto simp: dom_def)
  then show "finite (dom (nodes ?g))" "next_id ?g < 2 ^ 64"
    using assms(1) by (simp_all add: wf_graph_def)
  have old: "\<exists>m. nodes g j = Some m \<and> n_id n = n_id m \<and> n_inputs n = n_inputs m \<and> n_outputs n = n_outputs m"
    if "nodes ?g j = Some n" for j n
    using that assms(2) by (auto simp: nodes_upd split: if_splits)
  show "node_ok ?g j n" if n: "nodes ?g j = Some n" for j n
  proof -
    from old [OF n] obtain m where "nodes g j = Some m" "n_id n = n_id m" "n_inputs n = n_inputs m"
      "n_outputs n = n_outputs m" by blast
    with wf_nodeD [OF assms(1), of j m] d show ?thesis by (simp add: node_ok_def)
  qed
  show "count_list (n_outputs m) j = count_list (n_inputs n) k"
    if mn: "nodes ?g k = Some m" "nodes ?g j = Some n" for j k m n
  proof -
    from old [OF mn(1)] obtain m' where "nodes g k = Some m'" "n_outputs m = n_outputs m'" by blast
    moreover from old [OF mn(2)] obtain n' where "nodes g j = Some n'" "n_inputs n = n_inputs n'" by blast
    ultimately show ?thesis using wf_edges(1) [OF assms(1), of k m' j n'] by simp
  qed
qed

lemma replace_node_op_wf: "wf_graph g \<Longrightarrow> wf_graph (fst (replace_node_op i op attrs g))"
  by (simp add: replace_node_op_def upd_node_wf split: option.split)

end
