(* ===== verification/Graph_Order.thy ===== *)
theory Graph_Order
  imports Graph_IR
begin

text \<open>
  The topological order of a well-formed graph, and what rests on it: serialization loses nothing.
\<close>

subsection \<open>One step of Kahn's algorithm\<close>

definition degrees :: "nat set \<Rightarrow> (nat \<Rightarrow> nat) \<Rightarrow> nat \<Rightarrow> nat option" where
  "degrees V f = (\<lambda>j. if j \<in> V then Some (f j) else None)"

lemma relax_step:
  assumes "j \<in> V" "0 < f j"
  shows "relax j (degrees V f, ready) =
    (degrees V (f(j := f j - 1)), if f j = 1 then ready @ [j] else ready)"
proof -
  have "(degrees V f)(j \<mapsto> f j - 1) = degrees V (f(j := f j - 1))"
    using assms(1) by (auto simp: degrees_def)
  then show ?thesis using assms by (auto simp: relax_def degrees_def Let_def)
qed

lemma fold_relax:
  assumes "set os \<subseteq> V" "\<And>j. j \<in> V \<Longrightarrow> count_list os j \<le> f j"
  shows "\<exists>zs. fold relax os (degrees V f, ready) = (degrees V (\<lambda>j. f j - count_list os j), ready @ zs)
    \<and> distinct zs \<and> set zs = {j \<in> set os. f j = count_list os j}"
  using assms
proof (induction os arbitrary: f ready)
  case (Cons x xs)
  have x: "x \<in> V" "0 < f x" using Cons.prems(1) Cons.prems(2) [of x] by auto
  have xs: "set xs \<subseteq> V" using Cons.prems(1) by simp
  let ?f = "f(x := f x - 1)"
  have le: "count_list xs j \<le> ?f j" if "j \<in> V" for j
    using Cons.prems(2) [OF that] by (auto split: if_splits)
  obtain zs where zs: "fold relax xs (degrees V ?f, if f x = 1 then ready @ [x] else ready)
      = (degrees V (\<lambda>j. ?f j - count_list xs j), (if f x = 1 then ready @ [x] else ready) @ zs)"
    "distinct zs" "set zs = {j \<in> set xs. ?f j = count_list xs j}"
    using Cons.IH [OF xs le, of "if f x = 1 then ready @ [x] else ready"] by blast
  have deg: "(\<lambda>j. ?f j - count_list xs j) = (\<lambda>j. f j - count_list (x # xs) j)"
    by (auto simp: fun_eq_iff)
  show ?case
  proof (cases "f x = 1")
    case True
    with le [OF x(1)] have "x \<notin> set xs" by (simp add: count_list_0_iff [symmetric])
    then have "set (x # zs) = {j \<in> set (x # xs). f j = count_list (x # xs) j}" "distinct (x # zs)"
      using zs(2,3) True by (auto simp: count_list_0_iff)
    moreover have "fold relax (x # xs) (degrees V f, ready)
        = (degrees V (\<lambda>j. f j - count_list (x # xs) j), ready @ x # zs)"
      using zs(1) True by (simp add: relax_step [of x V f ready, OF x]) (rule arg_cong [where f = "degrees V"], rule ext, auto)
    ultimately show ?thesis by blast
  next
    case False
    have "j \<in> set zs \<longleftrightarrow> j \<in> set (x # xs) \<and> f j = count_list (x # xs) j" for j
    proof (cases "j = x")
      case True
      have m: "x \<in> set xs" if "f x - 1 = count_list xs x"
      proof -
        have "count_list xs x \<noteq> 0" using that False x(2) by linarith
        then show ?thesis by (simp only: count_list_0_iff not_not)
      qed
      have "x \<in> set zs \<longleftrightarrow> x \<in> set xs \<and> f x - 1 = count_list xs x" by (simp add: zs(3))
      also have "\<dots> \<longleftrightarrow> f x = count_list xs x + 1" using m x(2) by auto
      finally show ?thesis using True by simp
    qed (use zs(3) in auto)
    then have "set zs = {j \<in> set (x # xs). f j = count_list (x # xs) j}" by blast
    moreover have "fold relax (x # xs) (degrees V f, ready)
        = (degrees V (\<lambda>j. f j - count_list (x # xs) j), ready @ zs)"
      using zs(1) False by (simp add: relax_step [of x V f ready, OF x]) (rule arg_cong [where f = "degrees V"], rule ext, auto)
    ultimately show ?thesis using zs(2) by blast
  qed
qed simp

text \<open>The inputs of a node that were not taken yet.\<close>

definition pending :: "graph \<Rightarrow> nat set \<Rightarrow> nat \<Rightarrow> nat" where
  "pending g D j = length (filter (\<lambda>i. i \<notin> D) (case nodes g j of None \<Rightarrow> [] | Some n \<Rightarrow> n_inputs n))"

lemma pending_insert:
  assumes "c \<notin> D" "nodes g j = Some n"
  shows "pending g D j = pending g (insert c D) j + count_list (n_inputs n) c"
proof -
  have "length (filter (\<lambda>i. i \<notin> D) xs) = length (filter (\<lambda>i. i \<notin> insert c D) xs) + count_list xs c" for xs
    using assms(1) by (induction xs) auto
  then show ?thesis by (simp add: pending_def assms(2))
qed

lemma pending_0: "nodes g j = Some n \<Longrightarrow> pending g D j = 0 \<longleftrightarrow> set (n_inputs n) \<subseteq> D"
  by (auto simp: pending_def filter_empty_conv)

definition inputs_first :: "graph \<Rightarrow> nat list \<Rightarrow> bool" where
  "inputs_first g order \<longleftrightarrow>
     (\<forall>xs x ys n. order = xs @ x # ys \<longrightarrow> nodes g x = Some n \<longrightarrow> set (n_inputs n) \<subseteq> set xs)"

lemma inputs_first_snoc:
  assumes "inputs_first g order" "\<And>n. nodes g c = Some n \<Longrightarrow> set (n_inputs n) \<subseteq> set order"
  shows "inputs_first g (order @ [c])"
  unfolding inputs_first_def
proof (intro allI impI)
  fix xs x ys n
  assume e: "order @ [c] = xs @ x # ys" and n: "nodes g x = Some n"
  show "set (n_inputs n) \<subseteq> set xs"
  proof (cases ys rule: rev_cases)
    case Nil
    with e n assms(2) show ?thesis by simp
  next
    case (snoc zs z)
    with e have "order = xs @ x # zs" by simp
    with n assms(1) show ?thesis by (auto simp: inputs_first_def)
  qed
qed

definition topological :: "graph \<Rightarrow> nat list \<Rightarrow> bool" where
  "topological g order \<longleftrightarrow>
     distinct order \<and> set order = dom (nodes g) \<and> inputs_first g order"

text \<open>The state of the loop: what was taken, what is ready, and the counts.\<close>

definition kahn_inv :: "graph \<Rightarrow> nat list \<Rightarrow> nat list \<Rightarrow> bool" where
  "kahn_inv g ready order \<longleftrightarrow>
     distinct (order @ ready) \<and> set (order @ ready) \<subseteq> dom (nodes g) \<and> inputs_first g order
     \<and> (\<forall>j\<in>dom (nodes g). pending g (set order) j = 0 \<longleftrightarrow> j \<in> set (order @ ready))"

lemma kahn_step:
  assumes "wf_graph g" "kahn_inv g (c # ready) order" "nodes g c = Some n"
  shows "\<exists>zs. fold relax (n_outputs n) (degrees (dom (nodes g)) (pending g (set order)), ready)
      = (degrees (dom (nodes g)) (pending g (set (order @ [c]))), ready @ zs)
    \<and> kahn_inv g (ready @ zs) (order @ [c])"
proof -
  let ?V = "dom (nodes g)" and ?D = "set order"
  have c: "c \<notin> ?D" "c \<in> ?V" and z: "\<And>j. j \<in> ?V \<Longrightarrow> pending g ?D j = 0 \<longleftrightarrow> j \<in> set (order @ c # ready)"
    using assms(2) by (auto simp: kahn_inv_def)
  have split: "pending g ?D j = pending g (insert c ?D) j + count_list (n_outputs n) j" if j: "j \<in> ?V" for j
  proof -
    from j obtain m where m: "nodes g j = Some m" by blast
    show ?thesis using pending_insert [OF c(1) m] wf_edges(1) [OF assms(1,3) m] by simp
  qed
  have sub: "set (n_outputs n) \<subseteq> ?V" using wf_nodeD(5) [OF assms(1,3)] by auto
  have le: "count_list (n_outputs n) j \<le> pending g ?D j" if "j \<in> ?V" for j
    using split [OF that] by simp
  obtain zs where zs: "fold relax (n_outputs n) (degrees ?V (pending g ?D), ready)
      = (degrees ?V (\<lambda>j. pending g ?D j - count_list (n_outputs n) j), ready @ zs)"
    "distinct zs" "set zs = {j \<in> set (n_outputs n). pending g ?D j = count_list (n_outputs n) j}"
    using fold_relax [of "n_outputs n" ?V "pending g ?D" ready, OF sub le] by blast
  have deg: "degrees ?V (\<lambda>j. pending g ?D j - count_list (n_outputs n) j)
      = degrees ?V (pending g (set (order @ [c])))"
    using split by (auto simp: degrees_def fun_eq_iff)
  have new: "pending g ?D j \<noteq> 0" if "j \<in> set zs" for j
    using that zs(3) by (auto simp: count_list_0_iff)
  have disj: "set zs \<inter> set (order @ c # ready) = {}"
  proof -
    have "j \<notin> set (order @ c # ready)" if "j \<in> set zs" for j
      using new [OF that] z [of j] that sub zs(3) by auto
    then show ?thesis by auto
  qed
  have "kahn_inv g (ready @ zs) (order @ [c])"
    unfolding kahn_inv_def
  proof (intro conjI ballI)
    show "distinct ((order @ [c]) @ ready @ zs)"
      using assms(2) zs(2) disj by (auto simp: kahn_inv_def)
    show "set ((order @ [c]) @ ready @ zs) \<subseteq> ?V"
      using assms(2) sub zs(3) by (auto simp: kahn_inv_def)
    show "inputs_first g (order @ [c])"
      using assms(2) z [OF c(2)] pending_0
      by (intro inputs_first_snoc) (auto simp: kahn_inv_def)
    show "pending g (set (order @ [c])) j = 0 \<longleftrightarrow> j \<in> set ((order @ [c]) @ ready @ zs)" if j: "j \<in> ?V" for j
    proof -
      have "pending g (insert c ?D) j = 0 \<longleftrightarrow>
          pending g ?D j = 0 \<or> j \<in> set (n_outputs n) \<and> pending g ?D j = count_list (n_outputs n) j"
        using split [OF j] by (auto simp: count_list_0_iff)
      with z [OF j] zs(3) show ?thesis by auto
    qed
  qed
  with zs(1) deg show ?thesis by auto
qed


lemma kahn_spec:
  assumes "wf_graph g" "kahn_inv g ready order"
  shows "\<exists>res. kahn g (degrees (dom (nodes g)) (pending g (set order))) ready order = Some res
    \<and> topological g res"
  using assms(2)
proof (induction "card (dom (nodes g)) - length order" arbitrary: ready order rule: less_induct)
  case less
  note fin = wf_finite [OF assms(1)]
  show ?case
  proof (cases ready)
    case Nil
    with less.prems have inv: "distinct order" "set order \<subseteq> dom (nodes g)" "inputs_first g order"
      "\<And>j. j \<in> dom (nodes g) \<Longrightarrow> pending g (set order) j = 0 \<longleftrightarrow> j \<in> set order"
      by (simp_all add: kahn_inv_def)
    have "j \<in> set order" if "nodes g j = Some n" for j n
      using that
    proof (induction j arbitrary: n rule: less_induct)
      case (less j)
      have "set (n_inputs n) \<subseteq> set order"
        using less.IH wf_nodeD(3,4) [OF assms(1) less.prems] by blast
      with pending_0 [OF less.prems] inv(4) less.prems show ?case by blast
    qed
    then have "topological g order" using inv by (auto simp: topological_def)
    with Nil show ?thesis by (simp add: kahn.simps)
  next
    case (Cons c rest)
    with less.prems have c: "c \<in> dom (nodes g)" "c \<notin> set order" "distinct order" "set order \<subseteq> dom (nodes g)"
      by (auto simp: kahn_inv_def)
    then obtain n where n: "nodes g c = Some n" by blast
    from kahn_step [OF assms(1) less.prems [unfolded Cons] n] obtain zs where
      zs: "fold relax (n_outputs n) (degrees (dom (nodes g)) (pending g (set order)), rest)
        = (degrees (dom (nodes g)) (pending g (set (order @ [c]))), rest @ zs)"
      "kahn_inv g (rest @ zs) (order @ [c])" by blast
    have "card (insert c (set order)) \<le> card (dom (nodes g))"
      using c fin by (intro card_mono) auto
    then have "length order < card (dom (nodes g))"
      using c(2,3) by (simp add: distinct_card)
    from less.hyps [OF _ zs(2)] this show ?thesis
      using zs(1) by (subst kahn.simps) (simp add: Cons n)
  qed
qed

lemma topological_order_total:
  assumes "wf_graph g" "iterates ids g"
  shows "\<exists>order. topological_order ids g = Some order \<and> topological g order"
proof -
  have all: "filter (\<lambda>j. nodes g j \<noteq> None) (n_inputs n) = n_inputs n" if "nodes g i = Some n" for i n
    using wf_nodeD(4) [OF assms(1) that] by (simp add: filter_id_conv)
  have deg: "in_degree g = degrees (dom (nodes g)) (pending g (set []))"
  proof
    fix i
    show "in_degree g i = degrees (dom (nodes g)) (pending g (set [])) i"
      by (cases "nodes g i") (simp_all add: in_degree_def degrees_def pending_def all domIff del: not_None_eq)
  qed
  have "kahn_inv g (filter (\<lambda>i. in_degree g i = Some 0) ids) []"
    using assms(2) unfolding kahn_inv_def iterates_def deg
    by (auto simp: inputs_first_def degrees_def)
  from kahn_spec [OF assms(1) this] show ?thesis by (simp add: topological_order_def deg)
qed

lemma topological_length: "topological g order \<Longrightarrow> length order = node_count g"
  by (simp add: topological_def node_count_def distinct_card [symmetric])

lemma topological_nth:
  assumes "topological g order" "k < length order" "nodes g (order ! k) = Some n" "i \<in> set (n_inputs n)"
  shows "i \<in> set (take k order)"
  using assms id_take_nth_drop [OF assms(2)] unfolding topological_def inputs_first_def by blast

subsection \<open>Serialization\<close>

definition doc_node :: "node_doc \<Rightarrow> op_type \<Rightarrow> gnode" where
  "doc_node d op = \<lparr>n_id = nd_id d, n_op = op, n_inputs = nd_inputs d, n_outputs = nd_outputs d,
     n_desc = \<lparr>td_shape = nd_shape d, td_dtype = nd_dtype d\<rparr>, n_attrs = nd_attrs d\<rparr>"

lemma doc_node_to_doc [simp]: "doc_node (node_to_doc n) (n_op n) = n"
  by (simp add: doc_node_def node_to_doc_def)

lemma insert_docs_nodes:
  assumes "distinct order" "\<And>i. i \<in> set order \<Longrightarrow> \<exists>n. nodes g i = Some n \<and> n_id n = i"
    "\<And>i. i \<in> set order \<Longrightarrow> nodes h i = None"
  shows "insert_docs (List.map_filter (\<lambda>i. map_option node_to_doc (nodes g i)) order) h
    = Inr (h\<lparr>nodes := \<lambda>j. if j \<in> set order then nodes g j else nodes h j\<rparr>)"
  using assms
proof (induction order arbitrary: h)
  case Nil
  show ?case by (simp add: map_filter_simps)
next
  case (Cons i js)
  obtain n where n: "nodes g i = Some n" "n_id n = i" using Cons.prems(2) [of i] by auto
  let ?h = "h\<lparr>nodes := (nodes h)(i \<mapsto> n)\<rparr>"
  have new: "doc_node (node_to_doc n) (n_op n) = n" "nd_id (node_to_doc n) = i"
    "nd_op (node_to_doc n) = op_type_to_string (n_op n)" "nodes h i = None"
    using n Cons.prems(3) [of i] by (simp_all add: node_to_doc_def doc_node_def)
  have "insert_docs (List.map_filter (\<lambda>i. map_option node_to_doc (nodes g i)) (i # js)) h
      = insert_docs (List.map_filter (\<lambda>i. map_option node_to_doc (nodes g i)) js) ?h"
    using new(2-4) new(1) [unfolded doc_node_def] by (simp add: map_filter_simps n(1))
  also have "\<dots> = Inr (?h\<lparr>nodes := \<lambda>j. if j \<in> set js then nodes g j else nodes ?h j\<rparr>)"
    using Cons.prems by (intro Cons.IH) auto
  also have "(\<lambda>j. if j \<in> set js then nodes g j else nodes ?h j)
      = (\<lambda>j. if j \<in> set (i # js) then nodes g j else nodes h j)"
    using n(1) by auto
  finally show ?case by simp
qed

lemma wf_not_dangling: "wf_graph g \<Longrightarrow> dangling g i = None"
proof (cases "nodes g i")
  case (Some n)
  assume "wf_graph g"
  with wf_nodeD(4,5) [OF this Some]
  have "find (\<lambda>j. nodes g j = None) (n_inputs n) = None" "find (\<lambda>j. nodes g j = None) (n_outputs n) = None"
    by (auto simp: find_None_iff)
  with Some show ?thesis by (simp add: dangling_def)
qed (simp add: dangling_def)

lemma serialize_deserialize:
  assumes "wf_graph g" "iterates ids g"
  shows "\<exists>doc. serialize ids g = Some doc \<and> deserialize it doc = Inr g"
proof -
  obtain order where o: "topological_order ids g = Some order" "distinct order" "set order = dom (nodes g)"
    using topological_order_total [OF assms] by (auto simp: topological_def)
  let ?docs = "List.map_filter (\<lambda>i. map_option node_to_doc (nodes g i)) order"
  have "insert_docs ?docs \<lparr>next_id = next_id g, nodes = Map.empty\<rparr>
      = Inr \<lparr>next_id = next_id g, nodes = \<lambda>j. if j \<in> set order then nodes g j else None\<rparr>"
    by (subst insert_docs_nodes) (use o(2,3) wf_nodeD(1) [OF assms(1)] in \<open>auto simp: domIff\<close>)
  also have "(\<lambda>j. if j \<in> set order then nodes g j else None) = nodes g"
    using o(3) by (auto simp: domIff)
  finally have "insert_docs ?docs \<lparr>next_id = next_id g, nodes = Map.empty\<rparr> = Inr g" by simp
  moreover have "List.map_filter (dangling g) (it g) = []"
    by (induction "it g") (auto simp: map_filter_def wf_not_dangling [OF assms(1)])
  ultimately show ?thesis by (simp add: serialize_def deserialize_def o(1))
qed

subsection \<open>Properties\<close>

text \<open>A sequence of calls of the builder.\<close>

datatype graph_op =
    Add_Node op_type "nat list" tensor_desc attributes
  | Remove_Node nat
  | Replace_Op nat op_type attributes

fun graph_step :: "graph \<Rightarrow> graph_op \<Rightarrow> graph option" where
  "graph_step g (Add_Node op inputs out attrs) = Some (fst (add_node op inputs out attrs g))"
| "graph_step g (Remove_Node i) = Some (fst (remove_node i g))"
| "graph_step g (Replace_Op i op attrs) = Some (fst (replace_node_op i op attrs g))"

interpretation builder: safe_machine graph_step wf_graph "\<lambda>g _. next_id g + 1 < 2 ^ 64"
proof
  show "succeeds (graph_step g op) wf_graph" if "wf_graph g" "next_id g + 1 < 2 ^ 64" for g op
    using that by (cases op) (simp_all add: add_node_wf remove_node_wf replace_node_op_wf)
qed

text \<open>C34. The graph stays consistent: after any sequence of insertions, removals and replacements, valid or
  not, every edge joins two existing nodes, is recorded as often at its source as at its target, and leads
  from an older node to a newer one.\<close>

theorem graph_consistent:
  assumes "run_ok graph_step (\<lambda>g _. next_id g + 1 < 2 ^ 64) new_graph ops"
  shows "\<exists>g. run graph_step new_graph ops = Some g \<and> wf_graph g"
  using builder.run_safe [OF new_graph_wf assms] by (simp add: succeeds_iff)

text \<open>C25. Kahn's algorithm ends on every well-formed graph, whatever the iteration order of the maps, and
  lists each node exactly once, after all of its inputs.\<close>

theorem topological_order_sound:
  assumes "wf_graph g" "iterates ids g"
  shows "\<exists>order. topological_order ids g = Some order \<and> distinct order \<and> set order = dom (nodes g)
    \<and> (\<forall>k < length order. \<forall>n. nodes g (order ! k) = Some n \<longrightarrow> set (n_inputs n) \<subseteq> set (take k order))"
proof -
  from topological_order_total [OF assms] obtain order where
    o: "topological_order ids g = Some order" "topological g order" by blast
  then show ?thesis using topological_nth [OF o(2)] by (auto simp: topological_def)
qed

text \<open>C35. Serialization loses nothing: the document written for a well-formed graph reads back as that
  graph, node for node and edge for edge.\<close>

theorem serialize_roundtrip:
  assumes "wf_graph g" "iterates ids g"
  shows "\<exists>doc. serialize ids g = Some doc \<and> deserialize it doc = Inr g"
  using assms by (rule serialize_deserialize)

text \<open>A product, its rectification and a sum of both.\<close>

definition f32 :: tensor_desc where
  "f32 = \<lparr>td_shape = [2, 2], td_dtype = ''f32''\<rparr>"

definition demo_ops :: "graph_op list" where
  "demo_ops = [Add_Node Custom [] f32 [], Add_Node MatMul [1, 1] f32 [], Add_Node ReLU [2] f32 [],
     Add_Node Add [3, 1] f32 [], Remove_Node 9]"

definition demo_graph :: graph where
  "demo_graph = (case run graph_step new_graph demo_ops of None \<Rightarrow> new_graph | Some g \<Rightarrow> g)"

lemma demo_run_ok: "run_ok graph_step (\<lambda>g _. next_id g + 1 < 2 ^ 64) new_graph demo_ops"
  by (simp add: demo_ops_def add_node_def new_graph_def upd_node_def add_output_def Let_def)

lemma demo_graph_wf: "wf_graph demo_graph"
  using builder.run_safe [OF new_graph_wf demo_run_ok] by (auto simp: demo_graph_def succeeds_iff)

lemma demo_graph_nodes: "dom (nodes demo_graph) = {1, 2, 3, 4}"
  by (auto simp: demo_graph_def demo_ops_def add_node_def new_graph_def upd_node_def add_output_def
      remove_node_def Let_def split: if_splits)

lemma demo_iterates: "iterates [4, 2, 1, 3] demo_graph"
  by (auto simp: iterates_def demo_graph_nodes)

lemma graph_consistent_witness:
  "\<exists>g. run graph_step new_graph demo_ops = Some g \<and> wf_graph g"
  using demo_run_ok by (rule graph_consistent)

lemma topological_order_sound_witness:
  "\<exists>order. topological_order [4, 2, 1, 3] demo_graph = Some order \<and> distinct order
    \<and> set order = dom (nodes demo_graph)
    \<and> (\<forall>k < length order. \<forall>n. nodes demo_graph (order ! k) = Some n \<longrightarrow> set (n_inputs n) \<subseteq> set (take k order))"
  using demo_graph_wf demo_iterates by (rule topological_order_sound)

lemma serialize_roundtrip_witness:
  "\<exists>doc. serialize [4, 2, 1, 3] demo_graph = Some doc \<and> deserialize (\<lambda>_. [1, 2, 3, 4]) doc = Inr demo_graph"
  using demo_graph_wf demo_iterates by (rule serialize_roundtrip)

text \<open>\<open>deserialize_json\<close> does not compare \<open>next_id\<close> with the ids it reads: from a document whose next id
  is taken, the next \<open>add_node\<close> reports success with that id and inserts nothing.\<close>

theorem deserialized_id_collision:
  "\<exists>g. deserialize (\<lambda>_. [1]) (1, [\<lparr>nd_id = 1, nd_op = ''ReLU'', nd_inputs = [], nd_outputs = [], nd_shape = [],
      nd_dtype = ''f32'', nd_attrs = []\<rparr>]) = Inr g
    \<and> snd (add_node MatMul [] f32 [] g) = Inr 1 \<and> nodes (fst (add_node MatMul [] f32 [] g)) = nodes g"
  by (simp add: deserialize_def op_type_from_string_def op_names_def dangling_def map_filter_simps
      add_node_def Let_def)

end
