(* ===== verification/Graph_Passes.thy ===== *)
theory Graph_Passes
  imports Graph_Order
begin

text \<open>
  The optimisation passes (\<open>bin/compiler/ir/passes.h\<close>, \<open>bin/compiler/ir/passes.cpp\<close>).  A pass updates the
  graph and reports whether it changed it; where a loop need not end on an inconsistent graph the result
  is an option.  The iteration orders of \<open>nodes_\<close> and of the set of outputs are arguments.
\<close>

subsection \<open>The pass manager\<close>

type_synonym pass = "graph \<Rightarrow> (graph \<times> (string + bool)) option"

definition add_pass :: "string \<Rightarrow> pass \<Rightarrow> (string \<times> pass) list \<Rightarrow> (string \<times> pass) list" where
  "add_pass name p ps = ps @ [(name, p)]"

fun run_passes :: "(string \<times> pass) list \<Rightarrow> nat \<Rightarrow> graph \<Rightarrow> (graph \<times> (string + nat)) option" where
  "run_passes [] k g = Some (g, Inr k)"
| "run_passes ((name, p) # ps) k g =
     (case p g of
        None \<Rightarrow> None
      | Some (g, Inl e) \<Rightarrow> Some (g, Inl (''pass '' @ [CHR 0x27] @ name @ [CHR 0x27] @ '' failed: '' @ e))
      | Some (g, Inr b) \<Rightarrow> run_passes ps (if b then k + 1 else k) g)"

definition run_all :: "(string \<times> pass) list \<Rightarrow> graph \<Rightarrow> (graph \<times> (string + nat)) option" where
  "run_all ps g = run_passes ps 0 g"

subsection \<open>Fusion of a product and its rectification\<close>

definition fuse_candidate :: "graph \<Rightarrow> nat \<Rightarrow> (nat \<times> nat) option" where
  "fuse_candidate g i =
     (case nodes g i of
        None \<Rightarrow> None
      | Some n \<Rightarrow>
          if n_op n \<noteq> MatMul \<or> length (n_outputs n) \<noteq> 1 then None
          else (case nodes g (n_outputs n ! 0) of
              None \<Rightarrow> None
            | Some c \<Rightarrow>
                if n_op c \<noteq> ReLU \<or> length (n_inputs c) \<noteq> 1 \<or> n_inputs c ! 0 \<noteq> i then None
                else Some (i, n_outputs n ! 0)))"

definition set_desc :: "tensor_desc \<Rightarrow> gnode \<Rightarrow> gnode" where
  "set_desc d n = n\<lparr>n_desc := d\<rparr>"

text \<open>The fused node is reconnected to a consumer: its id goes to the end of the input list.\<close>

definition reconnect :: "nat \<Rightarrow> nat \<Rightarrow> graph \<Rightarrow> graph" where
  "reconnect m c g =
     (if nodes g c = None then g else upd_node (add_output c) m (upd_node (add_input m) c g))"

definition fuse_pair :: "nat \<times> nat \<Rightarrow> graph \<Rightarrow> graph \<times> bool" where
  "fuse_pair p g =
     (let m = fst p; r = snd p in
      case nodes g r of
        None \<Rightarrow> (g, False)
      | Some relu \<Rightarrow>
          (case nodes g m of
             None \<Rightarrow> (g, False)
           | Some mm \<Rightarrow>
               (let attrs = AList.update ''fused_op'' ''FusedMatMulReLU'' (n_attrs mm);
                    g = fst (replace_node_op m Custom attrs g);
                    g = fst (remove_node r g)
                in if nodes g m = None then (g, False)
                   else (fold (reconnect m) (n_outputs relu) (upd_node (set_desc (n_desc relu)) m g), True))))"

definition until_changed :: "('a \<Rightarrow> graph \<Rightarrow> graph \<times> bool) \<Rightarrow> 'a list \<Rightarrow> graph \<Rightarrow> graph \<times> bool" where
  "until_changed f xs g = fold (\<lambda>x (g, ch). let r = f x g in (fst r, ch \<or> snd r)) xs (g, False)"

definition fuse_matmul_relu :: "(graph \<Rightarrow> nat list) \<Rightarrow> pass" where
  "fuse_matmul_relu it g =
     (let r = until_changed fuse_pair (List.map_filter (fuse_candidate g) (it g)) g
      in Some (fst r, Inr (snd r)))"

subsection \<open>Dead nodes\<close>

partial_function (option) mark_live :: "graph \<Rightarrow> nat list \<Rightarrow> nat set \<Rightarrow> nat set option" where
  "mark_live g work live =
     (if work = [] then Some live
      else if last work \<in> live then mark_live g (butlast work) live
      else (case nodes g (last work) of
          None \<Rightarrow> mark_live g (butlast work) (insert (last work) live)
        | Some n \<Rightarrow>
            mark_live g (butlast work @ filter (\<lambda>i. i \<notin> insert (last work) live) (n_inputs n))
              (insert (last work) live)))"

fun remove_nodes :: "nat list \<Rightarrow> bool \<Rightarrow> graph \<Rightarrow> graph \<times> (string + bool)" where
  "remove_nodes [] ch g = (g, Inr ch)"
| "remove_nodes (i # is) ch g =
     (case remove_node i g of
        (g, Inl e) \<Rightarrow> (g, Inl (''failed to remove dead node '' @ dec_nat i @ '': '' @ e))
      | (g, Inr _) \<Rightarrow> remove_nodes is True g)"

text \<open>\<open>perm\<close> is the iteration order of the set of output ids.\<close>

definition eliminate_dead_nodes :: "(graph \<Rightarrow> nat list) \<Rightarrow> (nat list \<Rightarrow> nat list) \<Rightarrow> pass" where
  "eliminate_dead_nodes it perm g =
     map_option (\<lambda>live. remove_nodes (filter (\<lambda>i. i \<notin> live) (it g)) False g)
       (mark_live g (perm (output_nodes (it g) g)) {})"

subsection \<open>Chains of reshapes and transposes\<close>

definition fold_candidate :: "graph \<Rightarrow> nat \<Rightarrow> (nat \<times> nat) option" where
  "fold_candidate g i =
     (case nodes g i of
        None \<Rightarrow> None
      | Some n \<Rightarrow>
          if n_op n \<noteq> Reshape \<and> n_op n \<noteq> Transpose \<or> length (n_inputs n) \<noteq> 1 then None
          else (case nodes g (n_inputs n ! 0) of
              None \<Rightarrow> None
            | Some m \<Rightarrow>
                if n_op m \<noteq> n_op n \<or> length (n_outputs m) \<noteq> 1 then None
                else Some (n_inputs n ! 0, i)))"

definition set_inputs :: "nat list \<Rightarrow> gnode \<Rightarrow> gnode" where
  "set_inputs is n = n\<lparr>n_inputs := is\<rparr>"

definition fold_pair :: "nat \<times> nat \<Rightarrow> graph \<Rightarrow> graph \<times> bool" where
  "fold_pair p g =
     (let a = fst p; b = snd p in
      case nodes g a of
        None \<Rightarrow> (g, False)
      | Some inner \<Rightarrow>
          (case nodes g b of
             None \<Rightarrow> (g, False)
           | Some outer \<Rightarrow>
               if n_inputs outer \<noteq> [a] \<or> n_outputs inner \<noteq> [b] \<or> n_op inner \<noteq> n_op outer then (g, False)
               else (let g = fst (remove_node a g) in
                     if nodes g b = None then (g, False)
                     else (fold (upd_node (add_output b)) (n_inputs inner)
                             (upd_node (set_inputs (n_inputs inner)) b g), True))))"

partial_function (option) fold_loop :: "(graph \<Rightarrow> nat list) \<Rightarrow> bool \<Rightarrow> pass" where
  "fold_loop it ch g =
     (let r = until_changed fold_pair (List.map_filter (fold_candidate g) (it g)) g
      in if snd r then fold_loop it True (fst r) else Some (fst r, Inr ch))"

definition constant_fold :: "(graph \<Rightarrow> nat list) \<Rightarrow> pass" where
  "constant_fold it g = fold_loop it False g"

subsection \<open>New edges\<close>

definition connect :: "nat \<Rightarrow> nat \<Rightarrow> graph \<Rightarrow> graph" where
  "connect a c g = upd_node (add_output c) a (upd_node (add_input a) c g)"

lemma next_id_connect [simp]: "next_id (connect a c g) = next_id g"
  by (simp add: connect_def)

lemma nodes_connect:
  "a \<noteq> c \<Longrightarrow> nodes (connect a c g) j =
     (if j = a then map_option (add_output c) (nodes g a)
      else if j = c then map_option (add_input a) (nodes g c) else nodes g j)"
  by (simp add: connect_def nodes_upd)

lemma dom_connect [simp]: "a \<noteq> c \<Longrightarrow> nodes (connect a c g) j = None \<longleftrightarrow> nodes g j = None"
  by (simp add: nodes_connect)

lemma connect_wf:
  assumes "wf_graph g" "a < c" "nodes g a \<noteq> None" "nodes g c \<noteq> None"
  shows "wf_graph (connect a c g)"
proof (rule wf_graphI)
  let ?g = "connect a c g"
  have ne: "a \<noteq> c" using assms(2) by simp
  then have "dom (nodes ?g) = dom (nodes g)" by (auto simp: nodes_connect split: if_splits)
  then show "finite (dom (nodes ?g))" "next_id ?g < 2 ^ 64"
    using assms(1) by (simp_all add: wf_graph_def)
  have old: "\<exists>m. nodes g j = Some m \<and> n_id n = n_id m
      \<and> n_inputs n = n_inputs m @ (if j = c then [a] else [])
      \<and> n_outputs n = n_outputs m @ (if j = a then [c] else [])"
    if "nodes ?g j = Some n" for j n
    using that ne by (auto simp: nodes_connect add_output_def add_input_def split: if_splits)
  show "node_ok ?g j n" if n: "nodes ?g j = Some n" for j n
  proof -
    from old [OF n] obtain m where m: "nodes g j = Some m" "n_id n = n_id m"
      "n_inputs n = n_inputs m @ (if j = c then [a] else [])"
      "n_outputs n = n_outputs m @ (if j = a then [c] else [])" by blast
    show ?thesis
      using wf_nodeD [OF assms(1) m(1)] m(2-4) assms(2-4) ne by (auto simp: node_ok_def)
  qed
  show "count_list (n_outputs m) k = count_list (n_inputs n) j"
    if mn: "nodes ?g j = Some m" "nodes ?g k = Some n" for j k m n
  proof -
    from old [OF mn(1)] obtain m' where
      m: "nodes g j = Some m'" "n_outputs m = n_outputs m' @ (if j = a then [c] else [])" by blast
    from old [OF mn(2)] obtain n' where
      n: "nodes g k = Some n'" "n_inputs n = n_inputs n' @ (if k = c then [a] else [])" by blast
    show ?thesis using wf_edges(1) [OF assms(1) m(1) n(1)] m(2) n(2) by simp
  qed
qed

text \<open>All edges from one node, and all edges to one node.\<close>

lemma connect_out:
  assumes "m \<notin> set cs"
  shows "nodes (fold (connect m) cs g) j =
    (if j = m then map_option (\<lambda>n. n\<lparr>n_outputs := n_outputs n @ cs\<rparr>) (nodes g m)
     else map_option (\<lambda>n. n\<lparr>n_inputs := n_inputs n @ replicate (count_list cs j) m\<rparr>) (nodes g j))"
  using assms
proof (induction cs arbitrary: g)
  case Nil
  then show ?case by (cases "nodes g j") auto
next
  case (Cons c cs)
  then have "m \<noteq> c" by simp
  with Cons show ?case
    by (cases "nodes g j")
       (auto simp: nodes_connect add_output_def add_input_def option.map_comp comp_def replicate_app_Cons_same)
qed

lemma connect_in:
  assumes "b \<notin> set is"
  shows "nodes (fold (\<lambda>i. connect i b) is g) j =
    (if j = b then map_option (\<lambda>n. n\<lparr>n_inputs := n_inputs n @ is\<rparr>) (nodes g b)
     else map_option (\<lambda>n. n\<lparr>n_outputs := n_outputs n @ replicate (count_list is j) b\<rparr>) (nodes g j))"
  using assms
proof (induction "is" arbitrary: g)
  case Nil
  then show ?case by (cases "nodes g j") auto
next
  case (Cons i js)
  then have "i \<noteq> b" by auto
  with Cons show ?case
    by (cases "nodes g j")
       (auto simp: nodes_connect add_output_def add_input_def option.map_comp comp_def replicate_app_Cons_same)
qed

lemma next_id_fold_connect [simp]:
  "next_id (fold (connect m) cs g) = next_id g" "next_id (fold (\<lambda>i. connect i b) cs g) = next_id g"
  by (induction cs arbitrary: g) simp_all

lemma connect_out_wf:
  assumes "wf_graph g" "nodes g m \<noteq> None" "\<And>c. c \<in> set cs \<Longrightarrow> m < c \<and> nodes g c \<noteq> None"
  shows "wf_graph (fold (connect m) cs g)"
  using assms
proof (induction cs arbitrary: g)
  case (Cons c cs)
  have c: "m < c" "nodes g c \<noteq> None" "m \<noteq> c" using Cons.prems(3) [of c] by auto
  have "wf_graph (fold (connect m) cs (connect m c g))"
    by (rule Cons.IH [OF connect_wf [OF Cons.prems(1) c(1) Cons.prems(2) c(2)]])
       (use Cons.prems(2,3) c(3) in auto)
  then show ?case by simp
qed simp

lemma connect_in_wf:
  assumes "wf_graph g" "nodes g b \<noteq> None" "\<And>i. i \<in> set is \<Longrightarrow> i < b \<and> nodes g i \<noteq> None"
  shows "wf_graph (fold (\<lambda>i. connect i b) is g)"
  using assms
proof (induction "is" arbitrary: g)
  case (Cons i js)
  have i: "i < b" "nodes g i \<noteq> None" "i \<noteq> b" using Cons.prems(3) [of i] by auto
  have "wf_graph (fold (\<lambda>i. connect i b) js (connect i b g))"
    by (rule Cons.IH [OF connect_wf [OF Cons.prems(1) i(1,2) Cons.prems(2)]])
       (use Cons.prems(2,3) i(3) in auto)
  then show ?case by simp
qed simp


subsection \<open>Fusion\<close>

lemma fold_reconnect:
  assumes "m \<notin> set cs" "\<And>c. c \<in> set cs \<Longrightarrow> nodes g c \<noteq> None"
  shows "fold (reconnect m) cs g = fold (connect m) cs g"
  using assms
proof (induction cs arbitrary: g)
  case (Cons c cs)
  have c: "nodes g c \<noteq> None" "m \<noteq> c" using Cons.prems by auto
  have "fold (reconnect m) cs (connect m c g) = fold (connect m) cs (connect m c g)"
    by (rule Cons.IH) (use Cons.prems c(2) in auto)
  moreover have "reconnect m c g = connect m c g" using c(1) by (auto simp: reconnect_def connect_def)
  ultimately show ?case by simp
qed simp

text \<open>The graph between the removal and the reconnection.\<close>

definition fused_core :: "nat \<Rightarrow> nat \<Rightarrow> graph \<Rightarrow> graph" where
  "fused_core m r g = upd_node (set_desc (case nodes g r of None \<Rightarrow> \<lparr>td_shape = [], td_dtype = []\<rparr> | Some n \<Rightarrow> n_desc n)) m
     (fst (remove_node r (fst (replace_node_op m Custom
        (AList.update ''fused_op'' ''FusedMatMulReLU'' (case nodes g m of None \<Rightarrow> [] | Some n \<Rightarrow> n_attrs n)) g))))"

lemma update_nonempty [simp]: "AList.update k v xs \<noteq> []"
  by (induction xs) auto

lemma fused_core_wf: "wf_graph g \<Longrightarrow> wf_graph (fused_core m r g)"
  unfolding fused_core_def
  by (intro upd_node_wf remove_node_wf replace_node_op_wf) (simp_all add: set_desc_def)

lemma fused_core_nodes:
  assumes "wf_graph g" "nodes g m = Some mm" "nodes g r = Some relu" "m \<noteq> r"
  shows "next_id (fused_core m r g) = next_id g"
    "nodes (fused_core m r g) j =
      (if j = r then None
       else map_option (\<lambda>n. drop_input r (drop_output r
          (if j = m then n\<lparr>n_op := Custom, n_desc := n_desc relu,
             n_attrs := AList.update ''fused_op'' ''FusedMatMulReLU'' (n_attrs mm)\<rparr> else n))) (nodes g j))"
proof -
  let ?A = "AList.update ''fused_op'' ''FusedMatMulReLU'' (n_attrs mm)"
  let ?h = "fst (replace_node_op m Custom ?A g)"
  have h: "nodes ?h j = (if j = m then Some (mm\<lparr>n_op := Custom, n_attrs := ?A\<rparr>) else nodes g j)"
    "next_id ?h = next_id g" for j
    using assms(2) by (auto simp: replace_node_op_def nodes_upd)
  have hr: "nodes ?h r \<noteq> None" using h assms(3,4) by simp
  note rm = remove_node_nodes [OF replace_node_op_wf [OF assms(1)] hr]
  show "next_id (fused_core m r g) = next_id g"
    by (simp add: fused_core_def assms(2,3) rm h)
  show "nodes (fused_core m r g) j =
      (if j = r then None
       else map_option (\<lambda>n. drop_input r (drop_output r
          (if j = m then n\<lparr>n_op := Custom, n_desc := n_desc relu, n_attrs := ?A\<rparr> else n))) (nodes g j))"
    using assms(2-4)
    by (auto simp: fused_core_def nodes_upd rm h set_desc_def drop_input_def drop_output_def)
qed

lemma fuse_pair_eq:
  assumes "wf_graph g" "nodes g m = Some mm" "nodes g r = Some relu" "m < r"
  shows "fuse_pair (m, r) g = (fold (connect m) (n_outputs relu) (fused_core m r g), True)"
    "m \<notin> set (n_outputs relu)"
    "\<And>c. c \<in> set (n_outputs relu) \<Longrightarrow> r < c \<and> nodes (fused_core m r g) c \<noteq> None"
proof -
  have ne: "m \<noteq> r" using assms(4) by simp
  note core = fused_core_nodes [OF assms(1-3) ne]
  show c: "r < c \<and> nodes (fused_core m r g) c \<noteq> None" if c: "c \<in> set (n_outputs relu)" for c
  proof -
    from wf_nodeD(5) [OF assms(1,3) c] obtain n where n: "nodes g c = Some n" by blast
    with c wf_edges(2) [OF assms(1,3) n] wf_nodeD(3) [OF assms(1) n] have "r < c" by blast
    with n show ?thesis by (simp add: core)
  qed
  show m: "m \<notin> set (n_outputs relu)" using c [of m] assms(4) by fastforce
  have "nodes (fused_core m r g) m \<noteq> None" using assms(2) ne by (simp add: core)
  then have "fuse_pair (m, r) g = (fold (reconnect m) (n_outputs relu) (fused_core m r g), True)"
    by (simp add: fuse_pair_def fused_core_def assms(2,3) Let_def nodes_upd)
  with fold_reconnect [OF m, of "fused_core m r g"] c
  show "fuse_pair (m, r) g = (fold (connect m) (n_outputs relu) (fused_core m r g), True)" by auto
qed

lemma fuse_pair_wf:
  assumes "wf_graph g" "m < r"
  shows "wf_graph (fst (fuse_pair (m, r) g))"
proof (cases "nodes g r = None \<or> nodes g m = None")
  case True
  with assms(1) show ?thesis by (auto simp: fuse_pair_def split: option.split)
next
  case False
  then obtain relu mm where n: "nodes g m = Some mm" "nodes g r = Some relu" by auto
  note eq = fuse_pair_eq [OF assms(1) n assms(2)]
  have "nodes (fused_core m r g) m \<noteq> None"
    using fused_core_nodes(2) [OF assms(1) n, of m] assms(2) n(1) by simp
  then have "wf_graph (fold (connect m) (n_outputs relu) (fused_core m r g))"
    using eq(3) less_trans [OF assms(2)] by (intro connect_out_wf fused_core_wf assms(1)) blast+
  then show ?thesis by (simp add: eq(1))
qed

lemma fuse_candidateD:
  assumes "fuse_candidate g i = Some (m, r)"
  shows "i = m" "\<exists>mm relu. nodes g m = Some mm \<and> nodes g r = Some relu \<and> n_op mm = MatMul \<and> n_op relu = ReLU
    \<and> n_outputs mm = [r] \<and> n_inputs relu = [m]"
  using assms
  by (auto simp: fuse_candidate_def length_Suc_conv split: option.splits if_splits)

lemma until_changed_inv:
  assumes "P g" "\<And>x g. x \<in> set xs \<Longrightarrow> P g \<Longrightarrow> P (fst (f x g))"
  shows "P (fst (until_changed f xs g))"
proof -
  have "P (fst (fold (\<lambda>x (g, ch). let r = f x g in (fst r, ch \<or> snd r)) xs (g, ch)))" for ch
    using assms by (induction xs arbitrary: g ch) (simp_all add: Let_def)
  then show ?thesis by (simp add: until_changed_def)
qed

lemma fuse_matmul_relu_wf:
  assumes "wf_graph g"
  shows "\<exists>g' b. fuse_matmul_relu it g = Some (g', Inr b) \<and> wf_graph g'"
proof -
  let ?ps = "List.map_filter (fuse_candidate g) (it g)"
  have lt: "fst p < snd p" if "p \<in> set ?ps" for p
  proof -
    from that obtain i where "fuse_candidate g i = Some (fst p, snd p)"
      by (auto simp: map_filter_def)
    from fuse_candidateD(2) [OF this] wf_nodeD(3) [OF assms] show ?thesis by fastforce
  qed
  have "wf_graph (fst (until_changed fuse_pair ?ps g))"
    by (rule until_changed_inv [of wf_graph]) (use assms fuse_pair_wf lt in \<open>auto simp: split_paired_all\<close>)
  then show ?thesis by (simp add: fuse_matmul_relu_def Let_def)
qed

subsection \<open>What a graph computes\<close>

text \<open>
  A meaning gives each operation a partial function of its arguments.  An input that is missing or not
  older than the node has no value; a well-formed graph has neither.
\<close>

type_synonym 'v meaning = "op_type \<Rightarrow> attributes \<Rightarrow> tensor_desc \<Rightarrow> 'v option list \<Rightarrow> 'v option"

function node_value :: "'v meaning \<Rightarrow> graph \<Rightarrow> nat \<Rightarrow> 'v option" where
  "node_value sem g i =
     (case nodes g i of
        None \<Rightarrow> None
      | Some n \<Rightarrow> sem (n_op n) (n_attrs n) (n_desc n)
          (map (\<lambda>j. if j < i then node_value sem g j else None) (n_inputs n)))"
  by pat_completeness auto
termination by (relation "measure (\<lambda>(_, _, i). i)") auto

declare node_value.simps [simp del]

lemma node_value_wf:
  assumes "wf_graph g" "nodes g i = Some n"
  shows "node_value sem g i = sem (n_op n) (n_attrs n) (n_desc n) (map (node_value sem g) (n_inputs n))"
proof -
  have "map (\<lambda>j. if j < i then node_value sem g j else None) (n_inputs n) = map (node_value sem g) (n_inputs n)"
    using wf_nodeD(3) [OF assms] by simp
  then show ?thesis by (simp only: node_value.simps [of _ _ i] assms(2) option.case)
qed

lemma node_value_None: "nodes g i = None \<Longrightarrow> node_value sem g i = None"
  by (simp add: node_value.simps)

text \<open>The graph after a fusion, node for node.\<close>

lemma fused_nodes:
  assumes "wf_graph g" "fuse_candidate g m = Some (m, r)" "nodes g m = Some mm" "nodes g r = Some relu"
  defines "g' \<equiv> fst (fuse_pair (m, r) g)"
  shows "nodes g' m = Some (mm\<lparr>n_op := Custom, n_desc := n_desc relu, n_outputs := n_outputs relu,
      n_attrs := AList.update ''fused_op'' ''FusedMatMulReLU'' (n_attrs mm)\<rparr>)"
    "nodes g' r = None"
    "j \<noteq> m \<Longrightarrow> j \<noteq> r \<Longrightarrow> nodes g' j = map_option (\<lambda>n. n\<lparr>n_outputs := removeAll r (n_outputs n),
      n_inputs := removeAll r (n_inputs n) @ replicate (count_list (n_inputs n) r) m\<rparr>) (nodes g j)"
proof -
  have e: "n_outputs mm = [r]" "n_inputs relu = [m]"
    using fuse_candidateD(2) [OF assms(2)] assms(3,4) by auto
  have lt: "m < r" using wf_nodeD(3) [OF assms(1,4)] e by simp
  then have ne: "m \<noteq> r" by simp
  have mr: "r \<notin> set (n_inputs mm)" using wf_nodeD(3) [OF assms(1,3), of r] lt by auto
  note eq = fuse_pair_eq [OF assms(1,3,4) lt] and core = fused_core_nodes [OF assms(1,3,4) ne]
  have g': "nodes g' k =
      (if k = m then map_option (\<lambda>n. n\<lparr>n_outputs := n_outputs n @ n_outputs relu\<rparr>) (nodes (fused_core m r g) m)
       else map_option (\<lambda>n. n\<lparr>n_inputs := n_inputs n @ replicate (count_list (n_outputs relu) k) m\<rparr>)
         (nodes (fused_core m r g) k))" for k
    unfolding g'_def eq(1) fst_conv by (rule connect_out [OF eq(2)])
  show "nodes g' m = Some (mm\<lparr>n_op := Custom, n_desc := n_desc relu, n_outputs := n_outputs relu,
      n_attrs := AList.update ''fused_op'' ''FusedMatMulReLU'' (n_attrs mm)\<rparr>)"
    using ne mr by (simp add: g' core assms(3) e drop_input_def drop_output_def)
  show "nodes g' r = None" using ne by (simp add: g' core)
  show "nodes g' j = map_option (\<lambda>n. n\<lparr>n_outputs := removeAll r (n_outputs n),
      n_inputs := removeAll r (n_inputs n) @ replicate (count_list (n_inputs n) r) m\<rparr>) (nodes g j)"
    if "j \<noteq> m" "j \<noteq> r"
    using that wf_edges(1) [OF assms(1,4), of j]
    by (cases "nodes g j") (simp_all add: g' core drop_input_def drop_output_def)
qed

subsection \<open>Dead nodes\<close>

lemma mark_live_total:
  assumes "wf_graph g" "set work \<subseteq> dom (nodes g)" "live \<subseteq> dom (nodes g)"
    "\<And>i n. i \<in> live \<Longrightarrow> nodes g i = Some n \<Longrightarrow> set (n_inputs n) \<subseteq> live \<union> set work"
  shows "\<exists>L. mark_live g work live = Some L \<and> live \<union> set work \<subseteq> L
    \<and> (\<forall>i\<in>L. \<forall>n. nodes g i = Some n \<longrightarrow> set (n_inputs n) \<subseteq> L)"
  using assms(2-4)
proof (induction "(card (dom (nodes g) - live), length work)" arbitrary: work live
    rule: wf_induct_rule [OF wf_lex_prod [OF wf_less wf_less]])
  case (1 work live)
  have IH: "\<exists>L. mark_live g w l = Some L \<and> l \<union> set w \<subseteq> L
      \<and> (\<forall>i\<in>L. \<forall>n. nodes g i = Some n \<longrightarrow> set (n_inputs n) \<subseteq> L)"
    if "card (dom (nodes g) - l) < card (dom (nodes g) - live)
        \<or> card (dom (nodes g) - l) = card (dom (nodes g) - live) \<and> length w < length work"
      "set w \<subseteq> dom (nodes g)" "l \<subseteq> dom (nodes g)"
      "\<And>i n. i \<in> l \<Longrightarrow> nodes g i = Some n \<Longrightarrow> set (n_inputs n) \<subseteq> l \<union> set w" for w l
    using "1.hyps" [of l w] that by auto
  show ?case
  proof (cases work rule: rev_cases)
    case Nil
    with "1.prems" show ?thesis by (simp add: mark_live.simps)
  next
    case (snoc ws c)
    then have c: "last work = c" "butlast work = ws" "work \<noteq> []" "c \<in> dom (nodes g)"
      "set ws \<subseteq> dom (nodes g)" "set work = insert c (set ws)" using "1.prems"(1) by auto
    show ?thesis
    proof (cases "c \<in> live")
      case True
      have "\<exists>L. mark_live g ws live = Some L \<and> live \<union> set ws \<subseteq> L
          \<and> (\<forall>i\<in>L. \<forall>n. nodes g i = Some n \<longrightarrow> set (n_inputs n) \<subseteq> L)"
      proof (rule IH)
        show "set (n_inputs n) \<subseteq> live \<union> set ws" if "i \<in> live" "nodes g i = Some n" for i n
          using "1.prems"(3) [OF that] c(6) True by auto
      qed (use c "1.prems"(2) snoc in auto)
      with True show ?thesis by (subst mark_live.simps) (auto simp: c)
    next
      case False
      from c(4) obtain n where n: "nodes g c = Some n" by blast
      let ?w = "ws @ filter (\<lambda>i. i \<notin> insert c live) (n_inputs n)"
      have "dom (nodes g) - insert c live \<subset> dom (nodes g) - live" using c(4) False by blast
      then have less: "card (dom (nodes g) - insert c live) < card (dom (nodes g) - live)"
        using wf_finite [OF assms(1)] by (simp add: psubset_card_mono)
      have "\<exists>L. mark_live g ?w (insert c live) = Some L \<and> insert c live \<union> set ?w \<subseteq> L
          \<and> (\<forall>i\<in>L. \<forall>n. nodes g i = Some n \<longrightarrow> set (n_inputs n) \<subseteq> L)"
      proof (rule IH)
        show "set ?w \<subseteq> dom (nodes g)" using c(5) wf_nodeD(4) [OF assms(1) n] by auto
        show "insert c live \<subseteq> dom (nodes g)" using c(4) "1.prems"(2) by simp
        show "set (n_inputs m) \<subseteq> insert c live \<union> set ?w"
          if "i \<in> insert c live" "nodes g i = Some m" for i m
        proof (cases "i = c")
          case True
          with that(2) n show ?thesis by auto
        next
          case False
          with that have "set (n_inputs m) \<subseteq> live \<union> set work" using "1.prems"(3) by blast
          then show ?thesis using c(6) by auto
        qed
      qed (use less in blast)
      then obtain L where L: "mark_live g ?w (insert c live) = Some L" "insert c live \<union> set ?w \<subseteq> L"
        "\<forall>i\<in>L. \<forall>n. nodes g i = Some n \<longrightarrow> set (n_inputs n) \<subseteq> L" by blast
      have "mark_live g work live = mark_live g ?w (insert c live)"
        by (subst mark_live.simps) (simp add: c(1-3) False n)
      moreover have "live \<union> set work \<subseteq> L" using L(2) c(6) by auto
      ultimately show ?thesis using L(1,3) by auto
    qed
  qed
qed

text \<open>In a well-formed graph every node leads to an output: nothing is ever dead.\<close>

lemma closed_from_outputs:
  assumes "wf_graph g" "\<And>i n. nodes g i = Some n \<Longrightarrow> n_outputs n = [] \<Longrightarrow> i \<in> L"
    "\<And>i n. i \<in> L \<Longrightarrow> nodes g i = Some n \<Longrightarrow> set (n_inputs n) \<subseteq> L" "nodes g i = Some n"
  shows "i \<in> L"
  using assms(4)
proof (induction "next_id g - i" arbitrary: i n rule: less_induct)
  case less
  show ?case
  proof (cases "n_outputs n")
    case (Cons c cs)
    then have c: "c \<in> set (n_outputs n)" by simp
    from wf_nodeD(5) [OF assms(1) less.prems c] obtain m where m: "nodes g c = Some m" by blast
    then have i: "i \<in> set (n_inputs m)" using wf_edges(2) [OF assms(1) less.prems m] c by blast
    have "i < c" "c < next_id g" using wf_nodeD(2,3) [OF assms(1) m] i by blast+
    with less.hyps [OF _ m] have "c \<in> L" by simp
    with assms(3) [OF _ m] i show ?thesis by blast
  qed (use assms(2) less.prems in blast)
qed

lemma eliminate_dead_nodes_wf:
  assumes "wf_graph g" "iterates (it g) g" "set (perm (output_nodes (it g) g)) = set (output_nodes (it g) g)"
  shows "eliminate_dead_nodes it perm g = Some (g, Inr False)"
proof -
  have out: "i \<in> set (output_nodes (it g) g) \<longleftrightarrow> (\<exists>n. nodes g i = Some n \<and> n_outputs n = [])" for i
    using assms(2) by (auto simp: output_nodes_def iterates_def split: option.splits)
  have "set (perm (output_nodes (it g) g)) \<subseteq> dom (nodes g)" using out assms(3) by auto
  from mark_live_total [OF assms(1) this, of "{}"] obtain L where
    L: "mark_live g (perm (output_nodes (it g) g)) {} = Some L" "set (output_nodes (it g) g) \<subseteq> L"
      "\<And>i n. i \<in> L \<Longrightarrow> nodes g i = Some n \<Longrightarrow> set (n_inputs n) \<subseteq> L"
    using assms(3) by auto
  have "i \<in> L" if "i \<in> set (it g)" for i
  proof -
    from that assms(2) obtain n where n: "nodes g i = Some n" by (auto simp: iterates_def)
    show ?thesis by (rule closed_from_outputs [OF assms(1) _ L(3) n]) (use out L(2) in blast)
  qed
  then have "filter (\<lambda>i. i \<notin> L) (it g) = []" by (simp add: filter_empty_conv)
  then show ?thesis by (simp add: eliminate_dead_nodes_def L(1))
qed

subsection \<open>Chains\<close>

lemma graph_eqI: "next_id g = next_id h \<Longrightarrow> (\<And>j. nodes g j = nodes h j) \<Longrightarrow> g = (h :: graph)"
  by (cases g; cases h) auto

lemma fold_pair_eq:
  assumes "wf_graph g" "nodes g a = Some inner" "nodes g b = Some outer"
    "n_inputs outer = [a]" "n_outputs inner = [b]" "n_op inner = n_op outer"
  shows "fold_pair (a, b) g = (fold (\<lambda>i. connect i b) (n_inputs inner) (fst (remove_node a g)), True)"
    "nodes (fst (remove_node a g)) b = Some (outer\<lparr>n_inputs := [], n_outputs := n_outputs outer\<rparr>)"
    "\<And>i. i \<in> set (n_inputs inner) \<Longrightarrow> i < b \<and> nodes (fst (remove_node a g)) i \<noteq> None"
proof -
  let ?g = "fst (remove_node a g)"
  have a: "nodes g a \<noteq> None" using assms(2) by simp
  note r = remove_node_nodes [OF assms(1) a]
  have ab: "a < b" using wf_nodeD(3) [OF assms(1,3)] assms(4) by simp
  have "a \<notin> set (n_outputs outer)"
    using wf_edges(2) [OF assms(1,3,2)] wf_nodeD(3) [OF assms(1,2), of b] ab by auto
  then show b: "nodes ?g b = Some (outer\<lparr>n_inputs := [], n_outputs := n_outputs outer\<rparr>)"
    using ab assms(3,4) by (simp add: r drop_input_def drop_output_def)
  have ins: "i < a" "nodes g i \<noteq> None" if "i \<in> set (n_inputs inner)" for i
    using wf_nodeD(3,4) [OF assms(1,2) that] by auto
  show i: "i < b \<and> nodes ?g i \<noteq> None" if "i \<in> set (n_inputs inner)" for i
    using ins [OF that] ab by (simp add: r)
  then have nb: "b \<notin> set (n_inputs inner)" by blast
  have "fold (upd_node (add_output b)) (n_inputs inner) (upd_node (set_inputs (n_inputs inner)) b ?g)
      = fold (\<lambda>i. connect i b) (n_inputs inner) ?g"
  proof (rule graph_eqI)
    show "nodes (fold (upd_node (add_output b)) (n_inputs inner) (upd_node (set_inputs (n_inputs inner)) b ?g)) j
        = nodes (fold (\<lambda>i. connect i b) (n_inputs inner) ?g) j" for j
      unfolding connect_in [OF nb] nodes_fold_upd funpow_add_output nodes_upd
      using b nb by (cases "nodes ?g j") (auto simp: set_inputs_def count_list_0_iff)
  qed simp
  then show "fold_pair (a, b) g = (fold (\<lambda>i. connect i b) (n_inputs inner) ?g, True)"
    using assms(2-6) b by (simp add: fold_pair_def Let_def)
qed

text \<open>A pair that is folded removes one node; a pair that is not changes nothing.\<close>

definition foldable :: "graph \<Rightarrow> nat \<times> nat \<Rightarrow> bool" where
  "foldable g p \<longleftrightarrow> (\<exists>inner outer. nodes g (fst p) = Some inner \<and> nodes g (snd p) = Some outer
     \<and> n_inputs outer = [fst p] \<and> n_outputs inner = [snd p] \<and> n_op inner = n_op outer)"

lemma fold_pair_spec:
  assumes "wf_graph g"
  shows "wf_graph (fst (fold_pair p g))" "snd (fold_pair p g) = foldable g p"
    "foldable g p \<Longrightarrow> card (dom (nodes (fst (fold_pair p g)))) < card (dom (nodes g))"
    "\<not> foldable g p \<Longrightarrow> fst (fold_pair p g) = g"
proof -
  obtain a b where p: "p = (a, b)" by (cases p)
  show no: "fst (fold_pair p g) = g" if "\<not> foldable g p"
    using that by (auto simp: p fold_pair_def foldable_def Let_def split: option.split)
  have nos: "\<not> snd (fold_pair p g)" if "\<not> foldable g p"
    using that by (auto simp: p fold_pair_def foldable_def Let_def split: option.split)
  have yes: "wf_graph (fst (fold_pair p g)) \<and> snd (fold_pair p g)
      \<and> card (dom (nodes (fst (fold_pair p g)))) < card (dom (nodes g))" if "foldable g p"
  proof -
    from that obtain inner outer where n: "nodes g a = Some inner" "nodes g b = Some outer"
      "n_inputs outer = [a]" "n_outputs inner = [b]" "n_op inner = n_op outer"
      by (auto simp: foldable_def p)
    note eq = fold_pair_eq [OF assms n]
    let ?h = "fst (remove_node a g)" and ?g = "fst (fold_pair p g)"
    have wf: "wf_graph ?g"
      unfolding p eq(1) fst_conv
      by (rule connect_in_wf [OF remove_node_wf [OF assms]]) (use eq(2,3) in auto)
    have nb: "b \<notin> set (n_inputs inner)" using eq(3) by blast
    have a: "nodes g a \<noteq> None" using n(1) by simp
    have "nodes ?g j = None \<longleftrightarrow> nodes ?h j = None" for j
      unfolding p eq(1) fst_conv connect_in [OF nb] by auto
    then have "dom (nodes ?g) = dom (nodes ?h)" by (auto simp: dom_def)
    also have "\<dots> = dom (nodes g) - {a}"
      by (auto simp: remove_node_nodes(3) [OF assms a] split: if_splits)
    finally have "card (dom (nodes ?g)) < card (dom (nodes g))"
      using a wf_finite [OF assms] by (auto intro!: psubset_card_mono)
    with wf show ?thesis by (simp add: p eq(1))
  qed
  show "wf_graph (fst (fold_pair p g))" using no yes assms by (cases "foldable g p") auto
  show "snd (fold_pair p g) = foldable g p" using yes nos by blast
  show "card (dom (nodes (fst (fold_pair p g)))) < card (dom (nodes g))" if "foldable g p"
    using yes [OF that] by blast
qed

lemma fold_candidate_foldable:
  assumes "wf_graph g" "fold_candidate g i = Some p"
  shows "foldable g p"
proof -
  from assms(2) obtain n m where n: "nodes g i = Some n" "n_inputs n = [fst p]" "snd p = i"
    "nodes g (fst p) = Some m" "n_op m = n_op n" "length (n_outputs m) = 1"
    by (auto simp: fold_candidate_def length_Suc_conv split: option.splits if_splits)
  then have "i \<in> set (n_outputs m)" using wf_edges(2) [OF assms(1) n(4,1)] by simp
  then have "n_outputs m = [i]" using n(6) by (cases "n_outputs m") auto
  with n show ?thesis by (auto simp: foldable_def)
qed

lemma fold_round_spec:
  fixes ps :: "(nat \<times> nat) list"
  assumes "wf_graph g"
  defines "r \<equiv> until_changed fold_pair ps g"
  shows "wf_graph (fst r)" "snd r \<Longrightarrow> card (dom (nodes (fst r))) < card (dom (nodes g))"
    "\<not> snd r \<Longrightarrow> fst r = g \<and> (\<forall>p\<in>set ps. \<not> foldable g p)"
proof -
  define F where "F = (\<lambda>x (g, ch). let r = fold_pair x g in (fst r, ch \<or> snd r))"
  have main: "wf_graph (fst (fold F ps (g, ch)))
      \<and> card (dom (nodes (fst (fold F ps (g, ch))))) \<le> card (dom (nodes g))
      \<and> (ch \<longrightarrow> snd (fold F ps (g, ch)))
      \<and> (snd (fold F ps (g, ch)) \<and> \<not> ch \<longrightarrow> card (dom (nodes (fst (fold F ps (g, ch))))) < card (dom (nodes g)))
      \<and> (\<not> snd (fold F ps (g, ch)) \<longrightarrow> fst (fold F ps (g, ch)) = g \<and> (\<forall>p\<in>set ps. \<not> foldable g p))" for ch
    using assms(1)
  proof (induction ps arbitrary: g ch)
    case (Cons p ps)
    note s = fold_pair_spec [OF Cons.prems, of p]
    have step: "fold F (p # ps) (g, ch) = fold F ps (fst (fold_pair p g), ch \<or> foldable g p)"
      by (simp add: F_def Let_def s(2))
    note IH = Cons.IH [OF s(1), of "ch \<or> foldable g p"]
    show ?case
    proof (cases "foldable g p")
      case True
      with IH s(3) [OF True] show ?thesis unfolding step by auto
    next
      case False
      with IH s(4) [OF False] show ?thesis unfolding step by auto
    qed
  qed simp
  from main [of False] show "wf_graph (fst r)" "snd r \<Longrightarrow> card (dom (nodes (fst r))) < card (dom (nodes g))"
    "\<not> snd r \<Longrightarrow> fst r = g \<and> (\<forall>p\<in>set ps. \<not> foldable g p)"
    by (simp_all add: r_def until_changed_def F_def)
qed

lemma fold_loop_total:
  assumes "wf_graph g"
  shows "\<exists>g' b. fold_loop it ch g = Some (g', Inr b) \<and> wf_graph g'
    \<and> List.map_filter (fold_candidate g') (it g') = []"
  using assms
proof (induction "card (dom (nodes g))" arbitrary: g ch rule: less_induct)
  case less
  define ps where "ps = List.map_filter (fold_candidate g) (it g)"
  define r where "r = until_changed fold_pair ps g"
  note spec = fold_round_spec [OF less.prems, of ps, folded r_def]
  have loop: "fold_loop it ch g = (if snd r then fold_loop it True (fst r) else Some (fst r, Inr ch))"
    by (simp add: fold_loop.simps [of it ch g] Let_def ps_def [symmetric] r_def [symmetric])
  show ?case
  proof (cases "snd r")
    case True
    with less.hyps [OF spec(2) spec(1), of True] loop show ?thesis by simp
  next
    case False
    have "ps = []"
    proof (cases ps)
      case (Cons p qs)
      then have "p \<in> set ps" by simp
      moreover from this have "foldable g p"
        using fold_candidate_foldable [OF less.prems] by (auto simp: ps_def map_filter_def)
      ultimately show ?thesis using spec(3) [OF False] by blast
    qed
    with False spec(3) less.prems loop show ?thesis by (simp add: ps_def)
  qed
qed

lemma folded_nodes:
  assumes "wf_graph g" "foldable g (a, b)" "nodes g a = Some inner" "j \<noteq> a" "nodes g j = Some n"
  shows "\<exists>n'. nodes (fst (fold_pair (a, b) g)) j = Some n' \<and> n_op n' = n_op n \<and> n_attrs n' = n_attrs n
    \<and> n_desc n' = n_desc n \<and> n_inputs n' = (if j = b then n_inputs inner else n_inputs n)"
proof -
  from assms(2,3) obtain outer where o: "nodes g b = Some outer" "n_inputs outer = [a]"
    "n_outputs inner = [b]" "n_op inner = n_op outer" by (auto simp: foldable_def)
  note eq = fold_pair_eq [OF assms(1,3) o]
  have nb: "b \<notin> set (n_inputs inner)" using eq(3) by blast
  have a: "nodes g a \<noteq> None" using assms(3) by simp
  have "a \<notin> set (n_inputs n)" if "j \<noteq> b"
    using wf_edges(2) [OF assms(1,3,5)] o(3) that by simp
  then show ?thesis
    unfolding eq(1) fst_conv connect_in [OF nb]
    using assms(4,5) eq(2) o(1,2)
    by (auto simp: remove_node_nodes(3) [OF assms(1) a] drop_input_def drop_output_def)
qed

text \<open>Folding two reshapes keeps every value, if the meaning of a reshape depends on its shape only.\<close>

lemma fold_pair_values:
  assumes "wf_graph g" "foldable g (a, b)" "nodes g a = Some inner" "n_op inner = Reshape"
    and law: "\<And>e d e' d' xs. sem Reshape e d [sem Reshape e' d' xs] = sem Reshape e d xs"
    and "j \<noteq> a"
  shows "node_value sem (fst (fold_pair (a, b) g)) j = node_value sem g j"
  using assms(6)
proof (induction j rule: less_induct)
  case (less j)
  let ?g = "fst (fold_pair (a, b) g)"
  have wf': "wf_graph ?g" by (rule fold_pair_spec(1) [OF assms(1)])
  from assms(2,3) obtain outer where o: "nodes g b = Some outer" "n_inputs outer = [a]"
    "n_outputs inner = [b]" "n_op outer = Reshape" using assms(4) by (auto simp: foldable_def)
  show ?case
  proof (cases "nodes g j")
    case None
    have nb: "b \<notin> set (n_inputs inner)"
      using fold_pair_eq(3) [OF assms(1,3) o(1-3)] assms(4) o(4) by fastforce
    have "nodes ?g j = None"
      using None fold_pair_eq(1) [OF assms(1,3) o(1-3)] assms(3,4) o(1,4) less.prems
      by (auto simp: connect_in [OF nb] remove_node_nodes(3) [OF assms(1)])
    with None show ?thesis by (simp add: node_value_None)
  next
    case (Some n)
    from folded_nodes [OF assms(1-3) less.prems Some] obtain n' where
      n': "nodes ?g j = Some n'" "n_op n' = n_op n" "n_attrs n' = n_attrs n" "n_desc n' = n_desc n"
        "n_inputs n' = (if j = b then n_inputs inner else n_inputs n)" by blast
    have same: "node_value sem ?g i = node_value sem g i" if "i < j" "i \<noteq> a" for i
      using less.IH that by blast
    show ?thesis
    proof (cases "j = b")
      case True
      then have n: "n = outer" using Some o(1) by simp
      have "a < j" using wf_nodeD(3) [OF assms(1) Some] o(2) n by simp
      moreover have "i < a" if "i \<in> set (n_inputs inner)" for i using wf_nodeD(3) [OF assms(1,3) that] .
      ultimately have "map (node_value sem ?g) (n_inputs inner) = map (node_value sem g) (n_inputs inner)"
        by (intro map_cong refl same) (auto intro: less_trans)
      then have "node_value sem ?g j
          = sem Reshape (n_attrs outer) (n_desc outer) (map (node_value sem g) (n_inputs inner))"
        using node_value_wf [OF wf' n'(1), of sem] True by (simp add: n'(2-5) n o(4) cong: map_cong)
      also have "\<dots> = sem Reshape (n_attrs outer) (n_desc outer) [node_value sem g a]"
        using law by (simp add: node_value_wf [OF assms(1,3)] assms(4))
      also have "\<dots> = node_value sem g j"
        using node_value_wf [OF assms(1) Some, of sem] by (simp add: n o(2,4))
      finally show ?thesis .
    next
      case False
      have "a \<notin> set (n_inputs n)" using wf_edges(2) [OF assms(1,3) Some] o(3) False by simp
      then have "map (node_value sem ?g) (n_inputs n) = map (node_value sem g) (n_inputs n)"
        using wf_nodeD(3) [OF assms(1) Some] by (intro map_cong refl same) auto
      then show ?thesis
        using False by (simp add: node_value_wf [OF wf' n'(1)] node_value_wf [OF assms(1) Some] n' cong: map_cong)
    qed
  qed
qed

subsection \<open>Properties\<close>

text \<open>The pipeline of \<open>straylight-compiler optimize\<close>.\<close>

definition optimize_passes :: "(graph \<Rightarrow> nat list) \<Rightarrow> (nat list \<Rightarrow> nat list) \<Rightarrow> (string \<times> pass) list" where
  "optimize_passes it perm =
     add_pass ''eliminate_dead_nodes'' (eliminate_dead_nodes it perm)
       (add_pass ''constant_fold'' (constant_fold it)
         (add_pass ''fuse_matmul_relu'' (fuse_matmul_relu it) []))"

text \<open>C32. The optimiser ends, without an error, on every well-formed graph and gives a well-formed graph,
  whatever the iteration orders of the hash tables.\<close>

theorem optimize_total:
  assumes "wf_graph g" "\<And>g. wf_graph g \<Longrightarrow> iterates (it g) g" "\<And>xs. set (perm xs) = set xs"
  shows "\<exists>g' k. run_all (optimize_passes it perm) g = Some (g', Inr k) \<and> wf_graph g' \<and> k \<le> 2"
proof -
  obtain g1 b1 where 1: "fuse_matmul_relu it g = Some (g1, Inr b1)" "wf_graph g1"
    using fuse_matmul_relu_wf [OF assms(1)] by blast
  obtain g2 b2 where 2: "constant_fold it g1 = Some (g2, Inr b2)" "wf_graph g2"
    using fold_loop_total [OF 1(2), of it False] by (auto simp: constant_fold_def)
  have 3: "eliminate_dead_nodes it perm g2 = Some (g2, Inr False)"
    by (rule eliminate_dead_nodes_wf) (use 2(2) assms(2,3) in auto)
  show ?thesis
    using 1(1) 2 3 by (auto simp: run_all_def optimize_passes_def add_pass_def)
qed

text \<open>Constant folding ends on every well-formed graph and leaves no reshape of a reshape and no
  transpose of a transpose that has a single consumer.\<close>

theorem constant_fold_complete:
  assumes "wf_graph g"
  shows "\<exists>g' b. constant_fold it g = Some (g', Inr b) \<and> wf_graph g'
    \<and> (\<forall>i\<in>set (it g'). fold_candidate g' i = None)"
proof -
  from fold_loop_total [OF assms, of it False] obtain g' b where
    g': "constant_fold it g = Some (g', Inr b)" "wf_graph g'" "List.map_filter (fold_candidate g') (it g') = []"
    by (auto simp: constant_fold_def)
  have "List.map_filter f xs = [] \<Longrightarrow> \<forall>x\<in>set xs. f x = None" for f :: "nat \<Rightarrow> (nat \<times> nat) option" and xs
    by (induction xs) (auto simp: map_filter_simps split: option.splits)
  with g' show ?thesis by blast
qed

text \<open>Dead node elimination never removes anything: it starts from the nodes without consumers, and in a
  well-formed graph every node leads to one of those.\<close>

theorem no_dead_nodes:
  assumes "wf_graph g" "iterates (it g) g" "set (perm (output_nodes (it g) g)) = set (output_nodes (it g) g)"
  shows "eliminate_dead_nodes it perm g = Some (g, Inr False)"
  using assms by (rule eliminate_dead_nodes_wf)


subsection \<open>Examples\<close>

text \<open>An iteration order for the graphs the builder makes: ids in ascending order.\<close>

definition ascending :: "graph \<Rightarrow> nat list" where
  "ascending g = filter (\<lambda>i. nodes g i \<noteq> None) [0..<next_id g]"

lemma ascending_iterates: "wf_graph g \<Longrightarrow> iterates (ascending g) g"
  using wf_nodeD(2) by (fastforce simp: iterates_def ascending_def)

lemma optimize_total_witness:
  "\<exists>g' k. run_all (optimize_passes ascending rev) demo_graph = Some (g', Inr k) \<and> wf_graph g' \<and> k \<le> 2"
  using demo_graph_wf by (rule optimize_total) (simp_all add: ascending_iterates)

lemma no_dead_nodes_witness: "eliminate_dead_nodes ascending rev demo_graph = Some (demo_graph, Inr False)"
  using demo_graph_wf ascending_iterates [OF demo_graph_wf] by (rule no_dead_nodes) simp

lemma constant_fold_complete_witness:
  "\<exists>g' b. constant_fold ascending demo_graph = Some (g', Inr b) \<and> wf_graph g'
    \<and> (\<forall>i\<in>set (ascending g'). fold_candidate g' i = None)"
  using demo_graph_wf by (rule constant_fold_complete)

text \<open>A graph from a list of builder calls.\<close>

definition built :: "graph_op list \<Rightarrow> graph" where
  "built ops = (case run graph_step new_graph ops of None \<Rightarrow> new_graph | Some g \<Rightarrow> g)"

lemma built_wf:
  assumes "run_ok graph_step (\<lambda>g _. next_id g + 1 < 2 ^ 64) new_graph ops"
  shows "wf_graph (built ops)"
  using builder.run_safe [OF new_graph_wf assms] by (auto simp: built_def succeeds_iff)

lemmas build_simps = built_def new_graph_def add_node_def upd_node_def add_output_def Let_def

definition first_argument :: "nat meaning" where
  "first_argument op a d xs = (case xs of [] \<Rightarrow> Some 7 | x # _ \<Rightarrow> x)"

definition chain :: "op_type \<Rightarrow> op_type \<Rightarrow> graph" where
  "chain op op' = built [Add_Node Custom [] f32 [], Add_Node op [1] f32 [], Add_Node op' [2] f32 []]"

lemma chain_wf: "wf_graph (chain op op')"
  unfolding chain_def by (rule built_wf) (simp add: build_simps)

text \<open>A node without attributes, and the graph of a rectified product times a matrix.\<close>

definition plain :: "nat \<Rightarrow> op_type \<Rightarrow> nat list \<Rightarrow> nat list \<Rightarrow> gnode" where
  "plain i op ins outs = \<lparr>n_id = i, n_op = op, n_inputs = ins, n_outputs = outs, n_desc = f32, n_attrs = []\<rparr>"

lemma chain_eq:
  "chain op op' = \<lparr>next_id = 4, nodes = [1 \<mapsto> plain 1 Custom [] [2], 2 \<mapsto> plain 2 op [1] [3], 3 \<mapsto> plain 3 op' [2] []]\<rparr>"
proof (rule graph_eqI, goal_cases)
  case (2 j)
  show ?case by (simp add: chain_def build_simps plain_def)
qed (simp add: chain_def build_simps)

definition left_factor :: graph where
  "left_factor = built [Add_Node Custom [] f32 [], Add_Node MatMul [1, 1] f32 [], Add_Node ReLU [2] f32 [],
     Add_Node MatMul [3, 1] f32 []]"

lemma left_factor_eq:
  "left_factor = \<lparr>next_id = 5, nodes = [1 \<mapsto> plain 1 Custom [] [2, 2, 4], 2 \<mapsto> plain 2 MatMul [1, 1] [3],
     3 \<mapsto> plain 3 ReLU [2] [4], 4 \<mapsto> plain 4 MatMul [3, 1] []]\<rparr>"
proof (rule graph_eqI, goal_cases)
  case (2 j)
  show ?case by (simp add: left_factor_def build_simps plain_def)
qed (simp add: left_factor_def build_simps)

text \<open>Fusion swaps operands where argument order is not kept: in the product of a rectified product and a
  matrix, the rectification is the left factor before the pass and the fused node the right one after it.\<close>

theorem fuse_swaps_operands:
  "map_option n_inputs (nodes left_factor 4) = Some [3, 1]
    \<and> map_option (\<lambda>r. map_option n_inputs (nodes (fst r) 4)) (fuse_matmul_relu (\<lambda>_. [1, 2, 3, 4]) left_factor)
      = Some (Some [1, 2])"
  unfolding left_factor_eq by code_simp

definition transposed :: "bool meaning" where
  "transposed op a d xs = (case xs of [] \<Rightarrow> Some False | x # _ \<Rightarrow> if op = Transpose then map_option Not x else x)"

definition fold_round :: "graph \<Rightarrow> graph \<times> bool" where
  "fold_round g = until_changed fold_pair (List.map_filter (fold_candidate g) [1, 2, 3]) g"

lemma fold_two_rounds:
  assumes "snd (fold_round g)" "\<not> snd (fold_round (fst (fold_round g)))"
  shows "constant_fold (\<lambda>_. [1, 2, 3]) g = Some (fst (fold_round (fst (fold_round g))), Inr True)"
proof -
  have step: "fold_loop (\<lambda>_. [1, 2, 3]) ch h = (if snd (fold_round h)
      then fold_loop (\<lambda>_. [1, 2, 3]) True (fst (fold_round h)) else Some (fst (fold_round h), Inr ch))" for ch h
    by (subst fold_loop.simps) (simp only: fold_round_def Let_def)
  show ?thesis
    unfolding constant_fold_def
    by (subst step, simp only: assms if_True, subst step, simp only: assms if_False)
qed

lemma transpose_rounds:
  "snd (fold_round (chain Transpose Transpose))"
  "\<not> snd (fold_round (fst (fold_round (chain Transpose Transpose))))"
  "node_value transposed (fst (fold_round (fst (fold_round (chain Transpose Transpose))))) 3 = Some True"
  "node_value transposed (chain Transpose Transpose) 3 = Some False"
  unfolding chain_eq by code_simp+

text \<open>Folding transposes is unsound: the transpose of a transpose of a matrix, which is the matrix, becomes
  a single transpose.\<close>

theorem transpose_fold_changes_value:
  "node_value transposed (chain Transpose Transpose) 3 = Some False
    \<and> map_option (\<lambda>r. node_value transposed (fst r) 3) (constant_fold (\<lambda>_. [1, 2, 3]) (chain Transpose Transpose))
      = Some (Some True)"
  by (simp only: fold_two_rounds [OF transpose_rounds(1,2)] transpose_rounds(3,4) option.map fst_conv)

subsection \<open>The whole of a fusion\<close>

text \<open>
  What a pass that fuses the pairs \<open>ps\<close> does to a list of arguments: each rectification in it is taken
  out, and the node it was fused into is appended instead.  On the values this means that the
  rectifications go to the end, in the order in which they are fused.
\<close>

definition redirect :: "nat \<times> nat \<Rightarrow> nat list \<Rightarrow> nat list" where
  "redirect p is = removeAll (snd p) is @ replicate (count_list is (snd p)) (fst p)"

definition regrouped :: "nat list \<Rightarrow> nat list \<Rightarrow> nat list" where
  "regrouped rs is = filter (\<lambda>i. i \<notin> set rs) is @ concat (map (\<lambda>r. filter (\<lambda>i. i = r) is) rs)"

definition fused_into :: "(nat \<times> nat) list \<Rightarrow> nat \<Rightarrow> nat" where
  "fused_into ps j = (case map_of ps j of None \<Rightarrow> j | Some r \<Rightarrow> r)"

lemma filter_eq_replicate: "filter (\<lambda>i. i = r) is = replicate (count_list is r) r"
  by (induction "is") auto

lemma mset_filter_split: "distinct rs \<Longrightarrow> mset (regrouped rs is) = mset is"
proof (induction rs)
  case (Cons r rs)
  have "mset (filter (\<lambda>i. i \<notin> set rs) is) =
      mset (filter (\<lambda>i. i \<notin> set (r # rs)) is) + mset (filter (\<lambda>i. i = r) is)"
    using Cons.prems by (induction "is") auto
  with Cons show ?case by (simp add: regrouped_def add.assoc)
qed (simp add: regrouped_def)

lemma redirects:
  assumes "distinct (map snd ps)" "fst ` set ps \<inter> snd ` set ps = {}"
  shows "fold redirect ps is = filter (\<lambda>i. i \<notin> snd ` set ps) is
    @ concat (map (\<lambda>p. replicate (count_list is (snd p)) (fst p)) ps)"
  using assms
proof (induction ps arbitrary: "is")
  case (Cons p ps)
  let ?is = "redirect p is"
  have d: "distinct (map snd ps)" "fst ` set ps \<inter> snd ` set ps = {}" "snd p \<notin> snd ` set ps" "fst p \<notin> snd ` set ps"
    using Cons.prems by auto
  have f: "filter (\<lambda>i. i \<notin> snd ` set ps) ?is
      = filter (\<lambda>i. i \<notin> snd ` set (p # ps)) is @ replicate (count_list is (snd p)) (fst p)"
    using d(4) by (auto simp: redirect_def removeAll_filter_not_eq intro!: filter_cong)
  have "count_list (removeAll x is) y = count_list is y" if "y \<noteq> x" for x y
    using that by (induction "is") auto
  moreover have "count_list (replicate n x) y = 0" if "y \<noteq> x" for n x and y :: nat
    using that by (induction n) auto
  ultimately have "count_list ?is (snd q) = count_list is (snd q)" if "q \<in> set ps" for q
    using d(3,4) that by (auto simp: redirect_def image_iff)
  then have c: "map (\<lambda>p. replicate (count_list ?is (snd p)) (fst p)) ps
      = map (\<lambda>p. replicate (count_list is (snd p)) (fst p)) ps" by simp
  show ?case using Cons.IH [OF d(1,2), of ?is] f c by simp
qed simp

lemma redirects_regrouped:
  assumes "distinct (map fst ps)" "distinct (map snd ps)" "fst ` set ps \<inter> snd ` set ps = {}"
    "set is \<inter> fst ` set ps = {}"
  shows "map (fused_into ps) (fold redirect ps is) = regrouped (map snd ps) is"
proof -
  have "map_of ps i = None" if "i \<in> set is" for i using assms(4) that by (auto simp: map_of_eq_None_iff)
  then have "map (fused_into ps) (filter (\<lambda>i. i \<notin> snd ` set ps) is) = filter (\<lambda>i. i \<notin> snd ` set ps) is"
    by (intro map_idI) (simp add: fused_into_def)
  moreover have "fused_into ps (fst p) = snd p" if "p \<in> set ps" for p
  proof -
    have "map_of ps (fst p) = Some (snd p)"
      using that assms(1) by (intro map_of_is_SomeI) simp_all
    then show ?thesis by (simp add: fused_into_def)
  qed
  then have "map (fused_into ps) (concat (map (\<lambda>p. replicate (count_list is (snd p)) (fst p)) ps))
      = concat (map (\<lambda>r. filter (\<lambda>i. i = r) is) (map snd ps))"
    unfolding map_concat map_map comp_def filter_eq_replicate
    by (intro arg_cong [where f = concat] map_cong) simp_all
  ultimately show ?thesis by (simp add: redirects [OF assms(2,3)] regrouped_def)
qed

text \<open>One fusion, seen from every node.\<close>

definition fused_node :: "(nat \<times> nat) list \<Rightarrow> graph \<Rightarrow> nat \<Rightarrow> gnode \<Rightarrow> gnode \<Rightarrow> bool" where
  "fused_node ps g j n n' \<longleftrightarrow> n_inputs n' = fold redirect ps (n_inputs n) \<and>
     (case map_of ps j of
        None \<Rightarrow> n_op n' = n_op n \<and> n_attrs n' = n_attrs n \<and> n_desc n' = n_desc n
      | Some r \<Rightarrow> n_op n' = Custom \<and> n_attrs n' = AList.update ''fused_op'' ''FusedMatMulReLU'' (n_attrs n)
          \<and> map_option n_desc (nodes g r) = Some (n_desc n'))"

lemma fuse_pair_node:
  assumes "wf_graph g" "fuse_candidate g m = Some (m, r)"
  defines "g' \<equiv> fst (fuse_pair (m, r) g)"
  shows "nodes g' j = None \<longleftrightarrow> nodes g j = None \<or> j = r"
    "nodes g j = Some n \<Longrightarrow> j \<noteq> r \<Longrightarrow> \<exists>n'. nodes g' j = Some n' \<and> fused_node [(m, r)] g j n n'
       \<and> (j \<noteq> m \<longrightarrow> n_outputs n' = removeAll r (n_outputs n))"
proof -
  from fuse_candidateD(2) [OF assms(2)] obtain mm relu where
    n: "nodes g m = Some mm" "nodes g r = Some relu" "n_inputs relu = [m]" by blast
  have lt: "m < r" using wf_nodeD(3) [OF assms(1) n(2)] n(3) by simp
  note f = fused_nodes [OF assms(1,2) n(1,2), folded g'_def]
  show "nodes g' j = None \<longleftrightarrow> nodes g j = None \<or> j = r"
    using f n by (cases "j = m"; cases "j = r") auto
  assume j: "nodes g j = Some n" "j \<noteq> r"
  show "\<exists>n'. nodes g' j = Some n' \<and> fused_node [(m, r)] g j n n'
       \<and> (j \<noteq> m \<longrightarrow> n_outputs n' = removeAll r (n_outputs n))"
  proof (cases "j = m")
    case True
    have "r \<notin> set (n_inputs mm)" using wf_nodeD(3) [OF assms(1) n(1), of r] lt by auto
    with True j n f(1) show ?thesis by (simp add: fused_node_def redirect_def)
  next
    case False
    with j f(3) show ?thesis by (simp add: fused_node_def redirect_def)
  qed
qed

text \<open>The other pairs remain fusible.\<close>

lemma fuse_candidate_stays:
  assumes "wf_graph g" "fuse_candidate g m = Some (m, r)" "fuse_candidate g m' = Some (m', r')" "m' \<noteq> m"
  shows "fuse_candidate (fst (fuse_pair (m, r) g)) m' = Some (m', r')" "r' \<noteq> r" "m' \<noteq> r" "r' \<noteq> m"
proof -
  from fuse_candidateD(2) [OF assms(2)] obtain mm relu where
    n: "nodes g m = Some mm" "nodes g r = Some relu" "n_op mm = MatMul" "n_op relu = ReLU" "n_inputs relu = [m]"
    by blast
  from fuse_candidateD(2) [OF assms(3)] obtain mm' relu' where
    n': "nodes g m' = Some mm'" "nodes g r' = Some relu'" "n_op mm' = MatMul" "n_op relu' = ReLU"
      "n_outputs mm' = [r']" "n_inputs relu' = [m']" by blast
  show ne: "r' \<noteq> r" "m' \<noteq> r" "r' \<noteq> m" using n n' assms(4) by auto
  from fuse_pair_node(2) [OF assms(1,2) n'(1) ne(2)] obtain x where
    x: "nodes (fst (fuse_pair (m, r) g)) m' = Some x" "fused_node [(m, r)] g m' mm' x"
      "n_outputs x = removeAll r (n_outputs mm')" using assms(4) by auto
  from fuse_pair_node(2) [OF assms(1,2) n'(2) ne(1)] obtain y where
    y: "nodes (fst (fuse_pair (m, r) g)) r' = Some y" "fused_node [(m, r)] g r' relu' y" using ne by auto
  show "fuse_candidate (fst (fuse_pair (m, r) g)) m' = Some (m', r')"
    using x y n' ne assms(4)
    by (simp add: fuse_candidate_def fused_node_def redirect_def split: if_splits)
qed

lemma fuse_pairs_nodes:
  assumes "wf_graph g" "\<And>p. p \<in> set ps \<Longrightarrow> fuse_candidate g (fst p) = Some p" "distinct (map fst ps)"
  defines "g' \<equiv> fold (\<lambda>p g. fst (fuse_pair p g)) ps g"
  shows "wf_graph g' \<and> (\<forall>j. nodes g' j = None \<longleftrightarrow> nodes g j = None \<or> j \<in> snd ` set ps)
    \<and> (\<forall>j n. nodes g j = Some n \<longrightarrow> j \<notin> snd ` set ps \<longrightarrow>
          (\<exists>n'. nodes g' j = Some n' \<and> fused_node ps g j n n'))"
  unfolding g'_def using assms(1-3)
proof (induction ps arbitrary: g)
  case Nil
  then show ?case by (simp add: fused_node_def)
next
  case (Cons p ps)
  obtain m r where p: "p = (m, r)" by (cases p)
  have c: "fuse_candidate g m = Some (m, r)" using Cons.prems(2) [of p] p by simp
  let ?h = "fst (fuse_pair (m, r) g)"
  have lt: "m < r"
    using fuse_candidateD(2) [OF c] wf_nodeD(3) [OF Cons.prems(1)] by fastforce
  have other: "fuse_candidate g (fst q) = Some q" "fst q \<noteq> m" if "q \<in> set ps" for q
    using Cons.prems(2,3) that p by auto
  have stays: "fuse_candidate ?h (fst q) = Some q" "snd q \<noteq> r" "snd q \<noteq> m" if "q \<in> set ps" for q
    using fuse_candidate_stays [OF Cons.prems(1) c, of "fst q" "snd q"] other [OF that] by simp_all
  have IH: "wf_graph (fold (\<lambda>p g. fst (fuse_pair p g)) ps ?h)"
    "nodes (fold (\<lambda>p g. fst (fuse_pair p g)) ps ?h) j = None \<longleftrightarrow> nodes ?h j = None \<or> j \<in> snd ` set ps"
    "nodes ?h j = Some n1 \<Longrightarrow> j \<notin> snd ` set ps \<Longrightarrow>
       \<exists>n'. nodes (fold (\<lambda>p g. fst (fuse_pair p g)) ps ?h) j = Some n' \<and> fused_node ps ?h j n1 n'" for j n1
    using Cons.IH [OF fuse_pair_wf [OF Cons.prems(1) lt] stays(1)] Cons.prems(3) by auto
  note node = fuse_pair_node [OF Cons.prems(1) c]
  have "\<exists>n'. nodes (fold (\<lambda>p g. fst (fuse_pair p g)) ps ?h) j = Some n' \<and> fused_node (p # ps) g j n n'"
    if j: "nodes g j = Some n" "j \<noteq> r" "j \<notin> snd ` set ps" for j n
  proof -
    from node(2) [OF j(1,2)] obtain n1 where n1: "nodes ?h j = Some n1" "fused_node [(m, r)] g j n n1" by blast
    from IH(3) [OF n1(1) j(3)] obtain n' where
      n': "nodes (fold (\<lambda>p g. fst (fuse_pair p g)) ps ?h) j = Some n'" "fused_node ps ?h j n1 n'" by blast
    have desc: "map_option n_desc (nodes g r') = Some (n_desc n')" if "map_of ps j = Some r'" for r'
    proof -
      from that have q: "(j, r') \<in> set ps" by (rule map_of_SomeD)
      from fuse_candidateD(2) [OF other(1) [OF q, unfolded fst_conv]] obtain x where x: "nodes g r' = Some x" by blast
      from node(2) [OF this] stays(2,3) [OF q] obtain y where
        "nodes ?h r' = Some y" "n_desc y = n_desc x" by (auto simp: fused_node_def)
      with n'(2) that x show ?thesis by (simp add: fused_node_def)
    qed
    have "map_of ps m = None" using other(2) by (force simp: map_of_eq_None_iff)
    then have "fused_node (p # ps) g j n n'"
      using n1(2) n'(2) desc by (cases "map_of ps j"; cases "j = m") (auto simp: fused_node_def p)
    with n'(1) show ?thesis by blast
  qed
  then show ?case using IH(1,2) node(1) p by auto
qed

lemma fst_until_changed: "fst (until_changed f xs g) = fold (\<lambda>x g. fst (f x g)) xs g"
proof -
  have "fst (fold (\<lambda>x (g, ch). let r = f x g in (fst r, ch \<or> snd r)) xs (g, ch))
      = fold (\<lambda>x g. fst (f x g)) xs g" for ch
    by (induction xs arbitrary: g ch) (simp_all add: Let_def)
  then show ?thesis by (simp add: until_changed_def)
qed

text \<open>The pairs a pass finds.\<close>

definition fuse_candidates :: "nat list \<Rightarrow> graph \<Rightarrow> (nat \<times> nat) list" where
  "fuse_candidates ids g = List.map_filter (fuse_candidate g) ids"

lemma fuse_candidates_pairs:
  assumes "distinct ids"
  shows "p \<in> set (fuse_candidates ids g) \<Longrightarrow> fuse_candidate g (fst p) = Some p"
    "distinct (map fst (fuse_candidates ids g))" "distinct (map snd (fuse_candidates ids g))"
    "fst ` set (fuse_candidates ids g) \<inter> snd ` set (fuse_candidates ids g) = {}"
proof -
  let ?ps = "fuse_candidates ids g"
  show c: "fuse_candidate g (fst p) = Some p" if "p \<in> set ?ps" for p
  proof -
    from that obtain i where i: "fuse_candidate g i = Some p"
      by (auto simp: fuse_candidates_def map_filter_def)
    then show ?thesis using fuse_candidateD(1) [of g i "fst p" "snd p"] by simp
  qed
  have "map fst (fuse_candidates js g) = filter (\<lambda>i. fuse_candidate g i \<noteq> None) js" for js
    by (induction js) (auto simp: fuse_candidates_def map_filter_simps dest: fuse_candidateD(1) split: option.split)
  with assms show d: "distinct (map fst ?ps)" by simp
  have "inj_on snd (set ?ps)"
  proof (rule inj_onI)
    fix p q assume "p \<in> set ?ps" "q \<in> set ?ps" "snd p = snd q"
    with c [of p] c [of q] fuse_candidateD(2) [of g "fst p" "fst p" "snd p"]
      fuse_candidateD(2) [of g "fst q" "fst q" "snd q"] show "p = q"
      by (auto simp: prod_eq_iff)
  qed
  moreover have "distinct ?ps" using d by (simp add: distinct_map)
  ultimately show "distinct (map snd ?ps)" by (simp add: distinct_map)
  show "fst ` set ?ps \<inter> snd ` set ?ps = {}"
  proof (rule ccontr)
    assume "fst ` set ?ps \<inter> snd ` set ?ps \<noteq> {}"
    then obtain p q where pq: "p \<in> set ?ps" "q \<in> set ?ps" "fst p = snd q" by fastforce
    from c [OF pq(1)] fuse_candidateD(2) [of g "fst p" "fst p" "snd p"] obtain x where
      "nodes g (fst p) = Some x" "n_op x = MatMul" by auto
    moreover from c [OF pq(2)] fuse_candidateD(2) [of g "fst q" "fst q" "snd q"] obtain y where
      "nodes g (snd q) = Some y" "n_op y = ReLU" by auto
    ultimately show False using pq(3) by simp
  qed
qed

text \<open>
  The values after the pass.  A meaning is \<open>order_free\<close> in an operation when permuting the arguments does
  not change the result, as for a sum.
\<close>

definition order_free :: "'v meaning \<Rightarrow> op_type \<Rightarrow> bool" where
  "order_free sem op \<longleftrightarrow> (\<forall>a d xs ys. mset xs = mset ys \<longrightarrow> sem op a d xs = sem op a d ys)"

lemma order_freeD: "order_free sem op \<Longrightarrow> mset xs = mset ys \<Longrightarrow> sem op a d xs = sem op a d ys"
  unfolding order_free_def by blast

lemma fuse_pairs_values:
  assumes wf: "wf_graph g" and c: "\<And>p. p \<in> set ps \<Longrightarrow> fuse_candidate g (fst p) = Some p"
    and d: "distinct (map fst ps)" "distinct (map snd ps)" "fst ` set ps \<inter> snd ` set ps = {}"
    and law: "\<And>a b d e xs. sem Custom (AList.update ''fused_op'' ''FusedMatMulReLU'' a) d xs
      = sem ReLU b d [sem MatMul a e xs]"
    and order: "\<And>c n. nodes g c = Some n \<Longrightarrow>
      regrouped (map snd ps) (n_inputs n) = n_inputs n \<or> order_free sem (n_op n)"
  defines "g' \<equiv> fold (\<lambda>p g. fst (fuse_pair p g)) ps g"
  assumes "nodes g' j \<noteq> None"
  shows "node_value sem g' j = node_value sem g (fused_into ps j)"
  using assms(9)
proof (induction j rule: less_induct)
  case (less j)
  have pass: "wf_graph g' \<and> (\<forall>j. nodes g' j = None \<longleftrightarrow> nodes g j = None \<or> j \<in> snd ` set ps)
    \<and> (\<forall>j n. nodes g j = Some n \<longrightarrow> j \<notin> snd ` set ps \<longrightarrow>
          (\<exists>n'. nodes g' j = Some n' \<and> fused_node ps g j n n'))"
    unfolding g'_def by (rule fuse_pairs_nodes [OF wf c d(1)])
  have wf': "wf_graph g'" using pass by blast
  from less.prems pass have "nodes g j \<noteq> None" "j \<notin> snd ` set ps" by auto
  then obtain n where n: "nodes g j = Some n" "j \<notin> snd ` set ps" by auto
  with pass obtain n' where n': "nodes g' j = Some n'" "fused_node ps g j n n'" by blast
  have ins: "n_inputs n' = fold redirect ps (n_inputs n)" using n'(2) by (simp add: fused_node_def)
  have no_m: "set (n_inputs n) \<inter> fst ` set ps = {}"
  proof (rule ccontr)
    assume "set (n_inputs n) \<inter> fst ` set ps \<noteq> {}"
    then obtain p where p: "p \<in> set ps" "fst p \<in> set (n_inputs n)" by blast
    from fuse_candidateD(2) [of g "fst p" "fst p" "snd p"] c [OF p(1)] obtain mm where
      mm: "nodes g (fst p) = Some mm" "n_outputs mm = [snd p]" by auto
    from wf_edges(2) [OF wf mm(1) n(1)] p(2) mm(2) have "j = snd p" by simp
    with n(2) p(1) show False by blast
  qed
  have "map (node_value sem g') (n_inputs n') = map (node_value sem g \<circ> fused_into ps) (n_inputs n')"
  proof (rule map_cong [OF refl])
    fix i assume i: "i \<in> set (n_inputs n')"
    show "node_value sem g' i = (node_value sem g \<circ> fused_into ps) i"
      using less.IH [OF wf_nodeD(3,4) [OF wf' n'(1) i]] by simp
  qed
  also have "\<dots> = map (node_value sem g) (regrouped (map snd ps) (n_inputs n))"
    unfolding ins map_map [symmetric] redirects_regrouped [OF d no_m] ..
  finally have args: "map (node_value sem g') (n_inputs n')
      = map (node_value sem g) (regrouped (map snd ps) (n_inputs n))" .
  have same: "sem (n_op n) a e (map (node_value sem g') (n_inputs n'))
      = sem (n_op n) a e (map (node_value sem g) (n_inputs n))" for a e
    using order [OF n(1)]
  proof
    assume "order_free sem (n_op n)"
    then show ?thesis by (rule order_freeD) (simp add: args mset_filter_split [OF d(2)])
  qed (simp add: args)
  show ?case
  proof (cases "map_of ps j")
    case None
    with n'(2) have "n_op n' = n_op n" "n_attrs n' = n_attrs n" "n_desc n' = n_desc n"
      by (simp_all add: fused_node_def)
    then have "node_value sem g' j = node_value sem g j"
      by (simp add: node_value_wf [OF wf' n'(1)] node_value_wf [OF wf n(1)] same)
    with None show ?thesis by (simp add: fused_into_def)
  next
    case (Some r)
    then have "(j, r) \<in> set ps" by (rule map_of_SomeD)
    from fuse_candidateD(2) [OF c [OF this, unfolded fst_conv]] n(1) obtain relu where
      r: "nodes g r = Some relu" "n_op n = MatMul" "n_op relu = ReLU" "n_inputs relu = [j]" by auto
    from n'(2) Some r(1) have n'': "n_op n' = Custom" "n_desc n' = n_desc relu"
      "n_attrs n' = AList.update ''fused_op'' ''FusedMatMulReLU'' (n_attrs n)"
      by (simp_all add: fused_node_def)
    have "node_value sem g' j
        = sem ReLU (n_attrs relu) (n_desc relu) [sem MatMul (n_attrs n) (n_desc n) (map (node_value sem g') (n_inputs n'))]"
      unfolding node_value_wf [OF wf' n'(1)] n'' by (rule law)
    also have "\<dots> = node_value sem g r"
      using same r by (simp add: node_value_wf [OF wf r(1)] node_value_wf [OF wf n(1)])
    finally show ?thesis using Some by (simp add: fused_into_def)
  qed
qed

text \<open>C5. The fusion pass keeps what the graph computes: on a well-formed graph, whatever the iteration order of
  the hash table of nodes (each id once), the pass ends with a well-formed graph that has lost exactly the
  rectifications of the pairs it found; every node that stays has the value it had, and a fused node the
  value of its rectification.  Two things are required: \<open>FusedMatMulReLU\<close> means the rectified product; and in
  each node whose operation depends on the order of its arguments, the fused rectifications among the
  arguments come after the others and in the order in which they are fused (the pass appends them in that
  order; see \<open>fuse_swaps_operands\<close> for what happens otherwise).\<close>

theorem fuse_keeps_values:
  fixes sem :: "'v meaning"
  assumes "wf_graph g" "distinct (it g)"
    "\<And>a b d e xs. sem Custom (AList.update ''fused_op'' ''FusedMatMulReLU'' a) d xs
      = sem ReLU b d [sem MatMul a e xs]"
    "\<And>c n. nodes g c = Some n \<Longrightarrow>
      regrouped (map snd (fuse_candidates (it g) g)) (n_inputs n) = n_inputs n \<or> order_free sem (n_op n)"
  shows "\<exists>g' b. fuse_matmul_relu it g = Some (g', Inr b) \<and> wf_graph g'
    \<and> (\<forall>j. nodes g' j = None \<longleftrightarrow> nodes g j = None \<or> j \<in> snd ` set (fuse_candidates (it g) g))
    \<and> (\<forall>j. nodes g' j \<noteq> None \<longrightarrow>
          node_value sem g' j = node_value sem g (fused_into (fuse_candidates (it g) g) j))"
proof -
  let ?ps = "fuse_candidates (it g) g"
  note ps = fuse_candidates_pairs [OF assms(2)]
  let ?g = "fold (\<lambda>p g. fst (fuse_pair p g)) ?ps g"
  have "fuse_matmul_relu it g = Some (?g, Inr (snd (until_changed fuse_pair ?ps g)))"
    by (simp add: fuse_matmul_relu_def fst_until_changed fuse_candidates_def)
  moreover have "node_value sem ?g j = node_value sem g (fused_into ?ps j)" if "nodes ?g j \<noteq> None" for j
    by (rule fuse_pairs_values [OF assms(1)]) (fact ps assms(3,4) that)+
  moreover have "wf_graph ?g \<and> (\<forall>j. nodes ?g j = None \<longleftrightarrow> nodes g j = None \<or> j \<in> snd ` set ?ps)
    \<and> (\<forall>j n. nodes g j = Some n \<longrightarrow> j \<notin> snd ` set ?ps \<longrightarrow>
          (\<exists>n'. nodes ?g j = Some n' \<and> fused_node ?ps g j n n'))"
    by (rule fuse_pairs_nodes [OF assms(1) _ ps(2)]) (rule ps(1))
  ultimately show ?thesis by blast
qed

text \<open>
  A network of two layers: the second product takes the first rectification as its last argument, and a
  sum adds both rectifications, in an order that the pass swaps.
\<close>

definition two_layers :: graph where
  "two_layers = built [Add_Node Custom [] f32 [], Add_Node MatMul [1, 1] f32 [], Add_Node ReLU [2] f32 [],
     Add_Node MatMul [1, 3] f32 [], Add_Node ReLU [4] f32 [], Add_Node Add [5, 3] f32 []]"

lemma two_layers_wf: "wf_graph two_layers"
  unfolding two_layers_def by (rule built_wf) (simp add: build_simps)

lemma two_layers_eq:
  "two_layers = \<lparr>next_id = 7, nodes = [1 \<mapsto> plain 1 Custom [] [2, 2, 4], 2 \<mapsto> plain 2 MatMul [1, 1] [3],
     3 \<mapsto> plain 3 ReLU [2] [4, 6], 4 \<mapsto> plain 4 MatMul [1, 3] [5], 5 \<mapsto> plain 5 ReLU [4] [6],
     6 \<mapsto> plain 6 Add [5, 3] []]\<rparr>"
proof (rule graph_eqI, goal_cases)
  case (2 j)
  show ?case by (simp add: two_layers_def build_simps plain_def)
qed (simp add: two_layers_def build_simps)

text \<open>Products take their last argument plus one, sums add, a rectification keeps its argument.\<close>

definition counting :: "nat meaning" where
  "counting op a d xs =
     (if op = ReLU then hd (xs @ [None])
      else if op = Add then Some (sum_mset (mset (map (case_option 0 id) xs)))
      else Some (Suc (case_option 0 id (last (None # xs)))))"

lemma counting_sum: "order_free counting Add"
  unfolding order_free_def counting_def mset_map by simp

lemma two_layers_pairs: "fuse_candidates [1, 2, 3, 4, 5, 6] two_layers = [(2, 3), (4, 5)]"
  unfolding two_layers_eq by code_simp

lemma fuse_keeps_values_witness:
  "\<exists>g' b. fuse_matmul_relu (\<lambda>_. [1, 2, 3, 4, 5, 6]) two_layers = Some (g', Inr b) \<and> wf_graph g'
    \<and> node_value counting g' 4 = node_value counting two_layers 5
    \<and> node_value counting g' 6 = node_value counting two_layers 6"
proof -
  let ?it = "\<lambda>_. [1, 2, 3, 4, 5, 6]"
  have "\<exists>g' b. fuse_matmul_relu ?it two_layers = Some (g', Inr b) \<and> wf_graph g'
    \<and> (\<forall>j. nodes g' j = None \<longleftrightarrow> nodes two_layers j = None \<or> j \<in> snd ` set (fuse_candidates (?it two_layers) two_layers))
    \<and> (\<forall>j. nodes g' j \<noteq> None \<longrightarrow>
          node_value counting g' j = node_value counting two_layers (fused_into (fuse_candidates (?it two_layers) two_layers) j))"
  proof (rule fuse_keeps_values [OF two_layers_wf])
    show "regrouped (map snd (fuse_candidates (?it two_layers) two_layers)) (n_inputs n) = n_inputs n
        \<or> order_free counting (n_op n)" if "nodes two_layers c = Some n" for c n
      using that unfolding two_layers_pairs
      by (auto simp: two_layers_eq plain_def regrouped_def counting_sum split: if_splits)
  qed (simp_all add: counting_def)
  then obtain g' b where g': "fuse_matmul_relu ?it two_layers = Some (g', Inr b)" "wf_graph g'"
    "\<forall>j. nodes g' j = None \<longleftrightarrow> nodes two_layers j = None \<or> j \<in> snd ` set [(2 :: nat, 3), (4, 5)]"
    "\<forall>j. nodes g' j \<noteq> None \<longrightarrow> node_value counting g' j = node_value counting two_layers (fused_into [(2, 3), (4, 5)] j)"
    unfolding two_layers_pairs by blast
  have "nodes two_layers 4 \<noteq> None" "nodes two_layers 6 \<noteq> None" by (simp_all add: two_layers_eq)
  with g'(3,4) [THEN spec, of 4] g'(3,4) [THEN spec, of 6] g'(1,2) show ?thesis by (simp add: fused_into_def)
qed


subsection \<open>The whole of a folding\<close>

text \<open>
  What folding reshapes keeps, step by step: operations, the arguments of the other nodes, every value,
  and the nodes without consumers, which are the results of the graph.
\<close>

definition same_results :: "'v meaning \<Rightarrow> graph \<Rightarrow> graph \<Rightarrow> bool" where
  "same_results sem g g' \<longleftrightarrow>
     (\<forall>j n'. nodes g' j = Some n' \<longrightarrow> node_value sem g' j = node_value sem g j
        \<and> (\<exists>n. nodes g j = Some n \<and> n_op n' = n_op n \<and> (n_op n \<noteq> Reshape \<longrightarrow> n_inputs n' = n_inputs n)))
     \<and> (\<forall>j n. nodes g j = Some n \<longrightarrow> n_outputs n = [] \<longrightarrow> (\<exists>n'. nodes g' j = Some n' \<and> n_outputs n' = []))"

lemma same_resultsD:
  assumes "same_results sem g g'"
  shows "nodes g' j = Some n' \<Longrightarrow> node_value sem g' j = node_value sem g j"
    "nodes g' j = Some n' \<Longrightarrow> \<exists>n. nodes g j = Some n \<and> n_op n' = n_op n \<and> (n_op n \<noteq> Reshape \<longrightarrow> n_inputs n' = n_inputs n)"
    "nodes g j = Some n \<Longrightarrow> n_outputs n = [] \<Longrightarrow> \<exists>n'. nodes g' j = Some n' \<and> n_outputs n' = []"
  using assms by (auto simp: same_results_def)

lemma same_results_refl [simp]: "same_results sem g g"
  by (simp add: same_results_def)

lemma same_results_trans:
  assumes "same_results sem g h" "same_results sem h k"
  shows "same_results sem g k"
  unfolding same_results_def
proof (intro conjI allI impI)
  fix j n' assume n': "nodes k j = Some n'"
  from same_resultsD(2) [OF assms(2) n'] obtain m where
    m: "nodes h j = Some m" "n_op n' = n_op m" "n_op m \<noteq> Reshape \<longrightarrow> n_inputs n' = n_inputs m" by blast
  show "node_value sem k j = node_value sem g j"
    using same_resultsD(1) [OF assms(2) n'] same_resultsD(1) [OF assms(1) m(1)] by simp
  from same_resultsD(2) [OF assms(1) m(1)] m(2,3)
  show "\<exists>n. nodes g j = Some n \<and> n_op n' = n_op n \<and> (n_op n \<noteq> Reshape \<longrightarrow> n_inputs n' = n_inputs n)" by auto
next
  fix j n assume "nodes g j = Some n" "n_outputs n = []"
  from same_resultsD(3) [OF assms(1) this] same_resultsD(3) [OF assms(2)]
  show "\<exists>n'. nodes k j = Some n' \<and> n_outputs n' = []" by blast
qed

lemma fold_pair_same_results:
  assumes wf: "wf_graph g" and f: "foldable g (a, b)"
    and inner: "nodes g a = Some inner" "n_op inner = Reshape"
    and law: "\<And>e d e' d' xs. sem Reshape e d [sem Reshape e' d' xs] = sem Reshape e d xs"
  shows "same_results sem g (fst (fold_pair (a, b) g))"
proof -
  let ?g = "fst (fold_pair (a, b) g)"
  have wf': "wf_graph ?g" by (rule fold_pair_spec(1) [OF wf])
  from f inner obtain outer where o: "nodes g b = Some outer" "n_inputs outer = [a]"
    "n_outputs inner = [b]" "n_op outer = Reshape" by (auto simp: foldable_def)
  have eq: "fold_pair (a, b) g = (fold (\<lambda>i. connect i b) (n_inputs inner) (fst (remove_node a g)), True)"
    and below: "\<And>i. i \<in> set (n_inputs inner) \<Longrightarrow> i < b"
    using fold_pair_eq [OF wf inner(1) o(1-3)] inner(2) o(4) by simp_all
  have nb: "b \<notin> set (n_inputs inner)" using below by blast
  have "nodes ?g j = None \<longleftrightarrow> nodes (fst (remove_node a g)) j = None" for j
    unfolding eq fst_conv connect_in [OF nb] by auto
  then have dom: "nodes ?g j = None \<longleftrightarrow> nodes g j = None \<or> j = a" for j
    using inner(1) by (simp add: remove_node_nodes(3) [OF wf])
  have node: "\<exists>n'. nodes ?g j = Some n' \<and> n_op n' = n_op n \<and> n_inputs n' = (if j = b then n_inputs inner else n_inputs n)"
    if "nodes g j = Some n" "j \<noteq> a" for j n
    using folded_nodes [OF wf f inner(1) that(2,1)] by blast
  show ?thesis
    unfolding same_results_def
  proof (intro conjI allI impI)
    fix j n' assume n': "nodes ?g j = Some n'"
    then have "nodes g j \<noteq> None" and a: "j \<noteq> a" using dom [of j] by auto
    then obtain n where n: "nodes g j = Some n" by auto
    show "node_value sem ?g j = node_value sem g j"
      by (rule fold_pair_values [where sem = sem, OF wf f inner]) (fact law a)+
    show "\<exists>n. nodes g j = Some n \<and> n_op n' = n_op n \<and> (n_op n \<noteq> Reshape \<longrightarrow> n_inputs n' = n_inputs n)"
      using node [OF n a] n n' o(1,4) by auto
  next
    fix j n assume n: "nodes g j = Some n" "n_outputs n = []"
    then have a: "j \<noteq> a" using inner(1) o(3) by auto
    from node [OF n(1) a] obtain n' where n': "nodes ?g j = Some n'" by blast
    have "c \<notin> set (n_outputs n')" for c
    proof
      assume c: "c \<in> set (n_outputs n')"
      from wf_nodeD(5) [OF wf' n' c] obtain x' where x': "nodes ?g c = Some x'" by blast
      then have "nodes g c \<noteq> None" "c \<noteq> a" using dom [of c] by auto
      then obtain x where x: "nodes g c = Some x" "c \<noteq> a" by auto
      have "j \<in> set (n_inputs x')" using wf_edges(2) [OF wf' n' x'] c by blast
      with node [OF x] x' have "j \<in> set (if c = b then n_inputs inner else n_inputs x)" by auto
      then have "n_outputs n \<noteq> []"
        using wf_edges(2) [OF wf n(1) inner(1)] wf_edges(2) [OF wf n(1) x(1)] by (auto split: if_splits)
      with n(2) show False by simp
    qed
    then have "n_outputs n' = []" by (cases "n_outputs n'") auto
    with n' show "\<exists>n'. nodes ?g j = Some n' \<and> n_outputs n' = []" by blast
  qed
qed

text \<open>No transpose has a transpose as its only input.\<close>

definition no_transpose_chain :: "graph \<Rightarrow> bool" where
  "no_transpose_chain g \<longleftrightarrow> (\<forall>i n k m. nodes g i = Some n \<longrightarrow> nodes g k = Some m \<longrightarrow>
     n_op n = Transpose \<longrightarrow> n_inputs n = [k] \<longrightarrow> n_op m \<noteq> Transpose)"

lemma no_transpose_chainD:
  "no_transpose_chain g \<Longrightarrow> nodes g i = Some n \<Longrightarrow> nodes g k = Some m \<Longrightarrow> n_op n = Transpose \<Longrightarrow>
   n_inputs n = [k] \<Longrightarrow> n_op m \<noteq> Transpose"
  unfolding no_transpose_chain_def by blast

lemma no_transpose_chain_results:
  assumes "no_transpose_chain g" "same_results sem g g'"
  shows "no_transpose_chain g'"
  unfolding no_transpose_chain_def
proof (intro allI impI)
  fix i n' k m' assume n': "nodes g' i = Some n'" "n_op n' = Transpose" "n_inputs n' = [k]"
    and m': "nodes g' k = Some m'"
  from same_resultsD(2) [OF assms(2) n'(1)] n'(2,3) obtain n where
    n: "nodes g i = Some n" "n_op n = Transpose" "n_inputs n = [k]" by auto
  from same_resultsD(2) [OF assms(2) m'] obtain m where m: "nodes g k = Some m" "n_op m' = n_op m" by blast
  from no_transpose_chainD [OF assms(1) n(1) m(1) n(2,3)] m(2) show "n_op m' \<noteq> Transpose" by simp
qed

lemma fold_candidate_reshape:
  assumes "no_transpose_chain g" "fold_candidate g i = Some p" "nodes g (fst p) = Some x"
  shows "n_op x = Reshape"
proof -
  from assms(2,3) obtain n where n: "nodes g i = Some n" "n_inputs n = [fst p]" "n_op x = n_op n"
    "n_op n = Reshape \<or> n_op n = Transpose"
    by (auto simp: fold_candidate_def length_Suc_conv split: option.splits if_splits)
  with no_transpose_chainD [OF assms(1) n(1) assms(3) _ n(2)] show ?thesis by auto
qed

text \<open>A round over a list of pairs that may have become stale, and the rounds to the end.\<close>

lemma fold_round_results:
  assumes "wf_graph g" "\<And>p x. p \<in> set ps \<Longrightarrow> nodes g (fst p) = Some x \<Longrightarrow> n_op x = Reshape"
    and law: "\<And>e d e' d' xs. sem Reshape e d [sem Reshape e' d' xs] = sem Reshape e d xs"
  shows "same_results sem g (fold (\<lambda>p g. fst (fold_pair p g)) ps g)"
  using assms(1,2)
proof (induction ps arbitrary: g)
  case (Cons p ps)
  let ?h = "fst (fold_pair p g)"
  have h: "same_results sem g ?h"
  proof (cases "foldable g p")
    case True
    then obtain inner where i: "nodes g (fst p) = Some inner" by (auto simp: foldable_def)
    with Cons.prems(2) [of p inner] have "n_op inner = Reshape" by simp
    with fold_pair_same_results [of g "fst p" "snd p" inner sem] law Cons.prems(1) True i show ?thesis by simp
  next
    case False
    then show ?thesis by (simp add: fold_pair_spec(4) [OF Cons.prems(1)])
  qed
  have "same_results sem ?h (fold (\<lambda>p g. fst (fold_pair p g)) ps ?h)"
  proof (rule Cons.IH [OF fold_pair_spec(1) [OF Cons.prems(1)]])
    fix q x assume q: "q \<in> set ps" "nodes ?h (fst q) = Some x"
    from same_resultsD(2) [OF h q(2)] Cons.prems(2) q(1) show "n_op x = Reshape" by fastforce
  qed
  with h show ?case by (simp add: same_results_trans)
qed simp

lemma fold_loop_results:
  assumes "wf_graph g" "no_transpose_chain g"
    and law: "\<And>e d e' d' xs. sem Reshape e d [sem Reshape e' d' xs] = sem Reshape e d xs"
  shows "\<exists>g' b. fold_loop it ch g = Some (g', Inr b) \<and> wf_graph g' \<and> same_results sem g g'"
  using assms(1,2)
proof (induction "card (dom (nodes g))" arbitrary: g ch rule: less_induct)
  case less
  define ps where "ps = List.map_filter (fold_candidate g) (it g)"
  define r where "r = until_changed fold_pair ps g"
  note spec = fold_round_spec [OF less.prems(1), of ps, folded r_def]
  have loop: "fold_loop it ch g = (if snd r then fold_loop it True (fst r) else Some (fst r, Inr ch))"
    by (simp add: fold_loop.simps [of it ch g] Let_def ps_def [symmetric] r_def [symmetric])
  have res: "same_results sem g (fst r)"
    unfolding r_def fst_until_changed
  proof (rule fold_round_results [where sem = sem, OF less.prems(1)])
    fix p x assume "p \<in> set ps" and x: "nodes g (fst p) = Some x"
    then obtain i where "fold_candidate g i = Some p" by (auto simp: ps_def map_filter_def)
    from fold_candidate_reshape [OF less.prems(2) this x] show "n_op x = Reshape" .
  qed (rule law)
  show ?case
  proof (cases "snd r")
    case True
    from less.hyps [OF spec(2) [OF True] spec(1) no_transpose_chain_results [OF less.prems(2) res], of True]
    obtain g' b where "fold_loop it True (fst r) = Some (g', Inr b)" "wf_graph g'" "same_results sem (fst r) g'"
      by blast
    with True loop same_results_trans [OF res] show ?thesis by auto
  next
    case False
    with loop spec(1) res show ?thesis by simp
  qed
qed

text \<open>C31. Constant folding keeps what the graph computes: on a well-formed graph in which no transpose has a
  transpose as its only input, and for every meaning in which a reshape of a reshape is the outer reshape,
  the pass ends, whatever the iteration order of the hash table, with a well-formed graph in which every
  node has the value it had; the nodes without consumers, the results of the graph, are all still there.
  (For a chain of transposes it is wrong: see \<open>transpose_fold_changes_value\<close>.)\<close>

theorem reshape_fold_keeps_values:
  fixes sem :: "'v meaning"
  assumes "wf_graph g" "no_transpose_chain g"
    "\<And>e d e' d' xs. sem Reshape e d [sem Reshape e' d' xs] = sem Reshape e d xs"
  shows "\<exists>g' b. constant_fold it g = Some (g', Inr b) \<and> wf_graph g'
    \<and> (\<forall>j. nodes g' j \<noteq> None \<longrightarrow> nodes g j \<noteq> None \<and> node_value sem g' j = node_value sem g j)
    \<and> (\<forall>j n. nodes g j = Some n \<longrightarrow> n_outputs n = [] \<longrightarrow> nodes g' j \<noteq> None)"
proof -
  from fold_loop_results [OF assms(1,2), of sem it False] assms(3) obtain g' b where
    g': "fold_loop it False g = Some (g', Inr b)" "wf_graph g'" "same_results sem g g'" by blast
  note r = same_resultsD [OF g'(3)]
  have "nodes g j \<noteq> None \<and> node_value sem g' j = node_value sem g j" if "nodes g' j \<noteq> None" for j
    using that r(1,2) [of j] by (cases "nodes g' j") auto
  moreover have "nodes g' j \<noteq> None" if "nodes g j = Some n" "n_outputs n = []" for j n
    using r(3) [OF that] by auto
  ultimately show ?thesis using g'(1,2) by (auto simp: constant_fold_def)
qed

text \<open>Three reshapes in a row, of which the middle one is folded first and the pair behind it has become stale.\<close>

definition three_reshapes :: graph where
  "three_reshapes = built [Add_Node Custom [] f32 [], Add_Node Reshape [1] f32 [], Add_Node Reshape [2] f32 [],
     Add_Node Reshape [3] f32 [], Add_Node Transpose [4] f32 []]"

lemma three_reshapes_eq:
  "three_reshapes = \<lparr>next_id = 6, nodes = [1 \<mapsto> plain 1 Custom [] [2], 2 \<mapsto> plain 2 Reshape [1] [3],
     3 \<mapsto> plain 3 Reshape [2] [4], 4 \<mapsto> plain 4 Reshape [3] [5], 5 \<mapsto> plain 5 Transpose [4] []]\<rparr>"
proof (rule graph_eqI, goal_cases)
  case (2 j)
  show ?case by (simp add: three_reshapes_def build_simps plain_def)
qed (simp add: three_reshapes_def build_simps)

lemma three_reshapes_ok: "wf_graph three_reshapes" "no_transpose_chain three_reshapes"
proof -
  show "wf_graph three_reshapes"
    unfolding three_reshapes_def by (rule built_wf) (simp add: build_simps)
  show "no_transpose_chain three_reshapes"
    by (auto simp: no_transpose_chain_def three_reshapes_eq plain_def split: if_splits)
qed

lemma reshape_fold_keeps_values_witness:
  "\<exists>g' b. constant_fold ascending three_reshapes = Some (g', Inr b) \<and> wf_graph g'
    \<and> (\<forall>j. nodes g' j \<noteq> None \<longrightarrow> nodes three_reshapes j \<noteq> None
         \<and> node_value first_argument g' j = node_value first_argument three_reshapes j)
    \<and> (\<forall>j n. nodes three_reshapes j = Some n \<longrightarrow> n_outputs n = [] \<longrightarrow> nodes g' j \<noteq> None)"
  by (rule reshape_fold_keeps_values [OF three_reshapes_ok]) (simp add: first_argument_def split: list.split)

end
