(* ===== verification/Lowering.thy ===== *)
theory Lowering
  imports Graph_Order
begin

text \<open>
  Lowering to the pseudo-instructions of a backend (\<open>bin/compiler/ir/lowering.h\<close>,
  \<open>bin/compiler/ir/lowering.cpp\<close>): one line per node, in topological order.  Strings are their bytes;
  \<open>std::tolower\<close> is that of the C locale.
\<close>

subsection \<open>Backends\<close>

datatype backend = CPU | CUDA | ROCm

definition lower_char :: "char \<Rightarrow> char" where
  "lower_char c = (let k = of_char c in if 65 \<le> k \<and> k \<le> (90 :: nat) then char_of (k + 32) else c)"

definition backend_from_string :: "string \<Rightarrow> string + backend" where
  "backend_from_string s =
     (let l = map lower_char s in
      if l = ''cpu'' then Inr CPU
      else if l = ''cuda'' then Inr CUDA
      else if l = ''rocm'' then Inr ROCm
      else Inl (''unknown backend: '' @ s))"

fun backend_to_string :: "backend \<Rightarrow> string" where
  "backend_to_string CPU = ''cpu''"
| "backend_to_string CUDA = ''cuda''"
| "backend_to_string ROCm = ''rocm''"

lemma backend_roundtrip: "backend_from_string (backend_to_string b) = Inr b"
  by (cases b) (simp_all add: backend_from_string_def lower_char_def Let_def)

subsection \<open>Nodes\<close>

text \<open>The elements of a list with a separator between them.\<close>

fun separated :: "string \<Rightarrow> string list \<Rightarrow> string" where
  "separated sep [] = ''''"
| "separated sep [x] = x"
| "separated sep (x # xs) = x @ sep @ separated sep xs"

definition format_shape :: "int list \<Rightarrow> string" where
  "format_shape shape = ''['' @ separated '','' (map dec_int shape) @ '']''"

definition call :: "string \<Rightarrow> gnode \<Rightarrow> string" where
  "call name n = name @ ''(shape='' @ format_shape (td_shape (n_desc n)) @ '', dtype='' @ td_dtype (n_desc n) @ '')''"

definition custom_name :: "gnode \<Rightarrow> string" where
  "custom_name n = (case map_of (n_attrs n) ''fused_op'' of Some v \<Rightarrow> v | None \<Rightarrow> ''custom'')"

definition lower_node_cpu :: "gnode \<Rightarrow> string" where
  "lower_node_cpu n = call
     (case n_op n of
        MatMul \<Rightarrow> ''cpu_gemm''
      | Conv2d \<Rightarrow> ''cpu_conv2d_im2col''
      | ReLU \<Rightarrow> ''cpu_relu_vectorized''
      | Add \<Rightarrow> ''cpu_elementwise_add''
      | Softmax \<Rightarrow> ''cpu_softmax_stable''
      | LayerNorm \<Rightarrow> ''cpu_layernorm''
      | Gather \<Rightarrow> ''cpu_gather''
      | Reshape \<Rightarrow> ''cpu_reshape''
      | Transpose \<Rightarrow> ''cpu_transpose''
      | Custom \<Rightarrow> ''cpu_'' @ custom_name n) n"

definition lower_node_cuda :: "gnode \<Rightarrow> string" where
  "lower_node_cuda n = call
     (case n_op n of
        MatMul \<Rightarrow> ''cuda_cublas_gemm''
      | Conv2d \<Rightarrow> ''cuda_cudnn_conv2d''
      | ReLU \<Rightarrow> ''cuda_relu_kernel<<<grid,block>>>''
      | Add \<Rightarrow> ''cuda_add_kernel<<<grid,block>>>''
      | Softmax \<Rightarrow> ''cuda_softmax_kernel<<<grid,block>>>''
      | LayerNorm \<Rightarrow> ''cuda_layernorm_kernel<<<grid,block>>>''
      | Gather \<Rightarrow> ''cuda_gather_kernel<<<grid,block>>>''
      | Reshape \<Rightarrow> ''cuda_reshape_view''
      | Transpose \<Rightarrow> ''cuda_transpose_kernel<<<grid,block>>>''
      | Custom \<Rightarrow> ''cuda_'' @ custom_name n @ ''_kernel<<<grid,block>>>'') n"

definition lower_node_rocm :: "gnode \<Rightarrow> string" where
  "lower_node_rocm n = call
     (case n_op n of
        MatMul \<Rightarrow> ''rocm_rocblas_gemm''
      | Conv2d \<Rightarrow> ''rocm_miopen_conv2d''
      | ReLU \<Rightarrow> ''rocm_relu_hip_kernel''
      | Add \<Rightarrow> ''rocm_add_hip_kernel''
      | Softmax \<Rightarrow> ''rocm_softmax_hip_kernel''
      | LayerNorm \<Rightarrow> ''rocm_layernorm_hip_kernel''
      | Gather \<Rightarrow> ''rocm_gather_hip_kernel''
      | Reshape \<Rightarrow> ''rocm_reshape_view''
      | Transpose \<Rightarrow> ''rocm_transpose_hip_kernel''
      | Custom \<Rightarrow> ''rocm_'' @ custom_name n @ ''_hip_kernel'') n"

subsection \<open>Graphs\<close>

definition lower_line :: "backend \<Rightarrow> nat \<Rightarrow> gnode \<Rightarrow> string" where
  "lower_line b i n =
     ''%'' @ dec_nat i @ '' = ''
     @ (case b of CPU \<Rightarrow> lower_node_cpu n | CUDA \<Rightarrow> lower_node_cuda n | ROCm \<Rightarrow> lower_node_rocm n)
     @ (if n_inputs n \<noteq> []
        then ''  ; inputs: '' @ separated '', '' (map (\<lambda>j. ''%'' @ dec_nat j) (n_inputs n)) else '''')
     @ [CHR 0x0A]"

fun lower_nodes :: "backend \<Rightarrow> graph \<Rightarrow> nat list \<Rightarrow> string \<Rightarrow> string + string" where
  "lower_nodes b g [] ir = Inr ir"
| "lower_nodes b g (i # is) ir =
     (case get_node i g of
        Inl _ \<Rightarrow> Inl (''node '' @ dec_nat i @ '' missing during lowering'')
      | Inr n \<Rightarrow> lower_nodes b g is (ir @ lower_line b i n))"

text \<open>The second line of the header starts with the three bytes of a dash.\<close>

definition lower_header :: "backend \<Rightarrow> graph \<Rightarrow> string" where
  "lower_header b g =
     ''; StrayLight Compiler '' @ [CHR 0xE2, CHR 0x80, CHR 0x94] @ '' lowered IR for '' @ backend_to_string b
     @ [CHR 0x0A] @ ''; nodes: '' @ dec_nat (node_count g) @ [CHR 0x0A, CHR 0x0A]"

definition lower :: "nat list \<Rightarrow> graph \<Rightarrow> backend \<Rightarrow> (string + string) option" where
  "lower ids g b = map_option
     (\<lambda>order. if length order \<noteq> node_count g then Inl ''graph has cycles; cannot lower''
              else lower_nodes b g order (lower_header b g))
     (topological_order ids g)"

subsection \<open>Properties\<close>

lemma lower_nodes_total:
  assumes "\<And>i. i \<in> set is \<Longrightarrow> nodes g i \<noteq> None"
  shows "lower_nodes b g is ir = Inr (ir @ concat (map (\<lambda>i. lower_line b i (the (nodes g i))) is))"
  using assms by (induction "is" arbitrary: ir) (auto simp: get_node_def split: option.split)

text \<open>Lowering succeeds on every well-formed graph, for every backend: the header, then one line per node,
  in an order in which every operand is defined on an earlier line than it is used.\<close>

theorem lower_total:
  assumes "wf_graph g" "iterates ids g"
  shows "\<exists>order. lower ids g b
      = Some (Inr (lower_header b g @ concat (map (\<lambda>i. lower_line b i (the (nodes g i))) order)))
    \<and> distinct order \<and> set order = dom (nodes g)
    \<and> (\<forall>k < length order. \<forall>n. nodes g (order ! k) = Some n \<longrightarrow> set (n_inputs n) \<subseteq> set (take k order))"
proof -
  obtain order where o: "topological_order ids g = Some order" "topological g order"
    using topological_order_total [OF assms] by blast
  have "lower_nodes b g order (lower_header b g)
      = Inr (lower_header b g @ concat (map (\<lambda>i. lower_line b i (the (nodes g i))) order))"
    using o(2) by (intro lower_nodes_total) (auto simp: topological_def)
  then show ?thesis
    using o topological_length [OF o(2)] topological_nth [OF o(2)]
    by (auto simp: lower_def topological_def)
qed

lemma lower_total_witness:
  "\<exists>order. lower [4, 2, 1, 3] demo_graph CUDA = Some (Inr (lower_header CUDA demo_graph
        @ concat (map (\<lambda>i. lower_line CUDA i (the (nodes demo_graph i))) order)))
    \<and> distinct order \<and> set order = dom (nodes demo_graph)
    \<and> (\<forall>k < length order. \<forall>n. nodes demo_graph (order ! k) = Some n \<longrightarrow> set (n_inputs n) \<subseteq> set (take k order))"
  using demo_graph_wf demo_iterates by (rule lower_total)

end
