(* ===== verification/Memory.thy ===== *)
theory Memory
  imports Bytes
begin

text \<open>
  A mapped region as a list of bytes: little-endian fields and ranges of bytes in it.  An access outside
  the region is \<open>None\<close>.
\<close>

subsection \<open>Fields\<close>

definition read_field :: "nat \<Rightarrow> nat \<Rightarrow> u8 list \<Rightarrow> nat option" where
  "read_field off n mem = (if off + n \<le> length mem then Some (le_value (slice_of off n mem)) else None)"

definition write_bytes :: "nat \<Rightarrow> u8 list \<Rightarrow> u8 list \<Rightarrow> u8 list option" where
  "write_bytes off bs mem =
     (if off + length bs \<le> length mem then Some (take off mem @ bs @ drop (off + length bs) mem) else None)"

subsection \<open>Lemmas\<close>

lemma write_bytes_inside:
  assumes "off + length bs \<le> length m"
  obtains m' where "write_bytes off bs m = Some m'" "length m' = length m"
    "\<And>k. k < length m \<Longrightarrow> m' ! k = (if off \<le> k \<and> k < off + length bs then bs ! (k - off) else m ! k)"
proof (rule that [of "take off m @ bs @ drop (off + length bs) m"])
  show "(take off m @ bs @ drop (off + length bs) m) ! k
      = (if off \<le> k \<and> k < off + length bs then bs ! (k - off) else m ! k)" if "k < length m" for k
    using assms that by (auto simp: nth_append min_def)
qed (use assms in \<open>simp_all add: write_bytes_def\<close>)

lemma slice_cong:
  assumes "length m' = length m" "off + n \<le> length m" "\<And>k. off \<le> k \<Longrightarrow> k < off + n \<Longrightarrow> m' ! k = m ! k"
  shows "slice_of off n m' = slice_of off n m"
  using assms by (intro nth_equalityI) simp_all

lemma slice_written:
  assumes "length m' = length m" "off + length bs \<le> length m"
    "\<And>k. k < length m \<Longrightarrow> m' ! k = (if off \<le> k \<and> k < off + length bs then bs ! (k - off) else m ! k)"
  shows "slice_of off (length bs) m' = bs"
  using assms by (intro nth_equalityI) simp_all

lemma slice_slice: "a + k \<le> n \<Longrightarrow> slice_of a k (slice_of off n m) = slice_of (off + a) k m"
  by (simp add: slice_of_def drop_take min_def add.commute)

lemma write_bytes_ex:
  assumes "off + length bs \<le> length m"
  shows "\<exists>m'. write_bytes off bs m = Some m' \<and> length m' = length m
    \<and> (\<forall>k<length m. m' ! k = (if off \<le> k \<and> k < off + length bs then bs ! (k - off) else m ! k))"
  by (rule write_bytes_inside [OF assms]) blast

end
