(* ===== verification/Pmem_Log.thy ===== *)
theory Pmem_Log
  imports Memory Decimal
begin

unbundle bit_operations_syntax

text \<open>
  The write-ahead log on persistent memory (\<open>bin/pmem/log.h\<close>, \<open>bin/pmem/log.cpp\<close>).  The mapping is a list
  of bytes; an access outside it is \<open>None\<close>.  The mapping is shared with the file, so that \<open>msync\<close> makes
  durable what the memory already holds: the durable images an \<open>append\<close> goes through are the memories at
  its two flushes and, as the system may write a mapped page back at any time, those after each of its
  stores.  A mapping is far shorter than \<open>2 ^ 64\<close> bytes; only sums with fields read from the file
  can wrap.
\<close>

subsection \<open>The checksum\<close>

definition crc_shift :: "u32 \<Rightarrow> u32" where
  "crc_shift c = (if c AND 1 = 1 then 0xEDB88320 XOR drop_bit 1 c else drop_bit 1 c)"

definition crc_table :: "u32 \<Rightarrow> u32" where
  "crc_table i = (crc_shift ^^ 8) i"

definition crc_byte :: "u32 \<Rightarrow> u8 \<Rightarrow> u32" where
  "crc_byte crc b = crc_table ((crc XOR ucast b) AND 0xFF) XOR drop_bit 8 crc"

definition crc32 :: "u8 list \<Rightarrow> u32" where
  "crc32 data = foldl crc_byte 0xFFFFFFFF data XOR 0xFFFFFFFF"

subsection \<open>The log\<close>

record wal =
  mem :: "u8 list"
  wal_capacity :: nat
  next_lsn :: nat
  write_offset :: nat

record log_entry =
  le_lsn :: nat
  le_committed :: bool
  le_data :: "u8 list"

definition WAL_MAGIC :: nat where "WAL_MAGIC = 0x53544C57414C0001"
definition WAL_VERSION :: nat where "WAL_VERSION = 1"
definition WAL_HEADER :: nat where "WAL_HEADER = 40"
definition ENTRY_HEADER :: nat where "ENTRY_HEADER = 24"

definition wal_header :: "nat \<Rightarrow> nat \<Rightarrow> nat \<Rightarrow> u8 list" where
  "wal_header lsn off cap =
     le_bytes 8 WAL_MAGIC @ le_bytes 8 WAL_VERSION @ le_bytes 8 lsn @ le_bytes 8 off @ le_bytes 8 cap"

definition entry_header :: "nat \<Rightarrow> nat \<Rightarrow> nat \<Rightarrow> u32 \<Rightarrow> u8 list" where
  "entry_header lsn len flags crc =
     le_bytes 8 lsn @ le_bytes 4 len @ le_bytes 4 flags @ le_bytes 4 (unat crc) @ le_bytes 4 0"

text \<open>Rounding up to a multiple of 8.\<close>

definition align8 :: "nat \<Rightarrow> nat" where
  "align8 n = (n + 7) div 8 * 8"

text \<open>
  \<open>init\<close>: \<open>failed\<close> is the message of the first system call that fails, if one does; \<open>file\<close> is what the file
  holds.  The file grows to the capacity, and the capacity is what is mapped of it.
\<close>

definition wal_init :: "string option \<Rightarrow> nat \<Rightarrow> u8 list \<Rightarrow> string + wal" where
  "wal_init failed capacity file =
     (if capacity < WAL_HEADER + ENTRY_HEADER + 64 then Inl ''WAL capacity too small''
      else case failed of Some msg \<Rightarrow> Inl msg
      | None \<Rightarrow>
        (let is_new = length file < WAL_HEADER;
             m = take capacity (file @ replicate (capacity - length file) 0);
             m = (if is_new \<or> le_value (slice_of 0 8 m) \<noteq> WAL_MAGIC
                  then wal_header 1 WAL_HEADER capacity @ replicate (capacity - WAL_HEADER) 0 else m)
         in Inr \<lparr>mem = m, wal_capacity = capacity, next_lsn = le_value (slice_of 16 8 m),
                 write_offset = le_value (slice_of 24 8 m)\<rparr>))"

text \<open>
  \<open>append\<close>, with the memory at its first flush, after the store of the next LSN in the header and after the
  store of the write offset, which the second flush makes durable.
\<close>

definition append_images :: "u8 list \<Rightarrow> wal \<Rightarrow> (string + (u8 list \<times> u8 list \<times> wal \<times> nat)) option" where
  "append_images data w =
     (if data = [] then Some (Inl ''Cannot append zero-length entry'')
      else let len = length data; aligned = align8 (ENTRY_HEADER + len) in
      if size_t (write_offset w + aligned) > wal_capacity w
      then Some (Inl (''WAL full: need '' @ dec_nat aligned @ '' bytes, have ''
        @ dec_nat (size_t (wal_capacity w + 2 ^ 64 - write_offset w))))
      else do {
        let lsn = next_lsn w;
        m \<leftarrow> write_bytes (write_offset w) (entry_header lsn (len mod 2 ^ 32) 0 (crc32 data) @ data) (mem w);
        let w = w\<lparr>mem := m, next_lsn := size_t (lsn + 1), write_offset := size_t (write_offset w + aligned)\<rparr>;
        m1 \<leftarrow> write_bytes 16 (le_bytes 8 (next_lsn w)) m;
        m2 \<leftarrow> write_bytes 24 (le_bytes 8 (write_offset w)) m1;
        Some (Inr (m, m1, w\<lparr>mem := m2\<rparr>, lsn)) })"

definition append_entry :: "u8 list \<Rightarrow> wal \<Rightarrow> (wal \<times> (string + nat)) option" where
  "append_entry data w = map_option
     (\<lambda>r. case r of Inl e \<Rightarrow> (w, Inl e) | Inr (_, _, w', lsn) \<Rightarrow> (w', Inr lsn)) (append_images data w)"

text \<open>The scan of \<open>commit\<close>: the offset of the entry with an LSN.\<close>

function find_entry :: "nat \<Rightarrow> u8 list \<Rightarrow> nat \<Rightarrow> nat \<Rightarrow> nat option option" where
  "find_entry lsn m stop off =
     (if off + ENTRY_HEADER \<le> stop then do {
        l \<leftarrow> read_field off 8 m;
        n \<leftarrow> read_field (off + 8) 4 m;
        if l = lsn then Some (Some off) else find_entry lsn m stop (off + align8 (ENTRY_HEADER + n)) }
      else Some None)"
  by pat_completeness auto
termination
  by (relation "measure (\<lambda>(_, _, stop, off). stop - off)") (auto simp: ENTRY_HEADER_def align8_def)

declare find_entry.simps [simp del]

definition commit :: "nat \<Rightarrow> wal \<Rightarrow> (wal \<times> (string + unit)) option" where
  "commit lsn w = do {
     found \<leftarrow> find_entry lsn (mem w) (write_offset w) WAL_HEADER;
     case found of
       None \<Rightarrow> Some (w, Inl (''LSN '' @ dec_nat lsn @ '' not found in WAL''))
     | Some off \<Rightarrow> do {
         flags \<leftarrow> read_field (off + 12) 4 (mem w);
         m \<leftarrow> write_bytes (off + 12) (le_bytes 4 (flags OR 1)) (mem w);
         Some (w\<lparr>mem := m\<rparr>, Inr ()) } }"

function recover_from :: "nat \<Rightarrow> u8 list \<Rightarrow> nat \<Rightarrow> nat \<Rightarrow> log_entry list option" where
  "recover_from capacity m stop off =
     (if off + ENTRY_HEADER \<le> stop then do {
        lsn \<leftarrow> read_field off 8 m;
        n \<leftarrow> read_field (off + 8) 4 m;
        flags \<leftarrow> read_field (off + 12) 4 m;
        crc \<leftarrow> read_field (off + 16) 4 m;
        if off + (ENTRY_HEADER + n) > capacity then Some []
        else if off + (ENTRY_HEADER + n) > length m then None
        else do {
          let data = slice_of (off + ENTRY_HEADER) n m;
          rest \<leftarrow> recover_from capacity m stop (off + align8 (ENTRY_HEADER + n));
          Some (if unat (crc32 data) = crc
                then \<lparr>le_lsn = lsn, le_committed = (flags AND 1 \<noteq> 0), le_data = data\<rparr> # rest else rest) } }
      else Some [])"
  by pat_completeness auto
termination
  by (relation "measure (\<lambda>(_, _, stop, off). stop - off)") (auto simp: ENTRY_HEADER_def align8_def)

declare recover_from.simps [simp del]

definition recover :: "wal \<Rightarrow> log_entry list option" where
  "recover w = recover_from (wal_capacity w) (mem w) (write_offset w) WAL_HEADER"

subsection \<open>The table-driven checksum is the bitwise one\<close>

lemma crc_shift_alt: "crc_shift c = drop_bit 1 c XOR (if bit c 0 then 0xEDB88320 else 0)"
  by (auto simp: crc_shift_def bit_0 and_one_eq xor.commute odd_iff_mod_2_eq_one)

lemma crc_shift_xor: "crc_shift (a XOR b) = crc_shift a XOR crc_shift b"
  by (auto simp: crc_shift_alt bit_xor_iff drop_bit_xor xor.assoc xor.left_commute xor.commute)

lemma crc_shifts_xor: "(crc_shift ^^ k) (a XOR b) = (crc_shift ^^ k) a XOR (crc_shift ^^ k) b"
  by (induction k) (simp_all add: crc_shift_xor)

lemma crc_shifts_zero: "(\<And>i. i < k \<Longrightarrow> \<not> bit c i) \<Longrightarrow> (crc_shift ^^ k) c = drop_bit k c"
proof (induction k)
  case (Suc k)
  then have "(crc_shift ^^ k) c = drop_bit k c" "\<not> bit (drop_bit k c) 0" by (simp_all add: bit_drop_bit_eq)
  then have "(crc_shift ^^ Suc k) c = crc_shift (drop_bit k c)" by simp
  also have "\<dots> = drop_bit (Suc k) c" using \<open>\<not> bit (drop_bit k c) 0\<close> by (simp add: crc_shift_alt)
  finally show ?case .
qed simp

lemma crc_byte_bitwise: "crc_byte crc b = (crc_shift ^^ 8) (crc XOR ucast b)"
proof -
  define x where "x = crc XOR ucast b"
  have m: "(0xFF :: u32) = mask 8" by (simp add: mask_eq_exp_minus_1)
  have x: "x = (x AND mask 8) XOR (x AND NOT (mask 8))"
    by (rule bit_word_eqI) (auto simp: bit_simps)
  have low: "\<not> bit (x AND NOT (mask 8)) i" if "i < 8" for i
    using that by (simp add: bit_and_iff bit_not_iff bit_mask_iff del: mask_numeral)
  have high: "drop_bit 8 (x AND NOT (mask 8)) = drop_bit 8 crc"
    by (rule bit_word_eqI) (auto simp: x_def bit_simps dest: bit_imp_le_length)
  have "(crc_shift ^^ 8) x = (crc_shift ^^ 8) (x AND mask 8) XOR (crc_shift ^^ 8) (x AND NOT (mask 8))"
    by (subst x) (rule crc_shifts_xor)
  also have "(crc_shift ^^ 8) (x AND NOT (mask 8)) = drop_bit 8 crc"
    using crc_shifts_zero [OF low] high by simp
  finally show ?thesis unfolding crc_byte_def crc_table_def x_def m by (rule sym)
qed

text \<open>The checksum is the reflected CRC-32: the table-driven routine computes what shifting the message bit
  by bit through the register of the polynomial does.\<close>

theorem crc32_bitwise:
  "crc32 data = foldl (\<lambda>crc b. (crc_shift ^^ 8) (crc XOR ucast b)) 0xFFFFFFFF data XOR 0xFFFFFFFF"
proof -
  have "crc_byte = (\<lambda>crc b. (crc_shift ^^ 8) (crc XOR ucast b))"
    by (intro ext) (rule crc_byte_bitwise)
  then show ?thesis by (simp add: crc32_def)
qed

subsection \<open>The layout\<close>

definition entry_bytes :: "log_entry \<Rightarrow> u8 list" where
  "entry_bytes e = entry_header (le_lsn e) (length (le_data e)) (if le_committed e then 1 else 0)
     (crc32 (le_data e)) @ le_data e"

definition entry_span :: "log_entry \<Rightarrow> nat" where
  "entry_span e = align8 (ENTRY_HEADER + length (le_data e))"

definition entry_fits :: "log_entry \<Rightarrow> bool" where
  "entry_fits e \<longleftrightarrow> le_lsn e < 2 ^ 64 \<and> le_data e \<noteq> [] \<and> length (le_data e) < 2 ^ 32"

fun laid_out :: "u8 list \<Rightarrow> nat \<Rightarrow> log_entry list \<Rightarrow> nat \<Rightarrow> bool" where
  "laid_out m off [] stop \<longleftrightarrow> off = stop"
| "laid_out m off (e # es) stop \<longleftrightarrow>
     entry_fits e \<and> slice_of off (ENTRY_HEADER + length (le_data e)) m = entry_bytes e
     \<and> laid_out m (off + entry_span e) es stop"

lemma length_entry_bytes [simp]: "length (entry_bytes e) = ENTRY_HEADER + length (le_data e)"
  by (simp add: entry_bytes_def entry_header_def ENTRY_HEADER_def)

lemma entry_span_ge: "ENTRY_HEADER + length (le_data e) \<le> entry_span e"
  by (simp add: entry_span_def align8_def)

lemma laid_out_stop: "laid_out m off es stop \<Longrightarrow> stop = off + sum_list (map entry_span es)"
proof (induction es arbitrary: off)
  case (Cons e es)
  from Cons.prems Cons.IH [of "off + entry_span e"] show ?case by simp
qed simp

lemma laid_out_append:
  "laid_out m off (es @ fs) stop \<longleftrightarrow> (\<exists>mid. laid_out m off es mid \<and> laid_out m mid fs stop)"
  by (induction es arbitrary: off) auto

lemma laid_out_cong:
  assumes "laid_out m off es stop" "length m' = length m" "stop \<le> length m"
    "\<And>k. off \<le> k \<Longrightarrow> k < stop \<Longrightarrow> m' ! k = m ! k"
  shows "laid_out m' off es stop"
  using assms(1,4)
proof (induction es arbitrary: off)
  case (Cons e es)
  have s: "off + entry_span e \<le> stop" using laid_out_stop [OF Cons.prems(1)] by simp
  have "slice_of off (ENTRY_HEADER + length (le_data e)) m' = slice_of off (ENTRY_HEADER + length (le_data e)) m"
    using entry_span_ge [of e] s assms(2,3) Cons.prems(2) by (intro slice_cong) auto
  moreover have "laid_out m' (off + entry_span e) es stop"
    using Cons.prems by (intro Cons.IH) auto
  ultimately show ?case using Cons.prems(1) by simp
qed simp

text \<open>The fields the scans read.\<close>

lemma entry_fields:
  assumes "slice_of off (ENTRY_HEADER + length (le_data e)) m = entry_bytes e" "entry_fits e"
  shows "off + (ENTRY_HEADER + length (le_data e)) \<le> length m" "read_field off 8 m = Some (le_lsn e)"
    "read_field (off + 8) 4 m = Some (length (le_data e))"
    "read_field (off + 12) 4 m = Some (if le_committed e then 1 else 0)"
    "read_field (off + 16) 4 m = Some (unat (crc32 (le_data e)))"
    "slice_of (off + ENTRY_HEADER) (length (le_data e)) m = le_data e"
proof -
  let ?n = "ENTRY_HEADER + length (le_data e)"
  have "length (slice_of off ?n m) = ?n" by (simp add: assms(1))
  moreover have "0 < ?n" by (simp add: ENTRY_HEADER_def)
  ultimately show len: "off + ?n \<le> length m" unfolding length_slice_of by linarith
  have sl: "slice_of (off + a) k m = slice_of a k (entry_bytes e)" if "a + k \<le> ?n" for a k
    using slice_slice [OF that, of off m] assms(1) by simp
  have crc: "unat (crc32 (le_data e)) < 256 ^ 4"
    by (rule order_less_le_trans [OF unsigned_less]) simp
  have f: "le_lsn e < 256 ^ 8" "length (le_data e) < 256 ^ 4" using assms(2) by (simp_all add: entry_fits_def)
  have rd: "read_field (off + a) k m = Some (le_value (slice_of a k (entry_bytes e)))" if "a + k \<le> ?n" for a k
    using that len sl [OF that] by (simp add: read_field_def)
  show "read_field off 8 m = Some (le_lsn e)"
    using rd [of 0 8] f by (simp add: ENTRY_HEADER_def entry_bytes_def entry_header_def slice_of_def)
  show "read_field (off + 8) 4 m = Some (length (le_data e))"
    using rd [of 8 4] f by (simp add: ENTRY_HEADER_def entry_bytes_def entry_header_def slice_of_def)
  show "read_field (off + 12) 4 m = Some (if le_committed e then 1 else 0)"
    using rd [of 12 4] by (simp add: ENTRY_HEADER_def entry_bytes_def entry_header_def slice_of_def)
  show "read_field (off + 16) 4 m = Some (unat (crc32 (le_data e)))"
    using rd [of 16 4] crc by (simp add: ENTRY_HEADER_def entry_bytes_def entry_header_def slice_of_def)
  show "slice_of (off + ENTRY_HEADER) (length (le_data e)) m = le_data e"
    using sl [of ENTRY_HEADER "length (le_data e)"]
    by (simp add: ENTRY_HEADER_def entry_bytes_def entry_header_def slice_of_def)
qed

lemma recover_laid_out:
  assumes "laid_out m off es stop" "stop \<le> cap" "cap = length m"
  shows "recover_from cap m stop off = Some es"
  using assms(1)
proof (induction es arbitrary: off)
  case Nil
  then show ?case by (simp add: recover_from.simps ENTRY_HEADER_def)
next
  case (Cons e es)
  then have e: "slice_of off (ENTRY_HEADER + length (le_data e)) m = entry_bytes e" "entry_fits e" by simp_all
  note f = entry_fields [OF e]
  have s: "off + entry_span e \<le> stop" using laid_out_stop [OF Cons.prems] by simp
  have "recover_from cap m stop (off + entry_span e) = Some es" using Cons by simp
  then show ?case
    using f s entry_span_ge [of e] assms(3)
    by (subst recover_from.simps) (auto simp: Let_def entry_span_def)
qed

subsection \<open>Well-formed logs\<close>

text \<open>The header in the mapping agrees with the object, and the entries fill it up to the write offset.\<close>

definition header_ok :: "u8 list \<Rightarrow> nat \<Rightarrow> nat \<Rightarrow> bool" where
  "header_ok m lsn off \<longleftrightarrow>
     le_value (slice_of 0 8 m) = WAL_MAGIC \<and> le_value (slice_of 16 8 m) = lsn
     \<and> le_value (slice_of 24 8 m) = off"

definition wal_ok :: "wal \<Rightarrow> log_entry list \<Rightarrow> bool" where
  "wal_ok w es \<longleftrightarrow>
     length (mem w) = wal_capacity w \<and> wal_capacity w < 2 ^ 62
     \<and> WAL_HEADER + ENTRY_HEADER + 64 \<le> wal_capacity w
     \<and> write_offset w \<le> wal_capacity w \<and> laid_out (mem w) WAL_HEADER es (write_offset w)
     \<and> header_ok (mem w) (next_lsn w) (write_offset w)
     \<and> map le_lsn es = [1..<next_lsn w] \<and> next_lsn w = length es + 1"

lemma wal_ok_recover: "wal_ok w es \<Longrightarrow> recover w = Some es"
  by (simp add: wal_ok_def recover_def recover_laid_out)

lemma header_ok_cong:
  assumes "header_ok m lsn off" "length m' = length m" "WAL_HEADER \<le> length m"
    "\<And>k. k < WAL_HEADER \<Longrightarrow> m' ! k = m ! k"
  shows "header_ok m' lsn off"
proof -
  have "slice_of a 8 m' = slice_of a 8 m" if "a + 8 \<le> WAL_HEADER" for a
    using assms(2-4) that by (intro slice_cong) auto
  then show ?thesis using assms(1) by (simp add: header_ok_def WAL_HEADER_def)
qed

text \<open>Opening the file of a log again gives the log.\<close>

lemma reopen:
  assumes "wal_ok w es"
  shows "wal_init None (wal_capacity w) (mem w) = Inr w"
  using assms
  by (cases w) (auto simp: wal_init_def wal_ok_def header_ok_def Let_def WAL_HEADER_def ENTRY_HEADER_def)

text \<open>So does opening it with a larger capacity: the file grows behind the entries.\<close>

lemma slice_extended: "off + n \<le> length m \<Longrightarrow> slice_of off n (m @ z) = slice_of off n m"
  by (simp add: slice_of_def)

lemma laid_out_extended: "laid_out m off es stop \<Longrightarrow> stop \<le> length m \<Longrightarrow> laid_out (m @ z) off es stop"
proof (induction es arbitrary: off)
  case (Cons e es)
  have "off + entry_span e \<le> stop" using laid_out_stop [OF Cons.prems(1)] by simp
  with Cons entry_span_ge [of e] show ?case by (simp add: slice_extended)
qed simp

lemma reopen_larger:
  assumes "wal_ok w es" "wal_capacity w \<le> cap" "cap < 2 ^ 62"
  shows "\<exists>w'. wal_init None cap (mem w) = Inr w' \<and> wal_ok w' es \<and> wal_capacity w' = cap"
proof -
  note ok = assms(1) [unfolded wal_ok_def]
  let ?m = "mem w @ replicate (cap - length (mem w)) 0"
  let ?w = "\<lparr>mem = ?m, wal_capacity = cap, next_lsn = next_lsn w, write_offset = write_offset w\<rparr>"
  have len: "length ?m = cap" using ok assms(2) by simp
  have h: "header_ok ?m (next_lsn w) (write_offset w)"
    using ok by (simp add: header_ok_def slice_extended WAL_HEADER_def)
  then have "wal_init None cap (mem w) = Inr ?w"
    using ok assms(2) len by (simp add: wal_init_def header_ok_def Let_def WAL_HEADER_def)
  moreover have "laid_out ?m WAL_HEADER es (write_offset w)" using ok by (simp add: laid_out_extended)
  then have "wal_ok ?w es" using ok h len assms(2,3) by (simp add: wal_ok_def)
  ultimately show ?thesis by (intro exI [of _ ?w]) simp
qed

text \<open>A new file becomes an empty log.\<close>

lemma new_log_ok:
  assumes "WAL_HEADER + ENTRY_HEADER + 64 \<le> cap" "cap < 2 ^ 62"
  shows "\<exists>w. wal_init None cap [] = Inr w \<and> wal_capacity w = cap \<and> wal_ok w []"
proof -
  let ?m = "wal_header 1 WAL_HEADER cap @ replicate (cap - WAL_HEADER) 0"
  have h: "header_ok ?m 1 WAL_HEADER"
    by (simp add: header_ok_def wal_header_def slice_of_def WAL_MAGIC_def WAL_HEADER_def)
  let ?w = "\<lparr>mem = ?m, wal_capacity = cap, next_lsn = 1, write_offset = WAL_HEADER\<rparr>"
  have "wal_init None cap [] = Inr ?w"
    using assms h by (simp add: wal_init_def header_ok_def Let_def) (simp add: WAL_HEADER_def)
  moreover have "wal_ok ?w []"
    using assms h by (simp add: wal_ok_def) (simp add: wal_header_def WAL_HEADER_def)
  ultimately show ?thesis by (intro exI [of _ ?w]) simp
qed

subsection \<open>Append\<close>

definition fits_log :: "wal \<Rightarrow> u8 list \<Rightarrow> bool" where
  "fits_log w data \<longleftrightarrow> data \<noteq> [] \<and> write_offset w + align8 (ENTRY_HEADER + length data) \<le> wal_capacity w"

definition new_entry :: "wal \<Rightarrow> u8 list \<Rightarrow> log_entry" where
  "new_entry w data = \<lparr>le_lsn = next_lsn w, le_committed = False, le_data = data\<rparr>"

lemma wal_ok_bounds:
  assumes "wal_ok w es"
  shows "WAL_HEADER \<le> write_offset w" "next_lsn w < 2 ^ 62"
proof -
  have s: "write_offset w = WAL_HEADER + sum_list (map entry_span es)"
    using assms laid_out_stop by (auto simp: wal_ok_def)
  have "length es \<le> sum_list (map entry_span es)"
  proof (induction es)
    case (Cons e es)
    have "1 \<le> entry_span e" using entry_span_ge [of e] by (simp add: ENTRY_HEADER_def)
    with Cons show ?case by simp
  qed simp
  with s assms show "WAL_HEADER \<le> write_offset w" "next_lsn w < 2 ^ 62"
    by (simp_all add: wal_ok_def WAL_HEADER_def)
qed

lemma append_full:
  assumes "wal_ok w es" "\<not> fits_log w data" "length data < 2 ^ 32"
  shows "\<exists>e. append_images data w = Some (Inl e)"
proof -
  have "align8 n \<le> n + 7" for n by (simp add: align8_def)
  from this [of "ENTRY_HEADER + length data"]
  have "write_offset w + align8 (ENTRY_HEADER + length data) < 2 ^ 64"
    using assms(1,3) by (simp add: wal_ok_def ENTRY_HEADER_def)
  then show ?thesis using assms(2) by (auto simp: append_images_def fits_log_def Let_def)
qed

text \<open>The header: its magic number, its fields and what a store to one of them leaves.\<close>

lemma header_stored:
  assumes "header_ok m lsn off" "WAL_HEADER \<le> length m"
  shows "l < 2 ^ 64 \<Longrightarrow> \<exists>m'. write_bytes 16 (le_bytes 8 l) m = Some m' \<and> length m' = length m
      \<and> header_ok m' l off \<and> (\<forall>k\<ge>WAL_HEADER. m' ! k = m ! k)"
    and "p < 2 ^ 64 \<Longrightarrow> \<exists>m'. write_bytes 24 (le_bytes 8 p) m = Some m' \<and> length m' = length m
      \<and> header_ok m' lsn p \<and> (\<forall>k\<ge>WAL_HEADER. m' ! k = m ! k)"
proof -
  have "\<exists>m'. write_bytes a (le_bytes 8 v) m = Some m' \<and> length m' = length m
      \<and> slice_of a 8 m' = le_bytes 8 v \<and> (\<forall>b. b + 8 \<le> a \<or> a + 8 \<le> b \<and> b + 8 \<le> WAL_HEADER \<longrightarrow>
          slice_of b 8 m' = slice_of b 8 m) \<and> (\<forall>k\<ge>WAL_HEADER. m' ! k = m ! k)"
    if "a + 8 \<le> WAL_HEADER" for a v
  proof -
    let ?m = "take a m @ le_bytes 8 v @ drop (a + 8) m"
    have w: "write_bytes a (le_bytes 8 v) m = Some ?m" and len: "length ?m = length m"
      using that assms(2) by (simp_all add: write_bytes_def)
    have at: "?m ! k = (if a \<le> k \<and> k < a + 8 then le_bytes 8 v ! (k - a) else m ! k)" for k
      using that assms(2) by (auto simp: nth_append min_def)
    have "slice_of a (length (le_bytes 8 v)) ?m = le_bytes 8 v"
      by (rule slice_written [OF len]) (use that assms(2) at in simp_all)
    moreover have "slice_of b 8 ?m = slice_of b 8 m" if "b + 8 \<le> a \<or> a + 8 \<le> b \<and> b + 8 \<le> WAL_HEADER" for b
      by (rule slice_cong [OF len]) (use that \<open>a + 8 \<le> WAL_HEADER\<close> assms(2) at in auto)
    moreover have "?m ! k = m ! k" if "WAL_HEADER \<le> k" for k using that \<open>a + 8 \<le> WAL_HEADER\<close> at by auto
    ultimately show ?thesis using w len by (intro exI [of _ ?m]) simp
  qed
  note st = this [of 16] this [of 24]
  show "l < 2 ^ 64 \<Longrightarrow> \<exists>m'. write_bytes 16 (le_bytes 8 l) m = Some m' \<and> length m' = length m
      \<and> header_ok m' l off \<and> (\<forall>k\<ge>WAL_HEADER. m' ! k = m ! k)"
    using st(1) [of l] assms(1) by (fastforce simp: header_ok_def WAL_HEADER_def)
  show "p < 2 ^ 64 \<Longrightarrow> \<exists>m'. write_bytes 24 (le_bytes 8 p) m = Some m' \<and> length m' = length m
      \<and> header_ok m' lsn p \<and> (\<forall>k\<ge>WAL_HEADER. m' ! k = m ! k)"
    using st(2) [of p] assms(1) by (fastforce simp: header_ok_def WAL_HEADER_def)
qed

text \<open>
  What is durable while an entry is appended.  A header whose two fields were stored in part still finds
  entries, but numbers the next one differently: \<open>log_image\<close> leaves the next LSN open.
\<close>

definition log_image :: "nat \<Rightarrow> u8 list \<Rightarrow> nat \<Rightarrow> log_entry list \<Rightarrow> bool" where
  "log_image cap m lsn es \<longleftrightarrow>
     (\<exists>w. wal_init None cap m = Inr w \<and> mem w = m \<and> next_lsn w = lsn \<and> recover w = Some es)"

lemma log_imageI:
  assumes "header_ok m lsn off" "laid_out m WAL_HEADER es off" "length m = cap" "off \<le> cap"
    "WAL_HEADER + ENTRY_HEADER + 64 \<le> cap"
  shows "log_image cap m lsn es"
proof -
  let ?w = "\<lparr>mem = m, wal_capacity = cap, next_lsn = lsn, write_offset = off\<rparr>"
  have "wal_init None cap m = Inr ?w"
    using assms by (simp add: wal_init_def header_ok_def Let_def WAL_HEADER_def)
  moreover have "recover ?w = Some es"
    using recover_laid_out [OF assms(2,4) assms(3) [symmetric]] by (simp add: recover_def)
  ultimately show ?thesis by (auto simp: log_image_def)
qed

lemma append_fits:
  assumes "wal_ok w es" "fits_log w data" "length data < 2 ^ 32"
  obtains m m1 m2 w' where "append_images data w = Some (Inr (m, m1, w', next_lsn w))"
    "wal_capacity w' = wal_capacity w" "wal_ok (w\<lparr>mem := m\<rparr>) es" "wal_ok w' (es @ [new_entry w data])"
    "log_image (wal_capacity w) m1 (next_lsn w + 1) es"
    "write_bytes 24 (le_bytes 8 (write_offset w')) m = Some m2"
    "log_image (wal_capacity w) m2 (next_lsn w) (es @ [new_entry w data])"
proof -
  let ?o = "write_offset w" and ?e = "new_entry w data" and ?c = "wal_capacity w"
  let ?stop = "?o + entry_span ?e"
  note ok = assms(1) [unfolded wal_ok_def] and b = wal_ok_bounds [OF assms(1)]
  have sp: "entry_span ?e = align8 (ENTRY_HEADER + length data)"
    by (simp add: entry_span_def new_entry_def)
  have fit: "?stop \<le> ?c" "data \<noteq> []" using assms(2) by (simp_all add: fits_log_def sp)
  have eb: "entry_header (next_lsn w) (length data mod 2 ^ 32) 0 (crc32 data) @ data = entry_bytes ?e"
    using assms(3) by (simp add: entry_bytes_def new_entry_def)
  have ef: "entry_fits ?e" using fit(2) assms(3) b(2) by (simp add: entry_fits_def new_entry_def)
  have end1: "?o + length (entry_bytes ?e) \<le> length (mem w)"
    using entry_span_ge [of ?e] fit(1) ok by simp
  obtain m where m0: "write_bytes ?o (entry_bytes ?e) (mem w) = Some m" "length m = length (mem w)"
    "\<forall>k<length (mem w). m ! k = (if ?o \<le> k \<and> k < ?o + length (entry_bytes ?e)
       then entry_bytes ?e ! (k - ?o) else mem w ! k)"
    using write_bytes_ex [OF end1] by blast
  note m = m0(1,2) m0(3) [rule_format]
  have at: "slice_of ?o (ENTRY_HEADER + length (le_data ?e)) m = entry_bytes ?e"
    using slice_written [OF m(2) end1 m(3)] by simp
  have ol: "?o \<le> length (mem w)" using ok by simp
  have keep: "m ! k = mem w ! k" if "k < ?o" for k
    using m(3) [of k] that ol by simp
  have old: "laid_out m WAL_HEADER es ?o"
    by (rule laid_out_cong [of "mem w"]) (use ok m(2) ol keep in simp_all)
  have hd: "header_ok m (next_lsn w) ?o"
  proof -
    have "header_ok (mem w) (next_lsn w) ?o" using ok by blast
    then show ?thesis by (rule header_ok_cong) (use m(2) ol keep b(1) in simp_all)
  qed
  have new: "laid_out m WAL_HEADER (es @ [?e]) ?stop" using old at ef by (auto simp: laid_out_append)
  have far: "laid_out m' WAL_HEADER es' off" if "laid_out m WAL_HEADER es' off" "length m' = length m"
    "\<forall>k\<ge>WAL_HEADER. m' ! k = m ! k" "off \<le> ?c" for m' es' off
    using that by (rule_tac laid_out_cong [of m]) (use ok m(2) in auto)
  have sz: "next_lsn w + 1 < 2 ^ 64" "?stop < 2 ^ 64" using b(2) fit(1) ok by simp_all
  have h: "WAL_HEADER \<le> length m" using ok m(2) by simp
  obtain m1 where m1: "write_bytes 16 (le_bytes 8 (next_lsn w + 1)) m = Some m1" "length m1 = length m"
    "header_ok m1 (next_lsn w + 1) ?o" "\<forall>k\<ge>WAL_HEADER. m1 ! k = m ! k"
    using header_stored(1) [OF hd h sz(1)] by blast
  obtain m' where m': "write_bytes 24 (le_bytes 8 ?stop) m1 = Some m'" "length m' = length m1"
    "header_ok m' (next_lsn w + 1) ?stop" "\<forall>k\<ge>WAL_HEADER. m' ! k = m1 ! k"
    using header_stored(2) [OF m1(3) _ sz(2)] h m1(2) by metis
  obtain m2 where m2: "write_bytes 24 (le_bytes 8 ?stop) m = Some m2" "length m2 = length m"
    "header_ok m2 (next_lsn w) ?stop" "\<forall>k\<ge>WAL_HEADER. m2 ! k = m ! k"
    using header_stored(2) [OF hd h sz(2)] by blast
  let ?w = "w\<lparr>mem := m', next_lsn := next_lsn w + 1, write_offset := ?stop\<rparr>"
  have "append_images data w = Some (Inr (m, m1, ?w, next_lsn w))"
    using fit sz m(1) m1(1) m'(1) eb by (simp add: append_images_def Let_def flip: sp)
  moreover have "wal_ok (w\<lparr>mem := m\<rparr>) es" using ok old hd m(2) by (simp add: wal_ok_def)
  moreover have "laid_out m' WAL_HEADER (es @ [?e]) ?stop"
    using far [OF new] m'(2,4) m1(2,4) fit(1) by simp
  then have "wal_ok ?w (es @ [?e])"
    using ok m'(3) fit(1) m(2) m1(2) m'(2) by (simp add: wal_ok_def new_entry_def)
  moreover have "log_image ?c m1 (next_lsn w + 1) es"
    by (rule log_imageI [OF m1(3) far [OF old m1(2,4)]]) (use ok m(2) m1(2) in simp_all)
  moreover have "log_image ?c m2 (next_lsn w) (es @ [?e])"
    by (rule log_imageI [OF m2(3) far [OF new m2(2,4)]]) (use ok m(2) m2(2) fit(1) in simp_all)
  ultimately show thesis using m2(1) by (intro that [of m m1 ?w m2]) simp_all
qed

subsection \<open>Commit\<close>

definition set_committed :: "nat \<Rightarrow> log_entry list \<Rightarrow> log_entry list" where
  "set_committed l es = map (\<lambda>e. if le_lsn e = l then e\<lparr>le_committed := True\<rparr> else e) es"

lemma find_entry_absent:
  assumes "laid_out m off es stop" "l \<notin> le_lsn ` set es"
  shows "find_entry l m stop off = Some None"
  using assms
proof (induction es arbitrary: off)
  case Nil
  then show ?case by (simp add: find_entry.simps ENTRY_HEADER_def)
next
  case (Cons e es)
  then have e: "slice_of off (ENTRY_HEADER + length (le_data e)) m = entry_bytes e" "entry_fits e" by simp_all
  have "find_entry l m stop (off + entry_span e) = Some None" using Cons by simp
  then show ?case
    using entry_fields [OF e] Cons.prems(2) by (subst find_entry.simps) (auto simp: entry_span_def)
qed

lemma find_entry_first:
  assumes "laid_out m off (pre @ e # post) stop" "l \<notin> le_lsn ` set pre" "le_lsn e = l"
  shows "\<exists>o'. find_entry l m stop off = Some (Some o') \<and> laid_out m off pre o' \<and> laid_out m o' (e # post) stop"
  using assms(1,2)
proof (induction pre arbitrary: off)
  case Nil
  then have e: "slice_of off (ENTRY_HEADER + length (le_data e)) m = entry_bytes e" "entry_fits e" by simp_all
  have "off + ENTRY_HEADER \<le> stop"
    using laid_out_stop [of m off "e # post" stop] Nil.prems(1) entry_span_ge [of e] by simp
  with Nil entry_fields [OF e] assms(3) show ?case by (subst find_entry.simps) auto
next
  case (Cons d pre)
  then have d: "slice_of off (ENTRY_HEADER + length (le_data d)) m = entry_bytes d" "entry_fits d" by simp_all
  obtain o' where o': "find_entry l m stop (off + entry_span d) = Some (Some o')"
    "laid_out m (off + entry_span d) pre o'" "laid_out m o' (e # post) stop"
    using Cons.IH [of "off + entry_span d"] Cons.prems by auto
  have "off + ENTRY_HEADER \<le> stop"
    using laid_out_stop [OF Cons.prems(1)] entry_span_ge [of d] by simp
  then have "find_entry l m stop off = Some (Some o')"
    using o'(1) entry_fields [OF d] Cons.prems(2) by (subst find_entry.simps) (auto simp: entry_span_def)
  with o' d show ?case by auto
qed

lemma entry_bytes_committed:
  "entry_bytes (e\<lparr>le_committed := True\<rparr>) = take 12 (entry_bytes e) @ le_bytes 4 1 @ drop 16 (entry_bytes e)"
  by (simp add: entry_bytes_def entry_header_def)

lemma entry_span_committed [simp]: "entry_span (e\<lparr>le_committed := c\<rparr>) = entry_span e"
  by (simp add: entry_span_def)

lemma nth_splice:
  assumes "16 \<le> length s" "k < length s" "length b = 4"
  shows "(take 12 s @ b @ drop 16 s) ! k = (if k < 12 then s ! k else if k < 16 then b ! (k - 12) else s ! k)"
proof -
  consider "k < 12" | "12 \<le> k" "k < 16" | "16 \<le> k" by linarith
  then show ?thesis using assms
  proof cases
    case 2
    then have "k - 12 < 4" by simp
    with 2 assms show ?thesis by (simp add: nth_append)
  next
    case 3
    then have "\<not> k - 12 < 4" by simp
    with 3 assms show ?thesis by (simp add: nth_append)
  qed (simp add: nth_append)
qed

lemma commit_ok:
  assumes "wal_ok w es" "l \<in> le_lsn ` set es"
  shows "\<exists>w'. commit l w = Some (w', Inr ()) \<and> wal_capacity w' = wal_capacity w \<and> wal_ok w' (set_committed l es)"
proof -
  note ok = assms(1) [unfolded wal_ok_def]
  let ?m = "mem w" and ?stop = "write_offset w"
  obtain e where "e \<in> set es" "le_lsn e = l" using assms(2) by blast
  then obtain pre post where es: "es = pre @ e # post" by (meson split_list)
  have "distinct (map le_lsn es)" using ok by simp
  with es \<open>le_lsn e = l\<close> have uniq: "l \<notin> le_lsn ` set pre" "l \<notin> le_lsn ` set post" by auto
  then have sc: "set_committed l es = pre @ e\<lparr>le_committed := True\<rparr> # post"
    using es \<open>le_lsn e = l\<close> by (auto simp: set_committed_def image_iff intro!: map_idI)
  obtain o' where o': "find_entry l ?m ?stop WAL_HEADER = Some (Some o')" "laid_out ?m WAL_HEADER pre o'"
    "laid_out ?m o' (e # post) ?stop"
    using find_entry_first [of ?m WAL_HEADER pre e post ?stop l] ok es uniq \<open>le_lsn e = l\<close> by auto
  then have at: "slice_of o' (ENTRY_HEADER + length (le_data e)) ?m = entry_bytes e" "entry_fits e"
    and rest: "laid_out ?m (o' + entry_span e) post ?stop" by simp_all
  note f = entry_fields [OF at]
  have lo: "WAL_HEADER \<le> o'" "o' + entry_span e \<le> ?stop"
    using laid_out_stop [OF o'(2)] laid_out_stop [OF rest] by simp_all
  have end1: "o' + 12 + length (le_bytes 4 1) \<le> length ?m" using f(1) by (simp add: ENTRY_HEADER_def)
  obtain m where m: "write_bytes (o' + 12) (le_bytes 4 1) ?m = Some m" "length m = length ?m"
    "\<forall>k<length ?m. m ! k = (if o' + 12 \<le> k \<and> k < o' + 12 + length (le_bytes 4 1)
       then le_bytes 4 1 ! (k - (o' + 12)) else ?m ! k)"
    using write_bytes_ex [OF end1] by blast
  have far: "m ! k = ?m ! k" if "k < length ?m" "k < o' + 12 \<or> o' + 16 \<le> k" for k
    using m(3) that by auto
  have ol: "?stop \<le> length ?m" using ok by simp
  have span: "16 \<le> entry_span e" using entry_span_ge [of e] by (simp add: ENTRY_HEADER_def)
  have new: "slice_of o' (ENTRY_HEADER + length (le_data e)) m = entry_bytes (e\<lparr>le_committed := True\<rparr>)"
    unfolding entry_bytes_committed at(1) [symmetric]
  proof (rule nth_equalityI)
    let ?n = "ENTRY_HEADER + length (le_data e)"
    let ?s = "slice_of o' ?n ?m"
    have len: "length ?s = ?n" "16 \<le> ?n" using f(1) by (simp_all add: ENTRY_HEADER_def)
    then show l: "length (slice_of o' ?n m) = length (take 12 ?s @ le_bytes 4 1 @ drop 16 ?s)"
      using m(2) by simp
    fix k assume "k < length (slice_of o' ?n m)"
    then have k: "k < ?n" "o' + k < length ?m" using f(1) m(2) by simp_all
    have "slice_of o' ?n m ! k = m ! (o' + k)" "?s ! k = ?m ! (o' + k)" using k m(2) by simp_all
    moreover have "(take 12 ?s @ le_bytes 4 1 @ drop 16 ?s) ! k
        = (if k < 12 then ?s ! k else if k < 16 then le_bytes 4 1 ! (k - 12) else ?s ! k)"
      using k len by (intro nth_splice) simp_all
    ultimately show "slice_of o' ?n m ! k = (take 12 ?s @ le_bytes 4 1 @ drop 16 ?s) ! k"
      using m(3) k by auto
  qed
  have "laid_out m WAL_HEADER pre o'"
    by (rule laid_out_cong [OF o'(2) m(2)]) (use lo ol far span in simp_all)
  moreover have "laid_out m (o' + entry_span e) post ?stop"
    by (rule laid_out_cong [OF rest m(2) ol]) (use ol far span in simp)
  moreover have "entry_fits (e\<lparr>le_committed := True\<rparr>)" using at(2) by (simp add: entry_fits_def)
  ultimately have lay: "laid_out m WAL_HEADER (set_committed l es) ?stop"
    using new unfolding sc laid_out_append by auto
  have h: "header_ok ?m (next_lsn w) ?stop" using ok by blast
  have hd: "header_ok m (next_lsn w) ?stop"
    by (rule header_ok_cong [OF h m(2)]) (use lo ol far span in simp_all)
  have "commit l w = Some (w\<lparr>mem := m\<rparr>, Inr ())"
    using o'(1) f(4) m(1) by (cases "le_committed e") (simp_all add: commit_def)
  moreover have "map le_lsn (set_committed l es) = map le_lsn es" by (simp add: set_committed_def)
  then have "wal_ok (w\<lparr>mem := m\<rparr>) (set_committed l es)"
    using ok lay hd m(2) by (simp add: wal_ok_def) (simp add: set_committed_def)
  ultimately show ?thesis by auto
qed


subsection \<open>The specification\<close>

text \<open>A log is its capacity and its entries, numbered from 1.\<close>

datatype wal_op = Op_Append "u8 list" | Op_Commit nat | Op_Recover | Op_Reopen nat

datatype wal_answer = Appended nat | Committed | Entries "log_entry list" | Opened | Failed

fun wal_step :: "wal \<Rightarrow> wal_op \<Rightarrow> (wal \<times> wal_answer) option" where
  "wal_step w (Op_Append d) = map_option
     (\<lambda>(w', r). (w', case r of Inl _ \<Rightarrow> Failed | Inr n \<Rightarrow> Appended n)) (append_entry d w)"
| "wal_step w (Op_Commit l) = map_option
     (\<lambda>(w', r). (w', case r of Inl _ \<Rightarrow> Failed | Inr _ \<Rightarrow> Committed)) (commit l w)"
| "wal_step w Op_Recover = map_option (\<lambda>es. (w, Entries es)) (recover w)"
| "wal_step w (Op_Reopen cap) =
     Some (case wal_init None cap (mem w) of Inl _ \<Rightarrow> (w, Failed) | Inr w' \<Rightarrow> (w', Opened))"

fun log_spec :: "nat \<times> log_entry list \<Rightarrow> wal_op \<Rightarrow> (nat \<times> log_entry list) \<times> wal_answer" where
  "log_spec (cap, es) (Op_Append d) =
     (if d \<noteq> [] \<and> WAL_HEADER + sum_list (map entry_span es) + align8 (ENTRY_HEADER + length d) \<le> cap
      then ((cap, es @ [\<lparr>le_lsn = length es + 1, le_committed = False, le_data = d\<rparr>]), Appended (length es + 1))
      else ((cap, es), Failed))"
| "log_spec (cap, es) (Op_Commit l) =
     (if l \<in> le_lsn ` set es then ((cap, set_committed l es), Committed) else ((cap, es), Failed))"
| "log_spec (cap, es) Op_Recover = ((cap, es), Entries es)"
| "log_spec (cap, es) (Op_Reopen c) =
     (if c < WAL_HEADER + ENTRY_HEADER + 64 then ((cap, es), Failed) else ((c, es), Opened))"

definition log_view :: "wal \<Rightarrow> nat \<times> log_entry list" where
  "log_view w = (wal_capacity w, case recover w of None \<Rightarrow> [] | Some es \<Rightarrow> es)"

text \<open>
  What the client owes: entries below 4 GiB, whose length the field of the entry can hold, and no
  reopening with a capacity that \<open>init\<close> accepts but that is smaller than the log's.
\<close>

fun log_ok :: "nat \<times> log_entry list \<Rightarrow> wal_op \<Rightarrow> bool" where
  "log_ok (cap, es) (Op_Append d) \<longleftrightarrow> length d < 2 ^ 32"
| "log_ok (cap, es) (Op_Reopen c) \<longleftrightarrow> c < WAL_HEADER + ENTRY_HEADER + 64 \<or> cap \<le> c \<and> c < 2 ^ 62"
| "log_ok (cap, es) _ \<longleftrightarrow> True"

lemma log_view_ok [simp]: "wal_ok w es \<Longrightarrow> log_view w = (wal_capacity w, es)"
  by (simp add: log_view_def wal_ok_recover)

definition log_rel :: "wal \<Rightarrow> nat \<times> log_entry list \<Rightarrow> bool" where
  "log_rel w a \<longleftrightarrow> wal_ok w (snd a) \<and> wal_capacity w = fst a"

lemma append_step:
  assumes "wal_ok w es" "length d < 2 ^ 32"
  shows "\<exists>w'. wal_step w (Op_Append d) = Some (w', snd (log_spec (wal_capacity w, es) (Op_Append d)))
    \<and> log_rel w' (fst (log_spec (wal_capacity w, es) (Op_Append d)))"
proof -
  have o: "write_offset w = WAL_HEADER + sum_list (map entry_span es)" "next_lsn w = length es + 1"
    using assms(1) laid_out_stop by (auto simp: wal_ok_def)
  show ?thesis
  proof (cases "fits_log w d")
    case True
    from append_fits [OF assms(1) True assms(2)] obtain m m1 w' where
      a: "append_images d w = Some (Inr (m, m1, w', next_lsn w))" "wal_capacity w' = wal_capacity w"
        "wal_ok w' (es @ [new_entry w d])" by metis
    then show ?thesis
      using True o by (auto simp: append_entry_def fits_log_def new_entry_def log_rel_def)
  next
    case False
    from append_full [OF assms(1) False assms(2)] obtain e where "append_images d w = Some (Inl e)" by blast
    then show ?thesis using False assms(1) o by (auto simp: append_entry_def fits_log_def log_rel_def)
  qed
qed

lemma commit_step:
  assumes "wal_ok w es"
  shows "\<exists>w'. wal_step w (Op_Commit l) = Some (w', snd (log_spec (wal_capacity w, es) (Op_Commit l)))
    \<and> log_rel w' (fst (log_spec (wal_capacity w, es) (Op_Commit l)))"
proof (cases "l \<in> le_lsn ` set es")
  case True
  with commit_ok [OF assms True] assms show ?thesis by (auto simp: log_rel_def)
next
  case False
  have "laid_out (mem w) WAL_HEADER es (write_offset w)" using assms by (simp add: wal_ok_def)
  from find_entry_absent [OF this False] have "commit l w = Some (w, Inl (''LSN '' @ dec_nat l @ '' not found in WAL''))"
    by (simp add: commit_def)
  with False assms show ?thesis by (auto simp: log_rel_def)
qed

lemma reopen_step:
  assumes "wal_ok w es" "log_ok (wal_capacity w, es) (Op_Reopen c)"
  shows "\<exists>w'. wal_step w (Op_Reopen c) = Some (w', snd (log_spec (wal_capacity w, es) (Op_Reopen c)))
    \<and> log_rel w' (fst (log_spec (wal_capacity w, es) (Op_Reopen c)))"
proof (cases "c < WAL_HEADER + ENTRY_HEADER + 64")
  case True
  with assms(1) show ?thesis by (simp add: log_rel_def wal_init_def)
next
  case False
  with assms(2) have "wal_capacity w \<le> c" "c < 2 ^ 62" by auto
  from reopen_larger [OF assms(1) this] False show ?thesis by (auto simp: log_rel_def)
qed

interpretation wal: related wal_step log_spec log_rel log_ok
proof
  fix w a op assume rel: "log_rel w a" and ok: "log_ok a op"
  then have a: "a = (wal_capacity w, snd a)" and w: "wal_ok w (snd a)"
    by (simp_all add: log_rel_def prod_eq_iff)
  obtain cap es where ce: "a = (cap, es)" by fastforce
  show "\<exists>t. wal_step w op = Some (t, snd (log_spec a op)) \<and> log_rel t (fst (log_spec a op))"
  proof (cases op)
    case (Op_Append d)
    with append_step [OF w, of d] ok a show ?thesis by (metis log_ok.simps(1))
  next
    case (Op_Commit l)
    with commit_step [OF w, of l] a show ?thesis by metis
  next
    case Op_Recover
    with w rel ce show ?thesis by (simp add: wal_ok_recover log_rel_def)
  next
    case (Op_Reopen c)
    with reopen_step [OF w, of c] ok a show ?thesis by metis
  qed
qed

subsection \<open>Properties\<close>

lemma append_fits_ex:
  assumes "wal_ok w es" "fits_log w data" "length data < 2 ^ 32"
  shows "\<exists>m m1 w'. append_images data w = Some (Inr (m, m1, w', next_lsn w)) \<and> wal_capacity w' = wal_capacity w
    \<and> wal_ok w' (es @ [new_entry w data])"
  by (rule append_fits [OF assms]) blast

text \<open>C3. The log refines its specification: from a new file with a capacity from 128 bytes to below 2^62,
  after any sequence of appends of entries below 4 GiB, commits, recoveries and reopenings with the same
  or a larger capacity (or with one that \<open>init\<close> refuses as too small), every answer is the one of a list
  of numbered entries with a capacity, no access leaves the mapping, and the file recovers exactly that
  list.  (Longer entries, whose 32-bit length field is truncated, and reopenings that shrink the mapping
  are excluded: there the code goes wrong, see \<open>shrunk_log_read_outside\<close>.)\<close>

theorem wal_refines_log:
  assumes "WAL_HEADER + ENTRY_HEADER + 64 \<le> cap" "cap < 2 ^ 62" "spec_ok log_spec log_ok (cap, []) ops"
  shows "\<exists>w w' answers. wal_init None cap [] = Inr w \<and> run_out wal_step w ops = Some (w', answers)
    \<and> spec_out log_spec (cap, []) ops = (log_view w', answers)"
proof -
  obtain w where w: "wal_init None cap [] = Inr w" "log_rel w (cap, [])"
    using new_log_ok [OF assms(1,2)] by (auto simp: log_rel_def)
  from wal.run_rel [OF w(2) assms(3)] obtain w' where
    "run_out wal_step w ops = Some (w', snd (spec_out log_spec (cap, []) ops))"
    "log_rel w' (fst (spec_out log_spec (cap, []) ops))" by blast
  with w(1) show ?thesis by (auto simp: log_rel_def prod_eq_iff)
qed

lemma wal_refines_log_witness:
  "\<exists>w w' answers. wal_init None 128 [] = Inr w
    \<and> run_out wal_step w [Op_Append [1, 2, 3], Op_Commit 1, Op_Append [], Op_Reopen 256, Op_Recover] = Some (w', answers)
    \<and> spec_out log_spec (128, []) [Op_Append [1, 2, 3], Op_Commit 1, Op_Append [], Op_Reopen 256, Op_Recover]
      = (log_view w', answers)"
  by (rule wal_refines_log)
     (simp_all add: WAL_HEADER_def ENTRY_HEADER_def align8_def set_committed_def)

text \<open>C18. An append of an entry below 4 GiB survives a crash between any two of its stores.  An image in which
  the entry is written in part, in any order (everything before the write offset as it was), and the one
  after the first flush reopen as the log from before the append.  The image after the store of the next
  LSN in the header recovers the old entries, with one number skipped; the one after the store of the write
  offset is the new log, which recovers the new entry too, not yet committed; and if the write offset
  reaches the file before the next LSN does, the new entry is recovered but its number will be given again.\<close>

theorem append_crash_safe:
  assumes "wal_ok w es" "length data < 2 ^ 32" "append_images data w = Some (Inr (m, m1, w', lsn))"
    "length t = wal_capacity w" "take (write_offset w) t = take (write_offset w) (mem w)"
  shows "wal_init None (wal_capacity w) t = Inr (w\<lparr>mem := t\<rparr>) \<and> recover (w\<lparr>mem := t\<rparr>) = Some es
    \<and> wal_init None (wal_capacity w) m = Inr (w\<lparr>mem := m\<rparr>) \<and> recover (w\<lparr>mem := m\<rparr>) = Some es
    \<and> log_image (wal_capacity w) m1 (next_lsn w + 1) es
    \<and> wal_init None (wal_capacity w) (mem w') = Inr w' \<and> recover w' = Some (es @ [new_entry w data])
    \<and> (\<exists>m2. write_bytes 24 (le_bytes 8 (write_offset w')) m = Some m2
         \<and> log_image (wal_capacity w) m2 (next_lsn w) (es @ [new_entry w data]))"
proof -
  note ok = assms(1) [unfolded wal_ok_def]
  have "fits_log w data" using append_full [OF assms(1) _ assms(2)] assms(3) by force
  from append_fits [OF assms(1) this assms(2)] assms(3) obtain m2 where
    m: "wal_ok (w\<lparr>mem := m\<rparr>) es" "wal_ok w' (es @ [new_entry w data])" "wal_capacity w' = wal_capacity w"
    and mid: "log_image (wal_capacity w) m1 (next_lsn w + 1) es"
      "write_bytes 24 (le_bytes 8 (write_offset w')) m = Some m2"
      "log_image (wal_capacity w) m2 (next_lsn w) (es @ [new_entry w data])"
    by force
  have same: "t ! k = mem w ! k" if "k < write_offset w" for k
    using that by (metis assms(5) nth_take)
  have lay: "laid_out t WAL_HEADER es (write_offset w)"
    by (rule laid_out_cong [of "mem w"]) (use ok same assms(4) in auto)
  have "header_ok t (next_lsn w) (write_offset w)"
    by (rule header_ok_cong [of "mem w"]) (use ok same assms(4) wal_ok_bounds(1) [OF assms(1)] in auto)
  with ok lay assms(4) have t: "wal_ok (w\<lparr>mem := t\<rparr>) es" by (simp add: wal_ok_def)
  show ?thesis
    using reopen [OF t] reopen [OF m(1)] reopen [OF m(2)] wal_ok_recover [OF t] wal_ok_recover [OF m(1)]
      wal_ok_recover [OF m(2)] m(3) mid by simp
qed

lemma append_crash_safe_witness:
  "\<exists>w m m1 w' lsn. wal_init None 128 [] = Inr w \<and> append_images [1, 2, 3] w = Some (Inr (m, m1, w', lsn))
    \<and> recover (w\<lparr>mem := m\<rparr>) = Some [] \<and> log_image 128 m1 (next_lsn w + 1) [] \<and> recover w' = Some [new_entry w [1, 2, 3]]"
proof -
  obtain w where w: "wal_init None 128 [] = Inr w" "wal_capacity w = 128" "wal_ok w []"
    using new_log_ok [of 128] by (auto simp: WAL_HEADER_def ENTRY_HEADER_def)
  then have "fits_log w [1, 2, 3]"
    by (simp add: fits_log_def wal_ok_def WAL_HEADER_def ENTRY_HEADER_def align8_def)
  from append_fits_ex [OF w(3) this] obtain m m1 w' where
    "append_images [1, 2, 3] w = Some (Inr (m, m1, w', next_lsn w))" by auto
  with append_crash_safe [OF w(3) _ this, of "mem w"] w show ?thesis by (auto simp: wal_ok_def)
qed

text \<open>A log reopened with a smaller capacity is not safe: \<open>init\<close> trusts the write offset in the file, and
  when the mapping ends where an entry does, \<open>recover\<close> reads the header of the next entry beyond the mapping.\<close>

theorem shrunk_log_read_outside:
  assumes "wal_ok w (e # es)" "es \<noteq> []" "cap = WAL_HEADER + entry_span e"
    "WAL_HEADER + ENTRY_HEADER + 64 \<le> cap"
  shows "\<exists>w'. wal_init None cap (mem w) = Inr w' \<and> recover w' = None"
proof -
  note ok = assms(1) [unfolded wal_ok_def]
  let ?m = "take cap (mem w)"
  obtain d ds where es: "es = d # ds" using assms(2) by (cases es) auto
  have e: "slice_of WAL_HEADER (ENTRY_HEADER + length (le_data e)) (mem w) = entry_bytes e" "entry_fits e"
    using ok by simp_all
  have stop: "cap + ENTRY_HEADER \<le> write_offset w"
    using laid_out_stop [of "mem w" WAL_HEADER "e # es" "write_offset w"] ok assms(3) es entry_span_ge [of d]
    by simp
  then have cap: "cap \<le> length (mem w)" using ok by simp
  have sl: "slice_of a n ?m = slice_of a n (mem w)" if "a + n \<le> cap" for a n
    using that by (simp add: slice_of_def drop_take min_def)
  have e': "slice_of WAL_HEADER (ENTRY_HEADER + length (le_data e)) ?m = entry_bytes e"
    using sl entry_span_ge [of e] assms(3) e(1) by simp
  note f = entry_fields [OF e' e(2)]
  let ?w = "\<lparr>mem = ?m, wal_capacity = cap, next_lsn = next_lsn w, write_offset = write_offset w\<rparr>"
  have small: "40 \<le> length (mem w)" "40 \<le> cap" using ok assms(4) by (simp_all add: WAL_HEADER_def)
  have "header_ok (mem w) (next_lsn w) (write_offset w)" using ok by blast
  then have "wal_init None cap (mem w) = Inr ?w"
    using assms(4) cap small sl by (simp add: wal_init_def header_ok_def Let_def WAL_HEADER_def)
  moreover have "recover_from cap ?m (write_offset w) cap = None"
    using stop cap by (subst recover_from.simps) (simp add: read_field_def)
  then have "recover ?w = None"
    unfolding recover_def
    using f stop cap assms(3) entry_span_ge [of e]
    by (subst recover_from.simps) (simp add: entry_span_def Let_def)
  ultimately show ?thesis by blast
qed

lemma shrunk_log_read_outside_witness:
  "\<exists>w w'. recover w = Some [\<lparr>le_lsn = 1, le_committed = False, le_data = replicate 64 7\<rparr>,
        \<lparr>le_lsn = 2, le_committed = False, le_data = [1]\<rparr>]
    \<and> wal_init None 128 (mem w) = Inr w' \<and> recover w' = None"
proof -
  let ?d = "replicate 64 7 :: u8 list"
  obtain w0 where w0: "wal_capacity w0 = 256" "wal_ok w0 []"
    using new_log_ok [of 256] by (auto simp: WAL_HEADER_def ENTRY_HEADER_def)
  then have "write_offset w0 = 40" "next_lsn w0 = 1" by (simp_all add: wal_ok_def WAL_HEADER_def)
  with w0 have "fits_log w0 ?d"
    by (simp add: fits_log_def wal_ok_def WAL_HEADER_def ENTRY_HEADER_def align8_def)
  from append_fits_ex [OF w0(2) this] obtain w1 where w1: "wal_capacity w1 = 256" "wal_ok w1 [new_entry w0 ?d]"
    using w0(1) by auto
  then have o1: "write_offset w1 = 128" "next_lsn w1 = 2"
    using laid_out_stop [of "mem w1" WAL_HEADER "[new_entry w0 ?d]" "write_offset w1"]
    by (simp_all add: wal_ok_def entry_span_def new_entry_def WAL_HEADER_def ENTRY_HEADER_def align8_def)
  with w1 have "fits_log w1 [1]"
    by (simp add: fits_log_def wal_ok_def WAL_HEADER_def ENTRY_HEADER_def align8_def)
  from append_fits_ex [OF w1(2) this] obtain w2 where w2: "wal_ok w2 [new_entry w0 ?d, new_entry w1 [1]]" by auto
  obtain w' where "wal_init None 128 (mem w2) = Inr w'" "recover w' = None"
    using shrunk_log_read_outside [OF w2, of 128]
    by (auto simp: entry_span_def new_entry_def WAL_HEADER_def ENTRY_HEADER_def align8_def)
  then show ?thesis
    using wal_ok_recover [OF w2] o1 \<open>next_lsn w0 = 1\<close> by (auto simp: new_entry_def)
qed

end
