(* ===== verification/Pmem_Checkpoint.thy ===== *)
theory Pmem_Checkpoint
  imports Pmem_Log Decimal
begin

text \<open>
  Named checkpoints (\<open>bin/pmem/checkpoint.cpp\<close>): a header with a checksum and the data, written to a
  temporary file that is renamed over the checkpoint.  The file system is a map from paths to files; a
  file knows whether its contents have been synchronised, and a crash may change any file that has not.
  Paths are compared as strings: two names that lead to one file through a directory (\<open>a\<close> and \<open>./a\<close>) are
  two files in the model.
  The answers of the system calls are arguments; \<open>save\<close> yields the file-system states it passes through,
  one per system call, so that a crash can be placed between any two.
\<close>

subsection \<open>Files\<close>

record ckpt_file =
  contents :: "u8 list"
  synced :: bool

type_synonym file_system = "string \<Rightarrow> ckpt_file option"

text \<open>What a crash may leave behind.\<close>

definition after_crash :: "file_system \<Rightarrow> file_system \<Rightarrow> bool" where
  "after_crash fs fs' \<longleftrightarrow> (\<forall>p. case fs p of None \<Rightarrow> fs' p = None | Some f \<Rightarrow> synced f \<longrightarrow> fs' p = Some f)"

definition CKPT_MAGIC :: nat where "CKPT_MAGIC = 0x53544C434B505401"

definition CKPT_VERSION :: nat where "CKPT_VERSION = 1"

definition CKPT_HEADER :: nat where "CKPT_HEADER = 32"

definition ckpt_header :: "nat \<Rightarrow> u32 \<Rightarrow> u8 list" where
  "ckpt_header len crc =
     le_bytes 8 CKPT_MAGIC @ le_bytes 8 CKPT_VERSION @ le_bytes 8 len @ le_bytes 4 (unat crc) @ le_bytes 4 0"

definition checkpoint_path :: "string \<Rightarrow> string \<Rightarrow> string" where
  "checkpoint_path base name = base @ ''/'' @ name @ ''.ckpt''"

subsection \<open>The directory\<close>

text \<open>
  \<open>stat\<close> answers nothing on failure and otherwise whether the path is a directory.  The paths given to
  \<open>mkdir\<close> are the ancestors of the directory, outermost first.
\<close>

definition mkdir_paths :: "string \<Rightarrow> string list" where
  "mkdir_paths base = [take (i + 1) base. i \<leftarrow> [0..<length base],
     base ! i = CHR ''/'' \<or> i = length base - 1, take (i + 1) base \<noteq> ''/'']"

definition ensure_dir :: "string \<Rightarrow> bool option \<Rightarrow> bool option \<Rightarrow> string \<Rightarrow> string list \<times> (string + unit)" where
  "ensure_dir base stat1 stat2 errno =
     (case stat1 of
        Some True \<Rightarrow> ([], Inr ())
      | Some False \<Rightarrow> ([], Inl (base @ '' exists but is not a directory''))
      | None \<Rightarrow> (mkdir_paths base,
          if stat2 = Some True then Inr () else Inl (''Cannot create directory '' @ base @ '': '' @ errno)))"

subsection \<open>Saving\<close>

record save_env =
  se_stat1 :: "bool option"
  se_stat2 :: "bool option"
  se_open :: bool
  se_write :: "nat \<Rightarrow> int"
  se_fsync :: bool
  se_rename :: bool
  se_errno :: string

text \<open>
  \<open>write\<close> answers how many bytes it took; the result is what each call wrote, whether all was written,
  and the number of calls.
\<close>

function write_all :: "(nat \<Rightarrow> int) \<Rightarrow> nat \<Rightarrow> u8 list \<Rightarrow> u8 list list \<times> bool \<times> nat" where
  "write_all ans i data =
     (if data = [] then ([], True, i)
      else
        let n = ans i in
        if n \<le> 0 then ([], False, i + 1)
        else
          let (chunks, ok, j) = write_all ans (i + 1) (drop (nat n) data) in
          (take (nat n) data # chunks, ok, j))"
  by pat_completeness auto

termination
  by (relation "measure (\<lambda>(_, _, data). length data)") auto

declare write_all.simps [simp del]

definition write_file :: "(nat \<Rightarrow> int) \<Rightarrow> u8 list \<Rightarrow> u8 list \<Rightarrow> u8 list list \<times> bool" where
  "write_file ans hdr data =
     (let (c1, ok1, i) = write_all ans 0 hdr in
      if \<not> ok1 then (c1, False)
      else let (c2, ok2, _) = write_all ans i data in (c1 @ c2, ok2))"

definition save :: "string \<Rightarrow> save_env \<Rightarrow> string \<Rightarrow> u8 list option \<Rightarrow> file_system
    \<Rightarrow> file_system list \<times> (string + unit)" where
  "save base env name data fs =
     (if name = '''' then ([fs], Inl ''Checkpoint name cannot be empty'')
      else case data of
        None \<Rightarrow> ([fs], Inl ''Cannot save empty checkpoint'')
      | Some bytes \<Rightarrow>
          if bytes = [] then ([fs], Inl ''Cannot save empty checkpoint'')
          else case ensure_dir base (se_stat1 env) (se_stat2 env) (se_errno env) of
            (_, Inl e) \<Rightarrow> ([fs], Inl e)
          | (_, Inr _) \<Rightarrow>
              let path = checkpoint_path base name; tmp_path = path @ ''.tmp'' in
              if \<not> se_open env then ([fs], Inl (''Cannot create '' @ tmp_path @ '': '' @ se_errno env))
              else
                let (chunks, ok) = write_file (se_write env) (ckpt_header (length bytes) (crc32 bytes)) bytes;
                    writing = [fs(tmp_path \<mapsto> \<lparr>contents = concat (take j chunks), synced = False\<rparr>).
                      j \<leftarrow> [0..<length chunks + 1]];
                    written = \<lparr>contents = concat chunks, synced = se_fsync env\<rparr>;
                    trace = fs # writing @ [fs(tmp_path \<mapsto> written)] in
                if \<not> ok then (trace @ [fs(tmp_path := None)], Inl (''Write failed for checkpoint '' @ name))
                else if \<not> se_rename env
                then (trace @ [fs(tmp_path := None)], Inl (''Rename failed: '' @ se_errno env))
                else (trace @ [fs(tmp_path := None, path \<mapsto> written)], Inr ()))"

subsection \<open>Loading\<close>

text \<open>\<open>read\<close> answers an error or how many bytes it is willing to give, at most what is asked and there.\<close>

definition sys_read :: "int \<Rightarrow> nat \<Rightarrow> u8 list \<Rightarrow> int" where
  "sys_read a n rest = (if a < 0 then a else int (min (nat a) (min n (length rest))))"

function read_all :: "(nat \<Rightarrow> int) \<Rightarrow> nat \<Rightarrow> nat \<Rightarrow> u8 list \<Rightarrow> u8 list option" where
  "read_all ans i n rest =
     (if n = 0 then Some []
      else
        let r = sys_read (ans i) n rest in
        if r \<le> 0 then None
        else map_option ((@) (take (nat r) rest)) (read_all ans (i + 1) (n - nat r) (drop (nat r) rest)))"
  by pat_completeness auto

termination
  by (relation "measure (\<lambda>(_, _, n, _). n)") auto

declare read_all.simps [simp del]

record load_env =
  le_open :: bool
  le_read :: "nat \<Rightarrow> int"
  le_limit :: nat
  le_errno :: string

text \<open>
  A vector longer than the memory there is (\<open>le_limit\<close>) is an exception, \<open>None\<close>.
\<close>

definition load :: "string \<Rightarrow> load_env \<Rightarrow> string \<Rightarrow> file_system \<Rightarrow> (string + u8 list) option" where
  "load base env name fs =
     (case fs (checkpoint_path base name) of
        None \<Rightarrow> Some (Inl (''Checkpoint '' @ [CHR 39] @ name @ [CHR 39] @ '' not found: '' @ le_errno env))
      | Some f \<Rightarrow>
          if \<not> le_open env
          then Some (Inl (''Checkpoint '' @ [CHR 39] @ name @ [CHR 39] @ '' not found: '' @ le_errno env))
          else
            let n = sys_read (le_read env 0) CKPT_HEADER (contents f);
                hdr = take CKPT_HEADER (contents f); rest = drop CKPT_HEADER (contents f) in
            if n \<noteq> int CKPT_HEADER
            then Some (Inl (''Failed to read checkpoint header for '' @ [CHR 39] @ name @ [CHR 39]))
            else if le_value (slice_of 0 8 hdr) \<noteq> CKPT_MAGIC
            then Some (Inl (''Invalid checkpoint magic for '' @ [CHR 39] @ name @ [CHR 39]))
            else if le_value (slice_of 8 8 hdr) \<noteq> CKPT_VERSION
            then Some (Inl (''Unsupported checkpoint version '' @ dec_nat (le_value (slice_of 8 8 hdr))))
            else
              let data_size = le_value (slice_of 16 8 hdr); checksum = le_value (slice_of 24 4 hdr) in
              if data_size > le_limit env then None
              else case read_all (le_read env) 1 data_size rest of
                None \<Rightarrow> Some (Inl (''Truncated checkpoint data for '' @ [CHR 39] @ name @ [CHR 39]))
              | Some data \<Rightarrow>
                  if unat (crc32 data) \<noteq> checksum
                  then Some (Inl (''Checksum mismatch for checkpoint '' @ [CHR 39] @ name @ [CHR 39] @ '': stored='' @
                    dec_nat checksum @ '' computed='' @ dec_nat (unat (crc32 data))))
                  else Some (Inr data))"

subsection \<open>Listing and removing\<close>

definition list_names :: "string list \<Rightarrow> string list" where
  "list_names entries =
     [take (length f - 5) f. f \<leftarrow> entries, length f > 5 \<and> drop (length f - 5) f = ''.ckpt'']"

datatype opendir_result = Opened "string list" | No_Directory | Opendir_Failed string

definition ckpt_list :: "string \<Rightarrow> opendir_result \<Rightarrow> string + string list" where
  "ckpt_list base dir =
     (case dir of
        Opened entries \<Rightarrow> Inr (list_names entries)
      | No_Directory \<Rightarrow> Inr []
      | Opendir_Failed e \<Rightarrow> Inl (''Cannot open '' @ base @ '': '' @ e))"

definition ckpt_remove :: "string \<Rightarrow> string \<Rightarrow> string option \<Rightarrow> file_system \<Rightarrow> file_system \<times> (string + unit)" where
  "ckpt_remove base name unlink_err fs =
     (let path = checkpoint_path base name in
      case fs path of
        None \<Rightarrow> (fs, Inl (''Checkpoint '' @ [CHR 39] @ name @ [CHR 39] @ '' does not exist''))
      | Some _ \<Rightarrow>
          (case unlink_err of
             Some e \<Rightarrow> (fs, Inl (''Cannot remove checkpoint '' @ [CHR 39] @ name @ [CHR 39] @ '': '' @ e))
           | None \<Rightarrow> (fs(path := None), Inr ())))"

subsection \<open>The system-call loops\<close>

lemma write_all_writes:
  "write_all ans i data = (chunks, ok, j) \<Longrightarrow>
   (ok \<longrightarrow> concat chunks = data) \<and> (\<exists>rest. data = concat chunks @ rest)"
proof (induction ans i data arbitrary: chunks ok j rule: write_all.induct)
  case (1 ans i data)
  show ?case
  proof (cases "data = [] \<or> ans i \<le> 0")
    case True
    then show ?thesis using 1(2) by (subst (asm) write_all.simps) (auto simp: Let_def split: if_splits)
  next
    case False
    then have ne: "data \<noteq> []" and pos: "\<not> ans i \<le> 0" by simp_all
    obtain c ok' j' where w: "write_all ans (i + 1) (drop (nat (ans i)) data) = (c, ok', j')" by (metis prod_cases3)
    have "(chunks, ok, j) = (take (nat (ans i)) data # c, ok', j')"
      using 1(2) unfolding write_all.simps [of ans i data] if_not_P [OF ne] Let_def if_not_P [OF pos] w by simp
    then have r: "chunks = take (nat (ans i)) data # c" "ok = ok'" by simp_all
    from 1(1) [OF ne refl pos w] obtain rest where
      h: "ok' \<longrightarrow> concat c = drop (nat (ans i)) data" "drop (nat (ans i)) data = concat c @ rest" by blast
    have "concat chunks @ rest = take (nat (ans i)) data @ drop (nat (ans i)) data"
      using h(2) by (simp add: r(1))
    moreover have "concat chunks = take (nat (ans i)) data @ drop (nat (ans i)) data" if ok
      using h(1) that r(2) by (simp add: r(1))
    ultimately show ?thesis by (metis append_take_drop_id)
  qed
qed

lemma write_file_writes:
  "write_file ans hdr data = (chunks, True) \<Longrightarrow> concat chunks = hdr @ data"
  using write_all_writes [of ans] by (auto simp: write_file_def Let_def split: prod.splits if_splits)

text \<open>A file system that makes progress writes everything and reads everything.\<close>

lemma write_all_progress:
  "(\<And>k. 0 < ans k) \<Longrightarrow> \<exists>chunks j. write_all ans i data = (chunks, True, j)"
proof (induction ans i data rule: write_all.induct)
  case (1 ans i data)
  show ?case
  proof (cases "data = []")
    case True then show ?thesis by (simp add: write_all.simps)
  next
    case False
    moreover have "\<not> ans i \<le> 0" using 1(2) [of i] by simp
    ultimately obtain c j where "write_all ans (i + 1) (drop (nat (ans i)) data) = (c, True, j)"
      using 1(1) [OF False refl _ 1(2)] by blast
    then show ?thesis using False \<open>\<not> ans i \<le> 0\<close> by (subst write_all.simps) (simp add: Let_def)
  qed
qed

lemma read_all_short:
  "read_all ans i n rest = Some bs \<Longrightarrow> n \<le> length rest \<and> bs = take n rest"
proof (induction ans i n rest arbitrary: bs rule: read_all.induct)
  case (1 ans i n rest)
  show ?case
  proof (cases "n = 0")
    case True then show ?thesis using 1(2) by (simp add: read_all.simps)
  next
    case False
    define r where "r = sys_read (ans i) n rest"
    have eq: "(if r \<le> 0 then None else map_option ((@) (take (nat r) rest))
        (read_all ans (i + 1) (n - nat r) (drop (nat r) rest))) = Some bs"
      using 1(2) unfolding read_all.simps [of ans i n rest] if_not_P [OF False] Let_def r_def [symmetric] .
    then have pos: "\<not> r \<le> 0" by (simp split: if_splits)
    with eq obtain cs where cs: "read_all ans (i + 1) (n - nat r) (drop (nat r) rest) = Some cs"
      "bs = take (nat r) rest @ cs" by auto
    have le: "nat r \<le> n" "nat r \<le> length rest" using pos by (auto simp: r_def sys_read_def split: if_splits)
    from 1(1) [OF False r_def pos cs(1)]
    have "n - nat r \<le> length rest - nat r" "cs = take (n - nat r) (drop (nat r) rest)" by simp_all
    then show ?thesis using le cs(2) by (simp add: take_add [symmetric])
  qed
qed

lemma read_all_progress:
  "(\<And>k. 0 < ans k) \<Longrightarrow> n \<le> length rest \<Longrightarrow> read_all ans i n rest = Some (take n rest)"
proof (induction ans i n rest rule: read_all.induct)
  case (1 ans i n rest)
  show ?case
  proof (cases "n = 0")
    case True then show ?thesis by (simp add: read_all.simps)
  next
    case False
    define r where "r = sys_read (ans i) n rest"
    have pos: "\<not> r \<le> 0" using 1(2) [of i] 1(3) False by (auto simp: r_def sys_read_def)
    have le: "nat r \<le> n" "nat r \<le> length rest" using pos by (auto simp: r_def sys_read_def split: if_splits)
    have "read_all ans (i + 1) (n - nat r) (drop (nat r) rest) = Some (take (n - nat r) (drop (nat r) rest))"
      using 1(1) [OF False r_def pos 1(2)] 1(3) by simp
    then show ?thesis using False pos le
      by (subst read_all.simps) (simp add: Let_def flip: r_def take_add)
  qed
qed

subsection \<open>Paths\<close>

lemma path_inject [simp]: "checkpoint_path base m = checkpoint_path base n \<longleftrightarrow> m = n"
  by (simp add: checkpoint_path_def)

lemma tmp_no_path: "checkpoint_path base m \<noteq> checkpoint_path base n @ ''.tmp''"
proof
  assume "checkpoint_path base m = checkpoint_path base n @ ''.tmp''"
  from arg_cong [OF this, of last] show False by (simp add: checkpoint_path_def)
qed

subsection \<open>What a save passes through\<close>

definition saved_file :: "u8 list \<Rightarrow> bool \<Rightarrow> ckpt_file" where
  "saved_file bytes sync = \<lparr>contents = ckpt_header (length bytes) (crc32 bytes) @ bytes, synced = sync\<rparr>"

lemma save_states:
  assumes "save base env name (Some bytes) fs = (trace, r)" "s \<in> set trace"
  shows "p \<noteq> checkpoint_path base name \<Longrightarrow> p \<noteq> checkpoint_path base name @ ''.tmp'' \<Longrightarrow> s p = fs p"
    and "s (checkpoint_path base name) = fs (checkpoint_path base name) \<or>
      s (checkpoint_path base name) = Some (saved_file bytes (se_fsync env))"
proof -
  let ?path = "checkpoint_path base name"
  obtain chunks ok where w: "write_file (se_write env) (ckpt_header (length bytes) (crc32 bytes)) bytes = (chunks, ok)"
    by fastforce
  have tmp: "?path \<noteq> ?path @ ''.tmp''" by simp
  show "p \<noteq> ?path \<Longrightarrow> p \<noteq> ?path @ ''.tmp'' \<Longrightarrow> s p = fs p"
    using assms w by (auto simp: save_def Let_def split: if_splits prod.splits sum.splits)
  have "concat chunks = ckpt_header (length bytes) (crc32 bytes) @ bytes" if ok
    using write_file_writes w that by simp
  then show "s ?path = fs ?path \<or> s ?path = Some (saved_file bytes (se_fsync env))"
    using assms w tmp by (auto simp: save_def Let_def saved_file_def split: if_splits prod.splits sum.splits)
qed

lemma save_done:
  assumes "save base env name (Some bytes) fs = (trace, Inr ())"
  shows "trace \<noteq> [] \<and> last trace (checkpoint_path base name) = Some (saved_file bytes (se_fsync env))"
proof -
  obtain chunks ok where w: "write_file (se_write env) (ckpt_header (length bytes) (crc32 bytes)) bytes = (chunks, ok)"
    by fastforce
  have "concat chunks = ckpt_header (length bytes) (crc32 bytes) @ bytes" if ok
    using write_file_writes w that by simp
  then show ?thesis
    using assms w by (auto simp: save_def Let_def saved_file_def split: if_splits prod.splits sum.splits)
qed

subsection \<open>What a load sees\<close>

lemma load_cong: "s (checkpoint_path base name) = t (checkpoint_path base name) \<Longrightarrow>
  load base env name s = load base env name t"
  by (simp add: load_def)

definition reads_ok :: "load_env \<Rightarrow> bool" where
  "reads_ok env \<longleftrightarrow> le_open env \<and> int CKPT_HEADER \<le> le_read env 0 \<and> (\<forall>k. 0 < le_read env k)"

lemma ckpt_header_fields:
  assumes "len < 2 ^ 64"
  shows "length (ckpt_header len crc) = CKPT_HEADER"
    "le_value (slice_of 0 8 (ckpt_header len crc)) = CKPT_MAGIC"
    "le_value (slice_of 8 8 (ckpt_header len crc)) = CKPT_VERSION"
    "le_value (slice_of 16 8 (ckpt_header len crc)) = len"
    "le_value (slice_of 24 4 (ckpt_header len crc)) = unat crc"
proof -
  have "unat crc < 256 ^ 4" using unsigned_less [of crc] by simp
  moreover have "len < 256 ^ 8" using assms by simp
  ultimately show "length (ckpt_header len crc) = CKPT_HEADER"
    "le_value (slice_of 0 8 (ckpt_header len crc)) = CKPT_MAGIC"
    "le_value (slice_of 8 8 (ckpt_header len crc)) = CKPT_VERSION"
    "le_value (slice_of 16 8 (ckpt_header len crc)) = len"
    "le_value (slice_of 24 4 (ckpt_header len crc)) = unat crc"
    by (simp_all add: ckpt_header_def CKPT_HEADER_def slice_of_def drop_append CKPT_MAGIC_def CKPT_VERSION_def
      del: le_bytes.simps)
qed

text \<open>A file with a good header and data of the announced length: the checksum decides.\<close>

lemma load_file:
  assumes "fs (checkpoint_path base name) = Some f"
    and "contents f = ckpt_header (length data) crc @ data" "length data < 2 ^ 64" "length data \<le> le_limit env" "reads_ok env"
  shows "load base env name fs = Some (if crc32 data = crc then Inr data
    else Inl (''Checksum mismatch for checkpoint '' @ [CHR 39] @ name @ [CHR 39] @ '': stored='' @
      dec_nat (unat crc) @ '' computed='' @ dec_nat (unat (crc32 data))))"
proof -
  note h = ckpt_header_fields [OF assms(3), of crc]
  have hd: "take CKPT_HEADER (contents f) = ckpt_header (length data) crc" "drop CKPT_HEADER (contents f) = data"
    using h(1) by (simp_all add: assms(2))
  have n: "sys_read (le_read env 0) CKPT_HEADER (contents f) = int CKPT_HEADER"
    using assms(5) h(1) by (auto simp: sys_read_def reads_ok_def assms(2) min_def)
  have "read_all (le_read env) 1 (length data) data = Some data"
    using read_all_progress [of "le_read env" "length data" data 1] assms(5) by (simp add: reads_ok_def)
  moreover have "unat (crc32 data) = unat crc \<longleftrightarrow> crc32 data = crc"
    by (auto dest: unsigned_word_eqI)
  ultimately show ?thesis
    using assms(1,4,5) by (simp add: load_def Let_def hd n h reads_ok_def)
qed

subsection \<open>The checksum detects bursts\<close>

lemma xor_cancel_word [simp]: "a XOR x = b XOR x \<longleftrightarrow> a = b" for a b x :: "'a::len word"
  by (metis xor.assoc xor_self_eq xor.right_neutral)

lemma crc_shift_inject: "crc_shift a = crc_shift b \<longleftrightarrow> a = b"
proof
  assume eq: "crc_shift a = crc_shift b"
  have "\<not> bit c 32" for c :: u32 by (auto dest: bit_imp_le_length)
  then have top: "bit (crc_shift c) 31 = bit c 0" for c :: u32
    by (simp add: crc_shift_alt bit_simps bit_numeral_rec)
  have low: "bit a 0 = bit b 0" using eq top by metis
  then have "drop_bit 1 a = drop_bit 1 b"
    using eq by (simp add: crc_shift_alt split: if_splits)
  then have "bit a (Suc n) = bit b (Suc n)" for n
    by (metis bit_drop_bit_eq comp_apply plus_1_eq_Suc)
  with low have "bit a n = bit b n" for n by (cases n) simp_all
  then show "a = b" by (simp add: bit_eq_iff)
qed simp

lemma crc_shifts_inject [simp]: "(crc_shift ^^ k) a = (crc_shift ^^ k) b \<longleftrightarrow> a = b"
  by (induction k) (simp_all add: crc_shift_inject)

lemma crc_state_inject [simp]: "foldl crc_byte c bs = foldl crc_byte d bs \<longleftrightarrow> c = d"
proof (induction bs arbitrary: c d)
  case (Cons b bs)
  then show ?case by (simp add: crc_byte_bitwise)
qed simp

text \<open>Up to four bytes pass through the register as one word.\<close>

lemma crc_burst:
  assumes "length bs \<le> 4"
  shows "foldl crc_byte c bs = (crc_shift ^^ (8 * length bs)) (c XOR word_of_nat (le_value bs))"
  using assms
proof (induction bs arbitrary: c)
  case (Cons b bs)
  define W where "W = (word_of_nat (le_value bs) :: u32)"
  have n: "length bs \<le> 3" using Cons.prems by simp
  have "le_value bs < 256 ^ 3"
    using le_value_less [of bs] n power_increasing [of "length bs" 3 "256 :: nat"] by linarith
  then have small: "le_value bs < 2 ^ 24" by simp
  then have "W = word_of_nat (take_bit 24 (le_value bs))" by (simp add: W_def take_bit_nat_eq_self)
  then have high: "bit W i \<Longrightarrow> i < 24" for i
    by (auto simp: bit_simps)
  have "drop_bit 8 (push_bit 8 W) = W"
    by (rule bit_eqI) (use high in \<open>force simp: bit_simps\<close>)
  then have W: "(crc_shift ^^ 8) (push_bit 8 W) = W"
    using crc_shifts_zero [of 8 "push_bit 8 W"] by (simp add: bit_simps)
  have "(word_of_nat (le_value (b # bs)) :: u32) = ucast b + push_bit 8 W"
    by (simp add: W_def push_bit_eq_mult)
  also have "\<dots> = ucast b XOR push_bit 8 W"
    by (rule disjunctive_add_eq_xor) (rule bit_eqI, auto simp: bit_simps dest: bit_imp_le_length)
  finally have word: "(word_of_nat (le_value (b # bs)) :: u32) = ucast b XOR push_bit 8 W" .
  have "foldl crc_byte c (b # bs) = (crc_shift ^^ (8 * length bs)) ((crc_shift ^^ 8) (c XOR ucast b) XOR W)"
    using Cons.IH [of "crc_byte c b"] n by (simp add: W_def crc_byte_bitwise [of c b])
  also have "\<dots> = (crc_shift ^^ (8 * length bs)) ((crc_shift ^^ 8) ((c XOR ucast b) XOR push_bit 8 W))"
    by (simp only: crc_shifts_xor W)
  also have "\<dots> = (crc_shift ^^ (8 * length (b # bs))) (c XOR word_of_nat (le_value (b # bs)))"
  proof -
    have "8 * length (b # bs) = 8 * length bs + 8" by simp
    then show ?thesis by (simp only: funpow_add comp_apply word xor.assoc)
  qed
  finally show ?case .
qed simp

lemma crc32_detects:
  assumes "length bs = length cs" "length bs \<le> 4" "bs \<noteq> cs"
  shows "crc32 (as @ bs @ ds) \<noteq> crc32 (as @ cs @ ds)"
proof
  assume "crc32 (as @ bs @ ds) = crc32 (as @ cs @ ds)"
  then have "(word_of_nat (le_value bs) :: u32) = word_of_nat (le_value cs)"
    using assms(1,2) by (simp add: crc32_def crc_burst xor.commute [of _ "word_of_nat _"])
  moreover have "le_value bs < 2 ^ 32" "le_value cs < 2 ^ 32"
    using le_value_less [of bs] le_value_less [of cs] assms(1,2)
      power_increasing [of "length bs" 4 "256 :: nat"] by simp_all
  ultimately have "le_value bs = le_value cs" by (simp add: word_of_nat_eq_iff take_bit_nat_eq_self)
  then show False using assms(1,3) by (metis le_bytes_value)
qed

subsection \<open>Properties\<close>

text \<open>C11. A checkpoint is replaced atomically, provided that \<open>fsync\<close> succeeds, whose result the code ignores
  (otherwise the data can be lost, see \<open>unsynced_save_lost\<close>), and that the checkpoints that exist before
  the save have been synchronised.  Wherever the save is interrupted -- after any system call, with any
  bytes written so far -- and whatever the crash does to unsynchronised files, loading the checkpoint
  afterwards gives what it gave before or the new data, and every other checkpoint loads as before; the
  loads have memory for the data, their first read returns the whole header and every other read makes
  progress.\<close>

theorem checkpoint_save_atomic:
  assumes "save base env name (Some bytes) fs = (trace, r)" "se_fsync env"
    and "\<And>n f. fs (checkpoint_path base n) = Some f \<Longrightarrow> synced f"
    and "s \<in> set trace" "after_crash s s'"
    and "reads_ok lenv" "length bytes < 2 ^ 64" "length bytes \<le> le_limit lenv"
  shows "load base lenv name s' \<in> {load base lenv name fs, Some (Inr bytes)} \<and>
    (\<forall>m. m \<noteq> name \<longrightarrow> load base lenv m s' = load base lenv m fs)"
proof -
  have crash: "s' p = s p" if "\<And>f. s p = Some f \<Longrightarrow> synced f" for p
    using assms(5) [unfolded after_crash_def, rule_format, of p] that by (cases "s p") simp_all
  have other: "s (checkpoint_path base m) = fs (checkpoint_path base m)" if "m \<noteq> name" for m
    using save_states(1) [OF assms(1,4)] tmp_no_path that by simp
  have "load base lenv m s' = load base lenv m fs" if "m \<noteq> name" for m
    using crash [of "checkpoint_path base m"] other [OF that] assms(3) by (intro load_cong) simp
  moreover have "s' (checkpoint_path base name) = fs (checkpoint_path base name) \<or>
      s' (checkpoint_path base name) = Some (saved_file bytes True)"
    using save_states(2) [OF assms(1,4)] crash [of "checkpoint_path base name"] assms(2,3)
    by (auto simp: saved_file_def)
  then have "load base lenv name s' = load base lenv name fs \<or> load base lenv name s' = Some (Inr bytes)"
  proof
    assume "s' (checkpoint_path base name) = fs (checkpoint_path base name)"
    then show ?thesis by (intro disjI1 load_cong)
  next
    assume "s' (checkpoint_path base name) = Some (saved_file bytes True)"
    then show ?thesis
      using load_file [of s' base name _ bytes "crc32 bytes" lenv] assms(6-8) by (simp add: saved_file_def)
  qed
  ultimately show ?thesis by blast
qed

text \<open>C13. What has been saved is loaded: after a save that reports success, however its writes were split into
  calls, a load returns exactly the data, if it has memory for them, its first read returns the whole
  32-byte header in one call (\<open>load\<close> fails on a shorter one) and every further read, of any length, makes
  progress.\<close>

theorem checkpoint_roundtrip:
  assumes "save base env name (Some bytes) fs = (trace, Inr ())"
    and "reads_ok lenv" "length bytes < 2 ^ 64" "length bytes \<le> le_limit lenv"
  shows "load base lenv name (last trace) = Some (Inr bytes)"
  using save_done [OF assms(1)]
    load_file [of "last trace" base name "saved_file bytes (se_fsync env)" bytes "crc32 bytes" lenv] assms(2-4)
  by (simp add: saved_file_def)

text \<open>C12. Corruption is detected: if up to four consecutive bytes of the data of a checkpoint have changed,
  \<open>load\<close> reports a checksum mismatch instead of returning them.\<close>

theorem checkpoint_detects_corruption:
  assumes "fs (checkpoint_path base name) = Some (saved_file (as @ bs @ ds) sync)"
    and "length cs = length bs" "length bs \<le> 4" "cs \<noteq> bs"
    and "fs' = fs(checkpoint_path base name \<mapsto>
      \<lparr>contents = take CKPT_HEADER (contents (saved_file (as @ bs @ ds) sync)) @ as @ cs @ ds, synced = sync\<rparr>)"
    and "reads_ok env" "length (as @ bs @ ds) < 2 ^ 64" "length (as @ bs @ ds) \<le> le_limit env"
  shows "\<exists>msg. load base env name fs' = Some (Inl (''Checksum mismatch for checkpoint '' @ msg))"
proof -
  have len: "length (as @ cs @ ds) = length (as @ bs @ ds)" using assms(2) by simp
  have "crc32 (as @ cs @ ds) \<noteq> crc32 (as @ bs @ ds)"
    using crc32_detects [of cs bs] assms(2-4) by simp
  moreover have "take CKPT_HEADER (contents (saved_file (as @ bs @ ds) sync)) =
      ckpt_header (length (as @ cs @ ds)) (crc32 (as @ bs @ ds))"
    using ckpt_header_fields(1) [OF assms(7)] len by (simp add: saved_file_def)
  ultimately show ?thesis
    using load_file [of fs' base name "the (fs' (checkpoint_path base name))" "as @ cs @ ds" "crc32 (as @ bs @ ds)" env]
      assms(5-8) len by simp
qed

text \<open>The listing shows exactly the checkpoints, never a temporary file.\<close>

lemma list_names_iff:
  assumes "name \<noteq> []" shows "name \<in> set (list_names entries) \<longleftrightarrow> name @ ''.ckpt'' \<in> set entries"
proof
  assume "name \<in> set (list_names entries)"
  then obtain f where "f \<in> set entries" "5 < length f" "drop (length f - 5) f = ''.ckpt''"
    "name = take (length f - 5) f"
    by (auto simp: list_names_def split: if_splits)
  moreover have "f = take (length f - 5) f @ drop (length f - 5) f" by simp
  ultimately show "name @ ''.ckpt'' \<in> set entries" by metis
next
  assume "name @ ''.ckpt'' \<in> set entries"
  then show "name \<in> set (list_names entries)"
    using assms by (force simp: list_names_def)
qed

text \<open>A save whose system calls succeed and make progress succeeds.\<close>

lemma save_succeeds:
  assumes "name \<noteq> ''''" "bytes \<noteq> []" "se_stat1 env = Some True" "se_open env" "\<And>k. 0 < se_write env k" "se_rename env"
  shows "\<exists>trace. save base env name (Some bytes) fs = (trace, Inr ())"
proof -
  let ?hdr = "ckpt_header (length bytes) (crc32 bytes)"
  obtain c1 j where 1: "write_all (se_write env) 0 ?hdr = (c1, True, j)"
    using write_all_progress [of "se_write env"] assms(5) by blast
  obtain c2 k where "write_all (se_write env) j bytes = (c2, True, k)"
    using write_all_progress [of "se_write env"] assms(5) by blast
  with 1 have "write_file (se_write env) ?hdr bytes = (c1 @ c2, True)" by (simp add: write_file_def)
  then show ?thesis using assms by (simp add: save_def ensure_dir_def Let_def)
qed

text \<open>
  The result of \<open>fsync\<close> is not looked at: when it fails, a save reports success and a crash can leave
  an empty file in the place of the old checkpoint.
\<close>

lemma unsynced_save_lost:
  assumes "save base env name (Some bytes) fs = (trace, Inr ())" "\<not> se_fsync env"
  shows "after_crash (last trace) ((last trace)(checkpoint_path base name \<mapsto> \<lparr>contents = [], synced = False\<rparr>))"
  using save_done [OF assms(1)] assms(2) by (auto simp: after_crash_def saved_file_def split: option.splits)

subsection \<open>Witnesses\<close>

definition good_save :: save_env where
  "good_save = \<lparr>se_stat1 = Some True, se_stat2 = None, se_open = True, se_write = (\<lambda>_. 7), se_fsync = True,
     se_rename = True, se_errno = ''''\<rparr>"

definition good_load :: load_env where
  "good_load = \<lparr>le_open = True, le_read = (\<lambda>k. if k = 0 then 32 else 5), le_limit = 1000000, le_errno = ''ENOENT''\<rparr>"

lemma good_reads: "reads_ok good_load" "le_limit good_load = 1000000"
  by (simp_all add: reads_ok_def good_load_def CKPT_HEADER_def)

lemma good_saves:
  "bytes \<noteq> [] \<Longrightarrow> \<exists>trace. save base good_save ''model'' (Some bytes) fs = (trace, Inr ())"
  by (rule save_succeeds) (simp_all add: good_save_def)

theorem checkpoint_roundtrip_witness:
  "\<exists>trace. save ''/c'' good_save ''model'' (Some [1, 2, 3]) (\<lambda>_. None) = (trace, Inr ()) \<and>
     load ''/c'' good_load ''model'' (last trace) = Some (Inr [1, 2, 3])"
proof -
  obtain trace where s: "save ''/c'' good_save ''model'' (Some [1, 2, 3]) (\<lambda>_. None) = (trace, Inr ())"
    using good_saves [of "[1, 2, 3]"] by auto
  from checkpoint_roundtrip [OF s good_reads(1)] s show ?thesis by (simp add: good_reads)
qed

theorem checkpoint_save_atomic_witness:
  "\<exists>trace. save ''/c'' good_save ''model'' (Some [1, 2, 3])
       [checkpoint_path ''/c'' ''model'' \<mapsto> saved_file [9] True] = (trace, Inr ()) \<and>
     load ''/c'' good_load ''model'' (last trace) \<in> {Some (Inr [9]), Some (Inr [1, 2, 3])}"
proof -
  define fs where "fs = [checkpoint_path ''/c'' ''model'' \<mapsto> saved_file [9] True]"
  obtain trace where s: "save ''/c'' good_save ''model'' (Some [1, 2, 3]) fs = (trace, Inr ())"
    using good_saves [of "[1, 2, 3]"] by auto
  have old: "load ''/c'' good_load ''model'' fs = Some (Inr [9])"
    using load_file [of fs "''/c''" "''model''" _ "[9]" "crc32 [9]" good_load]
    by (simp add: fs_def saved_file_def good_reads)
  have syn: "synced f" if "fs (checkpoint_path ''/c'' n) = Some f" for n f
    using that by (auto simp: fs_def saved_file_def split: if_splits)
  have mem: "last trace \<in> set trace" using save_done [OF s] by simp
  have same: "after_crash (last trace) (last trace)" by (simp add: after_crash_def split: option.splits)
  have "se_fsync good_save" by (simp add: good_save_def)
  from checkpoint_save_atomic [OF s this syn mem same good_reads(1)]
  have "load ''/c'' good_load ''model'' (last trace) \<in> {Some (Inr [9]), Some (Inr [1, 2, 3])}"
    by (simp add: old good_reads)
  with s show ?thesis unfolding fs_def by blast
qed

theorem checkpoint_detects_corruption_witness:
  "\<exists>msg. load ''/c'' good_load ''model'' [checkpoint_path ''/c'' ''model'' \<mapsto>
     \<lparr>contents = take CKPT_HEADER (contents (saved_file [1, 2, 3, 4, 5, 6] True)) @ [1, 9, 8, 7, 5, 6], synced = True\<rparr>]
     = Some (Inl (''Checksum mismatch for checkpoint '' @ msg))"
  using checkpoint_detects_corruption [of "[checkpoint_path ''/c'' ''model'' \<mapsto> saved_file [1, 2, 3, 4, 5, 6] True]"
    "''/c''" "''model''" "[1]" "[2, 3, 4]" "[5, 6]" True "[9, 8, 7]", OF _ _ _ _ refl good_reads(1)]
  by (simp add: good_reads)

end
