(* ===== verification/Pmem_Alloc.thy ===== *)
theory Pmem_Alloc
  imports Memory Decimal
begin

unbundle bit_operations_syntax

text \<open>
  The free-list allocator of a persistent region (\<open>bin/pmem/allocator.h\<close>, \<open>bin/pmem/allocator.cpp\<close>).
  The region is a list of bytes at a base address; block headers, the free list included, live in it.
  An address is a number, 0 is the null pointer, an access outside the region is \<open>None\<close>, and so is
  a walk of the free list that never ends.
\<close>

subsection \<open>State\<close>

record allocator =
  region :: "u8 list"
  pa_base :: nat
  pa_total :: nat
  pa_used :: nat
  pa_overhead :: nat
  free_list :: nat

definition new_allocator :: allocator where
  "new_allocator = \<lparr>region = [], pa_base = 0, pa_total = 0, pa_used = 0, pa_overhead = 0, free_list = 0\<rparr>"

definition BLOCK_HEADER_SIZE :: nat where "BLOCK_HEADER_SIZE = 16"
definition MIN_BLOCK_SIZE :: nat where "MIN_BLOCK_SIZE = 64"

definition available :: "allocator \<Rightarrow> nat" where
  "available s = size_t (pa_total s + 2 * 2 ^ 64 - pa_used s - pa_overhead s)"

definition align_up :: "nat \<Rightarrow> nat \<Rightarrow> nat" where
  "align_up val alignment =
     unat ((of_nat val + of_nat alignment - 1 :: u64) AND NOT (of_nat alignment - 1))"

text \<open>The fields of the header at an address: the size, and the next free block.\<close>

definition hdr_size :: "allocator \<Rightarrow> nat \<Rightarrow> nat option" where
  "hdr_size s a = (if a < pa_base s then None else read_field (a - pa_base s) 8 (region s))"

definition hdr_next :: "allocator \<Rightarrow> nat \<Rightarrow> nat option" where
  "hdr_next s a = (if a < pa_base s then None else read_field (a - pa_base s + 8) 8 (region s))"

definition set_size :: "nat \<Rightarrow> nat \<Rightarrow> allocator \<Rightarrow> allocator option" where
  "set_size a v s = (if a < pa_base s then None
     else map_option (\<lambda>r. s\<lparr>region := r\<rparr>) (write_bytes (a - pa_base s) (le_bytes 8 v) (region s)))"

definition set_next :: "nat \<Rightarrow> nat \<Rightarrow> allocator \<Rightarrow> allocator option" where
  "set_next a v s = (if a < pa_base s then None
     else map_option (\<lambda>r. s\<lparr>region := r\<rparr>) (write_bytes (a - pa_base s + 8) (le_bytes 8 v) (region s)))"

text \<open>The predecessor of a block in the free list, or the head of the list, is set.\<close>

definition link :: "nat \<Rightarrow> nat \<Rightarrow> allocator \<Rightarrow> allocator option" where
  "link prev a s = (if prev \<noteq> 0 then set_next prev a s else Some (s\<lparr>free_list := a\<rparr>))"

subsection \<open>Operations\<close>

text \<open>\<open>mem\<close> is what the memory at \<open>base\<close> holds.\<close>

definition alloc_init :: "nat \<Rightarrow> nat \<Rightarrow> u8 list \<Rightarrow> allocator \<Rightarrow> (allocator \<times> (string + unit)) option" where
  "alloc_init base sz mem s =
     (if base = 0 then Some (s, Inl ''Base pointer is null'')
      else if sz < MIN_BLOCK_SIZE * 2 then
        Some (s, Inl (''Region too small: need at least '' @ dec_nat (MIN_BLOCK_SIZE * 2) @ '' bytes''))
      else do {
        let s = \<lparr>region = mem, pa_base = base, pa_total = sz, pa_used = 0, pa_overhead = 0, free_list = base\<rparr>;
        s \<leftarrow> set_size base sz s;
        s \<leftarrow> set_next base 0 s;
        Some (s, Inr ()) })"

text \<open>A block of the free list is taken: split, if what remains is large enough, or whole.\<close>

definition take_block :: "nat \<Rightarrow> nat \<Rightarrow> nat \<Rightarrow> nat \<Rightarrow> allocator \<Rightarrow> (allocator \<times> nat) option" where
  "take_block prev cur sz actual_needed s =
     (let remainder = sz - actual_needed in
      if remainder \<ge> MIN_BLOCK_SIZE then do {
        let new_free = cur + actual_needed;
        s \<leftarrow> set_size new_free remainder s;
        n \<leftarrow> hdr_next s cur;
        s \<leftarrow> set_next new_free n s;
        s \<leftarrow> link prev new_free s;
        s \<leftarrow> set_size cur actual_needed s;
        Some (s, actual_needed) }
      else do {
        n \<leftarrow> hdr_next s cur;
        s \<leftarrow> link prev n s;
        Some (s, sz) })"

partial_function (option) alloc_loop ::
  "nat \<Rightarrow> nat \<Rightarrow> nat \<Rightarrow> nat \<Rightarrow> allocator \<Rightarrow> (allocator \<times> nat option) option" where
  "alloc_loop total_needed align prev cur s =
     (if cur = 0 then Some (s, None)
      else do {
        size \<leftarrow> hdr_size s cur;
        let user_addr = size_t (cur + BLOCK_HEADER_SIZE);
        let padding = size_t (align_up user_addr align + 2 ^ 64 - user_addr);
        let actual_needed = size_t (total_needed + padding);
        if size \<ge> total_needed \<and> size \<ge> actual_needed then do {
          (s, taken) \<leftarrow> take_block prev cur size actual_needed s;
          let s = s\<lparr>pa_used := size_t (pa_used s + taken),
                    pa_overhead := size_t (pa_overhead s + (BLOCK_HEADER_SIZE + padding))\<rparr>;
          s \<leftarrow> set_next cur 0 s;
          Some (s, Some (align_up user_addr align)) }
        else do {
          n \<leftarrow> hdr_next s cur;
          alloc_loop total_needed align cur n s } })"

definition alloc :: "nat \<Rightarrow> nat \<Rightarrow> allocator \<Rightarrow> (allocator \<times> (string + nat)) option" where
  "alloc bytes align s =
     (if bytes = 0 then Some (s, Inl ''Cannot allocate zero bytes'')
      else if pa_base s = 0 then Some (s, Inl ''Allocator not initialized'')
      else do {
        let needed = align_up bytes (max align 8);
        let total_needed = max (size_t (BLOCK_HEADER_SIZE + needed)) MIN_BLOCK_SIZE;
        (s, found) \<leftarrow> alloc_loop total_needed align 0 (free_list s) s;
        Some (s, case found of
            Some p \<Rightarrow> Inr p
          | None \<Rightarrow> Inl (''Out of persistent memory: requested '' @ dec_nat bytes
              @ '' bytes, available ~'' @ dec_nat (available s))) })"

partial_function (option) coalesce_from :: "nat \<Rightarrow> allocator \<Rightarrow> allocator option" where
  "coalesce_from cur s =
     (if cur = 0 then Some s
      else do {
        n \<leftarrow> hdr_next s cur;
        if n = 0 then Some s
        else do {
          size \<leftarrow> hdr_size s cur;
          if size_t (cur + size) = n then do {
            m \<leftarrow> hdr_size s n;
            s \<leftarrow> set_size cur (size_t (size + m)) s;
            n2 \<leftarrow> hdr_next s n;
            s \<leftarrow> set_next cur n2 s;
            coalesce_from cur s }
          else coalesce_from n s } })"

definition coalesce :: "allocator \<Rightarrow> allocator option" where
  "coalesce s = coalesce_from (free_list s) s"

partial_function (option) find_place :: "allocator \<Rightarrow> nat \<Rightarrow> nat \<Rightarrow> nat \<Rightarrow> (nat \<times> nat) option" where
  "find_place s header prev cur =
     (if cur \<noteq> 0 \<and> cur < header then do {
        n \<leftarrow> hdr_next s cur;
        find_place s header cur n }
      else Some (prev, cur))"

definition alloc_free :: "nat \<Rightarrow> allocator \<Rightarrow> (allocator \<times> (string + unit)) option" where
  "alloc_free ptr s =
     (if ptr = 0 then Some (s, Inl ''Cannot free null pointer'')
      else if pa_base s = 0 then Some (s, Inl ''Allocator not initialized'')
      else if ptr < pa_base s \<or> ptr \<ge> size_t (pa_base s + pa_total s) then
        Some (s, Inl ''Pointer not within managed region'')
      else do {
        let header = size_t (ptr + 2 ^ 64 - BLOCK_HEADER_SIZE);
        block_size \<leftarrow> hdr_size s header;
        if block_size = 0 \<or> block_size > pa_total s then
          Some (s, Inl ''Corrupt block header or double free'')
        else do {
          let s = s\<lparr>pa_used := size_t (pa_used s + 2 ^ 64 - block_size)\<rparr>;
          (prev, cur) \<leftarrow> find_place s header 0 (free_list s);
          s \<leftarrow> set_next header cur s;
          s \<leftarrow> link prev header s;
          s \<leftarrow> coalesce s;
          Some (s, Inr ()) } })"

subsection \<open>Alignment\<close>

lemma and_not_mask: "(w :: u64) AND NOT (mask k) = push_bit k (drop_bit k w)"
  by (rule bit_word_eqI) (auto simp: bit_simps)

lemma align_up_pow:
  assumes "val + 2 ^ k \<le> 2 ^ 64" "k < 64"
  shows "align_up val (2 ^ k) = (val + 2 ^ k - 1) div 2 ^ k * 2 ^ k"
proof -
  have m: "(of_nat (2 ^ k) - 1 :: u64) = mask k" by (simp add: mask_eq_exp_minus_1)
  have s: "(of_nat val + of_nat (2 ^ k) - 1 :: u64) = of_nat (val + 2 ^ k - 1)"
    by (simp add: of_nat_diff Suc_le_eq)
  have u: "unat (of_nat (val + 2 ^ k - 1) :: u64) = val + 2 ^ k - 1"
    using assms(1) by (simp add: unat_of_nat)
  have t: "take_bit 64 (val + 2 ^ k - Suc 0) = val + 2 ^ k - Suc 0"
    using assms(1) by (simp add: take_bit_nat_eq_self_iff)
  have d: "(val + 2 ^ k - 1) div 2 ^ k * 2 ^ k < 2 ^ 64"
    using assms(1) by (intro le_less_trans [OF div_times_less_eq_dividend]) simp
  have "unat (push_bit k (drop_bit k (of_nat (val + 2 ^ k - 1) :: u64)))
      = take_bit 64 (push_bit k (drop_bit k (val + 2 ^ k - 1)))"
    by (simp add: unsigned_push_bit_eq unsigned_drop_bit_eq t u [simplified])
  also have "\<dots> = (val + 2 ^ k - 1) div 2 ^ k * 2 ^ k"
    using d by (simp add: push_bit_eq_mult drop_bit_eq_div take_bit_nat_eq_self_iff)
  finally show ?thesis unfolding align_up_def m s and_not_mask .
qed

lemma align_up_aligned:
  assumes "val mod 8 = 0" "a \<in> {1, 2, 4, 8}" "val + 8 \<le> 2 ^ 64"
  shows "align_up val a = val"
proof -
  obtain k where k: "a = 2 ^ k" "k \<le> 3"
  proof -
    have "a = 2 ^ 0 \<or> a = 2 ^ 1 \<or> a = 2 ^ 2 \<or> a = 2 ^ 3" using assms(2) by auto
    then show thesis using that [of 0] that [of 1] that [of 2] that [of 3] by auto
  qed
  have "a dvd 8" using assms(2) by auto
  then have "a dvd val" using assms(1) by (meson dvd_trans mod_0_imp_dvd)
  then obtain j where j: "val = a * j" by blast
  have "a > 0" "a \<le> 8" using assms(2) by auto
  then have "(val + a - 1) div a = j"
    unfolding j by (metis add.commute add_diff_assoc2 assms(2) div_less div_mult_self2 diff_less One_nat_def Suc_leI
        add_0 zero_less_one less_numeral_extra(3))
  moreover have "align_up val (2 ^ k) = (val + 2 ^ k - 1) div 2 ^ k * 2 ^ k"
    using assms(3) k \<open>a \<le> 8\<close> by (intro align_up_pow) auto
  ultimately show ?thesis using j k(1) by simp
qed

subsection \<open>Headers\<close>

definition hsz :: "nat \<Rightarrow> u8 list \<Rightarrow> nat \<Rightarrow> nat" where
  "hsz b r a = le_value (slice_of (a - b) 8 r)"

definition hnx :: "nat \<Rightarrow> u8 list \<Rightarrow> nat \<Rightarrow> nat" where
  "hnx b r a = le_value (slice_of (a - b + 8) 8 r)"

definition inside :: "allocator \<Rightarrow> nat \<Rightarrow> bool" where
  "inside s a \<longleftrightarrow> pa_base s \<le> a \<and> a + 16 \<le> pa_base s + length (region s)"

definition far :: "nat \<Rightarrow> nat \<Rightarrow> bool" where
  "far a b \<longleftrightarrow> a + 16 \<le> b \<or> b + 16 \<le> a"

text \<open>Only bytes of the headers at some addresses differ.\<close>

definition touched :: "nat \<Rightarrow> nat set \<Rightarrow> u8 list \<Rightarrow> u8 list \<Rightarrow> bool" where
  "touched b H r r' \<longleftrightarrow> length r' = length r
     \<and> (\<forall>k<length r. (\<forall>h\<in>H. b + k < h \<or> h + 16 \<le> b + k) \<longrightarrow> r' ! k = r ! k)"

lemma touched_refl [simp]: "touched b H r r"
  by (simp add: touched_def)

lemma touched_trans: "touched b H r r' \<Longrightarrow> touched b K r' r'' \<Longrightarrow> touched b (H \<union> K) r r''"
  by (simp add: touched_def)

lemma touched_mono: "touched b H r r' \<Longrightarrow> H \<subseteq> K \<Longrightarrow> touched b K r r'"
  unfolding touched_def by blast

lemma hdr_size_inside: "inside s a \<Longrightarrow> hdr_size s a = Some (hsz (pa_base s) (region s) a)"
  by (auto simp: inside_def hdr_size_def hsz_def read_field_def)

lemma hdr_next_inside: "inside s a \<Longrightarrow> hdr_next s a = Some (hnx (pa_base s) (region s) a)"
  by (auto simp: inside_def hdr_next_def hnx_def read_field_def)

lemma slice_far:
  assumes "\<forall>k<length r. b + k < x \<or> x + n \<le> b + k \<longrightarrow> r' ! k = r ! k" "length r' = length r"
    "b \<le> a" "a + m \<le> b + length r" "a + m \<le> x \<or> x + n \<le> a"
  shows "slice_of (a - b) m r' = slice_of (a - b) m r"
  using assms by (intro slice_cong) auto

lemma set_size_ex:
  assumes "inside s x" "v < 2 ^ 64"
  shows "\<exists>r. set_size x v s = Some (s\<lparr>region := r\<rparr>) \<and> touched (pa_base s) {x} (region s) r
    \<and> hsz (pa_base s) r x = v
    \<and> (\<forall>a. inside s a \<longrightarrow> far a x \<longrightarrow> hsz (pa_base s) r a = hsz (pa_base s) (region s) a)
    \<and> (\<forall>a. inside s a \<longrightarrow> a = x \<or> far a x \<longrightarrow> hnx (pa_base s) r a = hnx (pa_base s) (region s) a)"
proof -
  let ?b = "pa_base s" and ?m = "region s" and ?v = "le_bytes 8 v"
  have e: "x - ?b + length ?v \<le> length ?m" using assms(1) by (auto simp: inside_def)
  obtain r where r: "write_bytes (x - ?b) ?v ?m = Some r" "length r = length ?m"
    "\<forall>k<length ?m. r ! k = (if x - ?b \<le> k \<and> k < x - ?b + length ?v then ?v ! (k - (x - ?b)) else ?m ! k)"
    using write_bytes_ex [OF e] by blast
  have out: "\<forall>k<length ?m. ?b + k < x \<or> x + 8 \<le> ?b + k \<longrightarrow> r ! k = ?m ! k"
    using r(3) assms(1) by (auto simp: inside_def)
  have "slice_of (x - ?b) (length ?v) r = ?v" using r by (intro slice_written [OF r(2) e]) auto
  then have "hsz ?b r x = v" using assms(2) by (simp add: hsz_def)
  moreover have "hsz ?b r a = hsz ?b ?m a" if "inside s a" "far a x" for a
    using that slice_far [OF out r(2), of a 8] by (auto simp: hsz_def inside_def far_def)
  moreover have "hnx ?b r a = hnx ?b ?m a" if "inside s a" "a = x \<or> far a x" for a
    using that slice_far [OF out r(2), of "a + 8" 8] by (auto simp: hnx_def inside_def far_def)
  moreover have "touched ?b {x} ?m r" using out r(2) by (auto simp: touched_def)
  ultimately show ?thesis using r(1) assms(1) by (auto simp: set_size_def inside_def)
qed

lemma set_next_ex:
  assumes "inside s x" "v < 2 ^ 64"
  shows "\<exists>r. set_next x v s = Some (s\<lparr>region := r\<rparr>) \<and> touched (pa_base s) {x} (region s) r
    \<and> hnx (pa_base s) r x = v
    \<and> (\<forall>a. inside s a \<longrightarrow> far a x \<longrightarrow> hnx (pa_base s) r a = hnx (pa_base s) (region s) a)
    \<and> (\<forall>a. inside s a \<longrightarrow> a = x \<or> far a x \<longrightarrow> hsz (pa_base s) r a = hsz (pa_base s) (region s) a)"
proof -
  let ?b = "pa_base s" and ?m = "region s" and ?v = "le_bytes 8 v"
  have e: "x - ?b + 8 + length ?v \<le> length ?m" using assms(1) by (auto simp: inside_def)
  obtain r where r: "write_bytes (x - ?b + 8) ?v ?m = Some r" "length r = length ?m"
    "\<forall>k<length ?m. r ! k = (if x - ?b + 8 \<le> k \<and> k < x - ?b + 8 + length ?v
      then ?v ! (k - (x - ?b + 8)) else ?m ! k)"
    using write_bytes_ex [OF e] by blast
  have out: "\<forall>k<length ?m. ?b + k < x + 8 \<or> x + 8 + 8 \<le> ?b + k \<longrightarrow> r ! k = ?m ! k"
    using r(3) assms(1) by (auto simp: inside_def)
  have "slice_of (x - ?b + 8) (length ?v) r = ?v" using r by (intro slice_written [OF r(2) e]) auto
  then have "hnx ?b r x = v" using assms(2) by (simp add: hnx_def)
  moreover have "hnx ?b r a = hnx ?b ?m a" if "inside s a" "far a x" for a
    using that slice_far [OF out r(2), of "a + 8" 8] by (auto simp: hnx_def inside_def far_def)
  moreover have "hsz ?b r a = hsz ?b ?m a" if "inside s a" "a = x \<or> far a x" for a
    using that slice_far [OF out r(2), of a 8] by (auto simp: hsz_def inside_def far_def)
  moreover have "touched ?b {x} ?m r" using out r(2) by (auto simp: touched_def)
  ultimately show ?thesis using r(1) assms(1) by (auto simp: set_next_def inside_def)
qed

subsection \<open>Blocks\<close>

text \<open>The region as a sequence of blocks, each with its size and whether it is allocated.\<close>

type_synonym block = "nat \<times> bool"

definition span :: "block list \<Rightarrow> nat" where
  "span bs = sum_list (map fst bs)"

fun starts :: "nat \<Rightarrow> block list \<Rightarrow> nat list" where
  "starts a [] = []"
| "starts a ((n, l) # bs) = a # starts (a + n) bs"

fun frees :: "nat \<Rightarrow> block list \<Rightarrow> nat list" where
  "frees a [] = []"
| "frees a ((n, l) # bs) = (if l then frees (a + n) bs else a # frees (a + n) bs)"

text \<open>The addresses of the payload of an allocated block.\<close>

fun in_live :: "nat \<Rightarrow> block list \<Rightarrow> nat \<Rightarrow> bool" where
  "in_live a [] p \<longleftrightarrow> False"
| "in_live a ((n, l) # bs) p \<longleftrightarrow> (if p < a + n then l \<and> a + 16 \<le> p else in_live (a + n) bs p)"

text \<open>A segment of a linked list.\<close>

fun seg :: "(nat \<Rightarrow> nat) \<Rightarrow> nat \<Rightarrow> nat list \<Rightarrow> nat \<Rightarrow> bool" where
  "seg nx p [] q \<longleftrightarrow> p = q"
| "seg nx p (a # as) q \<longleftrightarrow> p = a \<and> seg nx (nx a) as q"

definition big :: "block list \<Rightarrow> bool" where
  "big bs \<longleftrightarrow> (\<forall>b\<in>set bs. 64 \<le> fst b)"

lemma span_simps [simp]: "span [] = 0" "span (b # bs) = fst b + span bs" "span (xs @ ys) = span xs + span ys"
  by (simp_all add: span_def)

lemma big_simps [simp]: "big []" "big (b # bs) \<longleftrightarrow> 64 \<le> fst b \<and> big bs" "big (xs @ ys) \<longleftrightarrow> big xs \<and> big ys"
  by (auto simp: big_def)

lemma starts_append [simp]: "starts a (xs @ ys) = starts a xs @ starts (a + span xs) ys"
  by (induction a xs rule: starts.induct) (simp_all add: add.assoc)

lemma frees_append [simp]: "frees a (xs @ ys) = frees a xs @ frees (a + span xs) ys"
  by (induction a xs rule: frees.induct) (simp_all add: add.assoc)

lemma length_starts [simp]: "length (starts a bs) = length bs"
  by (induction a bs rule: starts.induct) simp_all

lemma frees_starts: "set (frees a bs) \<subseteq> set (starts a bs)"
  by (induction a bs rule: frees.induct) auto

lemma frees_live: "\<forall>b\<in>set bs. snd b \<Longrightarrow> frees a bs = []"
  by (induction a bs rule: frees.induct) auto

lemma starts_bound: "big bs \<Longrightarrow> h \<in> set (starts a bs) \<Longrightarrow> a \<le> h \<and> h + 64 \<le> a + span bs"
proof (induction a bs rule: starts.induct)
  case (2 a n l bs)
  then show ?case by fastforce
qed simp

lemma starts_far: "big bs \<Longrightarrow> x \<in> set (starts a bs) \<Longrightarrow> y \<in> set (starts a bs) \<Longrightarrow> x \<noteq> y \<Longrightarrow> far x y"
proof (induction a bs rule: starts.induct)
  case (2 a n l bs)
  have "far a z" "far z a" if "z \<in> set (starts (a + n) bs)" for z
    using starts_bound [OF _ that] 2 by (auto simp: far_def)
  with 2 show ?case by auto
qed simp

lemma frees_far: "big bs \<Longrightarrow> x \<in> set (frees a bs) \<Longrightarrow> y \<in> set (starts a bs) \<Longrightarrow> x \<noteq> y \<Longrightarrow> far x y"
  using frees_starts [of a bs] starts_far by blast

lemma frees_distinct: "big bs \<Longrightarrow> distinct (frees a bs)"
proof (induction a bs rule: frees.induct)
  case (2 a n l bs)
  have "a \<notin> set (starts (a + n) bs)" using starts_bound [of bs a "a + n"] 2 by auto
  with 2 frees_starts [of "a + n" bs] show ?case by auto
qed simp

lemma in_live_bound: "in_live a bs p \<Longrightarrow> a + 16 \<le> p \<and> p < a + span bs"
  by (induction a bs p rule: in_live.induct) (auto split: if_splits)

lemma in_live_append:
  "in_live a (xs @ ys) p \<longleftrightarrow> (if p < a + span xs then in_live a xs p else in_live (a + span xs) ys p)"
  by (induction a xs p rule: in_live.induct) (auto simp: add.assoc dest: in_live_bound)

lemma in_live_outside: "big bs \<Longrightarrow> in_live a bs p \<Longrightarrow> h \<in> set (starts a bs) \<Longrightarrow> p < h \<or> h + 16 \<le> p"
proof (induction a bs p rule: in_live.induct)
  case (2 a n l bs p)
  show ?case
  proof (cases "p < a + n")
    case True
    with 2 starts_bound [of bs h "a + n"] show ?thesis by auto
  next
    case False
    with 2 show ?thesis by auto
  qed
qed simp

lemma seg_append: "seg nx p (as @ cs) q \<longleftrightarrow> (\<exists>m. seg nx p as m \<and> seg nx m cs q)"
  by (induction as arbitrary: p) auto

lemma seg_cong: "(\<And>a. a \<in> set as \<Longrightarrow> nx' a = nx a) \<Longrightarrow> seg nx' p as q = seg nx p as q"
  by (induction as arbitrary: p) auto

subsection \<open>The walks\<close>

lemma size_t_addr: "inside s x \<Longrightarrow> pa_base s + length (region s) \<le> 2 ^ 63 \<Longrightarrow> size_t (x + 16) = x + 16"
  by (intro size_t_small) (auto simp: inside_def)

lemma loop_walk:
  assumes "seg (hnx (pa_base s) (region s)) p as q"
    "\<forall>a\<in>set as. inside s a \<and> a \<noteq> 0 \<and> hsz (pa_base s) (region s) a < n"
  shows "alloc_loop n al prev p s = alloc_loop n al (last (prev # as)) q s"
  using assms
proof (induction as arbitrary: prev p)
  case (Cons a as)
  have "alloc_loop n al prev p s = alloc_loop n al a (hnx (pa_base s) (region s) a) s"
    using Cons.prems by (subst alloc_loop.simps) (simp add: hdr_size_inside hdr_next_inside Let_def)
  also have "\<dots> = alloc_loop n al (last (a # as)) q s"
    using Cons.prems by (intro Cons.IH) simp_all
  finally show ?case by simp
qed simp

lemma place_walk:
  assumes "seg (hnx (pa_base s) (region s)) p as q" "\<forall>a\<in>set as. inside s a \<and> a \<noteq> 0 \<and> a < h" "q = 0 \<or> h \<le> q"
  shows "find_place s h prev p = Some (last (prev # as), q)"
  using assms(1,2)
proof (induction as arbitrary: prev p)
  case Nil
  then show ?case using assms(3) by (subst find_place.simps) auto
next
  case (Cons a as)
  have "find_place s h prev p = find_place s h a (hnx (pa_base s) (region s) a)"
    using Cons.prems by (subst find_place.simps) (simp add: hdr_next_inside)
  also have "\<dots> = Some (last (a # as), q)" using Cons.prems by (intro Cons.IH) simp_all
  finally show ?case by simp
qed

subsection \<open>Linking\<close>

lemma link_ok:
  assumes "seg (hnx (pa_base s) (region s)) (free_list s) as m" "distinct as"
    "\<forall>a\<in>set as. inside s a \<and> a \<noteq> 0 \<and> (\<forall>c\<in>set as. a \<noteq> c \<longrightarrow> far a c)" "tgt < 2 ^ 64"
  shows "\<exists>r fl. link (last (0 # as)) tgt s = Some (s\<lparr>region := r, free_list := fl\<rparr>)
    \<and> touched (pa_base s) (set as) (region s) r \<and> seg (hnx (pa_base s) r) fl as tgt
    \<and> (\<forall>a. inside s a \<longrightarrow> (\<forall>h\<in>set as. a = h \<or> far a h) \<longrightarrow> hsz (pa_base s) r a = hsz (pa_base s) (region s) a)
    \<and> (\<forall>a. inside s a \<longrightarrow> (\<forall>h\<in>set as. far a h) \<longrightarrow> hnx (pa_base s) r a = hnx (pa_base s) (region s) a)"
proof (cases as rule: rev_cases)
  case Nil
  then show ?thesis by (intro exI [of _ "region s"] exI [of _ tgt]) (simp add: link_def)
next
  case (snoc init l)
  with assms(3) have l: "inside s l" "l \<noteq> 0" by simp_all
  obtain r where r: "set_next l tgt s = Some (s\<lparr>region := r\<rparr>)" "touched (pa_base s) {l} (region s) r"
    "hnx (pa_base s) r l = tgt"
    "\<forall>a. inside s a \<longrightarrow> far a l \<longrightarrow> hnx (pa_base s) r a = hnx (pa_base s) (region s) a"
    "\<forall>a. inside s a \<longrightarrow> a = l \<or> far a l \<longrightarrow> hsz (pa_base s) r a = hsz (pa_base s) (region s) a"
    using set_next_ex [OF l(1) assms(4)] by blast
  have "hnx (pa_base s) r a = hnx (pa_base s) (region s) a" if "a \<in> set init" for a
    using r(4) assms(2,3) that snoc by auto
  then have "seg (hnx (pa_base s) r) (free_list s) init l"
    using assms(1) snoc seg_cong [of init "hnx (pa_base s) r" "hnx (pa_base s) (region s)"] by (auto simp: seg_append)
  then have "seg (hnx (pa_base s) r) (free_list s) as tgt" using r(3) snoc by (auto simp: seg_append)
  then show ?thesis
    using r snoc l by (intro exI [of _ r] exI [of _ "free_list s"])
      (auto simp: link_def intro: touched_mono)
qed

subsection \<open>Well-formed regions\<close>

fun sized :: "(nat \<Rightarrow> nat) \<Rightarrow> nat \<Rightarrow> block list \<Rightarrow> bool" where
  "sized f a [] \<longleftrightarrow> True"
| "sized f a ((n, l) # bs) \<longleftrightarrow> f a = n \<and> sized f (a + n) bs"

lemma sized_append [simp]: "sized f a (xs @ ys) \<longleftrightarrow> sized f a xs \<and> sized f (a + span xs) ys"
  by (induction f a xs rule: sized.induct) (simp_all add: add.assoc)

lemma sized_cong: "(\<And>h. h \<in> set (starts a bs) \<Longrightarrow> f h = g h) \<Longrightarrow> sized f a bs = sized g a bs"
  by (induction f a bs rule: sized.induct) simp_all

text \<open>The blocks tile the region, their headers hold their sizes, and the free ones are chained in order.\<close>

definition blocks_ok :: "allocator \<Rightarrow> block list \<Rightarrow> bool" where
  "blocks_ok s bs \<longleftrightarrow>
     0 < pa_base s \<and> pa_base s + pa_total s \<le> 2 ^ 63 \<and> length (region s) = pa_total s
     \<and> span bs = pa_total s \<and> big bs \<and> (\<forall>a\<in>set (starts (pa_base s) bs). a mod 8 = 0)
     \<and> sized (hsz (pa_base s) (region s)) (pa_base s) bs
     \<and> seg (hnx (pa_base s) (region s)) (free_list s) (frees (pa_base s) bs) 0"

lemma hnx_less: "hnx b r a < 2 ^ 64"
proof -
  have "le_value (slice_of (a - b + 8) 8 r) < 256 ^ length (slice_of (a - b + 8) 8 r)" by (rule le_value_less)
  also have "\<dots> \<le> 256 ^ 8" by (intro power_increasing) simp_all
  finally show ?thesis by (simp add: hnx_def)
qed

lemma blocks_inside:
  assumes "blocks_ok s bs" "a \<in> set (starts (pa_base s) bs)"
  shows "inside s a" "a \<noteq> 0" "a < 2 ^ 63"
  using assms starts_bound [of bs a "pa_base s"] by (auto simp: blocks_ok_def inside_def)

lemma inside_cong: "length r = length (region s) \<Longrightarrow> inside (s\<lparr>region := r\<rparr>) a = inside s a"
  by (simp add: inside_def)

lemma inside_fl [simp]: "inside (s\<lparr>free_list := f\<rparr>) a = inside s a"
  by (simp add: inside_def)

lemma far_sym: "far a b = far b a"
  by (auto simp: far_def)

lemma touched_length: "touched b H r r' \<Longrightarrow> length r' = length r"
  by (simp add: touched_def)

text \<open>The free blocks before a block, as \<open>link_ok\<close> wants them.\<close>

lemma frees_pre:
  assumes "blocks_ok s (pre @ rest)" "rest \<noteq> []"
  shows "distinct (frees (pa_base s) pre)"
    "\<forall>a\<in>set (frees (pa_base s) pre). inside s a \<and> a \<noteq> 0 \<and> (\<forall>c\<in>set (frees (pa_base s) pre). a \<noteq> c \<longrightarrow> far a c)"
    "\<forall>a\<in>set (frees (pa_base s) pre). \<forall>h\<in>set (starts (pa_base s + span pre) rest). far h a"
    "\<forall>a\<in>set (starts (pa_base s) pre). \<forall>h\<in>set (frees (pa_base s) pre). a = h \<or> far a h"
proof -
  have big: "big pre" "big rest" using assms(1) by (simp_all add: blocks_ok_def)
  then show "distinct (frees (pa_base s) pre)" by (simp add: frees_distinct)
  have st: "set (frees (pa_base s) pre) \<subseteq> set (starts (pa_base s) pre)" by (rule frees_starts)
  show "\<forall>a\<in>set (frees (pa_base s) pre). inside s a \<and> a \<noteq> 0 \<and> (\<forall>c\<in>set (frees (pa_base s) pre). a \<noteq> c \<longrightarrow> far a c)"
    using st blocks_inside(1,2) [OF assms(1)] starts_far [OF big(1), where a = "pa_base s"] by (simp add: subset_iff)
  show "\<forall>a\<in>set (frees (pa_base s) pre). \<forall>h\<in>set (starts (pa_base s + span pre) rest). far h a"
    using st starts_bound [OF big(1)] starts_bound [OF big(2)] by (fastforce simp: far_def)
  show "\<forall>a\<in>set (starts (pa_base s) pre). \<forall>h\<in>set (frees (pa_base s) pre). a = h \<or> far a h"
    using st starts_far [OF big(1)] by auto
qed

definition carve :: "nat \<Rightarrow> nat \<Rightarrow> block list" where
  "carve n sz = (if 64 \<le> sz - n then [(n, True), (sz - n, False)] else [(sz, True)])"

lemma take_whole:
  assumes "blocks_ok s (pre @ (sz, False) # post)" "n \<le> sz" "\<not> 64 \<le> sz - n"
    "a = pa_base s + span pre" "prev = last (0 # frees (pa_base s) pre)"
  shows "\<exists>r fl. take_block prev a sz n s = Some (s\<lparr>region := r, free_list := fl\<rparr>, sz)
    \<and> blocks_ok (s\<lparr>region := r, free_list := fl\<rparr>) (pre @ (sz, True) # post)
    \<and> touched (pa_base s) (set (starts (pa_base s) (pre @ (sz, True) # post))) (region s) r"
proof -
  let ?b = "pa_base s" and ?r = "region s"
  note ok = assms(1) [unfolded blocks_ok_def] and f = frees_pre [OF assms(1)]
  have a: "inside s a" using blocks_inside(1) [OF assms(1)] assms(4) by simp
  obtain m where m: "seg (hnx ?b ?r) (free_list s) (frees ?b pre) a" "seg (hnx ?b ?r) (hnx ?b ?r a) (frees (a + sz) post) 0"
    using ok assms(4) by (auto simp: seg_append)
  have "\<exists>r fl. link (last (0 # frees ?b pre)) (hnx ?b ?r a) s = Some (s\<lparr>region := r, free_list := fl\<rparr>)
    \<and> touched ?b (set (frees ?b pre)) ?r r \<and> seg (hnx ?b r) fl (frees ?b pre) (hnx ?b ?r a)
    \<and> (\<forall>h. inside s h \<longrightarrow> (\<forall>k\<in>set (frees ?b pre). h = k \<or> far h k) \<longrightarrow> hsz ?b r h = hsz ?b ?r h)
    \<and> (\<forall>h. inside s h \<longrightarrow> (\<forall>k\<in>set (frees ?b pre). far h k) \<longrightarrow> hnx ?b r h = hnx ?b ?r h)"
    using f by (intro link_ok [OF m(1)] hnx_less) simp_all
  then obtain r fl where r: "link prev (hnx ?b ?r a) s = Some (s\<lparr>region := r, free_list := fl\<rparr>)"
    "touched ?b (set (frees ?b pre)) ?r r" "seg (hnx ?b r) fl (frees ?b pre) (hnx ?b ?r a)"
    "\<And>h. inside s h \<Longrightarrow> \<forall>k\<in>set (frees ?b pre). h = k \<or> far h k \<Longrightarrow> hsz ?b r h = hsz ?b ?r h"
    "\<And>h. inside s h \<Longrightarrow> \<forall>k\<in>set (frees ?b pre). far h k \<Longrightarrow> hnx ?b r h = hnx ?b ?r h"
    unfolding assms(5) by blast
  have ins: "inside s h" if "h \<in> set (starts ?b (pre @ (sz, False) # post))" for h
    using blocks_inside(1) [OF assms(1) that] .
  have "hsz ?b r h = hsz ?b ?r h" if "h \<in> set (starts ?b (pre @ (sz, False) # post))" for h
    using ins [OF that] that f(3,4) by (intro r(4)) auto
  then have "sized (hsz ?b r) ?b (pre @ (sz, False) # post) = sized (hsz ?b ?r) ?b (pre @ (sz, False) # post)"
    by (rule sized_cong)
  then have szs: "sized (hsz ?b r) ?b (pre @ (sz, True) # post)" using ok by simp
  have "hnx ?b r h = hnx ?b ?r h" if "h \<in> set (frees (a + sz) post)" for h
    using frees_starts [of "a + sz" post] that f(3) assms(4) ins [of h] by (intro r(5)) (auto simp: add.assoc)
  then have "seg (hnx ?b r) (hnx ?b ?r a) (frees (a + sz) post) 0"
    using m(2) seg_cong [of "frees (a + sz) post" "hnx ?b r" "hnx ?b ?r"] by blast
  then have "seg (hnx ?b r) fl (frees ?b (pre @ (sz, True) # post)) 0"
    using r(3) assms(4) by (auto simp: seg_append add.assoc)
  then have "blocks_ok (s\<lparr>region := r, free_list := fl\<rparr>) (pre @ (sz, True) # post)"
    using ok szs touched_length [OF r(2)] by (simp add: blocks_ok_def)
  moreover have "touched ?b (set (starts ?b (pre @ (sz, True) # post))) ?r r"
    using r(2) frees_starts [of ?b pre] by (elim touched_mono) auto
  moreover have "take_block prev a sz n s = Some (s\<lparr>region := r, free_list := fl\<rparr>, sz)"
    using assms(3) r(1) hdr_next_inside [OF a] by (simp add: take_block_def MIN_BLOCK_SIZE_def)
  ultimately show ?thesis by blast
qed

lemma seg_frees_cong:
  "\<forall>h\<in>set (starts a bs). nx' h = nx h \<Longrightarrow> seg nx' p (frees a bs) q = seg nx p (frees a bs) q"
  using frees_starts [of a bs] by (intro seg_cong) auto

text \<open>A header written in the interior of a block leaves the other headers alone.\<close>

lemma new_header:
  assumes "inside s f" "\<forall>h\<in>H. inside s h \<and> far h f" "v < 2 ^ 64" "w < 2 ^ 64"
  shows "\<exists>r1 r2. set_size f v s = Some (s\<lparr>region := r1\<rparr>) \<and> set_next f w (s\<lparr>region := r1\<rparr>) = Some (s\<lparr>region := r2\<rparr>)
    \<and> touched (pa_base s) {f} (region s) r2 \<and> hsz (pa_base s) r2 f = v \<and> hnx (pa_base s) r2 f = w
    \<and> (\<forall>h\<in>H. hdr_next (s\<lparr>region := r1\<rparr>) h = Some (hnx (pa_base s) (region s) h)
        \<and> hsz (pa_base s) r2 h = hsz (pa_base s) (region s) h \<and> hnx (pa_base s) r2 h = hnx (pa_base s) (region s) h)"
proof -
  let ?b = "pa_base s"
  obtain r1 where r1: "set_size f v s = Some (s\<lparr>region := r1\<rparr>)" "touched ?b {f} (region s) r1"
    "hsz ?b r1 f = v" "\<And>h. inside s h \<Longrightarrow> far h f \<Longrightarrow> hsz ?b r1 h = hsz ?b (region s) h"
    "\<And>h. inside s h \<Longrightarrow> h = f \<or> far h f \<Longrightarrow> hnx ?b r1 h = hnx ?b (region s) h"
    using set_size_ex [OF assms(1,3)] by blast
  let ?s = "s\<lparr>region := r1\<rparr>"
  have i: "inside ?s h = inside s h" for h using touched_length [OF r1(2)] by (simp add: inside_def)
  have "inside ?s f" using assms(1) by (simp add: i)
  from set_next_ex [OF this assms(4)] obtain r2 where r2: "set_next f w ?s = Some (s\<lparr>region := r2\<rparr>)"
    "touched ?b {f} r1 r2" "hnx ?b r2 f = w" "\<And>h. inside s h \<Longrightarrow> far h f \<Longrightarrow> hnx ?b r2 h = hnx ?b r1 h"
    "\<And>h. inside s h \<Longrightarrow> h = f \<or> far h f \<Longrightarrow> hsz ?b r2 h = hsz ?b r1 h"
    by (auto simp: i)
  have "touched ?b {f} (region s) r2" using touched_trans [OF r1(2) r2(2)] by simp
  moreover have "hdr_next ?s h = Some (hnx ?b (region s) h)" "hsz ?b r2 h = hsz ?b (region s) h"
    "hnx ?b r2 h = hnx ?b (region s) h" if "h \<in> H" for h
    using bspec [OF assms(2) that] hdr_next_inside [of ?s h] r1(4,5) [of h] r2(4,5) [of h] by (simp_all add: i)
  ultimately show ?thesis using r1 r2 assms(1) by blast
qed

lemma take_split:
  assumes "blocks_ok s (pre @ (sz, False) # post)" "64 \<le> n" "n mod 8 = 0" "64 \<le> sz - n"
    "a = pa_base s + span pre" "prev = last (0 # frees (pa_base s) pre)"
  shows "\<exists>r fl. take_block prev a sz n s = Some (s\<lparr>region := r, free_list := fl\<rparr>, n)
    \<and> blocks_ok (s\<lparr>region := r, free_list := fl\<rparr>) (pre @ (n, True) # (sz - n, False) # post)
    \<and> touched (pa_base s) (set (starts (pa_base s) (pre @ (n, True) # (sz - n, False) # post))) (region s) r"
proof -
  let ?b = "pa_base s" and ?r = "region s" and ?f = "a + n" and ?F = "frees (pa_base s) pre"
    and ?old = "starts (pa_base s) (pre @ (sz, False) # post)"
  note ok = assms(1) [unfolded blocks_ok_def] and f = frees_pre [OF assms(1)]
  have n: "n \<le> sz" "sz - n < 2 ^ 64" "n < 2 ^ 64" "?f < 2 ^ 64" using ok assms(2,4,5) by auto
  have ins: "inside s h" if "h \<in> set ?old" for h using blocks_inside(1) [OF assms(1) that] .
  have a: "inside s a" using ins [of a] assms(5) by simp
  have fi: "inside s ?f" using ok assms(2,4,5) by (auto simp: inside_def)
  have fpre: "h + 64 \<le> a" if "h \<in> set (starts ?b pre)" for h
    using starts_bound [OF _ that] ok assms(5) by simp
  have fpost: "a + sz \<le> h" if "h \<in> set (starts (a + sz) post)" for h
    using starts_bound [OF _ that] ok by simp
  have ff: "far h ?f" if "h \<in> set ?old" for h
    using that fpre [of h] fpost [of h] assms(2,4,5) by (auto simp: far_def)
  have F: "h \<in> set ?old" "h + 64 \<le> a" if "h \<in> set ?F" for h
    using that frees_starts [of ?b pre] fpre by auto
  have nh: "\<forall>h\<in>set ?old. inside s h \<and> far h ?f" using ins ff by blast
  from new_header [OF fi nh n(2) hnx_less [of ?b ?r a]] obtain r1 r2 where
    r: "set_size ?f (sz - n) s = Some (s\<lparr>region := r1\<rparr>)"
    "set_next ?f (hnx ?b ?r a) (s\<lparr>region := r1\<rparr>) = Some (s\<lparr>region := r2\<rparr>)" "touched ?b {?f} ?r r2"
    "hsz ?b r2 ?f = sz - n" "hnx ?b r2 ?f = hnx ?b ?r a"
    and keep: "\<forall>h\<in>set ?old. hdr_next (s\<lparr>region := r1\<rparr>) h = Some (hnx ?b ?r h)
      \<and> hsz ?b r2 h = hsz ?b ?r h \<and> hnx ?b r2 h = hnx ?b ?r h"
    by (elim exE conjE)
  note r2 = r bspec [OF keep, THEN conjunct1] bspec [OF keep, THEN conjunct2, THEN conjunct1]
    bspec [OF keep, THEN conjunct2, THEN conjunct2]
  let ?s2 = "s\<lparr>region := r2\<rparr>"
  have i2: "inside ?s2 h = inside s h" for h using touched_length [OF r2(3)] by (simp add: inside_def)
  obtain m where m: "seg (hnx ?b ?r) (free_list s) ?F a" "seg (hnx ?b ?r) (hnx ?b ?r a) (frees (a + sz) post) 0"
    using ok assms(5) by (auto simp: seg_append)
  have "seg (hnx ?b r2) (free_list s) ?F a" using m(1) seg_cong [of ?F "hnx ?b r2" "hnx ?b ?r"] r2(8) F by simp
  then have "\<exists>r3 fl. link (last (0 # ?F)) ?f ?s2 = Some (?s2\<lparr>region := r3, free_list := fl\<rparr>)
    \<and> touched ?b (set ?F) r2 r3 \<and> seg (hnx ?b r3) fl ?F ?f
    \<and> (\<forall>h. inside s h \<longrightarrow> (\<forall>k\<in>set ?F. h = k \<or> far h k) \<longrightarrow> hsz ?b r3 h = hsz ?b r2 h)
    \<and> (\<forall>h. inside s h \<longrightarrow> (\<forall>k\<in>set ?F. far h k) \<longrightarrow> hnx ?b r3 h = hnx ?b r2 h)"
    using link_ok [of ?s2 ?F a ?f] f(1,2) n(4) by (simp add: i2)
  then obtain r3 fl where r3: "link prev ?f ?s2 = Some (s\<lparr>region := r3, free_list := fl\<rparr>)" "touched ?b (set ?F) r2 r3"
    "seg (hnx ?b r3) fl ?F ?f"
    "\<And>h. inside s h \<Longrightarrow> \<forall>k\<in>set ?F. h = k \<or> far h k \<Longrightarrow> hsz ?b r3 h = hsz ?b r2 h"
    "\<And>h. inside s h \<Longrightarrow> \<forall>k\<in>set ?F. far h k \<Longrightarrow> hnx ?b r3 h = hnx ?b r2 h"
    unfolding assms(6) by auto
  let ?s3 = "s\<lparr>region := r3, free_list := fl\<rparr>"
  have len3: "length r3 = length ?r"
    using touched_length [OF r2(3)] touched_length [OF r3(2)] by simp
  then have i3: "inside (s\<lparr>region := r3\<rparr>) h = inside s h" for h by (simp add: inside_def)
  have "\<exists>r4. set_size a n ?s3 = Some (s\<lparr>free_list := fl, region := r4\<rparr>) \<and> touched ?b {a} r3 r4 \<and> hsz ?b r4 a = n
    \<and> (\<forall>h. inside s h \<longrightarrow> far h a \<longrightarrow> hsz ?b r4 h = hsz ?b r3 h)
    \<and> (\<forall>h. inside s h \<longrightarrow> h = a \<or> far h a \<longrightarrow> hnx ?b r4 h = hnx ?b r3 h)"
    using set_size_ex [of ?s3 a n] a n(3) by (simp add: i3)
  then obtain r4 where r4: "set_size a n ?s3 = Some (s\<lparr>free_list := fl, region := r4\<rparr>)" "touched ?b {a} r3 r4"
    "hsz ?b r4 a = n" "\<And>h. inside s h \<Longrightarrow> far h a \<Longrightarrow> hsz ?b r4 h = hsz ?b r3 h"
    "\<And>h. inside s h \<Longrightarrow> h = a \<or> far h a \<Longrightarrow> hnx ?b r4 h = hnx ?b r3 h" by blast
  have fa: "far h a" if "h \<in> set (starts ?b pre) \<or> h \<in> set (starts (a + sz) post) \<or> h = ?f" for h
    using that fpre [of h] fpost [of h] assms(2,4) n(1) by (auto simp: far_def)
  have post: "hsz ?b r4 h = hsz ?b ?r h" "hnx ?b r4 h = hnx ?b ?r h" if "h \<in> set (starts (a + sz) post)" for h
  proof -
    have h: "h \<in> set ?old" "far h a" "\<forall>k\<in>set ?F. far h k" using that fa f(3) assms(5) by auto
    then show "hsz ?b r4 h = hsz ?b ?r h" "hnx ?b r4 h = hnx ?b ?r h"
      using r4(4,5) [of h] r3(4,5) [of h] r2(7,8) [of h] ins [of h] by auto
  qed
  have pre: "hsz ?b r4 h = hsz ?b ?r h" "hnx ?b r4 h = hnx ?b r3 h" if "h \<in> set (starts ?b pre)" for h
  proof -
    have h: "h \<in> set ?old" "far h a" "\<forall>k\<in>set ?F. h = k \<or> far h k" using that fa f(4) by auto
    then show "hsz ?b r4 h = hsz ?b ?r h" "hnx ?b r4 h = hnx ?b r3 h"
      using r4(4,5) [of h] r3(4) [of h] r2(7,8) [of h] ins [of h] by auto
  qed
  have Ff: "\<forall>k\<in>set ?F. far ?f k" using F by (fastforce simp: far_def)
  then have ffr: "hsz ?b r4 ?f = sz - n" "hnx ?b r4 ?f = hnx ?b ?r a"
    using fi fa [of ?f] r2(4,5) r3(4,5) [of ?f] r4(4,5) [of ?f] by auto
  have "sized (hsz ?b r4) ?b pre" "sized (hsz ?b r4) (a + sz) post"
    using ok assms(5) pre(1) post(1) sized_cong [of ?b pre "hsz ?b r4" "hsz ?b ?r"]
      sized_cong [of "a + sz" post "hsz ?b r4" "hsz ?b ?r"] by (simp_all add: add.assoc)
  then have szs: "sized (hsz ?b r4) ?b (pre @ (n, True) # (sz - n, False) # post)"
    using r4(3) ffr(1) n(1) assms(5) by (simp add: add.assoc)
  have "seg (hnx ?b r4) fl ?F ?f"
    using r3(3) pre(2) seg_frees_cong [of ?b pre "hnx ?b r4" "hnx ?b r3"] by blast
  moreover have "seg (hnx ?b r4) (hnx ?b ?r a) (frees (a + sz) post) 0"
    using m(2) post(2) seg_frees_cong [of "a + sz" post "hnx ?b r4" "hnx ?b ?r"] by blast
  ultimately have sg: "seg (hnx ?b r4) fl (frees ?b (pre @ (n, True) # (sz - n, False) # post)) 0"
    using ffr(2) n(1) assms(5) by (auto simp: seg_append add.assoc)
  have len: "length r4 = length ?r" using len3 touched_length [OF r4(2)] by simp
  have m8: "a mod 8 = 0" using ok assms(5) by simp
  then have "?f mod 8 = 0" using assms(3) by (simp add: mod_add_eq [symmetric])
  then have "blocks_ok (s\<lparr>region := r4, free_list := fl\<rparr>) (pre @ (n, True) # (sz - n, False) # post)"
    using ok szs sg len n(1) assms(2,4,5) by (simp add: blocks_ok_def add.assoc)
  moreover have "touched ?b ({?f} \<union> set ?F \<union> {a}) ?r r4"
    using r2(3) r3(2) r4(2) by (blast intro: touched_trans)
  then have "touched ?b (set (starts ?b (pre @ (n, True) # (sz - n, False) # post))) ?r r4"
    by (rule touched_mono) (use frees_starts [of ?b pre] assms(5) in auto)
  moreover have "take_block prev a sz n s = Some (s\<lparr>region := r4, free_list := fl\<rparr>, n)"
    using assms(4,5) r2(1,2) r2(6) [of a] r3(1) r4(1) by (simp add: take_block_def MIN_BLOCK_SIZE_def)
  ultimately show ?thesis by blast
qed

subsection \<open>Allocation takes the first block that fits\<close>

fun fit :: "nat \<Rightarrow> nat \<Rightarrow> block list \<Rightarrow> (nat \<times> nat \<times> block list) option" where
  "fit n a [] = None"
| "fit n a ((sz, l) # bs) =
     (if \<not> l \<and> n \<le> sz then Some (a, if 64 \<le> sz - n then n else sz, carve n sz @ bs)
      else map_option (\<lambda>(x, t, cs). (x, t, (sz, l) # cs)) (fit n (a + sz) bs))"

lemma fit_none: "fit n a bs = None \<Longrightarrow> \<forall>b\<in>set bs. \<not> snd b \<longrightarrow> fst b < n"
  by (induction n a bs rule: fit.induct) (auto split: if_splits)

lemma fit_some:
  "fit n a bs = Some (x, t, cs) \<Longrightarrow> \<exists>pre sz post. bs = pre @ (sz, False) # post \<and> n \<le> sz
     \<and> (\<forall>b\<in>set pre. \<not> snd b \<longrightarrow> fst b < n) \<and> x = a + span pre
     \<and> t = (if 64 \<le> sz - n then n else sz) \<and> cs = pre @ carve n sz @ post"
proof (induction n a bs arbitrary: x t cs rule: fit.induct)
  case (2 n a sz l bs)
  show ?case
  proof (cases "\<not> l \<and> n \<le> sz")
    case True
    with 2(2) show ?thesis by (intro exI [of _ "[]"]) auto
  next
    case False
    with 2(2) obtain y u ds where f: "fit n (a + sz) bs = Some (y, u, ds)" "x = y" "t = u" "cs = (sz, l) # ds" by auto
    from 2(1) [OF False f(1)] obtain pre z post where "bs = pre @ (z, False) # post" "n \<le> z"
      "\<forall>b\<in>set pre. \<not> snd b \<longrightarrow> fst b < n" "y = a + sz + span pre"
      "u = (if 64 \<le> z - n then n else z)" "ds = pre @ carve n z @ post" by blast
    with False f show ?thesis
      by (intro exI [of _ "(sz, l) # pre"] exI [of _ z] exI [of _ post]) auto
  qed
qed simp

lemma blocks_ok_upd [simp]:
  "blocks_ok (s\<lparr>pa_used := u\<rparr>) bs = blocks_ok s bs" "blocks_ok (s\<lparr>pa_overhead := v\<rparr>) bs = blocks_ok s bs"
  by (simp_all add: blocks_ok_def)

lemma sized_frees_less:
  "sized f a bs \<Longrightarrow> \<forall>b\<in>set bs. \<not> snd b \<longrightarrow> fst b < n \<Longrightarrow> h \<in> set (frees a bs) \<Longrightarrow> f h < n"
  by (induction f a bs rule: sized.induct) (auto split: if_splits)

lemma set_next_live:
  assumes "blocks_ok s bs" "x \<in> set (starts (pa_base s) bs)" "x \<notin> set (frees (pa_base s) bs)" "v < 2 ^ 64"
  shows "\<exists>r. set_next x v s = Some (s\<lparr>region := r\<rparr>) \<and> blocks_ok (s\<lparr>region := r\<rparr>) bs
    \<and> touched (pa_base s) {x} (region s) r \<and> hnx (pa_base s) r x = v
    \<and> (\<forall>h. inside s h \<longrightarrow> far h x \<longrightarrow> hnx (pa_base s) r h = hnx (pa_base s) (region s) h)"
proof -
  let ?b = "pa_base s"
  note ok = assms(1) [unfolded blocks_ok_def]
  have ins: "inside s h" if "h \<in> set (starts ?b bs)" for h using blocks_inside(1) [OF assms(1) that] .
  obtain r where r: "set_next x v s = Some (s\<lparr>region := r\<rparr>)" "touched ?b {x} (region s) r" "hnx ?b r x = v"
    "\<And>a. inside s a \<Longrightarrow> far a x \<Longrightarrow> hnx ?b r a = hnx ?b (region s) a"
    "\<And>a. inside s a \<Longrightarrow> a = x \<or> far a x \<Longrightarrow> hsz ?b r a = hsz ?b (region s) a"
    using set_next_ex [OF ins [OF assms(2)] assms(4)] by blast
  have sep: "h = x \<or> far h x" if "h \<in> set (starts ?b bs)" for h
    using starts_far [OF _ that assms(2)] ok by blast
  have "sized (hsz ?b r) ?b bs = sized (hsz ?b (region s)) ?b bs"
    using ins sep by (intro sized_cong r(5)) auto
  moreover have "hnx ?b r h = hnx ?b (region s) h" if "h \<in> set (frees ?b bs)" for h
    using that assms(3) frees_starts [of ?b bs] sep [of h] ins [of h] by (intro r(4)) auto
  then have "seg (hnx ?b r) p (frees ?b bs) q = seg (hnx ?b (region s)) p (frees ?b bs) q" for p q
    by (rule seg_cong)
  ultimately have "blocks_ok (s\<lparr>region := r\<rparr>) bs"
    using ok touched_length [OF r(2)] by (simp add: blocks_ok_def)
  with r(1-4) show ?thesis by blast
qed

lemma take_ok:
  assumes "blocks_ok s (pre @ (sz, False) # post)" "64 \<le> n" "n mod 8 = 0" "n \<le> sz"
    "a = pa_base s + span pre" "prev = last (0 # frees (pa_base s) pre)"
  shows "\<exists>r fl. take_block prev a sz n s = Some (s\<lparr>region := r, free_list := fl\<rparr>, if 64 \<le> sz - n then n else sz)
    \<and> blocks_ok (s\<lparr>region := r, free_list := fl\<rparr>) (pre @ carve n sz @ post)
    \<and> touched (pa_base s) (set (starts (pa_base s) (pre @ carve n sz @ post))) (region s) r"
proof (cases "64 \<le> sz - n")
  case True
  with take_split [OF assms(1-3) True assms(5,6)] show ?thesis by (simp add: carve_def)
next
  case False
  with take_whole [OF assms(1,4) False assms(5,6)] show ?thesis by (simp add: carve_def)
qed

lemma alloc_loop_none:
  assumes "blocks_ok s bs" "fit n (pa_base s) bs = None"
  shows "alloc_loop n al 0 (free_list s) s = Some (s, None)"
proof -
  let ?F = "frees (pa_base s) bs"
  have "\<forall>a\<in>set ?F. inside s a \<and> a \<noteq> 0 \<and> hsz (pa_base s) (region s) a < n"
    using blocks_inside(1,2) [OF assms(1)] frees_starts [of "pa_base s" bs]
      sized_frees_less [OF _ fit_none [OF assms(2)]] assms(1) by (auto simp: blocks_ok_def)
  then have "alloc_loop n al 0 (free_list s) s = alloc_loop n al (last (0 # ?F)) 0 s"
    using assms(1) by (intro loop_walk) (simp add: blocks_ok_def)
  then show ?thesis by (simp add: alloc_loop.simps)
qed

lemma alloc_loop_some:
  assumes "blocks_ok s bs" "fit n (pa_base s) bs = Some (x, t, cs)" "64 \<le> n" "n mod 8 = 0" "al \<in> {1, 2, 4, 8}"
  shows "\<exists>s'. alloc_loop n al 0 (free_list s) s = Some (s', Some (x + 16))
    \<and> pa_base s' = pa_base s \<and> pa_total s' = pa_total s \<and> pa_used s' = size_t (pa_used s + t) \<and> blocks_ok s' cs
    \<and> touched (pa_base s) (set (starts (pa_base s) cs)) (region s) (region s')"
proof -
  let ?b = "pa_base s" and ?r = "region s"
  obtain pre sz post where fs: "bs = pre @ (sz, False) # post" "n \<le> sz" "\<forall>b\<in>set pre. \<not> snd b \<longrightarrow> fst b < n"
    "x = ?b + span pre" "t = (if 64 \<le> sz - n then n else sz)" "cs = pre @ carve n sz @ post"
    using fit_some [OF assms(2)] by blast
  let ?F = "frees ?b pre" and ?p = "last (0 # frees ?b pre)"
  note ok = assms(1) [unfolded blocks_ok_def]
  have x: "inside s x" "x \<noteq> 0" "x < 2 ^ 63" "x mod 8 = 0" "hsz ?b ?r x = sz"
    using blocks_inside [OF assms(1), of x] ok fs(1,4) by simp_all
  have "seg (hnx ?b ?r) (free_list s) ?F x" using ok fs(1,4) by (auto simp: seg_append)
  moreover have "\<forall>a\<in>set ?F. inside s a \<and> a \<noteq> 0 \<and> hsz ?b ?r a < n"
    using frees_pre(2) [of s pre "(sz, False) # post"] assms(1) sized_frees_less [OF _ fs(3)] ok fs(1) by auto
  ultimately have walk: "alloc_loop n al 0 (free_list s) s = alloc_loop n al ?p x s" by (rule loop_walk)
  have "sz \<le> 2 ^ 63" using ok fs(1) by auto
  have user: "size_t (x + BLOCK_HEADER_SIZE) = x + 16" "align_up (x + 16) al = x + 16"
    using x(3,4) assms(5) by (simp_all add: BLOCK_HEADER_SIZE_def) (rule align_up_aligned; simp add: mod_add_eq [symmetric])
  have pad: "size_t (align_up (x + 16) al + 2 ^ 64 - (x + 16)) = 0" "size_t (n + 0) = n"
    using user fs(2) \<open>sz \<le> 2 ^ 63\<close> by (simp_all add: size_t_def)
  obtain r fl where tk: "take_block ?p x sz n s = Some (s\<lparr>region := r, free_list := fl\<rparr>, t)"
    "blocks_ok (s\<lparr>region := r, free_list := fl\<rparr>) cs" "touched ?b (set (starts ?b cs)) ?r r"
    using take_ok [OF _ assms(3,4) fs(2,4)] assms(1) fs(1,5,6) by blast
  let ?s = "s\<lparr>region := r, free_list := fl\<rparr>"
  let ?u = "?s\<lparr>pa_used := size_t (pa_used s + t), pa_overhead := size_t (pa_overhead s + 16)\<rparr>"
  have xs: "x \<in> set (starts ?b cs)" using fs(4,6) by (simp add: carve_def)
  have "x \<notin> set (frees ?b cs)"
  proof -
    have "big cs" using tk(2) by (simp add: blocks_ok_def)
    then show ?thesis
      using fs(4,6) starts_bound [of pre x ?b] starts_bound [of post x "?b + span pre + sz"]
        frees_starts [of ?b pre] frees_starts [of "?b + span pre + sz" post] assms(3) fs(2)
      by (auto simp: carve_def add.assoc split: if_splits)
  qed
  then obtain r' where r': "set_next x 0 ?u = Some (?u\<lparr>region := r'\<rparr>)" "blocks_ok (?u\<lparr>region := r'\<rparr>) cs"
    "touched ?b {x} r r'"
    using set_next_live [of ?u cs x 0] tk(2) xs by auto
  have "touched ?b (set (starts ?b cs)) ?r r'"
    using touched_trans [OF tk(3) r'(3)] xs by (simp add: insert_absorb)
  moreover have "alloc_loop n al ?p x s = Some (?u\<lparr>region := r'\<rparr>, Some (x + 16))"
    using x hdr_size_inside [OF x(1)] user pad tk(1) r'(1) fs(2)
    by (subst alloc_loop.simps) (simp add: Let_def BLOCK_HEADER_SIZE_def)
  ultimately show ?thesis using walk r'(2) by (intro exI [of _ "?u\<lparr>region := r'\<rparr>"]) simp
qed

subsection \<open>Coalescing\<close>

fun merge :: "block list \<Rightarrow> block list" where
  "merge [] = []"
| "merge [b] = [b]"
| "merge ((n, l) # (m, k) # bs) =
     (if \<not> l \<and> \<not> k then merge ((n + m, False) # bs) else (n, l) # merge ((m, k) # bs))"

lemma merge_live: "merge ((n, True) # bs) = (n, True) # merge bs"
  by (cases bs) auto

lemma merge_lives: "\<forall>b\<in>set ls. snd b \<Longrightarrow> merge (ls @ bs) = ls @ merge bs"
  by (induction ls) (auto simp: merge_live)

lemma merge_free_lives:
  assumes "\<forall>b\<in>set ls. snd b" "ls \<noteq> []"
  shows "merge ((n, False) # ls @ bs) = (n, False) # ls @ merge bs"
  using assms by (cases ls) (auto simp: merge_live merge_lives)

lemma merge_step:
  assumes "blocks_ok s (pre @ (n, False) # (m, False) # post)" "c = pa_base s + span pre"
  shows "\<exists>r1 r2. set_size c (n + m) s = Some (s\<lparr>region := r1\<rparr>)
    \<and> hdr_next (s\<lparr>region := r1\<rparr>) (c + n) = Some (hnx (pa_base s) (region s) (c + n))
    \<and> set_next c (hnx (pa_base s) (region s) (c + n)) (s\<lparr>region := r1\<rparr>) = Some (s\<lparr>region := r2\<rparr>)
    \<and> blocks_ok (s\<lparr>region := r2\<rparr>) (pre @ (n + m, False) # post)
    \<and> touched (pa_base s) {c} (region s) r2"
proof -
  let ?b = "pa_base s" and ?r = "region s"
  let ?old = "starts ?b (pre @ (n, False) # (m, False) # post)" and ?v = "hnx ?b ?r (c + n)"
  note ok = assms(1) [unfolded blocks_ok_def]
  have c: "c \<in> set ?old" using assms(2) by simp
  have H: "\<forall>h\<in>set ?old - {c}. inside s h \<and> far h c"
    using blocks_inside(1) [OF assms(1)] starts_far [OF _ _ c] ok by blast
  have nm: "n + m < 2 ^ 64" using ok by auto
  from new_header [OF blocks_inside(1) [OF assms(1) c] H nm hnx_less [of ?b ?r "c + n"]] obtain r1 r2 where
    r: "set_size c (n + m) s = Some (s\<lparr>region := r1\<rparr>)" "set_next c ?v (s\<lparr>region := r1\<rparr>) = Some (s\<lparr>region := r2\<rparr>)"
    "touched ?b {c} ?r r2" "hsz ?b r2 c = n + m" "hnx ?b r2 c = ?v"
    and keep: "\<forall>h\<in>set ?old - {c}. hdr_next (s\<lparr>region := r1\<rparr>) h = Some (hnx ?b ?r h)
      \<and> hsz ?b r2 h = hsz ?b ?r h \<and> hnx ?b r2 h = hnx ?b ?r h"
    by (elim exE conjE)
  have big: "big pre" "big post" "64 \<le> n" "64 \<le> m" using ok by simp_all
  have p: "h \<in> set ?old - {c}" if "h \<in> set (starts ?b pre) \<or> h = c + n \<or> h \<in> set (starts (c + n + m) post)" for h
    using that assms(2) starts_bound [OF big(1), of h ?b] starts_bound [OF big(2), of h "c + n + m"] big(3,4)
    by (auto simp: add.assoc)
  have "sized (hsz ?b r2) ?b pre" "sized (hsz ?b r2) (c + n + m) post"
    using ok assms(2) keep p sized_cong [of ?b pre "hsz ?b r2" "hsz ?b ?r"]
      sized_cong [of "c + n + m" post "hsz ?b r2" "hsz ?b ?r"] by (simp_all add: add.assoc)
  then have szs: "sized (hsz ?b r2) ?b (pre @ (n + m, False) # post)" using r(4) assms(2) by (simp add: add.assoc)
  have "seg (hnx ?b ?r) (free_list s) (frees ?b pre) c" "seg (hnx ?b ?r) ?v (frees (c + n + m) post) 0"
    using ok assms(2) by (auto simp: seg_append add.assoc)
  then have "seg (hnx ?b r2) (free_list s) (frees ?b pre) c" "seg (hnx ?b r2) ?v (frees (c + n + m) post) 0"
    using keep p seg_frees_cong [of ?b pre "hnx ?b r2" "hnx ?b ?r"]
      seg_frees_cong [of "c + n + m" post "hnx ?b r2" "hnx ?b ?r"] by blast+
  then have "seg (hnx ?b r2) (free_list s) (frees ?b (pre @ (n + m, False) # post)) 0"
    using r(5) assms(2) by (auto simp: seg_append add.assoc)
  then have "blocks_ok (s\<lparr>region := r2\<rparr>) (pre @ (n + m, False) # post)"
    using ok szs touched_length [OF r(3)] by (simp add: blocks_ok_def add.assoc)
  moreover have "hdr_next (s\<lparr>region := r1\<rparr>) (c + n) = Some ?v" using keep p [of "c + n"] by blast
  ultimately show ?thesis using r(1,2,3) by blast
qed

lemma coalesce_from_ok:
  assumes "blocks_ok s (pre @ (n, False) # rest)" "c = pa_base s + span pre"
  shows "\<exists>r. coalesce_from c s = Some (s\<lparr>region := r\<rparr>)
    \<and> blocks_ok (s\<lparr>region := r\<rparr>) (pre @ merge ((n, False) # rest))
    \<and> touched (pa_base s) (set (starts (pa_base s) (pre @ (n, False) # rest))) (region s) r"
  using assms
proof (induction "length rest" arbitrary: s pre n rest c rule: less_induct)
  case less
  let ?b = "pa_base s" and ?r = "region s" and ?H = "set (starts (pa_base s) (pre @ (n, False) # rest))"
  note ok = less.prems(1) [unfolded blocks_ok_def]
  have c: "inside s c" "c \<noteq> 0" "c < 2 ^ 63" "hsz ?b ?r c = n"
    using blocks_inside [OF less.prems(1), of c] ok less.prems(2) by simp_all
  have nx: "hdr_next s c = Some (hnx ?b ?r c)" "hdr_size s c = Some n"
    using hdr_next_inside [OF c(1)] hdr_size_inside [OF c(1)] c(4) by simp_all
  have sg: "seg (hnx ?b ?r) (hnx ?b ?r c) (frees (c + n) rest) 0"
    using ok less.prems(2) by (auto simp: seg_append)
  have cn: "size_t (c + n) = c + n" using c(3) ok by auto
  define ls where "ls = takeWhile snd rest"
  have ls: "\<forall>b\<in>set ls. snd b" by (auto simp: ls_def dest: set_takeWhileD)
  have rest: "rest = ls @ dropWhile snd rest" by (simp add: ls_def)
  show ?case
  proof (cases "dropWhile snd rest")
    case Nil
    then have "rest = ls" by (subst rest) (simp only: append_Nil2)
    then have "hnx ?b ?r c = 0" using sg frees_live [OF ls] by simp
    moreover have "merge ((n, False) # rest) = (n, False) # rest"
      using \<open>rest = ls\<close> merge_free_lives [OF ls, of n "[]"] by (cases "ls = []") simp_all
    ultimately show ?thesis using less.prems(1) c nx by (intro exI [of _ ?r]) (subst coalesce_from.simps, simp)
  next
    case (Cons d rest')
    moreover have "\<not> snd (hd (dropWhile snd rest))" using hd_dropWhile [of snd rest] Cons by simp
    ultimately obtain m where d: "dropWhile snd rest = (m, False) # rest'" by (cases d) simp
    have next_addr: "hnx ?b ?r c = c + n + span ls"
      using sg rest d frees_live [OF ls] by (metis frees.simps(2) frees_append append_Nil seg.simps(2))
    show ?thesis
    proof (cases "ls = []")
      case True
      then have r: "rest = (m, False) # rest'" using rest d by simp
      obtain r1 r2 where st: "set_size c (n + m) s = Some (s\<lparr>region := r1\<rparr>)"
        "hdr_next (s\<lparr>region := r1\<rparr>) (c + n) = Some (hnx ?b ?r (c + n))"
        "set_next c (hnx ?b ?r (c + n)) (s\<lparr>region := r1\<rparr>) = Some (s\<lparr>region := r2\<rparr>)"
        "blocks_ok (s\<lparr>region := r2\<rparr>) (pre @ (n + m, False) # rest')" "touched ?b {c} ?r r2"
        using merge_step [OF _ less.prems(2)] less.prems(1) r by blast
      obtain r' where r': "coalesce_from c (s\<lparr>region := r2\<rparr>) = Some (s\<lparr>region := r'\<rparr>)"
        "blocks_ok (s\<lparr>region := r'\<rparr>) (pre @ merge ((n + m, False) # rest'))"
        "touched ?b (set (starts ?b (pre @ (n + m, False) # rest'))) r2 r'"
        using less.hyps [OF _ st(4), of c] r less.prems(2) by auto
      have "hdr_size s (c + n) = Some m"
        using hdr_size_inside [OF blocks_inside(1) [OF less.prems(1), of "c + n"]] ok r less.prems(2) by simp
      moreover have "n + m < 2 ^ 64" using ok r by auto
      ultimately have "coalesce_from c s = Some (s\<lparr>region := r'\<rparr>)"
        using c(2) nx cn next_addr True st(1-3) r'(1) by (subst coalesce_from.simps) simp
      moreover have "touched ?b ?H ?r r'"
        by (rule touched_mono [OF touched_trans [OF st(5) r'(3)]]) (use r less.prems(2) in \<open>auto simp: add.assoc\<close>)
      ultimately show ?thesis using r'(2) r by auto
    next
      case False
      let ?pre = "pre @ (n, False) # ls"
      have eq: "pre @ (n, False) # rest = ?pre @ (m, False) # rest'" using rest d by simp
      have big: "big ls" using ok rest by (metis big_simps(2,3))
      have "span ls \<noteq> 0" using False big by (cases ls) auto
      moreover have "length rest' < length rest" using rest d by (metis length_append length_Cons less_add_Suc2 add_Suc_right le_imp_less_Suc le_add2)
      ultimately obtain r' where r': "coalesce_from (c + n + span ls) s = Some (s\<lparr>region := r'\<rparr>)"
        "blocks_ok (s\<lparr>region := r'\<rparr>) (?pre @ merge ((m, False) # rest'))"
        "touched ?b (set (starts ?b (?pre @ (m, False) # rest'))) ?r r'"
        using less.hyps [of rest' s ?pre m "c + n + span ls"] less.prems eq by (auto simp: add.assoc)
      have "coalesce_from c s = coalesce_from (c + n + span ls) s"
        using c(2) nx cn next_addr \<open>span ls \<noteq> 0\<close> by (subst coalesce_from.simps) simp
      moreover have "merge ((n, False) # rest) = (n, False) # ls @ merge ((m, False) # rest')"
        using merge_free_lives [OF ls False] rest d by metis
      ultimately show ?thesis using r' eq by auto
    qed
  qed
qed

lemma coalesce_ok:
  assumes "blocks_ok s bs"
  shows "\<exists>r. coalesce s = Some (s\<lparr>region := r\<rparr>) \<and> blocks_ok (s\<lparr>region := r\<rparr>) (merge bs)
    \<and> touched (pa_base s) (set (starts (pa_base s) bs)) (region s) r"
proof -
  define ls where "ls = takeWhile snd bs"
  have ls: "\<forall>b\<in>set ls. snd b" by (auto simp: ls_def dest: set_takeWhileD)
  have bs: "bs = ls @ dropWhile snd bs" by (simp add: ls_def)
  have sg: "seg (hnx (pa_base s) (region s)) (free_list s) (frees (pa_base s) bs) 0"
    using assms by (simp add: blocks_ok_def)
  show ?thesis
  proof (cases "dropWhile snd bs")
    case Nil
    then have "bs = ls" by (subst bs) (simp only: append_Nil2)
    then have "free_list s = 0" "merge bs = bs"
      using sg frees_live [OF ls] merge_lives [OF ls, of "[]"] by simp_all
    then show ?thesis
      using assms by (intro exI [of _ "region s"]) (simp add: coalesce_def coalesce_from.simps)
  next
    case (Cons d rest)
    moreover have "\<not> snd (hd (dropWhile snd bs))" using hd_dropWhile [of snd bs] Cons by simp
    ultimately obtain n where d: "dropWhile snd bs = (n, False) # rest" by (cases d) simp
    then have eq: "bs = ls @ (n, False) # rest" using bs by simp
    have "free_list s = pa_base s + span ls" using sg frees_live [OF ls] by (simp add: eq)
    then show ?thesis
      using coalesce_from_ok [of s ls n rest "free_list s"] assms merge_lives [OF ls]
      by (simp add: coalesce_def eq)
  qed
qed

subsection \<open>Freeing\<close>

lemma place_ok:
  assumes "blocks_ok s (pre @ (n, True) # post)" "a = pa_base s + span pre"
  shows "\<exists>m. find_place s a 0 (free_list s) = Some (last (0 # frees (pa_base s) pre), m) \<and> m < 2 ^ 64
    \<and> seg (hnx (pa_base s) (region s)) (free_list s) (frees (pa_base s) pre) m
    \<and> seg (hnx (pa_base s) (region s)) m (frees (a + n) post) 0"
proof -
  let ?b = "pa_base s"
  note ok = assms(1) [unfolded blocks_ok_def] and f = frees_pre [OF assms(1)]
  obtain m where m: "seg (hnx ?b (region s)) (free_list s) (frees ?b pre) m"
    "seg (hnx ?b (region s)) m (frees (a + n) post) 0"
    using ok assms(2) by (auto simp: seg_append)
  have "m = 0 \<or> m \<in> set (starts (a + n) post)"
    using m(2) frees_starts [of "a + n" post] by (cases "frees (a + n) post") auto
  then have "m = 0 \<or> a \<le> m \<and> m < 2 ^ 63"
    using starts_bound [of post m "a + n"] blocks_inside(3) [OF assms(1), of m] ok assms(2) by (auto simp: add.assoc)
  moreover have "\<forall>h\<in>set (frees ?b pre). inside s h \<and> h \<noteq> 0 \<and> h < a"
    using f(2) frees_starts [of ?b pre] starts_bound [of pre _ ?b] ok assms(2) by fastforce
  ultimately show ?thesis using m by (intro exI [of _ m] conjI place_walk) auto
qed

lemma give_back:
  assumes "blocks_ok s (pre @ (n, True) # post)" "a = pa_base s + span pre"
    "find_place s a 0 (free_list s) = Some (prev, m)"
  shows "\<exists>s1 r fl. set_next a m s = Some s1 \<and> link prev a s1 = Some (s\<lparr>region := r, free_list := fl\<rparr>)
    \<and> blocks_ok (s\<lparr>region := r, free_list := fl\<rparr>) (pre @ (n, False) # post)
    \<and> touched (pa_base s) (set (starts (pa_base s) (pre @ (n, False) # post))) (region s) r"
proof -
  let ?b = "pa_base s" and ?r = "region s" and ?F = "frees (pa_base s) pre"
    and ?old = "starts (pa_base s) (pre @ (n, True) # post)"
  note ok = assms(1) [unfolded blocks_ok_def] and f = frees_pre [OF assms(1)]
  have pm: "prev = last (0 # ?F)" "m < 2 ^ 64" "seg (hnx ?b ?r) (free_list s) ?F m" "seg (hnx ?b ?r) m (frees (a + n) post) 0"
    using place_ok [OF assms(1,2)] assms(3) by auto
  have ins: "inside s h" if "h \<in> set ?old" for h using blocks_inside(1) [OF assms(1) that] .
  have a: "a \<in> set ?old" using assms(2) by simp
  have "a \<notin> set (frees ?b (pre @ (n, True) # post))"
    using starts_bound [of pre a ?b] starts_bound [of post a "a + n"] frees_starts [of ?b pre]
      frees_starts [of "a + n" post] ok assms(2) by (auto simp: add.assoc)
  from set_next_live [OF assms(1) a this pm(2)] obtain r1 where
    r1: "set_next a m s = Some (s\<lparr>region := r1\<rparr>)" "blocks_ok (s\<lparr>region := r1\<rparr>) (pre @ (n, True) # post)"
    "touched ?b {a} ?r r1" "hnx ?b r1 a = m"
    "\<forall>h. inside s h \<longrightarrow> far h a \<longrightarrow> hnx ?b r1 h = hnx ?b ?r h"
    by (elim exE conjE)
  let ?s = "s\<lparr>region := r1\<rparr>"
  have "\<exists>m'. find_place ?s a 0 (free_list ?s) = Some (last (0 # ?F), m') \<and> m' < 2 ^ 64
    \<and> seg (hnx ?b r1) (free_list s) ?F m' \<and> seg (hnx ?b r1) m' (frees (a + n) post) 0"
    using place_ok [OF r1(2), of a] assms(2) by simp
  then obtain m' where m': "seg (hnx ?b r1) (free_list s) ?F m'" by blast
  have i1: "inside ?s h = inside s h" for h using touched_length [OF r1(3)] by (simp add: inside_def)
  have "a < 2 ^ 64" using blocks_inside(3) [OF assms(1) a] by simp
  then have "\<exists>r fl. link (last (0 # ?F)) a ?s = Some (?s\<lparr>region := r, free_list := fl\<rparr>)
    \<and> touched ?b (set ?F) r1 r \<and> seg (hnx ?b r) fl ?F a
    \<and> (\<forall>h. inside s h \<longrightarrow> (\<forall>k\<in>set ?F. h = k \<or> far h k) \<longrightarrow> hsz ?b r h = hsz ?b r1 h)
    \<and> (\<forall>h. inside s h \<longrightarrow> (\<forall>k\<in>set ?F. far h k) \<longrightarrow> hnx ?b r h = hnx ?b r1 h)"
    using link_ok [of ?s ?F m' a] m' f(1,2) by (simp add: i1)
  then obtain r fl where r: "link prev a ?s = Some (s\<lparr>region := r, free_list := fl\<rparr>)"
    "touched ?b (set ?F) r1 r" "seg (hnx ?b r) fl ?F a"
    "\<And>h. inside s h \<Longrightarrow> \<forall>k\<in>set ?F. h = k \<or> far h k \<Longrightarrow> hsz ?b r h = hsz ?b r1 h"
    "\<And>h. inside s h \<Longrightarrow> \<forall>k\<in>set ?F. far h k \<Longrightarrow> hnx ?b r h = hnx ?b r1 h"
    unfolding pm(1) by auto
  have "sized (hsz ?b r) ?b (pre @ (n, True) # post) = sized (hsz ?b r1) ?b (pre @ (n, True) # post)"
    using ins f(3,4) by (intro sized_cong r(4)) auto
  then have szs: "sized (hsz ?b r) ?b (pre @ (n, False) # post)" using r1(2) by (simp add: blocks_ok_def)
  have far_a: "far h a" if "h \<in> set (starts (a + n) post)" for h
    using that starts_bound [of post h "a + n"] ok by (auto simp: far_def)
  have "\<forall>h\<in>set (starts (a + n) post). hnx ?b r h = hnx ?b ?r h"
    using r(5) r1(5) ins far_a f(3) assms(2) by (auto simp: add.assoc)
  then have "seg (hnx ?b r) m (frees (a + n) post) 0"
    using pm(4) seg_frees_cong [of "a + n" post "hnx ?b r" "hnx ?b ?r"] by blast
  moreover have "hnx ?b r a = m" using r(5) [of a] ins [OF a] f(3) assms(2) r1(4) by simp
  ultimately have "seg (hnx ?b r) fl (frees ?b (pre @ (n, False) # post)) 0"
    using r(3) assms(2) by (auto simp: seg_append)
  then have "blocks_ok (s\<lparr>region := r, free_list := fl\<rparr>) (pre @ (n, False) # post)"
    using ok szs touched_length [OF r1(3)] touched_length [OF r(2)] by (simp add: blocks_ok_def)
  moreover have "touched ?b (set (starts ?b (pre @ (n, False) # post))) ?r r"
    by (rule touched_mono [OF touched_trans [OF r1(3) r(2)]]) (use assms(2) frees_starts [of ?b pre] in auto)
  ultimately show ?thesis using r1(1) r(1) by blast
qed

lemma free_ok:
  assumes "blocks_ok s (pre @ (n, True) # post)" "a = pa_base s + span pre"
  shows "\<exists>s'. alloc_free (a + 16) s = Some (s', Inr ()) \<and> pa_base s' = pa_base s \<and> pa_total s' = pa_total s
    \<and> pa_used s' = size_t (pa_used s + 2 ^ 64 - n) \<and> blocks_ok s' (merge (pre @ (n, False) # post))
    \<and> touched (pa_base s) (set (starts (pa_base s) (pre @ (n, False) # post))) (region s) (region s')"
proof -
  let ?u = "s\<lparr>pa_used := size_t (pa_used s + 2 ^ 64 - n)\<rparr>"
  note ok = assms(1) [unfolded blocks_ok_def]
  have a: "inside s a" "a \<noteq> 0" "a < 2 ^ 63" "hsz (pa_base s) (region s) a = n"
    using blocks_inside [OF assms(1), of a] ok assms(2) by simp_all
  have u: "blocks_ok ?u (pre @ (n, True) # post)" using assms(1) by simp
  have h: "size_t (a + 16 + 2 ^ 64 - BLOCK_HEADER_SIZE) = a" "size_t (pa_base s + pa_total s) = pa_base s + pa_total s"
    using a(3) ok by (simp_all add: BLOCK_HEADER_SIZE_def size_t_def)
  have "\<exists>m. find_place ?u a 0 (free_list s) = Some (last (0 # frees (pa_base s) pre), m)"
    using place_ok [OF u, of a] assms(2) by auto
  then obtain prev m where p: "find_place ?u a 0 (free_list s) = Some (prev, m)" by blast
  obtain s1 r fl where g: "set_next a m ?u = Some s1" "link prev a s1 = Some (?u\<lparr>region := r, free_list := fl\<rparr>)"
    "blocks_ok (?u\<lparr>region := r, free_list := fl\<rparr>) (pre @ (n, False) # post)"
    "touched (pa_base s) (set (starts (pa_base s) (pre @ (n, False) # post))) (region s) r"
    using give_back [OF u, of a prev m] assms(2) p by auto
  let ?w = "?u\<lparr>region := r, free_list := fl\<rparr>"
  obtain r' where c: "coalesce ?w = Some (?w\<lparr>region := r'\<rparr>)"
    "blocks_ok (?w\<lparr>region := r'\<rparr>) (merge (pre @ (n, False) # post))"
    "touched (pa_base s) (set (starts (pa_base s) (pre @ (n, False) # post))) r r'"
    using coalesce_ok [OF g(3)] by auto
  have "a + 16 < pa_base s + pa_total s" "pa_base s \<le> a" "n \<noteq> 0" "n \<le> pa_total s" "pa_base s \<noteq> 0"
    using ok assms(2) by auto
  then have "alloc_free (a + 16) s = Some (?w\<lparr>region := r'\<rparr>, Inr ())"
    using hdr_size_inside [OF a(1)] a(4) h p g(1,2) c(1) by (simp add: alloc_free_def)
  moreover have "touched (pa_base s) (set (starts (pa_base s) (pre @ (n, False) # post))) (region s) r'"
    using touched_trans [OF g(4) c(3)] by simp
  ultimately show ?thesis using c(2) by (intro exI [of _ "?w\<lparr>region := r'\<rparr>"]) simp
qed

subsection \<open>The client's view\<close>

text \<open>
  The client sees blocks and the bytes it stored in them.  It asks for alignments of at most 8, frees
  pointers it got, and touches bytes of the payloads it holds.
\<close>

datatype heap_op = Op_Alloc nat nat | Op_Free nat | Op_Store nat u8 | Op_Load nat

datatype heap_answer = Pointer nat | Refused | Freed | Stored | Loaded u8

fun heap_step :: "allocator \<Rightarrow> heap_op \<Rightarrow> (allocator \<times> heap_answer) option" where
  "heap_step s (Op_Alloc n al) = map_option
     (\<lambda>(s, r). (s, case r of Inl _ \<Rightarrow> Refused | Inr p \<Rightarrow> Pointer p)) (alloc n al s)"
| "heap_step s (Op_Free p) = map_option
     (\<lambda>(s, r). (s, case r of Inl _ \<Rightarrow> Refused | Inr _ \<Rightarrow> Freed)) (alloc_free p s)"
| "heap_step s (Op_Store p v) =
     (if p < pa_base s then None
      else map_option (\<lambda>r. (s\<lparr>region := r\<rparr>, Stored)) (write_bytes (p - pa_base s) [v] (region s)))"
| "heap_step s (Op_Load p) =
     (if p < pa_base s \<or> p - pa_base s \<ge> length (region s) then None
      else Some (s, Loaded (region s ! (p - pa_base s))))"

definition need :: "nat \<Rightarrow> nat" where
  "need n = max (16 + (n + 7) div 8 * 8) 64"

fun live_start :: "nat \<Rightarrow> block list \<Rightarrow> nat \<Rightarrow> bool" where
  "live_start a [] x \<longleftrightarrow> False"
| "live_start a ((n, l) # bs) x \<longleftrightarrow> (a = x \<and> l) \<or> live_start (a + n) bs x"

fun release :: "nat \<Rightarrow> nat \<Rightarrow> block list \<Rightarrow> block list" where
  "release x a [] = []"
| "release x a ((n, l) # bs) = (if a = x then (n, False) # bs else (n, l) # release x (a + n) bs)"

type_synonym heap_view = "nat \<times> block list \<times> (nat \<Rightarrow> u8 option)"

fun heap_spec :: "heap_view \<Rightarrow> heap_op \<Rightarrow> heap_view \<times> heap_answer" where
  "heap_spec (b, bs, c) (Op_Alloc n al) =
     (case if n = 0 then None else fit (need n) b bs of
        None \<Rightarrow> ((b, bs, c), Refused)
      | Some (x, t, cs) \<Rightarrow> ((b, cs, c), Pointer (x + 16)))"
| "heap_spec (b, bs, c) (Op_Free p) =
     (let cs = merge (release (p - 16) b bs) in ((b, cs, c |` Collect (in_live b cs)), Freed))"
| "heap_spec (b, bs, c) (Op_Store p v) = ((b, bs, c(p \<mapsto> v)), Stored)"
| "heap_spec (b, bs, c) (Op_Load p) = ((b, bs, c), Loaded (the (c p)))"

fun heap_ok :: "heap_view \<Rightarrow> heap_op \<Rightarrow> bool" where
  "heap_ok (b, bs, c) (Op_Alloc n al) \<longleftrightarrow> al \<in> {1, 2, 4, 8} \<and> n < 2 ^ 62"
| "heap_ok (b, bs, c) (Op_Free p) \<longleftrightarrow> 16 \<le> p \<and> live_start b bs (p - 16)"
| "heap_ok (b, bs, c) (Op_Store p v) \<longleftrightarrow> in_live b bs p"
| "heap_ok (b, bs, c) (Op_Load p) \<longleftrightarrow> c p \<noteq> None"

definition live_bytes :: "block list \<Rightarrow> nat" where
  "live_bytes bs = span (filter snd bs)"

fun heap_rel :: "allocator \<Rightarrow> heap_view \<Rightarrow> bool" where
  "heap_rel s (b, bs, c) \<longleftrightarrow>
     pa_base s = b \<and> blocks_ok s bs \<and> pa_used s = live_bytes bs
     \<and> (\<forall>p v. c p = Some v \<longrightarrow> in_live b bs p \<and> region s ! (p - b) = v)"

lemma live_start_split:
  "live_start a bs x \<Longrightarrow> \<exists>pre n post. bs = pre @ (n, True) # post \<and> x = a + span pre"
proof (induction a bs x rule: live_start.induct)
  case (2 a n l bs x)
  show ?case
  proof (cases "a = x \<and> l")
    case True
    then show ?thesis by (intro exI [of _ "[]"]) auto
  next
    case False
    with 2 obtain pre m post where "bs = pre @ (m, True) # post" "x = a + n + span pre" by auto
    then show ?thesis by (intro exI [of _ "(n, l) # pre"]) auto
  qed
qed simp

lemma release_split:
  "big pre \<Longrightarrow> release (a + span pre) a (pre @ (n, l) # post) = pre @ (n, False) # post"
proof (induction pre arbitrary: a)
  case (Cons b pre)
  obtain m k where b: "b = (m, k)" by (cases b)
  have "release (a + m + span pre) (a + m) (pre @ (n, l) # post) = pre @ (n, False) # post"
    using Cons by (intro Cons.IH) simp
  then show ?case using Cons.prems b by (simp add: add.assoc)
qed simp

lemma in_live_merge: "in_live a (merge bs) p = in_live a bs p"
  by (induction bs arbitrary: a rule: merge.induct) (auto simp: add.assoc dest: in_live_bound)

lemma live_bytes_simps [simp]:
  "live_bytes [] = 0" "live_bytes ((n, l) # bs) = (if l then n else 0) + live_bytes bs"
  "live_bytes (xs @ ys) = live_bytes xs + live_bytes ys"
  by (simp_all add: live_bytes_def)

lemma live_bytes_merge [simp]: "live_bytes (merge bs) = live_bytes bs"
  by (induction bs rule: merge.induct) auto

lemma live_bytes_le: "live_bytes bs \<le> span bs"
  by (induction bs) (auto simp: live_bytes_def)

lemma touched_live:
  assumes "touched b (set (starts b bs)) r r'" "big bs" "in_live b bs p" "span bs = length r"
  shows "r' ! (p - b) = r ! (p - b)"
proof -
  have "\<forall>h\<in>set (starts b bs). b + (p - b) < h \<or> h + 16 \<le> b + (p - b)" "p - b < length r"
    using in_live_outside [OF assms(2,3)] in_live_bound [OF assms(3)] assms(4) by auto
  then show ?thesis using assms(1) unfolding touched_def by blast
qed

lemma need_props: "64 \<le> need n" "need n mod 8 = 0"
  by (auto simp: need_def max_def)

lemma align_up_bytes: "n < 2 ^ 62 \<Longrightarrow> align_up n 8 = (n + 7) div 8 * 8"
  using align_up_pow [of n 3] by simp

lemma alloc_ok:
  assumes "blocks_ok s bs" "al \<in> {1, 2, 4, 8}" "0 < n" "n < 2 ^ 62"
  shows "alloc n al s = map_option (\<lambda>(s, found). (s, case found of Some p \<Rightarrow> Inr p
    | None \<Rightarrow> Inl (''Out of persistent memory: requested '' @ dec_nat n @ '' bytes, available ~'' @ dec_nat (available s))))
    (alloc_loop (need n) al 0 (free_list s) s)"
proof -
  have "max al 8 = 8" using assms(2) by auto
  moreover have "size_t (BLOCK_HEADER_SIZE + (n + 7) div 8 * 8) = 16 + (n + 7) div 8 * 8"
    using assms(4) by (intro trans [OF size_t_small]) (auto simp: BLOCK_HEADER_SIZE_def)
  moreover have "pa_base s \<noteq> 0" using assms(1) by (simp add: blocks_ok_def)
  ultimately show ?thesis
    using assms(3,4) align_up_bytes [OF assms(4)]
    by (cases "alloc_loop (need n) al 0 (free_list s) s")
      (auto simp: alloc_def Let_def need_def MIN_BLOCK_SIZE_def)
qed

lemma alloc_step:
  assumes "heap_rel s (b, bs, c)" "al \<in> {1, 2, 4, 8}" "n < 2 ^ 62"
  shows "\<exists>t. heap_step s (Op_Alloc n al) = Some (t, snd (heap_spec (b, bs, c) (Op_Alloc n al)))
    \<and> heap_rel t (fst (heap_spec (b, bs, c) (Op_Alloc n al)))"
proof (cases "n = 0")
  case True
  with assms show ?thesis by (simp add: alloc_def)
next
  case False
  have ok: "blocks_ok s bs" "pa_base s = b" "pa_used s = live_bytes bs"
    "\<forall>p v. c p = Some v \<longrightarrow> in_live b bs p \<and> region s ! (p - b) = v" using assms(1) by simp_all
  note al = alloc_ok [OF ok(1) assms(2) _ assms(3)]
  show ?thesis
  proof (cases "fit (need n) b bs")
    case None
    then show ?thesis using alloc_loop_none [OF ok(1)] al False assms(1) ok(2) by simp
  next
    case (Some r)
    obtain x t cs where r: "fit (need n) b bs = Some (x, t, cs)" using Some by (cases r) auto
    obtain s' where s': "alloc_loop (need n) al 0 (free_list s) s = Some (s', Some (x + 16))" "pa_base s' = b"
      "pa_total s' = pa_total s" "pa_used s' = size_t (pa_used s + t)" "blocks_ok s' cs"
      "touched b (set (starts b cs)) (region s) (region s')"
      using alloc_loop_some [OF ok(1) _ need_props assms(2)] r ok(2) by blast
    obtain pre sz post where fs: "bs = pre @ (sz, False) # post" "need n \<le> sz" "x = b + span pre"
      "t = (if 64 \<le> sz - need n then need n else sz)" "cs = pre @ carve (need n) sz @ post"
      using fit_some [OF r] by blast
    have lb: "live_bytes cs = live_bytes bs + t" using fs(1,2,4,5) by (simp add: carve_def)
    moreover have "live_bytes cs \<le> span cs" by (rule live_bytes_le)
    moreover have "span cs < 2 ^ 64" using s'(5) by (simp add: blocks_ok_def)
    ultimately have "pa_used s' = live_bytes cs" using s'(4) ok(3) by simp
    moreover have "in_live b cs p \<and> region s' ! (p - b) = v" if "c p = Some v" for p v
    proof -
      have p: "in_live b bs p" "region s ! (p - b) = v" using ok(4) that by auto
      then have "in_live b cs p" using fs(1,2,5) by (auto simp: in_live_append carve_def dest: in_live_bound)
      moreover have "length (region s) = span cs"
        using s'(5) touched_length [OF s'(6)] by (simp add: blocks_ok_def)
      ultimately show ?thesis using touched_live [OF s'(6)] s'(5) p(2) by (simp add: blocks_ok_def)
    qed
    ultimately show ?thesis using al False s'(1,2,5) r by simp
  qed
qed

lemma free_step:
  assumes "heap_rel s (b, bs, c)" "16 \<le> p" "live_start b bs (p - 16)"
  shows "\<exists>t. heap_step s (Op_Free p) = Some (t, snd (heap_spec (b, bs, c) (Op_Free p)))
    \<and> heap_rel t (fst (heap_spec (b, bs, c) (Op_Free p)))"
proof -
  obtain pre n post where bs: "bs = pre @ (n, True) # post" "p - 16 = b + span pre"
    using live_start_split [OF assms(3)] by blast
  have ok: "blocks_ok s (pre @ (n, True) # post)" "pa_base s = b" "pa_used s = live_bytes bs"
    "\<forall>p v. c p = Some v \<longrightarrow> in_live b bs p \<and> region s ! (p - b) = v" using assms(1) bs(1) by simp_all
  let ?cs = "pre @ (n, False) # post"
  obtain s' where s': "alloc_free (b + span pre + 16) s = Some (s', Inr ())" "pa_base s' = b"
    "pa_used s' = size_t (pa_used s + 2 ^ 64 - n)" "blocks_ok s' (merge ?cs)"
    "touched b (set (starts b ?cs)) (region s) (region s')"
    using free_ok [OF ok(1), of "b + span pre"] ok(2) by auto
  have p: "p = b + span pre + 16" using bs(2) assms(2) by simp
  have rel: "release (p - 16) b bs = ?cs"
    using release_split [of pre b n True post] ok(1) bs by (simp add: blocks_ok_def)
  have "live_bytes bs < 2 ^ 64" using live_bytes_le [of bs] ok(1) bs(1) by (simp add: blocks_ok_def)
  moreover have "size_t (x + 2 ^ 64) = x" if "x < 2 ^ 64" for x using that by (simp add: size_t_def)
  ultimately have "pa_used s' = live_bytes (merge ?cs)"
    using s'(3) ok(3) bs(1) by (simp add: add.assoc [symmetric])
  moreover have "region s' ! (q - b) = v" if "c q = Some v" "in_live b ?cs q" for q v
  proof -
    have "big ?cs" "span ?cs = length (region s)" using ok(1) by (simp_all add: blocks_ok_def)
    with touched_live [OF s'(5) _ that(2)] ok(4) that(1) show ?thesis by auto
  qed
  ultimately show ?thesis
    using s'(1,2,4) p rel by (auto simp: Let_def in_live_merge restrict_map_def split: if_splits)
qed

lemma store_step:
  assumes "heap_rel s (b, bs, c)" "in_live b bs p"
  shows "\<exists>t. heap_step s (Op_Store p v) = Some (t, Stored) \<and> heap_rel t (b, bs, c(p \<mapsto> v))"
proof -
  have ok: "blocks_ok s bs" "pa_base s = b" "pa_used s = live_bytes bs"
    "\<forall>p v. c p = Some v \<longrightarrow> in_live b bs p \<and> region s ! (p - b) = v" using assms(1) by simp_all
  note pb = in_live_bound [OF assms(2)]
  have len: "span bs = length (region s)" "big bs" using ok(1) by (simp_all add: blocks_ok_def)
  have e: "p - b + length [v] \<le> length (region s)" using pb len(1) by auto
  obtain r where r: "write_bytes (p - b) [v] (region s) = Some r" "length r = length (region s)"
    "\<forall>k<length (region s). r ! k = (if p - b \<le> k \<and> k < p - b + length [v] then [v] ! (k - (p - b)) else region s ! k)"
    using write_bytes_ex [OF e] by blast
  have out: "\<forall>k<length (region s). b + k < p \<or> p + 1 \<le> b + k \<longrightarrow> r ! k = region s ! k"
    using r(3) pb by auto
  have same: "hsz b r h = hsz b (region s) h" "hnx b r h = hnx b (region s) h" if h: "h \<in> set (starts b bs)" for h
  proof -
    have i: "inside s h" using blocks_inside(1) [OF ok(1)] h ok(2) by simp
    have "p < h \<or> h + 16 \<le> p" by (rule in_live_outside [OF len(2) assms(2) h])
    then show "hsz b r h = hsz b (region s) h" "hnx b r h = hnx b (region s) h"
      using slice_far [OF out r(2), of h 8] slice_far [OF out r(2), of "h + 8" 8] i ok(2)
      by (auto simp: hsz_def hnx_def inside_def)
  qed
  have "sized (hsz b r) b bs = sized (hsz b (region s)) b bs" using same by (intro sized_cong) auto
  moreover have "seg (hnx b r) f (frees b bs) 0 = seg (hnx b (region s)) f (frees b bs) 0" for f
    using same by (intro seg_frees_cong) auto
  ultimately have "blocks_ok (s\<lparr>region := r\<rparr>) bs" using ok(1,2) r(2) by (simp add: blocks_ok_def)
  moreover have "r ! (q - b) = w" if "(c(p \<mapsto> v)) q = Some w" for q w
  proof (cases "q = p")
    case True
    then show ?thesis using that r(3) e by auto
  next
    case False
    then have q: "c q = Some w" using that by simp
    then have "in_live b bs q" "region s ! (q - b) = w" using ok(4) by auto
    moreover have "q - b < length (region s)" "b + (q - b) = q"
      using in_live_bound [of b bs q] calculation len(1) by auto
    ultimately show ?thesis using spec [OF out, of "q - b"] False by auto
  qed
  ultimately show ?thesis using r(1) ok assms(2) pb by (auto split: if_splits)
qed

interpretation heap: related heap_step heap_spec heap_rel heap_ok
proof
  fix s :: allocator and a :: heap_view and op
  obtain b bs c where a: "a = (b, bs, c)" by (cases a)
  assume rel: "heap_rel s a" and ok: "heap_ok a op"
  show "\<exists>t. heap_step s op = Some (t, snd (heap_spec a op)) \<and> heap_rel t (fst (heap_spec a op))"
  proof (cases op)
    case (Op_Alloc n al)
    with alloc_step rel ok a show ?thesis by (metis heap_ok.simps(1))
  next
    case (Op_Free p)
    with free_step rel ok a show ?thesis by (metis heap_ok.simps(2))
  next
    case (Op_Store p v)
    with store_step rel ok a show ?thesis by (metis heap_ok.simps(3) heap_spec.simps(3) fst_conv snd_conv)
  next
    case (Op_Load p)
    then obtain v where v: "c p = Some v" using ok a by auto
    with rel a have "in_live b bs p" "region s ! (p - b) = v" "pa_base s = b" "length (region s) = span bs"
      by (auto simp: blocks_ok_def)
    then show ?thesis using rel a v Op_Load in_live_bound [of b bs p] by auto
  qed
qed

subsection \<open>Properties\<close>

definition region_ok :: "nat \<Rightarrow> u8 list \<Rightarrow> bool" where
  "region_ok b m \<longleftrightarrow> 0 < b \<and> b mod 8 = 0 \<and> 128 \<le> length m \<and> b + length m \<le> 2 ^ 63"

lemma init_ok:
  assumes "region_ok b m"
  shows "\<exists>s. alloc_init b (length m) m s0 = Some (s, Inr ()) \<and> heap_rel s (b, [(length m, False)], Map.empty)
    \<and> pa_overhead s = 0 \<and> touched b {b} m (region s)"
proof -
  let ?s = "\<lparr>region = m, pa_base = b, pa_total = length m, pa_used = 0, pa_overhead = 0, free_list = b\<rparr>"
  have i: "inside ?s b" using assms by (simp add: inside_def region_ok_def)
  have "length m < 2 ^ 64" using assms by (simp add: region_ok_def)
  with i obtain r1 r2 where r: "set_size b (length m) ?s = Some (?s\<lparr>region := r1\<rparr>)"
    "set_next b 0 (?s\<lparr>region := r1\<rparr>) = Some (?s\<lparr>region := r2\<rparr>)" "touched b {b} m r2" "hsz b r2 b = length m" "hnx b r2 b = 0"
    using new_header [of ?s b "{}" "length m" 0] by auto
  then have "blocks_ok (?s\<lparr>region := r2\<rparr>) [(length m, False)]"
    using assms touched_length [OF r(3)] by (simp add: blocks_ok_def region_ok_def)
  then show ?thesis
    using r(1-3) assms by (intro exI [of _ "?s\<lparr>region := r2\<rparr>"])
      (simp add: alloc_init_def MIN_BLOCK_SIZE_def region_ok_def)
qed

text \<open>Blocks never lie side by side both free.\<close>

fun coalesced :: "block list \<Rightarrow> bool" where
  "coalesced (x # y # bs) \<longleftrightarrow> (snd x \<or> snd y) \<and> coalesced (y # bs)"
| "coalesced _ \<longleftrightarrow> True"

lemma coalesced_append:
  "coalesced (xs @ ys) \<longleftrightarrow> coalesced xs \<and> coalesced ys \<and> (xs = [] \<or> ys = [] \<or> snd (last xs) \<or> snd (hd ys))"
proof (induction xs)
  case (Cons x xs)
  then show ?case by (cases xs; cases ys) auto
qed simp

lemma merge_head: "\<exists>m ys. merge ((n, k) # bs) = (m, k) # ys"
  by (induction "(n, k) # bs" arbitrary: n k bs rule: merge.induct) auto

lemma coalesced_merge: "coalesced (merge bs)"
proof (induction bs rule: merge.induct)
  case (3 n l m k bs)
  then show ?case using merge_head [of m k bs] by auto
qed simp_all

lemma coalesced_fit:
  assumes "fit n a bs = Some (x, t, cs)" "coalesced bs"
  shows "coalesced cs \<and> span cs = span bs"
proof -
  obtain pre sz post where f: "bs = pre @ (sz, False) # post" "n \<le> sz" "cs = pre @ carve n sz @ post"
    using fit_some [OF assms(1)] by blast
  with assms(2) have "coalesced cs" by (cases post) (auto simp: coalesced_append carve_def)
  with f show ?thesis by (simp add: carve_def)
qed

lemma span_merge [simp]: "span (merge bs) = span bs"
  by (induction bs rule: merge.induct) auto

lemma span_release [simp]: "span (release x a bs) = span bs"
  by (induction x a bs rule: release.induct) auto

fun view_ok :: "nat \<Rightarrow> nat \<Rightarrow> heap_view \<Rightarrow> bool" where
  "view_ok b n (b', bs, c) \<longleftrightarrow> b' = b \<and> span bs = n \<and> coalesced bs"

lemma view_step: "view_ok b n a \<Longrightarrow> view_ok b n (fst (heap_spec a op))"
proof (induction b n a rule: view_ok.induct)
  case (1 b n b' bs c)
  then show ?case
    by (cases op) (auto simp: Let_def coalesced_merge split: option.splits dest: coalesced_fit)
qed

lemma view_run: "view_ok b n a \<Longrightarrow> view_ok b n (fst (spec_out heap_spec a ops))"
proof (induction ops arbitrary: a)
  case (Cons op ops)
  from Cons.IH [OF view_step [OF Cons.prems]] show ?case by (simp add: split_beta)
qed simp

lemma heap_run:
  assumes "region_ok b m" "spec_ok heap_spec heap_ok (b, [(length m, False)], Map.empty) ops"
  shows "\<exists>s t bs c. alloc_init b (length m) m new_allocator = Some (s, Inr ())
    \<and> run_out heap_step s ops = Some (t, snd (spec_out heap_spec (b, [(length m, False)], Map.empty) ops))
    \<and> heap_rel t (b, bs, c) \<and> coalesced bs \<and> span bs = length m"
proof -
  let ?a = "(b, [(length m, False)], Map.empty) :: heap_view"
  obtain s where s: "alloc_init b (length m) m new_allocator = Some (s, Inr ())" "heap_rel s ?a"
    using init_ok [OF assms(1)] by blast
  obtain t where t: "run_out heap_step s ops = Some (t, snd (spec_out heap_spec ?a ops))"
    "heap_rel t (fst (spec_out heap_spec ?a ops))"
    using heap.run_rel [OF s(2) assms(2)] by blast
  obtain b' bs c where v: "fst (spec_out heap_spec ?a ops) = (b', bs, c)"
    by (cases "fst (spec_out heap_spec ?a ops)")
  have "view_ok b (length m) (fst (spec_out heap_spec ?a ops))" by (rule view_run) simp
  then have "b' = b" "span bs = length m" "coalesced bs" using v by simp_all
  with s(1) t v show ?thesis by auto
qed

text \<open>C40. The allocator refines its specification: whatever the contents of the region it is given, a client
  that asks for alignments of at most 8, frees what it got and touches what it holds sees a first-fit
  allocation of disjoint blocks whose bytes keep the values it stored, and no access leaves the region.\<close>

theorem heap_refines:
  assumes "region_ok b m" "spec_ok heap_spec heap_ok (b, [(length m, False)], Map.empty) ops"
  shows "\<exists>s t. alloc_init b (length m) m new_allocator = Some (s, Inr ())
    \<and> run_out heap_step s ops = Some (t, snd (spec_out heap_spec (b, [(length m, False)], Map.empty) ops))"
  using heap_run [OF assms] by blast

text \<open>Nothing is lost to fragmentation: when the client holds no block any more, the free list is one block
  that covers the region, however the allocations and the frees were interleaved.\<close>

theorem heap_reclaimed:
  assumes "region_ok b m" "spec_ok heap_spec heap_ok (b, [(length m, False)], Map.empty) ops"
  shows "\<exists>s t answers. alloc_init b (length m) m new_allocator = Some (s, Inr ())
    \<and> run_out heap_step s ops = Some (t, answers)
    \<and> (pa_used t = 0 \<longrightarrow> free_list t = b \<and> hdr_size t b = Some (length m) \<and> hdr_next t b = Some 0)"
proof -
  obtain s t bs c where r: "alloc_init b (length m) m new_allocator = Some (s, Inr ())"
    "run_out heap_step s ops = Some (t, snd (spec_out heap_spec (b, [(length m, False)], Map.empty) ops))"
    "heap_rel t (b, bs, c)" "coalesced bs" "span bs = length m"
    using heap_run [OF assms] by blast
  have ok: "blocks_ok t bs" "pa_base t = b" "pa_used t = live_bytes bs" using r(3) by simp_all
  have one: "bs = [(length m, False)]" if "live_bytes bs = 0"
  proof -
    have "\<forall>x\<in>set bs. \<not> snd x"
      using that ok(1) by (fastforce simp: live_bytes_def span_def blocks_ok_def big_def)
    moreover have "bs \<noteq> []" using r(5) assms(1) by (auto simp: region_ok_def)
    ultimately show ?thesis using r(4,5) by (cases bs rule: coalesced.cases) auto
  qed
  have "free_list t = b \<and> hdr_size t b = Some (length m) \<and> hdr_next t b = Some 0" if "pa_used t = 0"
  proof -
    have bs: "bs = [(length m, False)]" using one ok(3) that by simp
    then have "inside t b" using blocks_inside(1) [OF ok(1), of b] ok(2) by simp
    then show ?thesis
      using hdr_size_inside hdr_next_inside ok(1,2) bs by (simp add: blocks_ok_def)
  qed
  then have "pa_used t = 0 \<longrightarrow> free_list t = b \<and> hdr_size t b = Some (length m) \<and> hdr_next t b = Some 0"
    by (rule impI)
  with r(1,2) show ?thesis by (intro exI conjI)
qed

lemma heap_refines_witness:
  "\<exists>s t. alloc_init 4096 256 (replicate 256 0) new_allocator = Some (s, Inr ())
    \<and> run_out heap_step s [Op_Alloc 24 8, Op_Alloc 100 8, Op_Store 4112 7, Op_Free 4176, Op_Load 4112, Op_Alloc 120 4]
      = Some (t, [Pointer 4112, Pointer 4176, Stored, Freed, Loaded 7, Pointer 4176])"
  using heap_refines [of 4096 "replicate 256 0"
      "[Op_Alloc 24 8, Op_Alloc 100 8, Op_Store 4112 7, Op_Free 4176, Op_Load 4112, Op_Alloc 120 4]"]
  by (simp add: region_ok_def need_def carve_def Let_def restrict_map_def)

lemma heap_reclaimed_witness:
  "\<exists>s t answers. alloc_init 4096 256 (replicate 256 0) new_allocator = Some (s, Inr ())
    \<and> run_out heap_step s [Op_Alloc 24 8, Op_Alloc 100 8, Op_Free 4112, Op_Free 4176] = Some (t, answers)
    \<and> (pa_used t = 0 \<longrightarrow> free_list t = 4096 \<and> hdr_size t 4096 = Some 256 \<and> hdr_next t 4096 = Some 0)"
  using heap_reclaimed [of 4096 "replicate 256 0" "[Op_Alloc 24 8, Op_Alloc 100 8, Op_Free 4112, Op_Free 4176]"]
  by (simp add: region_ok_def need_def carve_def Let_def restrict_map_def)

text \<open>A block allocated with the default alignment of 64 cannot be freed.  In a zeroed region that starts at
  a multiple of 64, the first block needs 48 bytes of padding, and \<open>free\<close> looks for its header 16 bytes
  before the pointer, inside the padding.\<close>

theorem default_alignment_not_freed:
  assumes "region_ok b (replicate n 0)" "b mod 64 = 0" "0 < k" "128 + (k + 63) div 64 * 64 \<le> n"
  shows "\<exists>s t. alloc_init b n (replicate n 0) new_allocator = Some (s, Inr ())
    \<and> alloc k 64 s = Some (t, Inr (b + 64))
    \<and> alloc_free (b + 64) t = Some (t, Inl ''Corrupt block header or double free'')"
proof -
  let ?m = "replicate n (0 :: u8)" and ?N = "64 + (k + 63) div 64 * 64"
  obtain s where s: "alloc_init b n ?m new_allocator = Some (s, Inr ())" "heap_rel s (b, [(n, False)], Map.empty)"
    "touched b {b} ?m (region s)"
    using init_ok [OF assms(1)] by auto
  have b: "0 < b" "b + n \<le> 2 ^ 63" using assms(1) by (simp_all add: region_ok_def)
  have ok: "blocks_ok s ([] @ (n, False) # [])" "pa_base s = b" "pa_total s = n" "free_list s = b"
    "hsz b (region s) b = n" "length (region s) = n"
    using s(2) by (auto simp: blocks_ok_def)
  have "8 dvd ?N" by (intro dvd_add dvd_mult) simp_all
  then have n8: "?N mod 8 = 0" by simp
  have n64: "64 \<le> n - ?N" using assms(4) by linarith
  obtain r fl where t: "take_block 0 b n ?N s = Some (s\<lparr>region := r, free_list := fl\<rparr>, ?N)"
    "blocks_ok (s\<lparr>region := r, free_list := fl\<rparr>) [(?N, True), (n - ?N, False)]"
    "touched b {b, b + ?N} (region s) r"
    using take_split [OF ok(1) _ n8 n64, of b 0] ok(2) by auto
  let ?u = "s\<lparr>region := r, free_list := fl, pa_used := size_t (pa_used s + ?N), pa_overhead := size_t (pa_overhead s + 64)\<rparr>"
  have "blocks_ok ?u [(?N, True), (n - ?N, False)]" using t(2) by simp
  from set_next_live [OF this, of b 0] obtain r' where r': "set_next b 0 ?u = Some (?u\<lparr>region := r'\<rparr>)" "touched b {b} r r'"
    using ok(2) by auto
  let ?t = "?u\<lparr>region := r'\<rparr>"
  have "touched b ({b} \<union> {b, b + ?N} \<union> {b}) ?m r'" using s(3) t(3) r'(2) by (blast intro: touched_trans)
  then have r0: "r' ! i = 0" "length r' = n" if "48 \<le> i" "i < 56" for i
    using that assms(4) by (auto simp: touched_def)
  then have "slice_of 48 8 r' = replicate 8 0"
    using assms(4) r0(2) [of 48] by (intro nth_equalityI) auto
  moreover have "le_value (replicate j 0) = 0" for j by (induction j) simp_all
  ultimately have z: "hdr_size ?t (b + 48) = Some 0"
    using r0(2) [of 48] ok(2) assms(4) by (simp add: hdr_size_def read_field_def)
  have kn: "k + 64 \<le> 2 ^ 64" using assms(4) b by (auto dest: div_le_mono)
  have al: "align_up k 64 = (k + 63) div 64 * 64" using align_up_pow [of k 6] kn by simp
  have user: "align_up (b + 16) 64 = b + 64"
  proof -
    obtain q where q: "b = 64 * q" using assms(2) by auto
    have "align_up (b + 16) (2 ^ 6) = (b + 16 + 2 ^ 6 - 1) div 2 ^ 6 * 2 ^ 6"
      using b assms(4) by (intro align_up_pow) auto
    then show ?thesis by (simp add: q)
  qed
  have ins: "inside s b" using blocks_inside(1) [OF ok(1), of b] ok(2) by simp
  have sz: "size_t (b + 16) = b + 16" "size_t (b + 64 + 2 ^ 64 - (b + 16)) = 48" "size_t (16 + (k + 63) div 64 * 64 + 48) = ?N"
    using b assms(4) by (simp_all add: size_t_def)
  have loop: "alloc_loop (16 + (k + 63) div 64 * 64) 64 0 b s = Some (?t, Some (b + 64))"
    using b(1) hdr_size_inside [OF ins] ok t(1) r'(1) user sz assms(4)
    by (subst alloc_loop.simps) (simp add: Let_def BLOCK_HEADER_SIZE_def)
  have "64 \<le> (k + 63) div 64 * 64" using assms(3) by (cases k) auto
  then have "alloc k 64 s = Some (?t, Inr (b + 64))"
    using loop al b assms(3,4) ok(2,4)
    by (simp add: alloc_def Let_def BLOCK_HEADER_SIZE_def MIN_BLOCK_SIZE_def)
  moreover have "b + 64 + 2 ^ 64 - BLOCK_HEADER_SIZE = b + 48 + 2 ^ 64" by (simp add: BLOCK_HEADER_SIZE_def)
  then have "size_t (b + 64 + 2 ^ 64 - BLOCK_HEADER_SIZE) = b + 48" "size_t (b + n) = b + n"
    using b assms(4) unfolding size_t_def by (simp_all only: mod_add_self2) simp_all
  then have "alloc_free (b + 64) ?t = Some (?t, Inl ''Corrupt block header or double free'')"
    using z b assms(4) ok(2,3) by (simp add: alloc_free_def)
  ultimately show ?thesis using s(1) by blast
qed

lemma default_alignment_not_freed_witness:
  "\<exists>s t. alloc_init 4096 256 (replicate 256 0) new_allocator = Some (s, Inr ())
    \<and> alloc 8 64 s = Some (t, Inr 4160)
    \<and> alloc_free 4160 t = Some (t, Inl ''Corrupt block header or double free'')"
  using default_alignment_not_freed [of 4096 256 8] by (simp add: region_ok_def)

text \<open>A request close to the size of the address space succeeds: rounding it up wraps to zero, and the client
  gets the smallest block.\<close>

theorem huge_request_granted:
  assumes "blocks_ok s bs" "fit 64 (pa_base s) bs = Some (x, t, cs)"
  shows "\<exists>s'. alloc (2 ^ 64 - 1) 8 s = Some (s', Inr (x + 16)) \<and> blocks_ok s' cs"
proof -
  have "align_up (2 ^ 64 - 1) 8 = 0" by (simp add: align_up_def)
  moreover have "pa_base s \<noteq> 0" using assms(1) by (simp add: blocks_ok_def)
  ultimately show ?thesis
    using alloc_loop_some [OF assms, of 8]
    by (auto simp: alloc_def Let_def BLOCK_HEADER_SIZE_def MIN_BLOCK_SIZE_def)
qed

lemma huge_request_granted_witness:
  "\<exists>s s'. alloc_init 4096 256 (replicate 256 0) new_allocator = Some (s, Inr ())
    \<and> alloc (2 ^ 64 - 1) 8 s = Some (s', Inr 4112) \<and> blocks_ok s' [(64, True), (192, False)]"
proof -
  obtain s where s: "alloc_init 4096 256 (replicate 256 0) new_allocator = Some (s, Inr ())"
    "heap_rel s (4096, [(256, False)], Map.empty)"
    using init_ok [of 4096 "replicate 256 0" new_allocator] by (auto simp: region_ok_def)
  then show ?thesis using huge_request_granted [of s "[(256, False)]"] by (auto simp: carve_def)
qed

end
