(* ===== verification/Splice_Ring.thy ===== *)
theory Splice_Ring
  imports Memory
begin

text \<open>
  The single-producer single-consumer ring buffer of the splice service (\<open>services/splice/splice_ring.h\<close>).
  First the member functions as one thread sees them, then the interleaving of a producer and a consumer:
  every atomic access and every byte copied is a step of its own.  The positions are 64-bit words that
  wrap; the data area is a list of bytes, an access outside it is \<open>None\<close>.
\<close>

subsection \<open>The ring\<close>

record ring =
  write_pos :: u64
  read_pos :: u64
  ring_capacity :: u64
  ring_flags :: u32
  ring_data :: "u8 list"

definition ProducerEOF :: u32 where "ProducerEOF = 1"
definition ConsumerEOF :: u32 where "ConsumerEOF = 2"
definition RingError :: u32 where "RingError = 4"

definition has_flag :: "u32 \<Rightarrow> u32 \<Rightarrow> bool" where
  "has_flag flags test \<longleftrightarrow> and flags test \<noteq> 0"

definition ring_init :: "u64 \<Rightarrow> ring \<Rightarrow> ring" where
  "ring_init cap s = s\<lparr>write_pos := 0, read_pos := 0, ring_capacity := cap, ring_flags := 0\<rparr>"

definition ring_available :: "ring \<Rightarrow> u64" where
  "ring_available s = write_pos s - read_pos s"

definition free_space :: "ring \<Rightarrow> u64" where
  "free_space s = ring_capacity s - (write_pos s - read_pos s)"

definition is_empty :: "ring \<Rightarrow> bool" where
  "is_empty s \<longleftrightarrow> ring_available s = 0"

definition is_full :: "ring \<Rightarrow> bool" where
  "is_full s \<longleftrightarrow> free_space s = 0"

definition set_flag :: "u32 \<Rightarrow> ring \<Rightarrow> ring" where
  "set_flag f s = s\<lparr>ring_flags := or (ring_flags s) f\<rparr>"

text \<open>The two \<open>memcpy\<close> calls of a transfer of \<open>n > 0\<close> bytes at a position.\<close>

definition ring_write :: "u64 \<Rightarrow> u64 \<Rightarrow> u8 list \<Rightarrow> ring \<Rightarrow> u8 list option" where
  "ring_write w n src s =
     (if ring_capacity s = 0 then None
      else do {
        let offset = w mod ring_capacity s;
        let first_chunk = min n (ring_capacity s - offset);
        d \<leftarrow> write_bytes (unat offset) (take (unat first_chunk) src) (ring_data s);
        if n > first_chunk
        then write_bytes 0 (slice_of (unat first_chunk) (unat (n - first_chunk)) src) d
        else Some d })"

definition read_bytes :: "nat \<Rightarrow> nat \<Rightarrow> u8 list \<Rightarrow> u8 list option" where
  "read_bytes off n m = (if off + n \<le> length m then Some (slice_of off n m) else None)"

definition ring_read :: "u64 \<Rightarrow> u64 \<Rightarrow> ring \<Rightarrow> u8 list option" where
  "ring_read r n s =
     (if ring_capacity s = 0 then None
      else do {
        let offset = r mod ring_capacity s;
        let first_chunk = min n (ring_capacity s - offset);
        xs \<leftarrow> read_bytes (unat offset) (unat first_chunk) (ring_data s);
        ys \<leftarrow> (if n > first_chunk then read_bytes 0 (unat (n - first_chunk)) (ring_data s) else Some []);
        Some (xs @ ys) })"

definition ring_push :: "u8 list \<Rightarrow> ring \<Rightarrow> (ring \<times> u64) option" where
  "ring_push src s =
     (let w = write_pos s; space = ring_capacity s - (w - read_pos s); n = min (of_nat (length src)) space in
      if n = 0 then Some (s, 0)
      else map_option (\<lambda>d. (s\<lparr>ring_data := d, write_pos := w + n\<rparr>, n)) (ring_write w n src s))"

definition ring_pop :: "u64 \<Rightarrow> ring \<Rightarrow> (ring \<times> u8 list) option" where
  "ring_pop max_len s =
     (let r = read_pos s; n = min max_len (write_pos s - r) in
      if n = 0 then Some (s, [])
      else map_option (\<lambda>d. (s\<lparr>read_pos := r + n\<rparr>, d)) (ring_read r n s))"

definition ring_peek :: "u64 \<Rightarrow> ring \<Rightarrow> u8 list option" where
  "ring_peek max_len s =
     (let r = read_pos s; n = min max_len (write_pos s - r) in
      if n = 0 then Some [] else ring_read r n s)"

text \<open>The header is padded to three cache lines.\<close>

definition splice_ring_total_size :: "u64 \<Rightarrow> u64" where
  "splice_ring_total_size data_capacity = 192 + data_capacity"

subsection \<open>Two threads\<close>

text \<open>
  Where a thread is in its operation.  The producer has loaded the write position, or copies byte \<open>k\<close> of
  \<open>n\<close>; the consumer has loaded the read position, or has copied some bytes of \<open>n\<close>.
\<close>

datatype producer = P_idle | P_loaded "u8 list" u64 | P_copy "u8 list" u64 u64 nat
datatype consumer = C_idle | C_loaded u64 u64 | C_copy u64 u64 "u8 list"

record ring_system =
  the_ring :: ring
  producer :: producer
  consumer :: consumer
  sent :: "u8 list"
  received :: "u8 list"

text \<open>Where byte \<open>k\<close> of a transfer of \<open>n\<close> bytes at a position lies.\<close>

definition ring_index :: "u64 \<Rightarrow> u64 \<Rightarrow> u64 \<Rightarrow> nat \<Rightarrow> nat" where
  "ring_index cap pos n k =
     (let offset = pos mod cap; first_chunk = min n (cap - offset) in
      if k < unat first_chunk then unat offset + k else k - unat first_chunk)"

inductive ring_step :: "ring_system \<Rightarrow> ring_system \<Rightarrow> bool" where
  push_begin: "producer s = P_idle \<Longrightarrow>
    ring_step s (s\<lparr>producer := P_loaded src (write_pos (the_ring s))\<rparr>)"
| push_load: "producer s = P_loaded src w \<Longrightarrow>
    n = min (of_nat (length src)) (ring_capacity (the_ring s) - (w - read_pos (the_ring s))) \<Longrightarrow>
    ring_step s (s\<lparr>producer := if n = 0 then P_idle else P_copy src w n 0\<rparr>)"
| push_byte: "producer s = P_copy src w n k \<Longrightarrow> k < unat n \<Longrightarrow>
    ring_step s (s\<lparr>producer := P_copy src w n (Suc k), the_ring := (the_ring s)\<lparr>ring_data :=
      (ring_data (the_ring s))[ring_index (ring_capacity (the_ring s)) w n k := src ! k]\<rparr>\<rparr>)"
| push_end: "producer s = P_copy src w n (unat n) \<Longrightarrow>
    ring_step s (s\<lparr>producer := P_idle, the_ring := (the_ring s)\<lparr>write_pos := w + n\<rparr>,
      sent := sent s @ take (unat n) src\<rparr>)"
| pop_begin: "consumer s = C_idle \<Longrightarrow>
    ring_step s (s\<lparr>consumer := C_loaded max_len (read_pos (the_ring s))\<rparr>)"
| pop_load: "consumer s = C_loaded max_len r \<Longrightarrow> n = min max_len (write_pos (the_ring s) - r) \<Longrightarrow>
    ring_step s (s\<lparr>consumer := if n = 0 then C_idle else C_copy r n []\<rparr>)"
| pop_byte: "consumer s = C_copy r n acc \<Longrightarrow> length acc < unat n \<Longrightarrow>
    ring_step s (s\<lparr>consumer := C_copy r n
      (acc @ [ring_data (the_ring s) ! ring_index (ring_capacity (the_ring s)) r n (length acc)])\<rparr>)"
| pop_end: "consumer s = C_copy r n acc \<Longrightarrow> length acc = unat n \<Longrightarrow>
    ring_step s (s\<lparr>consumer := C_idle, the_ring := (the_ring s)\<lparr>read_pos := r + n\<rparr>,
      received := received s @ acc\<rparr>)"

text \<open>What both threads can reach from an initialised ring.\<close>

inductive ring_reachable :: "u8 list \<Rightarrow> ring_system \<Rightarrow> bool" for d where
  start: "ring_reachable d \<lparr>the_ring = ring_init (of_nat (length d))
      \<lparr>write_pos = w, read_pos = r, ring_capacity = c, ring_flags = f, ring_data = d\<rparr>,
    producer = P_idle, consumer = C_idle, sent = [], received = []\<rparr>"
| step: "ring_reachable d s \<Longrightarrow> ring_step s t \<Longrightarrow> ring_reachable d t"

inductive_cases ring_stepE: "ring_step s t"

subsection \<open>Positions\<close>

text \<open>A position that has not wrapped, or wraps in step with the ring.\<close>

definition pos_ok :: "nat \<Rightarrow> nat \<Rightarrow> bool" where
  "pos_ok C p \<longleftrightarrow> C dvd 2 ^ 64 \<or> p < 2 ^ 64"

lemma pos_ok_mono: "pos_ok C p \<Longrightarrow> q \<le> p \<Longrightarrow> pos_ok C q"
  by (auto simp: pos_ok_def)

lemma unat_pos: "unat (of_nat p :: u64) = p mod 2 ^ 64"
  by (simp add: unat_of_nat)

lemma pos_mod:
  assumes "pos_ok C p" "C < 2 ^ 64"
  shows "unat (of_nat p mod of_nat C :: u64) = p mod C"
proof -
  have "unat (of_nat p mod of_nat C :: u64) = (p mod 2 ^ 64) mod C"
    using assms(2) by (simp add: unat_mod unat_pos)
  then show ?thesis using assms(1) by (auto simp: pos_ok_def mod_mod_cancel)
qed

lemma unat_min: "unat (min a b) = min (unat a) (unat (b :: u64))"
  by (simp add: min_def word_le_nat_alt)

lemma pos_diff:
  assumes "q \<le> p" "p - q < 2 ^ 64"
  shows "unat (of_nat p - of_nat q :: u64) = p - q"
proof -
  have "(of_nat p - of_nat q :: u64) = of_nat (p - q)" using assms(1) by (simp add: of_nat_diff)
  then show ?thesis using assms(2) by (simp add: unat_pos)
qed

lemma space_left:
  assumes "q \<le> p" "p \<le> q + C" "C < 2 ^ 64"
  shows "unat (of_nat C - (of_nat p - of_nat q) :: u64) = C - (p - q)"
proof -
  have "(of_nat C - (of_nat p - of_nat q) :: u64) = of_nat (C - (p - q))"
    using assms(1,2) by (simp add: of_nat_diff)
  then show ?thesis using assms(3) by (simp add: unat_pos)
qed

lemma first_chunk:
  assumes "pos_ok C p" "0 < C" "C < 2 ^ 64"
  shows "unat (min n (of_nat C - of_nat p mod of_nat C :: u64)) = min (unat n) (C - p mod C)"
proof -
  have "unat (of_nat C - of_nat p mod of_nat C :: u64) = C - p mod C"
    using pos_mod [OF assms(1,3)] assms(2,3) by (subst unat_sub) (auto simp: word_le_nat_alt unat_pos)
  then show ?thesis by (simp add: unat_min)
qed

lemma wrap_index:
  assumes "0 < C" "k < m" "m \<le> C"
  shows "(p + k) mod C
    = (if k < min m (C - p mod C) then p mod C + k else k - min m (C - p mod (C :: nat)))"
proof -
  have less: "p mod C < C" using assms(1) by simp
  then have "p mod C + k - C < C" using assms by linarith
  with less have "(p mod C + k) mod C = (if k < C - p mod C then p mod C + k else k - (C - p mod C))"
    using assms by (auto simp: mod_if [of "p mod C + k"])
  then show ?thesis using assms by (auto simp: mod_simps)
qed

lemma ring_index_mod:
  assumes "pos_ok C p" "C < 2 ^ 64" "k < unat n" "unat n \<le> C"
  shows "ring_index (of_nat C) (of_nat p) n k = (p + k) mod C"
proof -
  have C: "0 < C" using assms(3,4) by simp
  show ?thesis
    using first_chunk [OF assms(1) C assms(2)] pos_mod [OF assms(1,2)] wrap_index [OF C assms(3,4)]
    by (simp add: ring_index_def Let_def)
qed

lemma ring_cells:
  assumes "i < j" "j < i + (C :: nat)"
  shows "i mod C \<noteq> j mod C"
proof
  assume "i mod C = j mod C"
  then obtain q where "j - i = C * q" using assms(1) by (metis less_imp_le mod_eq_dvd_iff_nat dvdE)
  with assms show False by (cases q) auto
qed

subsection \<open>Interleavings\<close>

definition ring_cells_ok :: "nat \<Rightarrow> ring_system \<Rightarrow> bool" where
  "ring_cells_ok C s \<longleftrightarrow> (let g = the_ring s; W = length (sent s); R = length (received s) in
     0 < C \<and> C < 2 ^ 64 \<and> length (ring_data g) = C \<and> ring_capacity g = of_nat C
     \<and> write_pos g = of_nat W \<and> read_pos g = of_nat R \<and> R \<le> W \<and> W \<le> R + C
     \<and> received s = take R (sent s)
     \<and> (\<forall>i. R \<le> i \<longrightarrow> i < W \<longrightarrow> ring_data g ! (i mod C) = sent s ! i))"

fun producer_ok :: "nat \<Rightarrow> ring_system \<Rightarrow> producer \<Rightarrow> bool" where
  "producer_ok C s P_idle \<longleftrightarrow> True"
| "producer_ok C s (P_loaded src w) \<longleftrightarrow> w = of_nat (length (sent s))"
| "producer_ok C s (P_copy src w n k) \<longleftrightarrow>
     w = of_nat (length (sent s)) \<and> unat n \<le> length src
     \<and> length (sent s) + unat n \<le> length (received s) + C \<and> k \<le> unat n
     \<and> (\<forall>j<k. ring_data (the_ring s) ! ((length (sent s) + j) mod C) = src ! j)"

fun consumer_ok :: "ring_system \<Rightarrow> consumer \<Rightarrow> bool" where
  "consumer_ok s C_idle \<longleftrightarrow> True"
| "consumer_ok s (C_loaded m r) \<longleftrightarrow> r = of_nat (length (received s))"
| "consumer_ok s (C_copy r n acc) \<longleftrightarrow>
     r = of_nat (length (received s)) \<and> length (received s) + unat n \<le> length (sent s)
     \<and> length acc \<le> unat n \<and> acc = take (length acc) (drop (length (received s)) (sent s))"

definition ring_ok :: "nat \<Rightarrow> ring_system \<Rightarrow> bool" where
  "ring_ok C s \<longleftrightarrow> ring_cells_ok C s \<and> producer_ok C s (producer s) \<and> consumer_ok s (consumer s)"

lemma ring_step_sent: "ring_step s t \<Longrightarrow> \<exists>xs. sent t = sent s @ xs"
  by (cases rule: ring_step.cases) auto

lemma ring_push_byte:
  assumes "ring_ok C s" "producer s = P_copy src w n k" "k < unat n" "pos_ok C (length (sent s))"
  shows "ring_ok C (s\<lparr>producer := P_copy src w n (Suc k), the_ring := (the_ring s)\<lparr>ring_data :=
      (ring_data (the_ring s))[ring_index (ring_capacity (the_ring s)) w n k := src ! k]\<rparr>\<rparr>)"
proof -
  let ?W = "length (sent s)" and ?R = "length (received s)" and ?d = "ring_data (the_ring s)"
  have c: "0 < C" "C < 2 ^ 64" "length ?d = C" "ring_capacity (the_ring s) = of_nat C"
    "\<And>i. ?R \<le> i \<Longrightarrow> i < ?W \<Longrightarrow> ?d ! (i mod C) = sent s ! i" "?R \<le> ?W"
    using assms(1) by (auto simp: ring_ok_def ring_cells_ok_def Let_def)
  have p: "w = of_nat ?W" "?W + unat n \<le> ?R + C" "\<And>j. j < k \<Longrightarrow> ?d ! ((?W + j) mod C) = src ! j"
    using assms(1,2) by (auto simp: ring_ok_def)
  have ix: "ring_index (ring_capacity (the_ring s)) w n k = (?W + k) mod C"
    using ring_index_mod [OF assms(4) c(2) assms(3)] c(4,6) p(1,2) by simp
  have "?d[(?W + k) mod C := src ! k] ! (i mod C) = sent s ! i" if "?R \<le> i" "i < ?W" for i
    using c(5) [OF that] ring_cells [of i "?W + k" C] that p(2) assms(3) by auto
  moreover have "?d[(?W + k) mod C := src ! k] ! ((?W + j) mod C) = src ! j" if "j < Suc k" for j
    using that p c ring_cells [of "?W + j" "?W + k" C] assms(3) by (cases "j = k") auto
  ultimately show ?thesis
    using assms(1-3) ix by (auto simp: ring_ok_def ring_cells_ok_def Let_def split: consumer.splits)
      (cases "consumer s"; simp)+
qed

lemma ring_push_load:
  assumes "ring_ok C s" "producer s = P_loaded src w"
    "n = min (of_nat (length src)) (ring_capacity (the_ring s) - (w - read_pos (the_ring s)))"
  shows "ring_ok C (s\<lparr>producer := if n = 0 then P_idle else P_copy src w n 0\<rparr>)"
proof -
  let ?W = "length (sent s)" and ?R = "length (received s)"
  have c: "C < 2 ^ 64" "ring_capacity (the_ring s) = of_nat C" "read_pos (the_ring s) = of_nat ?R" "w = of_nat ?W"
    "?R \<le> ?W" "?W \<le> ?R + C"
    using assms(1,2) by (auto simp: ring_ok_def ring_cells_ok_def Let_def)
  have "unat (of_nat (length src) :: u64) \<le> length src" by (simp add: unat_pos)
  then have "unat n \<le> length src" "unat n \<le> C - (?W - ?R)"
    using assms(3) c space_left [OF c(5,6,1)] by (simp_all add: unat_min)
  then have "?W + unat n \<le> ?R + C" using c(5,6) by linarith
  with \<open>unat n \<le> length src\<close> assms(1) c(4) show ?thesis
    by (cases "consumer s") (auto simp: ring_ok_def ring_cells_ok_def Let_def)
qed

lemma ring_push_end:
  assumes "ring_ok C s" "producer s = P_copy src w n (unat n)"
  shows "ring_ok C (s\<lparr>producer := P_idle, the_ring := (the_ring s)\<lparr>write_pos := w + n\<rparr>,
    sent := sent s @ take (unat n) src\<rparr>)"
proof -
  let ?W = "length (sent s)" and ?R = "length (received s)" and ?d = "ring_data (the_ring s)"
  have c: "\<And>i. ?R \<le> i \<Longrightarrow> i < ?W \<Longrightarrow> ?d ! (i mod C) = sent s ! i" "?R \<le> ?W"
    using assms(1) by (auto simp: ring_ok_def ring_cells_ok_def Let_def)
  have p: "w = of_nat ?W" "unat n \<le> length src" "?W + unat n \<le> ?R + C"
    "\<And>j. j < unat n \<Longrightarrow> ?d ! ((?W + j) mod C) = src ! j"
    using assms by (auto simp: ring_ok_def)
  have cells: "?d ! (i mod C) = (sent s @ take (unat n) src) ! i" if "?R \<le> i" "i < ?W + unat n" for i
    using that c(1) [of i] p(4) [of "i - ?W"] by (auto simp: nth_append)
  have "w + n = of_nat (?W + unat n)" using p(1) by simp
  then have "ring_cells_ok C (s\<lparr>producer := P_idle, the_ring := (the_ring s)\<lparr>write_pos := w + n\<rparr>,
      sent := sent s @ take (unat n) src\<rparr>)"
    using assms(1) p(2,3) cells c(2) by (auto simp: ring_ok_def ring_cells_ok_def Let_def min_absorb2)
  moreover have "consumer_ok (s\<lparr>producer := P_idle, the_ring := (the_ring s)\<lparr>write_pos := w + n\<rparr>,
      sent := sent s @ take (unat n) src\<rparr>) (consumer s)"
    using assms(1) p(2) by (cases "consumer s") (auto simp: ring_ok_def)
  ultimately show ?thesis by (simp add: ring_ok_def)
qed

lemma ring_pop_load:
  assumes "ring_ok C s" "consumer s = C_loaded m r" "n = min m (write_pos (the_ring s) - r)"
  shows "ring_ok C (s\<lparr>consumer := if n = 0 then C_idle else C_copy r n []\<rparr>)"
proof -
  let ?W = "length (sent s)" and ?R = "length (received s)"
  have c: "C < 2 ^ 64" "write_pos (the_ring s) = of_nat ?W" "r = of_nat ?R" "?R \<le> ?W" "?W \<le> ?R + C"
    using assms(1,2) by (auto simp: ring_ok_def ring_cells_ok_def Let_def)
  then have "unat n \<le> ?W - ?R" using assms(3) pos_diff [OF c(4)] by (simp add: unat_min)
  then have "?R + unat n \<le> ?W" using c(4) by linarith
  with assms(1) c(3) show ?thesis
    by (cases "producer s") (auto simp: ring_ok_def ring_cells_ok_def Let_def)
qed

lemma ring_pop_byte:
  assumes "ring_ok C s" "consumer s = C_copy r n acc" "length acc < unat n" "pos_ok C (length (sent s))"
  shows "ring_ok C (s\<lparr>consumer := C_copy r n
      (acc @ [ring_data (the_ring s) ! ring_index (ring_capacity (the_ring s)) r n (length acc)])\<rparr>)"
proof -
  let ?W = "length (sent s)" and ?R = "length (received s)" and ?d = "ring_data (the_ring s)" and ?k = "length acc"
  have c: "C < 2 ^ 64" "ring_capacity (the_ring s) = of_nat C" "?R \<le> ?W" "?W \<le> ?R + C"
    "\<And>i. ?R \<le> i \<Longrightarrow> i < ?W \<Longrightarrow> ?d ! (i mod C) = sent s ! i"
    using assms(1) by (auto simp: ring_ok_def ring_cells_ok_def Let_def)
  have r: "r = of_nat ?R" "?R + unat n \<le> ?W" "acc = take ?k (drop ?R (sent s))"
    using assms(1,2) by (auto simp: ring_ok_def)
  have "ring_index (ring_capacity (the_ring s)) r n ?k = (?R + ?k) mod C"
    using ring_index_mod [OF pos_ok_mono [OF assms(4) c(3)] c(1) assms(3)] c r(1,2) by simp
  moreover have "?d ! ((?R + ?k) mod C) = sent s ! (?R + ?k)" using c(5) r(2) assms(3) by simp
  moreover have "take (Suc ?k) (drop ?R (sent s)) = take ?k (drop ?R (sent s)) @ [sent s ! (?R + ?k)]"
    using r(2) assms(3) by (subst take_Suc_conv_app_nth) auto
  ultimately have "acc @ [?d ! ring_index (ring_capacity (the_ring s)) r n ?k] = take (Suc ?k) (drop ?R (sent s))"
    using r(3) by simp
  moreover have "ring_ok C (s\<lparr>consumer := C_copy r n ys\<rparr>)"
    if "length ys \<le> unat n" "ys = take (length ys) (drop ?R (sent s))" for ys
    using assms(1) r(1,2) that
    by (cases "producer s") (simp_all add: ring_ok_def ring_cells_ok_def Let_def)
  ultimately show ?thesis using assms(3) r(2) by simp
qed

lemma ring_pop_end:
  assumes "ring_ok C s" "consumer s = C_copy r n acc" "length acc = unat n"
  shows "ring_ok C (s\<lparr>consumer := C_idle, the_ring := (the_ring s)\<lparr>read_pos := r + n\<rparr>, received := received s @ acc\<rparr>)"
proof -
  let ?W = "length (sent s)" and ?R = "length (received s)"
  have r: "r = of_nat ?R" "?R + unat n \<le> ?W" "acc = take (unat n) (drop ?R (sent s))" "received s = take ?R (sent s)"
    using assms by (auto simp: ring_ok_def ring_cells_ok_def Let_def)
  have "r + n = of_nat (?R + unat n)" using r(1) by simp
  moreover have "received s @ acc = take (?R + unat n) (sent s)" using r(3,4) by (metis take_add)
  ultimately show ?thesis
    using assms(1,3) r(2)
    by (cases "producer s") (auto simp: ring_ok_def ring_cells_ok_def Let_def)
qed

lemma ring_step_ok:
  assumes "ring_step s t" "ring_ok C s" "pos_ok C (length (sent t))"
  shows "ring_ok C t"
proof -
  have p: "pos_ok C (length (sent s))"
    using ring_step_sent [OF assms(1)] pos_ok_mono [OF assms(3)] by auto
  from assms(1) show ?thesis
  proof cases
    case (push_begin src)
    with assms(2) show ?thesis
      by (cases "consumer s") (auto simp: ring_ok_def ring_cells_ok_def Let_def)
  next
    case (pop_begin m)
    with assms(2) show ?thesis
      by (cases "producer s") (auto simp: ring_ok_def ring_cells_ok_def Let_def)
  next
    case (push_load src w n)
    then show ?thesis using ring_push_load [OF assms(2) push_load(2,3)] by (simp only:)
  next
    case (pop_load m r n)
    then show ?thesis using ring_pop_load [OF assms(2) pop_load(2,3)] by (simp only:)
  qed (use assms(2) p in \<open>simp_all add: ring_push_byte ring_push_end ring_pop_byte ring_pop_end\<close>)
qed

lemma ring_reachable_ok:
  assumes "ring_reachable d s" "d \<noteq> []" "length d < 2 ^ 64" "pos_ok (length d) (length (sent s))"
  shows "ring_ok (length d) s"
  using assms(1,4)
proof (induction rule: ring_reachable.induct)
  case (start w r c f)
  then show ?case using assms(2,3) by (simp add: ring_ok_def ring_cells_ok_def ring_init_def)
next
  case (step s t)
  have "pos_ok (length d) (length (sent s))"
    using ring_step_sent [OF step.hyps(2)] pos_ok_mono [OF step.prems] by auto
  with step show ?case by (blast intro: ring_step_ok)
qed

subsection \<open>What the consumer gets\<close>

text \<open>C6. Whatever the interleaving of a producer and a consumer, the consumer has received exactly the
  first bytes the producer has published, in order; the bytes published and not yet received fit in the
  ring and lie at their places.  The condition on the capacity keeps the remainder of a position
  meaningful when the 64-bit word wraps.\<close>

theorem ring_fifo:
  assumes "ring_reachable d s" "d \<noteq> []" "length d < 2 ^ 64" "length d dvd 2 ^ 64 \<or> length (sent s) < 2 ^ 64"
  shows "\<exists>rest. sent s = received s @ rest \<and> length rest \<le> length d
    \<and> (\<forall>i<length rest. ring_data (the_ring s) ! ((length (received s) + i) mod length d) = rest ! i)"
proof -
  have ok: "ring_cells_ok (length d) s"
    using ring_reachable_ok [OF assms(1-3)] assms(4) by (simp add: pos_ok_def ring_ok_def)
  then have "received s = take (length (received s)) (sent s)" by (simp add: ring_cells_ok_def Let_def)
  then have "sent s = received s @ drop (length (received s)) (sent s)" by (metis append_take_drop_id)
  with ok show ?thesis
    by (intro exI [of _ "drop (length (received s)) (sent s)"]) (auto simp: ring_cells_ok_def Let_def)
qed

text \<open>C38. While both threads copy, the byte the producer is about to write and the byte the consumer is
  about to read are different cells inside the data area: the two plain \<open>memcpy\<close>s never race.\<close>

theorem ring_no_race:
  assumes "ring_reachable d s" "d \<noteq> []" "length d < 2 ^ 64" "length d dvd 2 ^ 64 \<or> length (sent s) < 2 ^ 64"
    and "producer s = P_copy src w n k" "k < unat n"
    and "consumer s = C_copy r m acc" "length acc < unat m"
  shows "ring_index (ring_capacity (the_ring s)) w n k < length (ring_data (the_ring s))
    \<and> ring_index (ring_capacity (the_ring s)) r m (length acc) < length (ring_data (the_ring s))
    \<and> ring_index (ring_capacity (the_ring s)) w n k \<noteq> ring_index (ring_capacity (the_ring s)) r m (length acc)"
proof -
  let ?C = "length d" and ?W = "length (sent s)" and ?R = "length (received s)"
  have pos: "pos_ok ?C ?W" using assms(4) by (simp add: pos_ok_def)
  have ok: "ring_cells_ok ?C s" "producer_ok ?C s (producer s)" "consumer_ok s (consumer s)"
    using ring_reachable_ok [OF assms(1-3) pos] by (simp_all add: ring_ok_def)
  then have c: "0 < ?C" "length (ring_data (the_ring s)) = ?C" "ring_capacity (the_ring s) = of_nat ?C" "?R \<le> ?W"
    by (auto simp: ring_cells_ok_def Let_def)
  have p: "w = of_nat ?W" "?W + unat n \<le> ?R + ?C" using ok(2) assms(5) by auto
  have q: "r = of_nat ?R" "?R + unat m \<le> ?W" using ok(3) assms(7) by auto
  have m: "unat n \<le> ?C" "unat m \<le> ?C" using p(2) q(2) c(4) ok(1) by (auto simp: ring_cells_ok_def Let_def)
  have "ring_index (ring_capacity (the_ring s)) w n k = (?W + k) mod ?C"
    using ring_index_mod [OF pos assms(3,6) m(1)] c(3) p(1) by simp
  moreover have "ring_index (ring_capacity (the_ring s)) r m (length acc) = (?R + length acc) mod ?C"
    using ring_index_mod [OF pos_ok_mono [OF pos c(4)] assms(3,8) m(2)] c(3) q(1) by simp
  ultimately show ?thesis
    using ring_cells [of "?R + length acc" "?W + k" ?C] p(2) q(2) assms(6,8) c(1,2) by auto
qed

subsection \<open>Neither thread waits for the other\<close>

fun producer_left :: "producer \<Rightarrow> nat" where
  "producer_left P_idle = 0"
| "producer_left (P_loaded src w) = length src + 2"
| "producer_left (P_copy src w n k) = unat n - k + 1"

fun consumer_left :: "consumer \<Rightarrow> nat" where
  "consumer_left C_idle = 0"
| "consumer_left (C_loaded m r) = unat m + 2"
| "consumer_left (C_copy r n acc) = unat n - length acc + 1"

definition in_transfer :: "ring_system \<Rightarrow> bool" where
  "in_transfer s \<longleftrightarrow> (case producer s of P_copy src w n k \<Rightarrow> k \<le> unat n | _ \<Rightarrow> True)
     \<and> (case consumer s of C_copy r n acc \<Rightarrow> length acc \<le> unat n | _ \<Rightarrow> True)"

lemma ring_step_in_transfer: "ring_step s t \<Longrightarrow> in_transfer s \<Longrightarrow> in_transfer t"
  by (cases "producer s"; cases "consumer s"; erule ring_stepE) (simp_all add: in_transfer_def)

lemma ring_reachable_in_transfer: "ring_reachable d s \<Longrightarrow> in_transfer s"
proof (induction rule: ring_reachable.induct)
  case (step s t)
  then show ?case by (blast intro: ring_step_in_transfer)
qed (simp add: in_transfer_def)

lemma min_length: "unat (min (of_nat (length xs)) b :: u64) \<le> length xs"
  by (simp add: unat_min unat_pos min.coboundedI1)

lemma min_count: "unat (min m b :: u64) \<le> unat m"
  by (simp add: unat_min)

lemma producer_step:
  assumes "in_transfer s" "producer s \<noteq> P_idle"
  shows "\<exists>t. ring_step s t \<and> consumer t = consumer s \<and> producer_left (producer t) < producer_left (producer s)"
proof (cases "producer s")
  case (P_loaded src w)
  show ?thesis
    by (intro exI conjI, rule push_load [OF P_loaded refl])
      (auto simp: P_loaded intro: le_less_trans [OF min_length])
next
  case (P_copy src w n k)
  show ?thesis
  proof (cases "k < unat n")
    case True
    show ?thesis by (intro exI conjI, rule push_byte [OF P_copy True]) (use True in \<open>auto simp: P_copy\<close>)
  next
    case False
    then have k: "producer s = P_copy src w n (unat n)" using P_copy assms(1) by (auto simp: in_transfer_def)
    show ?thesis by (intro exI conjI, rule push_end [OF k]) (auto simp: k)
  qed
qed (use assms in simp)

lemma consumer_step:
  assumes "in_transfer s" "consumer s \<noteq> C_idle"
  shows "\<exists>t. ring_step s t \<and> producer t = producer s \<and> consumer_left (consumer t) < consumer_left (consumer s)"
proof (cases "consumer s")
  case (C_loaded m r)
  show ?thesis
    by (intro exI conjI, rule pop_load [OF C_loaded refl]) (auto simp: C_loaded intro: le_less_trans [OF min_count])
next
  case (C_copy r n acc)
  show ?thesis
  proof (cases "length acc < unat n")
    case True
    show ?thesis by (intro exI conjI, rule pop_byte [OF C_copy True]) (use True in \<open>auto simp: C_copy\<close>)
  next
    case False
    then have k: "length acc = unat n" using C_copy assms(1) by (auto simp: in_transfer_def)
    show ?thesis by (intro exI conjI, rule pop_end [OF C_copy k]) (auto simp: C_copy)
  qed
qed (use assms in simp)

lemma runs_down:
  fixes \<mu> :: "'s \<Rightarrow> nat"
  assumes "I s" and down: "\<And>s. I s \<Longrightarrow> \<mu> s \<noteq> 0 \<Longrightarrow> \<exists>t. st s t \<and> I t \<and> \<mu> t < \<mu> s"
  shows "\<exists>t k. (st ^^ k) s t \<and> k \<le> \<mu> s \<and> I t \<and> \<mu> t = 0"
  using assms(1)
proof (induction "\<mu> s" arbitrary: s rule: less_induct)
  case less
  show ?case
  proof (cases "\<mu> s = 0")
    case True
    with less.prems show ?thesis by (intro exI [of _ s] exI [of _ 0]) simp
  next
    case False
    then obtain u where u: "st s u" "I u" "\<mu> u < \<mu> s" using down less.prems by blast
    then obtain t k where t: "(st ^^ k) u t" "k \<le> \<mu> u" "I t" "\<mu> t = 0"
      using less.hyps [OF u(3,2)] by blast
    have "(st ^^ Suc k) s t" using relpowp_Suc_I2 [OF u(1) t(1)] .
    with t u(3) show ?thesis by (intro exI [of _ t] exI [of _ "Suc k"]) simp
  qed
qed

lemma left_0 [simp]: "producer_left p = 0 \<longleftrightarrow> p = P_idle" "consumer_left c = 0 \<longleftrightarrow> c = C_idle"
  by (cases p; simp) (cases c; simp)

text \<open>Neither thread can be blocked by the other: from every reachable state a push under way returns
  in a number of the producer's own steps that only its remaining bytes bound, with the consumer standing
  still at any point of its operation, and the same for a pop.\<close>

theorem ring_wait_free:
  assumes "ring_reachable d s"
  shows "(\<exists>t k. (ring_step ^^ k) s t \<and> k \<le> producer_left (producer s) \<and> producer t = P_idle \<and> consumer t = consumer s)
    \<and> (\<exists>t k. (ring_step ^^ k) s t \<and> k \<le> consumer_left (consumer s) \<and> consumer t = C_idle \<and> producer t = producer s)"
proof -
  have I: "in_transfer s" by (rule ring_reachable_in_transfer [OF assms])
  have "\<exists>t. ring_step u t \<and> (in_transfer t \<and> consumer t = c) \<and> producer_left (producer t) < producer_left (producer u)"
    if "in_transfer u \<and> consumer u = c" "producer_left (producer u) \<noteq> 0" for u c
    using producer_step [of u] ring_step_in_transfer [of u] that by (auto dest: producer_step)
  from runs_down [where \<mu> = "\<lambda>s. producer_left (producer s)", OF _ this] I
  have p: "\<exists>t k. (ring_step ^^ k) s t \<and> k \<le> producer_left (producer s) \<and> producer t = P_idle \<and> consumer t = consumer s"
    by fastforce
  have "\<exists>t. ring_step u t \<and> (in_transfer t \<and> producer t = c) \<and> consumer_left (consumer t) < consumer_left (consumer u)"
    if "in_transfer u \<and> producer u = c" "consumer_left (consumer u) \<noteq> 0" for u c
    using consumer_step [of u] ring_step_in_transfer [of u] that by (auto dest: consumer_step)
  from runs_down [where \<mu> = "\<lambda>s. consumer_left (consumer s)", OF _ this] I
  have "\<exists>t k. (ring_step ^^ k) s t \<and> k \<le> consumer_left (consumer s) \<and> consumer t = C_idle \<and> producer t = producer s"
    by fastforce
  with p show ?thesis by blast
qed

subsection \<open>One thread: a bounded queue\<close>

datatype ring_op = Push "u8 list" | Pop u64 | Peek u64 | Available | Space

datatype ring_result = Count u64 | Got "u8 list"

fun ring_op_step :: "ring \<Rightarrow> ring_op \<Rightarrow> (ring \<times> ring_result) option" where
  "ring_op_step s (Push src) = map_option (map_prod id Count) (ring_push src s)"
| "ring_op_step s (Pop n) = map_option (map_prod id Got) (ring_pop n s)"
| "ring_op_step s (Peek n) = map_option (\<lambda>d. (s, Got d)) (ring_peek n s)"
| "ring_op_step s Available = Some (s, Count (ring_available s))"
| "ring_op_step s Space = Some (s, Count (free_space s))"

text \<open>The specification: the capacity, how many bytes were ever read, and the bytes in the queue.\<close>

fun queue_spec :: "nat \<times> nat \<times> u8 list \<Rightarrow> ring_op \<Rightarrow> (nat \<times> nat \<times> u8 list) \<times> ring_result" where
  "queue_spec (C, R, q) (Push src) =
     (let n = min (length src) (C - length q) in ((C, R, q @ take n src), Count (of_nat n)))"
| "queue_spec (C, R, q) (Pop n) = ((C, R + min (unat n) (length q), drop (unat n) q), Got (take (unat n) q))"
| "queue_spec (C, R, q) (Peek n) = ((C, R, q), Got (take (unat n) q))"
| "queue_spec (C, R, q) Available = ((C, R, q), Count (of_nat (length q)))"
| "queue_spec (C, R, q) Space = ((C, R, q), Count (of_nat (C - length q)))"

text \<open>
  What the client owes: the length it passes is a 64-bit number, and so is the count of all bytes
  unless the capacity divides \<open>2 ^ 64\<close>.
\<close>

fun queue_ok :: "nat \<times> nat \<times> u8 list \<Rightarrow> ring_op \<Rightarrow> bool" where
  "queue_ok (C, R, q) (Push src) \<longleftrightarrow> length src < 2 ^ 64 \<and> pos_ok C (R + length q + length src)"
| "queue_ok _ _ \<longleftrightarrow> True"

fun ring_rel :: "ring \<Rightarrow> nat \<times> nat \<times> u8 list \<Rightarrow> bool" where
  "ring_rel s (C, R, q) \<longleftrightarrow> 0 < C \<and> C < 2 ^ 64 \<and> pos_ok C (R + length q) \<and> length q \<le> C
     \<and> length (ring_data s) = C \<and> ring_capacity s = of_nat C
     \<and> write_pos s = of_nat (R + length q) \<and> read_pos s = of_nat R
     \<and> (\<forall>i<length q. ring_data s ! ((R + i) mod C) = q ! i)"

declare ring_rel.simps [simp del]

lemma ring_write_cells:
  assumes "pos_ok C W" "0 < C" "C < 2 ^ 64" "length (ring_data s) = C" "ring_capacity s = of_nat C"
    and "0 < unat n" "unat n \<le> C" "unat n \<le> length src"
  shows "\<exists>d. ring_write (of_nat W) n src s = Some d \<and> length d = C
    \<and> (\<forall>j<unat n. d ! ((W + j) mod C) = src ! j)
    \<and> (\<forall>c<C. (\<forall>j<unat n. c \<noteq> (W + j) mod C) \<longrightarrow> d ! c = ring_data s ! c)"
proof -
  define o' where "o' = W mod C"
  define f where "f = min (unat n) (C - o')"
  have cap: "(of_nat C :: u64) \<noteq> 0" using assms(2,3) by (metis of_nat_0 unat_pos mod_less unat_0 less_numeral_extra(3))
  have o1: "unat (of_nat W mod of_nat C :: u64) = o'" using pos_mod [OF assms(1,3)] by (simp add: o'_def)
  have f1: "unat (min n (of_nat C - of_nat W mod of_nat C :: u64)) = f"
    using first_chunk [OF assms(1-3)] by (simp add: f_def o'_def)
  have n1: "unat (n - min n (of_nat C - of_nat W mod of_nat C :: u64)) = unat n - f"
    by (subst unat_sub) (simp_all add: f1)
  have less: "n > min n (of_nat C - of_nat W mod of_nat C :: u64) \<longleftrightarrow> f < unat n"
    by (simp add: word_less_nat_alt f1)
  have o: "o' < C" using assms(2) by (simp add: o'_def)
  obtain d1 where d1: "write_bytes o' (take f src) (ring_data s) = Some d1" "length d1 = C"
    "\<forall>k<C. d1 ! k = (if o' \<le> k \<and> k < o' + f then take f src ! (k - o') else ring_data s ! k)"
  proof -
    have "f \<le> length src" "o' + f \<le> C" using assms(8) o by (auto simp: f_def)
    then show ?thesis
      using write_bytes_ex [of o' "take f src" "ring_data s"] assms(4) that by (auto simp: min_absorb2)
  qed
  obtain d where d: "(if f < unat n then write_bytes 0 (slice_of f (unat n - f) src) d1 else Some d1) = Some d"
    "length d = C" "\<forall>k<C. d ! k = (if k < unat n - f then src ! (f + k) else d1 ! k)"
  proof (cases "f < unat n")
    case True
    then have len: "0 + length (slice_of f (unat n - f) src) \<le> length d1" using d1(2) assms(7,8) by simp
    from write_bytes_ex [OF len] True d1(2) assms(8) that show ?thesis by auto
  next
    case False
    with d1(2) that show ?thesis by auto
  qed
  have run: "ring_write (of_nat W) n src s = Some d"
    using d(1) d1(1) cap by (simp add: ring_write_def Let_def assms(5) o1 f1 n1 less split: if_splits)
  have ix: "(W + j) mod C = (if j < f then o' + j else j - f)" if "j < unat n" for j
    using wrap_index [OF assms(2) that assms(7)] by (simp add: f_def o'_def)
  show ?thesis
  proof (intro exI conjI allI impI)
    fix j assume j: "j < unat n"
    show "d ! ((W + j) mod C) = src ! j"
      using d(3) d1(3) ix [OF j] j o assms(7,8) by (auto simp: f_def min_def split: if_splits)
  next
    fix c assume c: "c < C" "\<forall>j<unat n. c \<noteq> (W + j) mod C"
    have "(W + (c - o')) mod C = c" if "o' \<le> c" "c < o' + f" using that ix [of "c - o'"] by (auto simp: f_def)
    then have "\<not> (o' \<le> c \<and> c < o' + f)" using c(2) by (auto simp: f_def dest!: spec [of _ "c - o'"])
    moreover have "\<not> c < unat n - f" using c(2) ix [of "f + c"] by (auto simp: less_diff_conv add.commute)
    ultimately show "d ! c = ring_data s ! c" using d(3) d1(3) c(1) by auto
  qed (rule run d)+
qed

lemma ring_read_cells:
  assumes "pos_ok C R" "0 < C" "C < 2 ^ 64" "length (ring_data s) = C" "ring_capacity s = of_nat C" "unat n \<le> C"
  shows "ring_read (of_nat R) n s = Some (tabulate (unat n) (\<lambda>j. ring_data s ! ((R + j) mod C)))"
proof -
  define f where "f = min (unat n) (C - R mod C)"
  have cap: "(of_nat C :: u64) \<noteq> 0" using assms(2,3) by (metis of_nat_0 unat_pos mod_less unat_0 less_numeral_extra(3))
  have o1: "unat (of_nat R mod of_nat C :: u64) = R mod C" using pos_mod [OF assms(1,3)] .
  have f1: "unat (min n (of_nat C - of_nat R mod of_nat C :: u64)) = f"
    using first_chunk [OF assms(1-3)] by (simp add: f_def)
  have n1: "unat (n - min n (of_nat C - of_nat R mod of_nat C :: u64)) = unat n - f"
    by (subst unat_sub) (simp_all add: f1)
  have less: "n > min n (of_nat C - of_nat R mod of_nat C :: u64) \<longleftrightarrow> f < unat n"
    by (simp add: word_less_nat_alt f1)
  have "R mod C < C" using assms(2) by simp
  then have o: "R mod C < C" "f \<le> unat n" "R mod C + f \<le> C" unfolding f_def by linarith+
  have ix: "(R + j) mod C = (if j < f then R mod C + j else j - f)" if "j < unat n" for j
    using wrap_index [OF assms(2) that assms(6)] by (simp add: f_def)
  have "ring_read (of_nat R) n s = Some (slice_of (R mod C) f (ring_data s) @ slice_of 0 (unat n - f) (ring_data s))"
    using cap o assms(4,6) by (auto simp: ring_read_def read_bytes_def Let_def assms(5) o1 f1 n1 less slice_of_def)
  moreover have "slice_of (R mod C) f (ring_data s) @ slice_of 0 (unat n - f) (ring_data s)
      = tabulate (unat n) (\<lambda>j. ring_data s ! ((R + j) mod C))"
    using o assms(4,6) by (intro eq_tabulateI) (auto simp: nth_append ix)
  ultimately show ?thesis by simp
qed

lemma ring_read_queue:
  assumes "ring_rel s (C, R, q)" "unat n \<le> length q"
  shows "ring_read (read_pos s) n s = Some (take (unat n) q)"
proof -
  note rel = assms(1) [unfolded ring_rel.simps]
  have "pos_ok C R" using rel pos_ok_mono [of C "R + length q" R] by simp
  then have "ring_read (read_pos s) n s = Some (tabulate (unat n) (\<lambda>j. ring_data s ! ((R + j) mod C)))"
    using ring_read_cells [of C R s n] rel assms(2) by simp
  moreover have "take (unat n) q = tabulate (unat n) (\<lambda>j. ring_data s ! ((R + j) mod C))"
    using rel assms(2) by (intro eq_tabulateI) auto
  ultimately show ?thesis by simp
qed

lemma ring_rel_avail:
  assumes "ring_rel s (C, R, q)"
  shows "write_pos s - read_pos s = of_nat (length q)" "unat (write_pos s - read_pos s) = length q"
    "ring_capacity s - (write_pos s - read_pos s) = of_nat (C - length q)"
    "unat (ring_capacity s - (write_pos s - read_pos s)) = C - length q"
proof -
  note rel = assms [unfolded ring_rel.simps]
  show q: "write_pos s - read_pos s = of_nat (length q)" using rel by simp
  then show "unat (write_pos s - read_pos s) = length q" using rel by (simp add: unat_pos)
  show C: "ring_capacity s - (write_pos s - read_pos s) = of_nat (C - length q)"
    using rel q by (simp add: of_nat_diff)
  show "unat (ring_capacity s - (write_pos s - read_pos s)) = C - length q"
    unfolding C unat_pos using rel by (intro mod_less) linarith
qed

lemma ring_pop_queue:
  assumes "ring_rel s (C, R, q)"
  shows "\<exists>t. ring_pop n s = Some (t, take (unat n) q)
    \<and> ring_rel t (C, R + min (unat n) (length q), drop (unat n) q)"
proof -
  note rel = assms [unfolded ring_rel.simps]
  define k where "k = min n (write_pos s - read_pos s)"
  have k: "min (unat n) (length q) = unat k" using ring_rel_avail(2) [OF assms] by (simp add: k_def unat_min)
  then have q: "take (unat n) q = take (unat k) q" "drop (unat n) q = drop (unat k) q"
    by (auto simp: min_def split: if_splits)
  have run: "ring_pop n s = (if k = 0 then Some (s, [])
      else map_option (\<lambda>d. (s\<lparr>read_pos := read_pos s + k\<rparr>, d)) (ring_read (read_pos s) k s))"
    by (simp add: ring_pop_def Let_def k_def)
  show ?thesis
  proof (cases "k = 0")
    case True
    with q k run assms show ?thesis by simp
  next
    case False
    have le: "unat k \<le> length q" using k by simp
    then have "ring_pop n s = Some (s\<lparr>read_pos := read_pos s + k\<rparr>, take (unat k) q)"
      using ring_read_queue [OF assms le] False run by simp
    moreover have "ring_rel (s\<lparr>read_pos := read_pos s + k\<rparr>) (C, R + unat k, drop (unat k) q)"
      using rel le by (auto simp: ring_rel.simps add.assoc)
    ultimately show ?thesis unfolding k q by blast
  qed
qed

lemma ring_peek_queue:
  assumes "ring_rel s (C, R, q)"
  shows "ring_peek n s = Some (take (unat n) q)"
proof -
  obtain t where "ring_pop n s = Some (t, take (unat n) q)" using ring_pop_queue [OF assms] by blast
  then show ?thesis by (auto simp: ring_pop_def ring_peek_def Let_def split: if_splits)
qed

lemma ring_push_queue:
  assumes "ring_rel s (C, R, q)" "length src < 2 ^ 64" "pos_ok C (R + length q + length src)"
  shows "\<exists>t. ring_push src s = Some (t, of_nat (min (length src) (C - length q)))
    \<and> ring_rel t (C, R, q @ take (min (length src) (C - length q)) src)"
proof -
  note rel = assms(1) [unfolded ring_rel.simps]
  define n where "n = min (of_nat (length src)) (ring_capacity s - (write_pos s - read_pos s))"
  have n: "min (length src) (C - length q) = unat n"
    using ring_rel_avail(4) [OF assms(1)] assms(2) by (simp add: n_def unat_min unat_pos)
  then have le: "unat n \<le> length src" "length q + unat n \<le> C" using rel by linarith+
  show ?thesis unfolding n
  proof (cases "n = 0")
    case True
    with assms(1) show "\<exists>t. ring_push src s = Some (t, of_nat (unat n)) \<and> ring_rel t (C, R, q @ take (unat n) src)"
      by (auto simp: ring_push_def Let_def n_def [symmetric])
  next
    case False
    have pos: "0 < unat n" using False by (simp add: unat_gt_0)
    have W: "pos_ok C (R + length q)" "0 < C" "C < 2 ^ 64" "length (ring_data s) = C" "ring_capacity s = of_nat C"
      "write_pos s = of_nat (R + length q)" "unat n \<le> C" using rel le by simp_all
    obtain d where d: "ring_write (write_pos s) n src s = Some d" "length d = C"
      "\<forall>j<unat n. d ! ((R + length q + j) mod C) = src ! j"
      "\<forall>c<C. (\<forall>j<unat n. c \<noteq> (R + length q + j) mod C) \<longrightarrow> d ! c = ring_data s ! c"
      using ring_write_cells [OF W(1-5) pos W(7) le(1)] W(6) by auto
    have run: "ring_push src s = Some (s\<lparr>ring_data := d, write_pos := write_pos s + n\<rparr>, n)"
      using d(1) False by (simp add: ring_push_def Let_def n_def [symmetric])
    have old: "d ! ((R + i) mod C) = q ! i" if "i < length q" for i
    proof -
      have "(R + i) mod C \<noteq> (R + length q + j) mod C" if "j < unat n" for j
        using ring_cells [of "R + i" "R + length q + j" C] \<open>i < length q\<close> that le by simp
      then show ?thesis using d(4) that rel by simp
    qed
    have new: "d ! ((R + i) mod C) = src ! (i - length q)" if "length q \<le> i" "i < length q + unat n" for i
      using d(3) that by (auto dest!: spec [of _ "i - length q"])
    have "pos_ok C (R + (length q + unat n))" using pos_ok_mono [OF assms(3)] le by simp
    then have "ring_rel (s\<lparr>ring_data := d, write_pos := write_pos s + n\<rparr>) (C, R, q @ take (unat n) src)"
      using rel d(2) le old new by (auto simp: ring_rel.simps nth_append add.assoc)
    with run show "\<exists>t. ring_push src s = Some (t, of_nat (unat n)) \<and> ring_rel t (C, R, q @ take (unat n) src)"
      by auto
  qed
qed

interpretation ring: related ring_op_step queue_spec ring_rel queue_ok
proof
  fix s a e
  assume rel: "ring_rel s a" and ok: "queue_ok a e"
  obtain C R q where a: "a = (C, R, q)" by (cases a)
  show "\<exists>t. ring_op_step s e = Some (t, snd (queue_spec a e)) \<and> ring_rel t (fst (queue_spec a e))"
  proof (cases e)
    case (Push src)
    with ring_push_queue [of s C R q src] rel ok a show ?thesis by (auto simp: Let_def)
  next
    case (Pop n)
    with ring_pop_queue [of s C R q n] rel a show ?thesis by auto
  next
    case (Peek n)
    with ring_peek_queue [of s C R q n] rel a show ?thesis by auto
  qed (use rel a ring_rel_avail [of s C R q] in \<open>simp_all add: ring_available_def free_space_def\<close>)
qed

text \<open>C19. Seen from one thread, any sequence of \<open>push\<close>, \<open>pop\<close>, \<open>peek\<close>, \<open>available\<close> and
  \<open>free_space\<close> after \<open>init\<close> answers like a bounded queue of bytes: a push takes as much as fits, a pop
  the oldest bytes, and no access leaves the data area, however often the positions go round the ring
  (or, when the capacity divides \<open>2 ^ 64\<close>, round the 64-bit words).\<close>

theorem ring_refines:
  assumes "d \<noteq> []" "length d < 2 ^ 64" "ring_data s = d"
    and "spec_ok queue_spec queue_ok (length d, 0, []) es"
  shows "\<exists>t. run_out ring_op_step (ring_init (of_nat (length d)) s) es
    = Some (t, snd (spec_out queue_spec (length d, 0, []) es))"
proof -
  have "ring_rel (ring_init (of_nat (length d)) s) (length d, 0, [])"
    using assms(1-3) by (auto simp: ring_rel.simps ring_init_def pos_ok_def)
  then show ?thesis using ring.run_rel [OF _ assms(4)] by blast
qed

definition three_bytes :: ring where
  "three_bytes = \<lparr>write_pos = 5, read_pos = 9, ring_capacity = 0, ring_flags = 4, ring_data = [0, 0, 0]\<rparr>"

lemma ring_refines_witness:
  "\<exists>t. run_out ring_op_step (ring_init 3 three_bytes) [Push [1, 2], Pop 1, Push [3, 4, 5], Peek 9, Space]
    = Some (t, [Count 2, Got [1], Count 2, Got [2, 3, 4], Count 0])"
  using ring_refines [of "[0, 0, 0]" three_bytes "[Push [1, 2], Pop 1, Push [3, 4, 5], Peek 9, Space]"]
  by (simp add: three_bytes_def pos_ok_def Let_def)

definition two_bytes :: ring where
  "two_bytes = \<lparr>write_pos = 0, read_pos = 0, ring_capacity = 2, ring_flags = 0, ring_data = [0, 0]\<rparr>"

text \<open>One byte sent; both threads are in the middle of a transfer.\<close>

definition both_busy :: ring_system where
  "both_busy = \<lparr>the_ring = two_bytes\<lparr>write_pos := 1, ring_data := [7, 0]\<rparr>,
    producer = P_copy [8] 1 1 0, consumer = C_copy 0 1 [], sent = [7], received = []\<rparr>"

lemma both_busy_reachable: "ring_reachable [0, 0] both_busy"
proof -
  let ?s = "\<lambda>g p c xs. \<lparr>the_ring = g, producer = p, consumer = c, sent = xs, received = []\<rparr>"
  let ?g = "two_bytes\<lparr>ring_data := [7, 0]\<rparr>"
  have "ring_reachable [0, 0] (?s two_bytes P_idle C_idle [])"
    using ring_reachable.start [of "[0, 0]" 0 0 0 0] by (simp add: ring_init_def two_bytes_def)
  then have "ring_reachable [0, 0] (?s two_bytes (P_loaded [7] 0) C_idle [])"
    by (rule ring_reachable.step) (use push_begin [of "?s two_bytes P_idle C_idle []" "[7]"] in \<open>simp add: two_bytes_def\<close>)
  then have "ring_reachable [0, 0] (?s two_bytes (P_copy [7] 0 1 0) C_idle [])"
    by (rule ring_reachable.step)
      (use push_load [of "?s two_bytes (P_loaded [7] 0) C_idle []" "[7]" 0 1] in \<open>simp add: two_bytes_def\<close>)
  then have "ring_reachable [0, 0] (?s ?g (P_copy [7] 0 1 1) C_idle [])"
    by (rule ring_reachable.step)
      (use push_byte [of "?s two_bytes (P_copy [7] 0 1 0) C_idle []" "[7]" 0 1 0] in
        \<open>simp add: two_bytes_def ring_index_def\<close>)
  then have "ring_reachable [0, 0] (?s (?g\<lparr>write_pos := 1\<rparr>) P_idle C_idle [7])"
    by (rule ring_reachable.step)
      (use push_end [of "?s ?g (P_copy [7] 0 1 1) C_idle []" "[7]" 0 1] in \<open>simp add: two_bytes_def\<close>)
  then have "ring_reachable [0, 0] (?s (?g\<lparr>write_pos := 1\<rparr>) (P_loaded [8] 1) C_idle [7])"
    by (rule ring_reachable.step)
      (use push_begin [of "?s (?g\<lparr>write_pos := 1\<rparr>) P_idle C_idle [7]" "[8]"] in \<open>simp add: two_bytes_def\<close>)
  then have "ring_reachable [0, 0] (?s (?g\<lparr>write_pos := 1\<rparr>) (P_loaded [8] 1) (C_loaded 1 0) [7])"
    by (rule ring_reachable.step)
      (use pop_begin [of "?s (?g\<lparr>write_pos := 1\<rparr>) (P_loaded [8] 1) C_idle [7]" 1] in \<open>simp add: two_bytes_def\<close>)
  then have "ring_reachable [0, 0] (?s (?g\<lparr>write_pos := 1\<rparr>) (P_loaded [8] 1) (C_copy 0 1 []) [7])"
    by (rule ring_reachable.step)
      (use pop_load [of "?s (?g\<lparr>write_pos := 1\<rparr>) (P_loaded [8] 1) (C_loaded 1 0) [7]" 1 0 1] in
        \<open>simp add: two_bytes_def min_def\<close>)
  then have "ring_reachable [0, 0] (?s (?g\<lparr>write_pos := 1\<rparr>) (P_copy [8] 1 1 0) (C_copy 0 1 []) [7])"
    by (rule ring_reachable.step)
      (use push_load [of "?s (?g\<lparr>write_pos := 1\<rparr>) (P_loaded [8] 1) (C_copy 0 1 []) [7]" "[8]" 1 1] in
        \<open>simp add: two_bytes_def\<close>)
  then show ?thesis by (simp add: both_busy_def two_bytes_def)
qed

lemma ring_fifo_witness:
  "\<exists>rest. [7] = ([] :: u8 list) @ rest \<and> length rest \<le> 2 \<and> (\<forall>i<length rest. [7, 0] ! (i mod 2) = rest ! i)"
  using ring_fifo [OF both_busy_reachable] by (simp add: both_busy_def two_bytes_def)

lemma ring_no_race_witness: "ring_index 2 1 1 0 \<noteq> ring_index 2 0 1 0"
  using ring_no_race [OF both_busy_reachable] by (simp add: both_busy_def two_bytes_def)

lemma ring_wait_free_witness:
  "\<exists>t k. (ring_step ^^ k) both_busy t \<and> k \<le> 2 \<and> producer t = P_idle \<and> consumer t = C_copy 0 1 []"
  using ring_wait_free [OF both_busy_reachable] by (simp add: both_busy_def numeral_2_eq_2)

end
