(* ===== verification/Errno.thy ===== *)
theory Errno
  imports Main
begin

text \<open>The error numbers of the kernel modules (\<open>linux/errno.h\<close>); a function returns them negated.\<close>

abbreviation ENOENT :: int where "ENOENT \<equiv> 2"
abbreviation EAGAIN :: int where "EAGAIN \<equiv> 11"
abbreviation ENOMEM :: int where "ENOMEM \<equiv> 12"
abbreviation EFAULT :: int where "EFAULT \<equiv> 14"
abbreviation EINVAL :: int where "EINVAL \<equiv> 22"
abbreviation ENOSPC :: int where "ENOSPC \<equiv> 28"

end
