(* ===== verification/Entropy_Health.thy ===== *)
theory Entropy_Health
  imports Prelude Errno "HOL-Library.Sublist"
begin

text \<open>
  The online health tests of the kernel's entropy source (\<open>kernel/entropy/entropy_health.c\<close>): the
  repetition count test and the adaptive proportion test of NIST SP 800-90B, their state with its 32-bit
  counters, and the test of a block of samples.  A missing detector (\<open>g_health == NULL\<close>) is \<open>None\<close>; the
  spin lock makes a block one operation.  The specification keeps the samples themselves: the history
  and the samples of the current window.
\<close>

definition REP_COUNT_CUTOFF :: u32 where "REP_COUNT_CUTOFF = 6"
definition ADAPT_WINDOW_SIZE :: u32 where "ADAPT_WINDOW_SIZE = 1024"
definition ADAPT_CUTOFF :: u32 where "ADAPT_CUTOFF = 100"
definition EIO :: int where "EIO = 5"

subsection \<open>The tests\<close>

record health_state =
  rep_last_sample :: u8
  rep_count :: u32
  apt_base :: u8
  apt_count :: u32
  apt_window_pos :: u32
  total_samples :: u64
  failed_samples :: u64
  rep_failures :: u64
  prop_failures :: u64

definition repetition_count_test :: "u8 \<Rightarrow> health_state \<Rightarrow> health_state \<times> int" where
  "repetition_count_test sample hs =
     (if sample = rep_last_sample hs
      then let hs = hs\<lparr>rep_count := rep_count hs + 1\<rparr> in
        if rep_count hs \<ge> REP_COUNT_CUTOFF
        then (hs\<lparr>rep_failures := rep_failures hs + 1\<rparr>, -1)
        else (hs, 0)
      else (hs\<lparr>rep_last_sample := sample, rep_count := 1\<rparr>, 0))"

definition adaptive_proportion_test :: "u8 \<Rightarrow> health_state \<Rightarrow> health_state \<times> int" where
  "adaptive_proportion_test sample hs =
     (if apt_window_pos hs = 0
      then (hs\<lparr>apt_base := sample, apt_count := 1, apt_window_pos := 1\<rparr>, 0)
      else
        let hs = hs\<lparr>apt_window_pos := apt_window_pos hs + 1\<rparr>;
            hs = (if sample = apt_base hs then hs\<lparr>apt_count := apt_count hs + 1\<rparr> else hs) in
        if apt_count hs \<ge> ADAPT_CUTOFF
        then (hs\<lparr>prop_failures := prop_failures hs + 1, apt_window_pos := 0\<rparr>, -1)
        else if apt_window_pos hs \<ge> ADAPT_WINDOW_SIZE
        then (hs\<lparr>apt_window_pos := 0\<rparr>, 0)
        else (hs, 0))"

text \<open>\<open>kzalloc\<close> may fail.\<close>

definition fresh_health :: health_state where
  "fresh_health = \<lparr>rep_last_sample = 0, rep_count = 0, apt_base = 0, apt_count = 0, apt_window_pos = 0,
     total_samples = 0, failed_samples = 0, rep_failures = 0, prop_failures = 0\<rparr>"

definition sl_health_init :: "bool \<Rightarrow> health_state option \<times> int" where
  "sl_health_init allocated = (if allocated then (Some fresh_health, 0) else (None, - ENOMEM))"

definition sl_health_cleanup :: "health_state option \<Rightarrow> health_state option" where
  "sl_health_cleanup g = None"

text \<open>The body of the loop: one sample through both tests.\<close>

definition health_sample :: "u8 \<Rightarrow> health_state \<Rightarrow> health_state \<times> int \<times> int" where
  "health_sample sample hs =
     (let hs = hs\<lparr>total_samples := total_samples hs + 1\<rparr>;
          (hs, r) = repetition_count_test sample hs;
          hs = (if r < 0 then hs\<lparr>failed_samples := failed_samples hs + 1\<rparr> else hs);
          (hs, a) = adaptive_proportion_test sample hs;
          hs = (if a < 0 then hs\<lparr>failed_samples := failed_samples hs + 1\<rparr> else hs)
      in (hs, r, a))"

fun health_loop :: "u8 list \<Rightarrow> int \<Rightarrow> health_state \<Rightarrow> health_state \<times> int" where
  "health_loop [] ret hs = (hs, ret)"
| "health_loop (sample # xs) ret hs =
     (let (hs, r, a) = health_sample sample hs
      in health_loop xs (if r < 0 \<or> a < 0 then - EIO else ret) hs)"

definition sl_health_test :: "u8 list \<Rightarrow> health_state option \<Rightarrow> health_state option \<times> int" where
  "sl_health_test xs g =
     (case g of None \<Rightarrow> (None, 0) | Some hs \<Rightarrow> map_prod Some id (health_loop xs 0 hs))"

definition sl_health_get_stats :: "health_state option \<Rightarrow> u64 \<times> u64 \<times> u64 \<times> u64" where
  "sl_health_get_stats g =
     (case g of None \<Rightarrow> (0, 0, 0, 0)
      | Some hs \<Rightarrow> (total_samples hs, failed_samples hs, rep_failures hs, prop_failures hs))"

subsection \<open>Specification\<close>

text \<open>
  The repetition test fails on a history that ends in six equal samples.  The proportion test keeps the
  samples of the window: it fails, and starts a new window, when the first one occurs a hundredth time,
  and starts a new window after 1024 samples.
\<close>

definition repeats :: "u8 list \<Rightarrow> bool" where
  "repeats h \<longleftrightarrow> suffix (replicate 6 (last h)) h"

definition window_step :: "u8 list \<Rightarrow> u8 \<Rightarrow> u8 list \<times> bool" where
  "window_step ws x =
     (if ws = [] then ([x], False)
      else if 100 \<le> count_list (ws @ [x]) (hd ws) then ([], True)
      else if 1024 \<le> length (ws @ [x]) then ([], False)
      else (ws @ [x], False))"

fun health_spec :: "u8 list \<times> u8 list \<Rightarrow> u8 \<Rightarrow> (u8 list \<times> u8 list) \<times> bool \<times> bool" where
  "health_spec (h, ws) x = (let (ws', a) = window_step ws x in ((h @ [x], ws'), repeats (h @ [x]), a))"

fun health_ok :: "u8 list \<times> u8 list \<Rightarrow> u8 \<Rightarrow> bool" where
  "health_ok (h, ws) x \<longleftrightarrow> length h < 2 ^ 32 - 1"

text \<open>The length of the run of equal samples a history ends in.\<close>

definition run_length :: "u8 list \<Rightarrow> nat" where
  "run_length h = length (takeWhile (\<lambda>x. x = last h) (rev h))"

fun health_rel :: "health_state \<Rightarrow> u8 list \<times> u8 list \<Rightarrow> bool" where
  "health_rel hs (h, ws) \<longleftrightarrow> length h < 2 ^ 32
     \<and> rep_last_sample hs = (if h = [] then 0 else last h) \<and> rep_count hs = of_nat (run_length h)
     \<and> apt_window_pos hs = of_nat (length ws) \<and> length ws < 1024
     \<and> (ws \<noteq> [] \<longrightarrow> apt_base hs = hd ws \<and> apt_count hs = of_nat (count_list ws (hd ws)) \<and> count_list ws (hd ws) < 100)"

definition health_step :: "health_state \<Rightarrow> u8 \<Rightarrow> (health_state \<times> bool \<times> bool) option" where
  "health_step hs x = (let (hs', r, a) = health_sample x hs in Some (hs', r < 0, a < 0))"

subsection \<open>The tests meet the specification\<close>

lemma run_length_Nil [simp]: "run_length [] = 0"
  by (simp add: run_length_def)

lemma run_length_snoc: "run_length (h @ [x]) = (if h \<noteq> [] \<and> x = last h then run_length h + 1 else 1)"
  by (cases h rule: rev_cases) (auto simp: run_length_def)

lemma run_length_le: "run_length h \<le> length h"
  unfolding run_length_def by (metis length_rev length_takeWhile_le)

lemma suffix_replicate_iff: "suffix (replicate n x) h \<longleftrightarrow> n \<le> length (takeWhile (\<lambda>y. y = x) (rev h))"
proof (induction n arbitrary: h)
  case (Suc n)
  show ?case
  proof (cases h rule: rev_cases)
    case (snoc ys y)
    have "replicate (Suc n) x = replicate n x @ [x]" by (simp add: replicate_append_same)
    then show ?thesis using Suc.IH [of ys] snoc by auto
  qed simp
qed simp

lemma repeats_iff: "repeats h \<longleftrightarrow> 6 \<le> run_length h"
  by (simp add: repeats_def run_length_def suffix_replicate_iff)

lemma word_at_least: "n < 2 ^ 32 \<Longrightarrow> (of_nat n :: u32) \<ge> numeral w \<longleftrightarrow> unat (numeral w :: u32) \<le> n"
  by (simp add: word_le_nat_alt unat_of_nat)

lemma rep_test:
  assumes "rep_last_sample hs = (if h = [] then 0 else last h)" "rep_count hs = of_nat (run_length h)"
    and "length h < 2 ^ 32 - 1"
  obtains f where "repetition_count_test x hs
      = (hs\<lparr>rep_last_sample := x, rep_count := of_nat (run_length (h @ [x])), rep_failures := f\<rparr>,
         if repeats (h @ [x]) then -1 else 0)"
proof (cases "x = rep_last_sample hs")
  case True
  have run: "run_length (h @ [x]) = run_length h + 1"
    using True assms(1) by (auto simp: run_length_snoc)
  have "run_length h + 1 < 2 ^ 32" using run_length_le [of h] assms(3) by simp
  then have "(of_nat (run_length h + 1) :: u32) \<ge> 6 \<longleftrightarrow> 6 \<le> run_length h + 1"
    using word_at_least [of "run_length h + 1"] by simp
  then show ?thesis
    using True assms(2) run that [of "rep_failures hs"] that [of "rep_failures hs + 1"]
    by (auto simp: repetition_count_test_def REP_COUNT_CUTOFF_def repeats_iff Let_def add.commute split: if_splits)
next
  case False
  then have "run_length (h @ [x]) = 1" using assms(1) by (auto simp: run_length_snoc split: if_splits)
  with False show ?thesis
    using that [of "rep_failures hs"] by (simp add: repetition_count_test_def repeats_iff)
qed

lemma count_le_length: "count_list xs x \<le> length xs"
  by (induction xs) auto

lemma apt_test:
  assumes "apt_window_pos hs = of_nat (length ws)" "length ws < 1024"
    and "ws \<noteq> [] \<Longrightarrow> apt_base hs = hd ws \<and> apt_count hs = of_nat (count_list ws (hd ws)) \<and> count_list ws (hd ws) < 100"
    and "window_step ws x = (ws', failed)"
  obtains b c f where "adaptive_proportion_test x hs = (hs\<lparr>apt_base := b, apt_count := c,
      apt_window_pos := of_nat (length ws'), prop_failures := f\<rparr>, if failed then -1 else 0)"
    "length ws' < 1024"
    "ws' \<noteq> [] \<Longrightarrow> b = hd ws' \<and> c = of_nat (count_list ws' (hd ws')) \<and> count_list ws' (hd ws') < 100"
proof (cases "ws = []")
  case True
  with assms that [of "prop_failures hs" 1 x] show ?thesis
    by (auto simp: adaptive_proportion_test_def window_step_def)
next
  case False
  define n where "n = count_list (ws @ [x]) (hd ws)"
  have pos: "apt_window_pos hs \<noteq> 0" using False assms(1,2)
    by (auto simp: word_of_nat_eq_0_iff dest: dvd_imp_le)
  have n: "n = count_list ws (hd ws) + (if x = hd ws then 1 else 0)" "n \<le> 1024"
    using count_le_length [of ws "hd ws"] assms(2) by (auto simp: n_def)
  then have c: "(if x = apt_base hs then apt_count hs + 1 else apt_count hs) = of_nat n"
    using assms(3) [OF False] by simp
  have cut: "(of_nat n :: u32) \<ge> 100 \<longleftrightarrow> 100 \<le> n" using n(2) word_at_least [of n] by simp
  have win: "(of_nat (length ws + 1) :: u32) \<ge> 1024 \<longleftrightarrow> 1024 \<le> length ws + 1"
    using assms(2) word_at_least [of "length ws + 1"] by simp
  have step: "adaptive_proportion_test x hs =
      (let hs = hs\<lparr>apt_window_pos := of_nat (length ws + 1), apt_count := of_nat n\<rparr> in
       if 100 \<le> n then (hs\<lparr>prop_failures := prop_failures hs + 1, apt_window_pos := 0\<rparr>, -1)
       else if 1024 \<le> length ws + 1 then (hs\<lparr>apt_window_pos := 0\<rparr>, 0) else (hs, 0))"
    using pos c cut win assms(1)
    by (auto simp: adaptive_proportion_test_def Let_def ADAPT_CUTOFF_def ADAPT_WINDOW_SIZE_def add.commute split: if_splits)
  have spec: "(ws', failed) = (if 100 \<le> n then ([], True) else if 1024 \<le> length ws + 1 then ([], False) else (ws @ [x], False))"
    using assms(4) [symmetric] False unfolding window_step_def n_def [symmetric] by simp
  have b: "apt_base hs = hd (ws @ [x])" "count_list (ws @ [x]) (hd (ws @ [x])) = n"
    using assms(3) [OF False] False by (simp_all add: n_def)
  consider (cut) "100 \<le> n" | (full) "n < 100" "1024 \<le> length ws + 1" | (go) "n < 100" "length ws + 1 < 1024"
    by linarith
  then show ?thesis
  proof cases
    case cut
    with step spec show ?thesis by (intro that [of "prop_failures hs + 1" "of_nat n" "apt_base hs"]) simp_all
  next
    case full
    with step spec show ?thesis by (intro that [of "prop_failures hs" "of_nat n" "apt_base hs"]) simp_all
  next
    case go
    then have "ws' = ws @ [x]" "\<not> failed" using spec by simp_all
    moreover have "adaptive_proportion_test x hs
        = (hs\<lparr>apt_window_pos := of_nat (length ws + 1), apt_count := of_nat n\<rparr>, 0)"
      using step go by simp
    ultimately show ?thesis
      using b go by (intro that [of "prop_failures hs" "of_nat n" "apt_base hs"]) (simp_all del: count_list_append)
  qed
qed

interpretation health: related health_step health_spec health_rel health_ok
proof
  fix hs a x
  assume rel: "health_rel hs a" and ok: "health_ok a x"
  obtain h ws where a: "a = (h, ws)" by (cases a)
  obtain ws' failed where w: "window_step ws x = (ws', failed)" by (cases "window_step ws x")
  let ?s = "hs\<lparr>total_samples := total_samples hs + 1\<rparr>"
  have "rep_last_sample ?s = (if h = [] then 0 else last h)" "rep_count ?s = of_nat (run_length h)"
    "length h < 2 ^ 32 - 1" using rel ok a by auto
  then obtain f where r: "repetition_count_test x ?s
      = (?s\<lparr>rep_last_sample := x, rep_count := of_nat (run_length (h @ [x])), rep_failures := f\<rparr>,
         if repeats (h @ [x]) then -1 else 0)" by (rule rep_test)
  define t where "t = ?s\<lparr>rep_last_sample := x, rep_count := of_nat (run_length (h @ [x])), rep_failures := f,
    failed_samples := failed_samples hs + (if repeats (h @ [x]) then 1 else 0)\<rparr>"
  have "apt_window_pos t = of_nat (length ws)" "length ws < 1024"
    "ws \<noteq> [] \<Longrightarrow> apt_base t = hd ws \<and> apt_count t = of_nat (count_list ws (hd ws)) \<and> count_list ws (hd ws) < 100"
    using rel a by (auto simp: t_def)
  from apt_test [OF this w] obtain b c g where p: "adaptive_proportion_test x t = (t\<lparr>apt_base := b, apt_count := c,
      apt_window_pos := of_nat (length ws'), prop_failures := g\<rparr>, if failed then -1 else 0)" "length ws' < 1024"
    "ws' \<noteq> [] \<Longrightarrow> b = hd ws' \<and> c = of_nat (count_list ws' (hd ws')) \<and> count_list ws' (hd ws') < 100" by blast
  have s: "health_sample x hs = (t\<lparr>apt_base := b, apt_count := c, apt_window_pos := of_nat (length ws'),
      prop_failures := g, failed_samples := failed_samples t + (if failed then 1 else 0)\<rparr>,
      if repeats (h @ [x]) then -1 else 0, if failed then -1 else 0)"
    using r p(1) by (cases "repeats (h @ [x])"; cases failed) (simp_all add: health_sample_def Let_def t_def)
  show "\<exists>t. health_step hs x = Some (t, snd (health_spec a x)) \<and> health_rel t (fst (health_spec a x))"
    using p(2,3) ok unfolding a by (simp add: health_step_def s w t_def)
qed

lemma spec_out_append:
  "spec_out spec a (es @ fs) = (let (b, rs) = spec_out spec a es; (c, ss) = spec_out spec b fs in (c, rs @ ss))"
  by (induction es arbitrary: a) (auto simp: split_beta Let_def)

subsection \<open>A block of samples\<close>

definition passed :: "(bool \<times> bool) list \<Rightarrow> bool" where
  "passed rs \<longleftrightarrow> (\<forall>(r, a) \<in> set rs. \<not> r \<and> \<not> a)"

lemma passed_simps [simp]: "passed []" "passed (p # rs) \<longleftrightarrow> \<not> fst p \<and> \<not> snd p \<and> passed rs"
    "passed (rs @ ss) \<longleftrightarrow> passed rs \<and> passed ss"
  by (auto simp: passed_def)

lemma health_spec_ok: "length h + length xs < 2 ^ 32 \<Longrightarrow> spec_ok health_spec health_ok (h, ws) xs"
  by (induction xs arbitrary: h ws) (auto simp: split_beta)

lemma health_loop_run:
  assumes "run_out health_step hs xs = Some (t, rs)"
  shows "health_loop xs ret hs = (t, if passed rs then ret else - EIO)"
  using assms
proof (induction xs arbitrary: hs rs ret)
  case (Cons x xs)
  obtain u r a where u: "health_sample x hs = (u, r, a)" by (metis prod.exhaust)
  then have "health_step hs x = Some (u, r < 0, a < 0)" by (simp add: health_step_def)
  with Cons.prems obtain ss where ss: "run_out health_step u xs = Some (t, ss)" "rs = (r < 0, a < 0) # ss"
    by (cases "run_out health_step u xs") auto
  show ?case using Cons.IH [OF ss(1)] u ss(2) by auto
qed simp

lemma health_test_exact:
  assumes "health_rel hs (h, ws)" "length h + length xs < 2 ^ 32"
  shows "\<exists>t. sl_health_test xs (Some hs)
      = (Some t, if passed (snd (spec_out health_spec (h, ws) xs)) then 0 else - EIO)
    \<and> health_rel t (fst (spec_out health_spec (h, ws) xs))"
  using health.run_rel [OF assms(1) health_spec_ok [OF assms(2)]] health_loop_run
  by (auto simp: sl_health_test_def)

lemma repeats_snoc: "repeats (xs @ [x]) \<longleftrightarrow> (\<exists>y. suffix (replicate 6 y) (xs @ [x]))"
  by (auto simp: repeats_def suffix_def numeral_eq_Suc)

lemma first_window:
  assumes "xs \<noteq> []" "length xs \<le> 1024"
  shows "(passed (snd (spec_out health_spec ([], []) xs))
      \<longleftrightarrow> \<not> (\<exists>x. sublist (replicate 6 x) xs) \<and> count_list xs (hd xs) < 100)
    \<and> (passed (snd (spec_out health_spec ([], []) xs)) \<longrightarrow> length xs < 1024
      \<longrightarrow> fst (spec_out health_spec ([], []) xs) = (xs, xs))
    \<and> fst (fst (spec_out health_spec ([], []) xs)) = xs"
  using assms
proof (induction xs rule: rev_induct)
  case (snoc x xs)
  show ?case
  proof (cases "xs = []")
    case True
    have "\<not> sublist (replicate 6 y) [x]" for y using sublist_length_le [of "replicate 6 y" "[x]"] by auto
    with True show ?thesis by (auto simp: window_step_def repeats_def suffix_def dest: arg_cong [of _ _ length])
  next
    case False
    obtain h ws rs where r: "spec_out health_spec ([], []) xs = ((h, ws), rs)" by (metis prod.exhaust)
    have IH: "passed rs \<longleftrightarrow> \<not> (\<exists>x. sublist (replicate 6 x) xs) \<and> count_list xs (hd xs) < 100"
      "passed rs \<Longrightarrow> h = xs \<and> ws = xs" "h = xs"
      using snoc.IH [OF False] snoc.prems(2) r by auto
    have win: "window_step xs x = (if 100 \<le> count_list (xs @ [x]) (hd xs) then ([], True)
        else if length xs < 1023 then (xs @ [x], False) else ([], False))"
      using False by (simp add: window_step_def)
    have seen: "(\<exists>y. sublist (replicate 6 y) (xs @ [x])) \<longleftrightarrow> (\<exists>y. sublist (replicate 6 y) xs) \<or> repeats (xs @ [x])"
      by (auto simp: sublist_snoc repeats_snoc)
    show ?thesis
    proof (cases "passed rs")
      case True
      then show ?thesis
        using IH seen False r win by (auto simp: spec_out_append simp del: count_list_append)
    next
      case no: False
      then have "\<not> (\<not> (\<exists>y. sublist (replicate 6 y) (xs @ [x])) \<and> count_list (xs @ [x]) (hd (xs @ [x])) < 100)"
        using IH(1) seen False by auto
      with no IH(3) r show ?thesis by (auto simp: spec_out_append split_beta)
    qed
  qed
qed simp

text \<open>C27. A fresh detector accepts a block of at most one window (1024 samples) exactly when no value
  occurs six times in a row and the first value occurs fewer than a hundred times; otherwise the block is
  rejected with \<open>-EIO\<close>.\<close>

theorem health_accepts:
  assumes "xs \<noteq> []" "length xs \<le> 1024"
  shows "snd (sl_health_test xs (fst (sl_health_init True)))
    = (if (\<exists>x. sublist (replicate 6 x) xs) \<or> 100 \<le> count_list xs (hd xs) then - EIO else 0)"
proof -
  have "health_rel fresh_health ([], [])" by (simp add: fresh_health_def)
  from health_test_exact [OF this, of xs] first_window [OF assms] assms(2) show ?thesis
    by (auto simp: sl_health_init_def)
qed

lemma health_accepts_witness: "snd (sl_health_test [1, 2, 2, 2, 2, 2, 2, 3] (fst (sl_health_init True))) = - 5"
proof -
  have "sublist (replicate 6 (2 :: u8)) [1, 2, 2, 2, 2, 2, 2, 3]"
    using sublist_appendI [of "replicate 6 (2 :: u8)" "[1]" "[3]"] by (simp add: numeral_eq_Suc)
  then show ?thesis using health_accepts [of "[1, 2, 2, 2, 2, 2, 2, 3]"] by (auto simp: EIO_def)
qed

end
