(* ===== verification/Entropy_Source.thy ===== *)
theory Entropy_Source
  imports Entropy_Health Memory
begin

text \<open>
  The kernel's hardware entropy source: the \<open>RDRAND\<close>/\<open>RDSEED\<close> wrappers (\<open>kernel/entropy/entropy_rdrand.c\<close>),
  the timing-jitter collector (\<open>entropy_jitter.c\<close>) and the mixing read (\<open>entropy_main.c\<close>).  The processor is
  a parameter: \<open>ins n\<close> is what the \<open>n\<close>-th execution of the instruction answers (\<open>None\<close> with the carry flag
  clear), \<open>tsc n\<close> the \<open>n\<close>-th value of the time-stamp counter.  Memory outside a buffer is \<open>None\<close>.
\<close>

definition ENODEV :: int where "ENODEV = 19"

text \<open>A cast of a \<open>size_t\<close> to \<open>int\<close>.\<close>

definition int_cast :: "nat \<Rightarrow> int" where
  "int_cast n = sint (of_nat n :: u32)"

subsection \<open>RDRAND and RDSEED\<close>

definition RDRAND_RETRY_COUNT :: nat where "RDRAND_RETRY_COUNT = 10"
definition RDSEED_RETRY_COUNT :: nat where "RDSEED_RETRY_COUNT = 32"

definition sl_rdrand_available :: "u32 \<Rightarrow> bool" where
  "sl_rdrand_available ecx \<longleftrightarrow> ecx AND push_bit 30 1 \<noteq> 0"

definition sl_rdseed_available :: "u32 \<Rightarrow> bool" where
  "sl_rdseed_available ebx \<longleftrightarrow> ebx AND push_bit 18 1 \<noteq> 0"

fun retry :: "nat \<Rightarrow> (nat \<Rightarrow> u64 option) \<Rightarrow> nat \<Rightarrow> u64 option \<times> nat" where
  "retry 0 ins t = (None, t)"
| "retry (Suc n) ins t = (case ins t of Some v \<Rightarrow> (Some v, Suc t) | None \<Rightarrow> retry n ins (Suc t))"

definition rdrand64_retry :: "(nat \<Rightarrow> u64 option) \<Rightarrow> nat \<Rightarrow> u64 option \<times> nat" where
  "rdrand64_retry ins t = retry RDRAND_RETRY_COUNT ins t"

definition rdseed64_retry :: "(nat \<Rightarrow> u64 option) \<Rightarrow> nat \<Rightarrow> u64 option \<times> nat" where
  "rdseed64_retry ins t = retry RDSEED_RETRY_COUNT ins t"

function read_words :: "(nat \<Rightarrow> u64 option \<times> nat) \<Rightarrow> nat \<Rightarrow> nat \<Rightarrow> u8 list \<Rightarrow> nat \<Rightarrow> (u8 list \<times> nat \<times> nat) option" where
  "read_words fetch want generated out t =
     (if generated < want
      then case fetch t of
          (None, t) \<Rightarrow> Some (out, generated, t)
        | (Some v, t) \<Rightarrow>
            if want - generated \<ge> 8
            then write_bytes generated (le_bytes 8 (unat v)) out
              \<bind> (\<lambda>out. read_words fetch want (generated + 8) out t)
            else let remain = want - generated in
              write_bytes generated (take remain (le_bytes 8 (unat v))) out
              \<bind> (\<lambda>out. read_words fetch want (generated + remain) out t)
      else Some (out, generated, t))"
  by pat_completeness auto
termination by (relation "measure (\<lambda>(fetch, want, generated, out, t). want - generated)") auto

declare read_words.simps [simp del]

definition sl_rdrand_read :: "(nat \<Rightarrow> u64 option) \<Rightarrow> nat \<Rightarrow> u8 list \<Rightarrow> nat \<Rightarrow> (u8 list \<times> int \<times> nat) option" where
  "sl_rdrand_read ins want out t =
     map_option (\<lambda>(out, generated, t). (out, int_cast generated, t)) (read_words (rdrand64_retry ins) want 0 out t)"

definition sl_rdseed_read :: "(nat \<Rightarrow> u64 option) \<Rightarrow> nat \<Rightarrow> u8 list \<Rightarrow> nat \<Rightarrow> (u8 list \<times> int \<times> nat) option" where
  "sl_rdseed_read ins want out t =
     map_option (\<lambda>(out, generated, t). (out, int_cast generated, t)) (read_words (rdseed64_retry ins) want 0 out t)"

subsection \<open>Timing jitter\<close>

definition JITTER_LOOPS :: nat where "JITTER_LOOPS = 64"
definition JITTER_MEM_BLOCKS :: u64 where "JITTER_MEM_BLOCKS = 512"
definition JITTER_MEM_BLOCK_SIZE :: u64 where "JITTER_MEM_BLOCK_SIZE = 32"
definition JITTER_FOLD_LOOPS :: nat where "JITTER_FOLD_LOOPS = 128"

record jitter_state =
  prev_time :: u64
  last_delta :: u64
  last_delta2 :: u64
  entropy_pool :: u64
  jitter_mem :: "u8 list"
  mem_size :: u64
  stuck_count :: u32

definition get64 :: "u8 list \<Rightarrow> nat \<Rightarrow> u64 option" where
  "get64 mem p = map_option of_nat (read_field p 8 mem)"

definition put64 :: "nat \<Rightarrow> u64 \<Rightarrow> u8 list \<Rightarrow> u8 list option" where
  "put64 p v mem = write_bytes p (le_bytes 8 (unat v)) mem"

definition rotl :: "nat \<Rightarrow> u64 \<Rightarrow> u64" where
  "rotl n x = push_bit n x OR drop_bit (64 - n) x"

definition memaccess_block :: "u64 \<Rightarrow> nat \<Rightarrow> u8 list \<Rightarrow> u8 list option" where
  "memaccess_block wrap i mem =
     (if wrap = 0 then None
      else do {
        let p = unat ((of_nat i * JITTER_MEM_BLOCK_SIZE * 7) mod wrap);
        p0 \<leftarrow> get64 mem p;
        p1 \<leftarrow> get64 mem (p + 8);
        p2 \<leftarrow> get64 mem (p + 16);
        p3 \<leftarrow> get64 mem (p + 24);
        mem \<leftarrow> put64 p (p0 XOR p1) mem;
        mem \<leftarrow> put64 (p + 8) (p1 + p2) mem;
        mem \<leftarrow> put64 (p + 16) (rotl 17 p2) mem;
        put64 (p + 24) (p3 XOR ((p0 XOR p1) + of_nat i)) mem })"

fun memaccess_loop :: "u64 \<Rightarrow> nat list \<Rightarrow> u8 list \<Rightarrow> u8 list option" where
  "memaccess_loop wrap [] mem = Some mem"
| "memaccess_loop wrap (i # is) mem = memaccess_block wrap i mem \<bind> memaccess_loop wrap is"

definition jitter_memaccess :: "jitter_state \<Rightarrow> jitter_state option" where
  "jitter_memaccess js =
     map_option (\<lambda>m. js\<lparr>jitter_mem := m\<rparr>)
       (memaccess_loop (mem_size js - JITTER_MEM_BLOCK_SIZE) [0..<unat JITTER_MEM_BLOCKS] (jitter_mem js))"

definition fold_round :: "u64 \<Rightarrow> u64" where
  "fold_round x =
     (let x = x XOR drop_bit 4 x;
          x = x * 0x9E3779B97F4A7C15;
          x = x XOR drop_bit 17 x;
          x = x * 0xBF58476D1CE4E5B9
      in x XOR drop_bit 31 x)"

definition jitter_fold :: "u64 \<Rightarrow> jitter_state \<Rightarrow> jitter_state" where
  "jitter_fold delta js =
     js\<lparr>entropy_pool := rotl 7 (entropy_pool js XOR (fold_round ^^ JITTER_FOLD_LOOPS) delta)\<rparr>"

definition jitter_stuck :: "u64 \<Rightarrow> jitter_state \<Rightarrow> jitter_state \<times> bool" where
  "jitter_stuck delta js =
     (let delta2 = delta - last_delta js; delta3 = delta2 - last_delta2 js;
          js = js\<lparr>last_delta2 := delta2, last_delta := delta\<rparr> in
      if delta = 0 \<and> delta2 = 0 \<and> delta3 = 0 then (js\<lparr>stuck_count := stuck_count js + 1\<rparr>, True)
      else (js\<lparr>stuck_count := 0\<rparr>, False))"

fun collect_loop :: "(nat \<Rightarrow> u64) \<Rightarrow> nat \<Rightarrow> u32 \<Rightarrow> jitter_state \<Rightarrow> nat \<Rightarrow> (jitter_state \<times> int \<times> nat) option" where
  "collect_loop tsc 0 stuck js t = Some (js, 0, t)"
| "collect_loop tsc (Suc n) stuck js t = do {
     let time_before = tsc t;
     js \<leftarrow> jitter_memaccess js;
     let time_after = tsc (t + 1);
     if time_after \<le> time_before
     then if stuck + 1 > 10 then Some (js, - EIO, t + 2) else collect_loop tsc n (stuck + 1) js (t + 2)
     else let (js, is_stuck) = jitter_stuck (time_after - time_before) js in
       if is_stuck then collect_loop tsc n 0 js (t + 2)
       else collect_loop tsc n 0 (jitter_fold (time_after - time_before) js) (t + 2) }"

definition jitter_collect_round :: "(nat \<Rightarrow> u64) \<Rightarrow> jitter_state \<Rightarrow> nat \<Rightarrow> (jitter_state \<times> int \<times> nat) option" where
  "jitter_collect_round tsc js t = collect_loop tsc JITTER_LOOPS 0 js t"

fun warm_up :: "(nat \<Rightarrow> u64) \<Rightarrow> nat \<Rightarrow> jitter_state \<Rightarrow> nat \<Rightarrow> (jitter_state option \<times> int \<times> nat) option" where
  "warm_up tsc 0 js t = Some (Some js, 0, t)"
| "warm_up tsc (Suc n) js t = do {
     (js, ret, t) \<leftarrow> jitter_collect_round tsc js t;
     if ret \<noteq> 0 then Some (None, ret, t) else warm_up tsc n js t }"

text \<open>The two allocations may fail; \<open>g_jitter\<close> is an option.\<close>

definition sl_jitter_init :: "bool \<Rightarrow> bool \<Rightarrow> (nat \<Rightarrow> u64) \<Rightarrow> nat \<Rightarrow> (jitter_state option \<times> int \<times> nat) option" where
  "sl_jitter_init have_js have_mem tsc t =
     (if tsc (t + 1) \<le> tsc t then Some (None, - ENODEV, t + 2)
      else if \<not> have_js then Some (None, - ENOMEM, t + 2)
      else if \<not> have_mem then Some (None, - ENOMEM, t + 2)
      else let size = JITTER_MEM_BLOCKS * JITTER_MEM_BLOCK_SIZE in
        warm_up tsc 4 \<lparr>prev_time = tsc (t + 2), last_delta = 0, last_delta2 = 0, entropy_pool = tsc (t + 3),
          jitter_mem = replicate (unat size) 0xA5, mem_size = size, stuck_count = 0\<rparr> (t + 4))"

definition sl_jitter_cleanup :: "jitter_state option \<Rightarrow> jitter_state option" where
  "sl_jitter_cleanup g = None"

function jitter_read_loop :: "(nat \<Rightarrow> u64) \<Rightarrow> nat \<Rightarrow> nat \<Rightarrow> u8 list \<Rightarrow> jitter_state \<Rightarrow> nat
    \<Rightarrow> (u8 list \<times> int \<times> jitter_state \<times> nat) option" where
  "jitter_read_loop tsc want generated out js t =
     (if generated < want
      then let chunk = min (want - generated) 8 in
        jitter_collect_round tsc js t \<bind> (\<lambda>(js, ret, t).
          if ret \<noteq> 0 then Some (out, if generated > 0 then int_cast generated else ret, js, t)
          else write_bytes generated (take chunk (le_bytes 8 (unat (entropy_pool js)))) out \<bind> (\<lambda>out.
            jitter_read_loop tsc want (generated + chunk) out
              (js\<lparr>entropy_pool := entropy_pool js XOR tsc t\<rparr>) (t + 1)))
      else Some (out, int_cast generated, js, t))"
  by pat_completeness auto
termination by (relation "measure (\<lambda>(tsc, want, generated, out, js, t). want - generated)") auto

declare jitter_read_loop.simps [simp del]

definition sl_jitter_read :: "(nat \<Rightarrow> u64) \<Rightarrow> nat \<Rightarrow> u8 list \<Rightarrow> jitter_state option \<Rightarrow> nat
    \<Rightarrow> (u8 list \<times> int \<times> jitter_state option \<times> nat) option" where
  "sl_jitter_read tsc want out g t =
     (case g of None \<Rightarrow> Some (out, - ENODEV, None, t)
      | Some js \<Rightarrow> map_option (\<lambda>(out, r, js, t). (out, r, Some js, t)) (jitter_read_loop tsc want 0 out js t))"

subsection \<open>Mixing\<close>

record entropy_ctx =
  has_rdrand :: bool
  has_rdseed :: bool
  has_jitter :: bool
  bytes_generated :: u64
  rdrand_calls :: u64
  rdseed_calls :: u64
  jitter_calls :: u64
  health_failures :: u64

text \<open>The module's globals, and how far the processor's answers have been consumed.\<close>

record entropy_world =
  ctx :: entropy_ctx
  g_health :: "health_state option"
  g_jitter :: "jitter_state option"
  rand_t :: nat
  seed_t :: nat
  tsc_t :: nat

record processor =
  rdrand_ins :: "nat \<Rightarrow> u64 option"
  rdseed_ins :: "nat \<Rightarrow> u64 option"
  tsc_ins :: "nat \<Rightarrow> u64"

text \<open>The three layers of one chunk; the \<open>^=\<close> loop runs over the chunk only.\<close>

definition xor_into :: "u8 list \<Rightarrow> u8 list \<Rightarrow> u8 list" where
  "xor_into out buf = map2 (XOR) out buf"

definition rdseed_layer :: "processor \<Rightarrow> nat \<Rightarrow> u8 list \<Rightarrow> entropy_world \<Rightarrow> (u8 list \<times> entropy_world) option" where
  "rdseed_layer cpu chunk out w =
     (if has_rdseed (ctx w) then do {
        (out, ret, t) \<leftarrow> sl_rdseed_read (rdseed_ins cpu) chunk out (seed_t w);
        let c = (if ret > 0 then (ctx w)\<lparr>rdseed_calls := rdseed_calls (ctx w) + 1\<rparr> else ctx w);
        Some (out, w\<lparr>ctx := c, seed_t := t\<rparr>) }
      else Some (out, w))"

definition rdrand_layer :: "processor \<Rightarrow> nat \<Rightarrow> u8 list \<Rightarrow> entropy_world \<Rightarrow> (u8 list \<times> entropy_world) option" where
  "rdrand_layer cpu chunk out w =
     (if has_rdrand (ctx w) then do {
        (rdrand_buf, ret, t) \<leftarrow> sl_rdrand_read (rdrand_ins cpu) chunk (replicate 64 0) (rand_t w);
        let w = w\<lparr>rand_t := t\<rparr>;
        if ret > 0
        then Some (xor_into out rdrand_buf, w\<lparr>ctx := (ctx w)\<lparr>rdrand_calls := rdrand_calls (ctx w) + 1\<rparr>\<rparr>)
        else Some (out, w) }
      else Some (out, w))"

definition jitter_layer :: "processor \<Rightarrow> nat \<Rightarrow> u8 list \<Rightarrow> entropy_world \<Rightarrow> (u8 list \<times> entropy_world) option" where
  "jitter_layer cpu chunk out w =
     (if has_jitter (ctx w) then do {
        (jitter_buf, ret, g, t) \<leftarrow> sl_jitter_read (tsc_ins cpu) chunk (replicate 64 0) (g_jitter w) (tsc_t w);
        let w = w\<lparr>g_jitter := g, tsc_t := t\<rparr>;
        if ret > 0
        then Some (xor_into out jitter_buf, w\<lparr>ctx := (ctx w)\<lparr>jitter_calls := jitter_calls (ctx w) + 1\<rparr>\<rparr>)
        else Some (out, w) }
      else Some (out, w))"

definition entropy_chunk :: "processor \<Rightarrow> nat \<Rightarrow> entropy_world \<Rightarrow> (u8 list \<times> entropy_world) option" where
  "entropy_chunk cpu chunk w = do {
     (out, w) \<leftarrow> rdseed_layer cpu chunk (replicate chunk 0) w;
     (out, w) \<leftarrow> rdrand_layer cpu chunk out w;
     jitter_layer cpu chunk out w }"

text \<open>
  \<open>n\<close> rounds of the loop of \<open>sl_entropy_read\<close>: the bytes done, the bytes remaining, the buffer.  The
  function returns when none remain; a rejected chunk is tried again.
\<close>

fun entropy_read :: "processor \<Rightarrow> nat \<Rightarrow> entropy_world \<Rightarrow> nat \<Rightarrow> nat \<Rightarrow> u8 list
    \<Rightarrow> (entropy_world \<times> nat \<times> nat \<times> u8 list) option" where
  "entropy_read cpu 0 w pos remaining buf = Some (w, pos, remaining, buf)"
| "entropy_read cpu (Suc n) w pos remaining buf =
     (if remaining = 0 then Some (w, pos, remaining, buf)
      else do {
        let chunk = min remaining 64;
        (out, w) \<leftarrow> entropy_chunk cpu chunk w;
        buf \<leftarrow> write_bytes pos out buf;
        let (h, ret) = sl_health_test out (g_health w);
        let w = w\<lparr>g_health := h\<rparr>;
        if ret < 0
        then entropy_read cpu n (w\<lparr>ctx := (ctx w)\<lparr>health_failures := health_failures (ctx w) + 1\<rparr>\<rparr>) pos remaining buf
        else entropy_read cpu n (w\<lparr>ctx := (ctx w)\<lparr>bytes_generated := bytes_generated (ctx w) + of_nat chunk\<rparr>\<rparr>)
          (pos + chunk) (remaining - chunk) buf })"

definition sl_entropy_init :: "bool \<Rightarrow> u32 \<Rightarrow> u32 \<Rightarrow> jitter_state option \<times> int \<times> nat \<Rightarrow> bool \<Rightarrow> int
    \<Rightarrow> entropy_world option \<times> int" where
  "sl_entropy_init have_ctx ecx ebx jitter have_health registered =
     (if \<not> have_ctx then (None, - ENOMEM)
      else
        let c = \<lparr>has_rdrand = sl_rdrand_available ecx, has_rdseed = sl_rdseed_available ebx,
              has_jitter = (fst (snd jitter) = 0), bytes_generated = 0, rdrand_calls = 0, rdseed_calls = 0,
              jitter_calls = 0, health_failures = 0\<rparr>;
            (h, ret) = sl_health_init have_health in
        if ret \<noteq> 0 then (None, ret)
        else if \<not> has_rdrand c \<and> \<not> has_rdseed c \<and> \<not> has_jitter c then (None, - ENODEV)
        else if registered \<noteq> 0 then (None, registered)
        else (Some \<lparr>ctx = c, g_health = h, g_jitter = fst jitter, rand_t = 0, seed_t = 0, tsc_t = snd (snd jitter)\<rparr>, 0))"

subsection \<open>The instruction wrappers\<close>

lemma take_le_bytes: "k \<le> n \<Longrightarrow> length (take k (le_bytes n x)) = k"
  by simp

lemma read_words_spec:
  assumes "generated \<le> want" "want \<le> length out"
  shows "\<exists>out' g t'. read_words fetch want generated out t = Some (out', g, t') \<and> generated \<le> g \<and> g \<le> want
    \<and> length out' = length out \<and> (\<forall>k<length out. k < generated \<or> g \<le> k \<longrightarrow> out' ! k = out ! k)
    \<and> (g < want \<longrightarrow> (\<exists>n. fst (fetch n) = None))"
  using assms
proof (induction fetch want generated out t rule: read_words.induct)
  case (1 fetch want generated out t)
  show ?case
  proof (cases "generated < want")
    case False
    with "1.prems" show ?thesis by (subst read_words.simps) auto
  next
    case less: True
    obtain r u where f: "fetch t = (r, u)" by (cases "fetch t")
    show ?thesis
    proof (cases r)
      case None
      with less f show ?thesis by (subst read_words.simps) (auto intro: exI [of _ t])
    next
      case (Some v)
      define k where "k = min (want - generated) 8"
      have k: "0 < k" "generated + k \<le> want" "length (take k (le_bytes 8 (unat v))) = k"
        using less by (auto simp: k_def)
      obtain o1 where o1: "write_bytes generated (take k (le_bytes 8 (unat v))) out = Some o1" "length o1 = length out"
        "\<forall>j<length out. o1 ! j = (if generated \<le> j \<and> j < generated + k then take k (le_bytes 8 (unat v)) ! (j - generated) else out ! j)"
        using write_bytes_ex [of generated "take k (le_bytes 8 (unat v))" out] k "1.prems" by auto
      have step: "read_words fetch want generated out t = read_words fetch want (generated + k) o1 u"
        using less f Some o1(1) by (subst read_words.simps) (auto simp: k_def Let_def min_def split: if_splits)
      have "\<exists>out' g t'. read_words fetch want (generated + k) o1 u = Some (out', g, t') \<and> generated + k \<le> g \<and> g \<le> want
          \<and> length out' = length o1 \<and> (\<forall>j<length o1. j < generated + k \<or> g \<le> j \<longrightarrow> out' ! j = o1 ! j)
          \<and> (g < want \<longrightarrow> (\<exists>n. fst (fetch n) = None))"
      proof (cases "want - generated \<ge> 8")
        case True
        then have "k = 8" by (simp add: k_def)
        with True show ?thesis
          using "1.IH"(1) [OF less f [symmetric] Some True, of o1] k o1(1,2) "1.prems" by simp
      next
        case False
        then have "k = want - generated" by (simp add: k_def)
        with False show ?thesis
          using "1.IH"(2) [OF less f [symmetric] Some False refl, of o1] k o1(1,2) "1.prems" by simp
      qed
      then obtain out' g t' where r: "read_words fetch want (generated + k) o1 u = Some (out', g, t')"
        "generated + k \<le> g" "g \<le> want" "length out' = length o1"
        "\<forall>j<length o1. j < generated + k \<or> g \<le> j \<longrightarrow> out' ! j = o1 ! j"
        "g < want \<longrightarrow> (\<exists>n. fst (fetch n) = None)" by blast
      show ?thesis
        by (intro exI [of _ out'] exI [of _ g] exI [of _ t']) (use r o1(2,3) step in auto)
    qed
  qed
qed


lemma int_cast_small: "n \<le> 64 \<Longrightarrow> int_cast n = int n"
  unfolding int_cast_def by (simp add: signed_of_nat signed_take_bit_int_eq_self)

lemma retry_None: "fst (retry n ins t) = None \<longleftrightarrow> (\<forall>i<n. ins (t + i) = None)"
  by (induction n arbitrary: t) (auto simp: less_Suc_eq_0_disj split: option.splits)

lemma rdrand_read_aux:
  assumes "want \<le> length out" "want \<le> 64"
  shows "\<exists>out' g t'. sl_rdrand_read ins want out t = Some (out', int g, t') \<and> g \<le> want
      \<and> length out' = length out \<and> drop g out' = drop g out \<and> (g < want \<longrightarrow> (\<exists>n. \<forall>i<10. ins (n + i) = None))"
    and "\<exists>out' g t'. sl_rdseed_read ins want out t = Some (out', int g, t') \<and> g \<le> want
      \<and> length out' = length out \<and> drop g out' = drop g out \<and> (g < want \<longrightarrow> (\<exists>n. \<forall>i<32. ins (n + i) = None))"
proof -
  obtain out1 g1 t1 where 1: "read_words (rdrand64_retry ins) want 0 out t = Some (out1, g1, t1)" "g1 \<le> want"
    "length out1 = length out" "\<forall>k<length out. g1 \<le> k \<longrightarrow> out1 ! k = out ! k"
    "g1 < want \<longrightarrow> (\<exists>n. fst (rdrand64_retry ins n) = None)"
    using read_words_spec [of 0 want out "rdrand64_retry ins" t] assms(1) by auto
  obtain out2 g2 t2 where 2: "read_words (rdseed64_retry ins) want 0 out t = Some (out2, g2, t2)" "g2 \<le> want"
    "length out2 = length out" "\<forall>k<length out. g2 \<le> k \<longrightarrow> out2 ! k = out ! k"
    "g2 < want \<longrightarrow> (\<exists>n. fst (rdseed64_retry ins n) = None)"
    using read_words_spec [of 0 want out "rdseed64_retry ins" t] assms(1) by auto
  have "drop g1 out1 = drop g1 out" "drop g2 out2 = drop g2 out"
    using 1(3,4) 2(3,4) by (auto intro!: nth_equalityI)
  with 1 2 assms(2) show
    "\<exists>out' g t'. sl_rdrand_read ins want out t = Some (out', int g, t') \<and> g \<le> want
      \<and> length out' = length out \<and> drop g out' = drop g out \<and> (g < want \<longrightarrow> (\<exists>n. \<forall>i<10. ins (n + i) = None))"
    "\<exists>out' g t'. sl_rdseed_read ins want out t = Some (out', int g, t') \<and> g \<le> want
      \<and> length out' = length out \<and> drop g out' = drop g out \<and> (g < want \<longrightarrow> (\<exists>n. \<forall>i<32. ins (n + i) = None))"
    by (simp_all add: sl_rdrand_read_def sl_rdseed_read_def int_cast_small rdrand64_retry_def rdseed64_retry_def retry_None
      RDRAND_RETRY_COUNT_def RDSEED_RETRY_COUNT_def)
qed

text \<open>The reads through \<open>RDRAND\<close> and \<open>RDSEED\<close> write within the buffer, leave every byte from the
  reported length on untouched, and fall short of the wanted length only if the instruction failed on
  every one of its retries.\<close>

theorem rdrand_read_spec:
  assumes "want \<le> length out" "want \<le> 64"
  shows "\<exists>out' g t'. sl_rdrand_read ins want out t = Some (out', int g, t') \<and> g \<le> want
      \<and> length out' = length out \<and> drop g out' = drop g out \<and> (g < want \<longrightarrow> (\<exists>n. \<forall>i<10. ins (n + i) = None))
    \<and> (\<exists>out' g t'. sl_rdseed_read ins want out t = Some (out', int g, t') \<and> g \<le> want
      \<and> length out' = length out \<and> drop g out' = drop g out \<and> (g < want \<longrightarrow> (\<exists>n. \<forall>i<32. ins (n + i) = None)))"
  using rdrand_read_aux [OF assms] by blast

subsection \<open>The fold\<close>

lemma xor_eq_0: "x XOR y = (0 :: u64) \<longleftrightarrow> x = y"
proof
  assume "x XOR y = 0"
  then have "(x XOR y) XOR y = y" by simp
  then show "x = y" by (simp add: xor.assoc)
qed simp

lemma inj_xorshift:
  assumes "0 < k"
  shows "inj (\<lambda>x :: u64. x XOR drop_bit k x)"
proof (rule injI)
  fix x y :: u64
  assume eq: "x XOR drop_bit k x = y XOR drop_bit k y"
  have "(x XOR y) XOR drop_bit k (x XOR y) = (x XOR drop_bit k x) XOR (y XOR drop_bit k y)"
    by (simp only: drop_bit_xor ac_simps)
  then have "(x XOR y) XOR drop_bit k (x XOR y) = 0" by (simp only: eq xor_self_eq)
  then have "x XOR y = drop_bit k (x XOR y)" by (simp only: xor_eq_0)
  then have "unat (x XOR y) = unat (x XOR y) div 2 ^ k" by (metis unat_drop_bit_eq drop_bit_eq_div)
  moreover have "(1 :: nat) < 2 ^ k" using assms by (intro one_less_power) simp_all
  ultimately have "unat (x XOR y) = 0" by (metis div_less_dividend gr0I less_irrefl)
  then show "x = y" by (simp add: unat_eq_0 xor_eq_0)
qed

lemma inj_times:
  assumes "c * d = (1 :: u64)"
  shows "inj (\<lambda>x. x * c)"
  by (rule inj_on_inverseI [of _ "\<lambda>y. y * d"]) (use assms in \<open>simp add: mult.assoc\<close>)

lemma inj_rotl: "inj (rotl 7)"
proof (rule inj_on_inverseI [of _ "\<lambda>y. drop_bit 7 y OR push_bit 57 y"])
  fix x :: u64
  show "drop_bit 7 (rotl 7 x) OR push_bit 57 (rotl 7 x) = x"
    unfolding rotl_def by (rule bit_word_eqI) (auto simp: bit_simps, metis le_add_diff_inverse not_less)
qed

lemma inj_fold_round: "inj fold_round"
proof -
  have eq: "fold_round = (\<lambda>x. x XOR drop_bit 31 x) \<circ> (\<lambda>x. x * 0xBF58476D1CE4E5B9) \<circ> (\<lambda>x. x XOR drop_bit 17 x)
      \<circ> (\<lambda>x. x * 0x9E3779B97F4A7C15) \<circ> (\<lambda>x. x XOR drop_bit 4 x)"
    by (rule ext) (simp add: fold_round_def Let_def)
  have m: "inj (\<lambda>x :: u64. x * 0xBF58476D1CE4E5B9)" by (rule inj_times [of _ "0x96de1b173f119089"]) simp
  have n: "inj (\<lambda>x :: u64. x * 0x9E3779B97F4A7C15)" by (rule inj_times [of _ "0xf1de83e19937733d"]) simp
  show ?thesis unfolding eq by (intro inj_compose inj_xorshift m n) simp_all
qed

text \<open>Folding a timing delta loses nothing: for a given pool the new pool is a bijective function of
  the delta, and for a given delta a bijective function of the old pool.\<close>

theorem jitter_fold_bijective:
  "bij (\<lambda>delta. entropy_pool (jitter_fold delta js))
    \<and> bij (\<lambda>pool. entropy_pool (jitter_fold delta (js\<lparr>entropy_pool := pool\<rparr>)))"
proof -
  have f: "inj (fold_round ^^ n)" for n using inj_fold_round by (rule inj_fn)
  have x: "inj (\<lambda>y. x XOR y)" "inj (\<lambda>y. y XOR x)" for x :: u64
    by (auto intro!: injI dest: arg_cong [of _ _ "\<lambda>y. x XOR y"] simp: xor.commute [of _ x] simp flip: xor.assoc)
  have "inj (\<lambda>delta. entropy_pool (jitter_fold delta js))"
    using inj_compose [OF inj_compose [OF inj_rotl x(1) [of "entropy_pool js"]] f]
    by (simp add: jitter_fold_def comp_def)
  moreover have "inj (\<lambda>pool. entropy_pool (jitter_fold delta (js\<lparr>entropy_pool := pool\<rparr>)))"
    using inj_compose [OF inj_rotl x(2)] by (simp add: jitter_fold_def comp_def)
  ultimately show ?thesis by (simp add: bij_def finite_UNIV_inj_surj)
qed

subsection \<open>The jitter collector\<close>

definition jitter_ok :: "jitter_state \<Rightarrow> bool" where
  "jitter_ok js \<longleftrightarrow> length (jitter_mem js) = unat (mem_size js) \<and> 32 < mem_size js"

lemma get64_inside: "p + 8 \<le> length m \<Longrightarrow> \<exists>v. get64 m p = Some v"
  by (simp add: get64_def read_field_def)

lemma put64_inside: "p + 8 \<le> length m \<Longrightarrow> \<exists>m'. put64 p v m = Some m' \<and> length m' = length m"
  using write_bytes_ex [of p "le_bytes 8 (unat v)" m] by (auto simp: put64_def)

lemma memaccess_block_inside:
  assumes "0 < unat wrap" "length m = unat wrap + 32"
  shows "\<exists>m'. memaccess_block wrap i m = Some m' \<and> length m' = length m"
proof -
  define p where "p = unat ((of_nat i * JITTER_MEM_BLOCK_SIZE * 7) mod wrap)"
  have "p < unat wrap" using assms(1) unfolding p_def by (simp add: unat_mod)
  then have p: "p + 8 \<le> length m" "p + 8 + 8 \<le> length m" "p + 16 + 8 \<le> length m" "p + 24 + 8 \<le> length m"
    using assms(2) by simp_all
  obtain p0 p1 p2 p3 where g: "get64 m p = Some p0" "get64 m (p + 8) = Some p1" "get64 m (p + 16) = Some p2"
    "get64 m (p + 24) = Some p3" using get64_inside p by metis
  obtain m1 where m1: "put64 p (p0 XOR p1) m = Some m1" "length m1 = length m" using put64_inside [OF p(1)] by metis
  obtain m2 where m2: "put64 (p + 8) (p1 + p2) m1 = Some m2" "length m2 = length m"
    using put64_inside [of "p + 8" m1] p(2) m1(2) by metis
  obtain m3 where m3: "put64 (p + 16) (rotl 17 p2) m2 = Some m3" "length m3 = length m"
    using put64_inside [of "p + 16" m2] p(3) m2(2) by metis
  obtain m4 where m4: "put64 (p + 24) (p3 XOR ((p0 XOR p1) + of_nat i)) m3 = Some m4" "length m4 = length m"
    using put64_inside [of "p + 24" m3] p(4) m3(2) by metis
  have "wrap \<noteq> 0" using assms(1) by auto
  then show ?thesis
    using g m1 m2 m3 m4 by (simp add: memaccess_block_def Let_def flip: p_def)
qed

lemma memaccess_loop_inside:
  "0 < unat wrap \<Longrightarrow> length m = unat wrap + 32 \<Longrightarrow> \<exists>m'. memaccess_loop wrap is m = Some m' \<and> length m' = length m"
proof (induction "is" arbitrary: m)
  case (Cons i "is")
  then show ?case using memaccess_block_inside [of wrap m i] by auto
qed simp

lemma jitter_memaccess_inside:
  assumes "jitter_ok js"
  shows "\<exists>m. jitter_memaccess js = Some (js\<lparr>jitter_mem := m\<rparr>) \<and> length m = length (jitter_mem js)"
proof -
  have "unat (mem_size js - 32) = unat (mem_size js) - 32" "32 < unat (mem_size js)"
    using assms by (auto simp: jitter_ok_def unat_sub word_le_nat_alt word_less_nat_alt)
  then obtain m where "memaccess_loop (mem_size js - 32) [0..<unat JITTER_MEM_BLOCKS] (jitter_mem js) = Some m"
    "length m = length (jitter_mem js)"
    using memaccess_loop_inside [of "mem_size js - 32" "jitter_mem js"] assms by (auto simp: jitter_ok_def)
  then show ?thesis by (auto simp: jitter_memaccess_def JITTER_MEM_BLOCK_SIZE_def)
qed


lemma jitter_stuck_moving: "delta \<noteq> 0 \<Longrightarrow> jitter_stuck delta js
    = (js\<lparr>last_delta2 := delta - last_delta js, last_delta := delta, stuck_count := 0\<rparr>, False)"
  by (simp add: jitter_stuck_def Let_def)

text \<open>One measurement: the counter did not advance, or the delta is folded.\<close>

lemma collect_step:
  assumes "jitter_ok js" "stuck_count js = 0"
  obtains a b where "jitter_ok a" "stuck_count a = 0" "jitter_ok b" "stuck_count b = 0"
    "collect_loop tsc (Suc n) stuck js t = (if tsc (t + 1) \<le> tsc t
       then if stuck + 1 > 10 then Some (a, - EIO, t + 2) else collect_loop tsc n (stuck + 1) a (t + 2)
       else collect_loop tsc n 0 b (t + 2))"
proof -
  obtain m where m: "jitter_memaccess js = Some (js\<lparr>jitter_mem := m\<rparr>)" "length m = length (jitter_mem js)"
    using jitter_memaccess_inside assms(1) by blast
  define a where "a = js\<lparr>jitter_mem := m\<rparr>"
  define d where "d = tsc (t + 1) - tsc t"
  define b where "b = jitter_fold d (a\<lparr>last_delta2 := d - last_delta a, last_delta := d, stuck_count := 0\<rparr>)"
  have a: "jitter_ok a" "stuck_count a = 0" using assms m(2) by (simp_all add: a_def jitter_ok_def)
  then have b: "jitter_ok b" "stuck_count b = 0" by (simp_all add: b_def jitter_fold_def jitter_ok_def)
  have "collect_loop tsc (Suc n) stuck js t = (if tsc (t + 1) \<le> tsc t
       then if stuck + 1 > 10 then Some (a, - EIO, t + 2) else collect_loop tsc n (stuck + 1) a (t + 2)
       else collect_loop tsc n 0 b (t + 2))"
  proof (cases "d = 0")
    case True
    then show ?thesis using m(1) by (simp add: d_def Let_def flip: a_def)
  next
    case False
    then show ?thesis using m(1) by (simp add: jitter_stuck_moving b_def d_def Let_def flip: a_def)
  qed
  with a b show thesis by (rule that)
qed

lemma collect_loop_ok:
  assumes "jitter_ok js" "stuck_count js = 0"
  shows "\<exists>js' ret t'. collect_loop tsc n stuck js t = Some (js', ret, t') \<and> jitter_ok js' \<and> stuck_count js' = 0
    \<and> (ret = 0 \<or> ret = - EIO) \<and> ((\<forall>k<n. tsc (t + 2 * k) < tsc (t + 2 * k + 1)) \<longrightarrow> ret = 0)"
  using assms
proof (induction n arbitrary: stuck js t)
  case (Suc n)
  obtain a b where ab: "jitter_ok a" "stuck_count a = 0" "jitter_ok b" "stuck_count b = 0"
    "collect_loop tsc (Suc n) stuck js t = (if tsc (t + 1) \<le> tsc t
       then if stuck + 1 > 10 then Some (a, - EIO, t + 2) else collect_loop tsc n (stuck + 1) a (t + 2)
       else collect_loop tsc n 0 b (t + 2))"
    using collect_step [OF Suc.prems] by metis
  have shift: "\<forall>k<n. tsc (t + 2 + 2 * k) < tsc (t + 2 + 2 * k + 1)" "tsc t < tsc (t + 1)"
    if "\<forall>k<Suc n. tsc (t + 2 * k) < tsc (t + 2 * k + 1)"
    using that by (auto dest: spec [of _ "Suc _"] spec [of _ 0])
  show ?case
  proof (cases "tsc (t + 1) \<le> tsc t")
    case late: True
    show ?thesis
    proof (cases "stuck + 1 > 10")
      case True
      then show ?thesis using ab(1,2,5) late shift(2) by (auto simp: not_le)
    next
      case False
      then have "collect_loop tsc (Suc n) stuck js t = collect_loop tsc n (stuck + 1) a (t + 2)" using ab(5) late by simp
      then show ?thesis using Suc.IH [OF ab(1,2), of "stuck + 1" "t + 2"] shift(2) late by (auto simp: not_le)
    qed
  next
    case False
    then have "collect_loop tsc (Suc n) stuck js t = collect_loop tsc n 0 b (t + 2)" using ab(5) by simp
    then show ?thesis using Suc.IH [OF ab(3,4), of 0 "t + 2"] shift(1) by metis
  qed
qed auto

lemma collect_frozen:
  assumes "jitter_ok js" "stuck_count js = 0" "i \<le> 10" "10 < i + n"
  shows "\<exists>js'. collect_loop (\<lambda>_. c) n (of_nat i) js t = Some (js', - EIO, t + 2 * (11 - i)) \<and> jitter_ok js'
    \<and> stuck_count js' = 0"
  using assms
proof (induction n arbitrary: i js t)
  case (Suc n)
  obtain a b where ab: "jitter_ok a" "stuck_count a = 0"
    "collect_loop (\<lambda>_. c) (Suc n) (of_nat i) js t = (if of_nat i + 1 > (10 :: u32) then Some (a, - EIO, t + 2)
       else collect_loop (\<lambda>_. c) n (of_nat i + 1) a (t + 2))"
    using collect_step [OF Suc.prems(1,2), of "\<lambda>_. c"] by (metis order_refl)
  have "unat (of_nat (Suc i) :: u32) = Suc i" using Suc.prems(3) by (simp only: unat_of_nat) simp
  moreover have "(of_nat i + 1 :: u32) = of_nat (Suc i)" "unat (10 :: u32) = 10" by simp_all
  ultimately have "of_nat i + 1 > (10 :: u32) \<longleftrightarrow> i = 10"
    using Suc.prems(3) by (simp only: word_less_nat_alt) linarith
  with ab Suc.IH [of a "Suc i" "t + 2"] Suc.prems(3,4) show ?case by (auto simp: add.commute)
qed simp

lemma collect_round_ok:
  assumes "jitter_ok js" "stuck_count js = 0"
  shows "\<exists>js' ret t'. jitter_collect_round tsc js t = Some (js', ret, t') \<and> jitter_ok js' \<and> stuck_count js' = 0
    \<and> (ret = 0 \<or> ret = - EIO) \<and> ((\<forall>k<64. tsc (t + 2 * k) < tsc (t + 2 * k + 1)) \<longrightarrow> ret = 0)"
  unfolding jitter_collect_round_def JITTER_LOOPS_def by (rule collect_loop_ok [OF assms])


text \<open>The stuck detector never fires: a delta that reaches it is positive, so the test for a zero delta
  fails.  A counter that advances by the same amount at every reading, hence with no jitter at all, is
  accepted like any other.\<close>

theorem constant_timer_accepted:
  assumes "jitter_ok js" "stuck_count js = 0" "2 * t + 127 < 2 ^ 63"
  shows "\<exists>js' t'. jitter_collect_round (\<lambda>n. of_nat n * 2) js t = Some (js', 0, t') \<and> stuck_count js' = 0"
proof -
  have "\<forall>k<64. (of_nat (t + 2 * k) * 2 :: u64) < of_nat (t + 2 * k + 1) * 2"
  proof (intro allI impI)
    fix k :: nat
    assume "k < 64"
    then have "2 * (t + 2 * k + 1) < 2 ^ 64" "2 * (t + 2 * k) < 2 ^ 64" using assms(3) by simp_all
    then have "unat (of_nat (2 * (t + 2 * k + 1)) :: u64) = 2 * (t + 2 * k + 1)"
      "unat (of_nat (2 * (t + 2 * k)) :: u64) = 2 * (t + 2 * k)" by (simp_all only: unat_of_nat) simp_all
    then show "(of_nat (t + 2 * k) * 2 :: u64) < of_nat (t + 2 * k + 1) * 2"
      by (simp add: word_less_nat_alt algebra_simps)
  qed
  with collect_round_ok [OF assms(1,2), of "\<lambda>n. of_nat n * 2" t] show ?thesis by fastforce
qed

text \<open>Reading a chunk.\<close>

lemma jitter_read_loop_ok:
  assumes "jitter_ok js" "stuck_count js = 0" "generated \<le> want" "want \<le> length out" "want \<le> 64"
  shows "\<exists>out' r js' t'. jitter_read_loop tsc want generated out js t = Some (out', r, js', t')
    \<and> jitter_ok js' \<and> stuck_count js' = 0 \<and> length out' = length out \<and> r \<le> int want"
  using assms
proof (induction tsc want generated out js t rule: jitter_read_loop.induct)
  case (1 tsc want generated out js t)
  show ?case
  proof (cases "generated < want")
    case False
    with "1.prems" show ?thesis by (subst jitter_read_loop.simps) (simp add: int_cast_small)
  next
    case less: True
    obtain j r u where j: "jitter_collect_round tsc js t = Some (j, r, u)" "jitter_ok j" "stuck_count j = 0"
      "r = 0 \<or> r = - EIO" using collect_round_ok [OF "1.prems"(1,2)] by metis
    show ?thesis
    proof (cases "r = 0")
      case False
      with less j "1.prems" show ?thesis
        by (subst jitter_read_loop.simps) (auto simp: int_cast_small Let_def EIO_def)
    next
      case True
      define k where "k = min (want - generated) 8"
      define j' where "j' = j\<lparr>entropy_pool := entropy_pool j XOR tsc u\<rparr>"
      have j': "jitter_ok j'" "stuck_count j' = 0" using j(2,3) by (simp_all add: j'_def jitter_ok_def)
      have le: "generated + length (take k (le_bytes 8 (unat (entropy_pool j)))) \<le> length out"
        using less "1.prems"(4) by (simp add: k_def)
      obtain o1 where o1: "write_bytes generated (take k (le_bytes 8 (unat (entropy_pool j)))) out = Some o1"
        "length o1 = length out"
        using write_bytes_ex [OF le] by blast
      have step: "jitter_read_loop tsc want generated out js t = jitter_read_loop tsc want (generated + k) o1 j' (u + 1)"
        using less j(1) True o1(1) by (subst jitter_read_loop.simps) (simp add: Let_def k_def j'_def)
      have "generated + k \<le> want" using less by (simp add: k_def)
      moreover have "\<not> r \<noteq> 0" using True by simp
      ultimately show ?thesis
        using "1.IH" [OF less k_def j(1) refl refl _ o1(1)] j' o1(2) "1.prems"(4,5) step unfolding j'_def by simp
    qed
  qed
qed

subsection \<open>The mixing read\<close>

definition world_ok :: "entropy_world \<Rightarrow> bool" where
  "world_ok w \<longleftrightarrow> (case g_jitter w of None \<Rightarrow> True | Some js \<Rightarrow> jitter_ok js \<and> stuck_count js = 0)"

definition same_sources :: "entropy_world \<Rightarrow> entropy_world \<Rightarrow> bool" where
  "same_sources w v \<longleftrightarrow> g_health v = g_health w \<and> has_rdrand (ctx v) = has_rdrand (ctx w)
     \<and> has_rdseed (ctx v) = has_rdseed (ctx w) \<and> has_jitter (ctx v) = has_jitter (ctx w)"

lemma length_xor_into [simp]: "length (xor_into out buf) = min (length out) (length buf)"
  by (simp add: xor_into_def)

lemma rdseed_layer_ok:
  assumes "chunk \<le> 64" "length out = chunk" "world_ok w"
  shows "\<exists>out' v. rdseed_layer cpu chunk out w = Some (out', v) \<and> length out' = chunk \<and> world_ok v \<and> same_sources w v"
proof -
  obtain out' g t where "sl_rdseed_read (rdseed_ins cpu) chunk out (seed_t w) = Some (out', int g, t)" "length out' = chunk"
    using rdrand_read_aux(2) [of chunk out] assms(1,2) by blast
  with assms show ?thesis by (auto simp: rdseed_layer_def world_ok_def same_sources_def Let_def)
qed

lemma rdrand_layer_ok:
  assumes "chunk \<le> 64" "length out = chunk" "world_ok w"
  shows "\<exists>out' v. rdrand_layer cpu chunk out w = Some (out', v) \<and> length out' = chunk \<and> world_ok v \<and> same_sources w v"
proof -
  obtain buf g t where "sl_rdrand_read (rdrand_ins cpu) chunk (replicate 64 0) (rand_t w) = Some (buf, int g, t)"
    "length buf = length (replicate 64 (0 :: u8))"
    using rdrand_read_aux(1) [of chunk "replicate 64 0"] assms(1) by auto blast
  with assms show ?thesis by (auto simp: rdrand_layer_def world_ok_def same_sources_def Let_def)
qed

lemma jitter_layer_ok:
  assumes "chunk \<le> 64" "length out = chunk" "world_ok w"
  shows "\<exists>out' v. jitter_layer cpu chunk out w = Some (out', v) \<and> length out' = chunk \<and> world_ok v \<and> same_sources w v"
proof (cases "g_jitter w")
  case None
  with assms show ?thesis
    by (simp add: jitter_layer_def sl_jitter_read_def ENODEV_def world_ok_def same_sources_def Let_def)
next
  case (Some js)
  then obtain buf r js' t where
    "jitter_read_loop (tsc_ins cpu) chunk 0 (replicate 64 0) js (tsc_t w) = Some (buf, r, js', t)"
    "jitter_ok js'" "stuck_count js' = 0" "length buf = length (replicate 64 (0 :: u8))"
    using jitter_read_loop_ok [of js 0 chunk "replicate 64 0" "tsc_ins cpu" "tsc_t w"] assms(1,3)
    by (auto simp: world_ok_def)
  with Some assms show ?thesis
    by (auto simp: jitter_layer_def sl_jitter_read_def world_ok_def same_sources_def Let_def)
qed

lemma entropy_chunk_ok:
  assumes "chunk \<le> 64" "world_ok w"
  shows "\<exists>out v. entropy_chunk cpu chunk w = Some (out, v) \<and> length out = chunk \<and> world_ok v \<and> same_sources w v"
proof -
  obtain o1 w1 where 1: "rdseed_layer cpu chunk (replicate chunk 0) w = Some (o1, w1)" "length o1 = chunk" "world_ok w1"
    "same_sources w w1" using rdseed_layer_ok [OF assms(1) _ assms(2)] by (metis length_replicate)
  obtain o2 w2 where 2: "rdrand_layer cpu chunk o1 w1 = Some (o2, w2)" "length o2 = chunk" "world_ok w2"
    "same_sources w1 w2" using rdrand_layer_ok [OF assms(1) 1(2,3)] by blast
  obtain o3 w3 where 3: "jitter_layer cpu chunk o2 w2 = Some (o3, w3)" "length o3 = chunk" "world_ok w3"
    "same_sources w2 w3" using jitter_layer_ok [OF assms(1) 2(2,3)] by blast
  show ?thesis using 1 2 3 by (auto simp: entropy_chunk_def same_sources_def)
qed

lemma health_loop_ret: "snd (health_loop xs ret hs) = ret \<or> snd (health_loop xs ret hs) = - EIO"
  by (induction xs arbitrary: ret hs) (auto simp: split_beta Let_def)

lemma health_test_ret: "snd (sl_health_test xs g) = 0 \<or> snd (sl_health_test xs g) = - EIO"
  using health_loop_ret [of xs 0] by (auto simp: sl_health_test_def split: option.split)

text \<open>A chunk followed by the slices after it.\<close>

lemma slice_extend:
  assumes "take (pos + k) b' = take (pos + k) b" "pos + k \<le> p"
  shows "take pos b' = take pos b"
    and "slice_of pos (p - pos) b' = slice_of pos k b @ slice_of (pos + k) (p - (pos + k)) b'"
proof -
  show "take pos b' = take pos b"
    using arg_cong [OF assms(1), of "take pos"] by (simp add: min_def)
  have "slice_of pos k b' = slice_of pos k b"
    using arg_cong [OF assms(1), of "drop pos"] by (simp add: slice_of_def drop_take)
  moreover have "p - pos = k + (p - (pos + k))" using assms(2) by simp
  ultimately show "slice_of pos (p - pos) b' = slice_of pos k b @ slice_of (pos + k) (p - (pos + k)) b'"
    unfolding slice_of_def by (metis drop_drop add.commute take_add)
qed

text \<open>
  The tests of a run: chunks with their verdicts, tested one after the other from the state \<open>hs\<close> of the
  detector to the state \<open>hs'\<close>.
\<close>

fun tested :: "health_state \<Rightarrow> (u8 list \<times> bool) list \<Rightarrow> health_state \<Rightarrow> bool" where
  "tested hs [] hs' \<longleftrightarrow> hs' = hs"
| "tested hs ((c, accepted) # ts) hs' \<longleftrightarrow>
     (case health_loop c 0 hs of (h, ret) \<Rightarrow> (accepted \<longleftrightarrow> ret = 0) \<and> tested h ts hs')"

lemma entropy_chunk_health: "entropy_chunk cpu chunk w = Some (out, v) \<Longrightarrow> g_health v = g_health w"
  by (auto simp: entropy_chunk_def rdseed_layer_def rdrand_layer_def jitter_layer_def Let_def
      split: Option.bind_splits if_splits)

text \<open>C26. Once the health tests are initialised, and whatever the processor answers, any number of rounds of
  the mixing read stays within the buffer and its working memory and leaves the bytes outside the range it
  was asked for alone.  The chunks that were mixed were tested one after the other from the state the
  detector was in, at most one in a round, and the bytes counted as delivered are exactly the chunks that
  were accepted, in their order: a rejected chunk is never part of them.\<close>

theorem entropy_read_sound:
  assumes "world_ok w" "g_health w = Some hs" "pos + remaining \<le> length buf"
  shows "\<exists>v p r buf'. entropy_read cpu n w pos remaining buf = Some (v, p, r, buf') \<and> pos \<le> p \<and> p + r = pos + remaining
    \<and> length buf' = length buf \<and> take pos buf' = take pos buf \<and> drop (pos + remaining) buf' = drop (pos + remaining) buf
    \<and> (\<exists>ts hs'. g_health v = Some hs' \<and> tested hs ts hs' \<and> length ts \<le> n
         \<and> slice_of pos (p - pos) buf' = concat (map fst (filter snd ts)))"
  using assms
proof (induction n arbitrary: w hs pos remaining buf)
  case 0
  then show ?case by (auto simp: slice_of_def intro: exI [of _ "[]"])
next
  case (Suc n)
  show ?case
  proof (cases "remaining = 0")
    case True
    with Suc.prems show ?thesis by (auto simp: slice_of_def intro!: exI [of _ "[]"])
  next
    case False
    define chunk where "chunk = min remaining 64"
    obtain out v where o: "entropy_chunk cpu chunk w = Some (out, v)" "length out = chunk" "world_ok v"
      using entropy_chunk_ok [OF _ Suc.prems(1), of chunk cpu] by (auto simp: chunk_def)
    have le: "pos + length out \<le> length buf" using Suc.prems(3) o(2) by (simp add: chunk_def)
    have b: "write_bytes pos out buf = Some (take pos buf @ out @ drop (pos + chunk) buf)"
      using le o(2) by (simp add: write_bytes_def)
    define buf1 where "buf1 = take pos buf @ out @ drop (pos + chunk) buf"
    have b1: "length buf1 = length buf" "take pos buf1 = take pos buf" "slice_of pos chunk buf1 = out"
      "drop (pos + remaining) buf1 = drop (pos + remaining) buf"
      using le o(2) by (simp_all add: buf1_def slice_of_def chunk_def add.commute)
    obtain h ret where loop: "health_loop out 0 hs = (h, ret)" by (cases "health_loop out 0 hs")
    have h: "sl_health_test out (g_health v) = (Some h, ret)"
      using entropy_chunk_health [OF o(1)] Suc.prems(2) loop by (simp add: sl_health_test_def)
    define v1 where "v1 = v\<lparr>g_health := Some h\<rparr>"
    show ?thesis
    proof (cases "ret < 0")
      case True
      let ?w = "v1\<lparr>ctx := (ctx v1)\<lparr>health_failures := health_failures (ctx v1) + 1\<rparr>\<rparr>"
      have "world_ok ?w" "g_health ?w = Some h" using o(3) by (simp_all add: world_ok_def v1_def)
      moreover have "entropy_read cpu (Suc n) w pos remaining buf = entropy_read cpu n ?w pos remaining buf1"
        using False o(1) b h True by (simp add: v1_def buf1_def flip: chunk_def)
      ultimately obtain u p r buf' ts hs' where r: "entropy_read cpu (Suc n) w pos remaining buf = Some (u, p, r, buf')"
        "pos \<le> p" "p + r = pos + remaining" "length buf' = length buf1" "take pos buf' = take pos buf1"
        "drop (pos + remaining) buf' = drop (pos + remaining) buf1" "g_health u = Some hs'" "tested h ts hs'"
        "length ts \<le> n" "slice_of pos (p - pos) buf' = concat (map fst (filter snd ts))"
        using Suc.IH [of ?w h pos remaining buf1] Suc.prems(3) b1(1) by auto
      have "tested hs ((out, False) # ts) hs'" "length ((out, False) # ts) \<le> Suc n"
        "slice_of pos (p - pos) buf' = concat (map fst (filter snd ((out, False) # ts)))"
        using r(8-10) loop True by simp_all
      with r(1-7) b1 show ?thesis by metis
    next
      case acc: False
      let ?w = "v1\<lparr>ctx := (ctx v1)\<lparr>bytes_generated := bytes_generated (ctx v1) + of_nat chunk\<rparr>\<rparr>"
      have "world_ok ?w" "g_health ?w = Some h" using o(3) by (simp_all add: world_ok_def v1_def)
      moreover have "entropy_read cpu (Suc n) w pos remaining buf
          = entropy_read cpu n ?w (pos + chunk) (remaining - chunk) buf1"
        using False o(1) b h acc by (simp add: v1_def buf1_def flip: chunk_def)
      moreover have "chunk \<le> remaining" by (simp add: chunk_def)
      ultimately obtain u p r buf' ts hs' where r: "entropy_read cpu (Suc n) w pos remaining buf = Some (u, p, r, buf')"
        "pos + chunk \<le> p" "p + r = pos + remaining" "length buf' = length buf1"
        "take (pos + chunk) buf' = take (pos + chunk) buf1" "drop (pos + remaining) buf' = drop (pos + remaining) buf1"
        "slice_of (pos + chunk) (p - (pos + chunk)) buf' = concat (map fst (filter snd ts))"
        "g_health u = Some hs'" "tested h ts hs'" "length ts \<le> n"
        using Suc.IH [of ?w h "pos + chunk" "remaining - chunk" buf1] Suc.prems(3) b1(1) by auto
      note x = slice_extend [OF r(5,2)]
      have "ret = 0" using h acc health_test_ret [of out "g_health v"] by (auto simp: EIO_def)
      then have "tested hs ((out, True) # ts) hs'" "length ((out, True) # ts) \<le> Suc n"
        using r(9,10) loop by simp_all
      moreover have "slice_of pos (p - pos) buf' = concat (map fst (filter snd ((out, True) # ts)))"
        "take pos buf' = take pos buf"
        using r(7) b1(2,3) x by auto
      moreover have "pos \<le> p" "length buf' = length buf" "drop (pos + remaining) buf' = drop (pos + remaining) buf"
        using r(2,4,6) b1 by simp_all
      ultimately show ?thesis using r(1,3,8) by metis
    qed
  qed
qed


subsection \<open>Sources that have failed\<close>

definition dead :: "u64 \<Rightarrow> processor" where
  "dead c = \<lparr>rdrand_ins = \<lambda>_. None, rdseed_ins = \<lambda>_. None, tsc_ins = \<lambda>_. c\<rparr>"

lemma retry_dead [simp]: "\<exists>u. retry n (\<lambda>_. None) t = (None, u)"
  by (induction n arbitrary: t) auto

lemma read_words_dead:
  assumes "\<exists>u. fetch t = (None, u)"
  shows "\<exists>u. read_words fetch want 0 out t = Some (out, 0, u)"
  using assms by (subst read_words.simps) auto

lemma rdrand_dead: "\<exists>u. sl_rdrand_read (\<lambda>_. None) want out t = Some (out, 0, u)"
  "\<exists>u. sl_rdseed_read (\<lambda>_. None) want out t = Some (out, 0, u)"
  using read_words_dead [of "rdrand64_retry (\<lambda>_. None)" t want out] read_words_dead [of "rdseed64_retry (\<lambda>_. None)" t want out]
  by (auto simp: sl_rdrand_read_def sl_rdseed_read_def rdrand64_retry_def rdseed64_retry_def int_cast_small)

lemma jitter_read_dead:
  assumes "jitter_ok js" "stuck_count js = 0"
  shows "\<exists>r js' u. jitter_read_loop (\<lambda>_. c) want 0 out js t = Some (out, r, js', u) \<and> jitter_ok js' \<and> stuck_count js' = 0 \<and> r \<le> 0"
proof (cases "0 < want")
  case False
  then show ?thesis using assms by (subst jitter_read_loop.simps) (simp add: int_cast_small)
next
  case True
  obtain js' where "jitter_collect_round (\<lambda>_. c) js t = Some (js', - EIO, t + 22)" "jitter_ok js'" "stuck_count js' = 0"
    using collect_frozen [OF assms, of 0 64 c t] by (auto simp: jitter_collect_round_def JITTER_LOOPS_def)
  with True show ?thesis by (subst jitter_read_loop.simps) (simp add: Let_def EIO_def)
qed

lemma entropy_chunk_dead:
  assumes "world_ok w"
  shows "\<exists>v. entropy_chunk (dead c) chunk w = Some (replicate chunk 0, v) \<and> world_ok v \<and> g_health v = g_health w"
proof -
  obtain w1 where 1: "rdseed_layer (dead c) chunk (replicate chunk 0) w = Some (replicate chunk 0, w1)" "world_ok w1"
    "g_health w1 = g_health w"
    using rdrand_dead(2) [of chunk "replicate chunk 0" "seed_t w"] assms
    by (cases "has_rdseed (ctx w)") (auto simp: rdseed_layer_def dead_def world_ok_def Let_def)
  obtain w2 where 2: "rdrand_layer (dead c) chunk (replicate chunk 0) w1 = Some (replicate chunk 0, w2)" "world_ok w2"
    "g_health w2 = g_health w"
    using rdrand_dead(1) [of chunk "replicate 64 0" "rand_t w1"] 1(2,3)
    by (cases "has_rdrand (ctx w1)") (auto simp: rdrand_layer_def dead_def world_ok_def Let_def)
  obtain w3 where 3: "jitter_layer (dead c) chunk (replicate chunk 0) w2 = Some (replicate chunk 0, w3)" "world_ok w3"
    "g_health w3 = g_health w"
  proof (cases "has_jitter (ctx w2)")
    case False
    with 2(2,3) that [of w2] show ?thesis by (simp add: jitter_layer_def)
  next
    case True
    show ?thesis
    proof (cases "g_jitter w2")
      case None
      with True 2(2,3) that [of w2] show ?thesis
        by (simp add: jitter_layer_def sl_jitter_read_def ENODEV_def Let_def dead_def)
    next
      case (Some js)
      then obtain r js' u where "jitter_read_loop (\<lambda>_. c) chunk 0 (replicate 64 0) js (tsc_t w2) = Some (replicate 64 0, r, js', u)"
        "jitter_ok js'" "stuck_count js' = 0" "r \<le> 0"
        using jitter_read_dead [of js c chunk "replicate 64 0" "tsc_t w2"] 2(2) by (auto simp: world_ok_def)
      with True Some 2(2,3) that [of "w2\<lparr>g_jitter := Some js', tsc_t := u\<rparr>"] show ?thesis
        by (simp add: jitter_layer_def sl_jitter_read_def Let_def dead_def world_ok_def)
    qed
  qed
  show ?thesis using 1 2 3 by (simp add: entropy_chunk_def)
qed

text \<open>Seven equal samples in a row fail whatever the detector has seen before, wrapped counter included.\<close>

lemma health_loop_failed: "snd (health_loop xs (- EIO) hs) = - EIO"
  using health_loop_ret [of xs "- EIO" hs] by simp

lemma adaptive_keeps_rep:
  "rep_last_sample (fst (adaptive_proportion_test x hs)) = rep_last_sample hs
    \<and> rep_count (fst (adaptive_proportion_test x hs)) = rep_count hs"
  by (simp add: adaptive_proportion_test_def Let_def)

lemma health_sample_repeat:
  assumes "rep_last_sample hs = x"
  shows "rep_last_sample (fst (health_sample x hs)) = x" "rep_count (fst (health_sample x hs)) = rep_count hs + 1"
    "fst (snd (health_sample x hs)) < 0 \<longleftrightarrow> rep_count hs + 1 \<ge> 6"
  using assms adaptive_keeps_rep
  by (auto simp: health_sample_def repetition_count_test_def REP_COUNT_CUTOFF_def split_beta Let_def)

lemma repeat_rejected:
  assumes "rep_last_sample hs = x" "unat (rep_count hs) < 6" "6 \<le> unat (rep_count hs) + n"
  shows "snd (health_loop (replicate n x) ret hs) = - EIO"
  using assms
proof (induction n arbitrary: hs ret)
  case (Suc n)
  obtain hs' r a where s: "health_sample x hs = (hs', r, a)" by (metis prod.exhaust)
  have "unat (rep_count hs + 1) = unat (rep_count hs) + 1"
    using Suc.prems(2) by (simp add: unat_word_ariths)
  then have r: "r < 0 \<longleftrightarrow> unat (rep_count hs) = 5" "rep_last_sample hs' = x" "unat (rep_count hs') = unat (rep_count hs) + 1"
    using health_sample_repeat [OF Suc.prems(1)] s Suc.prems(2) by (auto simp: word_le_nat_alt)
  show ?case
  proof (cases "r < 0")
    case True
    with s show ?thesis by (simp add: health_loop_failed)
  next
    case False
    then show ?thesis using Suc.IH [OF r(2), of "if r < 0 \<or> a < 0 then - EIO else ret"] r s Suc.prems by simp
  qed
qed simp

lemma seven_rejected:
  assumes "7 \<le> n"
  shows "\<exists>h. sl_health_test (replicate n x) (Some hs) = (Some h, - EIO)"
proof -
  obtain m where m: "n = Suc m" "6 \<le> m" using assms by (cases n) auto
  obtain hs' r a where s: "health_sample x hs = (hs', r, a)" by (metis prod.exhaust)
  have "snd (health_loop (replicate n x) 0 hs) = - EIO"
  proof (cases "r < 0 \<or> a < 0")
    case True
    with s m show ?thesis by (simp add: health_loop_failed)
  next
    case False
    have "rep_last_sample hs' = x \<and> unat (rep_count hs') < 6"
    proof (cases "rep_last_sample hs = x")
      case True
      with health_sample_repeat [OF True] s False show ?thesis by (auto simp: word_le_nat_alt not_le)
    next
      case no: False
      then have "rep_last_sample (fst (health_sample x hs)) = x \<and> rep_count (fst (health_sample x hs)) = 1"
        using adaptive_keeps_rep by (simp add: health_sample_def repetition_count_test_def split_beta Let_def)
      with s show ?thesis by simp
    qed
    with s m repeat_rejected [of hs' x m "if r < 0 \<or> a < 0 then - EIO else 0"] show ?thesis by simp
  qed
  then show ?thesis
    by (cases "health_loop (replicate n x) 0 hs") (auto simp: sl_health_test_def)
qed


text \<open>C39. When every source has failed (no instruction succeeds, the counter stands still), a read of seven or
  more bytes never returns: however many rounds it makes, each mixes zeros, the health tests reject them
  whatever they have seen before, and the loop tries again, with the lock held.\<close>

theorem entropy_read_hangs:
  assumes "world_ok w" "g_health w = Some hs" "7 \<le> remaining" "pos + remaining \<le> length buf"
  shows "\<exists>v buf'. entropy_read (dead c) n w pos remaining buf = Some (v, pos, remaining, buf')"
  using assms(1,2,4)
proof (induction n arbitrary: w hs buf)
  case (Suc n)
  define chunk where "chunk = min remaining 64"
  obtain v where v: "entropy_chunk (dead c) chunk w = Some (replicate chunk 0, v)" "world_ok v" "g_health v = Some hs"
    using entropy_chunk_dead [OF Suc.prems(1)] Suc.prems(2) by metis
  have "pos + length (replicate chunk (0 :: u8)) \<le> length buf" using Suc.prems(3) by (simp add: chunk_def)
  from write_bytes_ex [OF this] obtain buf1
    where b: "write_bytes pos (replicate chunk 0) buf = Some buf1" "length buf1 = length buf" by blast
  obtain h where h: "sl_health_test (replicate chunk 0) (Some hs) = (Some h, - EIO)"
    using seven_rejected [of chunk 0 hs] assms(3) by (auto simp: chunk_def)
  let ?w = "v\<lparr>g_health := Some h, ctx := (ctx v)\<lparr>health_failures := health_failures (ctx v) + 1\<rparr>\<rparr>"
  have "entropy_read (dead c) (Suc n) w pos remaining buf = entropy_read (dead c) n ?w pos remaining buf1"
    using assms(3) v b(1) h by (simp add: EIO_def flip: chunk_def)
  moreover have "world_ok ?w" "g_health ?w = Some h" using v(2) by (simp_all add: world_ok_def)
  ultimately show ?case using Suc.IH [of ?w h buf1] Suc.prems(3) b(2) by metis
qed simp

text \<open>A read of four bytes right after initialisation, however, delivers four zeros as entropy.\<close>

lemma entropy_read_zeros:
  assumes "world_ok w" "g_health w = Some fresh_health"
  shows "\<exists>v. entropy_read (dead c) 1 w 0 4 [1, 2, 3, 4] = Some (v, 4, 0, [0, 0, 0, 0])"
proof -
  have four: "min 4 64 = (4 :: nat)" "replicate 4 (0 :: u8) = [0, 0, 0, 0]" by (simp, simp add: numeral_eq_Suc)
  obtain v where v: "entropy_chunk (dead c) 4 w = Some ([0, 0, 0, 0], v)" "g_health v = Some fresh_health"
    using entropy_chunk_dead [OF assms(1)] assms(2) four(2) by metis
  have "snd (sl_health_test [0, 0, 0, 0] (Some fresh_health)) = 0" by code_simp
  then obtain h where "sl_health_test [0, 0, 0, 0] (g_health v) = (h, 0)" using v(2) by (metis prod.collapse)
  with v(1) show ?thesis unfolding One_nat_def entropy_read.simps four by (simp add: write_bytes_def)
qed

definition idle_world :: entropy_world where
  "idle_world = \<lparr>ctx = \<lparr>has_rdrand = True, has_rdseed = True, has_jitter = False, bytes_generated = 0,
      rdrand_calls = 0, rdseed_calls = 0, jitter_calls = 0, health_failures = 0\<rparr>,
    g_health = Some fresh_health, g_jitter = None, rand_t = 0, seed_t = 0, tsc_t = 0\<rparr>"

lemma entropy_read_hangs_witness:
  "\<exists>v buf'. entropy_read (dead 0) 1000 idle_world 0 8 [0, 0, 0, 0, 0, 0, 0, 0] = Some (v, 0, 8, buf')"
  by (rule entropy_read_hangs [of _ fresh_health]) (simp_all add: idle_world_def world_ok_def)

lemma entropy_read_sound_witness:
  "\<exists>v p r buf'. entropy_read (dead 7) 3 idle_world 1 2 [9, 9, 9, 9] = Some (v, p, r, buf') \<and> take 1 buf' = [9]"
  using entropy_read_sound [of idle_world fresh_health 1 2 "[9, 9, 9, 9]" "dead 7" 3]
  by (simp add: idle_world_def world_ok_def) blast

definition small_jitter :: jitter_state where
  "small_jitter = \<lparr>prev_time = 0, last_delta = 0, last_delta2 = 0, entropy_pool = 0,
     jitter_mem = replicate 64 0, mem_size = 64, stuck_count = 0\<rparr>"

lemma constant_timer_accepted_witness:
  "\<exists>js' t'. jitter_collect_round (\<lambda>n. of_nat n * 2) small_jitter 0 = Some (js', 0, t') \<and> stuck_count js' = 0"
  using constant_timer_accepted [of small_jitter 0] by (simp add: small_jitter_def jitter_ok_def)

lemma rdrand_read_spec_witness:
  "\<exists>out' g t'. sl_rdrand_read (\<lambda>n. Some 5) 3 [1, 2, 3, 4] 0 = Some (out', int g, t') \<and> g = 3 \<and> drop 3 out' = [4]"
proof -
  have "\<not> (\<forall>i<(10 :: nat). Some 5 = (None :: u64 option))" by (auto intro: exI [of _ 0])
  then show ?thesis using rdrand_read_spec [of 3 "[1, 2, 3, 4]" "\<lambda>n. Some 5" 0] by auto
qed

end
