(* ===== verification/Fabric_Graph.thy ===== *)
theory Fabric_Graph
  imports Prelude "HOL-Library.List_Lexorder" "HOL-Library.Product_Lexorder" "HOL-Library.Char_ord"
begin

text \<open>
  The device topology of the fabric service (\<open>services/fabric/topology.h\<close>): nodes, edges stored in both
  directions, the adjacency index, lookups and the fuzzy name match.  Bandwidths and latencies are values
  of a linear order \<open>'d\<close>; the order in which \<open>unordered_map\<close> iterates is an argument (a listing of the
  keys).  Scanning \<open>/sys\<close> and the JSON text are not modelled.
\<close>

subsection \<open>Data\<close>

datatype device_type = CPU | GPU | NVMe | NIC | USB | DeviceMemory | PCIeSwitch | PCIeRoot | NUMANode | CacheLevel | UnknownDevice

fun device_type_str :: "device_type \<Rightarrow> string" where
  "device_type_str CPU = ''cpu''"
| "device_type_str GPU = ''gpu''"
| "device_type_str NVMe = ''nvme''"
| "device_type_str NIC = ''nic''"
| "device_type_str USB = ''usb''"
| "device_type_str DeviceMemory = ''memory''"
| "device_type_str PCIeSwitch = ''pcie_switch''"
| "device_type_str PCIeRoot = ''pcie_root''"
| "device_type_str NUMANode = ''numa_node''"
| "device_type_str CacheLevel = ''cache''"
| "device_type_str UnknownDevice = ''unknown''"

definition device_type_from_str :: "string \<Rightarrow> device_type" where
  "device_type_from_str s =
     (if s = ''cpu'' then CPU
      else if s = ''gpu'' then GPU
      else if s = ''nvme'' then NVMe
      else if s = ''nic'' then NIC
      else if s = ''usb'' then USB
      else if s = ''memory'' then DeviceMemory
      else if s = ''pcie_switch'' then PCIeSwitch
      else if s = ''pcie_root'' then PCIeRoot
      else if s = ''numa_node'' then NUMANode
      else if s = ''cache'' then CacheLevel
      else UnknownDevice)"

datatype link_type = L_PCIe | L_NVLink | L_Network | L_USB | L_SATA | L_MemoryBus | L_CacheBus | L_InterSocket | L_Unknown

fun link_type_str :: "link_type \<Rightarrow> string" where
  "link_type_str L_PCIe = ''pcie''"
| "link_type_str L_NVLink = ''nvlink''"
| "link_type_str L_Network = ''network''"
| "link_type_str L_USB = ''usb''"
| "link_type_str L_SATA = ''sata''"
| "link_type_str L_MemoryBus = ''memory_bus''"
| "link_type_str L_CacheBus = ''cache_bus''"
| "link_type_str L_InterSocket = ''inter_socket''"
| "link_type_str L_Unknown = ''unknown''"

record 'd device_node =
  node_id :: string
  node_type :: device_type
  node_name :: string
  node_properties :: "string \<rightharpoonup> string"
  node_bandwidth :: 'd
  node_latency :: 'd
  capacity_bytes :: u64
  numa_node :: int

record 'd topology_edge =
  edge_from :: string
  edge_to :: string
  edge_bandwidth :: 'd
  edge_latency :: 'd
  edge_type :: link_type

record 'd topology =
  nodes :: "string \<rightharpoonup> 'd device_node"
  edges :: "'d topology_edge list"
  adjacency :: "string \<rightharpoonup> nat list"

definition new_topology :: "'d topology" where
  "new_topology = \<lparr>nodes = Map.empty, edges = [], adjacency = Map.empty\<rparr>"

subsection \<open>Building\<close>

definition push_index :: "string \<Rightarrow> nat \<Rightarrow> (string \<rightharpoonup> nat list) \<Rightarrow> (string \<rightharpoonup> nat list)" where
  "push_index u i adj = adj(u \<mapsto> (case adj u of None \<Rightarrow> [i] | Some is \<Rightarrow> is @ [i]))"

definition topo_add_node :: "'d device_node \<Rightarrow> 'd topology \<Rightarrow> 'd topology" where
  "topo_add_node n t = t\<lparr>nodes := (nodes t)(node_id n \<mapsto> n)\<rparr>"

definition reverse_edge :: "'d topology_edge \<Rightarrow> 'd topology_edge" where
  "reverse_edge e = e\<lparr>edge_from := edge_to e, edge_to := edge_from e\<rparr>"

definition add_edge :: "'d topology_edge \<Rightarrow> 'd topology \<Rightarrow> 'd topology" where
  "add_edge e t =
     (let t = t\<lparr>edges := edges t @ [e]\<rparr>;
          t = t\<lparr>adjacency := push_index (edge_from e) (length (edges t) - 1) (adjacency t)\<rparr>;
          rev = reverse_edge e;
          t = t\<lparr>edges := edges t @ [rev]\<rparr>
      in t\<lparr>adjacency := push_index (edge_from rev) (length (edges t) - 1) (adjacency t)\<rparr>)"

fun index_edges :: "nat \<Rightarrow> 'd topology_edge list \<Rightarrow> (string \<rightharpoonup> nat list) \<Rightarrow> (string \<rightharpoonup> nat list)" where
  "index_edges i [] adj = adj"
| "index_edges i (e # es) adj = index_edges (Suc i) es (push_index (edge_from e) i adj)"

definition build_adjacency :: "'d topology \<Rightarrow> 'd topology" where
  "build_adjacency t = t\<lparr>adjacency := index_edges 0 (edges t) Map.empty\<rparr>"

definition topo_remove_node :: "string \<Rightarrow> 'd topology \<Rightarrow> 'd topology" where
  "topo_remove_node i t = build_adjacency (t\<lparr>nodes := (nodes t)(i := None),
     edges := filter (\<lambda>e. \<not> (edge_from e = i \<or> edge_to e = i)) (edges t)\<rparr>)"

subsection \<open>Lookups\<close>

definition get_all_nodes :: "string list \<Rightarrow> 'd topology \<Rightarrow> 'd device_node list" where
  "get_all_nodes ord t = List.map_filter (nodes t) ord"

definition get_all_edges :: "'d topology \<Rightarrow> 'd topology_edge list" where
  "get_all_edges t = edges t"

definition topo_get_node :: "string \<Rightarrow> 'd topology \<Rightarrow> string + 'd device_node" where
  "topo_get_node i t = (case nodes t i of None \<Rightarrow> Inl (''device not found: '' @ i) | Some n \<Rightarrow> Inr n)"

definition get_by_type :: "string list \<Rightarrow> device_type \<Rightarrow> 'd topology \<Rightarrow> 'd device_node list" where
  "get_by_type ord ty t = filter (\<lambda>n. node_type n = ty) (get_all_nodes ord t)"

definition edge_count :: "'d topology \<Rightarrow> nat" where
  "edge_count t = length (edges t) div 2"

definition tolower :: "char \<Rightarrow> char" where
  "tolower c = (if CHR ''A'' \<le> c \<and> c \<le> CHR ''Z'' then char_of (of_char c + 32 :: nat) else c)"

text \<open>\<open>std::string::find\<close> of a substring.\<close>

fun contains :: "string \<Rightarrow> string \<Rightarrow> bool" where
  "contains p [] \<longleftrightarrow> p = []"
| "contains p (c # s) \<longleftrightarrow> take (length p) (c # s) = p \<or> contains p s"

text \<open>One string against the query: the score divides by its length, which is undefined for an empty one.\<close>

definition match_score :: "string \<Rightarrow> string \<Rightarrow> string \<Rightarrow> string \<times> nat \<Rightarrow> (string \<times> nat) option" where
  "match_score q i s best =
     (if contains q s
      then if s = [] then None
        else let score = length q * 100 div length s in Some (if score > snd best then (i, score) else best)
      else Some best)"

fun best_match :: "string \<Rightarrow> (string \<rightharpoonup> 'd device_node) \<Rightarrow> string list \<Rightarrow> string \<times> nat \<Rightarrow> (string \<times> nat) option" where
  "best_match q ns [] best = Some best"
| "best_match q ns (i # ids) best =
     (case ns i of None \<Rightarrow> best_match q ns ids best
      | Some n \<Rightarrow> do {
          best \<leftarrow> match_score q i (map tolower (node_name n)) best;
          best \<leftarrow> match_score q i (map tolower i) best;
          best_match q ns ids
            (if q = device_type_str (node_type n) \<and> snd best = 0 then (i, 1) else best) })"

definition resolve_device :: "string list \<Rightarrow> string \<Rightarrow> 'd topology \<Rightarrow> (string + string) option" where
  "resolve_device ord query t =
     (if nodes t query \<noteq> None then Some (Inr query)
      else map_option (\<lambda>best. if fst best = [] then Inl (''cannot resolve: '' @ query) else Inr (fst best))
        (best_match (map tolower query) (nodes t) ord ([], 0)))"

subsection \<open>The index and the edges\<close>

definition index_ok :: "'d topology \<Rightarrow> bool" where
  "index_ok t \<longleftrightarrow> (\<forall>u. adjacency t u = (let is = filter (\<lambda>i. edge_from (edges t ! i) = u) [0..<length (edges t)]
     in if is = [] then None else Some is))"

text \<open>Every edge is stored together with its reverse.\<close>

definition symmetric :: "'d topology \<Rightarrow> bool" where
  "symmetric t \<longleftrightarrow> (\<forall>e \<in> set (edges t). reverse_edge e \<in> set (edges t))"

definition indexed :: "'d topology_edge list \<Rightarrow> string \<rightharpoonup> nat list" where
  "indexed es u = (let is = filter (\<lambda>i. edge_from (es ! i) = u) [0..<length es] in if is = [] then None else Some is)"

lemma index_ok_iff: "index_ok t \<longleftrightarrow> adjacency t = indexed (edges t)"
  by (auto simp: index_ok_def indexed_def fun_eq_iff)

lemma push_indexed: "push_index (edge_from e) (length es) (indexed es) = indexed (es @ [e])"
proof
  fix u
  have "filter (\<lambda>i. edge_from ((es @ [e]) ! i) = u) [0..<length es] = filter (\<lambda>i. edge_from (es ! i) = u) [0..<length es]"
    by (rule filter_cong) (simp_all add: nth_append)
  then show "push_index (edge_from e) (length es) (indexed es) u = indexed (es @ [e]) u"
    by (simp add: push_index_def indexed_def Let_def)
qed

lemma index_edges_indexed: "index_edges (length es) fs (indexed es) = indexed (es @ fs)"
proof (induction fs arbitrary: es)
  case (Cons f fs)
  from Cons.IH [of "es @ [f]"] show ?case by (simp add: push_indexed)
qed simp

lemma build_adjacency_ok:
  fixes t :: "'d topology"
  shows "index_ok (build_adjacency t)"
proof -
  have "indexed ([] :: 'd topology_edge list) = Map.empty" by (rule ext) (simp add: indexed_def)
  with index_edges_indexed [of "[]" "edges t"] have "index_edges 0 (edges t) Map.empty = indexed (edges t)"
    by (simp only: list.size append_Nil)
  then show ?thesis by (simp add: index_ok_iff build_adjacency_def)
qed

lemma add_edge_ok: "index_ok t \<Longrightarrow> index_ok (add_edge e t)"
  using push_indexed [of e "edges t"] push_indexed [of "reverse_edge e" "edges t @ [e]"]
  by (simp add: index_ok_iff add_edge_def Let_def)

lemma topo_add_node_ok: "index_ok t \<Longrightarrow> index_ok (topo_add_node n t)"
  by (simp add: index_ok_def topo_add_node_def)

lemma new_topology_ok: "index_ok new_topology"
  by (simp add: index_ok_def new_topology_def)

lemma reverse_reverse [simp]: "reverse_edge (reverse_edge e) = e"
  by (simp add: reverse_edge_def)

lemma index_ok_edges:
  "index_ok t \<Longrightarrow> (case adjacency t u of None \<Rightarrow> {} | Some is \<Rightarrow> set is) = {i. i < length (edges t) \<and> edge_from (edges t ! i) = u}"
  by (auto simp: index_ok_def Let_def filter_empty_conv)

datatype 'd topology_op = AddNode "'d device_node" | AddEdge "'d topology_edge" | RemoveNode string

fun topology_step :: "'d topology \<Rightarrow> 'd topology_op \<Rightarrow> 'd topology option" where
  "topology_step t (AddNode n) = Some (topo_add_node n t)"
| "topology_step t (AddEdge e) = Some (add_edge e t)"
| "topology_step t (RemoveNode i) = Some (topo_remove_node i t)"

definition topology_inv :: "'d topology \<Rightarrow> bool" where
  "topology_inv t \<longleftrightarrow> index_ok t \<and> symmetric t \<and> (\<forall>i n. nodes t i = Some n \<longrightarrow> node_id n = i)"

lemma symmetric_add_edge: "symmetric t \<Longrightarrow> symmetric (add_edge e t)"
  by (auto simp: symmetric_def add_edge_def Let_def)

lemma symmetric_topo_remove_node: "symmetric t \<Longrightarrow> symmetric (topo_remove_node i t)"
  by (auto simp: symmetric_def topo_remove_node_def build_adjacency_def reverse_edge_def)

interpretation topo: safe_machine topology_step topology_inv "\<lambda>_ _. True"
proof
  fix t :: "'d topology" and e
  assume t: "topology_inv t"
  show "succeeds (topology_step t e) topology_inv"
  proof (cases e)
    case (AddNode n)
    with t show ?thesis by (simp add: topology_inv_def topo_add_node_def index_ok_def symmetric_def)
  next
    case (AddEdge x)
    moreover have "nodes (add_edge x t) = nodes t" by (simp add: add_edge_def Let_def)
    ultimately show ?thesis using t by (simp add: topology_inv_def add_edge_ok symmetric_add_edge)
  next
    case (RemoveNode i)
    moreover have "index_ok (topo_remove_node i t)" by (simp add: topo_remove_node_def build_adjacency_ok)
    moreover have "nodes (topo_remove_node i t) = (nodes t)(i := None)" by (simp add: topo_remove_node_def build_adjacency_def)
    ultimately show ?thesis using t by (simp add: topology_inv_def symmetric_topo_remove_node)
  qed
qed

text \<open>After any sequence of additions and removals the adjacency index lists, for each node, exactly the
  indices of the edges that leave it, every edge is stored together with its reverse, and a node is filed
  under its own id.\<close>

theorem topology_consistent: "succeeds (run topology_step new_topology ops) topology_inv"
proof -
  have "topology_inv new_topology" by (simp add: topology_inv_def index_ok_def symmetric_def new_topology_def)
  moreover have "run_ok topology_step (\<lambda>_ _. True) t ops" for t
    by (induction ops arbitrary: t) (auto split: option.split)
  ultimately show ?thesis by (rule topo.run_safe)
qed

lemma topo_remove_node_gone:
  "nodes (topo_remove_node i t) i = None \<and> (\<forall>e \<in> set (edges (topo_remove_node i t)). edge_from e \<noteq> i \<and> edge_to e \<noteq> i)"
  by (simp add: topo_remove_node_def build_adjacency_def)

subsection \<open>Names\<close>

lemma device_type_roundtrip: "device_type_from_str (device_type_str ty) = ty"
  by (cases ty) (simp_all add: device_type_from_str_def)

lemma contains_nonempty: "contains p s \<Longrightarrow> p \<noteq> [] \<Longrightarrow> s \<noteq> []"
  by (cases s) auto

lemma match_score_defined: "q \<noteq> [] \<Longrightarrow> succeeds (match_score q i s best) (\<lambda>b. b = best \<or> fst b = i)"
  by (auto simp: match_score_def Let_def dest: contains_nonempty)

lemma best_match_defined:
  "q \<noteq> [] \<Longrightarrow> succeeds (best_match q ns ids best) (\<lambda>b. fst b = fst best \<or> ns (fst b) \<noteq> None)"
proof (induction ids arbitrary: best)
  case (Cons i ids)
  show ?case
  proof (cases "ns i")
    case (Some n)
    obtain b where b: "match_score q i (map tolower (node_name n)) best = Some b" "b = best \<or> fst b = i"
      using match_score_defined [OF Cons.prems, of i "map tolower (node_name n)" best] by (auto simp: succeeds_iff)
    obtain c where c: "match_score q i (map tolower i) b = Some c" "c = b \<or> fst c = i"
      using match_score_defined [OF Cons.prems, of i "map tolower i" b] by (auto simp: succeeds_iff)
    define d where "d = (if q = device_type_str (node_type n) \<and> snd c = 0 then (i, 1) else c)"
    have "fst d = fst best \<or> fst d = i" using b(2) c(2) by (auto simp: d_def)
    then have "succeeds (best_match q ns ids d) (\<lambda>b. fst b = fst best \<or> ns (fst b) \<noteq> None)"
      using Some by (auto intro: succeeds_mono [OF Cons.IH [OF Cons.prems, of d]])
    then show ?thesis using Some b(1) c(1) by (simp add: d_def)
  qed (use Cons.IH [OF Cons.prems, of best] in simp)
qed simp

text \<open>Resolving a device by a query that is not empty never divides by zero, prefers the exact id, and
  answers only ids of existing nodes.\<close>

theorem resolve_device_sound:
  assumes "query \<noteq> []" "nodes t [] = None"
  shows "succeeds (resolve_device ord query t) (\<lambda>r. (nodes t query \<noteq> None \<longrightarrow> r = Inr query)
    \<and> (\<forall>i. r = Inr i \<longrightarrow> nodes t i \<noteq> None))"
proof -
  have "map tolower query \<noteq> []" using assms(1) by simp
  from best_match_defined [OF this, of "nodes t" ord "([], 0)"] obtain b
    where "best_match (map tolower query) (nodes t) ord ([], 0) = Some b" "fst b = [] \<or> nodes t (fst b) \<noteq> None"
    by (auto simp: succeeds_iff)
  then show ?thesis using assms(2) by (auto simp: resolve_device_def)
qed

definition unnamed :: "nat device_node" where
  "unnamed = \<lparr>node_id = ''pci'', node_type = NIC, node_name = [], node_properties = Map.empty, node_bandwidth = 0,
     node_latency = 0, capacity_bytes = 0, numa_node = -1\<rparr>"

lemma resolve_device_sound_witness:
  "succeeds (resolve_device [''pci''] ''PC'' (topo_add_node unnamed new_topology)) (\<lambda>r. \<forall>i. r = Inr i \<longrightarrow> i = ''pci'')"
  using resolve_device_sound [of "''PC''" "topo_add_node unnamed new_topology" "[''pci'']"]
  by (auto simp: succeeds_iff topo_add_node_def new_topology_def unnamed_def split: if_splits)

text \<open>An empty query divides by the length of an empty name.\<close>

lemma resolve_device_empty: "resolve_device [''pci''] [] (topo_add_node unnamed new_topology) = None"
  by (simp add: resolve_device_def match_score_def topo_add_node_def new_topology_def unnamed_def)

end
