(* ===== verification/Fabric_Search.thy ===== *)
theory Fabric_Search
  imports Fabric_Graph
begin

text \<open>
  Path search in the device topology (\<open>services/fabric/topology.h\<close>): Dijkstra's algorithm by latency and
  the widest path by bandwidth, with lazy deletion from the priority queue.  A priority queue is a list of
  its entries, of which \<open>pick\<close> takes a best one; entries are totally ordered, so that the layout of the
  heap cannot be observed.  \<open>double\<close> is any linear order; the sum of two latencies, zero and the largest
  value are parameters.
\<close>

subsection \<open>The search\<close>

record 'd search =
  tab :: "string \<Rightarrow> 'd"
  prev_node :: "string \<Rightarrow> string"
  prev_edge :: "string \<Rightarrow> nat"
  pq :: "('d \<times> string) list"

record 'd topology_path =
  hops :: "'d topology_edge list"
  total_latency :: 'd
  bottleneck_bw :: 'd

text \<open>The body of the inner loop for one adjacent edge, and the inner loop.\<close>

definition relax_edge :: "('d \<Rightarrow> 'd \<Rightarrow> bool) \<Rightarrow> ('d \<Rightarrow> 'd topology_edge \<Rightarrow> 'd) \<Rightarrow> 'd topology_edge list
    \<Rightarrow> string \<Rightarrow> nat \<Rightarrow> 'd search \<Rightarrow> 'd search option" where
  "relax_edge before ext es u ei s =
     (if length es \<le> ei then None
      else
        let e = es ! ei; new = ext (tab s u) e in
        Some (if before new (tab s (edge_to e))
              then s\<lparr>tab := (tab s)(edge_to e := new), prev_node := (prev_node s)(edge_to e := u),
                prev_edge := (prev_edge s)(edge_to e := ei), pq := (new, edge_to e) # pq s\<rparr>
              else s))"

fun relax_all :: "('d \<Rightarrow> 'd \<Rightarrow> bool) \<Rightarrow> ('d \<Rightarrow> 'd topology_edge \<Rightarrow> 'd) \<Rightarrow> 'd topology_edge list
    \<Rightarrow> string \<Rightarrow> nat list \<Rightarrow> 'd search \<Rightarrow> 'd search option" where
  "relax_all before ext es u [] s = Some s"
| "relax_all before ext es u (ei # is) s = relax_edge before ext es u ei s \<bind> relax_all before ext es u is"

partial_function (option) search_loop :: "('d \<Rightarrow> 'd \<Rightarrow> bool) \<Rightarrow> (('d \<times> string) list \<Rightarrow> 'd \<times> string)
    \<Rightarrow> ('d \<Rightarrow> 'd topology_edge \<Rightarrow> 'd) \<Rightarrow> 'd topology_edge list \<Rightarrow> (string \<rightharpoonup> nat list) \<Rightarrow> string
    \<Rightarrow> 'd search \<Rightarrow> 'd search option" where
  "search_loop before pick ext es adj target s =
     (if pq s = [] then Some s
      else
        let (d, u) = pick (pq s); s = s\<lparr>pq := remove1 (d, u) (pq s)\<rparr> in
        if before (tab s u) d then search_loop before pick ext es adj target s
        else if u = target then Some s
        else case adj u of None \<Rightarrow> search_loop before pick ext es adj target s
          | Some is \<Rightarrow> relax_all before ext es u is s \<bind> search_loop before pick ext es adj target)"

text \<open>Walking back from the target; \<open>measured\<close> is what the loop accumulates along the way.\<close>

partial_function (option) rebuild :: "'d topology_edge list \<Rightarrow> ('d \<Rightarrow> 'd topology_edge \<Rightarrow> 'd) \<Rightarrow> 'd search
    \<Rightarrow> string \<Rightarrow> string \<Rightarrow> 'd topology_edge list \<Rightarrow> 'd \<Rightarrow> ('d topology_edge list \<times> 'd) option" where
  "rebuild es measured s source current hs acc =
     (if current = source then Some (hs, acc)
      else
        let ei = prev_edge s current in
        if length es \<le> ei then None
        else rebuild es measured s source (prev_node s current) (es ! ei # hs) (measured acc (es ! ei)))"

text \<open>The table a search starts from; reading an id that is not in it gives zero.\<close>

definition open_table :: "'d \<Rightarrow> 'd \<Rightarrow> 'd topology \<Rightarrow> string \<Rightarrow> string \<Rightarrow> 'd" where
  "open_table zero highest t source = (\<lambda>i. if nodes t i \<noteq> None then highest else zero)(source := zero)"

definition find_path :: "('d :: linorder) \<Rightarrow> 'd \<Rightarrow> ('d \<Rightarrow> 'd \<Rightarrow> 'd) \<Rightarrow> string \<Rightarrow> string \<Rightarrow> 'd topology
    \<Rightarrow> (string + 'd topology_path) option" where
  "find_path zero highest add source sink t =
     (if nodes t source = None then Some (Inl (''source not found: '' @ source))
      else if nodes t sink = None then Some (Inl (''sink not found: '' @ sink))
      else if source = sink then Some (Inr \<lparr>hops = [], total_latency = zero, bottleneck_bw = highest\<rparr>)
      else do {
        s \<leftarrow> search_loop (<) (\<lambda>q. Min (set q)) (\<lambda>d e. add d (edge_latency e)) (edges t) (adjacency t) sink
          \<lparr>tab = open_table zero highest t source, prev_node = \<lambda>_. [], prev_edge = \<lambda>_. 0, pq = [(zero, source)]\<rparr>;
        if tab s sink = highest then Some (Inl (''no path from '' @ source @ '' to '' @ sink))
        else do {
          (hs, bw) \<leftarrow> rebuild (edges t) (\<lambda>b e. min b (edge_bandwidth e)) s source sink [] highest;
          Some (Inr \<lparr>hops = hs, total_latency = tab s sink, bottleneck_bw = bw\<rparr>) } })"

definition find_fastest_path :: "('d :: linorder) \<Rightarrow> 'd \<Rightarrow> ('d \<Rightarrow> 'd \<Rightarrow> 'd) \<Rightarrow> string \<Rightarrow> string \<Rightarrow> 'd topology
    \<Rightarrow> (string + 'd topology_path) option" where
  "find_fastest_path zero highest add source sink t =
     (if nodes t source = None then Some (Inl (''source not found: '' @ source))
      else if nodes t sink = None then Some (Inl (''sink not found: '' @ sink))
      else if source = sink then Some (Inr \<lparr>hops = [], total_latency = zero, bottleneck_bw = highest\<rparr>)
      else do {
        let table = (\<lambda>_. zero)(source := highest);
        s \<leftarrow> search_loop (>) (\<lambda>q. Max (set q)) (\<lambda>d e. min d (edge_bandwidth e)) (edges t) (adjacency t) sink
          \<lparr>tab = table, prev_node = \<lambda>_. [], prev_edge = \<lambda>_. 0, pq = [(highest, source)]\<rparr>;
        if tab s sink = zero then Some (Inl (''no path from '' @ source @ '' to '' @ sink))
        else do {
          (hs, lat) \<leftarrow> rebuild (edges t) (\<lambda>a e. add a (edge_latency e)) s source sink [] zero;
          Some (Inr \<lparr>hops = hs, total_latency = lat, bottleneck_bw = tab s sink\<rparr>) } })"

definition get_dma_chain :: "('d :: linorder) \<Rightarrow> 'd \<Rightarrow> ('d \<Rightarrow> 'd \<Rightarrow> 'd) \<Rightarrow> string \<Rightarrow> string \<Rightarrow> 'd topology
    \<Rightarrow> (string + 'd topology_path) option" where
  "get_dma_chain zero highest add source sink t = find_fastest_path zero highest add source sink t"

subsection \<open>The algorithm behind both\<close>

text \<open>
  What the search needs of its order and its extension of a value by an edge: \<open>before\<close> is a strict linear
  order, an extension is monotone and never before what it extends, and the adjacency index lists the edges
  that leave a node.  \<open>start\<close> is the table the search begins with: apart from the source, a node is
  unreached (\<open>worst\<close>) or closed (\<open>best\<close>).
\<close>

locale path_search =
  fixes before :: "'d \<Rightarrow> 'd \<Rightarrow> bool"
    and pick :: "('d \<times> string) list \<Rightarrow> 'd \<times> string"
    and ext :: "'d \<Rightarrow> 'd topology_edge \<Rightarrow> 'd"
    and es :: "'d topology_edge list"
    and adj :: "string \<rightharpoonup> nat list"
    and best :: 'd and worst :: 'd
    and start :: "string \<Rightarrow> 'd"
    and source :: string
  assumes irrefl: "\<not> before a a"
    and trans: "before a b \<Longrightarrow> before b c \<Longrightarrow> before a c"
    and total: "a \<noteq> b \<Longrightarrow> before a b \<or> before b a"
    and pick_in: "q \<noteq> [] \<Longrightarrow> pick q \<in> set q"
    and pick_first: "x \<in> set q \<Longrightarrow> \<not> before (fst x) (fst (pick q))"
    and ext_mono: "\<not> before b a \<Longrightarrow> \<not> before (ext b e) (ext a e)"
    and ext_later: "e \<in> set es \<Longrightarrow> \<not> before (ext a e) a"
    and bounds: "\<not> before worst best"
    and adj_edges: "(case adj u of None \<Rightarrow> {} | Some is \<Rightarrow> set is) = {i. i < length es \<and> edge_from (es ! i) = u}"
    and start_values: "start source = best" "v \<noteq> source \<Longrightarrow> start v = worst \<or> start v = best"
begin

definition leq :: "'d \<Rightarrow> 'd \<Rightarrow> bool" where
  "leq a b \<longleftrightarrow> \<not> before b a"

lemma leq_refl [simp]: "leq a a"
  by (simp add: leq_def irrefl)

lemma leq_trans [trans]: "leq a b \<Longrightarrow> leq b c \<Longrightarrow> leq a c"
  unfolding leq_def using trans total by metis

lemma leq_antisym: "leq a b \<Longrightarrow> leq b a \<Longrightarrow> a = b"
  unfolding leq_def using total by metis

lemma before_leq: "before a b \<Longrightarrow> leq a b"
  unfolding leq_def using irrefl trans by metis

lemma before_leq_trans: "before a b \<Longrightarrow> leq b c \<Longrightarrow> before a c"
  unfolding leq_def using trans total by metis

lemma leq_before_trans: "leq a b \<Longrightarrow> before b c \<Longrightarrow> before a c"
  unfolding leq_def using trans total by metis

text \<open>A walk of the graph through nodes that are not closed, and its value from the source.\<close>

definition open_node :: "string \<Rightarrow> bool" where
  "open_node v \<longleftrightarrow> v = source \<or> start v = worst"

fun walk :: "string \<Rightarrow> 'd topology_edge list \<Rightarrow> string \<Rightarrow> bool" where
  "walk u [] v \<longleftrightarrow> u = v"
| "walk u (e # p) v \<longleftrightarrow> e \<in> set es \<and> edge_from e = u \<and> open_node (edge_to e) \<and> walk (edge_to e) p v"

definition val :: "'d topology_edge list \<Rightarrow> 'd" where
  "val p = foldl ext best p"

lemma walk_snoc: "walk u (p @ [e]) v \<longleftrightarrow> walk u p (edge_from e) \<and> e \<in> set es \<and> open_node (edge_to e) \<and> edge_to e = v"
  by (induction p arbitrary: u) auto

lemma val_snoc [simp]: "val [] = best" "val (p @ [e]) = ext (val p) e"
  by (simp_all add: val_def)

subsection \<open>Invariant\<close>

text \<open>
  \<open>ss\<close> lists the settled nodes, the last first; the edges \<open>P\<close> have been relaxed.
\<close>

definition changed :: "'d search \<Rightarrow> string \<Rightarrow> bool" where
  "changed s v \<longleftrightarrow> v = source \<or> tab s v \<noteq> start v"

definition values_ok :: "'d search \<Rightarrow> bool" where
  "values_ok s \<longleftrightarrow> tab s source = best \<and> (\<forall>v. leq best (tab s v) \<and> leq (tab s v) worst)
     \<and> (\<forall>v. v \<noteq> source \<longrightarrow> start v \<noteq> worst \<longrightarrow> tab s v = best)"

definition entry_ok :: "string list \<Rightarrow> 'd search \<Rightarrow> 'd \<Rightarrow> string \<Rightarrow> bool" where
  "entry_ok ss s d x \<longleftrightarrow> leq (tab s x) d \<and> changed s x \<and> (x \<in> set ss \<longrightarrow> d \<noteq> tab s x)
     \<and> x \<in> insert source (edge_to ` set es) \<and> (\<forall>u \<in> set ss. leq (tab s u) d)"

definition queue_ok :: "string list \<Rightarrow> 'd search \<Rightarrow> bool" where
  "queue_ok ss s \<longleftrightarrow> distinct (pq s) \<and> (\<forall>(d, x) \<in> set (pq s). entry_ok ss s d x)
     \<and> (\<forall>v. v \<notin> set ss \<longrightarrow> changed s v \<longrightarrow> (tab s v, v) \<in> set (pq s))"

definition back_edge :: "'d search \<Rightarrow> string \<Rightarrow> bool" where
  "back_edge s v \<longleftrightarrow> prev_edge s v < length es \<and> edge_to (es ! prev_edge s v) = v
     \<and> edge_from (es ! prev_edge s v) = prev_node s v \<and> start v = worst
     \<and> tab s v = ext (tab s (prev_node s v)) (es ! prev_edge s v)"

definition tree_ok :: "string list \<Rightarrow> 'd search \<Rightarrow> bool" where
  "tree_ok ss s \<longleftrightarrow> distinct ss \<and> set ss \<subseteq> insert source (edge_to ` set es) \<and> (\<forall>v \<in> set ss. changed s v)
     \<and> (\<forall>v. v \<noteq> source \<longrightarrow> changed s v \<longrightarrow> back_edge s v \<and> prev_node s v \<in> set ss)
     \<and> (\<forall>a v b. ss = a @ v # b \<longrightarrow> v \<noteq> source \<longrightarrow> prev_node s v \<in> set b)"

definition relaxed :: "nat set \<Rightarrow> string list \<Rightarrow> 'd search \<Rightarrow> bool" where
  "relaxed P ss s \<longleftrightarrow> (\<forall>i \<in> P. i < length es \<and> edge_from (es ! i) \<in> set ss
     \<and> leq (tab s (edge_to (es ! i))) (ext (tab s (edge_from (es ! i))) (es ! i)))"

definition inv :: "nat set \<Rightarrow> string list \<Rightarrow> 'd search \<Rightarrow> bool" where
  "inv P ss s \<longleftrightarrow> values_ok s \<and> queue_ok ss s \<and> tree_ok ss s \<and> relaxed P ss s"

lemma pq_irrelevant [simp]: "changed (s\<lparr>pq := q\<rparr>) v = changed s v" "back_edge (s\<lparr>pq := q\<rparr>) v = back_edge s v"
  by (simp_all add: changed_def back_edge_def)

lemma relax_edge_inv:
  assumes "inv P ss s" "u \<in> set ss" "\<forall>x \<in> set ss. leq (tab s x) (tab s u)"
    and "i < length es" "edge_from (es ! i) = u"
  shows "\<exists>t. relax_edge before ext es u i s = Some t \<and> inv (insert i P) ss t \<and> tab t u = tab s u
    \<and> (\<forall>x \<in> set ss. leq (tab t x) (tab t u))"
proof -
  define e where "e = es ! i"
  define v where "v = edge_to e"
  define new where "new = ext (tab s u) e"
  have e: "e \<in> set es" "edge_from e = u" using assms(4,5) by (simp_all add: e_def)
  have later: "leq (tab s u) new" using ext_later [OF e(1)] by (simp add: new_def leq_def)
  show ?thesis
  proof (cases "before new (tab s v)")
    case False
    then have "relax_edge before ext es u i s = Some s"
      using assms(4) by (simp add: relax_edge_def Let_def new_def v_def e_def)
    moreover have "inv (insert i P) ss s"
      using assms False e by (auto simp: inv_def relaxed_def leq_def new_def v_def e_def)
    ultimately show ?thesis using assms(3) by auto
  next
    case True
    define t where "t = s\<lparr>tab := (tab s)(v := new), prev_node := (prev_node s)(v := u),
      prev_edge := (prev_edge s)(v := i), pq := (new, v) # pq s\<rparr>"
    have step: "relax_edge before ext es u i s = Some t"
      using assms(4) True by (simp add: relax_edge_def Let_def new_def v_def e_def t_def)
    have vs: "values_ok s" and qs: "queue_ok ss s" and ts: "tree_ok ss s" and rs: "relaxed P ss s"
      using assms(1) by (simp_all add: inv_def)
    have fresh: "v \<notin> set ss"
      using True assms(3) later leq_trans unfolding leq_def by blast
    have uv: "u \<noteq> v" using fresh assms(2) by auto
    have best: "leq best new" using vs later leq_trans unfolding values_ok_def by blast
    then have src: "v \<noteq> source" using True vs unfolding values_ok_def leq_def by auto
    have w: "start v = worst" using True best vs src unfolding values_ok_def leq_def by metis
    have new: "new \<noteq> worst" "leq new worst"
      using True vs before_leq_trans irrefl before_leq unfolding values_ok_def by metis+
    have ch: "changed t v" "\<And>x. changed s x \<Longrightarrow> changed t x" "\<And>x. x \<noteq> v \<Longrightarrow> changed t x = changed s x"
      using new(1) w by (auto simp: changed_def t_def)
    have "values_ok t" using vs src best new(2) w by (auto simp: values_ok_def t_def)
    moreover have "queue_ok ss t"
    proof -
      have old: "entry_ok ss t d x" if "(d, x) \<in> set (pq s)" for d x
      proof -
        have q: "entry_ok ss s d x" using qs that unfolding queue_ok_def by auto
        then have "leq (tab t x) d"
          using leq_trans [OF before_leq [OF True]] by (cases "x = v") (auto simp: t_def entry_ok_def)
        with q show ?thesis using fresh ch(2) by (auto simp: t_def entry_ok_def)
      qed
      have new: "entry_ok ss t new v"
      proof -
        have "leq (tab t x) new" if "x \<in> set ss" for x
          using leq_trans [OF _ later, of "tab s x"] assms(3) that fresh by (auto simp: t_def)
        moreover have "v \<in> edge_to ` set es" unfolding v_def using e(1) by (rule imageI)
        moreover have "tab t v = new" by (simp add: t_def)
        ultimately show ?thesis using fresh ch(1) by (simp add: entry_ok_def)
      qed
      have "(new, v) \<notin> set (pq s)"
        using qs True unfolding queue_ok_def entry_ok_def leq_def by auto
      then have "distinct (pq t)" using qs by (simp add: queue_ok_def t_def)
      moreover have "(tab t x, x) \<in> set (pq t)" if "x \<notin> set ss" "changed t x" for x
        using that qs ch(3) [of x] unfolding queue_ok_def by (cases "x = v") (auto simp: t_def)
      moreover have "pq t = (new, v) # pq s" by (simp add: t_def)
      ultimately show ?thesis using old new by (auto simp: queue_ok_def)
    qed
    moreover have "tree_ok ss t"
    proof -
      have p: "back_edge s x \<and> prev_node s x \<in> set ss" if "x \<noteq> source" "changed s x" for x
        using ts that unfolding tree_ok_def by blast
      have "tab t v = ext (tab t u) (es ! i)" "prev_node t v = u" "prev_edge t v = i"
        using uv by (simp_all add: t_def new_def e_def)
      then have v: "back_edge t v \<and> prev_node t v \<in> set ss"
        using assms(2,4,5) w by (simp add: back_edge_def v_def e_def)
      have bk: "back_edge t x \<and> prev_node t x \<in> set ss" if "x \<noteq> source" "changed t x" for x
      proof (cases "x = v")
        case False
        have q: "back_edge s x" "prev_node s x \<in> set ss" using p [of x] that ch(3) False by auto
        then have "prev_node s x \<noteq> v" using fresh by auto
        then have "tab t (prev_node s x) = tab s (prev_node s x)" by (simp add: t_def)
        moreover have "tab t x = tab s x" "prev_node t x = prev_node s x" "prev_edge t x = prev_edge s x"
          using False by (simp_all add: t_def)
        ultimately show ?thesis using q by (simp add: back_edge_def)
      qed (simp add: v)
      have order: "prev_node t x \<in> set b" if "ss = a @ x # b" "x \<noteq> source" for a x b
      proof -
        have "x \<noteq> v" using that(1) fresh by auto
        moreover have "prev_node s x \<in> set b" using ts that unfolding tree_ok_def by blast
        ultimately show ?thesis by (simp add: t_def)
      qed
      have "distinct ss" "set ss \<subseteq> insert source (edge_to ` set es)" "\<forall>v \<in> set ss. changed t v"
        using ts ch(2) unfolding tree_ok_def by blast+
      with bk order show ?thesis by (simp add: tree_ok_def)
    qed
    moreover have "relaxed (insert i P) ss t"
    proof -
      have "leq (tab t (edge_to (es ! j))) (ext (tab t (edge_from (es ! j))) (es ! j))"
        if "j < length es" "edge_from (es ! j) \<in> set ss" "leq (tab s (edge_to (es ! j))) (ext (tab s (edge_from (es ! j))) (es ! j))" for j
        using that fresh leq_trans [OF before_leq [OF True]] by (cases "edge_to (es ! j) = v") (auto simp: t_def)
      then show ?thesis
        using rs assms(2,4) e uv unfolding relaxed_def by (auto simp: t_def new_def v_def e_def)
    qed
    ultimately have "inv (insert i P) ss t" by (simp add: inv_def)
    moreover have "tab t u = tab s u" "\<forall>x \<in> set ss. leq (tab t x) (tab t u)"
      using uv assms(3) fresh by (auto simp: t_def)
    ultimately show ?thesis using step by blast
  qed
qed

lemma relax_all_inv:
  assumes "inv P ss s" "u \<in> set ss" "\<forall>x \<in> set ss. leq (tab s x) (tab s u)"
    and "set is \<subseteq> {i. i < length es \<and> edge_from (es ! i) = u}"
  shows "\<exists>t. relax_all before ext es u is s = Some t \<and> inv (set is \<union> P) ss t"
  using assms
proof (induction "is" arbitrary: s P)
  case (Cons i "is")
  obtain t where t: "relax_edge before ext es u i s = Some t" "inv (insert i P) ss t" "\<forall>x \<in> set ss. leq (tab t x) (tab t u)"
    using relax_edge_inv [OF Cons.prems(1-3), of i] Cons.prems(4) by auto
  show ?case using Cons.IH [OF t(2) Cons.prems(2) t(3)] Cons.prems(4) t(1) by (auto simp: Un_commute)
qed auto

subsection \<open>Taking an entry\<close>

lemma pop_stale:
  assumes "inv P ss s" "(d, u) \<in> set (pq s)" "before (tab s u) d"
  shows "inv P ss (s\<lparr>pq := remove1 (d, u) (pq s)\<rparr>)"
proof -
  have "d \<noteq> tab s u" using assms(3) irrefl by auto
  moreover have "distinct (pq s)" using assms(1) by (simp add: inv_def queue_ok_def)
  ultimately show ?thesis
    using assms(1)
    by (auto simp: inv_def values_ok_def queue_ok_def tree_ok_def relaxed_def entry_ok_def set_remove1_eq)
qed

lemma pop_settle:
  assumes "inv P ss s" "pick (pq s) = (d, u)" "pq s \<noteq> []" "\<not> before (tab s u) d"
  shows "d = tab s u \<and> u \<notin> set ss \<and> inv P (u # ss) (s\<lparr>pq := remove1 (d, u) (pq s)\<rparr>)
    \<and> (\<forall>x \<in> set (u # ss). leq (tab s x) (tab s u)) \<and> (\<forall>(c, x) \<in> set (pq s). leq (tab s u) c)"
proof -
  let ?s = "s\<lparr>pq := remove1 (d, u) (pq s)\<rparr>"
  have vs: "values_ok s" and qs: "queue_ok ss s" and ts: "tree_ok ss s" and rs: "relaxed P ss s"
    using assms(1) by (simp_all add: inv_def)
  have mem: "(d, u) \<in> set (pq s)" using pick_in [OF assms(3)] assms(2) by simp
  then have ent: "entry_ok ss s d u" using qs by (auto simp: queue_ok_def)
  have d: "d = tab s u" using ent assms(4) leq_antisym by (auto simp: entry_ok_def leq_def)
  have u: "u \<notin> set ss" using ent d by (auto simp: entry_ok_def)
  have first: "leq (tab s u) c" if "(c, x) \<in> set (pq s)" for c x
    using pick_first [OF that] assms(2) d by (simp add: leq_def)
  have dist: "distinct (pq s)" using qs by (simp add: queue_ok_def)
  have "queue_ok (u # ss) ?s"
  proof -
    have "entry_ok (u # ss) ?s c x" if "(c, x) \<in> set (remove1 (d, u) (pq s))" for c x
    proof -
      have m: "(c, x) \<in> set (pq s)" "(c, x) \<noteq> (d, u)" using that dist by (auto simp: set_remove1_eq)
      then have "entry_ok ss s c x" using qs by (auto simp: queue_ok_def)
      then show ?thesis using first [OF m(1)] m(2) d by (auto simp: entry_ok_def)
    qed
    moreover have "(tab ?s v, v) \<in> set (pq ?s)" if "v \<notin> set (u # ss)" "changed ?s v" for v
      using that qs dist by (auto simp: queue_ok_def set_remove1_eq)
    moreover have "distinct (remove1 (d, u) (pq s))" using dist by simp
    ultimately show ?thesis unfolding queue_ok_def by auto
  qed
  moreover have "tree_ok (u # ss) ?s"
  proof -
    have ch: "changed s u" "u \<in> insert source (edge_to ` set es)" using ent by (simp_all add: entry_ok_def)
    have p: "prev_node s u \<in> set ss" if "u \<noteq> source" using ts ch(1) that by (auto simp: tree_ok_def)
    have "prev_node s x \<in> set b" if "u # ss = a @ x # b" "x \<noteq> source" for a x b
    proof (cases a)
      case Nil
      with that p show ?thesis by simp
    next
      case (Cons y a')
      with that ts show ?thesis unfolding tree_ok_def by auto
    qed
    then show ?thesis using ts ch u unfolding tree_ok_def by simp
  qed
  moreover have "values_ok ?s" "relaxed P (u # ss) ?s" using vs rs by (auto simp: values_ok_def relaxed_def)
  moreover have "leq (tab s x) (tab s u)" if "x \<in> set ss" for x using ent that d by (auto simp: entry_ok_def)
  ultimately show ?thesis using d u first by (auto simp: inv_def)
qed

subsection \<open>The loop\<close>

definition complete :: "nat set \<Rightarrow> string list \<Rightarrow> bool" where
  "complete P ss \<longleftrightarrow> {i. i < length es \<and> edge_from (es ! i) \<in> set ss} \<subseteq> P"

text \<open>Where the loop stops: nothing is left, or the target has come up.\<close>

definition finished :: "string \<Rightarrow> 'd search \<Rightarrow> bool" where
  "finished target r \<longleftrightarrow> (\<exists>P ss s. inv P ss s \<and> complete P ss \<and> tab r = tab s \<and> prev_node r = prev_node s
     \<and> prev_edge r = prev_edge s
     \<and> (pq s = [] \<or> target \<notin> set ss \<and> (\<forall>(c, x) \<in> set (pq s). leq (tab s target) c)))"

lemma search_loop_finishes:
  assumes "inv P ss s" "complete P ss"
  shows "\<exists>r. search_loop before pick ext es adj target s = Some r \<and> finished target r"
  using assms
proof (induction "(card (insert source (edge_to ` set es) - set ss), length (pq s))" arbitrary: P ss s
    rule: wf_induct_rule [OF wf_lex_prod [OF wf_less_than wf_less_than]])
  case (1 ss s P)
  show ?case
  proof (cases "pq s = []")
    case True
    then have "finished target s" using "1.prems" unfolding finished_def by blast
    with True show ?thesis by (subst search_loop.simps) simp
  next
    case False
    obtain d u where du: "pick (pq s) = (d, u)" by (cases "pick (pq s)")
    let ?s = "s\<lparr>pq := remove1 (d, u) (pq s)\<rparr>"
    have mem: "(d, u) \<in> set (pq s)" using pick_in [OF False] du by simp
    have len: "length (pq ?s) < length (pq s)" using mem False by (simp add: length_remove1)
    show ?thesis
    proof (cases "before (tab s u) d")
      case True
      have "search_loop before pick ext es adj target s = search_loop before pick ext es adj target ?s"
        using False du True by (subst search_loop.simps) (simp add: Let_def)
      then show ?thesis using "1.hyps" [OF _ pop_stale [OF "1.prems"(1) mem True] "1.prems"(2)] len by simp
    next
      case no: False
      note settle = pop_settle [OF "1.prems"(1) du False no]
      show ?thesis
      proof (cases "u = target")
        case True
        have "search_loop before pick ext es adj target s = Some ?s"
          using False du no True by (subst search_loop.simps) (simp add: Let_def)
        moreover have "finished target ?s"
          unfolding finished_def
          by (rule exI [of _ P], rule exI [of _ ss], rule exI [of _ s]) (use "1.prems" settle True in auto)
        ultimately show ?thesis by blast
      next
        case other: False
        have inv: "inv P (u # ss) ?s" and u: "u \<notin> set ss" and le: "\<forall>x \<in> set (u # ss). leq (tab ?s x) (tab ?s u)"
          using settle by (blast, blast, simp)
        have "u \<in> insert source (edge_to ` set es)" using inv by (simp add: inv_def tree_ok_def)
        then have small: "card (insert source (edge_to ` set es) - set (u # ss)) < card (insert source (edge_to ` set es) - set ss)"
          using u by (intro psubset_card_mono) auto
        show ?thesis
        proof (cases "adj u")
          case None
          have "search_loop before pick ext es adj target s = search_loop before pick ext es adj target ?s"
            using False du no other None by (subst search_loop.simps) (simp add: Let_def)
          moreover have "complete P (u # ss)"
            using "1.prems"(2) adj_edges [of u] None by (auto simp: complete_def)
          ultimately show ?thesis using "1.hyps" [OF _ inv] small by simp
        next
          case (Some "is")
          then have "set is = {i. i < length es \<and> edge_from (es ! i) = u}" using adj_edges [of u] by simp
          then obtain t where t: "relax_all before ext es u is ?s = Some t" "inv (set is \<union> P) (u # ss) t"
            "complete (set is \<union> P) (u # ss)"
            using relax_all_inv [OF inv _ le, of "is"] "1.prems"(2) by (auto simp: complete_def)
          have "search_loop before pick ext es adj target s = search_loop before pick ext es adj target t"
            using False du no other Some t(1) by (subst search_loop.simps) (simp add: Let_def)
          then show ?thesis using "1.hyps" [OF _ t(2,3)] small by simp
        qed
      qed
    qed
  qed
qed

subsection \<open>The result\<close>

lemma walk_bound:
  assumes "inv P ss s" "complete P ss" "walk source p v"
  shows "v \<in> set ss \<and> leq (tab s v) (val p) \<or> (\<exists>y. y \<notin> set ss \<and> open_node y \<and> leq (tab s y) (val p))"
  using assms(3)
proof (induction p arbitrary: v rule: rev_induct)
  case Nil
  have "tab s source = best" using assms(1) by (simp add: inv_def values_ok_def)
  moreover have "open_node source" by (simp add: open_node_def)
  ultimately show ?case using Nil by (cases "source \<in> set ss") auto
next
  case (snoc e p)
  have e: "walk source p (edge_from e)" "e \<in> set es" "open_node (edge_to e)" "edge_to e = v"
    using snoc.prems unfolding walk_snoc by blast+
  have later: "leq (val p) (ext (val p) e)" using ext_later [OF e(2)] by (simp add: leq_def)
  from snoc.IH [OF e(1)] show ?case
  proof
    assume u: "edge_from e \<in> set ss \<and> leq (tab s (edge_from e)) (val p)"
    obtain i where i: "i < length es" "es ! i = e" using e(2) by (auto simp: in_set_conv_nth)
    then have "i \<in> P" using assms(2) u by (auto simp: complete_def)
    then have "leq (tab s v) (ext (tab s (edge_from e)) e)" using assms(1) i e(4) by (auto simp: inv_def relaxed_def)
    also have "leq (ext (tab s (edge_from e)) e) (ext (val p) e)" using ext_mono u by (simp add: leq_def)
    finally show ?thesis using e(3,4) by auto
  next
    assume "\<exists>y. y \<notin> set ss \<and> open_node y \<and> leq (tab s y) (val p)"
    then show ?thesis using leq_trans [OF _ later] by auto
  qed
qed

lemma finished_optimal:
  assumes "finished target r" "walk source p target"
  shows "leq (tab r target) (val p)"
proof -
  obtain P ss s where s: "inv P ss s" "complete P ss" "tab r = tab s"
    "pq s = [] \<or> target \<notin> set ss \<and> (\<forall>(c, x) \<in> set (pq s). leq (tab s target) c)"
    using assms(1) unfolding finished_def by blast
  have vs: "values_ok s" and qs: "queue_ok ss s" using s(1) by (simp_all add: inv_def)
  from walk_bound [OF s(1,2) assms(2)] show ?thesis
  proof
    assume "\<exists>y. y \<notin> set ss \<and> open_node y \<and> leq (tab s y) (val p)"
    then obtain y where y: "y \<notin> set ss" "open_node y" "leq (tab s y) (val p)" by blast
    have "leq (tab s target) (tab s y)"
    proof (cases "changed s y")
      case True
      then have "(tab s y, y) \<in> set (pq s)" using qs y(1) by (auto simp: queue_ok_def)
      with s(4) show ?thesis by auto
    next
      case False
      then have "tab s y = worst" using y(2) by (auto simp: changed_def open_node_def)
      with vs show ?thesis by (simp add: values_ok_def)
    qed
    then show ?thesis using leq_trans y(3) s(3) by simp
  qed (simp add: s(3))
qed

text \<open>Following the back pointers of a settled node, or of one that a settled node reached.\<close>

lemma rebuild_step:
  assumes "back_edge s v" "v \<noteq> source" "prev_node r = prev_node s" "prev_edge r = prev_edge s"
    and "\<And>hs acc. \<exists>p. rebuild es m r source (prev_node s v) hs acc = Some (p @ hs, foldl m acc (rev p))
      \<and> walk source p (prev_node s v) \<and> val p = tab s (prev_node s v)"
  shows "\<exists>p. rebuild es m r source v hs acc = Some (p @ hs, foldl m acc (rev p)) \<and> walk source p v \<and> val p = tab s v"
proof -
  let ?e = "es ! prev_edge s v"
  obtain p where p: "rebuild es m r source (prev_node s v) (?e # hs) (m acc ?e) = Some (p @ ?e # hs, foldl m (m acc ?e) (rev p))"
    "walk source p (prev_node s v)" "val p = tab s (prev_node s v)"
    using assms(5) by blast
  have "rebuild es m r source v hs acc = Some ((p @ [?e]) @ hs, foldl m acc (rev (p @ [?e])))"
    using assms(1-4) p(1) by (subst rebuild.simps) (simp add: Let_def back_edge_def)
  moreover have "walk source (p @ [?e]) v" "val (p @ [?e]) = tab s v"
    using p(2,3) assms(1) by (simp_all add: walk_snoc back_edge_def open_node_def)
  ultimately show ?thesis by blast
qed

lemma rebuild_settled:
  assumes "inv P ss s" "ss = a @ v # b" "prev_node r = prev_node s" "prev_edge r = prev_edge s"
  shows "\<exists>p. rebuild es m r source v hs acc = Some (p @ hs, foldl m acc (rev p)) \<and> walk source p v \<and> val p = tab s v"
  using assms(2)
proof (induction "length b" arbitrary: a v b hs acc rule: less_induct)
  case less
  have vs: "values_ok s" and ts: "tree_ok ss s" using assms(1) by (simp_all add: inv_def)
  show ?case
  proof (cases "v = source")
    case True
    with vs show ?thesis by (intro exI [of _ "[]"]) (subst rebuild.simps, simp add: values_ok_def)
  next
    case False
    have "changed s v" using ts less.prems unfolding tree_ok_def by auto
    then have bk: "back_edge s v" using ts False unfolding tree_ok_def by blast
    have "prev_node s v \<in> set b" using ts less.prems False unfolding tree_ok_def by blast
    then obtain c d where b: "b = c @ prev_node s v # d" by (auto dest: split_list)
    then have "length d < length b" "ss = (a @ v # c) @ prev_node s v # d" using less.prems by simp_all
    from less.hyps [OF this] show ?thesis by (rule rebuild_step [OF bk False assms(3,4)])
  qed
qed

lemma finished_path:
  assumes "finished target r" "target \<noteq> source" "start target = worst" "tab r target \<noteq> worst"
  shows "\<exists>p. rebuild es m r source target [] acc = Some (p, foldl m acc (rev p))
    \<and> walk source p target \<and> val p = tab r target"
proof -
  obtain P ss s where s: "inv P ss s" "tab r = tab s" "prev_node r = prev_node s" "prev_edge r = prev_edge s"
    using assms(1) unfolding finished_def by blast
  have "changed s target" using assms(3,4) s(2) by (simp add: changed_def)
  then have bk: "back_edge s target" "prev_node s target \<in> set ss"
    using s(1) assms(2) unfolding inv_def tree_ok_def by blast+
  then obtain a b where "ss = a @ prev_node s target # b" by (auto dest: split_list)
  from rebuild_settled [OF s(1) this s(3,4)] have "\<exists>p. rebuild es m r source target [] acc = Some (p @ [], foldl m acc (rev p))
    \<and> walk source p target \<and> val p = tab s target"
    by (rule rebuild_step [OF bk(1) assms(2) s(3,4)])
  then show ?thesis using s(2) by simp
qed

definition initial :: "'d search" where
  "initial = \<lparr>tab = start, prev_node = \<lambda>_. [], prev_edge = \<lambda>_. 0, pq = [(best, source)]\<rparr>"

lemma initial_inv: "inv {} [] initial"
proof -
  have "leq best worst" using bounds by (simp add: leq_def)
  then have "leq best (start v) \<and> leq (start v) worst" for v using start_values(1) start_values(2) [of v] by (cases "v = source") auto
  then have "values_ok initial" using start_values by (auto simp: values_ok_def initial_def)
  moreover have "queue_ok [] initial"
    using start_values(1) by (auto simp: queue_ok_def entry_ok_def changed_def initial_def)
  ultimately show ?thesis by (auto simp: inv_def tree_ok_def relaxed_def changed_def initial_def)
qed

lemma search_correct:
  assumes "target \<noteq> source" "start target = worst"
  shows "\<exists>r. search_loop before pick ext es adj target initial = Some r
    \<and> (\<forall>p. walk source p target \<longrightarrow> leq (tab r target) (val p))
    \<and> (tab r target \<noteq> worst \<longrightarrow> (\<exists>p. rebuild es m r source target [] acc = Some (p, foldl m acc (rev p))
        \<and> walk source p target \<and> val p = tab r target))"
proof -
  have "complete {} []" by (simp add: complete_def)
  from search_loop_finishes [OF initial_inv this] obtain r
    where r: "search_loop before pick ext es adj target initial = Some r" "finished target r" by blast
  show ?thesis
    using r(1) finished_optimal [OF r(2)] finished_path [OF r(2) assms] by blast
qed

end

subsection \<open>Both searches\<close>

text \<open>
  What is asked of the arithmetic (IEEE addition of non-negative latencies has it, rounding included, and
  it need not be associative) and of the topology.
\<close>

definition latency_ok :: "('d :: linorder) \<Rightarrow> 'd \<Rightarrow> ('d \<Rightarrow> 'd \<Rightarrow> 'd) \<Rightarrow> 'd topology \<Rightarrow> bool" where
  "latency_ok zero highest add t \<longleftrightarrow> index_ok t \<and> zero < highest \<and> (\<forall>a b c. a \<le> b \<longrightarrow> add a c \<le> add b c)
     \<and> (\<forall>e \<in> set (edges t). \<forall>a. a \<le> add a (edge_latency e))"

definition bandwidth_ok :: "('d :: linorder) \<Rightarrow> 'd \<Rightarrow> 'd topology \<Rightarrow> bool" where
  "bandwidth_ok zero highest t \<longleftrightarrow> index_ok t \<and> zero \<le> highest"

text \<open>The search laws hold of the code's searches on any topology that is as it should be.\<close>

interpretation by_latency: path_search "(<)" "\<lambda>q. Min (set q)"
    "\<lambda>d e. if latency_ok zero highest add t then add d (edge_latency e) else d"
    "if latency_ok zero highest add t then edges t else []"
    "if latency_ok zero highest add t then adjacency t else Map.empty"
    zero "if latency_ok zero highest add t then highest else zero"
    "if latency_ok zero highest add t then open_table zero highest t source else (\<lambda>_. zero)" source
  for zero :: "'d :: linorder" and highest add t source
proof (unfold_locales, goal_cases)
  case (4 q)
  then show ?case by (simp add: Min_in)
next
  case (5 x q)
  then have "Min (set q) \<le> x" by simp
  then show ?case by (auto simp: less_eq_prod_def split: prod.splits)
next
  case (9 u)
  then show ?case using index_ok_edges [of t u] by (auto simp: latency_ok_def)
qed (auto simp: latency_ok_def not_less open_table_def)

interpretation by_bandwidth: path_search "(>)" "\<lambda>q. Max (set q)" "\<lambda>d e. min d (edge_bandwidth e)"
    "if bandwidth_ok zero highest t then edges t else []"
    "if bandwidth_ok zero highest t then adjacency t else Map.empty"
    highest "if bandwidth_ok zero highest t then zero else highest"
    "if bandwidth_ok zero highest t then (\<lambda>_. zero)(source := highest) else (\<lambda>_. highest)" source
  for zero :: "'d :: linorder" and highest t source
proof (unfold_locales, goal_cases)
  case (4 q)
  then show ?case by (simp add: Max_in)
next
  case (5 x q)
  then have "x \<le> Max (set q)" by simp
  then show ?case by (auto simp: less_eq_prod_def split: prod.splits)
next
  case (9 u)
  then show ?case using index_ok_edges [of t u] by (auto simp: bandwidth_ok_def)
qed (auto simp: bandwidth_ok_def not_less min_def)

text \<open>Connected edges, and what a path costs and carries.\<close>

fun trail :: "'d topology \<Rightarrow> string \<Rightarrow> 'd topology_edge list \<Rightarrow> string \<Rightarrow> bool" where
  "trail t u [] v \<longleftrightarrow> u = v"
| "trail t u (e # p) v \<longleftrightarrow> e \<in> set (edges t) \<and> edge_from e = u \<and> trail t (edge_to e) p v"

definition known :: "'d topology \<Rightarrow> 'd topology_edge list \<Rightarrow> bool" where
  "known t p \<longleftrightarrow> (\<forall>e \<in> set p. nodes t (edge_to e) \<noteq> None)"

definition path_latency :: "'d \<Rightarrow> ('d \<Rightarrow> 'd \<Rightarrow> 'd) \<Rightarrow> 'd topology_edge list \<Rightarrow> 'd" where
  "path_latency zero add p = foldl (\<lambda>d e. add d (edge_latency e)) zero p"

definition path_width :: "'d :: linorder \<Rightarrow> 'd topology_edge list \<Rightarrow> 'd" where
  "path_width highest p = foldl (\<lambda>d e. min d (edge_bandwidth e)) highest p"

lemma min_foldl: "foldl (\<lambda>d e. min d (f e)) (a :: 'd :: linorder) xs = Min (insert a (f ` set xs))"
proof (induction xs arbitrary: a)
  case (Cons x xs)
  then show ?case by (cases "xs = []") (simp_all add: min.assoc)
qed simp

lemma path_width_rev: "path_width highest (rev p) = path_width highest p"
  by (simp add: path_width_def min_foldl)

lemma latency_laws:
  assumes "latency_ok zero highest add t"
  shows "path_search (<) (\<lambda>q. Min (set q)) (\<lambda>d e. add d (edge_latency e)) (edges t) (adjacency t) zero highest
    (open_table zero highest t source) source"
  using by_latency.path_search_axioms [of zero highest add t source] unfolding if_P [OF assms] .

lemma latency_walk:
  assumes "latency_ok zero highest add t" "nodes t source \<noteq> None"
  shows "path_search.walk (edges t) highest (open_table zero highest t source) source u p v \<longleftrightarrow> trail t u p v \<and> known t p"
proof -
  note L = latency_laws [OF assms(1), of source]
  have "zero \<noteq> highest" using assms(1) by (auto simp: latency_ok_def)
  then have "path_search.open_node highest (open_table zero highest t source) source x \<longleftrightarrow> nodes t x \<noteq> None" for x
    unfolding path_search.open_node_def [OF L] using assms(2) by (simp add: open_table_def)
  then show ?thesis
    by (induction p arbitrary: u) (auto simp: path_search.walk.simps [OF L] known_def)
qed

text \<open>C4. The path by latency is optimal: when the sink can be reached with a latency below the largest value,
  the search returns connected hops from source to sink through known nodes, the latency it reports is
  that of the hops and no such path has a smaller one, and the reported bandwidth is that of the narrowest
  hop; it reports that there is no path only if every path's latency is the largest value.  In particular
  the search ends.  The sum of latencies is taken as the code takes it, from the source on, so that
  rounding does not matter.\<close>

theorem find_path_shortest:
  assumes "latency_ok zero highest add t" "nodes t source \<noteq> None" "nodes t sink \<noteq> None" "source \<noteq> sink"
  shows "case find_path zero highest add source sink t of
      None \<Rightarrow> False
    | Some (Inl msg) \<Rightarrow> \<forall>p. trail t source p sink \<longrightarrow> known t p \<longrightarrow> highest \<le> path_latency zero add p
    | Some (Inr r) \<Rightarrow> trail t source (hops r) sink \<and> known t (hops r)
        \<and> total_latency r = path_latency zero add (hops r) \<and> bottleneck_bw r = path_width highest (hops r)
        \<and> (\<forall>p. trail t source p sink \<longrightarrow> known t p \<longrightarrow> total_latency r \<le> path_latency zero add p)"
proof -
  let ?ext = "\<lambda>d e. add d (edge_latency e)" and ?m = "\<lambda>b e. min b (edge_bandwidth e)"
  let ?s = "\<lparr>tab = open_table zero highest t source, prev_node = \<lambda>_. [], prev_edge = \<lambda>_. 0, pq = [(zero, source)]\<rparr>"
  note L = latency_laws [OF assms(1), of source]
  have leq: "path_search.leq (<) a b \<longleftrightarrow> a \<le> b" for a b :: 'a by (auto simp: path_search.leq_def [OF L])
  have val: "path_search.val ?ext zero p = path_latency zero add p" for p
    by (simp add: path_search.val_def [OF L] path_latency_def)
  have "open_table zero highest t source sink = highest" using assms(3,4) by (auto simp: open_table_def)
  then obtain r where r: "search_loop (<) (\<lambda>q. Min (set q)) ?ext (edges t) (adjacency t) sink ?s = Some r"
    "\<And>p. trail t source p sink \<Longrightarrow> known t p \<Longrightarrow> tab r sink \<le> path_latency zero add p"
    "tab r sink \<noteq> highest \<Longrightarrow> \<exists>p. rebuild (edges t) ?m r source sink [] highest = Some (p, foldl ?m highest (rev p))
        \<and> trail t source p sink \<and> known t p \<and> path_latency zero add p = tab r sink"
    using path_search.search_correct [OF L, of sink ?m highest] assms
    unfolding path_search.initial_def [OF L] latency_walk [OF assms(1,2)] leq val by blast
  show ?thesis
  proof (cases "tab r sink = highest")
    case True
    with r(1,2) assms show ?thesis by (simp add: find_path_def)
  next
    case False
    then obtain p where "rebuild (edges t) ?m r source sink [] highest = Some (p, foldl ?m highest (rev p))"
      "trail t source p sink" "known t p" "path_latency zero add p = tab r sink" using r(3) by blast
    with r(1,2) False assms path_width_rev [of highest p] show ?thesis
      by (auto simp: find_path_def path_width_def)
  qed
qed

lemma bandwidth_laws:
  assumes "bandwidth_ok zero highest t"
  shows "path_search (>) (\<lambda>q. Max (set q)) (\<lambda>d e. min d (edge_bandwidth e)) (edges t) (adjacency t) highest zero
    ((\<lambda>_. zero)(source := highest)) source"
  using by_bandwidth.path_search_axioms [of zero highest t source] unfolding if_P [OF assms] .

lemma bandwidth_walk:
  assumes "bandwidth_ok zero highest t"
  shows "path_search.walk (edges t) zero ((\<lambda>_. zero)(source := highest)) source u p v \<longleftrightarrow> trail t u p v"
proof -
  note L = bandwidth_laws [OF assms, of source]
  show ?thesis
    by (induction p arbitrary: u) (auto simp: path_search.walk.simps [OF L] path_search.open_node_def [OF L])
qed

text \<open>C28. The path by bandwidth is widest: the search returns connected hops from source to sink, the
  bandwidth it reports is that of the narrowest hop, and no path has a wider narrowest hop; it reports that
  there is no path only if every path is as narrow as zero.\<close>

theorem find_fastest_path_widest:
  assumes "bandwidth_ok zero highest t" "nodes t source \<noteq> None" "nodes t sink \<noteq> None" "source \<noteq> sink"
  shows "case find_fastest_path zero highest add source sink t of
      None \<Rightarrow> False
    | Some (Inl msg) \<Rightarrow> \<forall>p. trail t source p sink \<longrightarrow> path_width highest p \<le> zero
    | Some (Inr r) \<Rightarrow> trail t source (hops r) sink \<and> bottleneck_bw r = path_width highest (hops r)
        \<and> total_latency r = path_latency zero add (rev (hops r))
        \<and> (\<forall>p. trail t source p sink \<longrightarrow> path_width highest p \<le> bottleneck_bw r)"
proof -
  let ?ext = "\<lambda>d e. min d (edge_bandwidth e)" and ?m = "\<lambda>a e. add a (edge_latency e)"
  let ?s = "\<lparr>tab = (\<lambda>_. zero)(source := highest), prev_node = \<lambda>_. [], prev_edge = \<lambda>_. 0, pq = [(highest, source)]\<rparr>"
  note L = bandwidth_laws [OF assms(1), of source]
  have leq: "path_search.leq (>) a b \<longleftrightarrow> b \<le> a" for a b :: 'a by (auto simp: path_search.leq_def [OF L])
  have val: "path_search.val ?ext highest p = path_width highest p" for p
    by (simp add: path_search.val_def [OF L] path_width_def)
  obtain r where r: "search_loop (>) (\<lambda>q. Max (set q)) ?ext (edges t) (adjacency t) sink ?s = Some r"
    "\<And>p. trail t source p sink \<Longrightarrow> path_width highest p \<le> tab r sink"
    "tab r sink \<noteq> zero \<Longrightarrow> \<exists>p. rebuild (edges t) ?m r source sink [] zero = Some (p, foldl ?m zero (rev p))
        \<and> trail t source p sink \<and> path_width highest p = tab r sink"
    using path_search.search_correct [OF L, of sink ?m zero] assms(4)
    unfolding path_search.initial_def [OF L] bandwidth_walk [OF assms(1)] leq val by auto
  show ?thesis
  proof (cases "tab r sink = zero")
    case True
    with r(1,2) assms show ?thesis by (auto simp: find_fastest_path_def)
  next
    case False
    then obtain p where "rebuild (edges t) ?m r source sink [] zero = Some (p, foldl ?m zero (rev p))"
      "trail t source p sink" "path_width highest p = tab r sink" using r(3) by blast
    with r(1,2) False assms show ?thesis by (auto simp: find_fastest_path_def path_latency_def)
  qed
qed


subsection \<open>A concrete topology\<close>

definition three_nodes :: "nat topology" where
  "three_nodes = (let node = (\<lambda>i. unnamed\<lparr>node_id := i\<rparr>);
       link = (\<lambda>u v bw l. \<lparr>edge_from = u, edge_to = v, edge_bandwidth = bw, edge_latency = l, edge_type = L_PCIe\<rparr>) in
     add_edge (link ''a'' ''c'' 9 10) (add_edge (link ''b'' ''c'' 5 4) (add_edge (link ''a'' ''b'' 7 3)
       (topo_add_node (node ''c'') (topo_add_node (node ''b'') (topo_add_node (node ''a'') new_topology))))))"

lemma three_nodes_ok: "latency_ok 0 1000 (+) three_nodes" "bandwidth_ok 0 1000 three_nodes"
    "nodes three_nodes ''a'' \<noteq> None" "nodes three_nodes ''c'' \<noteq> None"
proof -
  have "index_ok three_nodes" unfolding three_nodes_def Let_def by (intro add_edge_ok topo_add_node_ok new_topology_ok)
  then show "latency_ok 0 1000 (+) three_nodes" "bandwidth_ok 0 1000 three_nodes"
    by (simp_all add: latency_ok_def bandwidth_ok_def)
  show "nodes three_nodes ''a'' \<noteq> None" "nodes three_nodes ''c'' \<noteq> None"
    by (simp_all add: three_nodes_def add_edge_def topo_add_node_def Let_def)
qed

lemma find_path_shortest_witness:
  "\<exists>r. (find_path 0 1000 (+) ''a'' ''c'' three_nodes = Some (Inr r) \<and> total_latency r \<le> 7
    \<and> total_latency r = path_latency 0 (+) (hops r))"
proof -
  let ?link = "\<lambda>u v bw l. \<lparr>edge_from = u, edge_to = v, edge_bandwidth = bw, edge_latency = l, edge_type = L_PCIe\<rparr>"
  let ?p = "[?link ''a'' ''b'' 7 3, ?link ''b'' ''c'' 5 (4 :: nat)]"
  have "trail three_nodes ''a'' ?p ''c''" "known three_nodes ?p" "path_latency 0 (+) ?p = 7"
    by (simp_all add: three_nodes_def add_edge_def topo_add_node_def known_def path_latency_def new_topology_def Let_def)
  then show ?thesis
    using find_path_shortest [OF three_nodes_ok(1,3,4)]
    by (auto split: option.splits sum.splits dest!: spec [of _ ?p])
qed

lemma find_fastest_path_widest_witness:
  "\<exists>r. (find_fastest_path 0 1000 (+) ''a'' ''c'' three_nodes = Some (Inr r) \<and> 9 \<le> bottleneck_bw r)"
proof -
  let ?p = "[\<lparr>edge_from = ''a'', edge_to = ''c'', edge_bandwidth = 9, edge_latency = 10 :: nat, edge_type = L_PCIe\<rparr>]"
  have "trail three_nodes ''a'' ?p ''c''" "path_width 1000 ?p = 9"
    by (simp_all add: three_nodes_def add_edge_def topo_add_node_def path_width_def new_topology_def Let_def)
  then show ?thesis
    using find_fastest_path_widest [OF three_nodes_ok(2-4), of "(+)"]
    by (auto split: option.splits sum.splits dest!: spec [of _ ?p])
qed

end
