(* ===== verification/Vpu_Slab.thy ===== *)
theory Vpu_Slab
  imports Prelude Errno
begin

text \<open>
  The block pools of the VPU driver (\<open>kernel/vpu/vpu_slab.c\<close>, with the sizes and structures of
  \<open>vpu.h\<close>): five pools of blocks of 4 KiB to 256 MiB, a bitmap each, allocation with fallback to the
  next larger order, release with the block zeroed.  \<open>vzalloc\<close> is a parameter (the address it returns
  for a pool, 0 on failure), as is \<open>virt_to_phys\<close>.  Kernel memory is a function from addresses to
  bytes.  A mutex per pool makes the search and marking of a block one step, \<open>slab_take\<close>.
\<close>

subsection \<open>The pools\<close>

definition VPU_SLAB_ORDER_COUNT :: nat where "VPU_SLAB_ORDER_COUNT = 5"

definition VPU_SLAB_MAX_BLOCKS :: nat where "VPU_SLAB_MAX_BLOCKS = 1024"

definition vpu_slab_sizes :: "nat list" where
  "vpu_slab_sizes = [4 * 1024, 64 * 1024, 1 * 1024 * 1024, 16 * 1024 * 1024, 256 * 1024 * 1024]"

definition slab_block_counts :: "nat list" where
  "slab_block_counts = [1024, 256, 64, 16, 4]"

record vpu_slab =
  vs_block_size :: nat
  vs_nr_blocks :: nat
  vs_bitmap :: "bool list"
  vs_pool_base :: nat
  vs_alloc_count :: u64
  vs_free_count :: u64

record vpu_pools =
  slabs :: "vpu_slab list"
  ram :: "nat \<Rightarrow> u8"

definition zero_range :: "nat \<Rightarrow> nat \<Rightarrow> (nat \<Rightarrow> u8) \<Rightarrow> nat \<Rightarrow> u8" where
  "zero_range a n m = (\<lambda>x. if a \<le> x \<and> x < a + n then 0 else m x)"

subsection \<open>Creation and destruction\<close>

definition slab_setup :: "(nat \<Rightarrow> nat) \<Rightarrow> nat \<Rightarrow> vpu_pools \<Rightarrow> vpu_pools" where
  "slab_setup vz i d =
     d\<lparr>slabs := (slabs d)[i := \<lparr>vs_block_size = vpu_slab_sizes ! i, vs_nr_blocks = slab_block_counts ! i,
         vs_bitmap = replicate VPU_SLAB_MAX_BLOCKS False, vs_pool_base = vz i,
         vs_alloc_count = 0, vs_free_count = 0\<rparr>],
       ram := if vz i = 0 then ram d
         else zero_range (vz i) (vpu_slab_sizes ! i * slab_block_counts ! i) (ram d)\<rparr>"

definition vfree_pool :: "nat \<Rightarrow> vpu_pools \<Rightarrow> vpu_pools" where
  "vfree_pool i d = d\<lparr>slabs := (slabs d)[i := (slabs d ! i)\<lparr>vs_pool_base := 0\<rparr>]\<rparr>"

fun slab_rollback :: "nat \<Rightarrow> vpu_pools \<Rightarrow> vpu_pools" where
  "slab_rollback 0 d = d"
| "slab_rollback (Suc i) d = slab_rollback i (vfree_pool i d)"

fun slab_init_loop :: "(nat \<Rightarrow> nat) \<Rightarrow> nat \<Rightarrow> nat \<Rightarrow> vpu_pools \<Rightarrow> vpu_pools \<times> int" where
  "slab_init_loop vz 0 i d = (d, 0)"
| "slab_init_loop vz (Suc n) i d =
     (let d = slab_setup vz i d in
      if vs_pool_base (slabs d ! i) = 0 then (slab_rollback i d, - ENOMEM)
      else slab_init_loop vz n (i + 1) d)"

definition vpu_slab_init :: "(nat \<Rightarrow> nat) \<Rightarrow> vpu_pools \<Rightarrow> vpu_pools \<times> int" where
  "vpu_slab_init vz d = slab_init_loop vz VPU_SLAB_ORDER_COUNT 0 d"

fun slab_destroy_loop :: "nat \<Rightarrow> nat \<Rightarrow> vpu_pools \<Rightarrow> vpu_pools" where
  "slab_destroy_loop 0 i d = d"
| "slab_destroy_loop (Suc n) i d =
     slab_destroy_loop n (i + 1) (if vs_pool_base (slabs d ! i) \<noteq> 0 then vfree_pool i d else d)"

definition vpu_slab_destroy :: "vpu_pools \<Rightarrow> vpu_pools" where
  "vpu_slab_destroy d = slab_destroy_loop VPU_SLAB_ORDER_COUNT 0 d"

subsection \<open>Allocation\<close>

definition vpu_select_order :: "nat \<Rightarrow> int" where
  "vpu_select_order sz =
     (case find (\<lambda>i. sz \<le> vpu_slab_sizes ! i) [0..<VPU_SLAB_ORDER_COUNT] of
        Some i \<Rightarrow> int i
      | None \<Rightarrow> - ENOSPC)"

definition find_first_zero_bit :: "bool list \<Rightarrow> nat \<Rightarrow> nat" where
  "find_first_zero_bit bits n = length (takeWhile (\<lambda>b. b) (take n bits))"

definition slab_take :: "nat \<Rightarrow> vpu_pools \<Rightarrow> (vpu_pools \<times> nat) option" where
  "slab_take order d =
     (let slab = slabs d ! order; idx = find_first_zero_bit (vs_bitmap slab) (vs_nr_blocks slab) in
      if idx \<ge> vs_nr_blocks slab then None
      else Some (d\<lparr>slabs := (slabs d)[order := slab\<lparr>vs_bitmap := (vs_bitmap slab)[idx := True],
        vs_alloc_count := vs_alloc_count slab + 1\<rparr>]\<rparr>, idx))"

text \<open>What \<open>vpu_slab_alloc\<close> stores through its result pointers.\<close>

record vpu_block =
  vb_cpu_addr :: nat
  vb_dma_addr :: nat
  vb_order :: int
  vb_block_idx :: int

definition block_addr :: "vpu_pools \<Rightarrow> nat \<Rightarrow> nat \<Rightarrow> nat" where
  "block_addr d order idx = vs_pool_base (slabs d ! order) + idx * vs_block_size (slabs d ! order)"

definition block_of :: "(nat \<Rightarrow> nat) \<Rightarrow> vpu_pools \<Rightarrow> nat \<Rightarrow> nat \<Rightarrow> vpu_block" where
  "block_of virt_to_phys d order idx =
     (let addr = block_addr d order idx in
      \<lparr>vb_cpu_addr = addr, vb_dma_addr = virt_to_phys addr, vb_order = int order, vb_block_idx = int idx\<rparr>)"

lemma orders_upt: "[0..<VPU_SLAB_ORDER_COUNT] = [0, 1, 2, 3, 4]"
  by (simp add: VPU_SLAB_ORDER_COUNT_def upt_rec)

lemma less_orders: "k < VPU_SLAB_ORDER_COUNT \<longleftrightarrow> k = 0 \<or> k = 1 \<or> k = 2 \<or> k = 3 \<or> k = 4"
  by (auto simp: VPU_SLAB_ORDER_COUNT_def)

lemma select_order_size:
  "k < VPU_SLAB_ORDER_COUNT \<Longrightarrow> vpu_select_order (vpu_slab_sizes ! k) = int k"
  by (auto simp: less_orders vpu_select_order_def orders_upt vpu_slab_sizes_def)

function vpu_slab_alloc :: "(nat \<Rightarrow> nat) \<Rightarrow> nat \<Rightarrow> vpu_pools \<Rightarrow> vpu_pools \<times> (int + vpu_block)" where
  "vpu_slab_alloc virt_to_phys sz d =
     (let order = vpu_select_order sz in
      if order < 0 then (d, Inl order)
      else case slab_take (nat order) d of
        None \<Rightarrow>
          if nat order + 1 < VPU_SLAB_ORDER_COUNT
          then vpu_slab_alloc virt_to_phys (vpu_slab_sizes ! (nat order + 1)) d
          else (d, Inl (- ENOMEM))
      | Some (d, idx) \<Rightarrow> (d, Inr (block_of virt_to_phys d (nat order) idx)))"
  by pat_completeness auto

termination
  by (relation "measure (\<lambda>(_, sz, _). VPU_SLAB_ORDER_COUNT - nat (vpu_select_order sz))")
    (auto simp: select_order_size)

declare vpu_slab_alloc.simps [simp del]

subsection \<open>Release\<close>

definition vpu_slab_free :: "int \<Rightarrow> int \<Rightarrow> vpu_pools \<Rightarrow> vpu_pools" where
  "vpu_slab_free order block_idx d =
     (if order < 0 \<or> order \<ge> int VPU_SLAB_ORDER_COUNT then d
      else
        let k = nat order; slab = slabs d ! k in
        if block_idx < 0 \<or> nat block_idx \<ge> vs_nr_blocks slab then d
        else if \<not> vs_bitmap slab ! nat block_idx then d
        else d\<lparr>ram := zero_range (block_addr d k (nat block_idx)) (vs_block_size slab) (ram d),
          slabs := (slabs d)[k := slab\<lparr>vs_bitmap := (vs_bitmap slab)[nat block_idx := False],
            vs_free_count := vs_free_count slab + 1\<rparr>]\<rparr>)"

subsection \<open>Invariant of the pools\<close>

text \<open>The blocks marked as taken; a block is named by its order and its index.\<close>

definition taken :: "vpu_pools \<Rightarrow> (nat \<times> nat) set" where
  "taken d = {(k, i). k < VPU_SLAB_ORDER_COUNT \<and> i < slab_block_counts ! k \<and> vs_bitmap (slabs d ! k) ! i}"

definition slab_ok :: "nat \<Rightarrow> nat \<Rightarrow> vpu_slab \<Rightarrow> bool" where
  "slab_ok k base s \<longleftrightarrow>
     vs_block_size s = vpu_slab_sizes ! k \<and> vs_nr_blocks s = slab_block_counts ! k \<and>
     length (vs_bitmap s) = VPU_SLAB_MAX_BLOCKS \<and> vs_pool_base s = base \<and>
     vs_alloc_count s - vs_free_count s = of_nat (card {i. i < slab_block_counts ! k \<and> vs_bitmap s ! i})"

definition pools_ok :: "(nat \<Rightarrow> nat) \<Rightarrow> vpu_pools \<Rightarrow> bool" where
  "pools_ok vz d \<longleftrightarrow> length (slabs d) = VPU_SLAB_ORDER_COUNT \<and>
     (\<forall>k < VPU_SLAB_ORDER_COUNT. slab_ok k (vz k) (slabs d ! k))"

lemma pools_okD:
  assumes "pools_ok vz d" "k < VPU_SLAB_ORDER_COUNT"
  shows "vs_block_size (slabs d ! k) = vpu_slab_sizes ! k"
    and "vs_nr_blocks (slabs d ! k) = slab_block_counts ! k"
    and "length (vs_bitmap (slabs d ! k)) = VPU_SLAB_MAX_BLOCKS"
    and "vs_pool_base (slabs d ! k) = vz k"
    and "k < length (slabs d)"
  using assms by (auto simp: pools_ok_def slab_ok_def)

lemma pools_ok_update:
  assumes "pools_ok vz d" "slab_ok k (vz k) s"
  shows "pools_ok vz (d\<lparr>slabs := (slabs d)[k := s]\<rparr>)"
  using assms unfolding pools_ok_def
  by simp (metis nth_list_update_eq nth_list_update_neq)

lemma counts_max: "k < VPU_SLAB_ORDER_COUNT \<Longrightarrow> slab_block_counts ! k \<le> VPU_SLAB_MAX_BLOCKS"
  by (auto simp: less_orders slab_block_counts_def VPU_SLAB_MAX_BLOCKS_def)

lemma sizes_pos: "k < VPU_SLAB_ORDER_COUNT \<Longrightarrow> 0 < vpu_slab_sizes ! k"
  by (auto simp: less_orders vpu_slab_sizes_def)

lemma sizes_mono: "j < k \<Longrightarrow> k < VPU_SLAB_ORDER_COUNT \<Longrightarrow> vpu_slab_sizes ! j < vpu_slab_sizes ! k"
  using less_orders [THEN iffD1, of j] less_orders [THEN iffD1, of k] order.strict_trans [of j k]
  by (auto simp: vpu_slab_sizes_def)

subsection \<open>The search for a free block\<close>

lemma find_first_zero_bit_le: "find_first_zero_bit bs n \<le> n"
  unfolding find_first_zero_bit_def
  by (metis length_takeWhile_le length_take min.boundedE order_refl)

lemma find_first_zero_bit_before:
  assumes "i < find_first_zero_bit bs n" shows "bs ! i"
proof -
  from assms have "i < length (takeWhile (\<lambda>b. b) (take n bs))" by (simp add: find_first_zero_bit_def)
  then have "takeWhile (\<lambda>b. b) (take n bs) ! i" "i < n"
    using nth_mem set_takeWhileD assms find_first_zero_bit_le [of bs n] by fastforce+
  then show ?thesis using \<open>i < length _\<close> by (simp add: takeWhile_nth)
qed

lemma find_first_zero_bit_at:
  assumes "find_first_zero_bit bs n < n" "n \<le> length bs"
  shows "\<not> bs ! find_first_zero_bit bs n"
proof -
  let ?r = "length (takeWhile (\<lambda>b. b) (take n bs))"
  have "?r < length (take n bs)" using assms by (simp add: find_first_zero_bit_def)
  then have "\<not> take n bs ! ?r" by (rule nth_length_takeWhile)
  then show ?thesis using assms by (simp add: find_first_zero_bit_def)
qed

lemma find_first_zero_bit_full:
  assumes "n \<le> length bs"
  shows "n \<le> find_first_zero_bit bs n \<longleftrightarrow> (\<forall>i<n. bs ! i)"
  using find_first_zero_bit_before [of _ bs n] find_first_zero_bit_at [OF _ assms]
    find_first_zero_bit_le [of bs n]
  by (metis leD le_less_linear le_antisym)

lemma take_None:
  assumes "pools_ok vz d" "k < VPU_SLAB_ORDER_COUNT"
  shows "slab_take k d = None \<longleftrightarrow> (\<forall>i < slab_block_counts ! k. (k, i) \<in> taken d)"
  using assms find_first_zero_bit_full [of "slab_block_counts ! k" "vs_bitmap (slabs d ! k)"]
    counts_max [OF assms(2)]
  by (auto simp: slab_take_def Let_def pools_okD taken_def)

lemma card_insert_bit:
  assumes "i < n" "\<not> bs ! i" "n \<le> length bs"
  shows "card {j. j < n \<and> bs[i := True] ! j} = Suc (card {j. j < n \<and> bs ! j})"
proof -
  have "{j. j < n \<and> bs[i := True] ! j} = insert i {j. j < n \<and> bs ! j}"
    using assms by (auto simp: nth_list_update)
  then show ?thesis using assms by simp
qed

lemma card_delete_bit:
  assumes "i < n" "bs ! i" "n \<le> length bs"
  shows "Suc (card {j. j < n \<and> bs[i := False] ! j}) = card {j. j < n \<and> bs ! j}"
proof -
  have "{j. j < n \<and> bs ! j} = insert i {j. j < n \<and> bs[i := False] ! j}"
    using assms by (auto simp: nth_list_update)
  then show ?thesis using assms by (simp add: nth_list_update)
qed

lemma take_Some:
  assumes "pools_ok vz d" "k < VPU_SLAB_ORDER_COUNT" "slab_take k d = Some (d', i)"
  shows "i < slab_block_counts ! k" "(k, i) \<notin> taken d" "taken d' = insert (k, i) (taken d)"
    "\<forall>j<i. (k, j) \<in> taken d" "pools_ok vz d'" "ram d' = ram d"
proof -
  let ?s = "slabs d ! k" and ?n = "slab_block_counts ! k"
  note ok = pools_okD [OF assms(1,2)] and le = counts_max [OF assms(2)]
  have i: "i = find_first_zero_bit (vs_bitmap ?s) ?n" and lt: "i < ?n"
    and d': "d' = d\<lparr>slabs := (slabs d)[k := ?s\<lparr>vs_bitmap := (vs_bitmap ?s)[i := True],
      vs_alloc_count := vs_alloc_count ?s + 1\<rparr>]\<rparr>"
    using assms(3) by (auto simp: slab_take_def Let_def ok split: if_splits)
  have free: "\<not> vs_bitmap ?s ! i"
    using find_first_zero_bit_at [of "vs_bitmap ?s" ?n] lt le by (simp add: i ok)
  show "i < ?n" by (rule lt)
  show "(k, i) \<notin> taken d" using free by (simp add: taken_def)
  show "taken d' = insert (k, i) (taken d)"
    using assms(2) lt le by (auto simp: taken_def d' nth_list_update ok split: if_splits)
  show "\<forall>j<i. (k, j) \<in> taken d"
    using find_first_zero_bit_before lt assms(2) by (auto simp: taken_def i)
  have "slab_ok k (vz k) ?s" using assms by (auto simp: pools_ok_def)
  then show "pools_ok vz d'"
    unfolding d' using assms(1) lt le free
    by (intro pools_ok_update) (auto simp: slab_ok_def card_insert_bit algebra_simps)
  show "ram d' = ram d" by (simp add: d')
qed

subsection \<open>Allocation finds the best fit\<close>

lemma select_order_Some:
  assumes "sz \<le> vpu_slab_sizes ! 4"
  obtains k where "vpu_select_order sz = int k" "k < VPU_SLAB_ORDER_COUNT" "sz \<le> vpu_slab_sizes ! k"
    "\<forall>j<k. vpu_slab_sizes ! j < sz"
proof -
  obtain k where k: "find (\<lambda>i. sz \<le> vpu_slab_sizes ! i) [0..<VPU_SLAB_ORDER_COUNT] = Some k"
    using assms by (cases "find (\<lambda>i. sz \<le> vpu_slab_sizes ! i) [0..<VPU_SLAB_ORDER_COUNT]")
      (auto simp: find_None_iff VPU_SLAB_ORDER_COUNT_def)
  then have "k < VPU_SLAB_ORDER_COUNT" "sz \<le> vpu_slab_sizes ! k" "\<forall>j<k. vpu_slab_sizes ! j < sz"
    by (auto simp: find_Some_iff)
  with k show thesis by (intro that [of k]) (auto simp: vpu_select_order_def)
qed

lemma select_order_None: "vpu_slab_sizes ! 4 < sz \<Longrightarrow> vpu_select_order sz = - ENOSPC"
  by (simp add: vpu_select_order_def orders_upt vpu_slab_sizes_def)

text \<open>
  From order \<open>k\<close> on, allocation takes the first free block of the first order that has one.
\<close>

lemma alloc_at:
  assumes "k < VPU_SLAB_ORDER_COUNT"
  shows "vpu_slab_alloc v2p (vpu_slab_sizes ! k) d =
    (case slab_take k d of
       None \<Rightarrow> if k + 1 < VPU_SLAB_ORDER_COUNT then vpu_slab_alloc v2p (vpu_slab_sizes ! (k + 1)) d
         else (d, Inl (- ENOMEM))
     | Some (d, i) \<Rightarrow> (d, Inr (block_of v2p d k i)))"
  using assms by (subst vpu_slab_alloc.simps) (auto simp: select_order_size Let_def split: option.split)

lemma alloc_select:
  assumes "vpu_select_order sz = int k" "k < VPU_SLAB_ORDER_COUNT"
  shows "vpu_slab_alloc v2p sz d = vpu_slab_alloc v2p (vpu_slab_sizes ! k) d"
  using assms by (simp add: vpu_slab_alloc.simps [of _ sz] vpu_slab_alloc.simps [of _ "vpu_slab_sizes ! k"]
    select_order_size)

definition order_full :: "vpu_pools \<Rightarrow> nat \<Rightarrow> bool" where
  "order_full d k \<longleftrightarrow> (\<forall>i < slab_block_counts ! k. (k, i) \<in> taken d)"

definition placed_from :: "vpu_pools \<Rightarrow> nat \<Rightarrow> nat \<Rightarrow> vpu_pools \<Rightarrow> nat \<Rightarrow> bool" where
  "placed_from d k j d' i \<longleftrightarrow> k \<le> j \<and> j < VPU_SLAB_ORDER_COUNT \<and> slab_take j d = Some (d', i) \<and>
     (\<forall>m. k \<le> m \<longrightarrow> m < j \<longrightarrow> order_full d m)"

definition full_from :: "vpu_pools \<Rightarrow> nat \<Rightarrow> bool" where
  "full_from d k \<longleftrightarrow> (\<forall>m. k \<le> m \<longrightarrow> m < VPU_SLAB_ORDER_COUNT \<longrightarrow> order_full d m)"

lemma from_next:
  assumes "order_full d k"
  shows "placed_from d (k + 1) j d' i \<Longrightarrow> placed_from d k j d' i"
    and "full_from d (k + 1) \<Longrightarrow> full_from d k"
proof -
  have le: "k \<le> m \<longleftrightarrow> m = k \<or> k + 1 \<le> m" for m by auto
  show "placed_from d (k + 1) j d' i \<Longrightarrow> placed_from d k j d' i"
    using assms unfolding placed_from_def le [of j] by (auto simp: le)
  show "full_from d (k + 1) \<Longrightarrow> full_from d k"
    using assms unfolding full_from_def le by auto
qed

lemma alloc_from:
  assumes "pools_ok vz d" "k < VPU_SLAB_ORDER_COUNT"
  shows "(\<exists>j d' i. vpu_slab_alloc v2p (vpu_slab_sizes ! k) d = (d', Inr (block_of v2p d' j i)) \<and>
      placed_from d k j d' i)
    \<or> vpu_slab_alloc v2p (vpu_slab_sizes ! k) d = (d, Inl (- ENOMEM)) \<and> full_from d k"
  using assms(2)
proof (induction "VPU_SLAB_ORDER_COUNT - k" arbitrary: k)
  case (Suc n)
  note at = alloc_at [OF Suc.prems, of v2p d]
  show ?case
  proof (cases "slab_take k d")
    case None
    then have full: "order_full d k"
      using take_None [OF assms(1) Suc.prems] by (simp add: order_full_def)
    show ?thesis
    proof (cases "k + 1 < VPU_SLAB_ORDER_COUNT")
      case True
      have eq: "vpu_slab_alloc v2p (vpu_slab_sizes ! k) d = vpu_slab_alloc v2p (vpu_slab_sizes ! (k + 1)) d"
        using at None True by simp
      have "n = VPU_SLAB_ORDER_COUNT - (k + 1)" using Suc.hyps(2) by simp
      from Suc.hyps(1) [OF this True] show ?thesis
        unfolding eq using from_next [OF full] by blast
    next
      case False
      then have "full_from d k"
        unfolding full_from_def using full Suc.prems by (metis add.commute le_antisym less_eq_Suc_le not_less plus_1_eq_Suc)
      then show ?thesis using at None False by simp
    qed
  next
    case (Some r)
    obtain d' i where r: "r = (d', i)" by fastforce
    have "placed_from d k k d' i" using Some Suc.prems by (simp add: placed_from_def r)
    moreover have "vpu_slab_alloc v2p (vpu_slab_sizes ! k) d = (d', Inr (block_of v2p d' k i))"
      using at Some by (simp add: r)
    ultimately show ?thesis by blast
  qed
qed simp

definition fits_in :: "nat \<Rightarrow> nat \<Rightarrow> bool" where
  "fits_in sz k \<longleftrightarrow> k < VPU_SLAB_ORDER_COUNT \<and> sz \<le> vpu_slab_sizes ! k"

text \<open>
  A successful allocation: the smallest order that fits and has a free block, its first free block.
\<close>

definition best_block :: "vpu_pools \<Rightarrow> nat \<Rightarrow> nat \<times> nat \<Rightarrow> bool" where
  "best_block d sz b \<longleftrightarrow> fits_in sz (fst b) \<and> snd b < slab_block_counts ! fst b \<and> b \<notin> taken d \<and>
     (\<forall>i < snd b. (fst b, i) \<in> taken d) \<and> (\<forall>k < fst b. fits_in sz k \<longrightarrow> order_full d k)"

lemma fits_above:
  assumes "k < VPU_SLAB_ORDER_COUNT" "sz \<le> vpu_slab_sizes ! k" "\<forall>j<k. vpu_slab_sizes ! j < sz"
  shows "fits_in sz m \<longleftrightarrow> k \<le> m \<and> m < VPU_SLAB_ORDER_COUNT"
proof (cases "m < k")
  case True
  then have "\<not> sz \<le> vpu_slab_sizes ! m" using assms(3) by (simp add: not_le)
  then show ?thesis using True by (simp add: fits_in_def)
next
  case False
  then have "vpu_slab_sizes ! k \<le> vpu_slab_sizes ! m" if "m < VPU_SLAB_ORDER_COUNT"
    using sizes_mono [of k m] that by (cases "m = k") (auto simp: less_imp_le)
  then show ?thesis using False assms(2) by (auto simp: fits_in_def)
qed

lemma sizes_le_max: "k < VPU_SLAB_ORDER_COUNT \<Longrightarrow> vpu_slab_sizes ! k \<le> vpu_slab_sizes ! 4"
  by (drule less_orders [THEN iffD1]) (auto simp: vpu_slab_sizes_def)

lemma alloc_cases:
  assumes "pools_ok vz d"
  shows "(\<exists>j i d'. vpu_slab_alloc v2p sz d = (d', Inr (block_of v2p d' j i)) \<and> best_block d sz (j, i) \<and>
      slab_take j d = Some (d', i) \<and> j < VPU_SLAB_ORDER_COUNT)
    \<or> vpu_slab_alloc v2p sz d = (d, Inl (if sz \<le> vpu_slab_sizes ! 4 then - ENOMEM else - ENOSPC)) \<and>
      (\<forall>k. fits_in sz k \<longrightarrow> order_full d k)"
proof (cases "sz \<le> vpu_slab_sizes ! 4")
  case True
  obtain k where k: "vpu_select_order sz = int k" "k < VPU_SLAB_ORDER_COUNT" "sz \<le> vpu_slab_sizes ! k"
    "\<forall>j<k. vpu_slab_sizes ! j < sz"
    using True by (rule select_order_Some)
  note fits = fits_above [OF k(2-4)]
  have full: "full_from d k \<longleftrightarrow> (\<forall>m. fits_in sz m \<longrightarrow> order_full d m)"
    by (auto simp: full_from_def fits)
  have best: "best_block d sz (j, i)" if "placed_from d k j d' i" for j i d'
  proof -
    from that have j: "k \<le> j" "j < VPU_SLAB_ORDER_COUNT" "slab_take j d = Some (d', i)"
      "\<forall>m. k \<le> m \<longrightarrow> m < j \<longrightarrow> order_full d m" by (auto simp: placed_from_def)
    show ?thesis
      using take_Some(1,2,4) [OF assms j(2,3)] j by (simp add: best_block_def fits)
  qed
  from alloc_from [OF assms k(2), of v2p] show ?thesis
  proof
    assume "\<exists>j d' i. vpu_slab_alloc v2p (vpu_slab_sizes ! k) d = (d', Inr (block_of v2p d' j i)) \<and>
      placed_from d k j d' i"
    then obtain j d' i where "vpu_slab_alloc v2p (vpu_slab_sizes ! k) d = (d', Inr (block_of v2p d' j i))"
      and p: "placed_from d k j d' i" by blast
    then have "vpu_slab_alloc v2p sz d = (d', Inr (block_of v2p d' j i))"
      by (simp add: alloc_select [OF k(1,2)])
    with best [OF p] p show ?thesis unfolding placed_from_def by blast
  next
    assume "vpu_slab_alloc v2p (vpu_slab_sizes ! k) d = (d, Inl (- ENOMEM)) \<and> full_from d k"
    then show ?thesis using True full by (simp add: alloc_select [OF k(1,2)])
  qed
next
  case False
  then have "\<not> fits_in sz k" for k
    using sizes_le_max [of k] by (auto simp: fits_in_def)
  moreover have "vpu_slab_alloc v2p sz d = (d, Inl (- ENOSPC))"
    using False by (subst vpu_slab_alloc.simps) (simp add: select_order_None)
  ultimately show ?thesis using False by simp
qed

subsection \<open>Release\<close>

lemma free_taken:
  assumes "pools_ok vz d" "(k, i) \<in> taken d"
  shows "pools_ok vz (vpu_slab_free (int k) (int i) d)"
    "taken (vpu_slab_free (int k) (int i) d) = taken d - {(k, i)}"
    "ram (vpu_slab_free (int k) (int i) d) = zero_range (block_addr d k i) (vpu_slab_sizes ! k) (ram d)"
proof -
  let ?s = "slabs d ! k"
  have k: "k < VPU_SLAB_ORDER_COUNT" and i: "i < slab_block_counts ! k" and set: "vs_bitmap ?s ! i"
    using assms(2) by (auto simp: taken_def)
  note ok = pools_okD [OF assms(1) k] and le = counts_max [OF k]
  have eq: "vpu_slab_free (int k) (int i) d =
    d\<lparr>ram := zero_range (block_addr d k i) (vs_block_size ?s) (ram d),
      slabs := (slabs d)[k := ?s\<lparr>vs_bitmap := (vs_bitmap ?s)[i := False],
        vs_free_count := vs_free_count ?s + 1\<rparr>]\<rparr>"
    using k i set by (simp add: vpu_slab_free_def Let_def ok)
  have "slab_ok k (vz k) ?s" using assms(1) k by (auto simp: pools_ok_def)
  moreover have "card {j. j < slab_block_counts ! k \<and> vs_bitmap ?s ! j} =
      Suc (card {j. j < slab_block_counts ! k \<and> (vs_bitmap ?s)[i := False] ! j})"
    using card_delete_bit [OF i set] le ok by simp
  ultimately have "slab_ok k (vz k) (?s\<lparr>vs_bitmap := (vs_bitmap ?s)[i := False], vs_free_count := vs_free_count ?s + 1\<rparr>)"
    by (auto simp: slab_ok_def algebra_simps)
  from pools_ok_update [OF assms(1) this] show "pools_ok vz (vpu_slab_free (int k) (int i) d)"
    by (simp add: eq pools_ok_def)
  show "taken (vpu_slab_free (int k) (int i) d) = taken d - {(k, i)}"
    using k i le by (auto simp: taken_def eq nth_list_update ok split: if_splits)
  show "ram (vpu_slab_free (int k) (int i) d) = zero_range (block_addr d k i) (vpu_slab_sizes ! k) (ram d)"
    by (simp add: eq ok)
qed

text \<open>Releasing what is not taken, or what is not a block, does nothing.\<close>

lemma free_other:
  assumes "pools_ok vz d" "\<not> (0 \<le> k \<and> 0 \<le> i \<and> (nat k, nat i) \<in> taken d)"
  shows "vpu_slab_free k i d = d"
proof (cases "k < 0 \<or> int VPU_SLAB_ORDER_COUNT \<le> k")
  case False
  then have k: "nat k < VPU_SLAB_ORDER_COUNT" by auto
  show ?thesis
    using assms(2) False k by (auto simp: vpu_slab_free_def Let_def pools_okD [OF assms(1) k] taken_def)
qed (auto simp: vpu_slab_free_def)

subsection \<open>Where the blocks are\<close>

text \<open>What \<open>vzalloc\<close> promises: pools in different places.\<close>

definition pool_bytes :: "nat \<Rightarrow> nat" where
  "pool_bytes k = vpu_slab_sizes ! k * slab_block_counts ! k"

definition apart :: "(nat \<Rightarrow> nat) \<Rightarrow> bool" where
  "apart vz \<longleftrightarrow> (\<forall>j < VPU_SLAB_ORDER_COUNT. vz j \<noteq> 0) \<and>
     (\<forall>j < VPU_SLAB_ORDER_COUNT. \<forall>k < VPU_SLAB_ORDER_COUNT. j \<noteq> k \<longrightarrow>
       vz j + pool_bytes j \<le> vz k \<or> vz k + pool_bytes k \<le> vz j)"

definition block_range :: "(nat \<Rightarrow> nat) \<Rightarrow> nat \<times> nat \<Rightarrow> nat set" where
  "block_range vz b = {vz (fst b) + snd b * vpu_slab_sizes ! fst b ..<
     vz (fst b) + snd b * vpu_slab_sizes ! fst b + vpu_slab_sizes ! fst b}"

lemma block_in_pool:
  assumes "i < slab_block_counts ! k"
  shows "block_range vz (k, i) \<subseteq> {vz k ..< vz k + pool_bytes k}"
proof -
  have "(i + 1) * vpu_slab_sizes ! k \<le> slab_block_counts ! k * vpu_slab_sizes ! k"
    using assms by (intro mult_right_mono) auto
  then have "i * vpu_slab_sizes ! k + vpu_slab_sizes ! k \<le> pool_bytes k"
    by (simp add: pool_bytes_def algebra_simps)
  then show ?thesis by (auto simp: block_range_def)
qed

lemma slots_apart:
  assumes "i < (j :: nat)" shows "i * n + n \<le> j * n"
proof -
  have "(i + 1) * n \<le> j * n" using assms by (intro mult_right_mono) auto
  then show ?thesis by (simp add: algebra_simps)
qed

lemma blocks_disjoint:
  assumes "apart vz" "b \<noteq> c"
    and "fst b < VPU_SLAB_ORDER_COUNT" "snd b < slab_block_counts ! fst b"
    and "fst c < VPU_SLAB_ORDER_COUNT" "snd c < slab_block_counts ! fst c"
  shows "block_range vz b \<inter> block_range vz c = {}"
proof (cases "fst b = fst c")
  case True
  then have "snd b < snd c \<or> snd c < snd b" using assms(2) by (auto simp: prod_eq_iff)
  then show ?thesis
    using slots_apart [of "snd b" "snd c" "vpu_slab_sizes ! fst b"]
      slots_apart [of "snd c" "snd b" "vpu_slab_sizes ! fst b"] True
    by (auto simp: block_range_def)
next
  case False
  have "block_range vz b \<subseteq> {vz (fst b) ..< vz (fst b) + pool_bytes (fst b)}"
    "block_range vz c \<subseteq> {vz (fst c) ..< vz (fst c) + pool_bytes (fst c)}"
    using block_in_pool [OF assms(4), of vz] block_in_pool [OF assms(6), of vz] by simp_all
  moreover have "vz (fst b) + pool_bytes (fst b) \<le> vz (fst c) \<or> vz (fst c) + pool_bytes (fst c) \<le> vz (fst b)"
    using assms(1,3,5) False by (auto simp: apart_def)
  ultimately show ?thesis by fastforce
qed

lemma block_addr_range:
  assumes "pools_ok vz d" "k < VPU_SLAB_ORDER_COUNT"
  shows "block_range vz (k, i) = {block_addr d k i ..< block_addr d k i + vpu_slab_sizes ! k}"
  by (simp add: block_range_def block_addr_def pools_okD [OF assms])

subsection \<open>Creation\<close>

lemma setup_other: "j \<noteq> i \<Longrightarrow> slabs (slab_setup vz i d) ! j = slabs d ! j"
  by (simp add: slab_setup_def)

lemma setup_same:
  assumes "length (slabs d) = VPU_SLAB_ORDER_COUNT" "i < VPU_SLAB_ORDER_COUNT"
  shows "slab_ok i (vz i) (slabs (slab_setup vz i d) ! i)"
    "\<forall>j < slab_block_counts ! i. \<not> vs_bitmap (slabs (slab_setup vz i d) ! i) ! j"
    "length (slabs (slab_setup vz i d)) = VPU_SLAB_ORDER_COUNT"
    "vz i \<noteq> 0 \<Longrightarrow> ram (slab_setup vz i d) = zero_range (vz i) (pool_bytes i) (ram d)"
proof -
  have none: "(j < slab_block_counts ! i \<and> replicate VPU_SLAB_MAX_BLOCKS False ! j) = False" for j
    using counts_max [OF assms(2)] by auto
  show "slab_ok i (vz i) (slabs (slab_setup vz i d) ! i)"
    using assms by (simp add: slab_setup_def slab_ok_def none)
  show "\<forall>j < slab_block_counts ! i. \<not> vs_bitmap (slabs (slab_setup vz i d) ! i) ! j"
    using assms counts_max [OF assms(2)] by (simp add: slab_setup_def)
qed (use assms in \<open>simp_all add: slab_setup_def pool_bytes_def\<close>)

text \<open>A pool as \<open>vpu_slab_init\<close> leaves it: consistent, no block taken, its memory zero.\<close>

definition pool_fresh :: "(nat \<Rightarrow> nat) \<Rightarrow> vpu_pools \<Rightarrow> nat \<Rightarrow> bool" where
  "pool_fresh vz d k \<longleftrightarrow> slab_ok k (vz k) (slabs d ! k) \<and>
     (\<forall>j < slab_block_counts ! k. \<not> vs_bitmap (slabs d ! k) ! j) \<and>
     (\<forall>x \<in> {vz k ..< vz k + pool_bytes k}. ram d x = 0)"

definition pools_fresh :: "(nat \<Rightarrow> nat) \<Rightarrow> vpu_pools \<Rightarrow> bool" where
  "pools_fresh vz d \<longleftrightarrow> length (slabs d) = VPU_SLAB_ORDER_COUNT \<and>
     (\<forall>k < VPU_SLAB_ORDER_COUNT. pool_fresh vz d k)"

lemma pools_freshD:
  assumes "pools_fresh vz d"
  shows "pools_ok vz d" "taken d = {}"
  using assms by (auto simp: pools_fresh_def pool_fresh_def pools_ok_def taken_def)

lemma fresh_setup:
  assumes "length (slabs d) = VPU_SLAB_ORDER_COUNT" "i < VPU_SLAB_ORDER_COUNT" "vz i \<noteq> 0"
    and "\<forall>k<i. pool_fresh vz d k" "k < i + 1"
  shows "pool_fresh vz (slab_setup vz i d) k"
proof (cases "k = i")
  case True
  then show ?thesis using setup_same [OF assms(1,2), of vz] assms(3)
    by (simp add: pool_fresh_def zero_range_def)
next
  case False
  then have "pool_fresh vz d k" using assms(4,5) by simp
  then show ?thesis using setup_same(4) [where vz = vz, OF assms(1-3)] False
    by (simp add: pool_fresh_def setup_other zero_range_def)
qed

lemma init_loop_ok:
  assumes "length (slabs d) = VPU_SLAB_ORDER_COUNT" "i + n = VPU_SLAB_ORDER_COUNT"
    and "\<forall>k < VPU_SLAB_ORDER_COUNT. vz k \<noteq> 0" and "\<forall>k<i. pool_fresh vz d k"
  shows "\<exists>d'. slab_init_loop vz n i d = (d', 0) \<and> pools_fresh vz d'"
  using assms
proof (induction n arbitrary: i d)
  case 0
  then show ?case by (simp add: pools_fresh_def)
next
  case (Suc n)
  let ?d = "slab_setup vz i d"
  have i: "i < VPU_SLAB_ORDER_COUNT" using Suc.prems(2) by simp
  note same = setup_same [OF Suc.prems(1) i, of vz]
  have "vs_pool_base (slabs ?d ! i) \<noteq> 0" using same(1) Suc.prems(3) i by (simp add: slab_ok_def)
  moreover have "\<forall>k < i + 1. pool_fresh vz ?d k"
    using fresh_setup [OF Suc.prems(1) i _ Suc.prems(4)] Suc.prems(3) i by simp
  ultimately show ?case
    using Suc.IH [of ?d "i + 1"] same(3) Suc.prems(2,3) by simp
qed

lemma pools_init_ok:
  assumes "length (slabs d) = VPU_SLAB_ORDER_COUNT" "\<forall>k < VPU_SLAB_ORDER_COUNT. vz k \<noteq> 0"
  shows "\<exists>d'. vpu_slab_init vz d = (d', 0) \<and> pools_fresh vz d'"
  unfolding vpu_slab_init_def using assms by (intro init_loop_ok) auto

text \<open>When a pool cannot be had, those already created are released.\<close>

definition no_pool :: "vpu_pools \<Rightarrow> nat \<Rightarrow> bool" where
  "no_pool d k \<longleftrightarrow> vs_pool_base (slabs d ! k) = 0"

lemma rollback_frees:
  assumes "i \<le> length (slabs d)"
  shows "no_pool (slab_rollback i d) k \<longleftrightarrow> k < i \<or> no_pool d k"
  using assms
proof (induction i arbitrary: d)
  case (Suc i)
  have "no_pool (vfree_pool i d) k \<longleftrightarrow> k = i \<or> no_pool d k"
    using Suc.prems by (cases "k = i") (simp_all add: vfree_pool_def no_pool_def)
  then show ?case using Suc by (auto simp: vfree_pool_def)
qed simp

lemma init_loop_fails:
  assumes "length (slabs d) = VPU_SLAB_ORDER_COUNT" "i + n = VPU_SLAB_ORDER_COUNT"
    and "\<exists>k \<ge> i. k < VPU_SLAB_ORDER_COUNT \<and> vz k = 0" "\<forall>k < VPU_SLAB_ORDER_COUNT. i \<le> k \<longrightarrow> no_pool d k"
  shows "\<exists>d'. slab_init_loop vz n i d = (d', - ENOMEM) \<and> (\<forall>k < VPU_SLAB_ORDER_COUNT. no_pool d' k)"
  using assms
proof (induction n arbitrary: i d)
  case 0
  then show ?case by auto
next
  case (Suc n)
  let ?d = "slab_setup vz i d"
  have i: "i < VPU_SLAB_ORDER_COUNT" using Suc.prems(2) by simp
  note same = setup_same [OF Suc.prems(1) i, of vz]
  have base: "vs_pool_base (slabs ?d ! i) = vz i" using same(1) by (simp add: slab_ok_def)
  have later: "\<forall>k < VPU_SLAB_ORDER_COUNT. i + 1 \<le> k \<longrightarrow> no_pool ?d k" using Suc.prems(4) by (simp add: no_pool_def setup_other)
  show ?case
  proof (cases "vz i = 0")
    case True
    then have "no_pool ?d i" using base by (simp add: no_pool_def)
    then have "k < i \<or> no_pool ?d k" if "k < VPU_SLAB_ORDER_COUNT" for k
      using later that by (metis Suc_eq_plus1 Suc_leI nat_neq_iff)
    then have "no_pool (slab_rollback i ?d) k" if "k < VPU_SLAB_ORDER_COUNT" for k
      using that rollback_frees [of i ?d k] same(3) i by simp
    then show ?thesis using base True by simp
  next
    case False
    then have "\<exists>k \<ge> i + 1. k < VPU_SLAB_ORDER_COUNT \<and> vz k = 0"
      using Suc.prems(3) by (metis Suc_eq_plus1 le_neq_implies_less less_eq_Suc_le)
    then show ?thesis
      using Suc.IH [of ?d "i + 1"] same(3) Suc.prems(2) later False base by simp
  qed
qed

lemma destroy_loop_frees:
  assumes "i + n = VPU_SLAB_ORDER_COUNT" "length (slabs d) = VPU_SLAB_ORDER_COUNT" "\<forall>k<i. no_pool d k"
  shows "\<forall>k < VPU_SLAB_ORDER_COUNT. no_pool (slab_destroy_loop n i d) k"
  using assms
proof (induction n arbitrary: i d)
  case (Suc n)
  let ?d = "if vs_pool_base (slabs d ! i) \<noteq> 0 then vfree_pool i d else d"
  have "\<forall>k < i + 1. no_pool ?d k"
    using Suc.prems by (auto simp: no_pool_def vfree_pool_def less_Suc_eq)
  moreover have "length (slabs ?d) = VPU_SLAB_ORDER_COUNT"
    using Suc.prems(2) by (simp add: vfree_pool_def)
  ultimately show ?case using Suc.IH [of "i + 1" ?d] Suc.prems(1) by simp
qed simp

subsection \<open>Properties\<close>

text \<open>C21. Allocation is complete and best-fit.  If some pool whose blocks are large enough for the request
  has a free block, \<open>vpu_slab_alloc\<close> succeeds: it takes the first free block of the smallest such pool,
  marks exactly that block, and leaves memory alone.  If none has, it fails and changes nothing, with
  \<open>ENOSPC\<close> for a request larger than the largest block and \<open>ENOMEM\<close> otherwise.
\<close>

theorem vpu_alloc_best_fit:
  assumes "pools_ok vz d"
  shows "if \<exists>b. best_block d sz b
    then \<exists>k i d'. best_block d sz (k, i) \<and> vpu_slab_alloc v2p sz d = (d', Inr (block_of v2p d k i)) \<and>
      pools_ok vz d' \<and> taken d' = insert (k, i) (taken d) \<and> ram d' = ram d
    else vpu_slab_alloc v2p sz d = (d, Inl (if sz \<le> vpu_slab_sizes ! 4 then - ENOMEM else - ENOSPC))"
  using alloc_cases [OF assms, of v2p sz]
proof
  assume "\<exists>j i d'. vpu_slab_alloc v2p sz d = (d', Inr (block_of v2p d' j i)) \<and> best_block d sz (j, i) \<and>
    slab_take j d = Some (d', i) \<and> j < VPU_SLAB_ORDER_COUNT"
  then obtain j i d' where a: "vpu_slab_alloc v2p sz d = (d', Inr (block_of v2p d' j i))"
    "best_block d sz (j, i)" "slab_take j d = Some (d', i)" "j < VPU_SLAB_ORDER_COUNT" by blast
  note t = take_Some [OF assms a(4,3)]
  have "block_of v2p d' j i = block_of v2p d j i"
    by (simp add: block_of_def block_addr_def pools_okD [OF assms a(4)] pools_okD [OF t(5) a(4)])
  with a t show ?thesis by auto
next
  assume fail: "vpu_slab_alloc v2p sz d = (d, Inl (if sz \<le> vpu_slab_sizes ! 4 then - ENOMEM else - ENOSPC)) \<and>
    (\<forall>k. fits_in sz k \<longrightarrow> order_full d k)"
  then have "\<not> best_block d sz b" for b
    by (cases b) (auto simp: best_block_def order_full_def)
  with fail show ?thesis by simp
qed

text \<open>Five pools at multiples of 4 GiB, for the witnesses.\<close>

definition sample_vz :: "nat \<Rightarrow> nat" where
  "sample_vz k = 4294967296 * (k + 1)"

definition blank_pools :: vpu_pools where
  "blank_pools = \<lparr>slabs = replicate VPU_SLAB_ORDER_COUNT \<lparr>vs_block_size = 0, vs_nr_blocks = 0,
     vs_bitmap = replicate VPU_SLAB_MAX_BLOCKS False, vs_pool_base = 0, vs_alloc_count = 0,
     vs_free_count = 0\<rparr>, ram = (\<lambda>_. 0xAA)\<rparr>"

definition sample_pools :: vpu_pools where
  "sample_pools = fst (vpu_slab_init sample_vz blank_pools)"

lemma sample_fresh: "pools_fresh sample_vz sample_pools"
  using pools_init_ok [of blank_pools sample_vz]
  by (auto simp: sample_pools_def blank_pools_def sample_vz_def)

lemma sample_apart: "apart sample_vz"
  by (auto simp: apart_def less_orders sample_vz_def pool_bytes_def vpu_slab_sizes_def slab_block_counts_def)

theorem vpu_alloc_best_fit_witness:
  "\<exists>d'. vpu_slab_alloc (\<lambda>a. a) 5000 sample_pools = (d', Inr (block_of (\<lambda>a. a) sample_pools 1 0)) \<and>
     taken d' = {(1, 0)}"
proof -
  note fresh = pools_freshD [OF sample_fresh]
  have best: "best_block sample_pools 5000 b \<longleftrightarrow> b = (1, 0)" for b
  proof
    assume b: "best_block sample_pools 5000 b"
    then have "snd b = 0" by (auto simp: best_block_def fresh)
    moreover have "fits_in 5000 1" "\<not> order_full sample_pools 1"
      by (auto simp: fits_in_def vpu_slab_sizes_def VPU_SLAB_ORDER_COUNT_def order_full_def fresh
        slab_block_counts_def intro: exI [of _ 0])
    then have "\<not> 1 < fst b" using b by (auto simp: best_block_def)
    moreover have "\<not> fits_in 5000 0" by (simp add: fits_in_def vpu_slab_sizes_def)
    then have "fst b \<noteq> 0" using b by (metis best_block_def)
    ultimately show "b = (1, 0)" by (simp add: prod_eq_iff)
  next
    assume "b = (1, 0)"
    then show "best_block sample_pools 5000 b"
      by (auto simp: best_block_def fits_in_def vpu_slab_sizes_def VPU_SLAB_ORDER_COUNT_def fresh
        slab_block_counts_def)
  qed
  show ?thesis
    using vpu_alloc_best_fit [OF fresh(1), of 5000 "\<lambda>a. a"] by (auto simp: best fresh)
qed

text \<open>A block that is allocated and released leaves the pools as they were: the same blocks are taken,
  nothing but the block's memory has changed, and that reads as zero.
\<close>

theorem vpu_alloc_free_roundtrip:
  assumes "pools_ok vz d" "vpu_slab_alloc v2p sz d = (d', Inr b)"
  shows "let d'' = vpu_slab_free (vb_order b) (vb_block_idx b) d' in
    pools_ok vz d'' \<and> taken d'' = taken d \<and>
    ram d'' = zero_range (vb_cpu_addr b) (vpu_slab_sizes ! nat (vb_order b)) (ram d)"
proof -
  from alloc_cases [OF assms(1), of v2p sz] assms(2)
  obtain k i where b: "b = block_of v2p d' k i" and "slab_take k d = Some (d', i)"
    and k: "k < VPU_SLAB_ORDER_COUNT" by auto
  note t = take_Some [OF assms(1) k this(2)]
  have mem: "(k, i) \<in> taken d'" using t(3) by simp
  note f = free_taken [OF t(5) mem]
  show ?thesis using f t(2,3,6) by (simp add: b block_of_def Let_def)
qed

theorem vpu_alloc_free_roundtrip_witness:
  "\<exists>d' b. vpu_slab_alloc (\<lambda>a. a) 5000 sample_pools = (d', Inr b) \<and>
     taken (vpu_slab_free (vb_order b) (vb_block_idx b) d') = {}"
proof -
  note fresh = pools_freshD [OF sample_fresh]
  have "best_block sample_pools 5000 (1, 0)"
    by (auto simp: best_block_def fits_in_def vpu_slab_sizes_def VPU_SLAB_ORDER_COUNT_def fresh slab_block_counts_def)
  then obtain d' b where "vpu_slab_alloc (\<lambda>a. a) 5000 sample_pools = (d', Inr b)"
    using alloc_cases [OF fresh(1), of "\<lambda>a. a" 5000] by (auto simp: best_block_def order_full_def)
  with vpu_alloc_free_roundtrip [OF fresh(1) this] show ?thesis
    by (auto simp: Let_def fresh)
qed

text \<open>When \<open>vzalloc\<close> fails for one of the pools, \<open>vpu_slab_init\<close> returns \<open>ENOMEM\<close> and no pool is left
  allocated.
\<close>

theorem vpu_init_rolls_back:
  assumes "length (slabs d) = VPU_SLAB_ORDER_COUNT" "\<forall>k < VPU_SLAB_ORDER_COUNT. no_pool d k"
    and "k < VPU_SLAB_ORDER_COUNT" "vz k = 0"
  shows "snd (vpu_slab_init vz d) = - ENOMEM \<and>
    (\<forall>j < VPU_SLAB_ORDER_COUNT. no_pool (fst (vpu_slab_init vz d)) j)"
proof -
  have "\<exists>d'. slab_init_loop vz VPU_SLAB_ORDER_COUNT 0 d = (d', - ENOMEM) \<and>
      (\<forall>k < VPU_SLAB_ORDER_COUNT. no_pool d' k)"
    using assms by (intro init_loop_fails) auto
  then show ?thesis by (auto simp: vpu_slab_init_def)
qed

theorem vpu_init_rolls_back_witness:
  "snd (vpu_slab_init (\<lambda>k. if k = 3 then 0 else sample_vz k) blank_pools) = - ENOMEM \<and>
   no_pool (fst (vpu_slab_init (\<lambda>k. if k = 3 then 0 else sample_vz k) blank_pools)) 0"
  using vpu_init_rolls_back [of blank_pools 3 "\<lambda>k. if k = 3 then 0 else sample_vz k"]
  by (simp add: blank_pools_def no_pool_def VPU_SLAB_ORDER_COUNT_def)

end
