(* ===== verification/Vpu_Driver.thy ===== *)
theory Vpu_Driver
  imports Vpu_Slab
begin

text \<open>
  The VPU driver over its pools: the table of allocations and the requests of \<open>kernel/vpu/vpu_ioctl.c\<close>,
  sharing through dma-bufs (\<open>vpu_dma.c\<close>), and \<open>vpu_mmap\<close> and the module's start and end
  (\<open>vpu_main.c\<close>).  Allocation records live at the addresses \<open>kzalloc\<close> returns, \<open>kfree\<close> removes them,
  and reading a record that is gone is \<open>None\<close>.  What the kernel answers is a parameter: the address of
  \<open>kzalloc\<close> (0 on failure), whether copying the request fails, and the results of the dma-buf calls.
\<close>

subsection \<open>State\<close>

record vpu_allocation =
  va_handle :: u64
  va_order :: int
  va_block_idx :: int
  va_size :: nat
  va_cpu_addr :: nat
  va_dma_addr :: nat
  va_gpu_addr :: u64
  va_flags :: u32
  va_dmabuf :: nat

text \<open>
  \<open>dma_bufs\<close> has the live buffers that carry the driver's operations, with their \<open>priv\<close> pointer.
\<close>

record vpu_device =
  pools :: vpu_pools
  alloc_heap :: "nat \<Rightarrow> vpu_allocation option"
  alloc_list :: "nat list"
  next_handle :: u64
  next_gpu_addr :: u64
  total_allocated :: u64
  total_freed :: u64
  active_allocs :: u64
  dma_bufs :: "nat \<Rightarrow> nat option"

definition kzalloc_record :: vpu_allocation where
  "kzalloc_record = \<lparr>va_handle = 0, va_order = 0, va_block_idx = 0, va_size = 0, va_cpu_addr = 0,
     va_dma_addr = 0, va_gpu_addr = 0, va_flags = 0, va_dmabuf = 0\<rparr>"

record vpu_alloc_req =
  aq_size :: u64
  aq_flags :: u32
  aq_handle :: u64
  aq_gpu_addr :: u64

record vpu_map_req =
  mq_handle :: u64
  mq_offset :: u64
  mq_size :: u64

record vpu_query_req =
  qq_handle :: u64
  qq_size :: u64
  qq_order :: u32
  qq_flags :: u32
  qq_gpu_addr :: u64

text \<open>Whether \<open>copy_from_user\<close> and \<open>copy_to_user\<close> fail, and the address \<open>kzalloc\<close> returns.\<close>

record kernel_env =
  in_fault :: bool
  out_fault :: bool
  kzalloc_addr :: nat

subsection \<open>The table of allocations\<close>

fun find_handle :: "(nat \<Rightarrow> vpu_allocation option) \<Rightarrow> u64 \<Rightarrow> nat list \<Rightarrow> nat option option" where
  "find_handle heap h [] = Some None"
| "find_handle heap h (a # as) =
     do { al \<leftarrow> heap a; if va_handle al = h then Some (Some a) else find_handle heap h as }"

definition vpu_find_alloc :: "vpu_device \<Rightarrow> u64 \<Rightarrow> nat option option" where
  "vpu_find_alloc d h = find_handle (alloc_heap d) h (alloc_list d)"

text \<open>The critical section that ends an allocation.\<close>

definition list_alloc :: "nat \<Rightarrow> u32 \<Rightarrow> vpu_block \<Rightarrow> vpu_device \<Rightarrow> vpu_device" where
  "list_alloc ptr flags b d =
     (let sz = vpu_slab_sizes ! nat (vb_order b) in
      d\<lparr>alloc_heap := (alloc_heap d)(ptr \<mapsto>
          \<lparr>va_handle = next_handle d, va_order = vb_order b, va_block_idx = vb_block_idx b, va_size = sz,
           va_cpu_addr = vb_cpu_addr b, va_dma_addr = vb_dma_addr b, va_gpu_addr = next_gpu_addr d,
           va_flags = flags, va_dmabuf = 0\<rparr>),
        alloc_list := alloc_list d @ [ptr],
        next_handle := next_handle d + 1,
        next_gpu_addr := next_gpu_addr d + of_nat sz,
        total_allocated := total_allocated d + of_nat sz,
        active_allocs := active_allocs d + 1\<rparr>)"

text \<open>
  The handle and the address that are returned are those of the critical section.  The code reads them
  from the record after it has released \<open>alloc_lock\<close>; a concurrent FREE of the new handle, which can be
  guessed, may have freed the record by then, which is not modelled.
\<close>

definition vpu_ioctl_alloc :: "(nat \<Rightarrow> nat) \<Rightarrow> kernel_env \<Rightarrow> vpu_alloc_req \<Rightarrow> vpu_device
    \<Rightarrow> vpu_device \<times> int \<times> vpu_alloc_req" where
  "vpu_ioctl_alloc v2p env req d =
     (if in_fault env then (d, - EFAULT, req)
      else if aq_size req = 0 then (d, - EINVAL, req)
      else
        let ptr = kzalloc_addr env in
        if ptr = 0 then (d, - ENOMEM, req)
        else
          let d = d\<lparr>alloc_heap := (alloc_heap d)(ptr \<mapsto> kzalloc_record)\<rparr> in
          case vpu_slab_alloc v2p (unat (aq_size req)) (pools d) of
            (p, Inl ret) \<Rightarrow> (d\<lparr>pools := p, alloc_heap := (alloc_heap d)(ptr := None)\<rparr>, ret, req)
          | (p, Inr b) \<Rightarrow>
              let d' = list_alloc ptr (aq_flags req) b (d\<lparr>pools := p\<rparr>) in
              if out_fault env then (d', - EFAULT, req)
              else (d', 0, req\<lparr>aq_handle := next_handle d, aq_gpu_addr := next_gpu_addr d\<rparr>))"

text \<open>The two parts of a release: under \<open>alloc_lock\<close>, and after it.\<close>

definition unlist :: "u64 \<Rightarrow> vpu_device \<Rightarrow> (vpu_device \<times> nat option) option" where
  "unlist h d = do {
     found \<leftarrow> vpu_find_alloc d h;
     case found of
       None \<Rightarrow> Some (d, None)
     | Some a \<Rightarrow> Some (d\<lparr>alloc_list := remove1 a (alloc_list d)\<rparr>, Some a) }"

definition reclaim :: "nat \<Rightarrow> vpu_device \<Rightarrow> vpu_device option" where
  "reclaim a d = do {
     al \<leftarrow> alloc_heap d a;
     Some (d\<lparr>pools := vpu_slab_free (va_order al) (va_block_idx al) (pools d),
       total_freed := total_freed d + of_nat (va_size al),
       active_allocs := active_allocs d - 1,
       alloc_heap := (alloc_heap d)(a := None)\<rparr>) }"

definition vpu_ioctl_free :: "kernel_env \<Rightarrow> u64 \<Rightarrow> vpu_device \<Rightarrow> (vpu_device \<times> int) option" where
  "vpu_ioctl_free env h d =
     (if in_fault env then Some (d, - EFAULT)
      else do {
        (d, found) \<leftarrow> unlist h d;
        case found of
          None \<Rightarrow> Some (d, - ENOENT)
        | Some a \<Rightarrow> do { d \<leftarrow> reclaim a d; Some (d, 0) } })"

definition vpu_ioctl_map :: "kernel_env \<Rightarrow> vpu_map_req \<Rightarrow> vpu_device \<Rightarrow> (int \<times> vpu_map_req) option" where
  "vpu_ioctl_map env req d =
     (if in_fault env then Some (- EFAULT, req)
      else do {
        found \<leftarrow> vpu_find_alloc d (mq_handle req);
        case found of
          None \<Rightarrow> Some (- ENOENT, req)
        | Some a \<Rightarrow> do {
            al \<leftarrow> alloc_heap d a;
            if out_fault env then Some (- EFAULT, req)
            else Some (0, req\<lparr>mq_offset := of_nat (va_dma_addr al), mq_size := of_nat (va_size al)\<rparr>) } })"

definition vpu_ioctl_query :: "kernel_env \<Rightarrow> vpu_query_req \<Rightarrow> vpu_device \<Rightarrow> (int \<times> vpu_query_req) option" where
  "vpu_ioctl_query env req d =
     (if in_fault env then Some (- EFAULT, req)
      else do {
        found \<leftarrow> vpu_find_alloc d (qq_handle req);
        case found of
          None \<Rightarrow> Some (- ENOENT, req)
        | Some a \<Rightarrow> do {
            al \<leftarrow> alloc_heap d a;
            if out_fault env then Some (- EFAULT, req)
            else Some (0, req\<lparr>qq_size := of_nat (va_size al), qq_order := of_int (va_order al),
              qq_flags := va_flags al, qq_gpu_addr := va_gpu_addr al\<rparr>) } })"

subsection \<open>Sharing through dma-bufs\<close>

text \<open>
  \<open>dma_buf_export\<close> answers an error or a new buffer, \<open>dma_buf_fd\<close> a descriptor or an error.  Dropping
  the last reference runs \<open>vpu_dmabuf_release\<close>, which writes through the \<open>priv\<close> pointer.
\<close>

definition vpu_dmabuf_release :: "nat \<Rightarrow> vpu_device \<Rightarrow> vpu_device option" where
  "vpu_dmabuf_release buf d = do {
     a \<leftarrow> dma_bufs d buf;
     al \<leftarrow> alloc_heap d a;
     Some (d\<lparr>alloc_heap := (alloc_heap d)(a \<mapsto> al\<lparr>va_dmabuf := 0\<rparr>),
       dma_bufs := (dma_bufs d)(buf := None)\<rparr>) }"

definition vpu_dma_buf_export :: "int + nat \<Rightarrow> int \<Rightarrow> nat \<Rightarrow> vpu_device \<Rightarrow> (vpu_device \<times> (int + int)) option" where
  "vpu_dma_buf_export exported fd a d = do {
     al \<leftarrow> alloc_heap d a;
     if va_dmabuf al \<noteq> 0 then Some (d, if fd < 0 then Inl fd else Inr fd)
     else case exported of
       Inl e \<Rightarrow> Some (d, Inl e)
     | Inr buf \<Rightarrow>
         let d = d\<lparr>dma_bufs := (dma_bufs d)(buf \<mapsto> a)\<rparr> in
         if fd < 0 then do { d \<leftarrow> vpu_dmabuf_release buf d; Some (d, Inl fd) }
         else Some (d\<lparr>alloc_heap := (alloc_heap d)(a \<mapsto> al\<lparr>va_dmabuf := buf\<rparr>)\<rparr>, Inr fd) }"

definition vpu_ioctl_export_dma :: "kernel_env \<Rightarrow> int + nat \<Rightarrow> int \<Rightarrow> u64 \<Rightarrow> vpu_device
    \<Rightarrow> (vpu_device \<times> (int + int)) option" where
  "vpu_ioctl_export_dma env exported fd h d =
     (if in_fault env then Some (d, Inl (- EFAULT))
      else do {
        found \<leftarrow> vpu_find_alloc d h;
        case found of
          None \<Rightarrow> Some (d, Inl (- ENOENT))
        | Some a \<Rightarrow> do {
            (d, r) \<leftarrow> vpu_dma_buf_export exported fd a d;
            case r of
              Inl e \<Rightarrow> Some (d, Inl e)
            | Inr n \<Rightarrow> Some (d, if out_fault env then Inl (- EFAULT) else Inr n) } })"

text \<open>
  What a descriptor to import stands for: an error, a buffer of the driver's own, or a foreign buffer
  with its size, the answers of attaching, mapping and \<open>vmap\<close> (0 or an error), and its addresses.
\<close>

record foreign_buf =
  fb_id :: nat
  fb_size :: nat
  fb_attach :: int
  fb_map :: int
  fb_vmap :: int
  fb_vaddr :: nat
  fb_dma :: nat

datatype dma_source = Bad_Fd int | Own_Buf nat | Foreign foreign_buf

definition list_import :: "nat \<Rightarrow> u32 \<Rightarrow> foreign_buf \<Rightarrow> vpu_device \<Rightarrow> vpu_device" where
  "list_import ptr flags f d =
     d\<lparr>alloc_heap := (alloc_heap d)(ptr \<mapsto>
         \<lparr>va_handle = next_handle d, va_order = -1, va_block_idx = -1, va_size = fb_size f,
          va_cpu_addr = fb_vaddr f, va_dma_addr = fb_dma f, va_gpu_addr = next_gpu_addr d,
          va_flags = flags, va_dmabuf = fb_id f\<rparr>),
       alloc_list := alloc_list d @ [ptr],
       next_handle := next_handle d + 1,
       next_gpu_addr := next_gpu_addr d + of_nat (fb_size f),
       active_allocs := active_allocs d + 1\<rparr>"

definition vpu_dma_buf_import :: "kernel_env \<Rightarrow> u32 \<Rightarrow> dma_source \<Rightarrow> vpu_device
    \<Rightarrow> (vpu_device \<times> (int + nat)) option" where
  "vpu_dma_buf_import env flags src d =
     (case src of
        Bad_Fd e \<Rightarrow> Some (d, Inl e)
      | Own_Buf buf \<Rightarrow> do { a \<leftarrow> dma_bufs d buf; Some (d, Inr a) }
      | Foreign f \<Rightarrow>
          if fb_attach f \<noteq> 0 then Some (d, Inl (fb_attach f))
          else if fb_map f \<noteq> 0 then Some (d, Inl (fb_map f))
          else if fb_vmap f \<noteq> 0 then Some (d, Inl (fb_vmap f))
          else if kzalloc_addr env = 0 then Some (d, Inl (- ENOMEM))
          else Some (list_import (kzalloc_addr env) flags f d, Inr (kzalloc_addr env)))"

definition vpu_ioctl_import_dma :: "kernel_env \<Rightarrow> u32 \<Rightarrow> dma_source \<Rightarrow> vpu_device
    \<Rightarrow> (vpu_device \<times> (int + u64)) option" where
  "vpu_ioctl_import_dma env flags src d =
     (if in_fault env then Some (d, Inl (- EFAULT))
      else do {
        (d, r) \<leftarrow> vpu_dma_buf_import env flags src d;
        case r of
          Inl e \<Rightarrow> Some (d, Inl e)
        | Inr a \<Rightarrow> do {
            al \<leftarrow> alloc_heap d a;
            Some (d, if out_fault env then Inl (- EFAULT) else Inr (va_handle al)) } })"

subsection \<open>Mapping into user space, start and end\<close>

fun find_dma :: "(nat \<Rightarrow> vpu_allocation option) \<Rightarrow> nat \<Rightarrow> nat \<Rightarrow> nat list \<Rightarrow> nat option option" where
  "find_dma heap off n [] = Some None"
| "find_dma heap off n (a # as) =
     do { al \<leftarrow> heap a; if va_dma_addr al = off \<and> n \<le> va_size al then Some (Some a) else find_dma heap off n as }"

text \<open>
  On success the \<open>n\<close> bytes from the physical address that the page frame of \<open>dma_addr\<close> starts at are
  mapped; \<open>remap\<close> is what \<open>remap_pfn_range\<close> returns.
\<close>

definition PAGE_SIZE :: nat where "PAGE_SIZE = 4096"

definition vpu_mmap :: "int \<Rightarrow> nat \<Rightarrow> nat \<Rightarrow> vpu_device \<Rightarrow> (int + nat) option" where
  "vpu_mmap remap pgoff n d = do {
     found \<leftarrow> find_dma (alloc_heap d) (pgoff * PAGE_SIZE) n (alloc_list d);
     case found of
       None \<Rightarrow> Some (Inl (- EINVAL))
     | Some a \<Rightarrow> do {
         al \<leftarrow> alloc_heap d a;
         Some (if remap \<noteq> 0 then Inl (- EAGAIN) else Inr (va_dma_addr al div PAGE_SIZE * PAGE_SIZE)) } }"

text \<open>Start: \<open>misc_register\<close> answers \<open>reg\<close>; on failure the pools are destroyed and there is no device.\<close>

definition vpu_module_init :: "bool \<Rightarrow> (nat \<Rightarrow> nat) \<Rightarrow> int \<Rightarrow> vpu_pools \<Rightarrow> vpu_device option \<times> int" where
  "vpu_module_init allocated vz reg p =
     (if \<not> allocated then (None, - ENOMEM)
      else case vpu_slab_init vz p of (p, ret) \<Rightarrow>
        if ret \<noteq> 0 then (None, ret)
        else if reg \<noteq> 0 then (None, reg)
        else (Some \<lparr>pools = p, alloc_heap = (\<lambda>_. None), alloc_list = [], next_handle = 1,
          next_gpu_addr = 0x100000000, total_allocated = 0, total_freed = 0, active_allocs = 0,
          dma_bufs = (\<lambda>_. None)\<rparr>, 0))"

fun free_leaked :: "nat list \<Rightarrow> vpu_device \<Rightarrow> vpu_device option" where
  "free_leaked [] d = Some d"
| "free_leaked (a # as) d =
     do {
       al \<leftarrow> alloc_heap d a;
       free_leaked as (d\<lparr>pools := vpu_slab_free (va_order al) (va_block_idx al) (pools d),
         alloc_list := remove1 a (alloc_list d), alloc_heap := (alloc_heap d)(a := None)\<rparr>) }"

definition vpu_module_exit :: "vpu_device \<Rightarrow> vpu_device option" where
  "vpu_module_exit d = do {
     d \<leftarrow> free_leaked (alloc_list d) d;
     Some (d\<lparr>pools := vpu_slab_destroy (pools d)\<rparr>) }"

end
