(* ===== verification/Vpu_Props.thy ===== *)
theory Vpu_Props
  imports Vpu_Driver
begin

text \<open>
  Concurrent users of the VPU driver.  The requests of \<open>vpu_ioctl.c\<close> are split at their locks into the
  steps of a thread; any number of threads interleave, and users write to memory whenever they like.  The
  invariant ties the bitmaps, the table of allocations and the blocks in the hands of running requests
  together; the properties of the driver follow from it.
\<close>

subsection \<open>Threads\<close>

text \<open>
  Where a thread stands: outside the driver; in \<open>vpu_slab_alloc\<close>, about to lock the pool of an order;
  with a block that is not yet in the table; with an allocation it has taken from the table.
\<close>

datatype phase = Ready | Trying nat u32 nat | Placed nat u32 vpu_block | Unlisted nat

record vpu_system =
  dev :: vpu_device
  threads :: "phase list"

definition user_bytes :: "vpu_allocation \<Rightarrow> nat set" where
  "user_bytes al = {va_cpu_addr al ..< va_cpu_addr al + va_size al}"

inductive driver_step :: "(nat \<Rightarrow> nat) \<Rightarrow> vpu_system \<Rightarrow> vpu_system \<Rightarrow> bool" for v2p where
  alloc_begin: "t < length (threads s) \<Longrightarrow> threads s ! t = Ready \<Longrightarrow>
    aq_size (req :: vpu_alloc_req) \<noteq> 0 \<Longrightarrow> ptr \<noteq> 0 \<Longrightarrow> alloc_heap (dev s) ptr = None \<Longrightarrow>
    vpu_select_order (unat (aq_size req)) = int k \<Longrightarrow> k < VPU_SLAB_ORDER_COUNT \<Longrightarrow>
    driver_step v2p s \<lparr>dev = (dev s)\<lparr>alloc_heap := (alloc_heap (dev s))(ptr \<mapsto> kzalloc_record)\<rparr>,
      threads = (threads s)[t := Trying ptr (aq_flags req) k]\<rparr>"
| alloc_take: "t < length (threads s) \<Longrightarrow> threads s ! t = Trying ptr flags k \<Longrightarrow>
    slab_take k (pools (dev s)) = Some (p, i) \<Longrightarrow>
    driver_step v2p s \<lparr>dev = (dev s)\<lparr>pools := p\<rparr>,
      threads = (threads s)[t := Placed ptr flags (block_of v2p p k i)]\<rparr>"
| alloc_next: "t < length (threads s) \<Longrightarrow> threads s ! t = Trying ptr flags k \<Longrightarrow>
    slab_take k (pools (dev s)) = None \<Longrightarrow> k + 1 < VPU_SLAB_ORDER_COUNT \<Longrightarrow>
    driver_step v2p s \<lparr>dev = dev s, threads = (threads s)[t := Trying ptr flags (k + 1)]\<rparr>"
| alloc_fail: "t < length (threads s) \<Longrightarrow> threads s ! t = Trying ptr flags k \<Longrightarrow>
    slab_take k (pools (dev s)) = None \<Longrightarrow> \<not> k + 1 < VPU_SLAB_ORDER_COUNT \<Longrightarrow>
    driver_step v2p s \<lparr>dev = (dev s)\<lparr>alloc_heap := (alloc_heap (dev s))(ptr := None)\<rparr>,
      threads = (threads s)[t := Ready]\<rparr>"
| alloc_end: "t < length (threads s) \<Longrightarrow> threads s ! t = Placed ptr flags b \<Longrightarrow>
    driver_step v2p s \<lparr>dev = list_alloc ptr flags b (dev s), threads = (threads s)[t := Ready]\<rparr>"
| free_begin: "t < length (threads s) \<Longrightarrow> threads s ! t = Ready \<Longrightarrow>
    unlist h (dev s) = Some (d, Some a) \<Longrightarrow>
    driver_step v2p s \<lparr>dev = d, threads = (threads s)[t := Unlisted a]\<rparr>"
| free_end: "t < length (threads s) \<Longrightarrow> threads s ! t = Unlisted a \<Longrightarrow> reclaim a (dev s) = Some d \<Longrightarrow>
    driver_step v2p s \<lparr>dev = d, threads = (threads s)[t := Ready]\<rparr>"
| import: "t < length (threads s) \<Longrightarrow> threads s ! t = Ready \<Longrightarrow>
    ptr \<noteq> 0 \<Longrightarrow> alloc_heap (dev s) ptr = None \<Longrightarrow>
    driver_step v2p s \<lparr>dev = list_import ptr flags f (dev s), threads = threads s\<rparr>"

text \<open>
  Users write to memory at any address and at any time: a mapping that \<open>vpu_mmap\<close> has set up, and one of
  an exported buffer, is not revoked when the allocation is freed, so that a block may be written to by
  somebody who no longer has it.
\<close>

definition user_write :: "nat \<Rightarrow> u8 \<Rightarrow> vpu_system \<Rightarrow> vpu_system" where
  "user_write x v s = s\<lparr>dev := (dev s)\<lparr>pools := (pools (dev s))\<lparr>ram := (ram (pools (dev s)))(x := v)\<rparr>\<rparr>\<rparr>"

inductive vpu_step :: "(nat \<Rightarrow> nat) \<Rightarrow> vpu_system \<Rightarrow> vpu_system \<Rightarrow> bool" for v2p where
  by_driver: "driver_step v2p s s' \<Longrightarrow> vpu_step v2p s s'"
| by_user: "vpu_step v2p s (user_write x v s)"

definition vpu_init :: "(nat \<Rightarrow> nat) \<Rightarrow> vpu_system \<Rightarrow> bool" where
  "vpu_init vz s \<longleftrightarrow> apart vz \<and> set (threads s) \<subseteq> {Ready} \<and>
     (\<exists>p. length (slabs p) = VPU_SLAB_ORDER_COUNT \<and> vpu_module_init True vz 0 p = (Some (dev s), 0))"

inductive_cases vpu_stepE: "vpu_step v2p s s'"

lemma user_write_fields [simp]:
  "threads (user_write x v s) = threads s" "alloc_heap (dev (user_write x v s)) = alloc_heap (dev s)"
  "alloc_list (dev (user_write x v s)) = alloc_list (dev s)"
  "pools (dev (user_write x v s)) = (pools (dev s))\<lparr>ram := (ram (pools (dev s)))(x := v)\<rparr>"
  by (simp_all add: user_write_def)

lemma driver_runs: "(driver_step v2p)\<^sup>*\<^sup>* s s' \<Longrightarrow> (vpu_step v2p)\<^sup>*\<^sup>* s s'"
  by (rule rtranclp_mono [THEN predicate2D]) (auto intro: vpu_step.by_driver)

subsection \<open>The invariant\<close>

text \<open>The block an allocation stands for; an imported one stands for none.\<close>

definition slab_block :: "vpu_allocation \<Rightarrow> (nat \<times> nat) multiset" where
  "slab_block al = (if va_order al < 0 then {#} else {#(nat (va_order al), nat (va_block_idx al))#})"

definition block_held :: "(nat \<Rightarrow> vpu_allocation option) \<Rightarrow> nat \<Rightarrow> (nat \<times> nat) multiset" where
  "block_held heap a = (case heap a of None \<Rightarrow> {#} | Some al \<Rightarrow> slab_block al)"

fun phase_ptr :: "phase \<Rightarrow> nat multiset" where
  "phase_ptr Ready = {#}"
| "phase_ptr (Trying ptr _ _) = {#ptr#}"
| "phase_ptr (Placed ptr _ _) = {#ptr#}"
| "phase_ptr (Unlisted a) = {#a#}"

fun phase_block :: "(nat \<Rightarrow> vpu_allocation option) \<Rightarrow> phase \<Rightarrow> (nat \<times> nat) multiset" where
  "phase_block heap Ready = {#}"
| "phase_block heap (Trying _ _ _) = {#}"
| "phase_block heap (Placed _ _ b) = {#(nat (vb_order b), nat (vb_block_idx b))#}"
| "phase_block heap (Unlisted a) = block_held heap a"

definition all_ptrs :: "vpu_system \<Rightarrow> nat multiset" where
  "all_ptrs s = mset (alloc_list (dev s)) + sum_list (map phase_ptr (threads s))"

definition all_blocks :: "vpu_system \<Rightarrow> (nat \<times> nat) multiset" where
  "all_blocks s = sum_list (map (block_held (alloc_heap (dev s))) (alloc_list (dev s))) +
     sum_list (map (phase_block (alloc_heap (dev s))) (threads s))"

definition block_ok :: "(nat \<Rightarrow> nat) \<Rightarrow> (nat \<Rightarrow> nat) \<Rightarrow> nat \<Rightarrow> nat \<Rightarrow> vpu_block \<Rightarrow> bool" where
  "block_ok vz v2p k i b \<longleftrightarrow> k < VPU_SLAB_ORDER_COUNT \<and> i < slab_block_counts ! k \<and>
     b = \<lparr>vb_cpu_addr = vz k + i * vpu_slab_sizes ! k, vb_dma_addr = v2p (vz k + i * vpu_slab_sizes ! k),
       vb_order = int k, vb_block_idx = int i\<rparr>"

definition alloc_ok :: "(nat \<Rightarrow> nat) \<Rightarrow> (nat \<Rightarrow> nat) \<Rightarrow> vpu_allocation \<Rightarrow> bool" where
  "alloc_ok vz v2p al \<longleftrightarrow> (0 \<le> va_order al \<longrightarrow>
     block_ok vz v2p (nat (va_order al)) (nat (va_block_idx al))
       \<lparr>vb_cpu_addr = va_cpu_addr al, vb_dma_addr = va_dma_addr al, vb_order = va_order al,
        vb_block_idx = va_block_idx al\<rparr> \<and>
     va_size al = vpu_slab_sizes ! nat (va_order al))"

definition phase_ok :: "(nat \<Rightarrow> nat) \<Rightarrow> (nat \<Rightarrow> nat) \<Rightarrow> vpu_device \<Rightarrow> phase \<Rightarrow> bool" where
  "phase_ok vz v2p d ph = (case ph of
     Ready \<Rightarrow> True
   | Trying _ _ k \<Rightarrow> k < VPU_SLAB_ORDER_COUNT
   | Placed _ _ b \<Rightarrow> \<exists>k i. block_ok vz v2p k i b
   | Unlisted a \<Rightarrow> \<exists>al. alloc_heap d a = Some al \<and> alloc_ok vz v2p al)"

definition ptrs_inv :: "vpu_system \<Rightarrow> bool" where
  "ptrs_inv s \<longleftrightarrow> finite (dom (alloc_heap (dev s))) \<and> all_ptrs s = mset_set (dom (alloc_heap (dev s)))"

definition blocks_inv :: "(nat \<Rightarrow> nat) \<Rightarrow> vpu_system \<Rightarrow> bool" where
  "blocks_inv vz s \<longleftrightarrow> pools_ok vz (pools (dev s)) \<and> all_blocks s = mset_set (taken (pools (dev s)))"

definition tables_inv :: "(nat \<Rightarrow> nat) \<Rightarrow> (nat \<Rightarrow> nat) \<Rightarrow> vpu_system \<Rightarrow> bool" where
  "tables_inv vz v2p s \<longleftrightarrow>
     (\<forall>a \<in> set (alloc_list (dev s)). \<exists>al. alloc_heap (dev s) a = Some al \<and> alloc_ok vz v2p al) \<and>
     (\<forall>ph \<in> set (threads s). phase_ok vz v2p (dev s) ph)"

definition vpu_inv :: "(nat \<Rightarrow> nat) \<Rightarrow> (nat \<Rightarrow> nat) \<Rightarrow> vpu_system \<Rightarrow> bool" where
  "vpu_inv vz v2p s \<longleftrightarrow> apart vz \<and> ptrs_inv s \<and> blocks_inv vz s \<and> tables_inv vz v2p s"

subsection \<open>Who holds what\<close>

lemma find_handle_member: "find_handle heap h as = Some (Some a) \<Longrightarrow> a \<in> set as"
  by (induction as) (auto split: Option.bind_splits if_splits)

lemma unlist_cases:
  assumes "unlist h d = Some (d', Some a)"
  shows "a \<in> set (alloc_list d)" "d' = d\<lparr>alloc_list := remove1 a (alloc_list d)\<rparr>"
  using assms find_handle_member
  by (auto simp: unlist_def vpu_find_alloc_def split: Option.bind_splits option.splits)

lemma reclaim_cases:
  assumes "reclaim a d = Some d'"
  obtains al where "alloc_heap d a = Some al"
    "pools d' = vpu_slab_free (va_order al) (va_block_idx al) (pools d)"
    "alloc_heap d' = (alloc_heap d)(a := None)" "alloc_list d' = alloc_list d"
  using assms by (auto simp: reclaim_def split: Option.bind_splits)

lemma list_alloc_fields [simp]:
  "pools (list_alloc ptr flags b d) = pools d"
  "alloc_list (list_alloc ptr flags b d) = alloc_list d @ [ptr]"
  "alloc_heap (list_alloc ptr flags b d) = (alloc_heap d)(ptr \<mapsto>
     \<lparr>va_handle = next_handle d, va_order = vb_order b, va_block_idx = vb_block_idx b,
      va_size = vpu_slab_sizes ! nat (vb_order b), va_cpu_addr = vb_cpu_addr b,
      va_dma_addr = vb_dma_addr b, va_gpu_addr = next_gpu_addr d, va_flags = flags, va_dmabuf = 0\<rparr>)"
  by (simp_all add: list_alloc_def Let_def)

lemma list_import_fields [simp]:
  "pools (list_import ptr flags f d) = pools d"
  "alloc_list (list_import ptr flags f d) = alloc_list d @ [ptr]"
  "alloc_heap (list_import ptr flags f d) = (alloc_heap d)(ptr \<mapsto>
     \<lparr>va_handle = next_handle d, va_order = -1, va_block_idx = -1, va_size = fb_size f,
      va_cpu_addr = fb_vaddr f, va_dma_addr = fb_dma f, va_gpu_addr = next_gpu_addr d,
      va_flags = flags, va_dmabuf = fb_id f\<rparr>)"
  by (simp_all add: list_import_def)

lemma drop_ptr:
  assumes "add_mset p M = mset_set A" "finite A"
  shows "M = mset_set (A - {p})"
proof -
  have "p \<in># mset_set A" using assms(1) by (metis union_single_eq_member)
  then have "mset_set A = add_mset p (mset_set (A - {p}))"
    using assms(2) by (simp add: mset_set.remove)
  with assms(1) show ?thesis by simp
qed

lemma phase_ptr_alive:
  assumes "ptrs_inv s" "t < length (threads s)" "a \<in># phase_ptr (threads s ! t)"
  shows "a \<in> dom (alloc_heap (dev s))"
proof -
  have "phase_ptr (threads s ! t) \<subseteq># sum_list (map phase_ptr (threads s))"
    using assms(2) by (intro sum_list_member) simp
  then have "a \<in># all_ptrs s" using assms(3) by (auto simp: all_ptrs_def dest: mset_subset_eqD)
  then show ?thesis using assms(1) by (simp add: ptrs_inv_def)
qed

lemma ptrs_step:
  assumes "driver_step v2p s s'" "ptrs_inv s"
  shows "ptrs_inv s'"
  using assms(1)
proof cases
  case (alloc_begin t req ptr k)
  then show ?thesis
    using assms(2) sum_list_update [of t "threads s" phase_ptr "Trying ptr (aq_flags req) k"]
    by (auto simp: ptrs_inv_def all_ptrs_def domIff)
next
  case (alloc_take t ptr flags k p i)
  then show ?thesis
    using assms(2) sum_list_update [of t "threads s" phase_ptr "Placed ptr flags (block_of v2p p k i)"]
    by (simp add: ptrs_inv_def all_ptrs_def)
next
  case (alloc_next t ptr flags k)
  then show ?thesis
    using assms(2) sum_list_update [of t "threads s" phase_ptr "Trying ptr flags (k + 1)"]
    by (simp add: ptrs_inv_def all_ptrs_def)
next
  case (alloc_fail t ptr flags k)
  have U: "add_mset ptr (sum_list (map phase_ptr ((threads s)[t := Ready]))) = sum_list (map phase_ptr (threads s))"
    using alloc_fail sum_list_update [of t "threads s" phase_ptr Ready] by simp
  then have "add_mset ptr (mset (alloc_list (dev s)) + sum_list (map phase_ptr ((threads s)[t := Ready]))) =
      mset_set (dom (alloc_heap (dev s)))"
    using assms(2) by (simp add: ptrs_inv_def all_ptrs_def flip: U)
  from drop_ptr [OF this] show ?thesis
    using assms(2) alloc_fail by (simp add: ptrs_inv_def all_ptrs_def)
next
  case (alloc_end t ptr flags b)
  then have "insert ptr (dom (alloc_heap (dev s))) = dom (alloc_heap (dev s))"
    using phase_ptr_alive [OF assms(2), of t ptr] by auto
  moreover have U: "sum_list (map phase_ptr (threads s)) =
      add_mset ptr (sum_list (map phase_ptr ((threads s)[t := Ready])))"
    using alloc_end sum_list_update [of t "threads s" phase_ptr Ready] by simp
  ultimately show ?thesis
    using assms(2) alloc_end by (simp add: ptrs_inv_def all_ptrs_def U)
next
  case (free_begin t h d a)
  note u = unlist_cases [OF free_begin(4)]
  have "mset (alloc_list (dev s)) = add_mset a (mset (remove1 a (alloc_list (dev s))))"
    using u(1) by simp
  then show ?thesis
    using assms(2) free_begin u(2) sum_list_update [of t "threads s" phase_ptr "Unlisted a"]
    by (simp add: ptrs_inv_def all_ptrs_def del: mset_remove1)
next
  case (free_end t a d)
  from free_end(4) obtain al where r: "alloc_heap d = (alloc_heap (dev s))(a := None)"
    "alloc_list d = alloc_list (dev s)" by (rule reclaim_cases)
  have U: "add_mset a (sum_list (map phase_ptr ((threads s)[t := Ready]))) = sum_list (map phase_ptr (threads s))"
    using free_end sum_list_update [of t "threads s" phase_ptr Ready] by simp
  then have "add_mset a (mset (alloc_list (dev s)) + sum_list (map phase_ptr ((threads s)[t := Ready]))) =
      mset_set (dom (alloc_heap (dev s)))"
    using assms(2) by (simp add: ptrs_inv_def all_ptrs_def flip: U)
  from drop_ptr [OF this] show ?thesis
    using assms(2) free_end r by (simp add: ptrs_inv_def all_ptrs_def)
next
  case (import t ptr flags f)
  then show ?thesis
    using assms(2) by (auto simp: ptrs_inv_def all_ptrs_def domIff)
qed

lemma owner_unique:
  assumes "ptrs_inv s" "t < length (threads s)" "p \<in># phase_ptr (threads s ! t)"
  shows "p \<notin> set (alloc_list (dev s))"
    and "j < length (threads s) \<Longrightarrow> j \<noteq> t \<Longrightarrow> p \<notin># phase_ptr (threads s ! j)"
proof -
  let ?rest = "sum_list (map phase_ptr ((threads s)[t := Ready]))"
  have "all_ptrs s = mset (alloc_list (dev s)) + ?rest + phase_ptr (threads s ! t)"
    using sum_list_update [OF assms(2), of phase_ptr Ready] by (simp add: all_ptrs_def add.assoc)
  moreover have "count (all_ptrs s) p \<le> 1"
    using assms(1) by (simp add: ptrs_inv_def count_mset_set')
  ultimately have "count (mset (alloc_list (dev s))) p + count ?rest p + count (phase_ptr (threads s ! t)) p \<le> 1"
    by simp
  moreover have "0 < count (phase_ptr (threads s ! t)) p" using assms(3) by (simp add: count_greater_zero_iff)
  ultimately have "count (mset (alloc_list (dev s))) p = 0" "count ?rest p = 0" by linarith+
  then show "p \<notin> set (alloc_list (dev s))" by (simp add: count_eq_zero_iff)
  have "p \<notin># ?rest" using \<open>count ?rest p = 0\<close> by (simp add: count_eq_zero_iff)
  moreover have "threads s ! j \<in> set ((threads s)[t := Ready])" if "j < length (threads s)" "j \<noteq> t"
    using that by (metis length_list_update nth_list_update_neq nth_mem)
  ultimately show "j < length (threads s) \<Longrightarrow> j \<noteq> t \<Longrightarrow> p \<notin># phase_ptr (threads s ! j)"
    using sum_list_member [of "threads s ! j" "(threads s)[t := Ready]" phase_ptr]
    by (meson mset_subset_eqD)
qed

text \<open>Changing the record of one owner leaves what the others hold.\<close>

lemma held_list:
  assumes "p \<notin> set as"
  shows "sum_list (map (block_held (h(p := x))) as) = sum_list (map (block_held h) as)"
  using assms by (intro arg_cong [of _ _ sum_list] map_cong) (auto simp: block_held_def)

lemma phase_block_other: "p \<notin># phase_ptr ph \<Longrightarrow> phase_block (h(p := x)) ph = phase_block h ph"
  by (cases ph) (auto simp: block_held_def)

lemma held_phases:
  assumes "t < length xs" "\<And>j. j < length xs \<Longrightarrow> j \<noteq> t \<Longrightarrow> p \<notin># phase_ptr (xs ! j)"
  shows "sum_list (map (phase_block (h(p := x))) (xs[t := y])) + phase_block h (xs ! t) =
    sum_list (map (phase_block h) xs) + phase_block (h(p := x)) y"
proof -
  have "map (phase_block (h(p := x))) (xs[t := y]) = (map (phase_block h) xs)[t := phase_block (h(p := x)) y]"
    using assms by (intro nth_equalityI) (auto simp: nth_list_update phase_block_other)
  then show ?thesis
    using sum_list_update [of t "map (phase_block h) xs" "\<lambda>b. b" "phase_block (h(p := x)) y"] assms(1)
    by simp
qed

lemma ptr_fresh:
  assumes "ptrs_inv s" "alloc_heap (dev s) p = None"
  shows "p \<notin> set (alloc_list (dev s))" "j < length (threads s) \<Longrightarrow> p \<notin># phase_ptr (threads s ! j)"
proof -
  have "p \<notin># all_ptrs s" using assms by (auto simp: ptrs_inv_def)
  then show "p \<notin> set (alloc_list (dev s))" by (simp add: all_ptrs_def)
  show "j < length (threads s) \<Longrightarrow> p \<notin># phase_ptr (threads s ! j)"
    using phase_ptr_alive [OF assms(1)] assms(2) by blast
qed

lemma held_remove1:
  "a \<in> set as \<Longrightarrow> sum_list (map f (remove1 a as)) + f a = (sum_list (map f as) :: 'b::comm_monoid_add)"
  by (induction as) (auto simp: ac_simps)

lemma pools_ram [simp]:
  "taken (p\<lparr>ram := m\<rparr>) = taken p" "pools_ok vz (p\<lparr>ram := m\<rparr>) = pools_ok vz p"
  by (simp_all add: taken_def pools_ok_def)

lemma phase_at: "tables_inv vz v2p s \<Longrightarrow> t < length (threads s) \<Longrightarrow> phase_ok vz v2p (dev s) (threads s ! t)"
  by (simp add: tables_inv_def)

lemma taken_finite: "finite (taken p)"
proof -
  have "taken p \<subseteq> {..<VPU_SLAB_ORDER_COUNT} \<times> {..<VPU_SLAB_MAX_BLOCKS}"
    using counts_max by (fastforce simp: taken_def)
  then show ?thesis by (rule finite_subset) simp
qed

lemma blocks_step:
  assumes "driver_step v2p s s'" "ptrs_inv s" "tables_inv vz v2p s" "blocks_inv vz s"
  shows "blocks_inv vz s'"
  using assms(1)
proof cases
  case (alloc_begin t req ptr k)
  note f = ptr_fresh [OF assms(2) alloc_begin(6)]
  show ?thesis
    using assms(4) alloc_begin held_list [OF f(1)]
      held_phases [of t "threads s" ptr "alloc_heap (dev s)" "Some kzalloc_record" "Trying ptr (aq_flags req) k"] f(2)
    by (simp add: blocks_inv_def all_blocks_def)
next
  case (alloc_take t ptr flags k p i)
  have k: "k < VPU_SLAB_ORDER_COUNT" using phase_at [OF assms(3) alloc_take(2)] alloc_take(3) by (simp add: phase_ok_def)
  have ok: "pools_ok vz (pools (dev s))" using assms(4) by (simp add: blocks_inv_def)
  note tk = take_Some [OF ok k alloc_take(4)]
  show ?thesis
    using assms(4) alloc_take tk(2,3,5) taken_finite [of "pools (dev s)"]
      sum_list_update [of t "threads s" "phase_block (alloc_heap (dev s))" "Placed ptr flags (block_of v2p p k i)"]
    by (simp add: blocks_inv_def all_blocks_def block_of_def Let_def)
next
  case (alloc_next t ptr flags k)
  then show ?thesis
    using assms(4) sum_list_update [of t "threads s" "phase_block (alloc_heap (dev s))" "Trying ptr flags (k + 1)"]
    by (simp add: blocks_inv_def all_blocks_def)
next
  case (alloc_fail t ptr flags k)
  note f = owner_unique [OF assms(2) alloc_fail(2), of ptr]
  show ?thesis
    using assms(4) alloc_fail held_list [OF f(1)] f(2)
      held_phases [of t "threads s" ptr "alloc_heap (dev s)" None Ready]
    by (simp add: blocks_inv_def all_blocks_def)
next
  case (alloc_end t ptr flags b)
  note f = owner_unique [OF assms(2) alloc_end(2), of ptr]
  have "0 \<le> vb_order b" using phase_at [OF assms(3) alloc_end(2)] alloc_end(3) by (auto simp: phase_ok_def block_ok_def)
  then have U: "sum_list (map (phase_block (alloc_heap (dev s))) (threads s)) =
      add_mset (nat (vb_order b), nat (vb_block_idx b))
        (sum_list (map (phase_block (alloc_heap (dev s'))) (threads s')))"
    using alloc_end f(2)
      held_phases [of t "threads s" ptr "alloc_heap (dev s)" "alloc_heap (list_alloc ptr flags b (dev s)) ptr" Ready]
    by simp
  show ?thesis
    using assms(4) alloc_end held_list [OF f(1)] \<open>0 \<le> vb_order b\<close> U
    by (simp add: blocks_inv_def all_blocks_def block_held_def slab_block_def)
next
  case (free_begin t h d a)
  note u = unlist_cases [OF free_begin(4)]
  have U: "sum_list (map (block_held (alloc_heap (dev s))) (alloc_list (dev s))) =
      sum_list (map (block_held (alloc_heap (dev s))) (remove1 a (alloc_list (dev s)))) + block_held (alloc_heap (dev s)) a"
    by (rule held_remove1 [OF u(1), symmetric])
  show ?thesis
    using assms(4) free_begin u(2)
      sum_list_update [of t "threads s" "phase_block (alloc_heap (dev s))" "Unlisted a"]
    by (simp add: blocks_inv_def all_blocks_def U ac_simps)
next
  case (free_end t a d)
  from free_end(4) obtain al where r: "alloc_heap (dev s) a = Some al"
    "pools d = vpu_slab_free (va_order al) (va_block_idx al) (pools (dev s))"
    "alloc_heap d = (alloc_heap (dev s))(a := None)" "alloc_list d = alloc_list (dev s)" by (rule reclaim_cases)
  note f = owner_unique [OF assms(2) free_end(2), of a]
  have eq: "all_blocks s' + slab_block al = mset_set (taken (pools (dev s)))"
    using assms(4) free_end r held_list [OF f(1)] f(2)
      held_phases [of t "threads s" a "alloc_heap (dev s)" None Ready]
    by (simp add: blocks_inv_def all_blocks_def block_held_def add.assoc)
  have ok: "pools_ok vz (pools (dev s))" using assms(4) by (simp add: blocks_inv_def)
  have al: "alloc_ok vz v2p al"
    using phase_at [OF assms(3) free_end(2)] free_end(3) r(1) by (simp add: phase_ok_def)
  show ?thesis
  proof (cases "va_order al < 0")
    case True
    then have "pools d = pools (dev s)" using free_other [OF ok] r(2) by simp
    then show ?thesis using eq True ok free_end by (simp add: blocks_inv_def slab_block_def)
  next
    case False
    then have "0 \<le> va_order al" "0 \<le> va_block_idx al"
      using al by (auto simp: alloc_ok_def block_ok_def split: if_splits)
    then obtain k i where b: "va_order al = int k" "va_block_idx al = int i" by (metis nonneg_int_cases)
    with eq False have add: "add_mset (k, i) (all_blocks s') = mset_set (taken (pools (dev s)))"
      by (simp add: slab_block_def)
    then have "(k, i) \<in># mset_set (taken (pools (dev s)))" by (metis union_single_eq_member)
    then have "(k, i) \<in> taken (pools (dev s))" by (simp add: taken_finite)
    note fr = free_taken [OF ok this]
    show ?thesis
      using drop_ptr [OF add taken_finite] fr(1,2) free_end r(2) b by (simp add: blocks_inv_def)
  qed
next
  case (import t ptr flags f)
  note fr = ptr_fresh [OF assms(2) import(5)]
  have "(threads s)[t := Ready] = threads s" using import(3) by (metis list_update_id)
  then show ?thesis
    using assms(4) import held_list [OF fr(1)] fr(2)
      held_phases [of t "threads s" ptr "alloc_heap (dev s)" _ Ready]
    by (simp add: blocks_inv_def all_blocks_def block_held_def slab_block_def) 
qed

subsection \<open>The tables stay consistent\<close>

lemma phase_ok_cong:
  assumes "\<And>a. a \<in># phase_ptr ph \<Longrightarrow> alloc_heap d' a = alloc_heap d a"
  shows "phase_ok vz v2p d' ph = phase_ok vz v2p d ph"
  using assms by (cases ph) (auto simp: phase_ok_def)

lemma tables_update:
  assumes "tables_inv vz v2p s"
    and "\<forall>a \<in> set (alloc_list d'). \<exists>al. alloc_heap d' a = Some al \<and> alloc_ok vz v2p al"
    and "phase_ok vz v2p d' y"
    and "\<And>j. j < length (threads s) \<Longrightarrow> j \<noteq> t \<Longrightarrow> phase_ok vz v2p (dev s) (threads s ! j) \<Longrightarrow>
      phase_ok vz v2p d' (threads s ! j)"
  shows "tables_inv vz v2p \<lparr>dev = d', threads = (threads s)[t := y]\<rparr>"
proof -
  have "phase_ok vz v2p d' ((threads s)[t := y] ! j)" if "j < length (threads s)" for j
    using assms(1,3,4) that by (cases "j = t") (auto simp: tables_inv_def)
  then show ?thesis using assms(2) by (auto simp: tables_inv_def in_set_conv_nth)
qed

text \<open>A block in the hands of one owner is not a block of another, and not free.\<close>

lemma listed_taken:
  assumes "blocks_inv vz s" "a \<in> set (alloc_list (dev s))" "alloc_heap (dev s) a = Some al" "0 \<le> va_order al"
  shows "(nat (va_order al), nat (va_block_idx al)) \<in> taken (pools (dev s))"
    and "t < length (threads s) \<Longrightarrow>
      (nat (va_order al), nat (va_block_idx al)) \<notin># phase_block (alloc_heap (dev s)) (threads s ! t)"
proof -
  let ?b = "(nat (va_order al), nat (va_block_idx al))" and ?h = "alloc_heap (dev s)"
  have "?b \<in># sum_list (map (block_held ?h) (alloc_list (dev s)))"
    using sum_list_member [OF assms(2), of "block_held ?h"] assms(3,4)
    by (auto simp: block_held_def slab_block_def)
  then have c: "0 < count (sum_list (map (block_held ?h) (alloc_list (dev s)))) ?b"
    by (simp add: count_greater_zero_iff)
  have all: "all_blocks s = mset_set (taken (pools (dev s)))" using assms(1) by (simp add: blocks_inv_def)
  then have "count (all_blocks s) ?b \<le> 1" by (simp add: count_mset_set')
  then have "count (sum_list (map (block_held ?h) (alloc_list (dev s)))) ?b +
      count (sum_list (map (phase_block ?h) (threads s))) ?b \<le> 1" by (simp add: all_blocks_def)
  with c have z: "count (sum_list (map (phase_block ?h) (threads s))) ?b = 0" by linarith
  have "?b \<in># all_blocks s" using c by (auto simp: all_blocks_def)
  then show "?b \<in> taken (pools (dev s))" by (simp add: all taken_finite)
  show "?b \<notin># phase_block ?h (threads s ! t)" if "t < length (threads s)"
    using sum_list_member [of "threads s ! t" "threads s" "phase_block ?h"] z that
    by (metis count_eq_zero_iff mset_subset_eqD nth_mem)
qed

lemma user_bytes_block:
  assumes "alloc_ok vz v2p al" "0 \<le> va_order al"
  shows "user_bytes al = block_range vz (nat (va_order al), nat (va_block_idx al))"
  using assms by (auto simp: alloc_ok_def block_ok_def user_bytes_def block_range_def)

lemma taken_inside: "(k, i) \<in> taken p \<Longrightarrow> k < VPU_SLAB_ORDER_COUNT \<and> i < slab_block_counts ! k"
  by (simp add: taken_def)

lemma tables_step:
  assumes "driver_step v2p s s'" "vpu_inv vz v2p s"
  shows "tables_inv vz v2p s'"
proof -
  have inv: "apart vz" "ptrs_inv s" "blocks_inv vz s" "tables_inv vz v2p s"
    using assms(2) by (simp_all add: vpu_inv_def)
  have list: "\<forall>a \<in> set (alloc_list (dev s)). \<exists>al. alloc_heap (dev s) a = Some al \<and> alloc_ok vz v2p al"
    using inv(4) by (simp add: tables_inv_def)
  have pok: "pools_ok vz (pools (dev s))" using inv(3) by (simp add: blocks_inv_def)
  from assms(1) show ?thesis
  proof cases
    case (alloc_begin t req ptr k)
    note f = ptr_fresh [OF inv(2) alloc_begin(6)]
    show ?thesis
      unfolding alloc_begin(1)
    proof (rule tables_update [OF inv(4)], goal_cases)
      case 1 then show ?case using list f(1) by auto
    next
      case 2 then show ?case using alloc_begin by (simp add: phase_ok_def)
    next
      case (3 j) then show ?case using f(2) [of j] by (subst phase_ok_cong) auto
    qed
  next
    case (alloc_take t ptr flags k p i)
    have k: "k < VPU_SLAB_ORDER_COUNT"
      using phase_at [OF inv(4) alloc_take(2)] alloc_take(3) by (simp add: phase_ok_def)
    note tk = take_Some [OF pok k alloc_take(4)]
    have "block_ok vz v2p k i (block_of v2p p k i)"
      using k tk(1) pools_okD [OF tk(5) k] by (simp add: block_ok_def block_of_def block_addr_def Let_def)
    then show ?thesis
      unfolding alloc_take(1) using list tk(6)
      by (intro tables_update [OF inv(4)]) (auto simp: phase_ok_def split: phase.splits)
  next
    case (alloc_next t ptr flags k)
    then show ?thesis
      unfolding alloc_next(1) using list by (intro tables_update [OF inv(4)]) (auto simp: phase_ok_def)
  next
    case (alloc_fail t ptr flags k)
    note f = owner_unique [OF inv(2) alloc_fail(2), of ptr]
    show ?thesis
      unfolding alloc_fail(1)
    proof (rule tables_update [OF inv(4)], goal_cases)
      case 1 then show ?case using list f(1) alloc_fail(3) by auto
    next
      case 2 then show ?case by (simp add: phase_ok_def)
    next
      case (3 j) then show ?case using f(2) [of j] alloc_fail(3) by (subst phase_ok_cong) auto
    qed
  next
    case (alloc_end t ptr flags b)
    note f = owner_unique [OF inv(2) alloc_end(2), of ptr]
    from phase_at [OF inv(4) alloc_end(2)] alloc_end(3)
    obtain k i where b: "block_ok vz v2p k i b" by (auto simp: phase_ok_def)
    show ?thesis
      unfolding alloc_end(1)
    proof (rule tables_update [OF inv(4)], goal_cases)
      case 1 then show ?case using list f(1) alloc_end(3) b by (auto simp: alloc_ok_def block_ok_def)
    next
      case 2 then show ?case by (simp add: phase_ok_def)
    next
      case (3 j) then show ?case using f(2) [of j] alloc_end(3) by (subst phase_ok_cong) auto
    qed
  next
    case (free_begin t h d a)
    note u = unlist_cases [OF free_begin(4)]
    show ?thesis
      unfolding free_begin(1) u(2)
    proof (rule tables_update [OF inv(4)], goal_cases)
      case 1 then show ?case using list by (auto dest: notin_set_remove1)
    next
      case 2 then show ?case using list u(1) by (simp add: phase_ok_def)
    next
      case (3 j) then show ?case by (subst phase_ok_cong) auto
    qed
  next
    case (free_end t a d)
    from free_end(4) obtain al where r: "alloc_heap (dev s) a = Some al"
      "pools d = vpu_slab_free (va_order al) (va_block_idx al) (pools (dev s))"
      "alloc_heap d = (alloc_heap (dev s))(a := None)" "alloc_list d = alloc_list (dev s)" by (rule reclaim_cases)
    note f = owner_unique [OF inv(2) free_end(2), of a]
    show ?thesis
      unfolding free_end(1)
    proof (rule tables_update [OF inv(4)], goal_cases)
      case 1 then show ?case using list f(1) free_end(3) r by auto
    next
      case 2 then show ?case by (simp add: phase_ok_def)
    next
      case (3 j) then show ?case
        using f(2) [of j] free_end(3) r(3) by (subst phase_ok_cong) auto
    qed
  next
    case (import t ptr flags f)
    note fr = ptr_fresh [OF inv(2) import(5)]
    have "phase_ok vz v2p (list_import ptr flags f (dev s)) (threads s ! j)" if "j < length (threads s)" for j
      using phase_at [OF inv(4) that] fr(2) [OF that] by (subst phase_ok_cong [where d = "dev s"]) auto
    then have "\<forall>ph \<in> set (threads s). phase_ok vz v2p (list_import ptr flags f (dev s)) ph"
      by (auto simp: in_set_conv_nth)
    then show ?thesis
      unfolding import(1) using list fr(1) by (auto simp: tables_inv_def alloc_ok_def)
  qed
qed

subsection \<open>Every reachable state is consistent\<close>

lemma idle_sum: "set xs \<subseteq> {Ready} \<Longrightarrow> f Ready = {#} \<Longrightarrow> sum_list (map f xs) = {#}"
  by (induction xs) auto

lemma vpu_starts:
  assumes "vpu_init vz s" shows "vpu_inv vz v2p s"
proof -
  from assms obtain p where p: "length (slabs p) = VPU_SLAB_ORDER_COUNT"
    "vpu_module_init True vz 0 p = (Some (dev s), 0)" and ap: "apart vz" and idle: "set (threads s) \<subseteq> {Ready}"
    by (auto simp: vpu_init_def)
  obtain q where q: "vpu_slab_init vz p = (q, 0)" "pools_fresh vz q"
    using pools_init_ok [OF p(1), of vz] ap by (auto simp: apart_def)
  then have dev: "dev s = \<lparr>pools = q, alloc_heap = (\<lambda>_. None), alloc_list = [], next_handle = 1,
      next_gpu_addr = 0x100000000, total_allocated = 0, total_freed = 0, active_allocs = 0,
      dma_bufs = (\<lambda>_. None)\<rparr>"
    using p(2) by (simp add: vpu_module_init_def)
  show ?thesis
    using idle_sum [OF idle, of phase_ptr] idle_sum [OF idle, of "phase_block (\<lambda>_. None)"] idle
      pools_freshD [OF q(2)] ap
    by (auto simp: vpu_inv_def ptrs_inv_def all_ptrs_def blocks_inv_def all_blocks_def tables_inv_def
      phase_ok_def dev)
qed

lemma driver_inv:
  assumes "driver_step v2p s s'" "vpu_inv vz v2p s"
  shows "vpu_inv vz v2p s'"
proof -
  have "ptrs_inv s" "blocks_inv vz s" "tables_inv vz v2p s" using assms(2) by (simp_all add: vpu_inv_def)
  with ptrs_step [OF assms(1)] blocks_step [OF assms(1)] tables_step [OF assms] assms(2)
  show ?thesis by (simp add: vpu_inv_def)
qed

lemma user_write_inv: "vpu_inv vz v2p s \<Longrightarrow> vpu_inv vz v2p (user_write x v s)"
proof -
  assume inv: "vpu_inv vz v2p s"
  have "phase_ok vz v2p (dev (user_write x v s)) ph = phase_ok vz v2p (dev s) ph" for ph
    by (rule phase_ok_cong) simp
  with inv show ?thesis
    by (simp add: vpu_inv_def ptrs_inv_def all_ptrs_def blocks_inv_def all_blocks_def tables_inv_def)
qed

interpretation vpu: invariant_system "vpu_init vz" "vpu_step v2p" "vpu_inv vz v2p" for vz v2p
proof (unfold_locales, goal_cases)
  case (1 s) then show ?case by (rule vpu_starts)
next
  case (2 s s')
  from 2(2) show ?case by cases (use 2(1) driver_inv user_write_inv in auto)
qed

subsection \<open>What the blocks contain\<close>

text \<open>
  The same system, with the addresses that users have written to since the driver last released the block
  they belong to.
\<close>

definition released :: "vpu_system \<Rightarrow> vpu_system \<Rightarrow> nat set" where
  "released s s' = (\<Union>(k, i) \<in> taken (pools (dev s)) - taken (pools (dev s')).
     {block_addr (pools (dev s)) k i ..< block_addr (pools (dev s)) k i + vpu_slab_sizes ! k})"

inductive watched_step :: "(nat \<Rightarrow> nat) \<Rightarrow> vpu_system \<times> nat set \<Rightarrow> vpu_system \<times> nat set \<Rightarrow> bool" for v2p where
  watched_driver: "driver_step v2p s s' \<Longrightarrow> watched_step v2p (s, D) (s', D - released s s')"
| watched_write: "watched_step v2p (s, D) (user_write x v s, insert x D)"

definition watched_init :: "(nat \<Rightarrow> nat) \<Rightarrow> vpu_system \<times> nat set \<Rightarrow> bool" where
  "watched_init vz w \<longleftrightarrow> vpu_init vz (fst w) \<and> snd w = {}"

text \<open>Every run of the system is a run of the watched one, and the other way round.\<close>

lemma watched_step_iff: "vpu_step v2p s s' \<longleftrightarrow> (\<exists>D'. watched_step v2p (s, D) (s', D'))"
  by (auto elim!: vpu_step.cases watched_step.cases intro: watched_driver watched_write vpu_step.intros)

lemma watched_runs:
  assumes "reach (vpu_init vz) (vpu_step v2p) s"
  shows "\<exists>D. reach (watched_init vz) (watched_step v2p) (s, D)"
  using assms
proof (induction rule: reach.induct)
  case (reach_init s)
  then show ?case by (intro exI [of _ "{}"] reach.reach_init) (simp add: watched_init_def)
next
  case (reach_step s t)
  then show ?case using watched_step_iff [of v2p s t] by (meson reach.reach_step)
qed

definition clean_blocks :: "(nat \<Rightarrow> nat) \<Rightarrow> vpu_system \<Rightarrow> nat set \<Rightarrow> bool" where
  "clean_blocks vz s D \<longleftrightarrow> (\<forall>k < VPU_SLAB_ORDER_COUNT. \<forall>i < slab_block_counts ! k.
     \<forall>x \<in> block_range vz (k, i). x \<notin> D \<longrightarrow> ram (pools (dev s)) x = 0)"

fun watched_inv :: "(nat \<Rightarrow> nat) \<Rightarrow> (nat \<Rightarrow> nat) \<Rightarrow> vpu_system \<times> nat set \<Rightarrow> bool" where
  "watched_inv vz v2p (s, D) \<longleftrightarrow> vpu_inv vz v2p s \<and> clean_blocks vz s D"

lemma driver_clean:
  assumes "driver_step v2p s s'" "vpu_inv vz v2p s" "clean_blocks vz s D"
  shows "clean_blocks vz s' (D - released s s')"
proof -
  have inv: "blocks_inv vz s" "tables_inv vz v2p s" using assms(2) by (simp_all add: vpu_inv_def)
  have pok: "pools_ok vz (pools (dev s))" using inv(1) by (simp add: blocks_inv_def)
  have keep: "clean_blocks vz s' (D - released s s')"
    if "ram (pools (dev s')) = ram (pools (dev s))" "taken (pools (dev s)) \<subseteq> taken (pools (dev s'))"
    using assms(3) that by (simp add: clean_blocks_def released_def Diff_eq_empty_iff [THEN iffD2])
  from assms(1) show ?thesis
  proof cases
    case (alloc_take t ptr flags k p i)
    have k: "k < VPU_SLAB_ORDER_COUNT"
      using phase_at [OF inv(2) alloc_take(2)] alloc_take(3) by (simp add: phase_ok_def)
    note tk = take_Some [OF pok k alloc_take(4)]
    show ?thesis by (rule keep) (use tk(3,6) alloc_take(1) in auto)
  next
    case (free_begin t h d a)
    then show ?thesis using unlist_cases(2) [OF free_begin(4)] by (intro keep) simp_all
  next
    case (free_end t a d)
    from free_end(4) obtain al where r: "alloc_heap (dev s) a = Some al"
      "pools d = vpu_slab_free (va_order al) (va_block_idx al) (pools (dev s))" by (rule reclaim_cases)
    show ?thesis
    proof (cases "0 \<le> va_order al \<and> 0 \<le> va_block_idx al \<and>
        (nat (va_order al), nat (va_block_idx al)) \<in> taken (pools (dev s))")
      case True
      then obtain k i where b: "va_order al = int k" "va_block_idx al = int i" by (metis nonneg_int_cases)
      then have mem: "(k, i) \<in> taken (pools (dev s))" using True by simp
      note fr = free_taken [OF pok mem]
      let ?r = "{block_addr (pools (dev s)) k i ..< block_addr (pools (dev s)) k i + vpu_slab_sizes ! k}"
      have "ram (pools d) x = (if x \<in> ?r then 0 else ram (pools (dev s)) x)" for x
        using fr(3) by (simp add: r(2) b zero_range_def)
      moreover have "released s s' = ?r"
        using fr(2) mem free_end(1) by (auto simp: released_def r(2) b)
      ultimately show ?thesis using assms(3) free_end(1) by (auto simp: clean_blocks_def)
    next
      case False
      then show ?thesis using free_end(1) free_other [OF pok False] r(2) by (intro keep) simp_all
    qed
  qed (rule keep; simp)+
qed

interpretation watched: invariant_system "watched_init vz" "watched_step v2p" "watched_inv vz v2p" for vz v2p
proof (unfold_locales, goal_cases)
  case (1 w)
  then obtain s where w: "w = (s, {})" "vpu_init vz s" by (cases w) (auto simp: watched_init_def)
  then obtain p where p: "length (slabs p) = VPU_SLAB_ORDER_COUNT"
    "vpu_module_init True vz 0 p = (Some (dev s), 0)" and ap: "apart vz" by (auto simp: vpu_init_def)
  obtain q where q: "vpu_slab_init vz p = (q, 0)" "pools_fresh vz q"
    using pools_init_ok [OF p(1), of vz] ap by (auto simp: apart_def)
  then have "pools (dev s) = q" using p(2) by (simp add: vpu_module_init_def) (drule sym, simp)
  moreover have "ram q x = 0"
    if "k < VPU_SLAB_ORDER_COUNT" "i < slab_block_counts ! k" "x \<in> block_range vz (k, i)" for k i x
    using block_in_pool [OF that(2), of vz] that(1,3) q(2) by (auto simp: pools_fresh_def pool_fresh_def)
  ultimately show ?case using w vpu_starts [OF w(2)] by (simp add: clean_blocks_def)
next
  case (2 w w')
  from 2(2) show ?case
  proof cases
    case (watched_driver s s' D)
    with 2(1) show ?thesis by (simp add: driver_inv driver_clean)
  next
    case (watched_write s D x v)
    with 2(1) show ?thesis by (auto simp: user_write_inv clean_blocks_def)
  qed
qed

subsection \<open>Properties\<close>

abbreviation vpu_reachable :: "(nat \<Rightarrow> nat) \<Rightarrow> (nat \<Rightarrow> nat) \<Rightarrow> vpu_system \<Rightarrow> bool" where
  "vpu_reachable vz v2p \<equiv> reach (vpu_init vz) (vpu_step v2p)"

lemma reachable_parts:
  assumes "vpu_reachable vz v2p s"
  shows "apart vz" "ptrs_inv s" "blocks_inv vz s" "tables_inv vz v2p s"
  using vpu.reach_inv [OF assms] by (simp_all add: vpu_inv_def)

lemma listed_distinct_blocks:
  assumes "blocks_inv vz s" "a \<in> set (alloc_list (dev s))" "b \<in> set (alloc_list (dev s))" "a \<noteq> b"
    and "alloc_heap (dev s) a = Some al" "alloc_heap (dev s) b = Some bl"
    and "0 \<le> va_order al" "0 \<le> va_order bl"
  shows "(nat (va_order al), nat (va_block_idx al)) \<noteq> (nat (va_order bl), nat (va_block_idx bl))"
proof
  let ?h = "alloc_heap (dev s)" and ?b = "(nat (va_order bl), nat (va_block_idx bl))"
  assume same: "(nat (va_order al), nat (va_block_idx al)) = ?b"
  have "b \<in> set (remove1 a (alloc_list (dev s)))" using assms(3,4) by simp
  from sum_list_member [OF this, of "block_held ?h"]
  have "?b \<in># sum_list (map (block_held ?h) (remove1 a (alloc_list (dev s))))"
    using assms(6,8) by (auto simp: block_held_def slab_block_def)
  then have "0 < count (sum_list (map (block_held ?h) (remove1 a (alloc_list (dev s))))) ?b"
    by (simp add: count_greater_zero_iff)
  moreover have "count (block_held ?h a) ?b = 1"
    using assms(5,7) same by (auto simp: block_held_def slab_block_def)
  moreover have "count (sum_list (map (block_held ?h) (alloc_list (dev s)))) ?b =
      count (sum_list (map (block_held ?h) (remove1 a (alloc_list (dev s))))) ?b + count (block_held ?h a) ?b"
    using held_remove1 [OF assms(2), of "block_held ?h"] by (metis count_union)
  moreover have "count (sum_list (map (block_held ?h) (alloc_list (dev s)))) ?b \<le> 1"
  proof -
    have "count (all_blocks s) ?b \<le> 1"
      using assms(1) by (simp add: blocks_inv_def count_mset_set')
    then show ?thesis by (simp add: all_blocks_def)
  qed
  ultimately show False by linarith
qed

text \<open>C23. The table is well-formed: every entry points at a record on the heap, which is either an import
  (order \<open>-1\<close>) or describes exactly one block of the pools, with that block's address, size and physical
  address.
\<close>

theorem vpu_table_wellformed:
  assumes "vpu_reachable vz v2p s" "a \<in> set (alloc_list (dev s))"
  shows "\<exists>al. alloc_heap (dev s) a = Some al \<and> (va_order al < 0 \<or>
    (\<exists>k i. (k, i) \<in> taken (pools (dev s)) \<and> va_order al = int k \<and> va_block_idx al = int i \<and>
      va_size al = vpu_slab_sizes ! k \<and> va_cpu_addr al = vz k + i * vpu_slab_sizes ! k \<and>
      va_dma_addr al = v2p (va_cpu_addr al)))"
proof -
  note inv = reachable_parts [OF assms(1)]
  obtain al where al: "alloc_heap (dev s) a = Some al" "alloc_ok vz v2p al"
    using inv(4) assms(2) by (auto simp: tables_inv_def)
  show ?thesis
  proof (cases "va_order al < 0")
    case False
    then have "0 \<le> va_order al" "0 \<le> va_block_idx al"
      using al(2) by (auto simp: alloc_ok_def block_ok_def split: if_splits)
    then show ?thesis
      using al listed_taken(1) [OF inv(3) assms(2) al(1)]
      by (intro exI [of _ al] conjI disjI2 exI [of _ "nat (va_order al)"] exI [of _ "nat (va_block_idx al)"])
        (auto simp: alloc_ok_def block_ok_def)
  qed (use al in auto)
qed

text \<open>C8. However the requests of any number of threads interleave, and whatever users write, two allocations in
  the table that the driver has made (order not negative) never share memory.  Imports are not covered:
  importing one foreign buffer twice gives two entries with the same address.
\<close>

theorem vpu_blocks_exclusive:
  assumes "vpu_reachable vz v2p s"
    and "a \<in> set (alloc_list (dev s))" "b \<in> set (alloc_list (dev s))" "a \<noteq> b"
    and "alloc_heap (dev s) a = Some al" "alloc_heap (dev s) b = Some bl"
    and "0 \<le> va_order al" "0 \<le> va_order bl"
  shows "user_bytes al \<inter> user_bytes bl = {}"
proof -
  note inv = reachable_parts [OF assms(1)]
  have "alloc_ok vz v2p al" "alloc_ok vz v2p bl" using inv(4) assms(2,3,5,6) by (auto simp: tables_inv_def)
  note bytes = user_bytes_block [OF this(1) assms(7)] user_bytes_block [OF this(2) assms(8)]
  show ?thesis
    unfolding bytes
    using blocks_disjoint [OF inv(1) listed_distinct_blocks [OF inv(3) assms(2-8)]]
      taken_inside [OF listed_taken(1) [OF inv(3) assms(2,5,7)]]
      taken_inside [OF listed_taken(1) [OF inv(3) assms(3,6,8)]] by simp
qed

text \<open>C9. A block that an allocation hands out reads as zero at every address that no user has written to since
  the block was last released (or since the pools were made): whatever was written before the release, by
  whoever, is gone.  Users may write anywhere at any time, since mappings outlive their allocation; what one
  of them writes after the release does show, see \<open>vpu_late_write_shows\<close>.
\<close>

theorem vpu_fresh_block_zero:
  assumes "reach (watched_init vz) (watched_step v2p) (s, D)"
    and "t < length (threads s)" "threads s ! t = Placed ptr flags b"
    and "x \<in> {vb_cpu_addr b ..< vb_cpu_addr b + vpu_slab_sizes ! nat (vb_order b)}" "x \<notin> D"
  shows "ram (pools (dev s)) x = 0"
proof -
  have inv: "tables_inv vz v2p s" "clean_blocks vz s D"
    using watched.reach_inv [OF assms(1)] by (simp_all add: vpu_inv_def)
  from phase_at [OF inv(1) assms(2)] assms(3) obtain k i where b: "block_ok vz v2p k i b"
    by (auto simp: phase_ok_def)
  then have "x \<in> block_range vz (k, i)" using assms(4) by (auto simp: block_ok_def block_range_def)
  with inv(2) b assms(5) show ?thesis by (auto simp: clean_blocks_def block_ok_def)
qed

text \<open>No request reads an allocation record that has been freed: looking a handle up never meets a
  dangling pointer, and a thread that has taken an allocation from the table can release it.
\<close>

theorem vpu_no_dangling:
  assumes "vpu_reachable vz v2p s"
  shows "vpu_find_alloc (dev s) h \<noteq> None \<and>
    (t < length (threads s) \<and> threads s ! t = Unlisted a \<longrightarrow> reclaim a (dev s) \<noteq> None)"
proof -
  note inv = reachable_parts [OF assms]
  have "find_handle (alloc_heap (dev s)) h as \<noteq> None"
    if "\<forall>a \<in> set as. \<exists>al. alloc_heap (dev s) a = Some al" for as
    using that by (induction as) auto
  moreover have "\<forall>a \<in> set (alloc_list (dev s)). \<exists>al. alloc_heap (dev s) a = Some al"
    using inv(4) by (auto simp: tables_inv_def)
  ultimately have "vpu_find_alloc (dev s) h \<noteq> None" by (simp add: vpu_find_alloc_def)
  moreover have "reclaim a (dev s) \<noteq> None" if "t < length (threads s)" "threads s ! t = Unlisted a"
    using phase_at [OF inv(4) that(1)] that(2) by (auto simp: phase_ok_def reclaim_def)
  ultimately show ?thesis by blast
qed

text \<open>C22. Nothing leaks: when no request is running, every taken block belongs to an allocation in the
  table, every record on the heap is in the table, and no allocation is there twice.
\<close>

theorem vpu_no_leak:
  assumes "vpu_reachable vz v2p s" "set (threads s) \<subseteq> {Ready}"
  shows "distinct (alloc_list (dev s)) \<and> dom (alloc_heap (dev s)) = set (alloc_list (dev s)) \<and>
    mset_set (taken (pools (dev s))) = sum_list (map (block_held (alloc_heap (dev s))) (alloc_list (dev s)))"
proof -
  note inv = reachable_parts [OF assms(1)]
  have m: "mset (alloc_list (dev s)) = mset_set (dom (alloc_heap (dev s)))"
    using inv(2) idle_sum [OF assms(2), of phase_ptr] by (simp add: ptrs_inv_def all_ptrs_def)
  have fin: "finite (dom (alloc_heap (dev s)))" using inv(2) by (simp add: ptrs_inv_def)
  have "set (alloc_list (dev s)) = dom (alloc_heap (dev s))"
    using arg_cong [OF m, of set_mset] fin by simp
  moreover have "count (mset (alloc_list (dev s))) a \<le> 1" for a
    unfolding m by (simp add: count_mset_set')
  then have "distinct (alloc_list (dev s))"
    unfolding distinct_count_atmost_1 by (metis count_mset_0_iff le_less_linear less_one nat_le_linear le_antisym not_le)
  ultimately show ?thesis
    using inv(3) idle_sum [OF assms(2), of "phase_block (alloc_heap (dev s))"]
    by (simp add: blocks_inv_def all_blocks_def)
qed

lemma trying_runs:
  assumes "k < VPU_SLAB_ORDER_COUNT" "t < length xs" "xs ! t = Trying ptr flags k"
  shows "case vpu_slab_alloc v2p (vpu_slab_sizes ! k) (pools d) of
      (p, Inr b) \<Rightarrow> (driver_step v2p)\<^sup>*\<^sup>* \<lparr>dev = d, threads = xs\<rparr>
        \<lparr>dev = d\<lparr>pools := p\<rparr>, threads = xs[t := Placed ptr flags b]\<rparr>
    | (p, Inl e) \<Rightarrow> p = pools d \<and> (driver_step v2p)\<^sup>*\<^sup>* \<lparr>dev = d, threads = xs\<rparr>
        \<lparr>dev = d\<lparr>alloc_heap := (alloc_heap d)(ptr := None)\<rparr>, threads = xs[t := Ready]\<rparr>"
  using assms
proof (induction "VPU_SLAB_ORDER_COUNT - k" arbitrary: k xs)
  case (Suc n)
  note at = alloc_at [OF Suc.prems(1), of v2p "pools d"]
  let ?s = "\<lparr>dev = d, threads = xs\<rparr>"
  show ?case
  proof (cases "slab_take k (pools d)")
    case None
    show ?thesis
    proof (cases "k + 1 < VPU_SLAB_ORDER_COUNT")
      case True
      let ?xs = "xs[t := Trying ptr flags (k + 1)]"
      have "driver_step v2p ?s \<lparr>dev = d, threads = ?xs\<rparr>"
        using driver_step.alloc_next [of t ?s ptr flags k v2p] Suc.prems None True by simp
      moreover have "n = VPU_SLAB_ORDER_COUNT - (k + 1)" using Suc.hyps(2) by simp
      note Suc.hyps(1) [OF this True, of ?xs]
      ultimately show ?thesis
        using Suc.prems at None True
        by (auto split: prod.splits sum.splits intro: converse_rtranclp_into_rtranclp)
    next
      case False
      then show ?thesis
        using driver_step.alloc_fail [of t ?s ptr flags k v2p] Suc.prems None at by auto
    qed
  next
    case (Some r)
    then show ?thesis
      using driver_step.alloc_take [of t ?s ptr flags k "fst r" "snd r" v2p] Suc.prems at by (cases r) auto
  qed
qed simp

lemma alloc_runs:
  assumes "t < length (threads s)" "threads s ! t = Ready"
    and "alloc_heap (dev s) (kzalloc_addr env) = None"
  shows "(driver_step v2p)\<^sup>*\<^sup>* s \<lparr>dev = fst (vpu_ioctl_alloc v2p env req (dev s)), threads = threads s\<rparr>"
proof -
  let ?d = "dev s" and ?xs = "threads s" and ?ptr = "kzalloc_addr env"
  have stay: "(driver_step v2p)\<^sup>*\<^sup>* s \<lparr>dev = ?d, threads = ?xs\<rparr>" by (cases s) simp
  have idle: "?xs[t := y, t := Ready] = ?xs" for y using assms(2) by (simp flip: assms(2))
  show ?thesis
  proof (cases "in_fault env \<or> aq_size req = 0 \<or> ?ptr = 0")
    case True
    then show ?thesis using stay by (auto simp: vpu_ioctl_alloc_def)
  next
    case False
    let ?d1 = "?d\<lparr>alloc_heap := (alloc_heap ?d)(?ptr \<mapsto> kzalloc_record)\<rparr>"
    show ?thesis
    proof (cases "unat (aq_size req) \<le> vpu_slab_sizes ! 4")
      case True
      obtain k where k: "vpu_select_order (unat (aq_size req)) = int k" "k < VPU_SLAB_ORDER_COUNT"
        using select_order_Some [OF True] by metis
      let ?xs1 = "?xs[t := Trying ?ptr (aq_flags req) k]"
      have b: "driver_step v2p s \<lparr>dev = ?d1, threads = ?xs1\<rparr>"
        using driver_step.alloc_begin [OF assms(1,2) _ _ assms(3) k] False by simp
      show ?thesis
      proof (cases "vpu_slab_alloc v2p (vpu_slab_sizes ! k) (pools ?d)")
        case (Pair p r)
        show ?thesis
        proof (cases r)
          case (Inl e)
          then have "p = pools ?d" "(driver_step v2p)\<^sup>*\<^sup>* \<lparr>dev = ?d1, threads = ?xs1\<rparr>
              \<lparr>dev = ?d\<lparr>alloc_heap := (alloc_heap ?d)(?ptr := None)\<rparr>, threads = ?xs\<rparr>"
            using trying_runs [OF k(2), of t ?xs1 ?ptr "aq_flags req" ?d1 v2p] assms(1) Pair idle by simp_all
          then show ?thesis
            using b Pair Inl False
            by (auto simp: vpu_ioctl_alloc_def Let_def alloc_select [OF k] intro: converse_rtranclp_into_rtranclp)
        next
          case (Inr bk)
          then have m: "(driver_step v2p)\<^sup>*\<^sup>* \<lparr>dev = ?d1, threads = ?xs1\<rparr>
              \<lparr>dev = ?d1\<lparr>pools := p\<rparr>, threads = ?xs[t := Placed ?ptr (aq_flags req) bk]\<rparr>"
            using trying_runs [OF k(2), of t ?xs1 ?ptr "aq_flags req" ?d1 v2p] assms(1) Pair by simp
          have "driver_step v2p \<lparr>dev = ?d1\<lparr>pools := p\<rparr>, threads = ?xs[t := Placed ?ptr (aq_flags req) bk]\<rparr>
              \<lparr>dev = list_alloc ?ptr (aq_flags req) bk (?d1\<lparr>pools := p\<rparr>), threads = ?xs\<rparr>"
            using driver_step.alloc_end [of t "\<lparr>dev = ?d1\<lparr>pools := p\<rparr>, threads = ?xs[t := Placed ?ptr (aq_flags req) bk]\<rparr>"
              ?ptr "aq_flags req" bk v2p] assms(1) idle by simp
          with b m have "(driver_step v2p)\<^sup>*\<^sup>* s
              \<lparr>dev = list_alloc ?ptr (aq_flags req) bk (?d1\<lparr>pools := p\<rparr>), threads = ?xs\<rparr>"
            by (meson converse_rtranclp_into_rtranclp rtranclp.rtrancl_into_rtrancl)
          then show ?thesis
            using Pair Inr False by (simp add: vpu_ioctl_alloc_def Let_def alloc_select [OF k])
        qed
      qed
    next
      case False
      then have "vpu_slab_alloc v2p (unat (aq_size req)) p = (p, Inl (- ENOSPC))" for p
        by (subst vpu_slab_alloc.simps) (simp add: select_order_None)
      then show ?thesis using stay assms(3) by (auto simp: vpu_ioctl_alloc_def Let_def fun_upd_idem)
    qed
  qed
qed

lemma free_runs:
  assumes "t < length (threads s)" "threads s ! t = Ready"
    and "vpu_ioctl_free env h (dev s) = Some r"
  shows "(driver_step v2p)\<^sup>*\<^sup>* s \<lparr>dev = fst r, threads = threads s\<rparr>"
proof -
  let ?d = "dev s" and ?xs = "threads s"
  note Some = assms(3)
  have stay: "(driver_step v2p)\<^sup>*\<^sup>* s \<lparr>dev = ?d, threads = ?xs\<rparr>" by (cases s) simp
  have idle: "?xs[t := y, t := Ready] = ?xs" for y using assms(2) by (simp flip: assms(2))
  show ?thesis
  proof (cases "fst r = ?d")
    case False
    then obtain d a where u: "unlist h ?d = Some (d, Some a)" and "reclaim a d = Some (fst r)"
      using Some by (auto simp: vpu_ioctl_free_def unlist_def split: if_splits Option.bind_splits option.splits)
    then have "driver_step v2p s \<lparr>dev = d, threads = ?xs[t := Unlisted a]\<rparr>"
      "driver_step v2p \<lparr>dev = d, threads = ?xs[t := Unlisted a]\<rparr> \<lparr>dev = fst r, threads = ?xs\<rparr>"
      using driver_step.free_begin [OF assms(1,2) u, of v2p]
        driver_step.free_end [of t "\<lparr>dev = d, threads = ?xs[t := Unlisted a]\<rparr>" a "fst r" v2p] assms(1) idle
      by simp_all
    then show ?thesis using Some by (auto intro: converse_rtranclp_into_rtranclp)
  qed (use Some stay in simp)
qed

text \<open>C20. The requests as the driver codes them are the steps of a thread: what \<open>vpu_ioctl_alloc\<close> and
  \<open>vpu_ioctl_free\<close> do to the device, a thread can do in the step relation.
\<close>

theorem vpu_requests_are_steps:
  assumes "t < length (threads s)" "threads s ! t = Ready"
    and "alloc_heap (dev s) (kzalloc_addr env) = None"
  shows "(vpu_step v2p)\<^sup>*\<^sup>* s \<lparr>dev = fst (vpu_ioctl_alloc v2p env req (dev s)), threads = threads s\<rparr> \<and>
    (case vpu_ioctl_free env h (dev s) of
       None \<Rightarrow> True
     | Some r \<Rightarrow> (vpu_step v2p)\<^sup>*\<^sup>* s \<lparr>dev = fst r, threads = threads s\<rparr>)"
  using alloc_runs [OF assms, THEN driver_runs] free_runs [OF assms(1,2), THEN driver_runs]
  by (auto split: option.split)

lemma find_handle_dmabuf:
  assumes "heap a = Some al" "va_handle al' = va_handle al"
  shows "find_handle (heap(a \<mapsto> al')) h as = find_handle heap h as"
  using assms by (induction as) (auto split: Option.bind_splits)

text \<open>C24. Sharing breaks this.  Release does not look at \<open>dmabuf\<close>: after an allocation has been exported and
  freed, importing its descriptor reads the freed record, and so does closing it.
\<close>

theorem vpu_stale_export:
  assumes "vpu_ioctl_export_dma env (Inr buf) fd h d = Some (d1, Inr n)" "buf \<noteq> 0"
    and "\<forall>a al. alloc_heap d a = Some al \<longrightarrow> va_dmabuf al = 0"
    and "vpu_ioctl_free env h d1 = Some (d2, 0)"
  shows "vpu_ioctl_import_dma env flags (Own_Buf buf) d2 = None \<and> vpu_dmabuf_release buf d2 = None"
proof -
  have nf: "\<not> in_fault env" using assms(1) by (auto simp: vpu_ioctl_export_dma_def)
  then obtain a al where a: "vpu_find_alloc d h = Some (Some a)" "alloc_heap d a = Some al"
    and d1: "d1 = d\<lparr>dma_bufs := (dma_bufs d)(buf \<mapsto> a), alloc_heap := (alloc_heap d)(a \<mapsto> al\<lparr>va_dmabuf := buf\<rparr>)\<rparr>"
    using assms(1,3)
    by (auto simp: vpu_ioctl_export_dma_def vpu_dma_buf_export_def Let_def
      split: Option.bind_splits option.splits if_splits sum.splits)
  have "vpu_find_alloc d1 h = Some (Some a)"
    using a by (simp add: d1 vpu_find_alloc_def find_handle_dmabuf)
  then have "dma_bufs d2 = dma_bufs d1" "alloc_heap d2 a = None"
    using assms(4) nf by (auto simp: vpu_ioctl_free_def unlist_def reclaim_def split: Option.bind_splits)
  then have "dma_bufs d2 buf = Some a" "alloc_heap d2 a = None" by (simp_all add: d1)
  then show ?thesis
    using nf by (simp add: vpu_ioctl_import_dma_def vpu_dma_buf_import_def vpu_dmabuf_release_def)
qed

subsection \<open>Witnesses\<close>

definition sample_sys :: vpu_system where
  "sample_sys = \<lparr>dev = the (fst (vpu_module_init True sample_vz 0 blank_pools)), threads = [Ready, Ready]\<rparr>"

lemma sample_init: "vpu_slab_init sample_vz blank_pools = (sample_pools, 0)"
  using pools_init_ok [of blank_pools sample_vz]
  by (auto simp: sample_pools_def blank_pools_def sample_vz_def)

lemma sample_sys_fields:
  "pools (dev sample_sys) = sample_pools" "alloc_heap (dev sample_sys) = (\<lambda>_. None)"
  "alloc_list (dev sample_sys) = []" "threads sample_sys = [Ready, Ready]"
  by (simp_all add: sample_sys_def vpu_module_init_def sample_init)

lemma sample_reachable: "vpu_reachable sample_vz v2p sample_sys"
proof (rule reach_init)
  show "vpu_init sample_vz sample_sys"
    unfolding vpu_init_def
    by (auto simp: sample_apart sample_sys_def vpu_module_init_def sample_init
      intro!: exI [of _ blank_pools]) (simp add: blank_pools_def)
qed

text \<open>Thread 0 takes a block of 4 KiB, and then ends its request.\<close>

text \<open>\<open>P\<close> is what is known of how the state was reached; the driver's steps keep it.\<close>

definition followed :: "(nat \<Rightarrow> nat) \<Rightarrow> (vpu_system \<Rightarrow> bool) \<Rightarrow> bool" where
  "followed v2p P \<longleftrightarrow> (\<forall>s. P s \<longrightarrow> vpu_reachable sample_vz v2p s) \<and>
     (\<forall>s s'. P s \<longrightarrow> driver_step v2p s s' \<longrightarrow> P s')"

lemma followedD:
  assumes "followed v2p P" "P s"
  shows "vpu_reachable sample_vz v2p s" "driver_step v2p s s' \<Longrightarrow> P s'"
  using assms by (auto simp: followed_def)

lemma sample_place:
  assumes "followed v2p P"
    and "P s" "threads s = [Ready, Ready]" "ptr \<noteq> 0" "alloc_heap (dev s) ptr = None"
    and "taken (pools (dev s)) \<subseteq> {(0, 0), (0, 1)}"
  shows "\<exists>p i. P
      \<lparr>dev = (dev s)\<lparr>alloc_heap := (alloc_heap (dev s))(ptr \<mapsto> kzalloc_record), pools := p\<rparr>,
       threads = [Placed ptr 0 (block_of v2p p 0 i), Ready]\<rparr> \<and>
      taken p = insert (0, i) (taken (pools (dev s))) \<and> (0, i) \<notin> taken (pools (dev s)) \<and>
      (\<forall>j<i. (0, j) \<in> taken (pools (dev s))) \<and> ram p = ram (pools (dev s))"
proof -
  let ?req = "\<lparr>aq_size = 100, aq_flags = 0, aq_handle = 0, aq_gpu_addr = 0\<rparr> :: vpu_alloc_req"
  let ?d = "(dev s)\<lparr>alloc_heap := (alloc_heap (dev s))(ptr \<mapsto> kzalloc_record)\<rparr>"
  have order0: "vpu_select_order (unat (aq_size ?req)) = int 0" "0 < VPU_SLAB_ORDER_COUNT"
    by (simp_all only: vpu_select_order_def orders_upt) (simp_all add: vpu_slab_sizes_def VPU_SLAB_ORDER_COUNT_def)
  have "driver_step v2p s \<lparr>dev = ?d, threads = [Trying ptr 0 0, Ready]\<rparr>"
    using driver_step.alloc_begin [of 0 s ?req ptr 0 v2p] assms(3-5) order0 by simp
  note r1 = followedD(2) [OF assms(1,2) this]
  have ok: "pools_ok sample_vz (pools (dev s))"
    using reachable_parts(3) [OF followedD(1) [OF assms(1,2)]] by (simp add: blocks_inv_def)
  have "(0, 2) \<notin> taken (pools (dev s))" using assms(6) by auto
  then obtain p i where t: "slab_take 0 (pools (dev s)) = Some (p, i)"
    using take_None [OF ok order0(2)] by (auto simp: slab_block_counts_def)
  note tk = take_Some [OF ok order0(2) t]
  have "driver_step v2p \<lparr>dev = ?d, threads = [Trying ptr 0 0, Ready]\<rparr>
      \<lparr>dev = ?d\<lparr>pools := p\<rparr>, threads = [Placed ptr 0 (block_of v2p p 0 i), Ready]\<rparr>"
    using driver_step.alloc_take [of 0 "\<lparr>dev = ?d, threads = [Trying ptr 0 0, Ready]\<rparr>" ptr 0 0 p i v2p] t by simp
  from followedD(2) [OF assms(1) r1 this] show ?thesis using tk by (intro exI [of _ p] exI [of _ i]) simp
qed

lemma sample_alloc:
  assumes "followed v2p P"
    and "P s" "threads s = [Ready, Ready]" "ptr \<noteq> 0" "alloc_heap (dev s) ptr = None"
    and "taken (pools (dev s)) \<subseteq> {(0, 0), (0, 1)}"
  shows "\<exists>s' al i. P s' \<and> threads s' = [Ready, Ready] \<and>
      alloc_list (dev s') = alloc_list (dev s) @ [ptr] \<and>
      alloc_heap (dev s') = (alloc_heap (dev s))(ptr \<mapsto> al) \<and> va_order al = 0 \<and>
      taken (pools (dev s')) = insert (0, i) (taken (pools (dev s))) \<and>
      (\<forall>j<i. (0, j) \<in> taken (pools (dev s)))"
proof -
  define d where "d p = (dev s)\<lparr>alloc_heap := (alloc_heap (dev s))(ptr \<mapsto> kzalloc_record), pools := p\<rparr>" for p
  obtain p i where r: "P
      \<lparr>dev = d p, threads = [Placed ptr 0 (block_of v2p p 0 i), Ready]\<rparr>"
    and p: "taken p = insert (0, i) (taken (pools (dev s)))" "\<forall>j<i. (0, j) \<in> taken (pools (dev s))"
    unfolding d_def using sample_place [OF assms] by blast
  let ?d = "list_alloc ptr 0 (block_of v2p p 0 i) (d p)"
  have "driver_step v2p \<lparr>dev = d p, threads = [Placed ptr 0 (block_of v2p p 0 i), Ready]\<rparr>
      \<lparr>dev = ?d, threads = [Ready, Ready]\<rparr>"
    using driver_step.alloc_end [of 0 "\<lparr>dev = d p, threads = [Placed ptr 0 (block_of v2p p 0 i), Ready]\<rparr>" ptr 0
      "block_of v2p p 0 i" v2p] by simp
  note r2 = followedD(2) [OF assms(1) r this]
  obtain al where "alloc_heap ?d = (alloc_heap (dev s))(ptr \<mapsto> al)" "va_order al = 0"
    by (simp add: d_def block_of_def Let_def)
  moreover have "alloc_list ?d = alloc_list (dev s) @ [ptr]" "pools ?d = p" by (simp_all add: d_def)
  ultimately show ?thesis
    using r2 p by (intro exI [of _ "\<lparr>dev = ?d, threads = [Ready, Ready]\<rparr>"] exI [of _ al] exI [of _ i]) simp
qed

text \<open>Runs in which no user writes.\<close>

abbreviation quiet_reach :: "(nat \<Rightarrow> nat) \<Rightarrow> vpu_system \<Rightarrow> bool" where
  "quiet_reach v2p s \<equiv> reach (watched_init sample_vz) (watched_step v2p) (s, {})"

lemma quiet_start: "quiet_reach v2p sample_sys"
proof (rule reach.reach_init)
  show "watched_init sample_vz (sample_sys, {})"
    unfolding watched_init_def vpu_init_def
    by (auto simp: sample_apart sample_sys_def vpu_module_init_def sample_init
      intro!: exI [of _ blank_pools]) (simp add: blank_pools_def)
qed

lemma quiet_step: "quiet_reach v2p s \<Longrightarrow> driver_step v2p s s' \<Longrightarrow> quiet_reach v2p s'"
proof -
  assume q: "quiet_reach v2p s" and d: "driver_step v2p s s'"
  from d have "watched_step v2p (s, {}) (s', {} - released s s')" by (rule watched_driver)
  with q have "reach (watched_init sample_vz) (watched_step v2p) (s', {} - released s s')"
    by (rule reach.reach_step)
  then show "quiet_reach v2p s'" by simp
qed

lemma watched_sound:
  "reach (watched_init vz) (watched_step v2p) w \<Longrightarrow> vpu_reachable vz v2p (fst w)"
proof (induction rule: reach.induct)
  case (reach_init w)
  then show ?case by (auto simp: watched_init_def intro: reach.reach_init)
next
  case (reach_step w w')
  then show ?case using watched_step_iff [of v2p "fst w" "fst w'"]
    by (metis prod.collapse reach.reach_step)
qed

lemma quiet_sound: "quiet_reach v2p s \<Longrightarrow> vpu_reachable sample_vz v2p s"
  using watched_sound by fastforce

lemma quiet_followed: "followed v2p (quiet_reach v2p)"
  unfolding followed_def using quiet_sound quiet_step by blast

lemma sample_one:
  "\<exists>s a. quiet_reach v2p s \<and> threads s = [Ready, Ready] \<and> alloc_list (dev s) = [1] \<and>
     alloc_heap (dev s) = [1 \<mapsto> a] \<and> va_order a = 0 \<and> taken (pools (dev s)) = {(0, 0)}"
proof -
  obtain s a i where s: "quiet_reach v2p s" "threads s = [Ready, Ready]"
      "alloc_list (dev s) = [1]" "alloc_heap (dev s) = [1 \<mapsto> a]" "va_order a = 0"
      "taken (pools (dev s)) = {(0, i)}" "\<forall>j<i. (0 :: nat, j :: nat) \<in> {}"
    using sample_alloc [OF quiet_followed quiet_start, of 1 v2p]
    by (auto simp: sample_sys_fields pools_freshD [OF sample_fresh])
  then have "i = 0" by auto
  with s show ?thesis by blast
qed

lemma sample_two:
  "\<exists>s a b. vpu_reachable sample_vz v2p s \<and> threads s = [Ready, Ready] \<and> alloc_list (dev s) = [1, 2] \<and>
     alloc_heap (dev s) = [1 \<mapsto> a, 2 \<mapsto> b] \<and> va_order a = 0 \<and> va_order b = 0"
proof -
  obtain s a where s: "quiet_reach v2p s" "threads s = [Ready, Ready]" "alloc_list (dev s) = [1]"
      "alloc_heap (dev s) = [1 \<mapsto> a]" "va_order a = 0" "taken (pools (dev s)) = {(0, 0)}"
    using sample_one by blast
  with sample_alloc [OF quiet_followed s(1,2), of 2] quiet_sound
  show ?thesis by (simp add: fun_upd_twist) metis
qed

theorem vpu_blocks_exclusive_witness:
  "\<exists>s a b. vpu_reachable sample_vz id s \<and> alloc_list (dev s) = [1, 2] \<and>
     alloc_heap (dev s) = [1 \<mapsto> a, 2 \<mapsto> b] \<and> user_bytes a \<inter> user_bytes b = {}"
proof -
  obtain s a b where s: "vpu_reachable sample_vz id s" "alloc_list (dev s) = [1, 2]"
    "alloc_heap (dev s) = [1 \<mapsto> a, 2 \<mapsto> b]" "va_order a = 0" "va_order b = 0"
    using sample_two [of id] by blast
  with vpu_blocks_exclusive [OF s(1), of 1 2 a b] show ?thesis by auto
qed

theorem vpu_table_wellformed_witness:
  "\<exists>s al. vpu_reachable sample_vz id s \<and> alloc_list (dev s) = [1, 2] \<and> alloc_heap (dev s) 2 = Some al \<and>
     va_order al = 0 \<and> va_size al = 4096"
proof -
  obtain s a b where s: "vpu_reachable sample_vz id s" "alloc_list (dev s) = [1, 2]"
    "alloc_heap (dev s) = [1 \<mapsto> a, 2 \<mapsto> b]" "va_order b = 0"
    using sample_two [of id] by blast
  with vpu_table_wellformed [OF s(1), of 2] show ?thesis by (auto simp: vpu_slab_sizes_def)
qed

theorem vpu_no_leak_witness:
  "\<exists>s. vpu_reachable sample_vz id s \<and> alloc_list (dev s) = [1, 2] \<and> dom (alloc_heap (dev s)) = {1, 2}"
proof -
  obtain s a b where s: "vpu_reachable sample_vz id s" "threads s = [Ready, Ready]" "alloc_list (dev s) = [1, 2]"
    using sample_two [of id] by blast
  with vpu_no_leak [OF s(1)] show ?thesis by auto
qed

theorem vpu_no_dangling_witness:
  "\<exists>s. vpu_reachable sample_vz id s \<and> alloc_list (dev s) = [1, 2] \<and> vpu_find_alloc (dev s) 2 \<noteq> None"
proof -
  obtain s where s: "vpu_reachable sample_vz id s" "alloc_list (dev s) = [1, 2]"
    using sample_two [of id] by blast
  with vpu_no_dangling [OF s(1), of 2] show ?thesis by auto
qed

theorem vpu_fresh_block_zero_witness:
  "\<exists>s b. quiet_reach id s \<and> threads s ! 0 = Placed 1 0 b \<and> vb_order b = 0 \<and>
     ram (pools (dev s)) (vb_cpu_addr b) = 0"
proof -
  define d where "d p = (dev sample_sys)\<lparr>alloc_heap := [1 \<mapsto> kzalloc_record], pools := p\<rparr>" for p
  obtain p i where r: "quiet_reach id \<lparr>dev = d p, threads = [Placed 1 0 (block_of id p 0 i), Ready]\<rparr>"
    using sample_place [OF quiet_followed quiet_start, of 1 id] unfolding d_def
    by (auto simp: sample_sys_fields pools_freshD [OF sample_fresh] id_def)
  have "vb_order (block_of id p 0 i) = 0" by (simp add: block_of_def Let_def)
  then show ?thesis
    using r vpu_fresh_block_zero [OF r, of 0 1 0 "block_of id p 0 i" "vb_cpu_addr (block_of id p 0 i)"]
    by (intro exI conjI) (assumption | simp add: vpu_slab_sizes_def)+
qed

text \<open>
  What is written through a mapping after the release shows in the next allocation: a block is allocated
  and mapped with \<open>vpu_mmap\<close>, freed, written to at the address of the mapping, and the next request is
  given the block with that byte in it.  (Physical and kernel addresses are the same in this example.)
\<close>

lemma freed_again:
  assumes "vpu_reachable sample_vz v2p s" "threads s = [Ready, Ready]" "alloc_list (dev s) = [1]"
    and "alloc_heap (dev s) = [1 \<mapsto> a]" "va_order a = 0" "taken (pools (dev s)) = {(0, 0)}"
  shows "\<not> in_fault env \<Longrightarrow> \<exists>d. vpu_ioctl_free env (va_handle a) (dev s) = Some (d, 0)
    \<and> alloc_heap d = Map.empty \<and> alloc_list d = [] \<and> taken (pools d) = {}"
    and "va_cpu_addr a = sample_vz 0" "va_dma_addr a = v2p (sample_vz 0)" "va_size a = 4096"
proof -
  obtain i where w: "(0, i) \<in> taken (pools (dev s))" "va_block_idx a = int i" "va_size a = vpu_slab_sizes ! 0"
    "va_cpu_addr a = sample_vz 0 + i * vpu_slab_sizes ! 0" "va_dma_addr a = v2p (va_cpu_addr a)"
  proof -
    have "1 \<in> set (alloc_list (dev s))" by (simp add: assms(3))
    from reachable_parts(4) [OF assms(1)] this assms(4) have ok: "alloc_ok sample_vz v2p a"
      by (auto simp: tables_inv_def)
    then have "block_ok sample_vz v2p 0 (nat (va_block_idx a)) \<lparr>vb_cpu_addr = va_cpu_addr a,
        vb_dma_addr = va_dma_addr a, vb_order = va_order a, vb_block_idx = va_block_idx a\<rparr>"
      "va_size a = vpu_slab_sizes ! 0" using assms(5) by (simp_all add: alloc_ok_def)
    moreover have "(0, nat (va_block_idx a)) \<in> taken (pools (dev s))"
      using listed_taken(1) [OF reachable_parts(3) [OF assms(1)], of 1 a] assms(3-5) by simp
    ultimately show ?thesis by (intro that [of "nat (va_block_idx a)"]) (auto simp: block_ok_def)
  qed
  then have i: "i = 0" using assms(6) by simp
  show "va_cpu_addr a = sample_vz 0" "va_dma_addr a = v2p (sample_vz 0)" "va_size a = 4096"
    using w i by (simp_all add: vpu_slab_sizes_def)
  have pok: "pools_ok sample_vz (pools (dev s))"
    using reachable_parts(3) [OF assms(1)] by (simp add: blocks_inv_def)
  have "(0, 0) \<in> taken (pools (dev s))" by (simp add: assms(6))
  from free_taken(2) [OF pok this] have "taken (vpu_slab_free 0 0 (pools (dev s))) = {}" by (simp add: assms(6))
  then show "\<not> in_fault env \<Longrightarrow> \<exists>d. vpu_ioctl_free env (va_handle a) (dev s) = Some (d, 0)
    \<and> alloc_heap d = Map.empty \<and> alloc_list d = [] \<and> taken (pools d) = {}"
    using w(2) i assms(3-5) by (auto simp: vpu_ioctl_free_def unlist_def vpu_find_alloc_def reclaim_def)
qed

theorem vpu_late_write_shows:
  "\<exists>s h x d b s'. vpu_reachable sample_vz id s \<and> threads s = [Ready, Ready] \<and>
     vpu_mmap 0 (x div PAGE_SIZE) 4096 (dev s) = Some (Inr x) \<and>
     vpu_ioctl_free \<lparr>in_fault = False, out_fault = False, kzalloc_addr = 1\<rparr> h (dev s) = Some (d, 0) \<and>
     (vpu_step id)\<^sup>*\<^sup>* (user_write x 1 \<lparr>dev = d, threads = threads s\<rparr>) s' \<and>
     threads s' ! 0 = Placed 1 0 b \<and> x = vb_cpu_addr b \<and> ram (pools (dev s')) x = 1"
proof -
  let ?env = "\<lparr>in_fault = False, out_fault = False, kzalloc_addr = 1\<rparr> :: kernel_env"
  let ?x = "sample_vz 0"
  obtain s a where s: "quiet_reach id s" "threads s = [Ready, Ready]" "alloc_list (dev s) = [1]"
      "alloc_heap (dev s) = [1 \<mapsto> a]" "va_order a = 0" "taken (pools (dev s)) = {(0, 0)}"
    using sample_one by blast
  note r = quiet_sound [OF s(1)]
  note f = freed_again [OF r s(2-6)]
  obtain d where d: "vpu_ioctl_free ?env (va_handle a) (dev s) = Some (d, 0)"
    "alloc_heap d = Map.empty" "alloc_list d = []" "taken (pools d) = {}"
    using f(1) [of ?env] by auto
  have map: "vpu_mmap 0 (?x div PAGE_SIZE) 4096 (dev s) = Some (Inr ?x)"
    using s(3,4) f(2-4) by (simp add: vpu_mmap_def PAGE_SIZE_def sample_vz_def)
  let ?u = "user_write ?x 1 \<lparr>dev = d, threads = threads s\<rparr>"
  have "(driver_step id)\<^sup>*\<^sup>* s \<lparr>dev = fst (d, 0 :: int), threads = threads s\<rparr>"
    using free_runs [of 0 s ?env "va_handle a" "(d, 0)" id] d(1) s(2) by simp
  then have "vpu_reachable sample_vz id \<lparr>dev = d, threads = threads s\<rparr>"
    using reach_steps [OF driver_runs r] by simp
  then have u: "vpu_reachable sample_vz id ?u"
    by (rule reach.reach_step) (rule by_user)
  define P where "P s' \<longleftrightarrow> vpu_reachable sample_vz id s' \<and> (vpu_step id)\<^sup>*\<^sup>* ?u s'" for s'
  have P: "followed id P"
    unfolding followed_def P_def
    by (blast intro: by_driver reach.reach_step rtranclp.rtrancl_into_rtrancl)
  have "P ?u" using u by (simp add: P_def)
  from sample_place [OF P this, of 1] obtain p i where
    p: "P \<lparr>dev = (dev ?u)\<lparr>alloc_heap := (alloc_heap (dev ?u))(1 \<mapsto> kzalloc_record), pools := p\<rparr>,
       threads = [Placed 1 0 (block_of id p 0 i), Ready]\<rparr>"
    and "\<forall>j<i. (0, j) \<in> taken (pools (dev ?u))" "ram p = ram (pools (dev ?u))"
    using s(2) d(2,4) by auto
  then have i: "i = 0" and x: "ram p ?x = 1" using d(4) by auto
  define s' where "s' = \<lparr>dev = (dev ?u)\<lparr>alloc_heap := (alloc_heap (dev ?u))(1 \<mapsto> kzalloc_record), pools := p\<rparr>,
       threads = [Placed 1 0 (block_of id p 0 i), Ready]\<rparr>"
  have s': "vpu_reachable sample_vz id s'" "(vpu_step id)\<^sup>*\<^sup>* ?u s'"
    using p by (simp_all add: P_def s'_def)
  have "pools_ok sample_vz p" using reachable_parts(3) [OF s'(1)] by (simp add: blocks_inv_def s'_def)
  then have "vb_cpu_addr (block_of id p 0 i) = ?x"
    using pools_okD(4) [of sample_vz p 0] i by (simp add: block_of_def block_addr_def Let_def less_orders)
  with s'(2) x map d(1) r s(2) show ?thesis
    by (intro exI [of _ s] exI [of _ "va_handle a"] exI [of _ ?x] exI [of _ d]
        exI [of _ "block_of id p 0 i"] exI [of _ s']) (simp add: s'_def)
qed

theorem vpu_requests_are_steps_witness:
  "(vpu_step id)\<^sup>*\<^sup>* sample_sys
     \<lparr>dev = fst (vpu_ioctl_alloc id \<lparr>in_fault = False, out_fault = False, kzalloc_addr = 1\<rparr>
        \<lparr>aq_size = 100, aq_flags = 0, aq_handle = 0, aq_gpu_addr = 0\<rparr> (dev sample_sys)),
      threads = [Ready, Ready]\<rparr>"
  using vpu_requests_are_steps [of 0 sample_sys "\<lparr>in_fault = False, out_fault = False, kzalloc_addr = 1\<rparr>"
    id "\<lparr>aq_size = 100, aq_flags = 0, aq_handle = 0, aq_gpu_addr = 0\<rparr>"]
  by (simp add: sample_sys_fields)

theorem vpu_stale_export_witness:
  "let env = \<lparr>in_fault = False, out_fault = False, kzalloc_addr = 7\<rparr>;
       d = \<lparr>pools = sample_pools, alloc_heap = [5 \<mapsto> kzalloc_record\<lparr>va_handle := 1, va_size := 4096\<rparr>],
         alloc_list = [5], next_handle = 2, next_gpu_addr = 0x100001000, total_allocated = 4096,
         total_freed = 0, active_allocs = 1, dma_bufs = (\<lambda>_. None)\<rparr>;
       d1 = fst (the (vpu_ioctl_export_dma env (Inr 9) 3 1 d));
       d2 = fst (the (vpu_ioctl_free env 1 d1))
   in vpu_ioctl_import_dma env 0 (Own_Buf 9) d2 = None"
proof -
  let ?env = "\<lparr>in_fault = False, out_fault = False, kzalloc_addr = 7\<rparr> :: kernel_env"
  let ?d = "\<lparr>pools = sample_pools, alloc_heap = [5 \<mapsto> kzalloc_record\<lparr>va_handle := 1, va_size := 4096\<rparr>],
         alloc_list = [5], next_handle = 2, next_gpu_addr = 0x100001000, total_allocated = 4096,
         total_freed = 0, active_allocs = 1, dma_bufs = (\<lambda>_. None)\<rparr> :: vpu_device"
  obtain d1 where e: "vpu_ioctl_export_dma ?env (Inr 9) 3 1 ?d = Some (d1, Inr 3)"
    and d1: "d1 = ?d\<lparr>dma_bufs := [9 \<mapsto> 5], alloc_heap := [5 \<mapsto> kzalloc_record\<lparr>va_handle := 1, va_size := 4096, va_dmabuf := 9\<rparr>]\<rparr>"
    by (simp add: vpu_ioctl_export_dma_def vpu_find_alloc_def vpu_dma_buf_export_def kzalloc_record_def Let_def)
  obtain d2 where f: "vpu_ioctl_free ?env 1 d1 = Some (d2, 0)"
    by (simp add: d1 vpu_ioctl_free_def unlist_def vpu_find_alloc_def reclaim_def kzalloc_record_def)
  have "vpu_ioctl_import_dma ?env 0 (Own_Buf 9) d2 = None"
    using vpu_stale_export [OF e _ _ f] by (simp add: kzalloc_record_def)
  then show ?thesis by (simp add: Let_def e f)
qed

end
