(* ===== verification/Rhem.thy ===== *)
theory Rhem
  imports Decimal Bytes "HOL-Library.Multiset"
begin

text \<open>
  The resource manager of heterogeneous devices (\<open>bin/rhem\<close>): leases on the memory and the compute of devices
  (\<open>allocator.cpp\<close>), the placement policies (\<open>policy.cpp\<close>) and migration plans (\<open>migration.cpp\<close>).
  The arithmetic and the order of \<open>float\<close> are arguments, as is the text of a \<open>float\<close>; the list of devices is what
  the scan of the system found.
\<close>

subsection \<open>Devices\<close>

datatype dev_type = CPU | CUDA | ROCm | FPGA | TPU

record 'f device =
  d_id :: nat
  d_type :: dev_type
  d_name :: string
  d_memory :: nat
  d_tflops :: 'f
  d_available :: bool

record 'f float_ops =
  f_num :: "nat \<Rightarrow> 'f"
  f_tenth :: 'f
  f_minus_one :: 'f
  f_less :: "'f \<Rightarrow> 'f \<Rightarrow> bool"
  f_leq :: "'f \<Rightarrow> 'f \<Rightarrow> bool"
  f_add :: "'f \<Rightarrow> 'f \<Rightarrow> 'f"
  f_sub :: "'f \<Rightarrow> 'f \<Rightarrow> 'f"
  f_mul :: "'f \<Rightarrow> 'f \<Rightarrow> 'f"
  f_div :: "'f \<Rightarrow> 'f \<Rightarrow> 'f"
  f_string :: "'f \<Rightarrow> string"

fun dev_type_str :: "dev_type \<Rightarrow> string" where
  "dev_type_str CPU = ''CPU''"
| "dev_type_str CUDA = ''CUDA''"
| "dev_type_str ROCm = ''ROCm''"
| "dev_type_str FPGA = ''FPGA''"
| "dev_type_str TPU = ''TPU''"

subsection \<open>Leases\<close>

record 'f lease =
  l_device :: nat
  l_memory :: nat
  l_compute :: 'f
  l_id :: nat

record 'f lease_allocator =
  devices :: "'f device list"
  device_states :: "nat \<rightharpoonup> nat \<times> 'f"
  allocations :: "nat \<rightharpoonup> 'f lease"
  next_lease_id :: nat

definition new_lease_allocator :: "'f float_ops \<Rightarrow> 'f device list \<Rightarrow> 'f lease_allocator" where
  "new_lease_allocator F ds = \<lparr>devices = ds,
     device_states = foldl (\<lambda>m d. m(d_id d \<mapsto> (0, f_num F 0))) Map.empty ds,
     allocations = Map.empty, next_lease_id = 1\<rparr>"

fun find_among :: "'f float_ops \<Rightarrow> 'f lease_allocator \<Rightarrow> dev_type \<Rightarrow> nat \<Rightarrow> 'f \<Rightarrow> 'f device list \<Rightarrow> nat option" where
  "find_among F a ty mem compute [] = None"
| "find_among F a ty mem compute (dev # devs) =
     (if d_type dev \<noteq> ty \<or> \<not> d_available dev then find_among F a ty mem compute devs
      else case device_states a (d_id dev) of
        None \<Rightarrow> find_among F a ty mem compute devs
      | Some (used_memory, used_compute) \<Rightarrow>
          let avail_mem = size_t (d_memory dev + 2 ^ 64 - used_memory);
              avail_compute = f_sub F (f_num F 1) used_compute in
          if avail_mem \<ge> mem \<and> f_leq F compute avail_compute then Some (d_id dev)
          else find_among F a ty mem compute devs)"

definition find_device :: "'f float_ops \<Rightarrow> 'f lease_allocator \<Rightarrow> dev_type \<Rightarrow> nat \<Rightarrow> 'f \<Rightarrow> string + nat" where
  "find_device F a ty mem compute =
     (case find_among F a ty mem compute (devices a) of
        Some i \<Rightarrow> Inr i
      | None \<Rightarrow> Inl (''No '' @ dev_type_str ty @ '' device with sufficient capacity '' @
          ''(need '' @ dec_nat mem @ '' bytes, '' @ f_string F compute @ '' compute fraction)''))"

definition allocate :: "'f float_ops \<Rightarrow> dev_type \<Rightarrow> nat \<Rightarrow> 'f \<Rightarrow> 'f lease_allocator \<Rightarrow> 'f lease_allocator \<times> (string + 'f lease)" where
  "allocate F preferred mem compute a =
     (if f_less F compute (f_num F 0) \<or> f_less F (f_num F 1) compute
      then (a, Inl ''Compute fraction must be in [0, 1]'')
      else case find_device F a preferred mem compute of
        Inl e \<Rightarrow> (a, Inl e)
      | Inr dev_id \<Rightarrow>
          let l = \<lparr>l_device = dev_id, l_memory = mem, l_compute = compute, l_id = next_lease_id a\<rparr>;
              (used_memory, used_compute) = (case device_states a dev_id of Some s \<Rightarrow> s | None \<Rightarrow> (0, f_num F 0)) in
          (a\<lparr>next_lease_id := size_t (next_lease_id a + 1),
             device_states := (device_states a)(dev_id \<mapsto> (size_t (used_memory + mem), f_add F used_compute compute)),
             allocations := (allocations a)(l_id l \<mapsto> l)\<rparr>, Inr l))"

definition release_lease :: "'f float_ops \<Rightarrow> nat \<Rightarrow> 'f lease_allocator \<Rightarrow> 'f lease_allocator \<times> (string + unit)" where
  "release_lease F i a =
     (case allocations a i of
        None \<Rightarrow> (a, Inl (''Lease '' @ dec_nat i @ '' not found''))
      | Some l \<Rightarrow>
          let states = (case device_states a (l_device l) of
              None \<Rightarrow> device_states a
            | Some (m, c) \<Rightarrow> (device_states a)(l_device l \<mapsto>
                (if m > l_memory l then m - l_memory l else 0,
                 if f_less F (l_compute l) c then f_sub F c (l_compute l) else f_num F 0))) in
          (a\<lparr>device_states := states, allocations := (allocations a)(i := None)\<rparr>, Inr ()))"

text \<open>The active leases in the iteration order of the hash table.\<close>

definition active :: "nat list \<Rightarrow> 'f lease_allocator \<Rightarrow> 'f lease list" where
  "active order a = List.map_filter (allocations a) order"

subsection \<open>Placement\<close>

datatype policy = RoundRobin | LeastLoaded | AffinityBased | PowerEfficient

definition no_device :: "nat \<Rightarrow> string + nat" where
  "no_device mem = Inl (''No eligible device with '' @ dec_nat mem @ '' bytes'')"

definition eligible :: "nat \<Rightarrow> 'f device \<Rightarrow> bool" where
  "eligible mem dev \<longleftrightarrow> d_available dev \<and> d_memory dev \<ge> mem"

definition select_round_robin :: "nat \<Rightarrow> 'f device list \<Rightarrow> nat \<Rightarrow> nat \<times> (string + nat)" where
  "select_round_robin rr ds mem =
     (let es = filter (eligible mem) ds in
      if es = [] then (rr, no_device mem)
      else ((rr + 1) mod 2 ^ 32, Inr (d_id (es ! (rr mod (length es mod 2 ^ 32))))))"

text \<open>The best device of a loop that replaces the best one so far when a test says so.\<close>

fun best_device :: "('f device \<Rightarrow> 'f device \<Rightarrow> bool) \<Rightarrow> nat \<Rightarrow> 'f device list \<Rightarrow> 'f device option \<Rightarrow> 'f device option" where
  "best_device better mem [] best = best"
| "best_device better mem (dev # devs) best =
     (if \<not> eligible mem dev then best_device better mem devs best
      else case best of
        None \<Rightarrow> best_device better mem devs (Some dev)
      | Some b \<Rightarrow> best_device better mem devs (if better dev b then Some dev else best))"

definition result_of :: "nat \<Rightarrow> 'f device option \<Rightarrow> string + nat" where
  "result_of mem best = (case best of None \<Rightarrow> no_device mem | Some b \<Rightarrow> Inr (d_id b))"

definition select_least_loaded :: "'f device list \<Rightarrow> nat \<Rightarrow> string + nat" where
  "select_least_loaded ds mem = result_of mem (best_device (\<lambda>dev b. d_memory dev > d_memory b) mem ds None)"

fun type_priority :: "dev_type \<Rightarrow> nat" where
  "type_priority CUDA = 5"
| "type_priority ROCm = 4"
| "type_priority TPU = 3"
| "type_priority FPGA = 2"
| "type_priority CPU = 1"

definition preferred_to :: "'f float_ops \<Rightarrow> 'f device \<Rightarrow> 'f device \<Rightarrow> bool" where
  "preferred_to F dev b \<longleftrightarrow>
     type_priority (d_type dev) > type_priority (d_type b) \<or>
     type_priority (d_type dev) = type_priority (d_type b) \<and> f_less F (d_tflops b) (d_tflops dev)"

definition select_affinity :: "'f float_ops \<Rightarrow> 'f device list \<Rightarrow> nat \<Rightarrow> string + nat" where
  "select_affinity F ds mem = result_of mem (best_device (preferred_to F) mem ds None)"

fun estimated_watts :: "dev_type \<Rightarrow> nat" where
  "estimated_watts CPU = 150"
| "estimated_watts CUDA = 300"
| "estimated_watts ROCm = 250"
| "estimated_watts TPU = 200"
| "estimated_watts FPGA = 75"

definition efficiency :: "'f float_ops \<Rightarrow> 'f device \<Rightarrow> 'f" where
  "efficiency F dev = f_div F (d_tflops dev) (f_num F (estimated_watts (d_type dev)))"

fun most_efficient :: "'f float_ops \<Rightarrow> nat \<Rightarrow> 'f device list \<Rightarrow> 'f device option \<Rightarrow> 'f \<Rightarrow> 'f device option" where
  "most_efficient F mem [] best e = best"
| "most_efficient F mem (dev # devs) best e =
     (if \<not> eligible mem dev then most_efficient F mem devs best e
      else if f_less F e (efficiency F dev) then most_efficient F mem devs (Some dev) (efficiency F dev)
      else most_efficient F mem devs best e)"

definition select_power_efficient :: "'f float_ops \<Rightarrow> 'f device list \<Rightarrow> nat \<Rightarrow> string + nat" where
  "select_power_efficient F ds mem = result_of mem (most_efficient F mem ds None (f_minus_one F))"

text \<open>The state of the policy is the counter of round robin.\<close>

definition select_device :: "'f float_ops \<Rightarrow> 'f device list \<Rightarrow> nat \<Rightarrow> policy \<Rightarrow> nat \<Rightarrow> nat \<times> (string + nat)" where
  "select_device F ds mem p rr =
     (if ds = [] then (rr, Inl ''No devices available'')
      else case p of
        RoundRobin \<Rightarrow> select_round_robin rr ds mem
      | LeastLoaded \<Rightarrow> (rr, select_least_loaded ds mem)
      | AffinityBased \<Rightarrow> (rr, select_affinity F ds mem)
      | PowerEfficient \<Rightarrow> (rr, select_power_efficient F ds mem))"

definition reset_policy :: "nat \<Rightarrow> nat" where
  "reset_policy rr = 0"

subsection \<open>Migration\<close>

record 'f migration_plan =
  mp_src :: nat
  mp_dst :: nat
  mp_bytes :: nat
  mp_time :: 'f

fun lookup_device :: "nat \<Rightarrow> 'f device list \<Rightarrow> 'f device option" where
  "lookup_device i [] = None"
| "lookup_device i (d # ds) = (if d_id d = i then Some d else lookup_device i ds)"

fun peer_bandwidth :: "dev_type \<Rightarrow> nat" where
  "peer_bandwidth CUDA = 600"
| "peer_bandwidth ROCm = 200"
| "peer_bandwidth CPU = 50"
| "peer_bandwidth TPU = 300"
| "peer_bandwidth FPGA = 25"

definition estimate_bandwidth :: "dev_type \<Rightarrow> dev_type \<Rightarrow> nat" where
  "estimate_bandwidth s d = (if s = d then peer_bandwidth s else if s = CPU \<or> d = CPU then 25 else 12)"

definition plan_migration :: "'f float_ops \<Rightarrow> 'f device list \<Rightarrow> nat \<Rightarrow> nat \<Rightarrow> nat \<Rightarrow> string + 'f migration_plan" where
  "plan_migration F ds src dst bytes =
     (if src = dst then Inl ''Source and destination devices are the same''
      else case lookup_device src ds of
        None \<Rightarrow> Inl (''Source device '' @ dec_nat src @ '' not found'')
      | Some s \<Rightarrow> (case lookup_device dst ds of
          None \<Rightarrow> Inl (''Destination device '' @ dec_nat dst @ '' not found'')
        | Some d \<Rightarrow>
            if \<not> d_available s then Inl (''Source device '' @ d_name s @ '' is not available'')
            else if \<not> d_available d then Inl (''Destination device '' @ d_name d @ '' is not available'')
            else if bytes > d_memory d
            then Inl (''Tensor ('' @ dec_nat bytes @ '' bytes) exceeds destination memory ('' @
              dec_nat (d_memory d) @ '' bytes)'')
            else
              let bw = f_mul F (f_num F (estimate_bandwidth (d_type s) (d_type d))) (f_num F 1000000) in
              Inr \<lparr>mp_src = src, mp_dst = dst, mp_bytes = bytes,
                mp_time = f_add F (f_div F (f_num F bytes) bw) (f_tenth F)\<rparr>))"

definition execute_migration :: "'f device list \<Rightarrow> 'f migration_plan \<Rightarrow> string + unit" where
  "execute_migration ds p =
     (case lookup_device (mp_src p) ds of
        None \<Rightarrow> Inl (''Source device '' @ dec_nat (mp_src p) @ '' not found'')
      | Some s \<Rightarrow> (case lookup_device (mp_dst p) ds of
          None \<Rightarrow> Inl (''Destination device '' @ dec_nat (mp_dst p) @ '' not found'')
        | Some d \<Rightarrow>
            if \<not> d_available s \<or> \<not> d_available d then Inl ''One or both devices are unavailable''
            else if mp_bytes p = 0 then Inl ''Cannot migrate zero bytes''
            else Inr ()))"

subsection \<open>Leases stay within the memory\<close>

definition leases_on :: "'f lease_allocator \<Rightarrow> nat \<Rightarrow> nat set" where
  "leases_on a i = {j. \<exists>l. allocations a j = Some l \<and> l_device l = i}"

definition leased :: "'f lease_allocator \<Rightarrow> nat \<Rightarrow> nat" where
  "leased a i = (\<Sum>j\<in>leases_on a i. l_memory (the (allocations a j)))"

definition device_ok :: "'f lease_allocator \<Rightarrow> 'f device \<Rightarrow> bool" where
  "device_ok a d \<longleftrightarrow> d_memory d < 2 ^ 64 \<and>
     (\<exists>c. device_states a (d_id d) = Some (leased a (d_id d), c)) \<and> leased a (d_id d) \<le> d_memory d"

definition leases_ok :: "'f lease_allocator \<Rightarrow> bool" where
  "leases_ok a \<longleftrightarrow> finite (dom (allocations a)) \<and>
     (\<forall>i l. allocations a i = Some l \<longrightarrow> l_id l = i \<and> i < next_lease_id a \<and> l_device l \<in> d_id ` set (devices a))"

definition allocator_inv :: "'f lease_allocator \<Rightarrow> bool" where
  "allocator_inv a \<longleftrightarrow> distinct (List.map d_id (devices a)) \<and> leases_ok a \<and> (\<forall>d\<in>set (devices a). device_ok a d)"

lemma finite_leases_on: "finite (dom (allocations a)) \<Longrightarrow> finite (leases_on a i)"
  by (rule finite_subset [of _ "dom (allocations a)"]) (auto simp: leases_on_def)

lemma leased_insert:
  assumes "finite (dom (allocations a))" and "allocations a j = None" and "allocations b = (allocations a)(j \<mapsto> l)"
  shows "leased b i = leased a i + (if l_device l = i then l_memory l else 0)"
proof -
  have on: "leases_on b i = (if l_device l = i then insert j (leases_on a i) else leases_on a i)"
    using assms(2,3) by (auto simp: leases_on_def)
  have j: "j \<notin> leases_on a i"
    using assms(2) by (simp add: leases_on_def)
  have "(\<Sum>k\<in>leases_on a i. l_memory (the (allocations b k))) = leased a i"
    unfolding leased_def using j assms(3) by (intro sum.cong) auto
  then show ?thesis
    using finite_leases_on [OF assms(1), of i] j assms(3) by (simp add: leased_def [of b] on)
qed

lemma leased_delete:
  assumes "finite (dom (allocations a))" and "allocations a j = Some l" and "allocations b = (allocations a)(j := None)"
  shows "leased a i = leased b i + (if l_device l = i then l_memory l else 0)"
proof (rule leased_insert)
  show "finite (dom (allocations b))"
    using assms(1,3) by simp
  show "allocations a = (allocations b)(j \<mapsto> l)"
    using assms(2,3) by auto
qed (simp add: assms(3))

lemma find_among_sound:
  assumes "find_among F a ty mem compute ds = Some i"
  shows "\<exists>d\<in>set ds. d_id d = i \<and> d_type d = ty \<and> d_available d \<and>
    (\<exists>u c. device_states a i = Some (u, c) \<and> mem \<le> size_t (d_memory d + 2 ^ 64 - u) \<and> f_leq F compute (f_sub F (f_num F 1) c))"
  using assms
proof (induction ds)
  case (Cons d ds)
  then show ?case
    by (cases "device_states a (d_id d)") (force simp: Let_def split: if_splits)+
qed simp

lemma allocate_result:
  assumes "allocator_inv a" and "allocate F ty mem compute a = (b, Inr l)"
  shows "\<exists>d u c c'. d \<in> set (devices a) \<and> d_id d = l_device l \<and> d_type d = ty \<and> d_available d \<and>
    l_memory l = mem \<and> l_id l = next_lease_id a \<and>
    device_states a (d_id d) = Some (u, c) \<and> u = leased a (d_id d) \<and> u + mem \<le> d_memory d \<and>
    b = a\<lparr>next_lease_id := size_t (next_lease_id a + 1), device_states := (device_states a)(d_id d \<mapsto> (u + mem, c')),
      allocations := (allocations a)(next_lease_id a \<mapsto> l)\<rparr>"
proof -
  obtain i where i: "find_among F a ty mem compute (devices a) = Some i"
    using assms(2) by (auto simp: allocate_def find_device_def split: if_splits option.splits)
  obtain d u c where d: "d \<in> set (devices a)" "d_id d = i" "d_type d = ty" "d_available d"
      "device_states a i = Some (u, c)" "mem \<le> size_t (d_memory d + 2 ^ 64 - u)"
    using find_among_sound [OF i] by blast
  have "device_ok a d"
    using assms(1) d(1) by (simp add: allocator_inv_def)
  then have u: "u = leased a i" "u \<le> d_memory d" "d_memory d < 2 ^ 64"
    using d(2,5) by (auto simp: device_ok_def)
  then have "u + mem \<le> d_memory d"
    using d(6) size_t_diff [OF u(2,3)] by linarith
  moreover from this have "size_t (u + mem) = u + mem"
    using u(3) by (intro size_t_small) linarith
  ultimately show ?thesis
    using assms(2) d u by (auto simp: allocate_def find_device_def i Let_def split: if_splits)
qed

lemma allocate_inv [wf_intros]:
  assumes "allocator_inv a" and "next_lease_id a + 1 < 2 ^ 64"
  shows "allocator_inv (fst (allocate F ty mem compute a))"
proof (cases "allocate F ty mem compute a")
  case (Pair b r)
  show ?thesis
  proof (cases r)
    case (Inl e)
    then have "b = a"
      using Pair by (auto simp: allocate_def Let_def split: if_splits sum.splits prod.splits)
    with assms(1) Pair show ?thesis
      by simp
  next
    case (Inr l)
    obtain d u c c' where d: "d \<in> set (devices a)" "d_id d = l_device l" "l_memory l = mem" "l_id l = next_lease_id a"
        "u = leased a (d_id d)" "u + mem \<le> d_memory d"
        "b = a\<lparr>next_lease_id := size_t (next_lease_id a + 1), device_states := (device_states a)(d_id d \<mapsto> (u + mem, c')),
          allocations := (allocations a)(next_lease_id a \<mapsto> l)\<rparr>"
      using allocate_result [OF assms(1) Pair [unfolded Inr]] by auto
    have ok: "leases_ok a" "distinct (List.map d_id (devices a))" "\<forall>x\<in>set (devices a). device_ok a x"
      using assms(1) by (auto simp: allocator_inv_def)
    have fresh: "allocations a (next_lease_id a) = None"
      using ok(1) unfolding leases_ok_def by (meson less_irrefl not_None_eq)
    have leased: "leased b i = leased a i + (if l_device l = i then mem else 0)" for i
      using leased_insert [OF _ fresh, of b l i] ok(1) d(3,7) by (simp add: leases_ok_def)
    have next_id: "next_lease_id b = next_lease_id a + 1"
      using assms(2) d(7) by simp
    have dev: "device_ok b x" if "x \<in> set (devices a)" for x
    proof (cases "d_id x = d_id d")
      case True
      then have "x = d"
        using ok(2) that d(1) by (auto simp: distinct_map inj_on_def)
      with ok(3) d show ?thesis
        unfolding device_ok_def leased by auto
    next
      case False
      with ok(3) that d(2,7) show ?thesis
        unfolding device_ok_def leased by auto
    qed
    have "l_device l \<in> d_id ` set (devices a)"
      using d(1,2) by (metis imageI)
    then have "leases_ok b"
      using ok(1) d(4) unfolding leases_ok_def next_id by (auto simp: d(7) less_Suc_eq)
    with ok(2) dev d(7) Pair show ?thesis
      by (simp add: allocator_inv_def)
  qed
qed

lemma release_inv [wf_intros]:
  assumes "allocator_inv a"
  shows "allocator_inv (fst (release_lease F i a))"
proof (cases "allocations a i")
  case None
  with assms show ?thesis
    by (simp add: release_lease_def)
next
  case (Some l)
  have ok: "leases_ok a" "distinct (List.map d_id (devices a))" "\<forall>x\<in>set (devices a). device_ok a x"
    using assms by (auto simp: allocator_inv_def)
  then obtain d where d: "d \<in> set (devices a)" "d_id d = l_device l"
    using Some unfolding leases_ok_def by (metis imageE)
  obtain c where c: "device_states a (d_id d) = Some (leased a (d_id d), c)"
    using ok(3) d(1) by (auto simp: device_ok_def)
  define b where "b = fst (release_lease F i a)"
  have "(if l_memory l < x then x - l_memory l else 0) = x - l_memory l" for x
    by simp
  then have b: "b = a\<lparr>device_states := (device_states a)(d_id d \<mapsto> (leased a (d_id d) - l_memory l,
      if f_less F (l_compute l) c then f_sub F c (l_compute l) else f_num F 0)),
      allocations := (allocations a)(i := None)\<rparr>"
    using Some c unfolding b_def d(2) by (simp add: release_lease_def)
  have leased: "leased a k = leased b k + (if l_device l = k then l_memory l else 0)" for k
    using leased_delete [OF _ Some, of b k] ok(1) by (simp add: b leases_ok_def)
  have dev: "device_ok b x" if "x \<in> set (devices a)" for x
  proof (cases "d_id x = d_id d")
    case True
    with ok(3) that d(2) leased [of "d_id d"] show ?thesis
      by (auto simp: device_ok_def b)
  next
    case False
    with ok(3) that d(2) leased [of "d_id x"] show ?thesis
      by (auto simp: device_ok_def b)
  qed
  have "leases_ok b"
    using ok(1) by (auto simp: leases_ok_def b)
  with ok(2) dev show ?thesis
    unfolding b_def [symmetric] by (simp add: allocator_inv_def b)
qed


lemma new_lease_allocator_states:
  "foldl (\<lambda>m d. m(d_id d \<mapsto> s)) m ds i = (if i \<in> d_id ` set ds then Some s else m i)"
  by (induction ds arbitrary: m) auto

lemma new_lease_allocator_inv:
  assumes "distinct (List.map d_id ds)" and "\<forall>d\<in>set ds. d_memory d < 2 ^ 64"
  shows "allocator_inv (new_lease_allocator F ds)"
proof -
  have "leased (new_lease_allocator F ds) i = 0" for i
    by (simp add: leased_def leases_on_def new_lease_allocator_def)
  with assms show ?thesis
    by (simp add: allocator_inv_def leases_ok_def device_ok_def new_lease_allocator_def new_lease_allocator_states)
qed

datatype 'f lease_op = Allocate dev_type nat 'f | Release nat

fun lease_step :: "'f float_ops \<Rightarrow> 'f lease_allocator \<Rightarrow> 'f lease_op \<Rightarrow> 'f lease_allocator option" where
  "lease_step F a (Allocate ty mem compute) = Some (fst (allocate F ty mem compute a))"
| "lease_step F a (Release i) = Some (fst (release_lease F i a))"

lemma lease_step_inv:
  "allocator_inv a \<Longrightarrow> next_lease_id a + 1 < 2 ^ 64 \<Longrightarrow> succeeds (lease_step F a e) allocator_inv"
  by (cases e) (simp_all add: wf_intros)

interpretation leases: safe_machine "lease_step F" allocator_inv "\<lambda>a _. next_lease_id a + 1 < 2 ^ 64" for F
  by unfold_locales (rule lease_step_inv)

lemma lease_step_devices: "lease_step F a e = Some b \<Longrightarrow> devices b = devices a"
  by (cases e) (auto simp: allocate_def release_lease_def Let_def split: if_splits sum.splits prod.splits option.splits)

lemma run_devices: "run (lease_step F) a es = Some b \<Longrightarrow> devices b = devices a"
  by (induction es arbitrary: a) (auto simp: lease_step_devices split: Option.bind_splits)

text \<open>C33. Leases never exceed a device: after any sequence of allocations and releases, whatever the arithmetic of the compute
  fractions, the memory of the active leases on a device is what its state says is used and at most the
  memory it has, and every lease is on a device of the list.\<close>

theorem leases_within_memory:
  assumes "distinct (List.map d_id ds)" and "\<forall>d\<in>set ds. d_memory d < 2 ^ 64"
    and "run_ok (lease_step F) (\<lambda>a _. next_lease_id a + 1 < 2 ^ 64) (new_lease_allocator F ds) es"
  shows "\<exists>a. run (lease_step F) (new_lease_allocator F ds) es = Some a \<and>
    (\<forall>d\<in>set ds. (\<exists>c. device_states a (d_id d) = Some (leased a (d_id d), c)) \<and> leased a (d_id d) \<le> d_memory d) \<and>
    (\<forall>i l. allocations a i = Some l \<longrightarrow> l_device l \<in> d_id ` set ds)"
proof -
  obtain a where a: "run (lease_step F) (new_lease_allocator F ds) es = Some a" "allocator_inv a"
    using leases.run_safe [OF new_lease_allocator_inv [OF assms(1,2)] assms(3)] by (auto simp: succeeds_iff)
  moreover have "devices a = ds"
    using run_devices [OF a(1)] by (simp add: new_lease_allocator_def)
  ultimately show ?thesis
    by (auto simp: allocator_inv_def device_ok_def leases_ok_def)
qed

text \<open>A lease that is granted is on an available device of the requested type which had the memory left, under a number
  that no active lease has; a request that is refused changes nothing.\<close>

theorem allocate_grants:
  assumes "allocator_inv a" and "allocate F ty mem compute a = (b, r)"
  shows "case r of
      Inl _ \<Rightarrow> b = a
    | Inr l \<Rightarrow> (\<exists>d\<in>set (devices a). d_id d = l_device l \<and> d_type d = ty \<and> d_available d \<and>
        leased a (d_id d) + mem \<le> d_memory d) \<and>
        allocations a (l_id l) = None \<and> allocations b = (allocations a)(l_id l \<mapsto> l)"
proof (cases r)
  case (Inl e)
  then show ?thesis
    using assms(2) by (auto simp: allocate_def Let_def split: if_splits sum.splits prod.splits)
next
  case (Inr l)
  have "allocations a (next_lease_id a) = None"
    using assms(1) unfolding allocator_inv_def leases_ok_def by (meson less_irrefl not_None_eq)
  with allocate_result [OF assms(1) assms(2) [unfolded Inr]] show ?thesis
    unfolding Inr by auto
qed

subsection \<open>Placement\<close>

text \<open>A strict order up to ties: asymmetric, and its negation is transitive.\<close>

definition weak_order :: "('a \<Rightarrow> 'a \<Rightarrow> bool) \<Rightarrow> bool" where
  "weak_order better \<longleftrightarrow> (\<forall>x y z. \<not> better x y \<and> \<not> better y z \<longrightarrow> \<not> better x z) \<and> (\<forall>x y. better x y \<longrightarrow> \<not> better y x)"

lemma weak_orderD:
  assumes "weak_order better"
  shows "\<not> better x y \<Longrightarrow> \<not> better y z \<Longrightarrow> \<not> better x z" and "better x y \<Longrightarrow> \<not> better y x"
  using assms unfolding weak_order_def by blast+

lemma best_device_spec:
  assumes order: "weak_order better"
  shows "\<exists>r. best_device better mem ds (Some b) = Some r \<and> (r = b \<or> r \<in> set ds \<and> eligible mem r) \<and> \<not> better b r \<and>
    (\<forall>d\<in>set ds. eligible mem d \<longrightarrow> \<not> better d r)"
proof (induction ds arbitrary: b)
  case Nil
  then show ?case
    using weak_orderD(2) [OF order, of b b] by auto
next
  case (Cons d ds)
  show ?case
  proof (cases "eligible mem d \<and> better d b")
    case True
    with Cons.IH [of d] obtain r where r: "best_device better mem (d # ds) (Some b) = Some r"
        "r = d \<or> r \<in> set ds \<and> eligible mem r" "\<not> better d r" "\<forall>d\<in>set ds. eligible mem d \<longrightarrow> \<not> better d r"
      by auto
    have "\<not> better b r"
      using weak_orderD [OF order] r(3) True by blast
    with r True show ?thesis
      by auto
  next
    case False
    then have "best_device better mem (d # ds) (Some b) = best_device better mem ds (Some b)"
      by auto
    with Cons.IH [of b] obtain r where r: "best_device better mem (d # ds) (Some b) = Some r"
        "r = b \<or> r \<in> set ds \<and> eligible mem r" "\<not> better b r" "\<forall>d\<in>set ds. eligible mem d \<longrightarrow> \<not> better d r"
      by metis
    have "eligible mem d \<Longrightarrow> \<not> better d r"
      using weak_orderD(1) [OF order _ r(3), of d] False by blast
    with r show ?thesis
      by auto
  qed
qed

lemma best_device_none:
  assumes "weak_order better"
  shows "case best_device better mem ds None of
      None \<Rightarrow> \<forall>d\<in>set ds. \<not> eligible mem d
    | Some r \<Rightarrow> r \<in> set ds \<and> eligible mem r \<and> (\<forall>d\<in>set ds. eligible mem d \<longrightarrow> \<not> better d r)"
proof (induction ds)
  case (Cons d ds)
  show ?case
  proof (cases "eligible mem d")
    case True
    obtain r where "best_device better mem ds (Some d) = Some r" "r = d \<or> r \<in> set ds \<and> eligible mem r" "\<not> better d r"
        "\<forall>d\<in>set ds. eligible mem d \<longrightarrow> \<not> better d r"
      using best_device_spec [OF assms, of mem ds d] by metis
    with True show ?thesis
      by auto
  next
    case False
    with Cons.IH show ?thesis
      by (simp split: option.splits)
  qed
qed simp

text \<open>The placement policies find a best device, provided the \<open>float\<close>s are ordered, as those without NaN are: when a device is available with enough memory, \<open>LeastLoaded\<close>
  returns one with the most memory and \<open>AffinityBased\<close> one of the type of highest priority, none of
  that type being faster; without such a device both report an error.\<close>

theorem placement_best:
  assumes "weak_order (f_less F)"
  shows "(case select_least_loaded ds mem of
      Inl _ \<Rightarrow> \<forall>d\<in>set ds. \<not> eligible mem d
    | Inr i \<Rightarrow> \<exists>r\<in>set ds. d_id r = i \<and> eligible mem r \<and> (\<forall>d\<in>set ds. eligible mem d \<longrightarrow> d_memory d \<le> d_memory r)) \<and>
    (case select_affinity F ds mem of
      Inl _ \<Rightarrow> \<forall>d\<in>set ds. \<not> eligible mem d
    | Inr i \<Rightarrow> \<exists>r\<in>set ds. d_id r = i \<and> eligible mem r \<and>
        (\<forall>d\<in>set ds. eligible mem d \<longrightarrow> type_priority (d_type d) \<le> type_priority (d_type r) \<and>
          (type_priority (d_type d) = type_priority (d_type r) \<longrightarrow> \<not> f_less F (d_tflops r) (d_tflops d))))"
proof -
  have "\<not> preferred_to F x z" if "\<not> preferred_to F x y" "\<not> preferred_to F y z" for x y z
    using that weak_orderD(1) [OF assms, of "d_tflops z" "d_tflops y" "d_tflops x"] by (auto simp: preferred_to_def)
  moreover have "\<not> preferred_to F y x" if "preferred_to F x y" for x y
    using that weak_orderD(2) [OF assms, of "d_tflops y" "d_tflops x"] by (auto simp: preferred_to_def)
  ultimately have "weak_order (preferred_to F)"
    unfolding weak_order_def by blast
  then have "case best_device (preferred_to F) mem ds None of None \<Rightarrow> \<forall>d\<in>set ds. \<not> eligible mem d
    | Some r \<Rightarrow> r \<in> set ds \<and> eligible mem r \<and> (\<forall>d\<in>set ds. eligible mem d \<longrightarrow> \<not> preferred_to F d r)"
    by (rule best_device_none)
  moreover have "case best_device (\<lambda>dev b. d_memory dev > d_memory b) mem ds None of None \<Rightarrow> \<forall>d\<in>set ds. \<not> eligible mem d
    | Some r \<Rightarrow> r \<in> set ds \<and> eligible mem r \<and> (\<forall>d\<in>set ds. eligible mem d \<longrightarrow> \<not> d_memory d > d_memory r)"
    by (rule best_device_none) (auto simp: weak_order_def)
  ultimately show ?thesis
    by (auto simp: select_least_loaded_def select_affinity_def result_of_def no_device_def preferred_to_def not_less
        split: option.splits)
qed

lemma mset_rotate1: "mset (rotate1 xs) = mset xs"
  by (cases xs) auto

text \<open>Consecutive requests under round robin.\<close>

fun rr_requests :: "nat \<Rightarrow> 'f device list \<Rightarrow> nat \<Rightarrow> nat \<Rightarrow> (string + nat) list" where
  "rr_requests rr ds mem 0 = []"
| "rr_requests rr ds mem (Suc n) = (let (rr', r) = select_round_robin rr ds mem in r # rr_requests rr' ds mem n)"

lemma rr_requests_spec:
  assumes "es = filter (eligible mem) ds" and "es \<noteq> []" and "length es < 2 ^ 32" and "rr + n < 2 ^ 32"
  shows "rr_requests rr ds mem n = List.map (\<lambda>j. Inr (d_id (es ! ((rr + j) mod length es)))) [0..<n]"
  using assms(4)
proof (induction n arbitrary: rr)
  case (Suc n)
  have "select_round_robin rr ds mem = (rr + 1, Inr (d_id (es ! (rr mod length es))))"
    using assms(1-3) Suc.prems by (simp add: select_round_robin_def Let_def)
  moreover have "rr_requests (rr + 1) ds mem n = List.map (\<lambda>j. Inr (d_id (es ! ((rr + 1 + j) mod length es)))) [0..<n]"
    using Suc.IH [of "rr + 1"] Suc.prems by simp
  moreover have "[0..<Suc n] = 0 # List.map Suc [0..<n]"
    by (simp add: map_Suc_upt upt_conv_Cons)
  ultimately show ?case
    by (simp add: comp_def)
qed simp

text \<open>Round robin is fair: until its counter wraps, as many consecutive requests as there are eligible devices go to every
  one of them exactly once.\<close>

theorem round_robin_fair:
  assumes "es = filter (eligible mem) ds" and "es \<noteq> []" and "length es < 2 ^ 32" and "rr + length es < 2 ^ 32"
  shows "mset (rr_requests rr ds mem (length es)) = mset (List.map (Inr \<circ> d_id) es)"
proof -
  let ?n = "length es"
  have "rr_requests rr ds mem ?n = List.map (Inr \<circ> d_id) (List.map (\<lambda>j. es ! ((rr + j) mod ?n)) [0..<?n])"
    using rr_requests_spec [OF assms] by simp
  also have "List.map (\<lambda>j. es ! ((rr + j) mod ?n)) [0..<?n] = rotate rr es"
    by (rule nth_equalityI) (simp_all add: nth_rotate)
  finally have "rr_requests rr ds mem ?n = List.map (Inr \<circ> d_id) (rotate rr es)" .
  moreover have "mset (rotate rr es) = mset es"
    by (induction rr) (simp_all add: mset_rotate1)
  ultimately show ?thesis
    by (simp only: mset_map)
qed

subsection \<open>Two devices\<close>

definition percent_ops :: "nat float_ops" where
  "percent_ops = \<lparr>f_num = \<lambda>n. 100 * n, f_tenth = 10, f_minus_one = 0, f_less = (<), f_leq = (\<le>), f_add = (+), f_sub = (-),
     f_mul = (\<lambda>x y. x * y div 100), f_div = (\<lambda>x y. 100 * x div y), f_string = dec_nat\<rparr>"

definition two_devices :: "nat device list" where
  "two_devices =
     [\<lparr>d_id = 0, d_type = CPU, d_name = ''cpu'', d_memory = 1000, d_tflops = 100, d_available = True\<rparr>,
      \<lparr>d_id = 7, d_type = CUDA, d_name = ''gpu'', d_memory = 500, d_tflops = 900, d_available = True\<rparr>]"

lemma leases_within_memory_witness:
  "\<exists>a. run (lease_step percent_ops) (new_lease_allocator percent_ops two_devices) [Allocate CUDA 400 50, Allocate CUDA 200 10] = Some a \<and>
     leased a 7 \<le> 500"
proof -
  have ids: "distinct (List.map d_id two_devices)" "\<forall>d\<in>set two_devices. d_memory d < 2 ^ 64"
    by (simp_all add: two_devices_def)
  have ok: "run_ok (lease_step percent_ops) (\<lambda>a _. next_lease_id a + 1 < 2 ^ 64) (new_lease_allocator percent_ops two_devices)
      [Allocate CUDA 400 50, Allocate CUDA 200 10]"
    by (simp add: allocate_def Let_def new_lease_allocator_def split: sum.splits prod.splits)
  from leases_within_memory [OF ids this] show ?thesis
    by (auto simp: two_devices_def)
qed

lemma placement_best_witness:
  "select_least_loaded two_devices 300 = Inr 0 \<and> select_affinity percent_ops two_devices 300 = Inr 7"
proof -
  have "weak_order (f_less percent_ops)"
    by (auto simp: weak_order_def percent_ops_def)
  from placement_best [OF this, of two_devices 300] show ?thesis
    by (auto simp: two_devices_def eligible_def split: sum.splits)
qed

lemma round_robin_fair_witness:
  "mset (rr_requests 5 two_devices 300 2) = {#Inr 0, Inr 7#}"
proof -
  have es: "two_devices = filter (eligible 300) two_devices"
    by (simp add: two_devices_def eligible_def)
  have "two_devices \<noteq> []" "length two_devices = 2" "image_mset (Inr \<circ> d_id) (mset two_devices) = {#Inr 0, Inr 7#}"
    by (simp_all add: two_devices_def)
  with round_robin_fair [OF es, of 5] show ?thesis
    by simp
qed

end
