(* ===== verification/Spec2Isabelle.thy ===== *)
theory Spec2Isabelle
  imports Compositor Terminal_Props Editor_Search Task_Queue Tensor_FS Graph_Passes Lowering Pmem_Checkpoint Pmem_Alloc Splice_Ring Entropy_Source Fabric_Search Vpu_Props Rhem
begin

text \<open>
  A verification library for the cores of StrayLight OS.

  \<^bold>\<open>The program.\<close>  The repository is an operating-system distribution: a terminal emulator and other
  desktop programs (\<open>apps\<close>), system daemons (\<open>bin\<close>), kernel modules (\<open>kernel\<close>), services, a compositor
  and command-line tools.  The development models the parts that carry logic of their own and keep
  state.  Theories, code, and what is shown:

  \<^item> \<open>Terminal_State\<close>, \<open>Terminal_Grid\<close>, \<open>Terminal_Parser\<close>: the terminal emulator \<open>Vte\<close>
    (\<open>apps/terminal/vte.cpp\<close>), its records and colours, the operations on the grid, the UTF-8 decoder
    and the escape-sequence state machine.  \<open>Terminal_Spec\<close> states what the loops over the rows amount
    to, \<open>Terminal_Safety\<close> proves that no operation leaves the vectors, \<open>Terminal_Props\<close> that a session
    of input and resizes is safe, that the dirty flag announces changes and the alternate screen
    restores the primary one.
  \<^item> \<open>Task_Queue\<close>: the agent's task queue (\<open>bin/agent/task_queue.cpp\<close>), a binary heap that refines a bag.
  \<^item> \<open>Block_Codec\<close>, \<open>Block_Cache\<close>, \<open>Fuse_Ops\<close>: the tensor file system (\<open>bin/fuse\<close>): \<open>compression.cpp\<close>
    with its round trip, the two LRU caches of \<open>cache.cpp\<close> and \<open>tensor_fs.cpp\<close> with the accounting of
    their bytes, and \<open>operations.cpp\<close>, which calls both and implements plain files; its answers are the \<open>int\<close>
    that the code returns, a \<open>size_t\<close> cast to 32 bits.
    \<open>Tensor_Format\<close> is the header format (\<open>tensor_format.cpp\<close>), \<open>Tensor_FS\<close> the callbacks of
    \<open>tensor_fs.cpp\<close> over it.
  \<^item> \<open>Graph_IR\<close>, \<open>Graph_Order\<close>, \<open>Graph_Passes\<close>, \<open>Lowering\<close>: the tensor compiler (\<open>bin/compiler/ir\<close>): the
    graph and its JSON, Kahn's algorithm, the optimisation passes with an evaluation of graphs that
    a run of each pass, over all its candidates, preserves, and the text for the back ends; \<open>Decimal\<close> is \<open>std::to_string\<close>.
  \<^item> \<open>Pmem_Log\<close>, \<open>Pmem_Alloc\<close>, \<open>Pmem_Checkpoint\<close>: persistent memory (\<open>bin/pmem\<close>): the write-ahead log as
    bytes of a mapping, refining a list of entries within its capacity while it is reopened without
    shrinking, and surviving a crash between any two of its stores (\<open>next_lsn\<close> and \<open>write_offset\<close>
    are two stores); the first-fit allocator with its headers in the memory it manages; checkpoints,
    replaced atomically by renaming.
    \<open>Bytes\<close> and \<open>Memory\<close> have the byte-level vocabulary.
  \<^item> \<open>Splice_Ring\<close>: the lock-free ring of \<open>services/splice/splice_ring.h\<close>, alone and with a producer and a
    consumer interleaved access by access: FIFO, no race on a byte, wait-free.
  \<^item> \<open>Entropy_Health\<close>, \<open>Entropy_Source\<close>: the kernel's entropy source (\<open>kernel/entropy\<close>): health tests
    against a specification over the history of samples, the processor's generators, the jitter
    collector, and the mixing read.
  \<^item> \<open>Fabric_Graph\<close>, \<open>Fabric_Search\<close>: the device topology (\<open>services/fabric/topology.h\<close>): the adjacency
    index, the fuzzy match, and the two path searches, shown optimal.
  \<^item> \<open>Vpu_Slab\<close>, \<open>Vpu_Driver\<close>, \<open>Vpu_Props\<close>: the VPU memory driver (\<open>kernel/vpu\<close>): block pools, the table of
    allocations and the ioctls, dma-buf sharing, and any number of threads whose requests interleave
    between their locks.  Users write through their mappings at any time and anywhere, since FREE does
    not revoke a mapping: a new block reads as zero but for the addresses written since their block was
    last released (\<open>vpu_fresh_block_zero\<close>, \<open>vpu_late_write_shows\<close>).
  \<^item> \<open>Editor_Buffer\<close>: the text buffer of the editor (\<open>apps/editor/buffer.cpp\<close>): the gap buffer against the text it
    holds, the line index, and undo and redo against the list of the session's texts.
  \<^item> \<open>Editor_Search\<close>: find and replace over that buffer (\<open>apps/editor/search.cpp\<close>): the matches found are the
    occurrences in the text, all of them, and the next and previous ones.  \<open>std::regex\<close> is an argument.
  \<^item> \<open>Compositor\<close>: the windows of the compositor (\<open>compositor/tiling.cpp\<close>, \<open>workspace.cpp\<close>, parts of \<open>view.cpp\<close>):
    the layout places the views apart and inside the output, the workspace lists the mapped views, and
    what the focus keys reach.
  \<^item> \<open>Rhem\<close>: the manager of heterogeneous devices (\<open>bin/rhem\<close>): leases, which never exceed the memory of a device,
    the placement policies, with the best device and a fair round robin, and migration plans.

  \<^bold>\<open>Interfaces.\<close>  \<open>Prelude\<close> states them as locales.  \<open>safe_machine\<close>: operations that keep an invariant
  and have no undefined behaviour (the terminal, the task queue, the block cache, the compiler's graph,
  the topology, the compositor's workspace, the device leases).  \<open>related\<close>, and its special case
  \<open>simulation\<close>: every operation is a step of a specification (the file system, the log, the ring, the
  health tests, the allocator, the editor).  \<open>invariant_system\<close>: an invariant of an interleaved system
  (the VPU driver, alone and watched by a record of the addresses its users write).  \<open>Fabric_Search\<close> adds \<open>path_search\<close>, the contract of the search both path functions
  instantiate.  Each is interpreted on the model's own definitions.

  \<^bold>\<open>Conventions.\<close>  C++ objects are records of their data members; a member function is a definition
  that returns the updated record.  \<open>None\<close> stands for undefined behaviour: an access outside a
  vector or a mapping, the overflow of an \<open>int\<close>, a dead iterator, a freed record.  A
  \<open>Result<T, std::string>\<close> is a value of \<open>string + T\<close>, and a \<open>Result<T, SLError>\<close> has the code and the
  message on the left.  Bytes and fixed-width integers whose
  wrap-around matters are words; \<open>int\<close> is \<open>int\<close> with the range test \<open>i32\<close>; \<open>size_t\<close> is \<open>nat\<close>
  reduced by \<open>size_t\<close> wherever the code can exceed \<open>2 ^ 64\<close>.  A mutex makes an operation atomic, so
  that a concurrent run is a sequence of operations, except where the code unlocks in between: there
  the steps between locks are modelled.

  \<^bold>\<open>Parameters.\<close>  What is not under \<open>src\<close> is an argument: the iteration order of hash containers, the
  outcome of system and kernel calls, the answers of the processor (RDRAND, the time-stamp counter),
  the order and the arithmetic of floating-point numbers, the backing store of a file system, the time
  of day.  The JSON library is not modelled; documents are the values handed to it.

  \<^bold>\<open>Loops.\<close>  Loops are structural recursion or \<open>fun\<close> with a measure where they end; searches that
  follow pointers or a queue are \<open>partial_function (option)\<close>, and the theorems say that they return.
  \<open>entropy_read\<close> counts its rounds with fuel because the code retries without bound;
  \<open>entropy_read_sound\<close> holds for every number of rounds, and \<open>entropy_read_hangs\<close> shows a run that no
  number of rounds ends.

  \<^bold>\<open>Not modelled.\<close>  Programs whose substance is I/O over libraries outside the repository (Wayland, GTK,
  D-Bus, libfuse, RDMA verbs, SGX), sysfs and /proc scans, process control, the parsing of command
  lines, log messages and rendering; floating-point algorithms (neural simulation, scheduling by
  load), whose results depend on rounding that HOL does not have.
\<close>

end
